(* ===== verification/Prelude.thy ===== *)
theory Prelude
  imports Main "HOL-Library.Word" "HOL-Library.Multiset"
begin

section \<open>Shared vocabulary: C types, C strings, fixed-width integers, lists\<close>

text \<open>
  The programs of the repository are written in C.  This theory fixes the vocabulary in which the
  component theories translate them: names for the fixed-width integer types, the conversion of a
  mathematical integer to a 32-bit \<^verbatim>\<open>int\<close>, NUL-terminated strings, and list lemmas used by more
  than one component.  \<open>cbytes\<close> collects rewrite rules on C strings, \<open>listidx\<close> rules on lists
  accessed by index.
\<close>

named_theorems cbytes "rewrite rules for NUL-terminated strings"
named_theorems listidx "rewrite rules for lists accessed by index"

type_synonym u8 = "8 word"
type_synonym u16 = "16 word"
type_synonym u32 = "32 word"
type_synonym u64 = "64 word"

text \<open>Conversion to \<^verbatim>\<open>int32_t\<close>: two's complement wrap-around, as the compiler does it.\<close>

definition to_i32 :: "int \<Rightarrow> int" where
  "to_i32 x = (x + 2 ^ 31) mod 2 ^ 32 - 2 ^ 31"

definition is_i32 :: "int \<Rightarrow> bool" where
  "is_i32 x \<longleftrightarrow> - (2 ^ 31) \<le> x \<and> x < 2 ^ 31"

lemma to_i32_id [simp]: "is_i32 x \<Longrightarrow> to_i32 x = x"
  by (simp add: to_i32_def is_i32_def)

lemma is_i32_to_i32 [simp]: "is_i32 (to_i32 x)"
  by (simp add: to_i32_def is_i32_def)

text \<open>Conversion to \<^verbatim>\<open>size_t\<close> on a 64-bit machine.\<close>

definition to_size :: "int \<Rightarrow> int" where
  "to_size x = x mod 2 ^ 64"

lemma to_size_id [simp]: "0 \<le> x \<Longrightarrow> x < 2 ^ 64 \<Longrightarrow> to_size x = x"
  by (simp add: to_size_def)

lemma to_size_nonneg [simp]: "0 \<le> to_size x"
  by (simp add: to_size_def)

subsection \<open>Words as natural numbers\<close>

text \<open>Shifts, truncating casts and constants, read as natural numbers.\<close>

lemma unat_lt: "unat (w :: 'a::len word) < 2 ^ LENGTH('a)"
  by (fact unsigned_less)

lemma unat_shiftr: "unat (drop_bit n (w :: 'a::len word)) = unat w div 2 ^ n"
  by (simp only: unat_drop_bit_eq) (simp add: drop_bit_eq_div)

lemma unat_shiftl: "unat (push_bit n (w :: 'a::len word)) = unat w * 2 ^ n mod 2 ^ LENGTH('a)"
  by (simp only: unsigned_push_bit_eq) (simp add: push_bit_eq_mult take_bit_eq_mod mult.commute)

lemma unat_cast: "unat (ucast (w :: 'a::len word) :: 'b::len word) = unat w mod 2 ^ LENGTH('b)"
  by (simp add: unsigned_ucast_eq take_bit_eq_mod)

lemma unat_of_nat_small:
  "n < 2 ^ LENGTH('a) \<Longrightarrow> unat (of_nat n :: 'a::len word) = n"
  by (simp only: unat_of_nat) (simp add: take_bit_eq_mod)

lemma unat_minus_1: "unat (- 1 :: 'a::len word) = 2 ^ LENGTH('a) - 1"
  by (simp add: unsigned_minus_1_eq_mask mask_eq_exp_minus_1)

lemmas unat_bits = unat_shiftr unat_shiftl unat_cast unat_minus_1

subsection \<open>C strings\<close>

definition NUL :: char where
  "NUL = CHR 0x00"

text \<open>The string a \<^verbatim>\<open>char *\<close> points to: everything up to the first NUL.\<close>

definition cstr :: "char list \<Rightarrow> char list" where
  "cstr buf = takeWhile (\<lambda>c. c \<noteq> NUL) buf"

lemma cstr_simps [simp, cbytes]:
  "cstr [] = []"
  "cstr (c # cs) = (if c = NUL then [] else c # cstr cs)"
  by (simp_all add: cstr_def)

lemma cstr_append_NUL [simp, cbytes]: "NUL \<notin> set s \<Longrightarrow> cstr (s @ NUL # t) = s"
  by (induction s) auto

lemma cstr_no_NUL [simp, cbytes]: "NUL \<notin> set s \<Longrightarrow> cstr s = s"
  by (induction s) auto

lemma NUL_notin_cstr [simp]: "NUL \<notin> set (cstr s)"
  by (induction s) auto

text \<open>A decimal digit and its value.\<close>

definition is_digit :: "char \<Rightarrow> bool" where
  "is_digit c \<longleftrightarrow> 48 \<le> (of_char c :: nat) \<and> (of_char c :: nat) \<le> 57"

text \<open>\<^verbatim>\<open>isspace\<close> in the C locale.\<close>

definition is_ws :: "char \<Rightarrow> bool" where
  "is_ws c \<longleftrightarrow> c = CHR '' '' \<or> 9 \<le> (of_char c :: nat) \<and> (of_char c :: nat) \<le> 13"

lemma newline_char: "is_ws (CHR 0x0A)" "\<not> is_digit (CHR 0x0A)" "is_ws (CHR '' '')" "\<not> is_digit (CHR '' '')"
  by (simp_all add: is_ws_def is_digit_def)

lemma digit_not_ws: "is_digit c \<Longrightarrow> \<not> is_ws c"
  by (auto simp: is_ws_def is_digit_def)

definition digit_val :: "char \<Rightarrow> nat" where
  "digit_val c = of_char c - 48"

definition digit_char :: "nat \<Rightarrow> char" where
  "digit_char d = char_of (48 + d)"

lemma digit_char_digit [simp]: "d < 10 \<Longrightarrow> is_digit (digit_char d)"
  by (simp add: is_digit_def digit_char_def)

lemma digit_val_char [simp]: "d < 10 \<Longrightarrow> digit_val (digit_char d) = d"
  by (simp add: digit_val_def digit_char_def)

text \<open>The value of a digit string, most significant digit first.\<close>

definition dec_val :: "char list \<Rightarrow> nat" where
  "dec_val s = foldl (\<lambda>a c. 10 * a + digit_val c) 0 s"

lemma dec_val_simps [simp]:
  "dec_val [] = 0"
  "dec_val (s @ [c]) = 10 * dec_val s + digit_val c"
  by (simp_all add: dec_val_def)

subsection \<open>Lists accessed by index\<close>

lemma take_drop_nth [listidx]:
  "i < length xs \<Longrightarrow> drop i xs = xs ! i # drop (Suc i) xs"
  by (simp add: Cons_nth_drop_Suc)

lemma take_Suc_snoc [listidx]:
  "i < length xs \<Longrightarrow> take (Suc i) xs = take i xs @ [xs ! i]"
  by (simp add: take_Suc_conv_app_nth)

lemma append_take_drop_mid:
  "i \<le> j \<Longrightarrow> take i xs @ take (j - i) (drop i xs) = take j xs"
  by (metis le_add_diff_inverse take_add)

text \<open>\<open>overwrite xs p ys\<close>: the list \<open>xs\<close> with \<open>ys\<close> written over it from position \<open>p\<close>.\<close>

definition overwrite :: "'a list \<Rightarrow> nat \<Rightarrow> 'a list \<Rightarrow> 'a list" where
  "overwrite xs p ys = take p xs @ ys @ drop (p + length ys) xs"

lemma length_overwrite [simp, listidx]:
  "p + length ys \<le> length xs \<Longrightarrow> length (overwrite xs p ys) = length xs"
  by (simp add: overwrite_def)

lemma overwrite_Nil [simp, listidx]: "overwrite xs p [] = xs"
  by (simp add: overwrite_def)

lemma nth_overwrite [listidx]:
  "p + length ys \<le> length xs \<Longrightarrow> i < length xs \<Longrightarrow>
   overwrite xs p ys ! i = (if p \<le> i \<and> i < p + length ys then ys ! (i - p) else xs ! i)"
  by (auto simp: overwrite_def nth_append min_def)

lemma overwrite_append [listidx]:
  "p \<le> length xs \<Longrightarrow>
   overwrite (overwrite xs p ys) (p + length ys) zs = overwrite xs p (ys @ zs)"
  by (simp add: overwrite_def ac_simps)

text \<open>\<open>slice l r xs\<close>: the elements of \<open>xs\<close> from index \<open>l\<close> up to, not including, \<open>r\<close>.\<close>

definition slice :: "nat \<Rightarrow> nat \<Rightarrow> 'a list \<Rightarrow> 'a list" where
  "slice l r xs = take (r - l) (drop l xs)"

lemma length_slice [simp]: "r \<le> length xs \<Longrightarrow> length (slice l r xs) = r - l"
  by (simp add: slice_def)

lemma slice_append [listidx]: "l \<le> m \<Longrightarrow> m \<le> r \<Longrightarrow> slice l m xs @ slice m r xs = slice l r xs"
proof -
  assume "l \<le> m" "m \<le> r"
  then have "drop m xs = drop (m - l) (drop l xs)" and "r - l = (m - l) + (r - m)" by auto
  then show ?thesis by (simp only: slice_def take_add)
qed

lemma slice_overwrite_same [listidx]:
  "p \<le> length xs \<Longrightarrow> slice p (p + length ys) (overwrite xs p ys) = ys"
  by (simp add: slice_def overwrite_def)

lemma slice_overwrite_before [listidx]:
  "r \<le> p \<Longrightarrow> p \<le> length xs \<Longrightarrow> slice l r (overwrite xs p ys) = slice l r xs"
  by (cases "l \<le> r") (auto simp: slice_def overwrite_def take_drop min_def)

lemma slice_overwrite_after [listidx]:
  "p + length ys \<le> l \<Longrightarrow> p \<le> length xs \<Longrightarrow> slice l r (overwrite xs p ys) = slice l r xs"
  by (simp add: slice_def overwrite_def)

text \<open>Sorting a list whose front part already holds the smallest elements in order.\<close>

lemma sort_split_front:
  fixes ys :: "'a::linorder list"
  assumes "sorted ys" and "mset ys + mset zs = mset xs" and "\<forall>y \<in> set ys. \<forall>z \<in> set zs. y \<le> z"
  shows "sort xs = ys @ sort zs"
  using assms by (intro properties_for_sort) (auto simp: sorted_append)

lemma slice_Cons [listidx]:
  "l < r \<Longrightarrow> r \<le> length xs \<Longrightarrow> slice l r xs = xs ! l # slice (Suc l) r xs"
proof -
  assume "l < r" "r \<le> length xs"
  then have "drop l xs = xs ! l # drop (Suc l) xs" and "r - l = Suc (r - Suc l)"
    by (auto simp: Cons_nth_drop_Suc)
  then show ?thesis by (simp add: slice_def)
qed

lemma slice_same [simp]: "slice l l xs = []"
  by (simp add: slice_def)

lemma set_slice_subset: "set (slice l r xs) \<subseteq> set (drop l xs)"
  by (auto simp: slice_def dest: in_set_takeD)

lemma sorted_drop_ge: "sorted xs \<Longrightarrow> i < length xs \<Longrightarrow> z \<in> set (drop i xs) \<Longrightarrow> xs ! i \<le> z"
  by (metis Cons_nth_drop_Suc set_ConsD sorted_simps(2) sorted_wrt_drop order_refl)

lemma overwrite_twice [listidx]:
  "p \<le> length xs \<Longrightarrow> length ys = length zs \<Longrightarrow> overwrite (overwrite xs p ys) p zs = overwrite xs p zs"
  by (simp add: overwrite_def)

lemma set_overwrite_subset: "set (overwrite xs p ys) \<subseteq> set xs \<union> set ys"
  by (auto simp: overwrite_def dest: in_set_takeD in_set_dropD)

lemma set_slice_subset': "set (slice l r xs) \<subseteq> set xs"
  using set_slice_subset [of l r xs] set_drop_subset [of l xs] by blast

subsection \<open>Copying into buffers\<close>

text \<open>Bytes copied into a buffer; \<open>None\<close> is a write outside of it.\<close>

definition copy_to :: "char list \<Rightarrow> nat \<Rightarrow> char list \<Rightarrow> char list option" where
  "copy_to buf pos bs = (if pos + length bs \<le> length buf then Some (overwrite buf pos bs) else None)"

text \<open>What \<^verbatim>\<open>strncpy\<close> copies: the string, filled up with NULs.\<close>

definition strncpy_bytes :: "char list \<Rightarrow> nat \<Rightarrow> char list" where
  "strncpy_bytes src n = (let s = cstr (take n src) in s @ replicate (n - length s) NUL)"


lemma copy_to_ok: "pos + length bs \<le> length buf \<Longrightarrow> copy_to buf pos bs = Some (overwrite buf pos bs)"
  by (simp add: copy_to_def)

lemma strncpy_plain: "NUL \<notin> set (take n w) \<Longrightarrow> n \<le> length w \<Longrightarrow> strncpy_bytes w n = take n w"
  by (simp add: strncpy_bytes_def Let_def)

lemma length_strncpy [simp]: "length (strncpy_bytes w n) = n"
proof -
  have "length (cstr (take n w)) \<le> n"
    unfolding cstr_def using length_takeWhile_le[of "\<lambda>c. c \<noteq> NUL" "take n w"] by simp
  then show ?thesis by (simp add: strncpy_bytes_def Let_def)
qed

subsection \<open>Sums over threads\<close>

text \<open>A sum over the threads when only one of them moves.\<close>

lemma sum_move:
  fixes f :: "nat \<Rightarrow> 'a::comm_monoid_add"
  assumes "t < n" "\<forall>u. u \<noteq> t \<longrightarrow> g u = f u"
  shows "(\<Sum>u<n. g u) + f t = (\<Sum>u<n. f u) + g t"
proof -
  have "(\<Sum>u<n. h u) = h t + (\<Sum>u\<in>{..<n} - {t}. h u)" for h :: "nat \<Rightarrow> 'a"
    using assms(1) by (simp add: sum.remove)
  moreover have "(\<Sum>u\<in>{..<n} - {t}. g u) = (\<Sum>u\<in>{..<n} - {t}. f u)"
    using assms(2) by (intro sum.cong) auto
  ultimately show ?thesis by (metis add.commute add.left_commute)
qed

end
