(* ===== verification/WordPrograms.thy ===== *)
theory WordPrograms
  imports Prelude
begin

section \<open>Small integer programs: satsum, ieee754 classify, min-bytes-for-hex\<close>

text \<open>
  \<^verbatim>\<open>satsum/main.c\<close> adds 16-bit numbers with saturation, \<^verbatim>\<open>generic-ieee754-classify/main.c\<close>
  sorts a double into ten classes by its bit fields, \<^verbatim>\<open>min-bytes-for-hex/main.c\<close> prints how many
  bytes each hexadecimal argument needs.  All three are pure functions of words or strings; the
  double is its 64-bit pattern, which is what the union of the source reads.
\<close>

unbundle bit_operations_syntax

subsection \<open>satsum\<close>

definition satsum :: "u16 \<Rightarrow> u16 \<Rightarrow> u16" where
  "satsum x y =
     (let sum = x + y in
      if sum \<ge> x \<and> sum \<ge> y then sum
      else (let sum = 0 in sum - 1))"

lemma unat_plus_u16: "unat (x + y :: u16) = (unat x + unat y) mod 65536"
  by (simp add: unat_word_ariths)

text \<open>the sum saturates: it is the true sum, cut off at the largest 16-bit value.\<close>

lemma satsum_saturates: "unat (satsum x y) = min (unat x + unat y) 65535"
proof -
  have bx: "unat x < 65536" and by': "unat y < 65536"
    using unat_lt [of x] unat_lt [of y] by simp_all
  show ?thesis
  proof (cases "unat x + unat y < 65536")
    case True
    then have "unat (x + y) = unat x + unat y" by (simp add: unat_plus_u16)
    with True show ?thesis
      by (simp add: satsum_def word_le_nat_alt)
  next
    case False
    with bx by' have "(unat x + unat y) mod 65536 = unat x + unat y - 65536"
      by (simp add: mod_if)
    with False bx by' have "unat (x + y) < unat x"
      by (simp add: unat_plus_u16)
    moreover have "unat (- 1 :: u16) = 65535" by (simp add: unat_minus_1)
    ultimately show ?thesis using False
      by (simp add: satsum_def word_le_nat_alt)
  qed
qed

subsection \<open>ieee754 classify\<close>

datatype float_class =
    PlusZero | MinusZero | PlusInf | MinusInf | PlusRegular | MinusRegular
  | PlusDenormal | MinusDenormal | SignalingNaN | QuietNaN

text \<open>
  The fields as the source extracts them, by shifting left and right on 64 bits.  The uint8 and
  uint16 locals are the truncating casts.
\<close>

definition sign_field :: "u64 \<Rightarrow> u8" where
  "sign_field b = ucast (drop_bit 63 b)"

definition exp_field :: "u64 \<Rightarrow> u16" where
  "exp_field b = ucast (drop_bit 53 (push_bit 1 b))"

definition mantissa_field :: "u64 \<Rightarrow> u64" where
  "mantissa_field b = drop_bit 12 (push_bit 12 b)"

definition classify :: "u64 \<Rightarrow> float_class" where
  "classify b =
     (let S = sign_field b; E = exp_field b; M = mantissa_field b in
      if E = 0 \<and> M = 0 \<and> S = 0 then PlusZero
      else if E = 0 \<and> M = 0 then MinusZero
      else if E = 0x7FF \<and> M = 0 \<and> S = 0 then PlusInf
      else if E = 0x7FF \<and> M = 0 then MinusInf
      else if E = 0x7FF \<and> M \<noteq> 0 \<and> drop_bit 51 M AND 1 = 0 then SignalingNaN
      else if E = 0x7FF then QuietNaN
      else if E = 0 \<and> S = 0 then PlusDenormal
      else if E = 0 then MinusDenormal
      else if S = 0 then PlusRegular
      else MinusRegular)"

text \<open>The bit pattern with sign \<open>s\<close>, exponent \<open>e\<close> and mantissa \<open>m\<close>.\<close>

definition pattern :: "bool \<Rightarrow> nat \<Rightarrow> nat \<Rightarrow> u64" where
  "pattern s e m = of_nat ((if s then 2 ^ 63 else 0) + e * 2 ^ 52 + m)"

text \<open>What IEEE 754 says of these fields.\<close>

definition ieee_class :: "bool \<Rightarrow> nat \<Rightarrow> nat \<Rightarrow> float_class" where
  "ieee_class s e m =
     (if e = 0 then (if m = 0 then (if s then MinusZero else PlusZero)
                     else if s then MinusDenormal else PlusDenormal)
      else if e = 2047 then
        (if m = 0 then (if s then MinusInf else PlusInf)
         else if m < 2 ^ 51 then SignalingNaN else QuietNaN)
      else if s then MinusRegular else PlusRegular)"

lemma unat_pattern:
  assumes "e < 2 ^ 11" "m < 2 ^ 52"
  shows "unat (pattern s e m) = (if s then 2 ^ 63 else 0) + e * 2 ^ 52 + m"
proof -
  have "(if s then 2 ^ 63 else 0) + e * 2 ^ 52 + m < (2::nat) ^ 64"
    using assms by simp
  then show ?thesis
    unfolding pattern_def by (subst unat_of_nat_small) simp_all
qed

lemma unat_sign_field: "unat (sign_field b) = unat b div 2 ^ 63"
proof -
  have "unat b div 2 ^ 63 < 2"
    using unat_lt [of b] by (simp add: less_mult_imp_div_less)
  then show ?thesis
    by (simp add: sign_field_def unat_bits)
qed

lemma unat_exp_field: "unat (exp_field b) = unat b div 2 ^ 52 mod 2 ^ 11"
proof -
  have "unat b * 2 mod 2 ^ 64 = 2 * (unat b mod 2 ^ 63)"
    using mult_mod_right [of 2 "unat b" "2 ^ 63"] by (simp add: mult.commute)
  then have "unat b * 2 mod 2 ^ 64 div 2 ^ 53 = unat b mod 2 ^ 63 div 2 ^ 52"
    by (simp add: div_mult2_eq)
  also have "\<dots> = unat b div 2 ^ 52 mod 2 ^ 11"
    by (simp add: mod_mult2_eq [of _ "2 ^ 52" "2 ^ 11", simplified])
  finally show ?thesis
    by (simp only: exp_field_def unat_bits) simp
qed

lemma unat_mantissa_field: "unat (mantissa_field b) = unat b mod 2 ^ 52"
proof -
  have "unat b * 2 ^ 12 mod 2 ^ 64 = 2 ^ 12 * (unat b mod 2 ^ 52)"
    using mult_mod_right [of "2 ^ 12" "unat b" "2 ^ 52"] by (simp add: mult.commute)
  then show ?thesis
    by (simp add: mantissa_field_def unat_bits)
qed

text \<open>every bit pattern gets the class IEEE 754 gives its sign, exponent and mantissa.\<close>

lemma classify_ieee:
  "classify b = ieee_class (unat b div 2 ^ 63 \<noteq> 0) (unat b div 2 ^ 52 mod 2 ^ 11) (unat b mod 2 ^ 52)"
proof -
  let ?M = "mantissa_field b"
  have S: "sign_field b = 0 \<longleftrightarrow> unat b div 2 ^ 63 = 0"
    and E: "exp_field b = 0 \<longleftrightarrow> unat b div 2 ^ 52 mod 2 ^ 11 = 0"
    and E': "exp_field b = 0x7FF \<longleftrightarrow> unat b div 2 ^ 52 mod 2 ^ 11 = 2047"
    and M: "?M = 0 \<longleftrightarrow> unat b mod 2 ^ 52 = 0"
    by (simp_all only: word_eq_iff_unsigned [where ?'a = nat] unat_sign_field unat_exp_field
        unat_mantissa_field) simp_all
  have "unat (drop_bit 51 ?M) < 2"
    by (simp add: unat_shiftr unat_mantissa_field less_mult_imp_div_less)
  then have "drop_bit 51 ?M AND 1 = 0 \<longleftrightarrow> unat (drop_bit 51 ?M) = 0"
    by (auto simp: and_one_eq less_2_cases_iff word_eq_iff_unsigned [where ?'a = nat] unat_mod)
  also have "\<dots> \<longleftrightarrow> unat b mod 2 ^ 52 < 2 ^ 51"
    by (simp add: unat_shiftr unat_mantissa_field div_eq_0_iff)
  finally have Q: "drop_bit 51 ?M AND 1 = 0 \<longleftrightarrow> unat b mod 2 ^ 52 < 2 ^ 51" .
  show ?thesis
    unfolding classify_def ieee_class_def Let_def S E E' M Q by auto
qed

text \<open>
  Conversely the class of a pattern built from a sign, an exponent and a mantissa: the extraction
  loses nothing.
\<close>

lemma classify_pattern:
  assumes "e < 2 ^ 11" "m < 2 ^ 52"
  shows "classify (pattern s e m) = ieee_class s e m"
proof -
  have *: "unat (pattern s e m) = ((if s then 2048 else 0) + e) * 2 ^ 52 + m"
    using assms by (simp add: unat_pattern)
  have "unat (pattern s e m) div 2 ^ 52 = (if s then 2048 else 0) + e"
    unfolding * using assms by simp
  then have "unat (pattern s e m) div 2 ^ 52 mod 2 ^ 11 = e"
    using assms by simp
  moreover have "unat (pattern s e m) mod 2 ^ 52 = m"
    unfolding * using assms by (subst mod_mult_self3) simp
  moreover have "unat (pattern s e m) div 2 ^ 63 = (if s then 1 else 0)"
    using assms by (auto simp: unat_pattern)
  ultimately show ?thesis by (simp only: classify_ieee) simp
qed

subsection \<open>min-bytes-for-hex\<close>

text \<open>
  The argument is a C string.  The loop that skips zeros starts at index 2; index \<open>length s\<close> holds the
  terminating NUL, and an argument of fewer than two characters makes the source read behind it,
  which is the outcome \<open>None\<close>.
\<close>

function skip_zeros :: "char list \<Rightarrow> nat \<Rightarrow> nat" where
  "skip_zeros s i = (if i < length s \<and> s ! i = CHR ''0'' then skip_zeros s (Suc i) else i)"
  by pat_completeness auto
termination
  by (relation "measure (\<lambda>(s, i). length s - i)") auto

declare skip_zeros.simps [simp del]

definition min_bytes :: "char list \<Rightarrow> int option" where
  "min_bytes s =
     (if length s < 2 then None
      else let firstDigit = skip_zeros s 2;
               numRecordSize = int (length s) - int firstDigit;
               numBytes = (numRecordSize + 1) div 2
           in Some (if numBytes < 1 then 1 else numBytes))"

definition min_bytes_main :: "char list list \<Rightarrow> int list option" where
  "min_bytes_main args = those (map min_bytes args)"

text \<open>The value of a hexadecimal digit string, most significant digit first.\<close>

definition hex_digit :: "char \<Rightarrow> nat option" where
  "hex_digit c =
     (let k = of_char c :: nat in
      if 48 \<le> k \<and> k \<le> 57 then Some (k - 48)
      else if 97 \<le> k \<and> k \<le> 102 then Some (k - 87)
      else if 65 \<le> k \<and> k \<le> 70 then Some (k - 55)
      else None)"

fun hex_val :: "char list \<Rightarrow> nat" where
  "hex_val [] = 0"
| "hex_val (c # cs) = the (hex_digit c) * 16 ^ length cs + hex_val cs"

lemma hex_digit_bound: "hex_digit c = Some d \<Longrightarrow> d < 16"
  by (auto simp: hex_digit_def Let_def split: if_splits)

lemma hex_digit_zero: "hex_digit c = Some 0 \<longleftrightarrow> c = CHR ''0''"
proof
  assume "hex_digit c = Some 0"
  then have "(of_char c :: nat) = of_char (CHR ''0'')"
    by (auto simp: hex_digit_def Let_def split: if_splits)
  then show "c = CHR ''0''" by (simp only: of_char_eq_iff)
qed (simp add: hex_digit_def)

lemma hex_val_less: "\<forall>c \<in> set s. hex_digit c \<noteq> None \<Longrightarrow> hex_val s < 16 ^ length s"
proof (induction s)
  case (Cons c cs)
  then obtain d where d: "hex_digit c = Some d" by auto
  then have "d \<le> 15" using hex_digit_bound by fastforce
  then have "d * 16 ^ length cs \<le> 15 * 16 ^ length cs" by (rule mult_le_mono1)
  moreover have "hex_val cs < 16 ^ length cs" using Cons by simp
  ultimately have "d * 16 ^ length cs + hex_val cs < 15 * 16 ^ length cs + 16 ^ length cs"
    by (rule add_le_less_mono)
  then show ?case using d by simp
qed simp

lemma hex_val_ge:
  "hex_digit c \<noteq> None \<Longrightarrow> c \<noteq> CHR ''0'' \<Longrightarrow> 16 ^ length cs \<le> hex_val (c # cs)"
  using hex_digit_zero [of c] mult_le_mono1 [of 1 "the (hex_digit c)" "16 ^ length cs"]
  by (cases "hex_digit c") (auto intro: trans_le_add1)

lemma hex_val_dropWhile: "hex_val (dropWhile (\<lambda>c. c = CHR ''0'') s) = hex_val s"
  by (induction s) (auto simp: hex_digit_def)

lemma skip_zeros_eq:
  "i \<le> length s \<Longrightarrow> drop (skip_zeros s i) s = dropWhile (\<lambda>c. c = CHR ''0'') (drop i s) \<and>
     skip_zeros s i \<le> length s"
proof (induction s i rule: skip_zeros.induct)
  case (1 s i)
  show ?case
  proof (cases "i < length s \<and> s ! i = CHR ''0''")
    case True
    with 1 show ?thesis
      by (simp add: skip_zeros.simps [of s i] take_drop_nth)
  next
    case False
    then have "skip_zeros s i = i" by (auto simp: skip_zeros.simps [of s i])
    with False 1 show ?thesis
      by (cases "i < length s") (auto simp: take_drop_nth)
  qed
qed

lemma min_bytes_eq:
  assumes "2 \<le> length s"
  shows "min_bytes s =
    Some (max 1 ((int (length (dropWhile (\<lambda>c. c = CHR ''0'') (drop 2 s))) + 1) div 2))"
proof -
  have "drop (skip_zeros s 2) s = dropWhile (\<lambda>c. c = CHR ''0'') (drop 2 s)"
    and "skip_zeros s 2 \<le> length s"
    using skip_zeros_eq [of 2 s] assms by auto
  moreover have "int (length (drop (skip_zeros s 2) s)) = int (length s) - int (skip_zeros s 2)"
    using calculation(2) by (simp add: of_nat_diff)
  ultimately show ?thesis using assms by (simp add: min_bytes_def max_def)
qed

lemma byte_count_bounds:
  assumes "(v::nat) < 16 ^ k" and "k = 0 \<or> 16 ^ (k - 1) \<le> v"
  shows "v < 256 ^ max 1 ((k + 1) div 2)"
    and "max 1 ((k + 1) div 2) = 1 \<or> 256 ^ (max 1 ((k + 1) div 2) - 1) \<le> v"
proof -
  let ?n = "max 1 ((k + 1) div 2)"
  have pow: "(256::nat) ^ n = 16 ^ (2 * n)" for n
    by (simp add: power_mult)
  have "v < 16 ^ (2 * ?n)"
    using assms(1) by (rule less_le_trans) (rule power_increasing, auto)
  then show "v < 256 ^ ?n" by (simp only: pow)
  show "?n = 1 \<or> 256 ^ (?n - 1) \<le> v"
  proof (cases "k \<le> 2")
    case True
    then show ?thesis by auto
  next
    case False
    then have "(16::nat) ^ (2 * (?n - 1)) \<le> 16 ^ (k - 1)"
      by (intro power_increasing) auto
    also have "\<dots> \<le> v" using assms(2) False by auto
    finally show ?thesis by (simp only: pow) simp
  qed
qed

text \<open>
  for an argument of two prefix characters and hexadecimal digits the printed number is the least
  positive number of bytes that hold the value.
\<close>

lemma min_bytes_least:
  assumes "2 \<le> length s" and "\<forall>c \<in> set (drop 2 s). hex_digit c \<noteq> None"
  shows "\<exists>n. min_bytes s = Some (int n) \<and> 1 \<le> n \<and> hex_val (drop 2 s) < 256 ^ n \<and>
    (n = 1 \<or> 256 ^ (n - 1) \<le> hex_val (drop 2 s))"
proof -
  let ?ds = "dropWhile (\<lambda>c. c = CHR ''0'') (drop 2 s)"
  let ?n = "max 1 ((length ?ds + 1) div 2)"
  have hex: "\<forall>c \<in> set ?ds. hex_digit c \<noteq> None"
    using assms(2) by (auto dest: set_dropWhileD)
  have val: "hex_val ?ds = hex_val (drop 2 s)" by (rule hex_val_dropWhile)
  have "length ?ds = 0 \<or> 16 ^ (length ?ds - 1) \<le> hex_val ?ds"
  proof (cases ?ds)
    case (Cons c cs)
    moreover from this have "c \<noteq> CHR ''0''"
      by (metis (mono_tags, lifting) dropWhile_eq_Cons_conv)
    ultimately show ?thesis using hex hex_val_ge [of c cs] by (simp del: hex_val.simps)
  qed simp
  from byte_count_bounds [OF hex_val_less [OF hex] this]
  have "hex_val (drop 2 s) < 256 ^ ?n" and "?n = 1 \<or> 256 ^ (?n - 1) \<le> hex_val (drop 2 s)"
    by (simp_all only: val)
  moreover have "min_bytes s = Some (int ?n)"
    using min_bytes_eq [OF assms(1)] by (simp add: zdiv_int)
  ultimately show ?thesis by (intro exI [of _ ?n]) simp
qed

theorem min_bytes_least_witness:
  "\<exists>n. min_bytes ''0x00fF1'' = Some (int n) \<and> 1 \<le> n \<and> hex_val (drop 2 ''0x00fF1'') < 256 ^ n \<and>
    (n = 1 \<or> 256 ^ (n - 1) \<le> hex_val (drop 2 ''0x00fF1''))"
  by (rule min_bytes_least) (simp_all add: hex_digit_def)

end
