(* ===== verification/Utf8Count.thy ===== *)
theory Utf8Count
  imports Prelude
begin

section \<open>utf8-count-symbols: counting UTF-8 symbols in a byte stream\<close>

text \<open>
  \<^verbatim>\<open>utf8-count-symbols/main.c\<close> reads bytes until end of file and counts the one-byte and the
  multi-byte symbols.  \<open>count_loop\<close> is the loop of \<^verbatim>\<open>main\<close> over the remaining bytes with the three
  \<^verbatim>\<open>int\<close> counters as its state, whose increments wrap around at 32 bits; the result is the pair of printed numbers and the exit status.  The
  specification is independent of the loop: \<open>symbol k bs\<close> says that \<open>bs\<close> is one symbol of \<open>k\<close> bytes.
\<close>

unbundle bit_operations_syntax

function leading_ones_from :: "u8 \<Rightarrow> nat \<Rightarrow> nat" where
  "leading_ones_from c i =
     (if i < 8 then (if c AND push_bit (7 - i) 1 = 0 then i else leading_ones_from c (Suc i))
      else 8)"
  by pat_completeness auto
termination
  by (relation "measure (\<lambda>(c, i). 8 - i)") auto

declare leading_ones_from.simps [simp del]

definition countLeadingOnes :: "u8 \<Rightarrow> nat" where
  "countLeadingOnes c = leading_ones_from c 0"

record counts =
  asciiSymCount :: int
  otherSymCount :: int
  bytesToSym :: int

text \<open>One turn of the loop: \<open>Inl\<close> is the early return, \<open>Inr\<close> the next state.\<close>

definition count_step :: "counts \<Rightarrow> u8 \<Rightarrow> counts + counts" where
  "count_step st c =
     (let leadingOnes = countLeadingOnes c in
      if leadingOnes > 4 \<or> ((leadingOnes \<noteq> 1) \<noteq> (bytesToSym st = 0)) then Inl st
      else if leadingOnes = 1 then Inr (st\<lparr>bytesToSym := to_i32 (bytesToSym st - 1)\<rparr>)
      else if leadingOnes = 0 then Inr (st\<lparr>asciiSymCount := to_i32 (asciiSymCount st + 1)\<rparr>)
      else Inr (st\<lparr>otherSymCount := to_i32 (otherSymCount st + 1), bytesToSym := int leadingOnes - 1\<rparr>))"

fun count_loop :: "counts \<Rightarrow> u8 list \<Rightarrow> counts \<times> int" where
  "count_loop st [] = (st, if bytesToSym st \<noteq> 0 then 1 else 0)"
| "count_loop st (c # cs) =
     (case count_step st c of Inl st' \<Rightarrow> (st', 1) | Inr st' \<Rightarrow> count_loop st' cs)"

definition utf8_main :: "u8 list \<Rightarrow> counts \<times> int" where
  "utf8_main input = count_loop \<lparr>asciiSymCount = 0, otherSymCount = 0, bytesToSym = 0\<rparr> input"

subsection \<open>Leading ones\<close>

text \<open>\<open>lead_is k c\<close>: the byte \<open>c\<close> begins with exactly \<open>k\<close> one bits, read off its bits.\<close>

definition lead_is :: "nat \<Rightarrow> u8 \<Rightarrow> bool" where
  "lead_is k c \<longleftrightarrow> (\<forall>j \<in> {0..<k}. bit c (7 - j)) \<and> (k < 8 \<longrightarrow> \<not> bit c (7 - k))"

lemma leading_ones_from_unfold:
  "leading_ones_from c i =
     (if i < 8 then (if bit c (7 - i) then leading_ones_from c (Suc i) else i) else 8)"
  by (metis leading_ones_from.simps bit_iff_and_push_bit_not_eq_0)

lemma leading_ones_from_run:
  "i \<le> 8 \<Longrightarrow> i \<le> leading_ones_from c i \<and> leading_ones_from c i \<le> 8 \<and>
   (\<forall>j. i \<le> j \<and> j < leading_ones_from c i \<longrightarrow> bit c (7 - j)) \<and>
   (leading_ones_from c i < 8 \<longrightarrow> \<not> bit c (7 - leading_ones_from c i))"
proof (induction c i rule: leading_ones_from.induct)
  case (1 c i)
  show ?case
  proof (cases "i < 8 \<and> bit c (7 - i)")
    case True
    then have "leading_ones_from c i = leading_ones_from c (Suc i)"
      by (simp add: leading_ones_from_unfold [of c i])
    moreover from True have "c AND push_bit (7 - i) 1 \<noteq> 0"
      using bit_iff_and_push_bit_not_eq_0 [of c "7 - i"] by blast
    ultimately have IH: "Suc i \<le> leading_ones_from c i" "leading_ones_from c i \<le> 8"
      "\<forall>j. Suc i \<le> j \<and> j < leading_ones_from c i \<longrightarrow> bit c (7 - j)"
      "leading_ones_from c i < 8 \<longrightarrow> \<not> bit c (7 - leading_ones_from c i)"
      using 1 True by simp_all
    have "bit c (7 - j)" if "i \<le> j" "j < leading_ones_from c i" for j
      using IH(3) True that by (cases "j = i") auto
    with IH show ?thesis by auto
  next
    case False
    then have "leading_ones_from c i = i" if "i < 8"
      using that by (simp add: leading_ones_from_unfold [of c i])
    moreover have "leading_ones_from c i = 8" if "i = 8"
      using that by (simp add: leading_ones_from_unfold [of c 8])
    ultimately show ?thesis using False \<open>i \<le> 8\<close> by (cases "i < 8") auto
  qed
qed

lemma lead_is_unique: "lead_is k c \<Longrightarrow> lead_is l c \<Longrightarrow> k \<le> 8 \<Longrightarrow> l \<le> 8 \<Longrightarrow> k = l"
  by (cases k l rule: linorder_cases) (auto simp: lead_is_def)

lemma countLeadingOnes_eq: "k \<le> 8 \<Longrightarrow> countLeadingOnes c = k \<longleftrightarrow> lead_is k c"
proof -
  assume k: "k \<le> 8"
  have "lead_is (countLeadingOnes c) c" and "countLeadingOnes c \<le> 8"
    using leading_ones_from_run [of 0 c] by (auto simp: lead_is_def countLeadingOnes_def)
  then show ?thesis using k lead_is_unique by blast
qed

lemma countLeadingOnes_cases:
  "countLeadingOnes c > 4 \<or> lead_is 0 c \<and> countLeadingOnes c = 0 \<or> lead_is 1 c \<and> countLeadingOnes c = 1 \<or>
   (\<exists>k \<in> {2,3,4}. lead_is k c \<and> countLeadingOnes c = k)"
proof (cases "countLeadingOnes c > 4")
  case False
  then have "countLeadingOnes c \<in> {0, 1, 2, 3, 4}" by auto
  then show ?thesis using countLeadingOnes_eq [of "countLeadingOnes c" c] by auto
qed simp

subsection \<open>The stream is a sequence of symbols\<close>

text \<open>
  One UTF-8 symbol: a byte with no leading one, or a byte with \<open>k\<close> leading ones, \<open>k\<close> from 2 to 4,
  followed by \<open>k - 1\<close> continuation bytes.
\<close>

fun is_symbol :: "u8 list \<Rightarrow> bool" where
  "is_symbol [] = False"
| "is_symbol (c # cs) =
     (lead_is 0 c \<and> cs = [] \<or>
      (\<exists>k \<in> {2, 3, 4}. lead_is k c \<and> length cs = k - 1 \<and> list_all (lead_is 1) cs))"

definition short_symbols :: "u8 list list \<Rightarrow> nat" where
  "short_symbols us = length (filter (\<lambda>u. length u = 1) us)"

definition long_symbols :: "u8 list list \<Rightarrow> nat" where
  "long_symbols us = length (filter (\<lambda>u. length u \<noteq> 1) us)"

text \<open>\<open>fits n st\<close>: no counter reaches the limits of \<^verbatim>\<open>int\<close> within \<open>n\<close> more bytes.\<close>

definition fits :: "nat \<Rightarrow> counts \<Rightarrow> bool" where
  "fits n st \<longleftrightarrow> 0 \<le> asciiSymCount st \<and> asciiSymCount st + int n < 2 ^ 31 \<and>
     0 \<le> otherSymCount st \<and> otherSymCount st + int n < 2 ^ 31 \<and>
     0 \<le> bytesToSym st \<and> bytesToSym st < 4"

lemma fits_mono: "fits n st \<Longrightarrow> m \<le> n \<Longrightarrow> fits m st"
  by (auto simp: fits_def)

lemma fits_i32:
  "fits (Suc n) st \<Longrightarrow> to_i32 (asciiSymCount st + 1) = asciiSymCount st + 1"
  "fits (Suc n) st \<Longrightarrow> to_i32 (otherSymCount st + 1) = otherSymCount st + 1"
  "fits (Suc n) st \<Longrightarrow> to_i32 (bytesToSym st - 1) = bytesToSym st - 1"
  by (auto simp: fits_def is_i32_def intro!: to_i32_id)

lemma count_step_fits: "fits (Suc n) st \<Longrightarrow> count_step st c = Inr st' \<Longrightarrow> fits n st'"
  by (auto simp: count_step_def Let_def fits_i32 split: if_splits) (auto simp: fits_def)

lemma is_symbol_length: "is_symbol u \<Longrightarrow> 1 \<le> length u"
  by (cases u) auto

lemma symbols_bounded:
  "list_all is_symbol us \<Longrightarrow> short_symbols us + long_symbols us \<le> length (concat us)"
  by (induction us) (auto simp: short_symbols_def long_symbols_def dest: is_symbol_length)

lemma count_continuation:
  "list_all (lead_is 1) pre \<Longrightarrow> bytesToSym st = int (length pre) \<Longrightarrow> length pre < 4 \<Longrightarrow>
   count_loop st (pre @ rest) = count_loop (st\<lparr>bytesToSym := 0\<rparr>) rest"
proof (induction pre arbitrary: st)
  case (Cons c pre)
  then have "countLeadingOnes c = 1" by (simp add: countLeadingOnes_eq)
  with Cons show ?case by (simp add: count_step_def is_i32_def)
next
  case Nil
  then show ?case by (cases st) simp
qed

lemma count_symbol:
  assumes "is_symbol u" and "bytesToSym st = 0" and "fits (Suc n) st"
  shows "count_loop st (u @ rest) =
    count_loop (if length u = 1 then st\<lparr>asciiSymCount := asciiSymCount st + 1\<rparr>
                else st\<lparr>otherSymCount := otherSymCount st + 1\<rparr>) rest"
proof (cases u)
  case Nil
  with assms show ?thesis by simp
next
  case (Cons c cs)
  from assms(1) consider "lead_is 0 c" "cs = []"
    | k where "k \<in> {2, 3, 4}" "lead_is k c" "length cs = k - 1" "list_all (lead_is 1) cs"
    unfolding Cons is_symbol.simps by blast
  then show ?thesis
  proof cases
    case 1
    with assms(2,3) Cons show ?thesis
      using countLeadingOnes_eq [of 0 c] by (simp add: count_step_def fits_i32)
  next
    case 2
    from 2(1,2) have "countLeadingOnes c = k" using countLeadingOnes_eq [of k c] by auto
    with 2 assms(2,3) Cons show ?thesis
      using fits_i32(2) [OF assms(3)]
      by (cases st) (auto simp: count_step_def count_continuation)
  qed
qed

lemma count_symbols:
  "list_all is_symbol us \<Longrightarrow> bytesToSym st = 0 \<Longrightarrow> fits (length (concat us)) st \<Longrightarrow>
   count_loop st (concat us) =
     (st\<lparr>asciiSymCount := asciiSymCount st + int (short_symbols us),
         otherSymCount := otherSymCount st + int (long_symbols us)\<rparr>, 0)"
proof (induction us arbitrary: st)
  case (Cons u us)
  let ?s = "if length u = 1 then st\<lparr>asciiSymCount := asciiSymCount st + 1\<rparr>
            else st\<lparr>otherSymCount := otherSymCount st + 1\<rparr>"
  from Cons.prems(1) have u: "is_symbol u" and l: "1 \<le> length u" by (auto dest: is_symbol_length)
  from Cons.prems(3) l have f: "fits (Suc (length (concat us))) st" by (auto elim: fits_mono)
  then have "fits (length (concat us)) ?s" by (auto simp: fits_def)
  moreover have "bytesToSym ?s = 0" using Cons.prems(2) by simp
  ultimately have "count_loop ?s (concat us) =
     (?s\<lparr>asciiSymCount := asciiSymCount ?s + int (short_symbols us),
         otherSymCount := otherSymCount ?s + int (long_symbols us)\<rparr>, 0)"
    using Cons.IH Cons.prems(1) by simp
  with count_symbol [OF u Cons.prems(2) f, of "concat us"] show ?case
    by (auto simp: short_symbols_def long_symbols_def)
qed (simp add: short_symbols_def long_symbols_def)

lemma count_loop_sound:
  "count_loop st bs = (st', 0) \<Longrightarrow> bytesToSym st = int b \<Longrightarrow> fits (length bs) st \<Longrightarrow>
   \<exists>pre us. bs = pre @ concat us \<and> length pre = b \<and> list_all (lead_is 1) pre \<and> list_all is_symbol us \<and>
     st' = st\<lparr>asciiSymCount := asciiSymCount st + int (short_symbols us),
              otherSymCount := otherSymCount st + int (long_symbols us), bytesToSym := 0\<rparr>"
proof (induction bs arbitrary: st b)
  case Nil
  then show ?case
    by (intro exI [of _ "[]"]) (auto simp: short_symbols_def long_symbols_def split: if_splits)
next
  case (Cons c cs)
  then obtain st1 where step: "count_step st c = Inr st1" and run: "count_loop st1 cs = (st', 0)"
    by (auto split: sum.splits)
  from Cons.prems(3) have f: "fits (Suc (length cs)) st" by simp
  note f1 = count_step_fits [OF f step] and i32 = fits_i32 [OF f]
  let ?k = "countLeadingOnes c"
  from step have k4: "?k \<le> 4" and phase: "?k = 1 \<longleftrightarrow> b \<noteq> 0"
    using Cons.prems(2) by (auto simp: count_step_def Let_def split: if_splits)
  have lead: "lead_is ?k c" using countLeadingOnes_eq [of ?k c] k4 by auto
  consider "?k = 1" | "?k = 0" | "?k \<in> {2, 3, 4}" using k4 by fastforce
  then show ?case
  proof cases
    case 1
    with step Cons.prems(2) phase i32 have "st1 = st\<lparr>bytesToSym := int (b - 1)\<rparr>"
      by (auto simp: count_step_def of_nat_diff)
    with Cons.IH [OF run _ f1, of "b - 1"] obtain pre us where
      "cs = pre @ concat us" "length pre = b - 1" "list_all (lead_is 1) pre" "list_all is_symbol us"
      "st' = st\<lparr>asciiSymCount := asciiSymCount st + int (short_symbols us),
              otherSymCount := otherSymCount st + int (long_symbols us), bytesToSym := 0\<rparr>"
      by auto
    with 1 lead phase show ?thesis by (intro exI [of _ "c # pre"] exI [of _ us]) auto
  next
    case 2
    with step Cons.prems(2) phase i32 have "st1 = st\<lparr>asciiSymCount := asciiSymCount st + 1\<rparr>"
      by (auto simp: count_step_def split: if_splits)
    with Cons.IH [OF run _ f1, of 0] Cons.prems(2) 2 phase obtain us where
      "cs = concat us" "list_all is_symbol us"
      "st' = st\<lparr>asciiSymCount := asciiSymCount st + 1 + int (short_symbols us),
              otherSymCount := otherSymCount st + int (long_symbols us), bytesToSym := 0\<rparr>"
      by auto
    with 2 lead phase show ?thesis
      by (intro exI [of _ "[]"] exI [of _ "[c] # us"])
         (auto simp: short_symbols_def long_symbols_def)
  next
    case 3
    with step Cons.prems(2) phase i32
    have "st1 = st\<lparr>otherSymCount := otherSymCount st + 1, bytesToSym := int (?k - 1)\<rparr>"
      by (auto simp: count_step_def split: if_splits)
    with Cons.IH [OF run _ f1, of "?k - 1"] obtain pre us where
      cs: "cs = pre @ concat us" "length pre = ?k - 1" "list_all (lead_is 1) pre" "list_all is_symbol us"
      "st' = st\<lparr>asciiSymCount := asciiSymCount st + int (short_symbols us),
              otherSymCount := otherSymCount st + 1 + int (long_symbols us), bytesToSym := 0\<rparr>"
      by auto
    have "is_symbol (c # pre)" unfolding is_symbol.simps using 3 lead cs(2,3) by blast
    with 3 cs phase show ?thesis
      by (intro exI [of _ "[]"] exI [of _ "(c # pre) # us"])
         (auto simp: short_symbols_def long_symbols_def)
  qed
qed

lemma counters_wrap_around:
  "count_step \<lparr>asciiSymCount = 2 ^ 31 - 1, otherSymCount = k, bytesToSym = 0\<rparr> 65 =
   Inr \<lparr>asciiSymCount = - (2 ^ 31), otherSymCount = k, bytesToSym = 0\<rparr>"
proof -
  have "countLeadingOnes 65 = 0" unfolding countLeadingOnes_def by code_simp
  then show ?thesis by (simp add: count_step_def to_i32_def)
qed

text \<open>
  C39: on an input of fewer than 2^31 bytes, the most that the two \<^verbatim>\<open>int\<close> counters can count
  (\<open>counters_wrap_around\<close>), the program exits with status 0 exactly on a sequence of well-formed symbols, and then prints
  how many of them have one byte and how many have more.
\<close>

theorem utf8_main_counts_symbols:
  assumes len: "length input < 2 ^ 31"
  shows "utf8_main input = (st, 0) \<longleftrightarrow>
   (\<exists>us. input = concat us \<and> list_all is_symbol us \<and>
     st = \<lparr>asciiSymCount = int (short_symbols us), otherSymCount = int (long_symbols us), bytesToSym = 0\<rparr>)"
proof -
  have f: "fits (length input) \<lparr>asciiSymCount = 0, otherSymCount = 0, bytesToSym = 0\<rparr>"
    using len by (simp add: fits_def)
  show ?thesis
    using count_loop_sound [OF _ _ f, of st 0] f
    by (auto simp: utf8_main_def count_symbols)
qed

theorem utf8_main_counts_symbols_witness:
  "utf8_main [65, 0xC3, 0xA9, 66] = (\<lparr>asciiSymCount = 2, otherSymCount = 1, bytesToSym = 0\<rparr>, 0)"
proof -
  have "\<exists>us. [65, 0xC3, 0xA9, 66 :: u8] = concat us \<and> list_all is_symbol us \<and>
     \<lparr>asciiSymCount = 2, otherSymCount = 1, bytesToSym = 0\<rparr> =
     \<lparr>asciiSymCount = int (short_symbols us), otherSymCount = int (long_symbols us), bytesToSym = 0\<rparr>"
    by (intro exI [of _ "[[65], [0xC3, 0xA9], [66]]"]) code_simp
  then show ?thesis
    using utf8_main_counts_symbols
      [of "[65, 0xC3, 0xA9, 66]" "\<lparr>asciiSymCount = 2, otherSymCount = 1, bytesToSym = 0\<rparr>"]
    by simp
qed

end
