(* ===== verification/BitsetCalc.thy ===== *)
theory BitsetCalc
  imports Prelude
begin

section \<open>bitset-calc: a calculator for sets of letters and digits\<close>

text \<open>
  \<^verbatim>\<open>bitset-calc/main.c\<close> reads one line of letters, digits and the operators \<^verbatim>\<open>|\<close>, \<^verbatim>\<open>&\<close>, \<^verbatim>\<open>^\<close> and
  \<^verbatim>\<open>~\<close>, keeps two sets of the 62 letters and digits as the bits of 64-bit words, and prints the result
  set.  The specification keeps the two sets as sets of characters; the word operations are shown to
  implement the set operations.
\<close>

unbundle bit_operations_syntax

text \<open>The character as the \<^verbatim>\<open>int\<close> that \<^verbatim>\<open>getchar\<close> returns.\<close>

abbreviation code :: "char \<Rightarrow> int" where
  "code c \<equiv> of_char c"

text \<open>The shift count is stored in a \<^verbatim>\<open>uint8_t\<close>; a shift of 64 or more is undefined: \<open>None\<close>.\<close>

definition char_shift :: "char \<Rightarrow> nat" where
  "char_shift c =
     (if code CHR ''0'' \<le> code c \<and> code c \<le> code CHR ''9'' then nat ((code c - code CHR ''0'') mod 256)
      else if code CHR ''A'' \<le> code c \<and> code c \<le> code CHR ''Z''
        then nat ((code c - code CHR ''A'' + 10) mod 256)
      else nat ((code c - code CHR ''a'' + (10 + 26)) mod 256))"

definition getCharMask :: "char \<Rightarrow> u64 option" where
  "getCharMask c = (if char_shift c < 64 then Some (push_bit (char_shift c) 1) else None)"

definition getBunchCharByIndex :: "nat \<Rightarrow> char" where
  "getBunchCharByIndex i =
     (if i < 10 then char_of (code CHR ''0'' + int i)
      else if i < 10 + 26 then char_of (code CHR ''A'' + int i - 10)
      else char_of (code CHR ''a'' + int i - (10 + 26)))"

record calc =
  result_many :: u64
  curr_many :: u64

definition calc_step :: "calc \<Rightarrow> char \<Rightarrow> calc option" where
  "calc_step st ch =
     (if ch = CHR ''|'' then Some \<lparr>result_many = result_many st OR curr_many st, curr_many = 0\<rparr>
      else if ch = CHR ''&'' then Some \<lparr>result_many = result_many st AND curr_many st, curr_many = 0\<rparr>
      else if ch = CHR ''^'' then Some \<lparr>result_many = result_many st XOR curr_many st, curr_many = 0\<rparr>
      else if ch = CHR ''~'' then Some (st\<lparr>result_many := NOT (result_many st)\<rparr>)
      else (case getCharMask ch of None \<Rightarrow> None
            | Some m \<Rightarrow> Some (st\<lparr>curr_many := curr_many st OR m\<rparr>)))"

fun calc_loop :: "calc \<Rightarrow> char list \<Rightarrow> calc option" where
  "calc_loop st [] = Some st"
| "calc_loop st (ch # chs) =
     (if ch = CHR 0x0A then Some st
      else case calc_step st ch of None \<Rightarrow> None | Some st' \<Rightarrow> calc_loop st' chs)"

definition print_bunch :: "u64 \<Rightarrow> char list" where
  "print_bunch r =
     map getBunchCharByIndex (filter (\<lambda>i. r AND push_bit i 1 \<noteq> 0) [0..<62])"

definition bitset_main :: "char list \<Rightarrow> char list option" where
  "bitset_main input =
     map_option (\<lambda>st. print_bunch (result_many st)) (calc_loop \<lparr>result_many = 0, curr_many = 0\<rparr> input)"

subsection \<open>Sets of characters\<close>

definition alphabet :: "char list" where
  "alphabet = map getBunchCharByIndex [0..<62]"

text \<open>The calculator on sets: \<open>R\<close> is the result so far, \<open>C\<close> the set being read.\<close>

fun set_calc :: "char set \<Rightarrow> char set \<Rightarrow> char list \<Rightarrow> char set" where
  "set_calc R C [] = R"
| "set_calc R C (c # cs) =
     (if c = CHR 0x0A then R
      else if c = CHR ''|'' then set_calc (R \<union> C) {} cs
      else if c = CHR ''&'' then set_calc (R \<inter> C) {} cs
      else if c = CHR ''^'' then set_calc ((R - C) \<union> (C - R)) {} cs
      else if c = CHR ''~'' then set_calc (set alphabet - R) C cs
      else set_calc R (insert c C) cs)"

definition good_line :: "char list \<Rightarrow> bool" where
  "good_line s \<longleftrightarrow>
     list_all (\<lambda>c. c \<in> set alphabet \<or> c \<in> set ''|&^~'') (takeWhile (\<lambda>c. c \<noteq> CHR 0x0A) s)"

text \<open>Index and character are inverse to each other on the alphabet.\<close>

lemma all_indices: "(\<forall>i < (62::nat). P i) \<longleftrightarrow> list_all P [0..<62]"
  by (auto simp: list_all_iff)

lemma char_shift_index: "i < 62 \<Longrightarrow> char_shift (getBunchCharByIndex i) = i"
proof -
  have "\<forall>i < 62. char_shift (getBunchCharByIndex i) = i"
    unfolding all_indices by code_simp
  then show "i < 62 \<Longrightarrow> char_shift (getBunchCharByIndex i) = i" by blast
qed

lemma index_inj: "i < 62 \<Longrightarrow> j < 62 \<Longrightarrow> getBunchCharByIndex i = getBunchCharByIndex j \<longleftrightarrow> i = j"
  by (metis char_shift_index)

lemma in_alphabet: "c \<in> set alphabet \<longleftrightarrow> (\<exists>i < 62. c = getBunchCharByIndex i)"
  by (auto simp: alphabet_def)

text \<open>A word represents a set of letters and digits.\<close>

definition represents :: "u64 \<Rightarrow> char set \<Rightarrow> bool" where
  "represents r R \<longleftrightarrow> R \<subseteq> set alphabet \<and> (\<forall>i < 62. bit r i \<longleftrightarrow> getBunchCharByIndex i \<in> R)"

named_theorems represents_intros "the word operations implement the set operations"

lemma represents_empty [represents_intros]: "represents 0 {}"
  by (simp add: represents_def)

lemma represents_binary [represents_intros]:
  assumes "represents r R" "represents c C"
  shows "represents (r OR c) (R \<union> C)" and "represents (r AND c) (R \<inter> C)"
    and "represents (r XOR c) ((R - C) \<union> (C - R))"
  using assms by (auto simp: represents_def bit_simps)

lemma represents_complement [represents_intros]:
  "represents r R \<Longrightarrow> represents (NOT r) (set alphabet - R)"
  by (auto simp: represents_def bit_simps in_alphabet)

lemma represents_insert [represents_intros]:
  assumes "represents r R" "i < 62"
  shows "represents (r OR 2 ^ i) (insert (getBunchCharByIndex i) R)"
  using assms by (auto simp: represents_def bit_simps in_alphabet index_inj)

lemma print_represented:
  assumes "represents r R"
  shows "print_bunch r = filter (\<lambda>c. c \<in> R) alphabet"
proof -
  have "filter (\<lambda>i. r AND push_bit i 1 \<noteq> 0) [0..<62] =
      filter ((\<lambda>c. c \<in> R) \<circ> getBunchCharByIndex) [0..<62]"
    using assms by (intro filter_cong) (auto simp: represents_def and_exp_eq_0_iff_not_bit)
  then show ?thesis by (simp add: print_bunch_def alphabet_def filter_map)
qed

lemma calc_loop_refines:
  "represents (result_many st) R \<Longrightarrow> represents (curr_many st) C \<Longrightarrow> good_line s \<Longrightarrow>
   \<exists>st'. calc_loop st s = Some st' \<and> represents (result_many st') (set_calc R C s)"
proof (induction s arbitrary: st R C)
  case (Cons c s)
  show ?case
  proof (cases "c = CHR 0x0A")
    case False
    with Cons.prems(3) have good: "good_line s" and c: "c \<in> set alphabet \<or> c \<in> set ''|&^~''"
      by (auto simp: good_line_def)
    note step = Cons.IH [OF _ _ good] represents_intros Cons.prems(1,2)
    show ?thesis
    proof (cases "c \<in> set ''|&^~''")
      case True
      then consider "c = CHR ''|''" | "c = CHR ''&''" | "c = CHR ''^''" | "c = CHR ''~''" by auto
      then show ?thesis using False
        by cases (simp_all add: calc_step_def step)
    next
      case False
      with c obtain i where "i < 62" "c = getBunchCharByIndex i" by (auto simp: in_alphabet)
      with False \<open>c \<noteq> CHR 0x0A\<close> show ?thesis
        by (simp add: calc_step_def getCharMask_def char_shift_index step)
    qed
  qed (use Cons.prems in simp)
qed simp

text \<open>
  C38: on a line of letters, digits and operators the program prints, in the order digits, capitals,
  small letters, exactly the members of the set the operators compute.
\<close>

theorem bitset_main_computes_set:
  assumes "good_line s"
  shows "bitset_main s = Some (filter (\<lambda>c. c \<in> set_calc {} {} s) alphabet)"
proof -
  obtain st' where "calc_loop \<lparr>result_many = 0, curr_many = 0\<rparr> s = Some st'"
    and "represents (result_many st') (set_calc {} {} s)"
    using calc_loop_refines [of "\<lparr>result_many = 0, curr_many = 0\<rparr>", OF _ _ assms] represents_empty
    by auto
  then show ?thesis by (simp add: bitset_main_def print_represented)
qed

theorem bitset_main_computes_set_witness:
  "bitset_main ''ab1|bZ&~'' = Some (filter (\<lambda>c. c \<in> set_calc {} {} ''ab1|bZ&~'') alphabet)"
  by (rule bitset_main_computes_set) (code_simp)

end
