(* ===== verification/PosixIO.thy ===== *)
theory PosixIO
  imports Prelude
begin

section \<open>File descriptors: the read and write calls the programs loop over\<close>

text \<open>
  POSIX lets \<^verbatim>\<open>read\<close> and \<^verbatim>\<open>write\<close> transfer less than they were asked to.  The programs of the
  repository loop around them, each with its own copy of the loops.  The two locales below state what
  a caller may rely on; they are the interface between the loops and the operating system.  The model
  provides descriptors on which an explicit schedule decides how much every call transfers and when it
  fails: a theorem over all schedules is a theorem over all behaviours of the system.
\<close>

subsection \<open>Descriptors open for writing\<close>

text \<open>\<open>sunk\<close> is what has been accepted so far, \<open>wsched\<close> the outcomes of the coming calls.\<close>

record 'a sink =
  sunk :: "'a list"
  wsched :: "int list"

definition sys_write :: "'a sink \<Rightarrow> 'a list \<Rightarrow> int \<times> 'a sink" where
  "sys_write s buf =
     (case wsched s of
        [] \<Rightarrow> (int (length buf), s\<lparr>sunk := sunk s @ buf\<rparr>)
      | k # ks \<Rightarrow>
          (if k < 0 then (- 1, s\<lparr>wsched := ks\<rparr>)
           else let n = min (nat k) (length buf) in
                (int n, s\<lparr>sunk := sunk s @ take n buf, wsched := ks\<rparr>)))"

text \<open>
  The contract of \<^verbatim>\<open>write\<close>: it fails or accepts a prefix, and only finitely often does it accept
  nothing of a non-empty buffer (\<open>stalls\<close> bounds how often).
\<close>

locale posix_write =
  fixes wr :: "'s \<Rightarrow> 'a list \<Rightarrow> int \<times> 's"
    and out :: "'s \<Rightarrow> 'a list"
    and stalls :: "'s \<Rightarrow> nat"
  assumes wr_range: "wr s buf = (n, s') \<Longrightarrow> n = - 1 \<or> 0 \<le> n \<and> n \<le> int (length buf)"
    and wr_fail: "wr s buf = (- 1, s') \<Longrightarrow> out s' = out s"
    and wr_out: "wr s buf = (n, s') \<Longrightarrow> 0 \<le> n \<Longrightarrow> out s' = out s @ take (nat n) buf"
    and wr_stalls: "wr s buf = (n, s') \<Longrightarrow> 0 \<le> n \<Longrightarrow> buf \<noteq> [] \<Longrightarrow>
      stalls s' \<le> stalls s \<and> (n = 0 \<longrightarrow> stalls s' < stalls s)"

interpretation sink: posix_write sys_write sunk "\<lambda>s. length (wsched s)"
  by unfold_locales
    (auto simp: sys_write_def Let_def split: list.splits if_splits)

subsection \<open>Descriptors open for reading\<close>

text \<open>\<open>rest\<close> is what has not been read yet.  A call returns its status and the bytes it stored.\<close>

record 'a source =
  rest :: "'a list"
  rsched :: "int list"

definition sys_read :: "'a source \<Rightarrow> nat \<Rightarrow> int \<times> 'a list \<times> 'a source" where
  "sys_read s nbytes =
     (case rsched s of
        [] \<Rightarrow> (int (min nbytes (length (rest s))), take nbytes (rest s), s\<lparr>rest := drop nbytes (rest s)\<rparr>)
      | k # ks \<Rightarrow>
          (if k < 0 then (- 1, [], s\<lparr>rsched := ks\<rparr>)
           else let n = min (max 1 (nat k)) (min nbytes (length (rest s))) in
                (int n, take n (rest s), s\<lparr>rest := drop n (rest s), rsched := ks\<rparr>)))"

text \<open>
  The contract of \<^verbatim>\<open>read\<close>: it fails, or returns a prefix of what is left; the prefix is empty only
  at the end of the file or when nothing was asked for.
\<close>

locale posix_read =
  fixes rd :: "'s \<Rightarrow> nat \<Rightarrow> int \<times> 'a list \<times> 's"
    and left :: "'s \<Rightarrow> 'a list"
  assumes rd_range: "rd s nbytes = (n, bs, s') \<Longrightarrow> n = - 1 \<or> n = int (length bs) \<and> length bs \<le> nbytes"
    and rd_fail: "rd s nbytes = (- 1, bs, s') \<Longrightarrow> left s' = left s"
    and rd_left: "rd s nbytes = (n, bs, s') \<Longrightarrow> 0 \<le> n \<Longrightarrow> left s = bs @ left s'"
    and rd_eof: "rd s nbytes = (0, bs, s') \<Longrightarrow> 0 < nbytes \<Longrightarrow> left s = []"

interpretation source: posix_read sys_read rest
  by unfold_locales
    (auto simp: sys_read_def Let_def min_def split: list.splits if_splits)

subsection \<open>Descriptors that behave\<close>

lemma sys_read_decreases: "sys_read s n = (k, bs, s') \<Longrightarrow> 0 < k \<Longrightarrow> length (rest s') < length (rest s) \<and> k = int (length bs)"
  using source.rd_left[of s n k bs s'] source.rd_range[of s n k bs s'] by (cases bs) auto

text \<open>A descriptor from which no read fails.\<close>

definition no_read_failure :: "'a source \<Rightarrow> bool" where
  "no_read_failure s \<longleftrightarrow> (\<forall>k\<in>set (rsched s). 0 \<le> k)"

lemma sys_read_no_failure: "sys_read s n = (k, bs, s') \<Longrightarrow> no_read_failure s \<Longrightarrow> k \<noteq> - 1 \<and> no_read_failure s'"
  by (auto simp: sys_read_def no_read_failure_def Let_def split: list.splits if_splits)

lemma sys_write_bound: "sys_write fd buf = (n, fd') \<Longrightarrow> 0 < n \<Longrightarrow> nat n \<le> length buf"
  using sink.wr_range[of fd buf n fd'] by auto

text \<open>A descriptor on which no write fails.\<close>

definition no_failure :: "'a sink \<Rightarrow> bool" where
  "no_failure s \<longleftrightarrow> (\<forall>k\<in>set (wsched s). 0 \<le> k)"

lemma sys_write_no_failure:
  "sys_write s buf = (n, s') \<Longrightarrow> no_failure s \<Longrightarrow> n \<noteq> - 1 \<and> no_failure s'"
  by (auto simp: sys_write_def no_failure_def Let_def split: list.splits if_splits)

text \<open>A descriptor on which every write of a nonempty buffer makes progress.\<close>

definition progressing :: "'a sink \<Rightarrow> bool" where
  "progressing s \<longleftrightarrow> (\<forall>k\<in>set (wsched s). 0 < k)"

lemma sys_write_progress:
  assumes "sys_write s buf = (n, s')" "progressing s"
  shows "progressing s' \<and> sunk s' = sunk s @ take (nat n) buf \<and> 0 \<le> n \<and> nat n \<le> length buf \<and> (buf \<noteq> [] \<longrightarrow> 0 < n)"
  using assms by (auto simp: sys_write_def progressing_def Let_def split: list.splits if_splits)

end
