(* ===== verification/ReadFilterWrite.thy ===== *)
theory ReadFilterWrite
  imports PosixIO
begin

section \<open>read-filter-write: splitting a file into digits and the rest\<close>

text \<open>
  \<^verbatim>\<open>inf08-0_files-io_read-filter-write/main.c\<close>.  \<open>read_bytes\<close> and \<open>write_bytes\<close> are its two loops
  around the system calls; they take the call as an argument and are analysed once against the
  contracts of \<open>PosixIO\<close>.  A loop that would not end is the value \<open>None\<close>; the lemmas show that this
  does not happen.  \<open>filter_loop\<close> is the \<^verbatim>\<open>while (1)\<close> of \<^verbatim>\<open>main\<close>, \<open>filter_main\<close> adds the
  argument check and the opening of the three files.
\<close>

subsection \<open>The loops around read and write\<close>

text \<open>\<open>bytes_read\<close> is the data stored so far; a failing call returns \<open>-1\<close> at once.\<close>

partial_function (option) read_bytes ::
  "('s \<Rightarrow> nat \<Rightarrow> int \<times> 'a list \<times> 's) \<Rightarrow> 's \<Rightarrow> nat \<Rightarrow> 'a list \<Rightarrow> (int \<times> 'a list \<times> 's) option" where
  "read_bytes rd fd bytes_to_read bytes_read =
     (if length bytes_read < bytes_to_read then
        (case rd fd (bytes_to_read - length bytes_read) of (currently_read, bs, fd') \<Rightarrow>
           if currently_read = - 1 then Some (- 1, bytes_read, fd')
           else if currently_read = 0 then Some (int (length bytes_read), bytes_read, fd')
           else read_bytes rd fd' bytes_to_read (bytes_read @ bs))
      else Some (int bytes_to_read, bytes_read, fd))"

partial_function (option) write_bytes ::
  "('s \<Rightarrow> 'a list \<Rightarrow> int \<times> 's) \<Rightarrow> 's \<Rightarrow> 'a list \<Rightarrow> nat \<Rightarrow> (int \<times> 's) option" where
  "write_bytes wr fd buffer bytes_written =
     (if bytes_written < length buffer then
        (case wr fd (drop bytes_written buffer) of (currently_written, fd') \<Rightarrow>
           if currently_written = - 1 then Some (- 1, fd')
           else write_bytes wr fd' buffer (bytes_written + nat currently_written))
      else Some (int (length buffer), fd))"

context posix_write
begin

text \<open>The loop returns: either everything was written or a call failed after a prefix.\<close>

lemma write_bytes_total:
  "k \<le> length buf \<Longrightarrow>
   \<exists>st s'. write_bytes wr s buf k = Some (st, s') \<and>
     (st = int (length buf) \<and> out s' = out s @ drop k buf \<or>
      st = - 1 \<and> (\<exists>j. out s' = out s @ take j (drop k buf)))"
proof (induction "(length buf - k) + stalls s" arbitrary: k s rule: less_induct)
  case less
  show ?case
  proof (cases "k < length buf")
    case True
    obtain n s1 where call: "wr s (drop k buf) = (n, s1)" by fastforce
    show ?thesis
    proof (cases "n = - 1")
      case n: True
      with call True wr_fail [of s "drop k buf" s1] show ?thesis
        by (subst write_bytes.simps) (auto intro: exI [of _ 0])
    next
      case False
      with wr_range [OF call] have n: "0 \<le> n" "n \<le> int (length buf - k)" by auto
      with wr_stalls [OF call] wr_out [OF call] True
      have m: "stalls s1 \<le> stalls s" "n = 0 \<longrightarrow> stalls s1 < stalls s"
        "out s1 = out s @ take (nat n) (drop k buf)" by auto
      with n True have "(length buf - (k + nat n)) + stalls s1 < (length buf - k) + stalls s"
        by (cases "n = 0") auto
      moreover have "k + nat n \<le> length buf" using n True by auto
      ultimately obtain st s' where IH: "write_bytes wr s1 buf (k + nat n) = Some (st, s')"
        "st = int (length buf) \<and> out s' = out s1 @ drop (k + nat n) buf \<or>
         st = - 1 \<and> (\<exists>j. out s' = out s1 @ take j (drop (k + nat n) buf))"
        using less(1) [of "k + nat n" s1] by blast
      have split: "take (nat n) (drop k buf) @ drop (k + nat n) buf = drop k buf"
        by (metis append_take_drop_id drop_drop add.commute)
      have "take (nat n) (drop k buf) @ take j (drop (k + nat n) buf) = take (nat n + j) (drop k buf)" for j
        by (metis take_add drop_drop add.commute)
      with IH(2) m(3) split
      have "st = int (length buf) \<and> out s' = out s @ drop k buf \<or>
         st = - 1 \<and> (\<exists>j. out s' = out s @ take j (drop k buf))"
        by auto
      with IH(1) call True False show ?thesis
        by (subst write_bytes.simps) simp
    qed
  next
    case False
    with less(2) show ?thesis by (subst write_bytes.simps) simp
  qed
qed

end

context posix_read
begin

text \<open>
  The loop returns: it consumes a prefix of what is left; unless a call failed, it stops only at the
  requested length or at the end of the file.
\<close>

lemma read_bytes_total:
  "length acc \<le> m \<Longrightarrow>
   \<exists>st bs s'. read_bytes rd s m acc = Some (st, acc @ bs, s') \<and> left s = bs @ left s' \<and>
     (st = - 1 \<or> st = int (length (acc @ bs)) \<and> length (acc @ bs) \<le> m \<and>
        (length (acc @ bs) < m \<longrightarrow> left s' = []))"
proof (induction "m - length acc" arbitrary: acc s rule: less_induct)
  case less
  show ?case
  proof (cases "length acc < m")
    case True
    obtain n bs s1 where call: "rd s (m - length acc) = (n, bs, s1)" by (metis prod_cases3)
    consider "n = - 1" | "n = 0" | "0 < n" using rd_range [OF call] by linarith
    then show ?thesis
    proof cases
      case 1
      with call True rd_fail [of s "m - length acc" bs s1] show ?thesis
        by (subst read_bytes.simps) auto
    next
      case 2
      with call True rd_eof [of s "m - length acc" bs s1] rd_left [OF call] show ?thesis
        by (subst read_bytes.simps) auto
    next
      case 3
      with rd_range [OF call] rd_left [OF call]
      have n: "n = int (length bs)" "length bs \<le> m - length acc" "left s = bs @ left s1" by auto
      with 3 True have "m - length (acc @ bs) < m - length acc" "length (acc @ bs) \<le> m"
        by (cases bs, auto)+
      from less(1) [OF this] obtain st cs s' where
        "read_bytes rd s1 m (acc @ bs) = Some (st, (acc @ bs) @ cs, s')" "left s1 = cs @ left s'"
        "st = - 1 \<or> st = int (length ((acc @ bs) @ cs)) \<and> length ((acc @ bs) @ cs) \<le> m \<and>
          (length ((acc @ bs) @ cs) < m \<longrightarrow> left s' = [])"
        by blast
      with n 3 call True show ?thesis
        by (subst read_bytes.simps) (intro exI [of _ st] exI [of _ "bs @ cs"] exI [of _ s'], auto)
    qed
  next
    case False
    with less(2) show ?thesis by (subst read_bytes.simps) auto
  qed
qed

end

subsection \<open>main\<close>

text \<open>
  The buffers hold the bytes of one round.  \<open>digits\<close> and \<open>others\<close> are the two output descriptors.
\<close>

record filter_state =
  input_file :: "char source"
  output_digits :: "char sink"
  output_other :: "char sink"

fun split_buffer :: "char list \<Rightarrow> char list \<Rightarrow> char list \<Rightarrow> char list \<times> char list" where
  "split_buffer [] digits_buffer other_buffer = (digits_buffer, other_buffer)"
| "split_buffer (c # cs) digits_buffer other_buffer =
     (if is_digit c then split_buffer cs (digits_buffer @ [c]) other_buffer
      else split_buffer cs digits_buffer (other_buffer @ [c]))"

definition buffer_size :: nat where
  "buffer_size = 1000"

text \<open>The result is the exit status and the final state of the descriptors.\<close>

partial_function (option) filter_loop :: "filter_state \<Rightarrow> (int \<times> filter_state) option" where
  "filter_loop st =
     Option.bind (read_bytes sys_read (input_file st) buffer_size [])
       (\<lambda>(read_status, read_buffer, in').
          let st1 = st\<lparr>input_file := in'\<rparr> in
          if read_status = - 1 then Some (3, st1)
          else if read_status = 0 then Some (0, st1)
          else
            (case split_buffer (take (nat read_status) read_buffer) [] [] of
               (digits_buffer, other_buffer) \<Rightarrow>
                 Option.bind (write_bytes sys_write (output_digits st1) digits_buffer 0)
                   (\<lambda>(w1, dig').
                      let st2 = st1\<lparr>output_digits := dig'\<rparr> in
                      if w1 = - 1 then Some (3, st2)
                      else Option.bind (write_bytes sys_write (output_other st2) other_buffer 0)
                             (\<lambda>(w2, oth').
                                let st3 = st2\<lparr>output_other := oth'\<rparr> in
                                if w2 = - 1 then Some (3, st3) else filter_loop st3))))"

text \<open>
  What \<^verbatim>\<open>open\<close> finds: the input with its contents or the error number, each output or a failure.
\<close>

definition ENOENT :: int where
  "ENOENT = 2"

definition filter_main ::
  "nat \<Rightarrow> int + char source \<Rightarrow> char sink option \<Rightarrow> char sink option \<Rightarrow>
   (int \<times> filter_state option) option" where
  "filter_main argc inp digits_out other_out =
     (if argc < 3 then Some (3, None)
      else case inp of
        Inl err \<Rightarrow> Some (if err = ENOENT then 1 else 3, None)
      | Inr src \<Rightarrow>
          (case (digits_out, other_out) of
             (Some d, Some r) \<Rightarrow>
               map_option (\<lambda>(code, st). (code, Some st))
                 (filter_loop \<lparr>input_file = src, output_digits = d, output_other = r\<rparr>)
           | _ \<Rightarrow> Some (2, None)))"

lemma split_buffer_filter:
  "split_buffer cs d r = (d @ filter is_digit cs, r @ filter (\<lambda>c. \<not> is_digit c) cs)"
  by (induction cs arbitrary: d r) auto

text \<open>
  What a run may do: it ends with status 0 having written all digits and all other characters of the
  input to their files, or with status 3 having written prefixes of them.
\<close>

definition filtered :: "filter_state \<Rightarrow> int \<Rightarrow> filter_state \<Rightarrow> bool" where
  "filtered st code st' \<longleftrightarrow>
     (let digits = filter is_digit (rest (input_file st));
          others = filter (\<lambda>c. \<not> is_digit c) (rest (input_file st)) in
      (\<exists>i j. sunk (output_digits st') = sunk (output_digits st) @ take i digits \<and>
             sunk (output_other st') = sunk (output_other st) @ take j others \<and>
             (code = 3 \<or> code = 0 \<and> length digits \<le> i \<and> length others \<le> j)))"

lemma filteredI:
  "sunk (output_digits st') = sunk (output_digits st) @ take i (filter is_digit (rest (input_file st))) \<Longrightarrow>
   sunk (output_other st') =
     sunk (output_other st) @ take j (filter (\<lambda>c. \<not> is_digit c) (rest (input_file st))) \<Longrightarrow>
   code = 3 \<or> code = 0 \<and> length (filter is_digit (rest (input_file st))) \<le> i \<and>
     length (filter (\<lambda>c. \<not> is_digit c) (rest (input_file st))) \<le> j \<Longrightarrow> filtered st code st'"
  unfolding filtered_def Let_def by blast

lemma filtered_step:
  assumes "filtered st3 code st'" and "rest (input_file st) = bs @ rest (input_file st3)"
    and "sunk (output_digits st3) = sunk (output_digits st) @ filter is_digit bs"
    and "sunk (output_other st3) = sunk (output_other st) @ filter (\<lambda>c. \<not> is_digit c) bs"
  shows "filtered st code st'"
proof -
  from assms(1) obtain i j where
    "sunk (output_digits st') = sunk (output_digits st3) @ take i (filter is_digit (rest (input_file st3)))"
    "sunk (output_other st') =
       sunk (output_other st3) @ take j (filter (\<lambda>c. \<not> is_digit c) (rest (input_file st3)))"
    "code = 3 \<or> code = 0 \<and> length (filter is_digit (rest (input_file st3))) \<le> i \<and>
       length (filter (\<lambda>c. \<not> is_digit c) (rest (input_file st3))) \<le> j"
    unfolding filtered_def Let_def by blast
  then show ?thesis using assms(2-4)
    by (intro filteredI [of _ _ "length (filter is_digit bs) + i"
          "length (filter (\<lambda>c. \<not> is_digit c) bs) + j"]) auto
qed

lemma filter_loop_total: "\<exists>code st'. filter_loop st = Some (code, st') \<and> filtered st code st'"
proof (induction "length (rest (input_file st))" arbitrary: st rule: less_induct)
  case less
  obtain r bs in' where rb: "read_bytes sys_read (input_file st) buffer_size [] = Some (r, bs, in')"
    "rest (input_file st) = bs @ rest in'"
    "r = - 1 \<or> r = int (length bs) \<and> length bs \<le> buffer_size \<and> (length bs < buffer_size \<longrightarrow> rest in' = [])"
    using source.read_bytes_total [of "[]" buffer_size "input_file st"] by auto
  let ?st1 = "st\<lparr>input_file := in'\<rparr>"
  show ?case
  proof (cases "r = - 1 \<or> r = 0")
    case True
    then have "filter_loop st = Some (if r = - 1 then 3 else 0, ?st1)"
      using rb by (subst filter_loop.simps) auto
    moreover have "filtered st (if r = - 1 then 3 else 0) ?st1"
      using rb True by (intro filteredI [of _ _ 0 0]) (auto simp: buffer_size_def)
    ultimately show ?thesis by blast
  next
    case False
    with rb have r: "r = int (length bs)" "bs \<noteq> []" by auto
    let ?D = "filter is_digit bs" and ?R = "filter (\<lambda>c. \<not> is_digit c) bs"
    obtain w1 d' i where w1: "write_bytes sys_write (output_digits st) ?D 0 = Some (w1, d')"
      "w1 = int (length ?D) \<and> sunk d' = sunk (output_digits st) @ ?D \<or>
       w1 = - 1 \<and> sunk d' = sunk (output_digits st) @ take i ?D"
      using sink.write_bytes_total [of 0 ?D "output_digits st"] by auto
    obtain w2 o' j where w2: "write_bytes sys_write (output_other st) ?R 0 = Some (w2, o')"
      "w2 = int (length ?R) \<and> sunk o' = sunk (output_other st) @ ?R \<or>
       w2 = - 1 \<and> sunk o' = sunk (output_other st) @ take j ?R"
      using sink.write_bytes_total [of 0 ?R "output_other st"] by auto
    let ?st2 = "?st1\<lparr>output_digits := d'\<rparr>"
    let ?st3 = "?st2\<lparr>output_other := o'\<rparr>"
    have run: "filter_loop st =
      (if w1 = - 1 then Some (3, ?st2) else if w2 = - 1 then Some (3, ?st3) else filter_loop ?st3)"
      using rb(1) r w1(1) w2(1)
      by (subst filter_loop.simps) (simp add: split_buffer_filter)
    consider "w1 = - 1" | "w1 \<noteq> - 1" "w2 = - 1" | "w1 \<noteq> - 1" "w2 \<noteq> - 1" by blast
    then show ?thesis
    proof cases
      case 1
      then have "filtered st 3 ?st2"
        using w1(2) rb(2) by (intro filteredI [of _ _ "min i (length ?D)" 0]) (auto simp: min_def)
      with run 1 show ?thesis by simp
    next
      case 2
      then have "filtered st 3 ?st3"
        using w1(2) w2(2) rb(2) by (intro filteredI [of _ _ "length ?D" "min j (length ?R)"]) (auto simp: min_def)
      with run 2 show ?thesis by simp
    next
      case 3
      from rb(2) r(2) have "length (rest (input_file ?st3)) < length (rest (input_file st))" by simp
      from less [OF this] obtain code st' where
        IH: "filter_loop ?st3 = Some (code, st')" "filtered ?st3 code st'" by blast
      have "sunk d' = sunk (output_digits st) @ ?D" and "sunk o' = sunk (output_other st) @ ?R"
        using w1(2) w2(2) 3 by blast+
      then have "filtered st code st'"
        by (intro filtered_step [OF IH(2), of st bs]) (simp_all add: rb(2))
      with run IH 3 show ?thesis by simp
    qed
  qed
qed

text \<open>
  C33: whatever the system calls do, the program ends; when all three files open it ends with status 0
  and the digits and the other characters of the input, in order, in the two outputs, or with status 3
  and prefixes of them.
\<close>

theorem filter_main_splits:
  assumes "3 \<le> argc"
  shows "\<exists>code st'. filter_main argc (Inr src) (Some d) (Some r) = Some (code, Some st') \<and>
    filtered \<lparr>input_file = src, output_digits = d, output_other = r\<rparr> code st'"
  using filter_loop_total [of "\<lparr>input_file = src, output_digits = d, output_other = r\<rparr>"] assms
  by (auto simp: filter_main_def)

theorem filter_main_splits_witness:
  "\<exists>code st'. filter_main 4 (Inr \<lparr>rest = ''a1b22'', rsched = [2, 1]\<rparr>)
      (Some \<lparr>sunk = [], wsched = [0, 1]\<rparr>) (Some \<lparr>sunk = [], wsched = [- 1]\<rparr>) = Some (code, Some st') \<and>
    filtered \<lparr>input_file = \<lparr>rest = ''a1b22'', rsched = [2, 1]\<rparr>,
      output_digits = \<lparr>sunk = [], wsched = [0, 1]\<rparr>,
      output_other = \<lparr>sunk = [], wsched = [- 1]\<rparr>\<rparr> code st'"
  by (rule filter_main_splits) simp

end
