(* ===== verification/ExternalSort.thy ===== *)
theory ExternalSort
  imports Prelude
begin

section \<open>sort-file-contents: merge sort of a file of integers\<close>

text \<open>
  \<^verbatim>\<open>inf08-2_files-io_sort-file-contents/main.c\<close> sorts a file of 4-byte integers in place, with two
  temporary files.  Every offset and every count of the program is a multiple of \<^verbatim>\<open>sizeof(int)\<close>, so a
  file is a list of integers and a position in it counts integers.  The program ignores the results of
  its reads and writes; the model is of runs in which they succeed, and a read that would go past the
  end of the file, leaving part of a buffer uninitialised, is the outcome \<open>None\<close>, and so is a number of
  integers or of bytes that the \<^verbatim>\<open>int\<close> variable that takes it cannot hold (\<open>is_i32\<close>, \<open>int_bytes\<close>).  The globals
  \<^verbatim>\<open>segment_size\<close> and \<^verbatim>\<open>buffer_size\<close> are the arguments \<open>seg\<close> and \<open>bs\<close>, and \<^verbatim>\<open>qsort\<close> is the argument
  \<open>qs\<close>, of which the C standard promises the laws of the locale \<open>c_qsort\<close>.
\<close>

subsection \<open>qsort\<close>

text \<open>What the standard asks of a comparison function on the elements at hand.\<close>

definition consistent :: "('a \<Rightarrow> 'a \<Rightarrow> int) \<Rightarrow> 'a set \<Rightarrow> bool" where
  "consistent cmp S \<longleftrightarrow>
     (\<forall>a \<in> S. \<forall>b \<in> S. (0 < cmp a b \<longleftrightarrow> cmp b a < 0)) \<and>
     (\<forall>a \<in> S. \<forall>b \<in> S. \<forall>c \<in> S. cmp a b \<le> 0 \<longrightarrow> cmp b c \<le> 0 \<longrightarrow> cmp a c \<le> 0)"

lemma consistent_trans:
  "consistent f S \<Longrightarrow> a \<in> S \<Longrightarrow> b \<in> S \<Longrightarrow> c \<in> S \<Longrightarrow> f a b \<le> 0 \<Longrightarrow> f b c \<le> 0 \<Longrightarrow> f a c \<le> 0"
  unfolding consistent_def by blast

lemma consistent_flip: "consistent f S \<Longrightarrow> a \<in> S \<Longrightarrow> b \<in> S \<Longrightarrow> 0 < f a b \<longleftrightarrow> f b a < 0"
  unfolding consistent_def by blast

lemma consistent_subset: "consistent f S \<Longrightarrow> T \<subseteq> S \<Longrightarrow> consistent f T"
  unfolding consistent_def by blast

locale c_qsort =
  fixes qs :: "(int \<Rightarrow> int \<Rightarrow> int) \<Rightarrow> int list \<Rightarrow> int list"
  assumes qsort_perm: "consistent cmp (set xs) \<Longrightarrow> mset (qs cmp xs) = mset xs"
    and qsort_ordered: "consistent cmp (set xs) \<Longrightarrow> sorted_wrt (\<lambda>a b. cmp a b \<le> 0) (qs cmp xs)"

definition cmp :: "int \<Rightarrow> int \<Rightarrow> int" where
  "cmp a b = to_i32 (a - b)"

text \<open>The subtraction in the comparison function is exact on these lists.\<close>

definition no_overflow :: "int list \<Rightarrow> bool" where
  "no_overflow xs \<longleftrightarrow> list_all (\<lambda>a. list_all (\<lambda>b. is_i32 (a - b)) xs) xs"

lemma no_overflow_cmp:
  "no_overflow xs \<Longrightarrow> a \<in> set xs \<Longrightarrow> b \<in> set xs \<Longrightarrow> cmp a b = a - b"
  by (auto simp: no_overflow_def list_all_iff cmp_def)

lemma no_overflow_consistent: "no_overflow xs \<Longrightarrow> consistent cmp (set xs)"
  by (auto simp: consistent_def no_overflow_cmp)

lemma no_overflow_subset: "no_overflow xs \<Longrightarrow> set ys \<subseteq> set xs \<Longrightarrow> no_overflow ys"
  by (auto simp: no_overflow_def list_all_iff)

text \<open>An implementation of the contract: insertion by the comparison function.\<close>

fun insert_by :: "('a \<Rightarrow> 'a \<Rightarrow> int) \<Rightarrow> 'a \<Rightarrow> 'a list \<Rightarrow> 'a list" where
  "insert_by f x [] = [x]"
| "insert_by f x (y # ys) = (if f x y \<le> 0 then x # y # ys else y # insert_by f x ys)"

definition insertion_qsort :: "('a \<Rightarrow> 'a \<Rightarrow> int) \<Rightarrow> 'a list \<Rightarrow> 'a list" where
  "insertion_qsort f xs = foldr (insert_by f) xs []"

lemma mset_insert_by [simp]: "mset (insert_by f x ys) = add_mset x (mset ys)"
  by (induction ys) auto

lemma set_insert_by [simp]: "set (insert_by f x ys) = insert x (set ys)"
  by (induction ys) auto

lemma mset_insertion_qsort: "mset (insertion_qsort f xs) = mset xs"
  by (induction xs) (auto simp: insertion_qsort_def)

lemma set_insertion_qsort: "set (insertion_qsort f xs) = set xs"
  by (metis mset_insertion_qsort set_mset_mset)

lemma insert_by_ordered:
  "consistent f (insert x (set ys)) \<Longrightarrow> sorted_wrt (\<lambda>a b. f a b \<le> 0) ys \<Longrightarrow>
   sorted_wrt (\<lambda>a b. f a b \<le> 0) (insert_by f x ys)"
proof (induction ys)
  case (Cons y ys)
  have con: "consistent f (insert x (set (y # ys)))" and y: "\<forall>z \<in> set ys. f y z \<le> 0"
    using Cons.prems by simp_all
  have IH: "sorted_wrt (\<lambda>a b. f a b \<le> 0) (insert_by f x ys)"
    using Cons by (intro Cons.IH consistent_subset [OF con]) auto
  show ?case
  proof (cases "f x y \<le> 0")
    case True
    then have "\<forall>z \<in> set ys. f x z \<le> 0"
      using y consistent_trans [OF con, of x y] by auto
    with True Cons.prems(2) show ?thesis by simp
  next
    case False
    then have "f y x \<le> 0" using consistent_flip [OF con, of x y] by simp
    with False IH y show ?thesis by simp
  qed
qed simp

lemma insertion_qsort_ordered:
  "consistent f (set xs) \<Longrightarrow> sorted_wrt (\<lambda>a b. f a b \<le> 0) (insertion_qsort f xs)"
proof (induction xs)
  case (Cons x xs)
  then have "consistent f (set xs)" using consistent_subset by fastforce
  with Cons show ?case
    using set_insertion_qsort [of f xs]
    by (simp add: insertion_qsort_def insert_by_ordered)
qed (simp add: insertion_qsort_def)

interpretation insertion: c_qsort insertion_qsort
  by unfold_locales (auto simp: mset_insertion_qsort insertion_qsort_ordered)

subsection \<open>The files\<close>

record cfile =
  cells :: "int list"
  pos :: nat

datatype fdname = FD | T1 | T2

type_synonym store = "fdname \<Rightarrow> cfile"

text \<open>
  \<open>read_bytes\<close> and \<open>write_bytes\<close> at the position of a descriptor; both advance it.  The numbers of
  bytes that the routines pass on are \<^verbatim>\<open>int\<close>s: \<open>int_bytes n\<close> says that those of \<open>n\<close> integers fit.
\<close>

definition int_bytes :: "nat \<Rightarrow> bool" where
  "int_bytes n \<longleftrightarrow> is_i32 (int (4 * n))"

lemma int_bytes_mono: "int_bytes n \<Longrightarrow> m \<le> n \<Longrightarrow> int_bytes m"
  by (simp add: int_bytes_def is_i32_def)

definition read_bytes :: "store \<Rightarrow> fdname \<Rightarrow> nat \<Rightarrow> (int list \<times> store) option" where
  "read_bytes st fd n =
     (let f = st fd in
      if int_bytes n \<and> pos f + n \<le> length (cells f)
      then Some (slice (pos f) (pos f + n) (cells f), st(fd := f\<lparr>pos := pos f + n\<rparr>))
      else None)"

definition write_bytes :: "store \<Rightarrow> fdname \<Rightarrow> int list \<Rightarrow> store" where
  "write_bytes st fd xs =
     (let f = st fd;
          padded = cells f @ replicate (pos f - length (cells f)) 0 in
      st(fd := \<lparr>cells = overwrite padded (pos f) xs, pos = pos f + length xs\<rparr>))"

definition move :: "store \<Rightarrow> fdname \<Rightarrow> nat \<Rightarrow> store" where
  "move st fd offset = st(fd := (st fd)\<lparr>pos := offset\<rparr>)"

definition sort_file_segment ::
  "((int \<Rightarrow> int \<Rightarrow> int) \<Rightarrow> int list \<Rightarrow> int list) \<Rightarrow> store \<Rightarrow> fdname \<Rightarrow> nat \<Rightarrow> store option" where
  "sort_file_segment qs st fd buff_size =
     (let curr = pos (st fd) in
      Option.bind (read_bytes st fd buff_size) (\<lambda>(buffer, st1).
        let st2 = move st1 fd curr in
        Some (write_bytes st2 fd (qs cmp buffer))))"

definition file_size :: "store \<Rightarrow> fdname \<Rightarrow> nat" where
  "file_size st fd = length (cells (st fd))"

text \<open>\<open>bs\<close> is \<^verbatim>\<open>buffer_size\<close>, in bytes here and in integers in \<open>merge_files\<close>, as in the source.\<close>

partial_function (option) copy_file_segment ::
  "nat \<Rightarrow> store \<Rightarrow> fdname \<Rightarrow> fdname \<Rightarrow> nat \<Rightarrow> store option" where
  "copy_file_segment bs st source_fd target_fd cells_count =
     (if cells_count = 0 then Some st
      else if \<not> int_bytes cells_count then None
      else
        (let step = min (bs div 4) cells_count in
         Option.bind (read_bytes st source_fd step) (\<lambda>(main_buffer, st1).
           copy_file_segment bs (write_bytes st1 target_fd main_buffer) source_fd target_fd
             (cells_count - step))))"

function merge_loop :: "int list \<Rightarrow> int list \<Rightarrow> nat \<Rightarrow> nat \<Rightarrow> int list \<Rightarrow> int list \<times> nat \<times> nat" where
  "merge_loop L R i j arr =
     (if i < length L \<and> j < length R then
        (if L ! i \<le> R ! j then merge_loop L R (Suc i) j (arr @ [L ! i])
         else merge_loop L R i (Suc j) (arr @ [R ! j]))
      else (arr, i, j))"
  by pat_completeness auto
termination
  by (relation "measure (\<lambda>(L, R, i, j, arr). (length L - i) + (length R - j))") auto

declare merge_loop.simps [simp del]

definition merge :: "int list \<Rightarrow> int list \<Rightarrow> int list \<times> nat \<times> nat" where
  "merge L R = merge_loop L R 0 0 []"

partial_function (option) merge_loop_files ::
  "nat \<Rightarrow> store \<Rightarrow> fdname \<Rightarrow> nat \<Rightarrow> fdname \<Rightarrow> nat \<Rightarrow> fdname \<Rightarrow> (store \<times> nat \<times> nat) option" where
  "merge_loop_files bs st fd1 size1 fd2 size2 fd_out =
     (if size1 \<noteq> 0 \<and> size2 \<noteq> 0 then
        (let p1 = min size1 bs; p2 = min size2 bs in
         Option.bind (read_bytes st fd1 p1) (\<lambda>(buff1, st1).
         Option.bind (read_bytes st1 fd2 p2) (\<lambda>(buff2, st2).
           case merge buff1 buff2 of (buff_out, q1, q2) \<Rightarrow>
             let st3 = move st2 fd1 (pos (st2 fd1) - (p1 - q1));
                 st4 = move st3 fd2 (pos (st3 fd2) - (p2 - q2));
                 st5 = write_bytes st4 fd_out buff_out
             in if int_bytes (length buff_out)
                then merge_loop_files bs st5 fd1 (size1 - q1) fd2 (size2 - q2) fd_out
                else None)))
      else Some (st, size1, size2))"

definition merge_files ::
  "nat \<Rightarrow> store \<Rightarrow> fdname \<Rightarrow> nat \<Rightarrow> fdname \<Rightarrow> nat \<Rightarrow> fdname \<Rightarrow> store option" where
  "merge_files bs st fd1 size1 fd2 size2 fd_out =
     Option.bind (merge_loop_files bs (move (move st fd1 0) fd2 0) fd1 size1 fd2 size2 fd_out)
       (\<lambda>(st1, s1, s2).
          if s1 \<noteq> 0 \<or> s2 \<noteq> 0 then
            (let (last_fd, last_size) = (if s2 \<noteq> 0 then (fd2, s2) else (fd1, s1))
             in copy_file_segment bs st1 last_fd fd_out last_size)
          else Some st1)"

partial_function (option) merge_sort ::
  "((int \<Rightarrow> int \<Rightarrow> int) \<Rightarrow> int list \<Rightarrow> int list) \<Rightarrow> nat \<Rightarrow> nat \<Rightarrow> store \<Rightarrow> fdname \<Rightarrow> nat \<Rightarrow> nat \<Rightarrow>
   fdname \<Rightarrow> fdname \<Rightarrow> store option" where
  "merge_sort qs seg bs st fd left right t1 t2 =
     (if right - left \<le> seg then sort_file_segment qs (move st fd left) fd (right - left)
      else
        (let mid = left + (right - left) div 2 in
         Option.bind (merge_sort qs seg bs st fd left mid t1 t2) (\<lambda>st1.
         Option.bind (merge_sort qs seg bs st1 fd mid right t1 t2) (\<lambda>st2.
         let st3 = move (move (move st2 t1 0) t2 0) fd left in
         Option.bind (copy_file_segment bs st3 fd t1 (mid - left)) (\<lambda>st4.
         Option.bind (copy_file_segment bs (move st4 fd mid) fd t2 (right - mid)) (\<lambda>st5.
           merge_files bs (move st5 fd left) t1 (mid - left) t2 (right - mid) fd))))))"

definition sort_main ::
  "((int \<Rightarrow> int \<Rightarrow> int) \<Rightarrow> int list \<Rightarrow> int list) \<Rightarrow> nat \<Rightarrow> nat \<Rightarrow> store \<Rightarrow> store option" where
  "sort_main qs seg bs st =
     (let f_size = file_size st FD in
      if is_i32 (int f_size) then merge_sort qs seg bs st FD 0 f_size T1 T2 else None)"

subsection \<open>Sorting one segment in memory\<close>

context c_qsort
begin

lemma qsort_cmp: "no_overflow xs \<Longrightarrow> qs cmp xs = sort xs"
proof -
  assume no: "no_overflow xs"
  have perm: "mset (qs cmp xs) = mset xs" and ord: "sorted_wrt (\<lambda>a b. cmp a b \<le> 0) (qs cmp xs)"
    using no_overflow_consistent [OF no] by (rule qsort_perm qsort_ordered)+
  have "set (qs cmp xs) = set xs" using perm by (metis set_mset_mset)
  with ord have "sorted (qs cmp xs)"
    by (auto simp: no_overflow_cmp [OF no] intro: sorted_wrt_mono_rel [rotated])
  with perm show "qs cmp xs = sort xs" by (intro properties_for_sort [symmetric]) auto
qed

end

named_theorems fileops "the effect of the file operations on contents and positions"

lemma cells_move [fileops]: "cells (move st fd k f) = cells (st f)"
  by (simp add: move_def)

lemma pos_move [fileops]: "pos (move st fd k f) = (if f = fd then k else pos (st f))"
  by (simp add: move_def)

lemma read_bytes_ok [fileops]:
  "int_bytes n \<Longrightarrow> pos (st fd) + n \<le> length (cells (st fd)) \<Longrightarrow>
   read_bytes st fd n = Some (slice (pos (st fd)) (pos (st fd) + n) (cells (st fd)),
     move st fd (pos (st fd) + n))"
  by (simp add: read_bytes_def move_def Let_def)

lemma cells_write [fileops]:
  "pos (st fd) \<le> length (cells (st fd)) \<Longrightarrow>
   cells (write_bytes st fd xs f) =
     (if f = fd then overwrite (cells (st f)) (pos (st f)) xs else cells (st f))"
  by (simp add: write_bytes_def Let_def)

lemma pos_write [fileops]:
  "pos (write_bytes st fd xs f) = (if f = fd then pos (st f) + length xs else pos (st f))"
  by (simp add: write_bytes_def Let_def)

lemma length_cells_write [fileops]:
  "pos (st fd) \<le> length (cells (st fd)) \<Longrightarrow>
   length (cells (write_bytes st fd xs fd)) = max (length (cells (st fd))) (pos (st fd) + length xs)"
  by (simp add: fileops overwrite_def max_def)

lemma other_files [fileops]:
  "f \<noteq> fd \<Longrightarrow> move st fd k f = st f"
  "f \<noteq> fd \<Longrightarrow> write_bytes st fd xs f = st f"
  by (simp_all add: move_def write_bytes_def Let_def)

text \<open>\<open>copied st src dst xs st'\<close>: the step from \<open>st\<close> to \<open>st'\<close> has moved \<open>xs\<close> from \<open>src\<close> to \<open>dst\<close>.\<close>

definition copied :: "store \<Rightarrow> fdname \<Rightarrow> fdname \<Rightarrow> int list \<Rightarrow> store \<Rightarrow> bool" where
  "copied st src dst xs st' \<longleftrightarrow>
     cells (st' src) = cells (st src) \<and> pos (st' src) = pos (st src) + length xs \<and>
     cells (st' dst) = overwrite (cells (st dst)) (pos (st dst)) xs \<and>
     pos (st' dst) = pos (st dst) + length xs \<and> (\<forall>f. f \<noteq> src \<and> f \<noteq> dst \<longrightarrow> st' f = st f)"

lemma copied_refl: "copied st src dst [] st"
  by (simp add: copied_def)

lemma copied_trans:
  assumes "copied st src dst xs st1" "copied st1 src dst ys st2" "pos (st dst) \<le> length (cells (st dst))"
  shows "copied st src dst (xs @ ys) st2"
proof -
  have "overwrite (overwrite (cells (st dst)) (pos (st dst)) xs) (pos (st dst) + length xs) ys =
      overwrite (cells (st dst)) (pos (st dst)) (xs @ ys)"
    using assms(3) by (rule overwrite_append)
  then show ?thesis using assms(1,2) by (simp add: copied_def)
qed

lemma copied_one:
  assumes "src \<noteq> dst" "pos (st dst) \<le> length (cells (st dst))" "length xs = n"
  shows "copied st src dst xs (write_bytes (move st src (pos (st src) + n)) dst xs)"
  using assms by (simp add: copied_def fileops)

lemma copied_dst_pos:
  "copied st src dst xs st' \<Longrightarrow> pos (st dst) \<le> length (cells (st dst)) \<Longrightarrow>
   pos (st' dst) \<le> length (cells (st' dst))"
  by (simp add: copied_def overwrite_def)

lemma copy_file_segment_ok:
  assumes "4 \<le> bs" and "src \<noteq> dst"
  shows "int_bytes n \<Longrightarrow> pos (st src) + n \<le> length (cells (st src)) \<Longrightarrow> pos (st dst) \<le> length (cells (st dst)) \<Longrightarrow>
    \<exists>st'. copy_file_segment bs st src dst n = Some st' \<and>
      copied st src dst (slice (pos (st src)) (pos (st src) + n) (cells (st src))) st'"
proof (induction n arbitrary: st rule: less_induct)
  case (less n)
  show ?case
  proof (cases "n = 0")
    case True
    then show ?thesis by (subst copy_file_segment.simps) (simp add: copied_refl)
  next
    case False
    define k where "k = min (bs div 4) n"
    define xs where "xs = slice (pos (st src)) (pos (st src) + k) (cells (st src))"
    define st1 where "st1 = write_bytes (move st src (pos (st src) + k)) dst xs"
    have k: "0 < k" "k \<le> n" using assms(1) False by (auto simp: k_def)
    have ib: "int_bytes k" "int_bytes (n - k)" using int_bytes_mono [OF less.prems(1)] k by simp_all
    have len: "length xs = k" using less.prems(2) k by (simp add: xs_def)
    have c1: "copied st src dst xs st1"
      unfolding st1_def using assms(2) less.prems(3) len by (rule copied_one)
    then have src1: "pos (st1 src) = pos (st src) + k" "cells (st1 src) = cells (st src)"
      using len by (simp_all add: copied_def)
    then have "pos (st1 src) + (n - k) \<le> length (cells (st1 src))" using less.prems(2) k by simp
    with less.IH [OF _ ib(2) this copied_dst_pos [OF c1 less.prems(3)]] k
    obtain st' where st': "copy_file_segment bs st1 src dst (n - k) = Some st'"
      "copied st1 src dst (slice (pos (st src) + k) (pos (st src) + k + (n - k)) (cells (st src))) st'"
      unfolding src1 by fastforce
    have "xs @ slice (pos (st src) + k) (pos (st src) + k + (n - k)) (cells (st src)) =
        slice (pos (st src)) (pos (st src) + n) (cells (st src))"
      using k by (simp add: xs_def slice_append)
    with copied_trans [OF c1 st'(2) less.prems(3)]
    have "copied st src dst (slice (pos (st src)) (pos (st src) + n) (cells (st src))) st'" by simp
    moreover have "copy_file_segment bs st src dst n = copy_file_segment bs st1 src dst (n - k)"
      using less.prems k False ib(1)
      by (subst copy_file_segment.simps) (simp add: fileops Let_def k_def xs_def st1_def)
    ultimately show ?thesis using st'(1) by simp
  qed
qed

subsection \<open>Merging two buffers\<close>

text \<open>
  The loop consumes prefixes of both buffers, one of them completely; what it consumed is merged in
  order and nothing it left behind is smaller.
\<close>

lemma merge_lower_bound:
  assumes "sorted L" "sorted R" "i < length L" "j < length R" "m \<le> L ! i" "m \<le> R ! j"
  shows "\<forall>z \<in> set (drop i L) \<union> set (drop j R). m \<le> z"
  using assms sorted_drop_ge by (metis UnE order_trans)

definition merged :: "int list \<Rightarrow> int list \<Rightarrow> nat \<Rightarrow> nat \<Rightarrow> int list \<Rightarrow> nat \<Rightarrow> nat \<Rightarrow> bool" where
  "merged L R i j ys i' j' \<longleftrightarrow>
     i \<le> i' \<and> i' \<le> length L \<and> j \<le> j' \<and> j' \<le> length R \<and> (i' = length L \<or> j' = length R) \<and>
     mset ys = mset (slice i i' L) + mset (slice j j' R) \<and> sorted ys \<and>
     (\<forall>y \<in> set ys. \<forall>z \<in> set (drop i' L) \<union> set (drop j' R). y \<le> z) \<and>
     (\<forall>y \<in> set ys. y \<le> last L \<and> y \<le> last R)"

lemma merged_set: "merged L R i j ys i' j' \<Longrightarrow> set ys \<subseteq> set (drop i L) \<union> set (drop j R)"
proof -
  assume "merged L R i j ys i' j'"
  then have "set ys = set (slice i i' L) \<union> set (slice j j' R)"
    unfolding merged_def by (metis set_mset_mset set_mset_union)
  then show ?thesis using set_slice_subset by fast
qed

lemma merged_ConsL:
  assumes "sorted L" "sorted R" "i < length L" "j < length R" "L ! i \<le> R ! j"
    and "merged L R (Suc i) j ys i' j'"
  shows "merged L R i j (L ! i # ys) i' j'"
proof -
  have low: "\<forall>z \<in> set (drop i L) \<union> set (drop j R). L ! i \<le> z"
    using merge_lower_bound [OF assms(1-4) order_refl assms(5)] .
  have "set (drop (Suc i) L) \<subseteq> set (drop i L)" by (simp add: set_drop_subset_set_drop)
  with low merged_set [OF assms(6)] have "\<forall>y \<in> set ys. L ! i \<le> y" by blast
  moreover from assms(6) have le: "Suc i \<le> i'" "i' \<le> length L" "j \<le> j'" by (auto simp: merged_def)
  then have "set (drop i' L) \<subseteq> set (drop i L)" "set (drop j' R) \<subseteq> set (drop j R)"
    by (simp_all add: set_drop_subset_set_drop)
  with low have "\<forall>z \<in> set (drop i' L) \<union> set (drop j' R). L ! i \<le> z" by blast
  moreover have "slice i i' L = L ! i # slice (Suc i) i' L" using le by (simp add: slice_Cons)
  moreover have "last L \<in> set (drop i L)" "last R \<in> set (drop j R)"
    using assms(3,4) by (metis last_drop last_in_set drop_eq_Nil not_le)+
  with low have "L ! i \<le> last L \<and> L ! i \<le> last R" by blast
  ultimately show ?thesis using assms(6) by (auto simp: merged_def)
qed

lemma merged_ConsR:
  assumes "sorted L" "sorted R" "i < length L" "j < length R" "R ! j \<le> L ! i"
    and "merged L R i (Suc j) ys i' j'"
  shows "merged L R i j (R ! j # ys) i' j'"
proof -
  have "merged R L j i (R ! j # ys) j' i'"
    by (rule merged_ConsL) (use assms in \<open>auto simp: merged_def add.commute\<close>)
  then show ?thesis by (auto simp: merged_def)
qed

lemma merge_loop_spec:
  assumes "sorted L" and "sorted R"
  shows "i \<le> length L \<Longrightarrow> j \<le> length R \<Longrightarrow>
    \<exists>ys i' j'. merge_loop L R i j arr = (arr @ ys, i', j') \<and> merged L R i j ys i' j'"
  using assms
proof (induction L R i j arr rule: merge_loop.induct)
  case (1 L R i j arr)
  show ?case
  proof (cases "i < length L \<and> j < length R")
    case in_range: True
    show ?thesis
    proof (cases "L ! i \<le> R ! j")
      case True
      with 1 in_range obtain ys i' j' where
        "merge_loop L R (Suc i) j (arr @ [L ! i]) = ((arr @ [L ! i]) @ ys, i', j')"
        "merged L R (Suc i) j ys i' j'" by fastforce
      with True in_range 1(3-6) show ?thesis
        using merged_ConsL [of L R i j ys i' j'] by (simp add: merge_loop.simps [of L R i j])
    next
      case False
      with 1 in_range obtain ys i' j' where
        "merge_loop L R i (Suc j) (arr @ [R ! j]) = ((arr @ [R ! j]) @ ys, i', j')"
        "merged L R i (Suc j) ys i' j'" by fastforce
      with False in_range 1(3-6) show ?thesis
        using merged_ConsR [of L R i j ys i' j'] by (simp add: merge_loop.simps [of L R i j])
    qed
  next
    case False
    with 1(3,4) show ?thesis by (auto simp: merge_loop.simps [of L R i j] merged_def)
  qed
qed

lemma merge_spec:
  assumes "sorted L" and "sorted R"
  obtains ys i j where "merge L R = (ys, i, j)" and "merged L R 0 0 ys i j"
  using merge_loop_spec [OF assms, of 0 0 "[]"] by (auto simp: merge_def)

text \<open>
  One round of \<open>merge_files\<close>: merging the first \<open>p1\<close> and \<open>p2\<close> elements of two sorted lists puts the
  smallest elements of both lists out, in order, and makes progress.
\<close>

lemma merge_round:
  assumes "sorted A" "sorted B" "0 < p1" "p1 \<le> length A" "0 < p2" "p2 \<le> length B"
    and merge: "merge (take p1 A) (take p2 B) = (ys, i, j)"
  shows "i \<le> p1" "j \<le> p2" "0 < i + j" "length ys = i + j"
    and "sort (A @ B) = ys @ sort (drop i A @ drop j B)"
proof -
  have sorted_take: "sorted (take p1 A)" "sorted (take p2 B)"
    using assms(1,2) by (simp_all add: sorted_wrt_take)
  have m: "merged (take p1 A) (take p2 B) 0 0 ys i j"
    using merge_spec [OF sorted_take] merge by auto
  have "length (take p1 A) = p1" "length (take p2 B) = p2" using assms(4,6) by simp_all
  with m have "i \<le> p1 \<and> j \<le> p2 \<and> (i = p1 \<or> j = p2)" unfolding merged_def by metis
  then show i: "i \<le> p1" and j: "j \<le> p2" and "0 < i + j"
    using assms(3,5) by auto
  have perm: "mset ys = mset (take i A) + mset (take j B)"
    using m i j by (simp add: merged_def slice_def min_def)
  from arg_cong [OF this, of size] show "length ys = i + j"
    using i j assms(4,6) by (simp add: min_def)
  have split: "drop i A = drop i (take p1 A) @ drop p1 A" "drop j B = drop j (take p2 B) @ drop p2 B"
    using i j by (simp_all add: drop_take) (metis append_take_drop_id drop_drop le_add_diff_inverse2)+
  have "take p1 A \<noteq> []" "take p2 B \<noteq> []" using assms(3-6) by auto
  then have beyond: "\<forall>z \<in> set (drop p1 A). last (take p1 A) \<le> z"
    "\<forall>z \<in> set (drop p2 B). last (take p2 B) \<le> z"
    using assms(1,2) by (metis append_take_drop_id last_in_set sorted_append)+
  have "\<forall>y \<in> set ys. \<forall>z \<in> set (drop i A @ drop j B). y \<le> z"
    using m beyond unfolding split merged_def by fastforce
  moreover have "mset A = mset (take i A) + mset (drop i A)" "mset B = mset (take j B) + mset (drop j B)"
    by (metis append_take_drop_id mset_append)+
  then have "mset ys + mset (drop i A @ drop j B) = mset (A @ B)"
    unfolding perm by (simp add: ac_simps)
  moreover have "sorted ys" using m by (simp add: merged_def)
  ultimately show "sort (A @ B) = ys @ sort (drop i A @ drop j B)" by (intro sort_split_front)
qed

subsection \<open>Merging two files\<close>

text \<open>The next \<open>n\<close> integers of a file.\<close>

definition pending :: "store \<Rightarrow> fdname \<Rightarrow> nat \<Rightarrow> int list" where
  "pending st fd n = slice (pos (st fd)) (pos (st fd) + n) (cells (st fd))"

definition merged_out ::
  "store \<Rightarrow> fdname \<Rightarrow> nat \<Rightarrow> fdname \<Rightarrow> nat \<Rightarrow> fdname \<Rightarrow> int list \<Rightarrow> store \<Rightarrow> nat \<Rightarrow> nat \<Rightarrow> bool" where
  "merged_out st fd1 n1 fd2 n2 fo ys st' m1 m2 \<longleftrightarrow>
     cells (st' fd1) = cells (st fd1) \<and> pos (st' fd1) + m1 = pos (st fd1) + n1 \<and> m1 \<le> n1 \<and>
     cells (st' fd2) = cells (st fd2) \<and> pos (st' fd2) + m2 = pos (st fd2) + n2 \<and> m2 \<le> n2 \<and>
     cells (st' fo) = overwrite (cells (st fo)) (pos (st fo)) ys \<and> pos (st' fo) = pos (st fo) + length ys \<and>
     sort (pending st fd1 n1 @ pending st fd2 n2) = ys @ sort (pending st' fd1 m1 @ pending st' fd2 m2)"

lemma merged_out_trans:
  assumes "merged_out st fd1 n1 fd2 n2 fo ys st1 k1 k2" "merged_out st1 fd1 k1 fd2 k2 fo zs st2 m1 m2"
    and "pos (st fo) \<le> length (cells (st fo))"
  shows "merged_out st fd1 n1 fd2 n2 fo (ys @ zs) st2 m1 m2"
proof -
  have "overwrite (overwrite (cells (st fo)) (pos (st fo)) ys) (pos (st fo) + length ys) zs =
      overwrite (cells (st fo)) (pos (st fo)) (ys @ zs)"
    using assms(3) by (rule overwrite_append)
  then show ?thesis using assms(1,2) by (simp add: merged_out_def)
qed

lemma slice_prefix: "k \<le> n \<Longrightarrow> slice p (p + k) xs = take k (slice p (p + n) xs)"
  by (simp add: slice_def min_def)

lemma slice_suffix: "k \<le> n \<Longrightarrow> slice (p + k) (p + n) xs = drop k (slice p (p + n) xs)"
  by (simp add: slice_def drop_take add.commute)

lemma distinct3:
  "distinct [a, b, c] \<Longrightarrow> a \<noteq> b \<and> b \<noteq> a \<and> a \<noteq> c \<and> c \<noteq> a \<and> b \<noteq> c \<and> c \<noteq> b"
  by auto

text \<open>One turn of the loop, for two files with integers left.\<close>

lemma merge_turn:
  assumes "distinct [fd1, fd2, fo]" "0 < bs" "0 < n1" "0 < n2" and ib: "int_bytes (n1 + n2)"
    and "pos (st fd1) + n1 \<le> length (cells (st fd1))" "pos (st fd2) + n2 \<le> length (cells (st fd2))"
    and "pos (st fo) \<le> length (cells (st fo))"
    and "sorted (pending st fd1 n1)" "sorted (pending st fd2 n2)"
  shows "\<exists>ys st1 q1 q2. merge_loop_files bs st fd1 n1 fd2 n2 fo =
      merge_loop_files bs st1 fd1 (n1 - q1) fd2 (n2 - q2) fo \<and> q1 \<le> n1 \<and> q2 \<le> n2 \<and> 0 < q1 + q2 \<and>
      merged_out st fd1 n1 fd2 n2 fo ys st1 (n1 - q1) (n2 - q2) \<and>
      pending st1 fd1 (n1 - q1) = drop q1 (pending st fd1 n1) \<and>
      pending st1 fd2 (n2 - q2) = drop q2 (pending st fd2 n2)"
proof -
  define p1 p2 where "p1 = min n1 bs" and "p2 = min n2 bs"
  define A B where "A = pending st fd1 n1" and "B = pending st fd2 n2"
  have p: "0 < p1" "p1 \<le> n1" "0 < p2" "p2 \<le> n2" using assms(2-4) by (auto simp: p1_def p2_def)
  have len: "length A = n1" "length B = n2"
    using assms(6,7) by (simp_all add: A_def B_def pending_def)
  obtain ys q1 q2 where mg: "merge (take p1 A) (take p2 B) = (ys, q1, q2)" by (metis prod_cases3)
  from merge_round [OF _ _ p(1) _ p(3) _ mg] assms(9,10) p len
  have q: "q1 \<le> p1" "q2 \<le> p2" "0 < q1 + q2" "length ys = q1 + q2"
    and sorts: "sort (A @ B) = ys @ sort (drop q1 A @ drop q2 B)"
    by (simp_all add: A_def B_def)
  define st1 where "st1 = write_bytes (move (move (move (move st fd1 (pos (st fd1) + p1))
      fd2 (pos (st fd2) + p2)) fd1 (pos (st fd1) + q1)) fd2 (pos (st fd2) + q2)) fo ys"
  have ib1: "int_bytes p1" "int_bytes p2" "int_bytes (length ys)"
    using int_bytes_mono [OF ib] p q by simp_all
  have run: "merge_loop_files bs st fd1 n1 fd2 n2 fo =
      merge_loop_files bs st1 fd1 (n1 - q1) fd2 (n2 - q2) fo"
  proof -
    have "read_bytes st fd1 p1 = Some (take p1 A, move st fd1 (pos (st fd1) + p1))"
      using assms(6) p ib1 by (simp add: read_bytes_ok A_def pending_def slice_prefix [OF p(2)])
    moreover have "read_bytes (move st fd1 (pos (st fd1) + p1)) fd2 p2 =
        Some (take p2 B, move (move st fd1 (pos (st fd1) + p1)) fd2 (pos (st fd2) + p2))"
      using distinct3 [OF assms(1)] assms(7) p ib1
      by (simp add: fileops B_def pending_def slice_prefix [OF p(4)])
    ultimately show ?thesis
      using distinct3 [OF assms(1)] assms(3,4) q mg ib1(3)
      by (subst merge_loop_files.simps)
         (simp add: Let_def fileops st1_def flip: p1_def p2_def)
  qed
  have st1: "cells (st1 fd1) = cells (st fd1)" "pos (st1 fd1) = pos (st fd1) + q1"
    "cells (st1 fd2) = cells (st fd2)" "pos (st1 fd2) = pos (st fd2) + q2"
    "cells (st1 fo) = overwrite (cells (st fo)) (pos (st fo)) ys" "pos (st1 fo) = pos (st fo) + length ys"
    using distinct3 [OF assms(1)] assms(8) by (simp_all add: st1_def fileops)
  have rest: "pending st1 fd1 (n1 - q1) = drop q1 A" "pending st1 fd2 (n2 - q2) = drop q2 B"
    using q p slice_suffix [of q1 n1] slice_suffix [of q2 n2]
    by (simp_all add: pending_def st1 A_def B_def)
  have "merged_out st fd1 n1 fd2 n2 fo ys st1 (n1 - q1) (n2 - q2)"
    using q p st1 sorts rest by (simp add: merged_out_def flip: A_def B_def)
  with run rest q p show ?thesis unfolding A_def B_def
    by (intro exI [of _ ys] exI [of _ st1] exI [of _ q1] exI [of _ q2]) simp
qed

lemma merge_loop_files_ok:
  assumes "distinct [fd1, fd2, fo]" "0 < bs"
  shows "int_bytes (n1 + n2) \<Longrightarrow>
    pos (st fd1) + n1 \<le> length (cells (st fd1)) \<Longrightarrow> pos (st fd2) + n2 \<le> length (cells (st fd2)) \<Longrightarrow>
    pos (st fo) \<le> length (cells (st fo)) \<Longrightarrow> sorted (pending st fd1 n1) \<Longrightarrow> sorted (pending st fd2 n2) \<Longrightarrow>
    \<exists>st' m1 m2 ys. merge_loop_files bs st fd1 n1 fd2 n2 fo = Some (st', m1, m2) \<and> (m1 = 0 \<or> m2 = 0) \<and>
      merged_out st fd1 n1 fd2 n2 fo ys st' m1 m2 \<and>
      sorted (pending st' fd1 m1) \<and> sorted (pending st' fd2 m2)"
proof (induction "n1 + n2" arbitrary: st n1 n2 rule: less_induct)
  case less
  show ?case
  proof (cases "0 < n1 \<and> 0 < n2")
    case False
    then have "merge_loop_files bs st fd1 n1 fd2 n2 fo = Some (st, n1, n2)"
      by (subst merge_loop_files.simps) auto
    moreover have "merged_out st fd1 n1 fd2 n2 fo [] st n1 n2" by (simp add: merged_out_def)
    ultimately show ?thesis using False less.prems(5,6)
      by (intro exI [of _ st] exI [of _ n1] exI [of _ n2] exI [of _ "[]"]) simp
  next
    case True
    then have "0 < n1" "0 < n2" by auto
    from merge_turn [OF assms this less.prems] obtain ys st1 q1 q2 where
      run: "merge_loop_files bs st fd1 n1 fd2 n2 fo =
        merge_loop_files bs st1 fd1 (n1 - q1) fd2 (n2 - q2) fo"
      and q: "q1 \<le> n1" "q2 \<le> n2" "0 < q1 + q2"
      and m: "merged_out st fd1 n1 fd2 n2 fo ys st1 (n1 - q1) (n2 - q2)"
      and rest: "pending st1 fd1 (n1 - q1) = drop q1 (pending st fd1 n1)"
        "pending st1 fd2 (n2 - q2) = drop q2 (pending st fd2 n2)"
      by blast
    have "n1 - q1 + (n2 - q2) < n1 + n2" using q by linarith
    moreover have "int_bytes (n1 - q1 + (n2 - q2))"
      by (rule int_bytes_mono [OF less.prems(1)]) simp
    moreover have "pos (st1 fd1) + (n1 - q1) \<le> length (cells (st1 fd1))"
      "pos (st1 fd2) + (n2 - q2) \<le> length (cells (st1 fd2))"
      using m less.prems(2,3) by (simp_all add: merged_out_def)
    moreover have "pos (st1 fo) \<le> length (cells (st1 fo))"
      using m less.prems(4) by (simp add: merged_out_def overwrite_def)
    moreover have "sorted (pending st1 fd1 (n1 - q1))" "sorted (pending st1 fd2 (n2 - q2))"
      unfolding rest using less.prems(5,6) by (simp_all add: sorted_wrt_drop)
    ultimately obtain st' m1 m2 zs where IH:
      "merge_loop_files bs st1 fd1 (n1 - q1) fd2 (n2 - q2) fo = Some (st', m1, m2)" "m1 = 0 \<or> m2 = 0"
      "merged_out st1 fd1 (n1 - q1) fd2 (n2 - q2) fo zs st' m1 m2"
      "sorted (pending st' fd1 m1)" "sorted (pending st' fd2 m2)"
      using less.hyps by blast
    from merged_out_trans [OF m IH(3) less.prems(4)] IH run show ?thesis by metis
  qed
qed

text \<open>After \<open>merge_files\<close> the sorted union of both files is in the output.\<close>

lemma pending_0 [simp]: "pending st fd 0 = []"
  by (simp add: pending_def)

lemma merge_files_ok:
  assumes "distinct [fd1, fd2, fo]" "4 \<le> bs" and ib: "int_bytes (n1 + n2)"
    and "n1 \<le> length (cells (st fd1))" "n2 \<le> length (cells (st fd2))"
    and "pos (st fo) \<le> length (cells (st fo))"
    and "sorted (take n1 (cells (st fd1)))" "sorted (take n2 (cells (st fd2)))"
  shows "\<exists>st'. merge_files bs st fd1 n1 fd2 n2 fo = Some st' \<and>
    cells (st' fo) = overwrite (cells (st fo)) (pos (st fo))
      (sort (take n1 (cells (st fd1)) @ take n2 (cells (st fd2))))"
proof -
  define st0 where "st0 = move (move st fd1 0) fd2 0"
  have st0: "cells (st0 f) = cells (st f)" "pos (st0 fd1) = 0" "pos (st0 fd2) = 0" "pos (st0 fo) = pos (st fo)"
    for f using distinct3 [OF assms(1)] by (simp_all add: st0_def fileops)
  have pend: "pending st0 fd1 n1 = take n1 (cells (st fd1))" "pending st0 fd2 n2 = take n2 (cells (st fd2))"
    by (simp_all add: pending_def st0 slice_def)
  have "0 < bs" using assms(2) by simp
  from merge_loop_files_ok [OF assms(1) this ib, of st0] assms st0 pend
  obtain st1 m1 m2 ys where loop: "merge_loop_files bs st0 fd1 n1 fd2 n2 fo = Some (st1, m1, m2)"
    "m1 = 0 \<or> m2 = 0" "merged_out st0 fd1 n1 fd2 n2 fo ys st1 m1 m2"
    "sorted (pending st1 fd1 m1)" "sorted (pending st1 fd2 m2)"
    by auto
  define lf k where "lf = (if m2 \<noteq> 0 then fd2 else fd1)" and "k = (if m2 \<noteq> 0 then m2 else m1)"
  have out: "cells (st1 fo) = overwrite (cells (st fo)) (pos (st fo)) ys"
    "pos (st1 fo) = pos (st fo) + length ys"
    using loop(3) by (simp_all add: merged_out_def st0)
  have room: "pos (st1 lf) + k \<le> length (cells (st1 lf))"
    using loop(3) assms(4,5) by (auto simp: merged_out_def st0 lf_def k_def)
  have sorts: "sort (take n1 (cells (st fd1)) @ take n2 (cells (st fd2))) = ys @ pending st1 lf k"
    using loop(2,3,4,5) by (auto simp: merged_out_def pend sorted_sort_id lf_def k_def)
  have room': "pos (st1 fo) \<le> length (cells (st1 fo))"
    unfolding out using assms(6) by (simp add: overwrite_def)
  have ibk: "int_bytes k"
    using loop(3) by (intro int_bytes_mono [OF ib]) (auto simp: merged_out_def k_def)
  have "lf \<noteq> fo" using distinct3 [OF assms(1)] by (simp add: lf_def)
  from copy_file_segment_ok [OF assms(2) this ibk room room']
  obtain st' where copy: "copy_file_segment bs st1 lf fo k = Some st'"
    "copied st1 lf fo (pending st1 lf k) st'"
    by (auto simp: pending_def)
  then have "cells (st' fo) = overwrite (cells (st fo)) (pos (st fo))
      (sort (take n1 (cells (st fd1)) @ take n2 (cells (st fd2))))"
    using assms(6) by (simp add: copied_def out overwrite_append sorts)
  moreover have "merge_files bs st fd1 n1 fd2 n2 fo = Some st'"
    using loop(1,2) copy(1)
    by (cases "m1 = 0 \<and> m2 = 0")
       (auto simp: merge_files_def lf_def k_def copy_file_segment.simps simp flip: st0_def)
  ultimately show ?thesis by blast
qed

subsection \<open>The sort\<close>

lemma no_overflow_segment: "no_overflow xs \<Longrightarrow> no_overflow (slice l r xs)"
  by (erule no_overflow_subset) (rule set_slice_subset')

lemma no_overflow_sorted_segment:
  "no_overflow xs \<Longrightarrow> no_overflow (overwrite xs p (sort (slice l r xs)))"
  using set_overwrite_subset [of xs p "sort (slice l r xs)"] set_slice_subset' [of l r xs]
  by (elim no_overflow_subset) auto

lemma sort_file_segment_ok:
  assumes "c_qsort qs" "no_overflow (cells (st fd))" "int_bytes n" "pos (st fd) + n \<le> length (cells (st fd))"
  shows "\<exists>st'. sort_file_segment qs st fd n = Some st' \<and>
    cells (st' fd) = overwrite (cells (st fd)) (pos (st fd))
      (sort (slice (pos (st fd)) (pos (st fd) + n) (cells (st fd))))"
  using assms c_qsort.qsort_cmp [OF assms(1) no_overflow_segment [OF assms(2)]]
  by (simp add: sort_file_segment_def fileops)

lemma merge_sort_ok:
  assumes "c_qsort qs" "1 \<le> seg" "4 \<le> bs"
  shows "left \<le> right \<Longrightarrow> right \<le> length (cells (st FD)) \<Longrightarrow> no_overflow (cells (st FD)) \<Longrightarrow>
    int_bytes (right - left) \<Longrightarrow>
    \<exists>st'. merge_sort qs seg bs st FD left right T1 T2 = Some st' \<and>
      cells (st' FD) = overwrite (cells (st FD)) left (sort (slice left right (cells (st FD))))"
proof (induction "right - left" arbitrary: st left right rule: less_induct)
  case less
  define C where "C = cells (st FD)"
  note ib = int_bytes_mono [OF less.prems(4)]
  show ?case
  proof (cases "right - left \<le> seg")
    case True
    with sort_file_segment_ok [OF assms(1), of "move st FD left" FD "right - left"] less.prems
    show ?thesis by (subst merge_sort.simps) (simp add: fileops)
  next
    case False
    define mid where "mid = left + (right - left) div 2"
    have mid: "left \<le> mid" "mid \<le> right" "mid - left < right - left" "right - mid < right - left"
      using False assms(2) less.prems(1) by (auto simp: mid_def)
    define S1 S2 where "S1 = sort (slice left mid C)" and "S2 = sort (slice mid right C)"
    have len: "length S1 = mid - left" "length S2 = right - mid"
      using less.prems mid by (simp_all add: S1_def S2_def C_def)
    obtain st1 where st1: "merge_sort qs seg bs st FD left mid T1 T2 = Some st1"
      "cells (st1 FD) = overwrite C left S1"
      using less.hyps [OF mid(3) mid(1), of st] less.prems mid ib by (auto simp: C_def S1_def)
    have no1: "no_overflow (cells (st1 FD))"
      unfolding st1(2) S1_def C_def by (rule no_overflow_sorted_segment) (rule less.prems(3))
    have "slice mid right (cells (st1 FD)) = slice mid right C"
      unfolding st1(2) using less.prems mid len by (intro slice_overwrite_after) (auto simp: C_def)
    moreover have "length (cells (st1 FD)) = length C"
      unfolding st1(2) using less.prems mid len by (simp add: C_def)
    ultimately obtain st2 where st2: "merge_sort qs seg bs st1 FD mid right T1 T2 = Some st2"
      "cells (st2 FD) = overwrite (overwrite C left S1) mid S2"
      using less.hyps [OF mid(4) mid(2), of st1] less.prems no1 ib mid by (auto simp: C_def S2_def st1(2))
    have C2: "cells (st2 FD) = overwrite C left (S1 @ S2)"
      using overwrite_append [of left C S1 S2] less.prems mid len unfolding st2(2) by (simp add: C_def)
    define st3 where "st3 = move (move (move st2 T1 0) T2 0) FD left"
    have st3: "cells (st3 f) = cells (st2 f)" "pos (st3 FD) = left" "pos (st3 T1) = 0" "pos (st3 T2) = 0" for f
      by (simp_all add: st3_def fileops)
    have CR: "right \<le> length C" using less.prems by (simp add: C_def)
    have lenC: "length (overwrite C left (S1 @ S2)) = length C"
      using less.prems mid len by (simp add: C_def)
    have halves: "slice left mid (overwrite C left (S1 @ S2)) = S1"
      "slice mid right (overwrite C left (S1 @ S2)) = S2"
      using less.prems mid len by (auto simp: C_def slice_def overwrite_def)
    from copy_file_segment_ok [OF assms(3), of FD T1 "mid - left" st3]
    obtain st4 where st4: "copy_file_segment bs st3 FD T1 (mid - left) = Some st4" "copied st3 FD T1 S1 st4"
      using CR mid ib by (auto simp: st3 C2 lenC halves)
    define st4' where "st4' = move st4 FD mid"
    have st4': "cells (st4' FD) = cells (st2 FD)" "pos (st4' FD) = mid" "pos (st4' T2) = 0"
      using st4(2) by (simp_all add: st4'_def fileops copied_def st3)
    from copy_file_segment_ok [OF assms(3), of FD T2 "right - mid" st4']
    obtain st5 where st5: "copy_file_segment bs st4' FD T2 (right - mid) = Some st5" "copied st4' FD T2 S2 st5"
      using CR mid ib by (auto simp: st4' C2 lenC halves)
    define st6 where "st6 = move st5 FD left"
    have st6: "cells (st6 FD) = overwrite C left (S1 @ S2)" "pos (st6 FD) = left"
      "take (mid - left) (cells (st6 T1)) = S1" "take (right - mid) (cells (st6 T2)) = S2"
      using st4(2) st5(2) len
      by (simp_all add: st6_def fileops copied_def st4' st3 C2 overwrite_def st4'_def)
    have room: "mid - left \<le> length (cells (st6 T1))" "right - mid \<le> length (cells (st6 T2))"
      using arg_cong [OF st6(3), of length] arg_cong [OF st6(4), of length] len by simp_all
    have sorted_halves: "sorted S1" "sorted S2" by (simp_all add: S1_def S2_def)
    have "left \<le> length C" using CR less.prems(1) by simp
    then have "pos (st6 FD) \<le> length (cells (st6 FD))" by (simp only: st6(1,2) lenC)
    moreover have "distinct [T1, T2, FD]" by simp
    moreover have "int_bytes (mid - left + (right - mid))" using mid by (intro ib) simp
    ultimately obtain st' where
      st': "merge_files bs st6 T1 (mid - left) T2 (right - mid) FD = Some st'"
      "cells (st' FD) = overwrite (overwrite C left (S1 @ S2)) left (sort (S1 @ S2))"
      using merge_files_ok [of T1 T2 FD bs "mid - left" "right - mid" st6] assms(3) room sorted_halves
      unfolding st6 by blast
    have "mset (S1 @ S2) = mset (slice left right C)"
      using arg_cong [OF slice_append [OF mid(1,2), of C], of mset] by (simp add: S1_def S2_def)
    then have "sort (S1 @ S2) = sort (slice left right C)"
      by (intro properties_for_sort) simp_all
    then have "cells (st' FD) = overwrite C left (sort (slice left right C))"
      unfolding st'(2) using \<open>left \<le> length C\<close> CR len mid(1,2)
      by (subst overwrite_twice) simp_all
    moreover have "merge_sort qs seg bs st FD left right T1 T2 = Some st'"
      using False st1(1) st2(1) st4(1) st5(1) st'(1)
      by (subst merge_sort.simps) (simp add: Let_def flip: mid_def st3_def st4'_def st6_def)
    ultimately show ?thesis unfolding C_def by blast
  qed
qed

text \<open>
  C3: with any \<^verbatim>\<open>qsort\<close> that meets the C standard, the program ends and leaves the integers of the file
  in ascending order, whatever the segment and buffer sizes, provided that the file has fewer than 2^31
  bytes, so that every count fits into an \<^verbatim>\<open>int\<close>, and that the differences of the integers fit too:
  the comparison function subtracts, and is no order without it (\<open>cmp_wraps_around\<close> below).
\<close>

theorem sort_main_sorts:
  assumes "c_qsort qs" "1 \<le> seg" "4 \<le> bs" "no_overflow (cells (st FD))"
    and bytes: "4 * length (cells (st FD)) < 2 ^ 31"
  shows "\<exists>st'. sort_main qs seg bs st = Some st' \<and> cells (st' FD) = sort (cells (st FD))"
proof -
  have "int_bytes (length (cells (st FD)))" and "is_i32 (int (length (cells (st FD))))"
    using bytes by (simp_all add: int_bytes_def is_i32_def)
  then show ?thesis
    using merge_sort_ok [OF assms(1-3), of 0 "length (cells (st FD))" st] assms(4)
    by (auto simp: sort_main_def file_size_def slice_def overwrite_def)
qed

theorem sort_main_sorts_witness:
  "\<exists>st'. sort_main insertion_qsort 1 4 (\<lambda>_. \<lparr>cells = [3, 1, 2], pos = 0\<rparr>) = Some st' \<and>
     cells (st' FD) = sort (cells \<lparr>cells = [3, 1, 2], pos = 0\<rparr>)"
  by (rule sort_main_sorts [where st = "\<lambda>_. \<lparr>cells = [3, 1, 2], pos = 0\<rparr>",
        OF insertion.c_qsort_axioms])
     (simp_all add: no_overflow_def is_i32_def)

lemma f_size_wraps_around:
  "2 ^ 31 \<le> length (cells (st FD)) \<Longrightarrow> sort_main qs seg bs st = None"
  by (simp add: sort_main_def file_size_def is_i32_def Let_def)

text \<open>
  Without that proviso the comparison function is not an order: its subtraction wraps around and
  puts the smallest integer above the largest one, so the precondition of \<^verbatim>\<open>qsort\<close> is violated.
\<close>

lemma cmp_wraps_around:
  "0 < cmp (- 2147483648) 2147483647 \<and> cmp 2147483647 (- 2147483648) < 0 \<and>
   \<not> consistent cmp {- 2147483648, 0, 2147483647}"
  by (simp_all add: cmp_def to_i32_def consistent_def)

end
