(* ===== verification/MergeSort.thy ===== *)
theory MergeSort
  imports Prelude
begin

section \<open>asm-x86_mergesort: merge sort in place\<close>

text \<open>
  \<^verbatim>\<open>inf05-2: asm-x86_mergesort/main.c\<close>, the C routine from which the assembler version is derived.
  The array is a list, an assignment \<^verbatim>\<open>A[k] = x\<close> a list update; the indices are nonnegative, \<^verbatim>\<open>p + r\<close> is
  taken not to overflow.  \<open>merge_loop\<close> is the loop that compares
  the two copies and \<open>drain_loop\<close> the two loops that append what remains of one of them.
\<close>

definition copy_run :: "int list \<Rightarrow> nat \<Rightarrow> nat \<Rightarrow> int list" where
  "copy_run A p n = map (\<lambda>i. A ! (p + i)) [0 ..< n]"

function merge_loop :: "int list \<Rightarrow> int list \<Rightarrow> nat \<Rightarrow> nat \<Rightarrow> nat \<Rightarrow> int list \<Rightarrow> nat \<times> nat \<times> nat \<times> int list" where
  "merge_loop L R i j k A =
     (if i < length L \<and> j < length R
      then if L ! i < R ! j
           then merge_loop L R (i + 1) j (k + 1) (A[k := L ! i])
           else merge_loop L R i (j + 1) (k + 1) (A[k := R ! j])
      else (i, j, k, A))"
  by pat_completeness auto
termination
  by (relation "measure (\<lambda>(L, R, i, j, k, A). (length L - i) + (length R - j))") auto

function drain_loop :: "int list \<Rightarrow> nat \<Rightarrow> nat \<Rightarrow> int list \<Rightarrow> nat \<times> int list" where
  "drain_loop L i k A = (if i < length L then drain_loop L (i + 1) (k + 1) (A[k := L ! i]) else (k, A))"
  by pat_completeness auto
termination
  by (relation "measure (\<lambda>(L, i, k, A). length L - i)") auto

declare merge_loop.simps [simp del] drain_loop.simps [simp del]

definition Merge :: "int list \<Rightarrow> nat \<Rightarrow> nat \<Rightarrow> nat \<Rightarrow> int list" where
  "Merge A p q r =
     (let n1 = q - p + 1; n2 = r - q;
          L = copy_run A p n1; R = copy_run A (q + 1) n2;
          (i, j, k, A) = merge_loop L R 0 0 p A;
          (k, A) = drain_loop L i k A;
          (k, A) = drain_loop R j k A
      in A)"

function MergeSort :: "int list \<Rightarrow> nat \<Rightarrow> nat \<Rightarrow> int list" where
  "MergeSort A p r =
     (if p < r
      then let q = (p + r) div 2 in Merge (MergeSort (MergeSort A p q) (q + 1) r) p q r
      else A)"
  by pat_completeness auto
termination
  by (relation "measure (\<lambda>(A, p, r). r - p)") auto

declare MergeSort.simps [simp del]

subsection \<open>Merging\<close>

text \<open>The reference: merging lists; of two equal elements the right one goes first.\<close>

fun merge_lists :: "int list \<Rightarrow> int list \<Rightarrow> int list" where
  "merge_lists (x # xs) (y # ys) =
     (if x < y then x # merge_lists xs (y # ys) else y # merge_lists (x # xs) ys)"
| "merge_lists xs [] = xs"
| "merge_lists [] ys = ys"

lemma length_merge_lists [simp]: "length (merge_lists xs ys) = length xs + length ys"
  by (induction xs ys rule: merge_lists.induct) auto

lemma mset_merge_lists [simp]: "mset (merge_lists xs ys) = mset xs + mset ys"
  by (induction xs ys rule: merge_lists.induct) auto

lemma set_merge_lists [simp]: "set (merge_lists xs ys) = set xs \<union> set ys"
  by (induction xs ys rule: merge_lists.induct) auto

lemma sorted_merge_lists: "sorted xs \<Longrightarrow> sorted ys \<Longrightarrow> sorted (merge_lists xs ys)"
  by (induction xs ys rule: merge_lists.induct) auto

lemma copy_run_slice: "p + n \<le> length A \<Longrightarrow> copy_run A p n = slice p (p + n) A"
  by (rule nth_equalityI) (auto simp: copy_run_def slice_def)

lemma overwrite_Cons: "k < length A \<Longrightarrow> overwrite A k (x # xs) = overwrite (A[k := x]) (k + 1) xs"
  by (simp add: overwrite_def upd_conv_take_nth_drop take_Suc_conv_app_nth drop_Cons' add.commute)

lemma drain_loop_overwrite:
  "k + (length L - i) \<le> length A \<Longrightarrow>
   drain_loop L i k A = (k + (length L - i), overwrite A k (drop i L))"
proof (induction L i k A rule: drain_loop.induct)
  case (1 L i k A)
  show ?case
  proof (cases "i < length L")
    case True
    then have "drop i L = L ! i # drop (i + 1) L" "k < length A"
      using 1(2) by (auto simp: Cons_nth_drop_Suc)
    then show ?thesis
      using 1 True overwrite_Cons[of k A "L ! i" "drop (i + 1) L"] by (subst drain_loop.simps) simp
  next
    case False
    then show ?thesis by (subst drain_loop.simps) simp
  qed
qed

lemma merge_phases:
  "i \<le> length L \<Longrightarrow> j \<le> length R \<Longrightarrow> k + (length L - i) + (length R - j) \<le> length A \<Longrightarrow>
   (case merge_loop L R i j k A of (i', j', k', A') \<Rightarrow>
     case drain_loop L i' k' A' of (k2, A2) \<Rightarrow> snd (drain_loop R j' k2 A2))
     = overwrite A k (merge_lists (drop i L) (drop j R))"
proof (induction L R i j k A rule: merge_loop.induct)
  case (1 L R i j k A)
  show ?case
  proof (cases "i < length L \<and> j < length R")
    case True
    then have d: "drop i L = L ! i # drop (i + 1) L" "drop j R = R ! j # drop (j + 1) R" "k < length A"
      using 1(5) by (auto simp: Cons_nth_drop_Suc)
    show ?thesis
    proof (cases "L ! i < R ! j")
      case less: True
      then show ?thesis
        using 1(1)[OF True less] 1(3-5) True d overwrite_Cons[OF d(3)] by (subst merge_loop.simps) simp
    next
      case False
      then show ?thesis
        using 1(2)[OF True False] 1(3-5) True d overwrite_Cons[OF d(3)] by (subst merge_loop.simps) simp
    qed
  next
    case False
    then have loop: "merge_loop L R i j k A = (i, j, k, A)" unfolding merge_loop.simps[of L R i j] by presburger
    have "i = length L \<or> j = length R" using False 1(3,4) by auto
    then show ?thesis
    proof
      assume i: "i = length L"
      then have "merge_lists (drop i L) (drop j R) = drop j R" by (cases "drop j R") auto
      then show ?thesis
        using 1(3-5) drain_loop_overwrite[of k L i A] drain_loop_overwrite[of k R j A] i
        by (simp add: loop[unfolded i])
    next
      assume j: "j = length R"
      then show ?thesis
        using 1(3-5) drain_loop_overwrite[of k L i A]
          drain_loop_overwrite[of "k + (length L - i)" R j "overwrite A k (drop i L)"]
        by (simp add: loop[unfolded j] j)
    qed
  qed
qed

lemma Merge_overwrite:
  assumes "p \<le> q" "q < r" "r < length A"
  shows "Merge A p q r = overwrite A p (merge_lists (slice p (q + 1) A) (slice (q + 1) (r + 1) A))"
proof -
  have c: "copy_run A p (q - p + 1) = slice p (q + 1) A" "copy_run A (q + 1) (r - q) = slice (q + 1) (r + 1) A"
    using copy_run_slice[of p "q - p + 1" A] copy_run_slice[of "q + 1" "r - q" A] assms by simp_all
  show ?thesis
    using merge_phases[of 0 "slice p (q + 1) A" 0 "slice (q + 1) (r + 1) A" p A] assms
    unfolding Merge_def Let_def c by (auto split: prod.splits)
qed

text \<open>Sorting the parts and merging them sorts the whole.\<close>

lemma sort_halves: "merge_lists (sort xs) (sort ys) = sort (xs @ ys)"
  by (rule properties_for_sort[symmetric]) (auto intro: sorted_merge_lists)

lemma MergeSort_overwrite:
  "p \<le> r \<Longrightarrow> r < length A \<Longrightarrow> MergeSort A p r = overwrite A p (sort (slice p (r + 1) A))"
proof (induction A p r rule: MergeSort.induct)
  case (1 A p r)
  show ?case
  proof (cases "p < r")
    case True
    define q where "q = (p + r) div 2"
    have q: "p \<le> q" "q < r" using True by (auto simp: q_def)
    let ?X = "sort (slice p (q + 1) A)" and ?Y = "sort (slice (q + 1) (r + 1) A)"
    let ?A1 = "overwrite A p ?X" and ?A2 = "overwrite (overwrite A p ?X) (q + 1) ?Y"
    have lens: "length ?X = q + 1 - p" "length ?Y = r - q" using q 1(4) by simp_all
    have l1: "length ?A1 = length A" using q 1(4) lens by (subst length_overwrite) auto
    have l2: "length ?A2 = length A" using q 1(4) lens l1 by (subst length_overwrite) auto
    have A1: "MergeSort A p q = ?A1" using 1(1)[OF True q_def] q 1(4) by simp
    have "slice (q + 1) (r + 1) ?A1 = slice (q + 1) (r + 1) A"
      using slice_overwrite_after[of p ?X "q + 1" A "r + 1"] q lens 1(4) by simp
    then have A2: "MergeSort ?A1 (q + 1) r = ?A2"
      using 1(2)[OF True q_def] q 1(4) l1 A1 by simp
    have "slice p (q + 1) ?A2 = slice p (q + 1) ?A1"
      using slice_overwrite_before[of "q + 1" "q + 1" ?A1 p ?Y] q l1 1(4) by simp
    also have "\<dots> = ?X" using slice_overwrite_same[of p A ?X] lens q 1(4) by simp
    finally have L: "slice p (q + 1) ?A2 = ?X" .
    have R: "slice (q + 1) (r + 1) ?A2 = ?Y"
      using slice_overwrite_same[of "q + 1" ?A1 ?Y] lens q l1 1(4) by simp
    have whole: "?A2 = overwrite A p (?X @ ?Y)"
      using overwrite_append[of p A ?X ?Y] lens q 1(4) by simp
    have "MergeSort A p r = Merge ?A2 p q r"
      using True A1 A2 by (subst MergeSort.simps) (simp add: Let_def q_def)
    also have "\<dots> = overwrite ?A2 p (merge_lists ?X ?Y)"
      using Merge_overwrite[OF q, of ?A2] L R l2 1(4) by simp
    also have "merge_lists ?X ?Y = sort (slice p (r + 1) A)"
      using slice_append[of p "q + 1" "r + 1" A] q by (simp add: sort_halves)
    also have "overwrite ?A2 p (sort (slice p (r + 1) A)) = overwrite A p (sort (slice p (r + 1) A))"
      unfolding whole using lens q 1(3,4) by (intro overwrite_twice) auto
    finally show ?thesis .
  next
    case False
    then have "slice p (r + 1) A = [A ! p]" using 1(3,4) slice_Cons[of p "r + 1" A] by simp
    then show ?thesis
      using False 1(3,4) by (subst MergeSort.simps) (simp add: overwrite_Cons)
  qed
qed

subsection \<open>Properties\<close>

text \<open>
  \<^verbatim>\<open>MergeSort(A, p, r)\<close> sorts the elements from index \<^verbatim>\<open>p\<close> to \<^verbatim>\<open>r\<close> and leaves all others alone.
\<close>

lemma MergeSort_sorts:
  assumes "p \<le> r" and "r < length A"
  shows "MergeSort A p r = take p A @ sort (slice p (r + 1) A) @ drop (r + 1) A"
  using MergeSort_overwrite[OF assms] assms by (simp add: overwrite_def)

theorem MergeSort_sorts_witness: "MergeSort [9, 3, 1, 3, 2, 0] 1 4 = [9, 1, 2, 3, 3, 0]"
  using MergeSort_sorts[of 1 4 "[9, 3, 1, 3, 2, 0]"] by (simp add: slice_def)

end
