(* ===== verification/PrintList.thy ===== *)
theory PrintList
  imports ReadFilterWrite "HOL-Library.Signed_Division" "HOL-Library.Monad_Syntax"
begin

section \<open>print-list: printing a linked list stored in a file\<close>

text \<open>
  \<^verbatim>\<open>inf08-1_files-io_print-list-posix/main.c\<close> and \<^verbatim>\<open>inf10-1_posix_mmap_print-list-using-mmap/main.c\<close>.
  A file is a list of bytes; an item is a little-endian \<^verbatim>\<open>int\<close> and the position of the next item.
  The two programs differ in \<^verbatim>\<open>getItem\<close>: one reads from the descriptor, the other from the mapping,
  where the bytes between the end of the file and the end of its last page are zero.  A use of bytes
  that were not read, of memory that is not mapped or of an array outside its bounds is the inner
  \<open>None\<close>; the outer \<open>None\<close> is a loop that does not end.  \<open>write_bytes\<close> is the same loop as in
  \<open>ReadFilterWrite\<close>.

  The theorems say that both programs print the decimal representation of all values in order, that the
  buffer is never overrun, and what goes wrong for \<^verbatim>\<open>INT_MIN\<close> and for a list without an end.
\<close>

subsection \<open>Reading items\<close>

record Item =
  item_val :: int
  next_pointer :: u32

fun le_bytes :: "u8 list \<Rightarrow> nat" where
  "le_bytes [] = 0"
| "le_bytes (b # bs) = unat b + 256 * le_bytes bs"

definition item_of_bytes :: "u8 list \<Rightarrow> Item" where
  "item_of_bytes bs = \<lparr>item_val = to_i32 (int (le_bytes (take 4 bs))),
                       next_pointer = of_nat (le_bytes (take 4 (drop 4 bs)))\<rparr>"

definition getItem_posix :: "u8 list \<Rightarrow> u32 \<Rightarrow> Item option" where
  "getItem_posix file pos =
     (let bs = take 8 (drop (unat pos) file) in
      if length bs = 8 then Some (item_of_bytes bs) else None)"

definition getItem_mmap :: "nat \<Rightarrow> u8 list \<Rightarrow> u32 \<Rightarrow> Item option" where
  "getItem_mmap page file pos =
     (let mapped = file @ replicate ((page - length file mod page) mod page) 0 in
      if unat pos + 8 \<le> length mapped then Some (item_of_bytes (take 8 (drop (unat pos) mapped)))
      else None)"

subsection \<open>Printing a number\<close>

definition buffer_size :: nat where
  "buffer_size = 1000"

definition put :: "char list \<Rightarrow> nat \<Rightarrow> char \<Rightarrow> (char list \<times> nat) option" where
  "put buffer pointer c = (if pointer < length buffer then Some (buffer[pointer := c], pointer + 1) else None)"

fun put_all :: "char list \<Rightarrow> nat \<Rightarrow> char list \<Rightarrow> (char list \<times> nat) option" where
  "put_all buffer pointer [] = Some (buffer, pointer)"
| "put_all buffer pointer (c # cs) =
     do { (buffer, pointer) \<leftarrow> put buffer pointer c; put_all buffer pointer cs }"

text \<open>The array \<^verbatim>\<open>digits\<close> up to \<^verbatim>\<open>dig_pointer\<close>; it has 20 elements.\<close>

function digit_loop :: "int \<Rightarrow> char list \<Rightarrow> char list option" where
  "digit_loop v digits =
     (if v = 0 then Some digits
      else if 20 \<le> length digits then None
      else digit_loop (v sdiv 10) (digits @ [char_of (48 + v smod 10)]))"
  by pat_completeness auto
termination
  by (relation "measure (\<lambda>(v, digits). 20 - length digits)") auto

declare digit_loop.simps [simp del]

definition print :: "char list \<Rightarrow> nat \<Rightarrow> int \<Rightarrow> (char list \<times> nat) option" where
  "print buffer pointer v =
     do {
       (buffer, pointer, v) \<leftarrow>
         (if v < 0
          then do { (buffer, pointer) \<leftarrow> put buffer pointer (CHR ''-''); Some (buffer, pointer, to_i32 (- v)) }
          else Some (buffer, pointer, v));
       digits \<leftarrow> digit_loop v (if v = 0 then [CHR ''0''] else []);
       (buffer, pointer) \<leftarrow> put_all buffer pointer (rev digits);
       put buffer pointer (CHR '' '')
     }"

subsection \<open>main\<close>

text \<open>The loop returns the buffer, the buffer pointer and the output.\<close>

partial_function (option) list_loop ::
  "('s \<Rightarrow> char list \<Rightarrow> int \<times> 's) \<Rightarrow> (u32 \<Rightarrow> Item option) \<Rightarrow> u32 \<Rightarrow> char list \<Rightarrow> nat \<Rightarrow> 's \<Rightarrow>
     (char list \<times> nat \<times> 's) option option" where
  "list_loop wr getItem pos buffer buffer_pointer out =
     (case getItem pos of
        None \<Rightarrow> Some None
      | Some item \<Rightarrow>
          (case print buffer buffer_pointer (item_val item) of
             None \<Rightarrow> Some None
           | Some (buffer, buffer_pointer) \<Rightarrow>
               Option.bind
                 (if buffer_size - 30 < buffer_pointer
                  then map_option (\<lambda>(status, out). (0, out)) (write_bytes wr out (take buffer_pointer buffer) 0)
                  else Some (buffer_pointer, out))
                 (\<lambda>(buffer_pointer, out).
                    if next_pointer item \<noteq> 0
                    then list_loop wr getItem (next_pointer item) buffer buffer_pointer out
                    else Some (Some (buffer, buffer_pointer, out)))))"

text \<open>The branch of \<^verbatim>\<open>main\<close> for a file that is not empty: the loop and the last write.\<close>

definition print_items ::
  "('s \<Rightarrow> char list \<Rightarrow> int \<times> 's) \<Rightarrow> (u32 \<Rightarrow> Item option) \<Rightarrow> char list \<Rightarrow> 's \<Rightarrow> (int \<times> 's) option option" where
  "print_items wr getItem buffer out =
     Option.bind (list_loop wr getItem 0 buffer 0 out)
       (\<lambda>r. case r of
          None \<Rightarrow> Some None
        | Some (buffer, buffer_pointer, out) \<Rightarrow>
            if 0 < buffer_pointer
            then map_option (\<lambda>(status, out). Some (0, out)) (write_bytes wr out (take buffer_pointer buffer) 0)
            else Some (Some (0, out)))"

definition list_main ::
  "('s \<Rightarrow> char list \<Rightarrow> int \<times> 's) \<Rightarrow> (u8 list \<Rightarrow> u32 \<Rightarrow> Item option) \<Rightarrow> u8 list option \<Rightarrow> char list \<Rightarrow> 's \<Rightarrow>
     (int \<times> 's) option option" where
  "list_main wr getItem file buffer out =
     (case file of
        None \<Rightarrow> Some (Some (1, out))
      | Some bytes \<Rightarrow>
          if 0 < length bytes then print_items wr (getItem bytes) buffer out else Some (Some (0, out)))"

definition main_posix :: "u8 list option \<Rightarrow> char list \<Rightarrow> char sink \<Rightarrow> (int \<times> char sink) option option" where
  "main_posix = list_main sys_write getItem_posix"

text \<open>The program that maps the file has its own copies of \<^verbatim>\<open>write_bytes\<close> and \<^verbatim>\<open>print\<close>, with the same text.\<close>

definition write_bytes_mmap :: "char sink \<Rightarrow> char list \<Rightarrow> nat \<Rightarrow> (int \<times> char sink) option" where
  "write_bytes_mmap = write_bytes sys_write"

definition print_mmap :: "char list \<Rightarrow> nat \<Rightarrow> int \<Rightarrow> (char list \<times> nat) option" where
  "print_mmap = print"

definition main_mmap :: "nat \<Rightarrow> u8 list option \<Rightarrow> char list \<Rightarrow> char sink \<Rightarrow> (int \<times> char sink) option option" where
  "main_mmap page = list_main sys_write (getItem_mmap page)"

subsection \<open>The decimal representation\<close>

fun dec_digits :: "nat \<Rightarrow> char list" where
  "dec_digits n = (if n < 10 then [digit_char n] else dec_digits (n div 10) @ [digit_char (n mod 10)])"

declare dec_digits.simps [simp del]

definition decimal :: "int \<Rightarrow> char list" where
  "decimal v = (if v < 0 then CHR ''-'' # dec_digits (nat (- v)) else dec_digits (nat v))"

definition int_val :: "char list \<Rightarrow> int" where
  "int_val s = (case s of c # cs \<Rightarrow> (if c = CHR ''-'' then - int (dec_val cs) else int (dec_val s)) | [] \<Rightarrow> 0)"

lemma dec_val_digits: "dec_val (dec_digits n) = n"
proof (induction n rule: dec_digits.induct)
  case (1 n)
  have one: "dec_val [c] = digit_val c" for c using dec_val_simps(2)[of "[]" c] by simp
  show ?case
    using 1 by (subst dec_digits.simps) (simp add: one)
qed

lemma dec_digits_nonempty: "dec_digits n \<noteq> []"
  by (subst dec_digits.simps) simp

lemma dec_digits_are_digits: "\<forall>c\<in>set (dec_digits n). is_digit c"
proof (induction n rule: dec_digits.induct)
  case (1 n)
  then show ?case by (subst dec_digits.simps) auto
qed

lemma int_val_decimal: "int_val (decimal v) = v"
proof -
  obtain c cs where d: "dec_digits (nat v) = c # cs" using dec_digits_nonempty by (cases "dec_digits (nat v)") auto
  then have "is_digit c" using dec_digits_are_digits[of "nat v"] by simp
  then have "c \<noteq> CHR ''-''" by (auto simp: is_digit_def)
  then show ?thesis using d dec_val_digits[of "nat v"] dec_val_digits[of "nat (- v)"]
    by (simp add: int_val_def decimal_def)
qed

lemma length_dec_digits: "n < 10 ^ k \<Longrightarrow> 0 < k \<Longrightarrow> length (dec_digits n) \<le> k"
proof (induction k arbitrary: n)
  case (Suc k)
  show ?case
  proof (cases "n < 10")
    case True
    then show ?thesis by (subst dec_digits.simps) simp
  next
    case False
    then have "0 < k" using Suc.prems by (cases k) auto
    moreover have "n div 10 < 10 ^ k" using Suc.prems(1) by (simp add: less_mult_imp_div_less)
    ultimately show ?thesis using Suc.IH[of "n div 10"] False by (subst dec_digits.simps) simp
  qed
qed simp

lemma length_decimal: "is_i32 v \<Longrightarrow> length (decimal v) \<le> 11"
proof -
  assume "is_i32 v"
  then have "nat v < 10 ^ 10" "nat (- v) < 10 ^ 10" by (auto simp: is_i32_def nat_less_iff)
  then show ?thesis
    using length_dec_digits[of "nat v" 10] length_dec_digits[of "nat (- v)" 10]
    by (simp add: decimal_def le_SucI)
qed

subsection \<open>print writes the decimal representation\<close>

lemma put_all_overwrite:
  "p + length cs \<le> length buf \<Longrightarrow> put_all buf p cs = Some (overwrite buf p cs, p + length cs)"
proof (induction cs arbitrary: buf p)
  case (Cons c cs)
  have "buf[p := c] = overwrite buf p [c]"
    using Cons.prems by (simp add: overwrite_def upd_conv_take_nth_drop)
  then show ?case
    using Cons overwrite_append[of p buf "[c]" cs] by (simp add: put_def)
qed simp

lemma put_overwrite: "p < length buf \<Longrightarrow> put buf p c = Some (overwrite buf p [c], p + 1)"
  using put_all_overwrite[of p "[c]" buf] by (auto simp: put_def split: Option.bind_splits)

lemma digit_char_int: "char_of (48 + int d) = digit_char d"
proof -
  have "48 + int d = int (48 + d)" by simp
  then show ?thesis unfolding digit_char_def char_of_def by (simp only: bit_of_nat_iff_bit)
qed

lemma digit_loop_digits:
  "0 < n \<Longrightarrow> length ds + length (dec_digits n) \<le> 20 \<Longrightarrow>
   digit_loop (int n) ds = Some (ds @ rev (dec_digits n))"
proof (induction n arbitrary: ds rule: less_induct)
  case (less n)
  have step: "int n sdiv 10 = int (n div 10)" "char_of (48 + int n smod 10) = digit_char (n mod 10)"
    using digit_char_int[of "n mod 10"] less.prems(1)
    by (simp_all add: signed_divide_int_def signed_modulo_int_def zdiv_int zmod_int)
  have lt: "length ds < 20" using less.prems dec_digits_nonempty[of n] by (cases "dec_digits n") auto
  show ?case
  proof (cases "n < 10")
    case True
    then show ?thesis
      using less.prems lt step
      by (simp add: digit_loop.simps[of "int n"] digit_loop.simps[of 0] dec_digits.simps[of n])
  next
    case False
    then have "0 < n div 10" "n div 10 < n" by auto
    then show ?thesis
      using less.IH[of "n div 10" "ds @ [digit_char (n mod 10)]"] less.prems lt step False
      by (simp add: digit_loop.simps[of "int n"] dec_digits.simps[of n])
  qed
qed

lemma digit_char_0: "digit_char 0 = CHR ''0''"
  by code_simp

lemma digits_of:
  assumes "0 \<le> v" "v < 2 ^ 31"
  shows "digit_loop v (if v = 0 then [CHR ''0''] else []) = Some (rev (dec_digits (nat v)))"
proof (cases "v = 0")
  case True
  then show ?thesis by (simp add: digit_loop.simps dec_digits.simps digit_char_0)
next
  case False
  have "nat v < 10 ^ 10" using assms by (simp add: nat_less_iff)
  then have "length (dec_digits (nat v)) \<le> 10" using length_dec_digits[of "nat v" 10] by simp
  then show ?thesis using False assms digit_loop_digits[of "nat v" "[]"] by simp
qed

lemma print_decimal:
  assumes v: "is_i32 v" "v \<noteq> - (2 ^ 31)" and room: "p + 12 \<le> length buf"
  shows "print buf p v = Some (overwrite buf p (decimal v @ '' ''), p + length (decimal v) + 1)"
proof -
  have len: "length (decimal v) \<le> 11" using length_decimal[OF v(1)] .
  show ?thesis
  proof (cases "v < 0")
    case True
    then have w: "to_i32 (- v) = - v" "0 \<le> - v" "- v < 2 ^ 31" "- v \<noteq> 0" using v by (auto simp: is_i32_def)
    have dec: "decimal v = CHR ''-'' # dec_digits (nat (- v))" using True by (simp add: decimal_def)
    let ?b = "overwrite buf p [CHR ''-'']"
    have l: "length ?b = length buf" using room by (subst length_overwrite) auto
    have all: "put_all ?b (p + 1) (dec_digits (nat (- v))) = Some (overwrite buf p (decimal v), p + length (decimal v))"
      using put_all_overwrite[of "p + 1" "dec_digits (nat (- v))" ?b] l room len dec
        overwrite_append[of p buf "[CHR ''-'']" "dec_digits (nat (- v))"] by simp
    have "put (overwrite buf p (decimal v)) (p + length (decimal v)) (CHR '' '')
      = Some (overwrite buf p (decimal v @ '' ''), p + length (decimal v) + 1)"
      using put_overwrite[of "p + length (decimal v)" "overwrite buf p (decimal v)" "CHR '' ''"]
        overwrite_append[of p buf "decimal v" "'' ''"] room len by simp
    then show ?thesis
      using True room put_overwrite[of p buf "CHR ''-''"] digits_of[OF w(2,3)] w(4) all
      by (simp add: print_def w(1))
  next
    case False
    then have w: "0 \<le> v" "v < 2 ^ 31" using v by (auto simp: is_i32_def)
    have dec: "decimal v = dec_digits (nat v)" using False by (simp add: decimal_def)
    have "put_all buf p (decimal v) = Some (overwrite buf p (decimal v), p + length (decimal v))"
      using put_all_overwrite[of p "decimal v" buf] room len by simp
    moreover have "put (overwrite buf p (decimal v)) (p + length (decimal v)) (CHR '' '')
      = Some (overwrite buf p (decimal v @ '' ''), p + length (decimal v) + 1)"
      using put_overwrite[of "p + length (decimal v)" "overwrite buf p (decimal v)" "CHR '' ''"]
        overwrite_append[of p buf "decimal v" "'' ''"] room len by simp
    ultimately show ?thesis
      using False digits_of[OF w] dec by (simp add: print_def)
  qed
qed

subsection \<open>Walking the list\<close>

text \<open>\<open>list_at getItem pos vs\<close>: the items from \<open>pos\<close> on hold the values \<open>vs\<close>, the last links to 0.\<close>

fun list_at :: "(u32 \<Rightarrow> Item option) \<Rightarrow> u32 \<Rightarrow> int list \<Rightarrow> bool" where
  "list_at getItem pos [] = False"
| "list_at getItem pos (v # vs) =
     (case getItem pos of
        None \<Rightarrow> False
      | Some item \<Rightarrow> item_val item = v \<and>
          (if next_pointer item = 0 then vs = [] else list_at getItem (next_pointer item) vs))"

lemma write_bytes_status:
  "write_bytes wr fd buf k = Some r \<Longrightarrow>
   wr = sys_write \<longrightarrow> no_failure fd \<longrightarrow> fst r \<noteq> - 1 \<and> no_failure (snd r)"
proof (rule write_bytes.raw_induct[where P = "\<lambda>wr fd buf k r.
    wr = sys_write \<longrightarrow> no_failure fd \<longrightarrow> fst r \<noteq> - 1 \<and> no_failure (snd r)"])
  fix self :: "('a sink \<Rightarrow> 'a list \<Rightarrow> int \<times> 'a sink) \<Rightarrow> 'a sink \<Rightarrow> 'a list \<Rightarrow> nat \<Rightarrow> (int \<times> 'a sink) option"
  fix wr fd buf k r
  assume IH: "\<And>wr fd buf k r. self wr fd buf k = Some r \<Longrightarrow>
      wr = sys_write \<longrightarrow> no_failure fd \<longrightarrow> fst r \<noteq> - 1 \<and> no_failure (snd r)"
    and run_it: "(if k < length buf then
        (case wr fd (drop k buf) of (n, fd') \<Rightarrow>
           if n = - 1 then Some (- 1, fd') else self wr fd' buf (k + nat n))
      else Some (int (length buf), fd)) = Some r"
  show "wr = sys_write \<longrightarrow> no_failure fd \<longrightarrow> fst r \<noteq> - 1 \<and> no_failure (snd r)"
  proof (intro impI)
    assume a: "wr = sys_write" "no_failure fd"
    obtain n fd' where c: "wr fd (drop k buf) = (n, fd')" by fastforce
    have "n \<noteq> - 1" "no_failure fd'" using sys_write_no_failure[of fd "drop k buf" n fd'] a c by auto
    then show "fst r \<noteq> - 1 \<and> no_failure (snd r)"
      using run_it c a IH[of wr fd' buf "k + nat n" r] by (auto split: if_splits)
  qed
qed

lemma write_bytes_all:
  assumes "no_failure out"
  obtains st out' where "write_bytes sys_write out buf 0 = Some (st, out')" "no_failure out'"
    "sunk out' = sunk out @ buf"
  using sink.write_bytes_total[of 0 buf out] write_bytes_status[of sys_write out buf 0] assms
  by fastforce

definition printed :: "int list \<Rightarrow> char list" where
  "printed vs = concat (map (\<lambda>v. decimal v @ '' '') vs)"

text \<open>
  What the program needs of its output: the loop \<^verbatim>\<open>write_bytes\<close> returns and everything has been written.  A
  sink on which no write fails provides it.
\<close>

locale reliable_output =
  fixes wr :: "'s \<Rightarrow> char list \<Rightarrow> int \<times> 's"
    and emitted :: "'s \<Rightarrow> char list"
    and ok :: "'s \<Rightarrow> bool"
  assumes written: "ok s \<Longrightarrow> length buf \<le> buffer_size \<Longrightarrow> \<exists>st s'. write_bytes wr s buf 0 = Some (st, s') \<and> ok s' \<and> emitted s' = emitted s @ buf"
begin

text \<open>Printing one value and emptying the buffer when it is nearly full.\<close>

lemma flush_step:
  assumes b: "length buf = buffer_size" "bp \<le> buffer_size" and out: "ok out"
  obtains bp2 out2 where
    "(if buffer_size - 30 < bp then map_option (\<lambda>(status, out). (0, out)) (write_bytes wr out (take bp buf) 0)
      else Some (bp, out)) = Some (bp2, out2)"
    "ok out2" "bp2 \<le> buffer_size - 30" "emitted out2 @ take bp2 buf = emitted out @ take bp buf"
proof (cases "buffer_size - 30 < bp")
  case True
  obtain st out' where "write_bytes wr out (take bp buf) 0 = Some (st, out')" "ok out'"
    "emitted out' = emitted out @ take bp buf" using written[OF out, of "take bp buf"] b by auto
  then show thesis using that[of 0 out'] True by simp
next
  case False
  then show thesis using that[of bp out] out by simp
qed

lemma list_loop_prints:
  "list_at getItem pos vs \<Longrightarrow> \<forall>v\<in>set vs. is_i32 v \<and> v \<noteq> - (2 ^ 31) \<Longrightarrow> length buf = buffer_size \<Longrightarrow>
   bp \<le> buffer_size - 30 \<Longrightarrow> ok out \<Longrightarrow>
   \<exists>buf' bp' out'. list_loop wr getItem pos buf bp out = Some (Some (buf', bp', out')) \<and> ok out'
     \<and> length buf' = buffer_size \<and> emitted out' @ take bp' buf' = emitted out @ take bp buf @ printed vs"
proof (induction vs arbitrary: pos buf bp out)
  case (Cons v vs)
  obtain item where item: "getItem pos = Some item" "item_val item = v"
    "if next_pointer item = 0 then vs = [] else list_at getItem (next_pointer item) vs"
    using Cons.prems(1) by (auto split: option.splits)
  let ?s = "decimal v @ '' ''"
  let ?b = "overwrite buf bp ?s" and ?p = "bp + length (decimal v) + 1"
  have v: "is_i32 v" "v \<noteq> - (2 ^ 31)" using Cons.prems(2) by auto
  have room: "bp + 12 \<le> length buf" using Cons.prems(3,4) by (simp add: buffer_size_def)
  have pr: "print buf bp v = Some (?b, ?p)" using print_decimal[OF v room] .
  have len: "length (decimal v) \<le> 11" using length_decimal[OF v(1)] .
  have lb: "length ?b = buffer_size" using room len Cons.prems(3) by (subst length_overwrite) auto
  have taken: "take ?p ?b = take bp buf @ ?s" using room by (simp add: overwrite_def)
  have pb: "?p \<le> buffer_size" using room len Cons.prems(3) by simp
  obtain bp2 out2 where fl:
    "(if buffer_size - 30 < ?p then map_option (\<lambda>(status, out). (0, out)) (write_bytes wr out (take ?p ?b) 0)
      else Some (?p, out)) = Some (bp2, out2)"
    "ok out2" "bp2 \<le> buffer_size - 30" "emitted out2 @ take bp2 ?b = emitted out @ take ?p ?b"
    using flush_step[OF lb pb Cons.prems(5)] .
  have unfold: "list_loop wr getItem pos buf bp out =
    (if next_pointer item \<noteq> 0 then list_loop wr getItem (next_pointer item) ?b bp2 out2
     else Some (Some (?b, bp2, out2)))"
    by (subst list_loop.simps) (simp only: item pr option.case prod.case fl(1) Option.bind.bind_lunit)
  show ?case
  proof (cases "next_pointer item = 0")
    case True
    then have "vs = []" using item(3) by simp
    then show ?thesis using unfold True fl lb taken by (simp add: printed_def)
  next
    case False
    then have "list_at getItem (next_pointer item) vs" using item(3) by simp
    from Cons.IH[OF this _ lb fl(3,2)] Cons.prems(2) obtain buf' bp' out' where
      "list_loop wr getItem (next_pointer item) ?b bp2 out2 = Some (Some (buf', bp', out'))" "ok out'"
      "length buf' = buffer_size" "emitted out' @ take bp' buf' = emitted out2 @ take bp2 ?b @ printed vs"
      by auto
    then show ?thesis using unfold False fl(4) taken by (simp add: printed_def)
  qed
qed simp

lemma print_items_prints:
  assumes "list_at getItem 0 vs" "\<forall>v\<in>set vs. is_i32 v \<and> v \<noteq> - (2 ^ 31)" "length buf = buffer_size" "ok out"
  shows "\<exists>out'. print_items wr getItem buf out = Some (Some (0, out')) \<and> emitted out' = emitted out @ printed vs"
proof -
  obtain buf' bp' out' where l: "list_loop wr getItem 0 buf 0 out = Some (Some (buf', bp', out'))"
    "ok out'" "length buf' = buffer_size" "emitted out' @ take bp' buf' = emitted out @ printed vs"
    using list_loop_prints[OF assms(1,2,3) _ assms(4), of 0] by auto
  obtain st out2 where w: "write_bytes wr out' (take bp' buf') 0 = Some (st, out2)"
    "emitted out2 = emitted out' @ take bp' buf'" using written[OF l(2), of "take bp' buf'"] l(3) by auto
  show ?thesis using l w by (cases "bp' = 0") (auto simp: print_items_def)
qed

lemma list_main_prints:
  assumes "list_at (getItem bytes) 0 vs" "bytes \<noteq> []" "\<forall>v\<in>set vs. is_i32 v \<and> v \<noteq> - (2 ^ 31)"
    "length buf = buffer_size" "ok out"
  shows "\<exists>out'. list_main wr getItem (Some bytes) buf out = Some (Some (0, out')) \<and> emitted out' = emitted out @ printed vs"
  using print_items_prints[OF assms(1,3,4,5)] assms(2) by (simp add: list_main_def)

end

interpretation posix: reliable_output sys_write sunk no_failure
  by unfold_locales (metis write_bytes_all)

lemma item_vals: "is_i32 (item_val (item_of_bytes bs))"
  by (simp add: item_of_bytes_def)

lemma list_at_i32:
  "list_at getItem pos vs \<Longrightarrow> (\<And>p it. getItem p = Some it \<Longrightarrow> is_i32 (item_val it)) \<Longrightarrow> \<forall>v\<in>set vs. is_i32 v"
  by (induction vs arbitrary: pos) (fastforce split: option.splits if_splits)+

text \<open>The loop only returns when the list has an end.\<close>

lemma list_loop_ends:
  "list_loop wr getItem pos buf bp out = Some r \<Longrightarrow> r \<noteq> None \<longrightarrow> (\<exists>vs. list_at getItem pos vs)"
proof (rule list_loop.raw_induct[where P = "\<lambda>wr getItem pos buf bp out r. r \<noteq> None \<longrightarrow> (\<exists>vs. list_at getItem pos vs)"])
  fix self wr getItem pos buf bp out r
  assume IH: "\<And>wr getItem pos buf bp out r. self wr getItem pos buf bp out = Some r \<Longrightarrow>
      r \<noteq> None \<longrightarrow> (\<exists>vs. list_at getItem pos vs)"
    and run_it: "(case getItem pos of
        None \<Rightarrow> Some None
      | Some item \<Rightarrow>
          (case print buf bp (item_val item) of
             None \<Rightarrow> Some None
           | Some (buffer, buffer_pointer) \<Rightarrow>
               Option.bind
                 (if buffer_size - 30 < buffer_pointer
                  then map_option (\<lambda>(status, out). (0, out)) (write_bytes wr out (take buffer_pointer buffer) 0)
                  else Some (buffer_pointer, out))
                 (\<lambda>(buffer_pointer, out).
                    if next_pointer item \<noteq> 0
                    then self wr getItem (next_pointer item) buffer buffer_pointer out
                    else Some (Some (buffer, buffer_pointer, out))))) = Some r"
  show "r \<noteq> None \<longrightarrow> (\<exists>vs. list_at getItem pos vs)"
  proof
    assume "r \<noteq> None"
    then obtain item b p where item: "getItem pos = Some item" "print buf bp (item_val item) = Some (b, p)"
      using run_it by (auto split: option.splits)
    show "\<exists>vs. list_at getItem pos vs"
    proof (cases "next_pointer item = 0")
      case True
      then show ?thesis using item(1) by (intro exI[of _ "[item_val item]"]) simp
    next
      case False
      with run_it item obtain p2 o2 where "self wr getItem (next_pointer item) b p2 o2 = Some r"
        by (auto split: Option.bind_splits if_splits)
      with IH \<open>r \<noteq> None\<close> obtain vs where "list_at getItem (next_pointer item) vs" by blast
      then show ?thesis using item(1) False by (intro exI[of _ "item_val item # vs"]) simp
    qed
  qed
qed

subsection \<open>Properties\<close>

lemma getItem_i32: "getItem_posix file p = Some it \<Longrightarrow> is_i32 (item_val it)"
  "getItem_mmap page file p = Some it \<Longrightarrow> is_i32 (item_val it)"
  by (auto simp: getItem_posix_def getItem_mmap_def Let_def item_vals split: if_splits)

text \<open>
  \<^verbatim>\<open>print\<close> appends to a buffer with room for 12 characters the decimal representation of the value
  and a space, changes nothing else in the buffer, and the representation reads back as the value.
  Only the smallest \<^verbatim>\<open>int\<close>, whose negation overflows, comes out as rubbish.
\<close>

lemma print_roundtrip:
  assumes "is_i32 v" and "p + 12 \<le> length buf"
  shows "(v \<noteq> - (2 ^ 31) \<longrightarrow>
      print buf p v = Some (overwrite buf p (decimal v @ '' ''), p + length (decimal v) + 1)
      \<and> int_val (decimal v) = v \<and> length (decimal v) \<le> 11)
    \<and> (p = 0 \<and> length buf = 12 \<and> v = - (2 ^ 31) \<longrightarrow>
        print buf p v = Some (''-./,),(-*,( '', 12))"
proof -
  have "print buf 0 (- (2 ^ 31)) = Some (''-./,),(-*,( '', 12)" if "length buf = 12"
  proof -
    from that obtain a b c d e f g h i j k l where "buf = [a, b, c, d, e, f, g, h, i, j, k, l]"
      by (auto simp: numeral_eq_Suc length_Suc_conv)
    then show ?thesis
      by (simp add: print_def put_def to_i32_def digit_loop.simps signed_divide_int_def
        signed_modulo_int_def char_of_def numeral_eq_Suc)
  qed
  then show ?thesis
    using print_decimal[OF assms(1) _ assms(2)] int_val_decimal length_decimal[OF assms(1)] by simp
qed

text \<open>
  C34: For a file that holds a list from its first byte on, without the value \<^verbatim>\<open>INT_MIN\<close>, both programs
  end with status 0 and have printed the values in the order of the list, each followed by a space,
  however the writes are split; no access is out of bounds.
\<close>

theorem main_prints_list:
  assumes "file \<noteq> []" and "- (2 ^ 31) \<notin> set vs" and "length buf = buffer_size" and "no_failure out"
  shows "(list_at (getItem_posix file) 0 vs \<longrightarrow>
      (\<exists>out'. main_posix (Some file) buf out = Some (Some (0, out')) \<and> sunk out' = sunk out @ printed vs))
    \<and> (list_at (getItem_mmap page file) 0 vs \<longrightarrow>
      (\<exists>out'. main_mmap page (Some file) buf out = Some (Some (0, out')) \<and> sunk out' = sunk out @ printed vs))"
  using posix.list_main_prints[of getItem_posix "file" vs buf out] posix.list_main_prints[of "getItem_mmap page" "file" vs buf out]
    list_at_i32[of "getItem_posix file" 0 vs] list_at_i32[of "getItem_mmap page file" 0 vs] getItem_i32 assms
  unfolding main_posix_def main_mmap_def by metis

text \<open>
  A list that never reaches an item linking to position 0 keeps the program running: when the
  programs end with status 0 on a nonempty file, the file holds a list.
\<close>

lemma main_ends_only_on_lists:
  assumes "file \<noteq> []"
  shows "(main_posix (Some file) buf out = Some (Some r) \<longrightarrow> (\<exists>vs. list_at (getItem_posix file) 0 vs))
    \<and> (main_mmap page (Some file) buf out = Some (Some r) \<longrightarrow> (\<exists>vs. list_at (getItem_mmap page file) 0 vs))"
proof -
  have "\<exists>vs. list_at (getItem file) 0 vs" if "list_main wr getItem (Some file) buf out = Some (Some r)" for wr :: "char sink \<Rightarrow> char list \<Rightarrow> int \<times> char sink" and getItem
    using that assms list_loop_ends[of wr "getItem file" 0 buf 0 out]
    by (auto simp: list_main_def print_items_def split: Option.bind_splits option.splits if_splits)
  then show ?thesis unfolding main_posix_def main_mmap_def by blast
qed

text \<open>A file with the values 5 and -7.\<close>

definition two_items :: "u8 list" where
  "two_items = [5, 0, 0, 0, 8, 0, 0, 0, 249, 255, 255, 255, 0, 0, 0, 0]"

lemma two_items_list: "list_at (getItem_posix two_items) 0 [5, -7]"
  "printed [5, -7] = ''5 -7 ''"
proof -
  show "printed [5, -7] = ''5 -7 ''" by code_simp
  show "list_at (getItem_posix two_items) 0 [5, -7]"
    by (simp add: getItem_posix_def two_items_def item_of_bytes_def to_i32_def)
qed

theorem print_roundtrip_witness:
  "print (replicate 20 NUL) 3 (- 42) = Some (overwrite (replicate 20 NUL) 3 ''-42 '', 7)"
proof -
  have "decimal (- 42) = ''-42''" by code_simp
  then show ?thesis using print_roundtrip[of "- 42" 3 "replicate 20 NUL"] by (simp add: is_i32_def)
qed

theorem main_prints_list_witness:
  "\<exists>out'. main_posix (Some two_items) (replicate buffer_size NUL) \<lparr>sunk = [], wsched = [1, 0, 2]\<rparr> = Some (Some (0, out'))
    \<and> sunk out' = ''5 -7 ''"
  using main_prints_list[of two_items "[5, -7]" "replicate buffer_size NUL" "\<lparr>sunk = [], wsched = [1, 0, 2]\<rparr>"]
    two_items_list by (auto simp: no_failure_def two_items_def)

theorem main_ends_only_on_lists_witness:
  "\<forall>buf out r. main_posix (Some [1, 2]) buf out \<noteq> Some (Some r)"
proof (intro allI notI)
  fix buf out r
  assume "main_posix (Some [1, 2]) buf out = Some (Some r)"
  then obtain vs where "list_at (getItem_posix [1, 2]) 0 vs"
    using main_ends_only_on_lists[of "[1, 2]" buf out r] by auto
  then show False by (cases vs) (auto simp: getItem_posix_def)
qed

end
