(* ===== verification/PrintListWinapi.thy ===== *)
theory PrintListWinapi
  imports PrintList
begin

section \<open>print-list on the Windows API\<close>

text \<open>
  \<^verbatim>\<open>inf08-3_files-io_print-list-winapi/main.c\<close>.  The functions \<^verbatim>\<open>print\<close> and the loop of \<^verbatim>\<open>main\<close> are the same text as in
  the POSIX program and are taken from \<open>PrintList\<close>.  What differs is the system underneath.  \<^verbatim>\<open>WriteFile\<close> is a
  parameter that gives the number it stores in \<^verbatim>\<open>currently_written\<close>; its return value, which tells whether it
  failed, is not looked at, and a failing call stores 0.  The distance to move of \<^verbatim>\<open>SetFilePointer\<close> is a signed
  32-bit number, so a position from \<open>2 ^ 31\<close> on is refused and the item is read from somewhere else, which
  the model makes a fault; and the size it returns is the lower half of a 64-bit number.

  The property says that the program prints what the POSIX program prints, and that a device that fails for
  ever keeps it running.
\<close>

subsection \<open>The program\<close>

text \<open>The body of the loop in \<^verbatim>\<open>write_bytes\<close>, as a call that the shared loop makes.\<close>

definition win_call :: "('s \<Rightarrow> char list \<Rightarrow> nat \<times> 's) \<Rightarrow> 's \<Rightarrow> char list \<Rightarrow> int \<times> 's" where
  "win_call WriteFile fd buffer =
     (case WriteFile fd buffer of (currently_written, fd) \<Rightarrow>
        (if (of_nat currently_written :: u32) = - 1 then - 1 else int currently_written, fd))"

definition write_bytes_winapi :: "('s \<Rightarrow> char list \<Rightarrow> nat \<times> 's) \<Rightarrow> 's \<Rightarrow> char list \<Rightarrow> (int \<times> 's) option" where
  "write_bytes_winapi WriteFile fd buffer = write_bytes (win_call WriteFile) fd buffer 0"

definition getItem_winapi :: "u8 list \<Rightarrow> u32 \<Rightarrow> Item option" where
  "getItem_winapi file pos =
     (if to_i32 (int (unat pos)) < 0 then None
      else let bs = take 8 (drop (unat pos) file) in
        if length bs = 8 then Some (item_of_bytes bs) else None)"

text \<open>\<^verbatim>\<open>print\<close> is a copy of that of print-list-posix.\<close>

definition print_winapi :: "char list \<Rightarrow> nat \<Rightarrow> int \<Rightarrow> (char list \<times> nat) option" where
  "print_winapi = print"

definition main_winapi ::
  "('s \<Rightarrow> char list \<Rightarrow> nat \<times> 's) \<Rightarrow> u8 list option \<Rightarrow> char list \<Rightarrow> 's \<Rightarrow> (int \<times> 's) option option" where
  "main_winapi WriteFile file buffer out =
     (case file of
        None \<Rightarrow> Some (Some (1, out))
      | Some bytes \<Rightarrow>
          let off = (of_nat (length bytes) :: u32) in
          if 0 < off then print_items (win_call WriteFile) (getItem_winapi bytes) buffer out
          else Some (Some (0, out)))"

text \<open>Two devices: a sink on which a failing call stores 0, and one on which every call fails.\<close>

definition WriteFile_sink :: "char sink \<Rightarrow> char list \<Rightarrow> nat \<times> char sink" where
  "WriteFile_sink s buf = (case sys_write s buf of (n, s') \<Rightarrow> (nat n, s'))"

definition WriteFile_dead :: "'s \<Rightarrow> char list \<Rightarrow> nat \<times> 's" where
  "WriteFile_dead s buf = (0, s)"

subsection \<open>The sink prints everything, the dead device nothing\<close>

lemma win_call_sink:
  assumes "length b \<le> buffer_size"
  obtains n s' where "win_call WriteFile_sink s b = (int n, s')" "n \<le> length b"
    "sunk s' = sunk s @ take n b" "length (wsched s') + (length b - n) < length (wsched s) + length b \<or> b = []"
proof -
  obtain m s' where c: "sys_write s b = (m, s')" by fastforce
  have m: "m = - 1 \<and> sunk s' = sunk s \<or> 0 \<le> m \<and> m \<le> int (length b) \<and> sunk s' = sunk s @ take (nat m) b"
    using sink.wr_range[OF c] sink.wr_fail[of s b s'] sink.wr_out[OF c] c by auto
  then have le: "nat m \<le> length b" "sunk s' = sunk s @ take (nat m) b" by auto
  then have "nat m < 2 ^ 32 - 1" using assms by (simp add: buffer_size_def)
  then have "(of_nat (nat m) :: u32) \<noteq> - 1"
    using unat_of_nat_small[of "nat m", where 'a = 32] unat_minus_1[where 'a = 32] by fastforce
  then have "win_call WriteFile_sink s b = (int (nat m), s')"
    by (simp add: win_call_def WriteFile_sink_def c)
  moreover have "length (wsched s') + (length b - nat m) < length (wsched s) + length b \<or> b = []"
    using c by (cases b) (auto simp: sys_write_def Let_def split: list.splits if_splits)
  ultimately show thesis using that[of "nat m" s'] le by blast
qed

lemma write_bytes_sink:
  "length buf \<le> buffer_size \<Longrightarrow> k \<le> length buf \<Longrightarrow>
   \<exists>st s'. write_bytes (win_call WriteFile_sink) s buf k = Some (st, s') \<and> sunk s' = sunk s @ drop k buf"
proof (induction "length (wsched s) + (length buf - k)" arbitrary: s k rule: less_induct)
  case less
  show ?case
  proof (cases "k < length buf")
    case True
    obtain n s1 where c: "win_call WriteFile_sink s (drop k buf) = (int n, s1)" "n \<le> length buf - k"
      "sunk s1 = sunk s @ take n (drop k buf)"
      "length (wsched s1) + (length buf - (k + n)) < length (wsched s) + (length buf - k)"
      using less.prems(1) True by (rule_tac win_call_sink[of "drop k buf" s]) auto
    moreover have "k + n \<le> length buf" using c(2) True by simp
    ultimately obtain st s' where w: "write_bytes (win_call WriteFile_sink) s1 buf (k + n) = Some (st, s')"
      "sunk s' = sunk s1 @ drop (k + n) buf"
      using less.hyps[of s1 "k + n"] less.prems(1) by blast
    have "take n (drop k buf) @ drop (k + n) buf = drop k buf"
      by (metis append_take_drop_id drop_drop add.commute)
    then show ?thesis using w c True by (subst write_bytes.simps) auto
  next
    case False
    then show ?thesis using less.prems by (subst write_bytes.simps) auto
  qed
qed

interpretation winapi: reliable_output "win_call WriteFile_sink" sunk "\<lambda>_. True"
  using write_bytes_sink[of _ 0] by unfold_locales fastforce

lemma write_bytes_dead:
  assumes "k < length buf"
  shows "write_bytes (win_call WriteFile_dead) s buf k = None"
proof -
  have "wr = win_call WriteFile_dead \<longrightarrow> \<not> k < length buf"
    if "write_bytes wr s buf k = Some r" for wr :: "'s \<Rightarrow> char list \<Rightarrow> int \<times> 's" and s :: 's and buf and k r
  proof (rule write_bytes.raw_induct[where P = "\<lambda>wr s buf k r. wr = win_call WriteFile_dead \<longrightarrow> \<not> k < length buf", OF _ that])
  qed (auto simp: win_call_def WriteFile_dead_def split: if_splits)
  then show ?thesis using assms by (metis not_None_eq)
qed

text \<open>On a file below 2 GB the positions of a list are all reached by the signed distance.\<close>

lemma getItem_winapi_posix:
  assumes "length file \<le> 2 ^ 31" and "getItem_posix file pos = Some item"
  shows "getItem_winapi file pos = Some item"
proof -
  have "unat pos + 8 \<le> length file" using assms(2) by (auto simp: getItem_posix_def Let_def split: if_splits)
  then have "unat pos < 2 ^ 31" using assms(1) by simp
  then have "int (unat pos) < 2 ^ 31" by (metis of_nat_less_iff of_nat_numeral of_nat_power)
  then have "is_i32 (int (unat pos))" unfolding is_i32_def using of_nat_0_le_iff[of "unat pos"] by (intro conjI) linarith
  then have "\<not> to_i32 (int (unat pos)) < 0" by simp
  then show ?thesis using assms(2) by (simp add: getItem_winapi_def getItem_posix_def)
qed

lemma list_at_winapi:
  "list_at (getItem_posix file) pos vs \<Longrightarrow> length file \<le> 2 ^ 31 \<Longrightarrow> list_at (getItem_winapi file) pos vs"
  by (induction vs arbitrary: pos) (auto simp: getItem_winapi_posix split: option.splits if_splits)

lemma dead_loop:
  assumes "list_at getItem pos vs" "\<forall>v\<in>set vs. is_i32 v \<and> v \<noteq> - (2 ^ 31)" "length buf = buffer_size" "bp \<le> buffer_size - 30"
  shows "list_loop (win_call WriteFile_dead) getItem pos buf bp s = None
    \<or> (\<exists>buf' bp'. list_loop (win_call WriteFile_dead) getItem pos buf bp s = Some (Some (buf', bp', s))
        \<and> 0 < bp' \<and> bp' \<le> length buf')"
  using assms
proof (induction vs arbitrary: pos buf bp)
  case (Cons v vs)
  obtain item where item: "getItem pos = Some item" "item_val item = v"
    "if next_pointer item = 0 then vs = [] else list_at getItem (next_pointer item) vs"
    using Cons.prems(1) by (auto split: option.splits)
  let ?b = "overwrite buf bp (decimal v @ '' '')" and ?p = "bp + length (decimal v) + 1"
  have v: "is_i32 v" "v \<noteq> - (2 ^ 31)" using Cons.prems(2) by auto
  have room: "bp + 12 \<le> length buf" using Cons.prems(3,4) by (simp add: buffer_size_def)
  have pr: "print buf bp v = Some (?b, ?p)" using print_decimal[OF v room] .
  have lb: "length ?b = buffer_size" using room length_decimal[OF v(1)] Cons.prems(3) by (subst length_overwrite) auto
  have p: "0 < ?p" "?p \<le> length ?b" using room length_decimal[OF v(1)] lb Cons.prems(3) by auto
  show ?case
  proof (cases "buffer_size - 30 < ?p")
    case True
    have "write_bytes (win_call WriteFile_dead) s (take ?p ?b) 0 = None"
      using p by (intro write_bytes_dead) (simp add: min_def)
    then show ?thesis using True by (subst list_loop.simps) (simp add: item pr)
  next
    case False
    then have eq: "list_loop (win_call WriteFile_dead) getItem pos buf bp s =
      (if next_pointer item \<noteq> 0 then list_loop (win_call WriteFile_dead) getItem (next_pointer item) ?b ?p s
       else Some (Some (?b, ?p, s)))"
      by (subst list_loop.simps) (simp add: item pr)
    show ?thesis
      using eq p item(3) Cons.IH[of "next_pointer item" ?b ?p] Cons.prems(2) lb False
      by (cases "next_pointer item = 0") auto
  qed
qed simp

subsection \<open>Properties\<close>

text \<open>
  On a file below 2 GB that holds a list without the value \<^verbatim>\<open>INT_MIN\<close>, the Windows program prints exactly what
  the POSIX program prints when no write fails, even when some calls of \<^verbatim>\<open>WriteFile\<close> fail, because it tries
  again; when all of them fail, it runs for ever.
\<close>

lemma main_winapi_prints_list:
  assumes "list_at (getItem_posix file) 0 vs" and "- (2 ^ 31) \<notin> set vs" and "length file \<le> 2 ^ 31"
    and "length buf = buffer_size"
  shows "(\<exists>out'. main_winapi WriteFile_sink (Some file) buf out = Some (Some (0, out')) \<and> sunk out' = sunk out @ printed vs)
    \<and> (\<exists>fd. main_posix (Some file) buf \<lparr>sunk = sunk out, wsched = []\<rparr> = Some (Some (0, fd)) \<and> sunk fd = sunk out @ printed vs)
    \<and> main_winapi WriteFile_dead (Some file) buf s = None"
proof (intro conjI)
  have "file \<noteq> []" using assms(1) by (cases vs) (auto simp: getItem_posix_def)
  have vs: "\<forall>v\<in>set vs. is_i32 v \<and> v \<noteq> - (2 ^ 31)"
    using list_at_i32[OF assms(1)] getItem_i32(1) assms(2) by blast
  have "(of_nat (length file) :: u32) \<noteq> 0"
    using \<open>file \<noteq> []\<close> assms(3) unat_of_nat_small[of "length file", where 'a = 32] by fastforce
  then have off: "0 < (of_nat (length file) :: u32)" by (simp add: word_gt_0)
  have la: "list_at (getItem_winapi file) 0 vs" using list_at_winapi assms(1,3) .
  show "\<exists>out'. main_winapi WriteFile_sink (Some file) buf out = Some (Some (0, out')) \<and> sunk out' = sunk out @ printed vs"
    using winapi.print_items_prints[OF la vs assms(4)] off by (simp add: main_winapi_def)
  show "main_winapi WriteFile_dead (Some file) buf s = None"
    using dead_loop[OF la vs assms(4), of 0 s] off
    by (auto simp: main_winapi_def print_items_def intro!: write_bytes_dead)
  show "\<exists>fd. main_posix (Some file) buf \<lparr>sunk = sunk out, wsched = []\<rparr> = Some (Some (0, fd)) \<and> sunk fd = sunk out @ printed vs"
    using posix.list_main_prints[of getItem_posix "file" vs buf "\<lparr>sunk = sunk out, wsched = []\<rparr>"] \<open>file \<noteq> []\<close> vs assms
    by (simp add: main_posix_def no_failure_def)
qed

theorem main_winapi_prints_list_witness:
  "\<exists>out'. main_winapi WriteFile_sink (Some two_items) (replicate buffer_size NUL) \<lparr>sunk = [], wsched = [1, - 1, 2]\<rparr>
      = Some (Some (0, out')) \<and> sunk out' = ''5 -7 ''"
proof -
  have "length two_items \<le> 2 ^ 31" "- (2 ^ 31) \<notin> set [5, - 7 :: int]" by (simp_all add: two_items_def)
  from main_winapi_prints_list[OF two_items_list(1) this(2,1) length_replicate, of NUL "\<lparr>sunk = [], wsched = [1, - 1, 2]\<rparr>" "()"]
  show ?thesis by (auto simp: two_items_list(2) simp del: list_at.simps)
qed

end
