(* ===== verification/SwapAllocator.thy ===== *)
theory SwapAllocator
  imports Prelude
begin

section \<open>swap-file-mem-allocator: malloc and free over a mapped file\<close>

text \<open>
  \<^verbatim>\<open>inf10-3-posix_mmap_swap-file-mem-allocator/main.c\<close> manages the cells of a mapped file.  A block
  starts with a header cell: a positive header is the length of a block in use, a negative one the
  negated length of a free block, both counting the header.  The state is the list of 32-bit cells,
  its length is the global \<^verbatim>\<open>f_size\<close>, and a pointer is the index of a cell.  An access outside the
  cells is the fault \<open>OutOfBounds\<close>, a call of \<^verbatim>\<open>exit(1)\<close> the fault \<open>ExitFailure\<close>.

  The specification sees the heap as the list of its headers in address order; \<open>used\<close> is the set of
  blocks in use.  The theorems say that \<^verbatim>\<open>my_malloc\<close> and \<^verbatim>\<open>my_free\<close> keep the heap well formed and
  change the set of used blocks as they should.
\<close>

datatype fault = ExitFailure | OutOfBounds

subsection \<open>The operations\<close>

definition align_bytes :: "nat \<Rightarrow> int" where
  "align_bytes bytes_count =
     (if bytes_count = 0 then 0 else to_i32 (int ((bytes_count - 1) div 4 + 1)))"

text \<open>
  \<open>bytes\<close> is the size of the file and \<open>page\<close> the page size.  The source maps \<^verbatim>\<open>f_size\<close> bytes, rounded
  up to whole pages by the system, and then clears \<open>4 * f_size\<close> bytes.
\<close>

definition myalloc_initialize :: "nat \<Rightarrow> nat \<Rightarrow> fault + int list" where
  "myalloc_initialize page bytes =
     (let f_size = bytes div 4 in
      if f_size = 0 then Inl ExitFailure
      else if ((f_size - 1) div page + 1) * page < 4 * f_size then Inl OutOfBounds
      else Inr ((replicate f_size 0)[0 := to_i32 (- int f_size)]))"

function find_gap_loop :: "int list \<Rightarrow> int \<Rightarrow> nat \<Rightarrow> int \<Rightarrow> fault + (int \<times> int) option" where
  "find_gap_loop m need i max_gap =
     (if i < length m then
        (let mem_shift = m ! i in
         if mem_shift > 0 then find_gap_loop m need (i + nat mem_shift) 0
         else if mem_shift < 0 then
           (let mem_shift = - mem_shift in
            if mem_shift + max_gap \<ge> need then Inr (Some (int i - max_gap, mem_shift + max_gap))
            else find_gap_loop m need (i + nat mem_shift) (max_gap + mem_shift))
         else Inl ExitFailure)
      else Inr None)"
  by pat_completeness auto
termination
  by (relation "measure (\<lambda>(m, need, i, max_gap). length m - i)") auto

declare find_gap_loop.simps [simp del]

text \<open>\<open>None\<close> is the result \<open>-1\<close>; the second component is what is stored in \<^verbatim>\<open>*gap_size\<close>.\<close>

definition find_first_empty_gap :: "int list \<Rightarrow> int \<Rightarrow> int \<Rightarrow> fault + (int \<times> int) option" where
  "find_first_empty_gap m need gap_size =
     (if need = 0 then Inr (Some (0, gap_size)) else find_gap_loop m need 0 0)"

text \<open>Storing a cell.\<close>

definition store :: "int list \<Rightarrow> int \<Rightarrow> int \<Rightarrow> fault + int list" where
  "store m i v = (if 0 \<le> i \<and> i < int (length m) then Inr (m[nat i := to_i32 v]) else Inl OutOfBounds)"

definition my_malloc :: "int list \<Rightarrow> nat \<Rightarrow> fault + (int list \<times> int option)" where
  "my_malloc m bytes =
     (if bytes = 0 then Inr (m, None)
      else
        (let need = to_size (to_size (align_bytes bytes) + 1) in
         case find_first_empty_gap m need 0 of
           Inl e \<Rightarrow> Inl e
         | Inr None \<Rightarrow> Inr (m, None)
         | Inr (Some (gap_idx, gap_size)) \<Rightarrow>
             (case (if need < gap_size then store m (gap_idx + need) (- (gap_size - need)) else Inr m) of
                Inl e \<Rightarrow> Inl e
              | Inr m1 \<Rightarrow>
                  (case store m1 gap_idx need of
                     Inl e \<Rightarrow> Inl e
                   | Inr m2 \<Rightarrow> Inr (m2, Some (gap_idx + 1))))))"

function coalesce :: "int list \<Rightarrow> nat \<Rightarrow> nat \<Rightarrow> nat" where
  "coalesce m a empty_space =
     (if a + empty_space < length m \<and> m ! (a + empty_space) < 0
      then coalesce m a (empty_space + nat (- (m ! (a + empty_space))))
      else empty_space)"
  by pat_completeness auto
termination
  by (relation "measure (\<lambda>(m, a, e). length m - (a + e))") auto

declare coalesce.simps [simp del]

definition my_free :: "int list \<Rightarrow> int option \<Rightarrow> fault + int list" where
  "my_free m ptr =
     (case ptr of
        None \<Rightarrow> Inl ExitFailure
      | Some p \<Rightarrow>
          (if p \<ge> int (length m) \<or> p < 0 then Inl ExitFailure
           else let aligned = p - 1 in
             if aligned < 0 then Inl OutOfBounds
             else if m ! nat aligned \<le> 0 then Inr m
             else store m aligned (- int (coalesce m (nat aligned) (nat (m ! nat aligned))))))"

subsection \<open>The heap as a list of headers\<close>

text \<open>\<open>headers m i\<close>: the headers met when walking from cell \<open>i\<close> to the end, if the walk ends there.\<close>

function headers :: "int list \<Rightarrow> nat \<Rightarrow> int list option" where
  "headers m i =
     (if i = length m then Some []
      else if i < length m \<and> m ! i \<noteq> 0
        then map_option (\<lambda>hs. m ! i # hs) (headers m (i + nat \<bar>m ! i\<bar>))
      else None)"
  by pat_completeness auto
termination
  by (relation "measure (\<lambda>(m, i). length m - i)") auto

declare headers.simps [simp del]

text \<open>The blocks in use, as pairs of the header's index and the length, from a list of headers.\<close>

fun used_from :: "nat \<Rightarrow> int list \<Rightarrow> (nat \<times> nat) set" where
  "used_from i [] = {}"
| "used_from i (h # hs) =
     (if h > 0 then insert (i, nat h) (used_from (i + nat \<bar>h\<bar>) hs) else used_from (i + nat \<bar>h\<bar>) hs)"

definition used :: "int list \<Rightarrow> (nat \<times> nat) set" where
  "used m = (case headers m 0 of None \<Rightarrow> {} | Some hs \<Rightarrow> used_from 0 hs)"

text \<open>
  The invariant: the walk from the first cell ends exactly at the end, every used block has a header
  and at least one cell for data, and the number of cells fits into an \<^verbatim>\<open>int\<close>.
\<close>

definition heap_ok :: "int list \<Rightarrow> bool" where
  "heap_ok m \<longleftrightarrow> length m < 2 ^ 31 \<and>
     (case headers m 0 of None \<Rightarrow> False | Some hs \<Rightarrow> list_all (\<lambda>h. h \<noteq> 1) hs)"

fun sizes :: "int list \<Rightarrow> nat" where
  "sizes [] = 0"
| "sizes (h # hs) = nat \<bar>h\<bar> + sizes hs"

text \<open>\<open>lays m i hs\<close>: the cells of \<open>m\<close> from \<open>i\<close> on hold the blocks with the headers \<open>hs\<close>.\<close>

fun lays :: "int list \<Rightarrow> nat \<Rightarrow> int list \<Rightarrow> bool" where
  "lays m i [] = (i \<le> length m)"
| "lays m i (h # hs) = (h \<noteq> 0 \<and> i < length m \<and> m ! i = h \<and> lays m (i + nat \<bar>h\<bar>) hs)"

subsection \<open>The layout of a heap\<close>

lemma headers_lays: "headers m i = Some hs \<longleftrightarrow> lays m i hs \<and> i + sizes hs = length m"
proof (induction hs arbitrary: i)
  case Nil
  show ?case by (simp add: headers.simps[of m i])
next
  case (Cons h hs)
  show ?case
    by (simp add: headers.simps[of m i] Cons.IH add.assoc) (metis less_not_refl)
qed

lemma headers_at: "headers m 0 = Some hs \<longleftrightarrow> lays m 0 hs \<and> sizes hs = length m"
  using headers_lays[of m 0 hs] by simp

lemma sizes_append [simp]: "sizes (xs @ ys) = sizes xs + sizes ys"
  by (induction xs) auto

lemma lays_append: "lays m i (xs @ ys) \<longleftrightarrow> lays m i xs \<and> lays m (i + sizes xs) ys"
proof (induction xs arbitrary: i)
  case Nil
  have "lays m i ys \<Longrightarrow> i \<le> length m" by (cases ys) auto
  then show ?case by auto
next
  case (Cons h xs)
  then show ?case by (simp add: add.assoc conj_ac)
qed

lemma lays_nonzero: "lays m i hs \<Longrightarrow> 0 \<notin> set hs"
  by (induction hs arbitrary: i) auto

lemma lays_le: "lays m i hs \<Longrightarrow> i + sizes hs \<le> length m"
  by (induction hs arbitrary: i) (simp_all add: add.assoc[symmetric])

text \<open>The cells that hold headers; a heap keeps its layout when other cells change.\<close>

fun header_cells :: "nat \<Rightarrow> int list \<Rightarrow> nat set" where
  "header_cells i [] = {}"
| "header_cells i (h # hs) = insert i (header_cells (i + nat \<bar>h\<bar>) hs)"

lemma lays_update: "j \<notin> header_cells i hs \<Longrightarrow> lays (m[j := v]) i hs = lays m i hs"
  by (induction hs arbitrary: i) auto

lemma header_cells_bounds:
  "p \<in> header_cells i hs \<Longrightarrow> 0 \<notin> set hs \<Longrightarrow> i \<le> p \<and> p < i + sizes hs"
  by (induction hs arbitrary: i) force+

lemma lays_update_before: "lays m i hs \<Longrightarrow> j < i \<Longrightarrow> lays (m[j := v]) i hs"
  using header_cells_bounds[of j i hs] lays_nonzero[of m i hs] by (subst lays_update) auto

lemma lays_update_after: "lays m i hs \<Longrightarrow> i + sizes hs \<le> j \<Longrightarrow> lays (m[j := v]) i hs"
  using header_cells_bounds[of j i hs] lays_nonzero[of m i hs] by (subst lays_update) auto

lemma used_from_append: "used_from i (xs @ ys) = used_from i xs \<union> used_from (i + sizes xs) ys"
  by (induction xs arbitrary: i) (auto simp: add.assoc)

lemma used_from_free: "\<forall>h\<in>set hs. h \<le> 0 \<Longrightarrow> used_from i hs = {}"
  by (induction hs arbitrary: i) auto

lemma used_from_bounds: "(b, l) \<in> used_from i hs \<Longrightarrow> i \<le> b \<and> b + l \<le> i + sizes hs \<and> 0 < l"
  by (induction hs arbitrary: i) (force split: if_splits)+

lemma used_from_split:
  assumes "(b, l) \<in> used_from i hs"
  obtains pre post where "hs = pre @ int l # post" "b = i + sizes pre" "0 < l"
proof -
  have "\<exists>pre post. hs = pre @ int l # post \<and> b = i + sizes pre \<and> 0 < l"
    using assms
  proof (induction hs arbitrary: i)
    case (Cons h hs)
    show ?case
    proof (cases "h > 0 \<and> (b, l) = (i, nat h)")
      case True
      then show ?thesis by (intro exI[of _ "[]"] exI[of _ hs]) auto
    next
      case False
      then have "(b, l) \<in> used_from (i + nat \<bar>h\<bar>) hs"
        using Cons.prems by (auto split: if_splits)
      from Cons.IH[OF this] obtain pre post
        where "hs = pre @ int l # post" "b = i + nat \<bar>h\<bar> + sizes pre" "0 < l" by blast
      then show ?thesis by (intro exI[of _ "h # pre"] exI[of _ post]) auto
    qed
  qed simp
  then show thesis using that by blast
qed

definition cells :: "nat \<times> nat \<Rightarrow> nat set" where
  "cells b = {fst b ..< fst b + snd b}"

lemma used_from_disjoint:
  "x \<in> used_from i hs \<Longrightarrow> y \<in> used_from i hs \<Longrightarrow> x \<noteq> y \<Longrightarrow> cells x \<inter> cells y = {}"
proof (induction hs arbitrary: i)
  case (Cons h hs)
  have out: "cells z \<inter> cells (i, nat h) = {}" if "z \<in> used_from (i + nat \<bar>h\<bar>) hs" "h > 0" for z
    using that used_from_bounds[of "fst z" "snd z" "i + nat \<bar>h\<bar>" hs] by (auto simp: cells_def)
  show ?case
    using Cons out[of x] out[of y] by (auto split: if_splits)
qed simp

text \<open>The three facts a heap with known headers gives.\<close>

lemma heap_okE:
  assumes "heap_ok m"
  obtains hs where "lays m 0 hs" "sizes hs = length m" "used m = used_from 0 hs"
    "\<forall>h\<in>set hs. h \<noteq> 1" "length m < 2 ^ 31"
  using assms by (auto simp: heap_ok_def used_def headers_at list_all_iff split: option.splits)

lemma heap_okI:
  assumes "lays m 0 hs" "sizes hs = length m" "\<forall>h\<in>set hs. h \<noteq> 1" "length m < 2 ^ 31"
  shows "heap_ok m" "used m = used_from 0 hs"
proof -
  have "headers m 0 = Some hs" using assms by (simp add: headers_at)
  then show "heap_ok m" "used m = used_from 0 hs"
    using assms by (auto simp: heap_ok_def used_def list_all_iff)
qed

lemma used_disjoint: "x \<in> used m \<Longrightarrow> y \<in> used m \<Longrightarrow> x \<noteq> y \<Longrightarrow> cells x \<inter> cells y = {}"
  by (auto simp: used_def split: option.splits dest: used_from_disjoint)

subsection \<open>First fit\<close>

text \<open>The search of \<^verbatim>\<open>find_first_empty_gap\<close> over headers.\<close>

fun first_gap :: "int \<Rightarrow> nat \<Rightarrow> nat \<Rightarrow> int list \<Rightarrow> (nat \<times> nat) option" where
  "first_gap need i g [] = None"
| "first_gap need i g (h # hs) =
     (if h > 0 then first_gap need (i + nat h) 0 hs
      else if need \<le> int (nat (- h) + g) then Some (i - g, nat (- h) + g)
      else first_gap need (i + nat (- h)) (g + nat (- h)) hs)"

lemma find_gap_loop_first_gap:
  "lays m i hs \<Longrightarrow> i + sizes hs = length m \<Longrightarrow> g \<le> i \<Longrightarrow>
   find_gap_loop m need i (int g) = Inr (map_option (\<lambda>(s, k). (int s, int k)) (first_gap need i g hs))"
proof (induction hs arbitrary: i g)
  case Nil
  then show ?case by (subst find_gap_loop.simps) simp
next
  case (Cons h hs)
  have step: "m ! i = h" "h \<noteq> 0" "i < length m" "lays m (i + nat \<bar>h\<bar>) hs"
    "i + nat \<bar>h\<bar> + sizes hs = length m"
    using Cons.prems by auto
  show ?case
  proof (cases "h > 0")
    case True
    then show ?thesis
      using step Cons.IH[of "i + nat h" 0] by (simp add: find_gap_loop.simps[of m need i])
  next
    case False
    then have "\<bar>h\<bar> = - h" "int g + - h = int (g + nat (- h))" "h < 0" using step by auto
    then show ?thesis
      using step Cons.IH[of "i + nat (- h)" "g + nat (- h)"] Cons.prems(3)
      by (simp add: find_gap_loop.simps[of m need i] Let_def of_nat_diff ac_simps)
  qed
qed

lemma first_gap_Some:
  "first_gap need (i + sizes fs) (sizes fs) hs = Some (s, k) \<Longrightarrow> \<forall>f\<in>set fs. f < 0 \<Longrightarrow>
   0 \<notin> set hs \<Longrightarrow>
   \<exists>pre run post. fs @ hs = pre @ run @ post \<and> run \<noteq> [] \<and> (\<forall>f\<in>set run. f < 0)
     \<and> s = i + sizes pre \<and> k = sizes run \<and> need \<le> int k"
proof (induction hs arbitrary: i fs)
  case (Cons h hs)
  show ?case
  proof (cases "h > 0")
    case True
    then have "first_gap need (i + sizes fs + nat h + sizes []) (sizes []) hs = Some (s, k)"
      using Cons.prems by simp
    from Cons.IH[OF this] Cons.prems(3) obtain pre run post where
      "hs = pre @ run @ post" "run \<noteq> []" "\<forall>f\<in>set run. f < 0"
      "s = i + sizes fs + nat h + sizes pre" "k = sizes run" "need \<le> int k" by auto
    then show ?thesis
      using True by (intro exI[of _ "fs @ h # pre"] exI[of _ run] exI[of _ post]) auto
  next
    case False
    then have neg: "h < 0" "nat \<bar>h\<bar> = nat (- h)" using Cons.prems(3) by auto
    show ?thesis
    proof (cases "need \<le> int (nat (- h) + sizes fs)")
      case True
      then show ?thesis
        using neg Cons.prems
        by (intro exI[of _ "[]"] exI[of _ "fs @ [h]"] exI[of _ hs]) auto
    next
      case False
      then have "first_gap need (i + sizes (fs @ [h])) (sizes (fs @ [h])) hs = Some (s, k)"
        using Cons.prems neg by (simp add: ac_simps)
      from Cons.IH[OF this] show ?thesis using Cons.prems neg by simp
    qed
  qed
qed simp

text \<open>When the search fails, every range of \<open>need\<close> cells meets a block in use.\<close>

lemma first_gap_None:
  "first_gap need i g hs = None \<Longrightarrow> int g < need \<Longrightarrow> i \<le> a + g \<Longrightarrow>
   int a + need \<le> int (i + sizes hs) \<Longrightarrow> 0 < need \<Longrightarrow>
   \<exists>x\<in>used_from i hs. cells x \<inter> {a ..< a + nat need} \<noteq> {}"
proof (induction hs arbitrary: i g)
  case (Cons h hs)
  show ?case
  proof (cases "h > 0")
    case pos: True
    show ?thesis
    proof (cases "a < i + nat h")
      case True
      have "max a i \<in> cells (i, nat h)" "max a i \<in> {a ..< a + nat need}"
        using True pos Cons.prems by (auto simp: cells_def)
      then have "cells (i, nat h) \<inter> {a ..< a + nat need} \<noteq> {}" by blast
      then show ?thesis using pos by auto
    next
      case False
      then show ?thesis using Cons.IH[of "i + nat h" 0] Cons.prems pos by auto
    qed
  next
    case False
    then have "first_gap need (i + nat (- h)) (g + nat (- h)) hs = None" "int (g + nat (- h)) < need"
      "\<bar>h\<bar> = - h"
      using Cons.prems by (auto split: if_splits)
    then show ?thesis using Cons.IH[of "i + nat (- h)" "g + nat (- h)"] Cons.prems False by auto
  qed
qed simp

subsection \<open>The contract of an allocator\<close>

text \<open>
  What the two operations promise over the blocks in use: a block \<open>(b, l)\<close> covers the cells from
  \<open>b\<close> on, the first of them for the header, and the pointer given to the client is \<open>b + 1\<close>.
\<close>

definition block_cells :: "nat \<Rightarrow> nat" where
  "block_cells bytes = (bytes - 1) div 4 + 2"

definition same_payload :: "int list \<Rightarrow> int list \<Rightarrow> (nat \<times> nat) set \<Rightarrow> bool" where
  "same_payload m m' B \<longleftrightarrow> (\<forall>x\<in>B. \<forall>j\<in>cells x. m' ! j = m ! j)"

text \<open>Writing into the data cells of a block in use keeps the heap and its blocks.\<close>

lemma client_write:
  assumes ok: "heap_ok m" and blk: "(b, l) \<in> used m" and j: "b < j" "j < b + l"
  shows "heap_ok (m[j := v]) \<and> used (m[j := v]) = used m"
proof -
  obtain hs where hs: "lays m 0 hs" "sizes hs = length m" "used m = used_from 0 hs"
    "\<forall>h\<in>set hs. h \<noteq> 1" "length m < 2 ^ 31" using heap_okE[OF ok] .
  from blk hs(3) obtain pre post where d: "hs = pre @ int l # post" "b = sizes pre" "0 < l"
    using used_from_split[of b l 0 hs] by auto
  have "lays m 0 pre" "lays m b (int l # post)" using hs(1) d(1,2) by (simp_all add: lays_append)
  then have "lays (m[j := v]) 0 pre" "lays (m[j := v]) (b + l) post" "b < length m" "m ! b = int l"
    using j d(2) by (auto intro: lays_update_after lays_update_before)
  then have "lays (m[j := v]) 0 hs" using d j by (simp add: lays_append)
  then show ?thesis using heap_okI[of "m[j := v]" hs] hs by simp
qed

lemma used_bounds:
  assumes "heap_ok m" "(b, l) \<in> used m"
  shows "b + l \<le> length m" "2 \<le> l" "m ! b = int l"
proof -
  obtain hs where hs: "lays m 0 hs" "sizes hs = length m" "used m = used_from 0 hs"
    "\<forall>h\<in>set hs. h \<noteq> 1" using heap_okE[OF assms(1)] by metis
  have "(b, l) \<in> used_from 0 hs" using assms(2) hs(3) by simp
  then obtain pre post where d: "hs = pre @ int l # post" "b = sizes pre" "0 < l"
    by (rule used_from_split) simp
  have "int l \<noteq> 1" using hs(4) d(1) by simp
  then show "2 \<le> l" using d(3) by simp
  have "lays m b (int l # post)" using hs(1) d(1,2) by (simp add: lays_append)
  then show "b + l \<le> length m" "m ! b = int l" using lays_le[of m b "int l # post"] by auto
qed

subsection \<open>Allocation\<close>

lemma align_bytes_exact: "0 < n \<Longrightarrow> n < 2 ^ 33 - 3 \<Longrightarrow> to_size (to_size (align_bytes n) + 1) = int (block_cells n)"
proof -
  assume n: "0 < n" "n < 2 ^ 33 - 3"
  have "(n - 1) div 4 + 1 < 2 ^ 31" using n by (simp add: less_mult_imp_div_less)
  then have w: "align_bytes n = int ((n - 1) div 4 + 1)" "int ((n - 1) div 4 + 1) < 2 ^ 31"
    using n by (simp_all add: align_bytes_def is_i32_def)
  then show ?thesis by (simp add: block_cells_def)
qed

text \<open>The effect of placing a block at the start of a run of free blocks.\<close>

lemma place_block:
  assumes ok: "heap_ok m" and hs: "lays m 0 (pre @ run @ post)" "sizes (pre @ run @ post) = length m"
      "used m = used_from 0 (pre @ run @ post)" "\<forall>h\<in>set (pre @ run @ post). h \<noteq> 1"
    and run: "run \<noteq> []" "\<forall>h\<in>set run. h < 0" and w: "2 \<le> w" "w \<le> sizes run"
    and m': "m' = (if w < sizes run then m[sizes pre + w := - int (sizes run - w)] else m)[sizes pre := int w]"
  shows "heap_ok m' \<and> used m' = insert (sizes pre, w) (used m) \<and> same_payload m m' (used m)
     \<and> (\<forall>x\<in>used m. cells x \<inter> cells (sizes pre, w) = {})"
proof -
  let ?b = "sizes pre" and ?e = "sizes pre + sizes run"
  let ?free = "if w < sizes run then [- int (sizes run - w)] else []"
  have len: "length m < 2 ^ 31" using ok by (simp add: heap_ok_def)
  have parts: "lays m 0 pre" "lays m ?e post" "?e + sizes post = length m"
    using hs(1,2) by (simp_all add: lays_append add.assoc)
  have lays1: "lays m' 0 pre" "lays m' ?e post"
    using parts w run(1) unfolding m' by (simp_all add: lays_update_before lays_update_after)
  have fill: "w < sizes run \<Longrightarrow> ?b + (w + nat (int (sizes run) - int w)) = ?e" by linarith
  have "length m' = length m" by (simp add: m')
  moreover have "lays m' ?b (int w # ?free @ post)"
    using lays1(2) parts(3) w \<open>length m' = length m\<close> by (auto simp: m' nth_list_update add.assoc fill)
  ultimately have lay: "lays m' 0 (pre @ int w # ?free @ post)"
    "sizes (pre @ int w # ?free @ post) = length m'"
    using lays1(1) parts(3) w by (auto simp: lays_append)
  have ne: "\<forall>h\<in>set (pre @ int w # ?free @ post). h \<noteq> 1" using hs(4) w by auto
  have mid: "used_from i run = {}" for i using run(2) by (intro used_from_free) auto
  have usedm: "used m = used_from 0 pre \<union> used_from ?e post" using hs(3) mid by (simp add: used_from_append)
  have used': "used m' = insert (?b, w) (used m)"
    using heap_okI(2)[OF lay ne] len w \<open>length m' = length m\<close> usedm
    by (auto simp: used_from_append add.assoc fill)
  have sep: "fst x + snd x \<le> ?b \<or> ?e \<le> fst x" if "x \<in> used m" for x
    using that used_from_bounds[of "fst x" "snd x" 0 pre] used_from_bounds[of "fst x" "snd x" ?e post]
    unfolding usedm by auto
  have "same_payload m m' (used m)"
    using sep w unfolding same_payload_def m' by (fastforce simp: cells_def nth_list_update)
  moreover have "cells x \<inter> cells (?b, w) = {}" if "x \<in> used m" for x
    using sep[OF that] w by (auto simp: cells_def)
  ultimately show ?thesis
    using heap_okI(1)[OF lay ne] len \<open>length m' = length m\<close> used' by simp
qed

lemma store_ok: "i < length m \<Longrightarrow> is_i32 v \<Longrightarrow> store m (int i) v = Inr (m[i := v])"
  by (simp add: store_def)

lemma my_malloc_gap:
  assumes ok: "heap_ok m" and n: "0 < n" "n < 2 ^ 33 - 3"
    and hs: "lays m 0 hs" "sizes hs = length m"
  shows "my_malloc m n =
    (case first_gap (int (block_cells n)) 0 0 hs of
       None \<Rightarrow> Inr (m, None)
     | Some (b, k) \<Rightarrow>
         Inr ((if block_cells n < k then m[b + block_cells n := - int (k - block_cells n)] else m)
                [b := int (block_cells n)], Some (int b + 1)))"
proof -
  let ?w = "block_cells n"
  have find: "find_first_empty_gap m (int ?w) 0 =
    Inr (map_option (\<lambda>(s, k). (int s, int k)) (first_gap (int ?w) 0 0 hs))"
    using find_gap_loop_first_gap[OF hs(1), of 0] hs(2)
    by (simp add: find_first_empty_gap_def block_cells_def)
  have len: "length m < 2 ^ 31" using ok by (simp add: heap_ok_def)
  have fits: "b + k \<le> length m \<and> ?w \<le> k" if "first_gap (int ?w) 0 0 hs = Some (b, k)" for b k
  proof -
    have "\<exists>pre run post. hs = pre @ run @ post \<and> run \<noteq> [] \<and> (\<forall>f\<in>set run. f < 0)
        \<and> b = sizes pre \<and> k = sizes run \<and> int ?w \<le> int k"
      using first_gap_Some[of "int ?w" 0 "[]" hs b k] that lays_nonzero[OF hs(1)] by simp
    then show ?thesis using hs(2) by auto
  qed
  show ?thesis
  proof (cases "first_gap (int ?w) 0 0 hs")
    case None
    then show ?thesis using n find by (simp add: my_malloc_def align_bytes_exact Let_def)
  next
    case (Some bk)
    obtain b k where bk: "bk = (b, k)" by fastforce
    from Some bk fits have f: "b + k \<le> length m" "?w \<le> k" "0 < ?w" by (auto simp: block_cells_def)
    have s1: "store m (int b + int ?w) (- (int k - int ?w)) = Inr (m[b + ?w := - int (k - ?w)])"
      if "?w < k" using store_ok[of "b + ?w" m "- int (k - ?w)"] f len that by (simp add: is_i32_def of_nat_diff)
    have s2: "store m1 (int b) (int ?w) = Inr (m1[b := int ?w])" if "length m1 = length m" for m1
      using store_ok[of b m1 "int ?w"] f len that by (simp add: is_i32_def)
    show ?thesis
      using n find Some bk s1 s2 by (simp add: my_malloc_def align_bytes_exact Let_def)
  qed
qed

text \<open>Both outcomes of an allocation.\<close>

lemma my_malloc_cases:
  assumes ok: "heap_ok m" and n: "0 < n" "n < 2 ^ 33 - 3"
  obtains (fails) "my_malloc m n = Inr (m, None)"
      "\<And>a. a + block_cells n \<le> length m \<Longrightarrow>
            \<exists>x\<in>used m. cells x \<inter> {a ..< a + block_cells n} \<noteq> {}"
  | (succeeds) m' b where "my_malloc m n = Inr (m', Some (int b + 1))" "heap_ok m'"
      "length m' = length m" "used m' = insert (b, block_cells n) (used m)"
      "same_payload m m' (used m)" "\<forall>x\<in>used m. cells x \<inter> cells (b, block_cells n) = {}"
proof -
  let ?w = "block_cells n"
  obtain hs where hs: "lays m 0 hs" "sizes hs = length m" "used m = used_from 0 hs"
    "\<forall>h\<in>set hs. h \<noteq> 1" using heap_okE[OF ok] by metis
  note run_it = my_malloc_gap[OF ok n hs(1,2)]
  have w0: "0 < ?w" by (simp add: block_cells_def)
  show thesis
  proof (cases "first_gap (int ?w) 0 0 hs")
    case None
    have "\<exists>x\<in>used m. cells x \<inter> {a ..< a + ?w} \<noteq> {}" if "a + ?w \<le> length m" for a
      using first_gap_None[OF None, of a] that hs(2,3) w0 by simp
    then show thesis using fails run_it None by simp
  next
    case (Some bk)
    obtain b k where bk: "bk = (b, k)" by fastforce
    obtain pre run post where d: "hs = pre @ run @ post" "run \<noteq> []" "\<forall>f\<in>set run. f < 0"
        "b = sizes pre" "k = sizes run" "?w \<le> k"
      using first_gap_Some[of "int ?w" 0 "[]" hs b k] Some bk lays_nonzero[OF hs(1)] by auto
    let ?m' = "(if ?w < sizes run then m[sizes pre + ?w := - int (sizes run - ?w)] else m)[sizes pre := int ?w]"
    have "2 \<le> ?w" by (simp add: block_cells_def)
    note placed = place_block[OF ok hs[unfolded d(1)] d(2,3) this d(6)[unfolded d(5)] refl]
    have "my_malloc m n = Inr (?m', Some (int b + 1))" using run_it Some bk d(4,5) by simp
    moreover have "length ?m' = length m" by simp
    ultimately show thesis using succeeds[of ?m' b] placed d(4) by blast
  qed
qed

subsection \<open>Release\<close>

lemma coalesce_takeWhile:
  "lays m (a + e) hs \<Longrightarrow> a + e + sizes hs = length m \<Longrightarrow>
   coalesce m a e = e + sizes (takeWhile (\<lambda>h. h < 0) hs)"
proof (induction hs arbitrary: e)
  case Nil
  then show ?case by (subst coalesce.simps) simp
next
  case (Cons h hs)
  then show ?case
    by (subst coalesce.simps) (auto simp: add.assoc)
qed

lemma takeWhile_dropWhile_sizes: "sizes (takeWhile P hs) + sizes (dropWhile P hs) = sizes hs"
  by (metis sizes_append takeWhile_dropWhile_id)

lemma my_free_releases_block:
  assumes ok: "heap_ok m" and blk: "(b, l) \<in> used m"
  obtains m' where "my_free m (Some (int b + 1)) = Inr m'" "heap_ok m'" "length m' = length m"
    "used m' = used m - {(b, l)}" "same_payload m m' (used m - {(b, l)})"
proof -
  obtain hs where hs: "lays m 0 hs" "sizes hs = length m" "used m = used_from 0 hs"
    "\<forall>h\<in>set hs. h \<noteq> 1" "length m < 2 ^ 31" using heap_okE[OF ok] by metis
  have "(b, l) \<in> used_from 0 hs" using blk hs(3) by simp
  then obtain pre post where d: "hs = pre @ int l # post" "b = sizes pre" "0 < l"
    by (rule used_from_split) simp
  let ?tw = "takeWhile (\<lambda>h. h < 0) post" and ?dw = "dropWhile (\<lambda>h. h < 0) post"
  let ?e = "l + sizes ?tw"
  let ?m' = "m[b := - int ?e]"
  have parts: "lays m 0 pre" "lays m (b + l) post" "b + l + sizes post = length m" "m ! b = int l"
    "b < length m"
    using hs(1,2) d by (simp_all add: lays_append)
  have post: "?tw @ ?dw = post" "sizes ?tw + sizes ?dw = sizes post"
    by (simp_all add: takeWhile_dropWhile_sizes)
  then have dw: "lays m (b + ?e) ?dw" using parts(2) lays_append[of m "b + l" ?tw ?dw] by (simp add: add.assoc)
  have run_it: "my_free m (Some (int b + 1)) = Inr ?m'"
    using used_bounds[OF ok blk] coalesce_takeWhile[OF parts(2,3)] parts hs(5) post(2)
      store_ok[of b m "- int ?e"]
    by (simp add: my_free_def is_i32_def)
  have na: "nat (int (sizes ?tw) + int l) = l + sizes ?tw" by linarith
  have "lays ?m' 0 pre" "lays ?m' (b + ?e) ?dw"
    using parts(1) dw d(2,3) by (auto intro: lays_update_after lays_update_before)
  then have lay: "lays ?m' 0 (pre @ (- int ?e) # ?dw)" "sizes (pre @ (- int ?e) # ?dw) = length ?m'"
    using d parts post(2) by (auto simp: lays_append na)
  have "\<forall>h\<in>set post. h \<noteq> 1" using hs(4) d(1) by simp
  then have ne: "\<forall>h\<in>set (pre @ (- int ?e) # ?dw). h \<noteq> 1"
    using hs(4) d by (auto dest: set_dropWhileD)
  have tw: "used_from i ?tw = {}" for i by (intro used_from_free) (auto dest: set_takeWhileD)
  have upost: "used_from (b + l) post = used_from (b + ?e) ?dw"
    using used_from_append[of "b + l" ?tw ?dw] tw by (simp add: add.assoc)
  have usedm: "used m = insert (b, l) (used_from 0 pre \<union> used_from (b + ?e) ?dw)"
    using hs(3) d upost by (simp add: used_from_append)
  have notin: "(b, l) \<notin> used_from 0 pre \<union> used_from (b + ?e) ?dw"
    using used_from_bounds[of b l 0 pre] used_from_bounds[of b l "b + ?e" ?dw] d by auto
  have "used ?m' = used_from 0 pre \<union> used_from (b + ?e) ?dw"
    using heap_okI(2)[OF lay ne] hs(5) d by (simp add: used_from_append na)
  then have used': "used ?m' = used m - {(b, l)}" using usedm notin by blast
  have "b \<notin> cells x" if "x \<in> used m - {(b, l)}" for x
    using used_disjoint[of x m "(b, l)"] that blk d(3) by (auto simp: cells_def)
  then have "?m' ! j = m ! j" if "x \<in> used m - {(b, l)}" "j \<in> cells x" for x j
    using that by (metis nth_list_update_neq)
  then have "same_payload m ?m' (used m - {(b, l)})"
    unfolding same_payload_def by blast
  then show thesis using that[OF run_it] heap_okI(1)[OF lay ne] hs(5) used' by simp
qed

subsection \<open>The interface of an allocator\<close>

text \<open>
  \<open>alloc\<close> and \<open>release\<close> over any heap with an invariant, a number of cells (\<open>room\<close>) and a set of
  blocks.  A request may only be refused when no free range is large enough.
\<close>

locale block_allocator =
  fixes inv :: "'h \<Rightarrow> bool" and blocks :: "'h \<Rightarrow> (nat \<times> nat) set" and room :: "'h \<Rightarrow> nat"
    and legal :: "nat \<Rightarrow> bool" and need :: "nat \<Rightarrow> nat"
    and alloc :: "'h \<Rightarrow> nat \<Rightarrow> 'e + ('h \<times> int option)" and release :: "'h \<Rightarrow> int option \<Rightarrow> 'e + 'h"
  assumes alloc_law: "inv h \<Longrightarrow> legal n \<Longrightarrow>
      alloc h n = Inr (h, None) \<and>
        (\<forall>a. a + need n \<le> room h \<longrightarrow> (\<exists>x\<in>blocks h. cells x \<inter> {a ..< a + need n} \<noteq> {})) \<or>
      (\<exists>h' b. alloc h n = Inr (h', Some (int b + 1)) \<and> inv h' \<and> room h' = room h
        \<and> blocks h' = insert (b, need n) (blocks h) \<and> (\<forall>x\<in>blocks h. cells x \<inter> cells (b, need n) = {}))"
    and release_law: "inv h \<Longrightarrow> (b, l) \<in> blocks h \<Longrightarrow>
      \<exists>h'. release h (Some (int b + 1)) = Inr h' \<and> inv h' \<and> room h' = room h
        \<and> blocks h' = blocks h - {(b, l)}"
    and within: "inv h \<Longrightarrow> (b, l) \<in> blocks h \<Longrightarrow> b + l \<le> room h \<and> 0 < l"
begin

text \<open>A refused request has no side effect, a granted one is granted again after its release.\<close>

lemma granted_again:
  assumes "inv h" "legal n" "alloc h n = Inr (h1, Some p)" "0 < need n"
  shows "\<exists>h2. release h1 (Some p) = Inr h2 \<and> inv h2 \<and> blocks h2 = blocks h
    \<and> (\<exists>h3 q. alloc h2 n = Inr (h3, Some q))"
proof -
  from alloc_law[OF assms(1,2)] assms(3) obtain b where
    b: "p = int b + 1" "inv h1" "room h1 = room h" "blocks h1 = insert (b, need n) (blocks h)"
      "\<forall>x\<in>blocks h. cells x \<inter> cells (b, need n) = {}" by auto
  have "(b, need n) \<notin> blocks h" using b(5) assms(4) by (force simp: cells_def)
  then have minus: "blocks h1 - {(b, need n)} = blocks h" using b(4) by auto
  have mem: "(b, need n) \<in> blocks h1" using b(4) by simp
  obtain h2 where h2: "release h1 (Some p) = Inr h2" "inv h2" "room h2 = room h" "blocks h2 = blocks h"
    using release_law[OF b(2) mem] b(1,3) minus by auto
  have "b + need n \<le> room h2" using within[OF b(2) mem] b(3) h2(3) by simp
  moreover have "\<not> (\<exists>x\<in>blocks h2. cells x \<inter> {b ..< b + need n} \<noteq> {})"
    using b(5) h2(4) by (auto simp: cells_def)
  ultimately have "\<exists>h3 q. alloc h2 n = Inr (h3, Some q)"
    using alloc_law[OF h2(2) assms(2)] by metis
  then show ?thesis using h2 by blast
qed

text \<open>A request larger than everything is refused.\<close>

lemma too_large: "inv h \<Longrightarrow> legal n \<Longrightarrow> room h < need n \<Longrightarrow> alloc h n = Inr (h, None)"
  using alloc_law[of h n] within by (metis insertI1 le_add2 le_trans leD)

end

abbreviation request :: "nat \<Rightarrow> bool" where
  "request n \<equiv> 0 < n \<and> n < 2 ^ 33 - 3"

interpretation swap: block_allocator heap_ok used List.length request block_cells my_malloc my_free
proof
  show "my_malloc m n = Inr (m, None) \<and>
        (\<forall>a. a + block_cells n \<le> length m \<longrightarrow> (\<exists>x\<in>used m. cells x \<inter> {a ..< a + block_cells n} \<noteq> {})) \<or>
      (\<exists>m' b. my_malloc m n = Inr (m', Some (int b + 1)) \<and> heap_ok m' \<and> length m' = length m
        \<and> used m' = insert (b, block_cells n) (used m)
        \<and> (\<forall>x\<in>used m. cells x \<inter> cells (b, block_cells n) = {}))"
    if "heap_ok m" "request n" for m n
    by (rule my_malloc_cases[of m n]) (use that in auto)
  show "\<exists>m'. my_free m (Some (int b + 1)) = Inr m' \<and> heap_ok m' \<and> length m' = length m
        \<and> used m' = used m - {(b, l)}" if "heap_ok m" "(b, l) \<in> used m" for m b l
    using my_free_releases_block[OF that] by metis
  show "b + l \<le> length m \<and> 0 < l" if "heap_ok m" "(b, l) \<in> used m" for m b l
    using used_bounds[OF that] by simp
qed

subsection \<open>Reachable heaps\<close>

text \<open>
  The heaps a client can reach that frees only its own blocks and writes only into them, with the sizes
  it has asked \<^verbatim>\<open>my_malloc\<close> for on the way, of any magnitude.
\<close>

inductive reachable :: "nat \<Rightarrow> nat \<Rightarrow> nat list \<Rightarrow> int list \<Rightarrow> bool" for page bytes where
  start: "myalloc_initialize page bytes = Inr m \<Longrightarrow> reachable page bytes [] m"
| malloc: "reachable page bytes ns m \<Longrightarrow> my_malloc m n = Inr (m', p) \<Longrightarrow> reachable page bytes (n # ns) m'"
| free: "reachable page bytes ns m \<Longrightarrow> (b, l) \<in> used m \<Longrightarrow> my_free m (Some (int b + 1)) = Inr m' \<Longrightarrow>
    reachable page bytes ns m'"
| writes: "reachable page bytes ns m \<Longrightarrow> (b, l) \<in> used m \<Longrightarrow> b < j \<Longrightarrow> j < b + l \<Longrightarrow>
    reachable page bytes ns (m[j := v])"

lemma my_malloc_0 [simp]: "my_malloc m 0 = Inr (m, None)"
  by (simp add: my_malloc_def)

lemma pages_cover: "0 < page \<Longrightarrow> 0 < f \<Longrightarrow> ((f - 1) div page + 1) * page < 4 * f \<longleftrightarrow> page < 4 * f" for page f :: nat
proof
  assume p: "0 < page" "0 < f" "page < 4 * f"
  let ?k = "(f - 1) div page"
  have f: "?k * page \<le> f - 1" by simp
  show "(?k + 1) * page < 4 * f"
  proof (cases "?k = 0")
    case False
    then have "page \<le> ?k * page" by (cases ?k) auto
    moreover have "(?k + 1) * page = ?k * page + page" by simp
    ultimately show ?thesis using f p by linarith
  qed (use p in simp)
qed auto

lemma myalloc_initialize_cases:
  assumes "0 < page"
  shows "myalloc_initialize page bytes =
    (if bytes div 4 = 0 then Inl ExitFailure
     else if page < 4 * (bytes div 4) then Inl OutOfBounds
     else Inr ((replicate (bytes div 4) 0)[0 := to_i32 (- int (bytes div 4))]))"
  using pages_cover[OF assms, of "bytes div 4"] by (simp add: myalloc_initialize_def Let_def)

lemma fresh_heap:
  assumes "0 < f" "f < 2 ^ 31"
  shows "heap_ok ((replicate f 0)[0 := to_i32 (- int f)]) \<and> used ((replicate f 0)[0 := to_i32 (- int f)]) = {}"
proof -
  let ?m = "(replicate f 0)[0 := to_i32 (- int f)]"
  have "to_i32 (- int f) = - int f" using assms by (simp add: is_i32_def)
  then have "lays ?m 0 [- int f]" "sizes [- int f] = length ?m" "\<forall>h\<in>set [- int f]. h \<noteq> 1"
    using assms by auto
  from heap_okI[OF this] show ?thesis using assms by simp
qed

lemma reachable_heap_ok:
  assumes "reachable page bytes ns m" "\<forall>n\<in>set ns. n < 2 ^ 33 - 3" "0 < page" "page < 2 ^ 31"
  shows "heap_ok m \<and> length m = bytes div 4"
  using assms(1,2)
proof induction
  case (start m)
  then show ?case
    using fresh_heap[of "bytes div 4"] assms(3,4) by (auto simp: myalloc_initialize_cases split: if_splits)
next
  case (malloc ns m n m' p)
  then show ?case using swap.alloc_law[of m n] by (cases "n = 0") auto
next
  case (free ns m b l m')
  then show ?case using swap.release_law[of m b l] by auto
next
  case (writes ns m b l j v)
  then show ?case using client_write[of m b l j v] by simp
qed

subsection \<open>Properties\<close>

text \<open>
  C2: On a well-formed heap \<^verbatim>\<open>my_malloc(n)\<close> always returns.  Either it gives out a fresh block, disjoint
  from all blocks in use, with room for \<open>n\<close> bytes and less than four bytes of slack, leaves the
  contents of all other blocks alone and the heap well formed; or it returns \<^verbatim>\<open>NULL\<close>, changes nothing,
  and indeed no range of cells large enough is free.
\<close>

theorem my_malloc_correct:
  assumes "heap_ok m" and "0 < n" and "n < 2 ^ 33 - 3"
  shows "case my_malloc m n of
      Inl e \<Rightarrow> False
    | Inr (m', None) \<Rightarrow> m' = m \<and> (\<forall>a. a + block_cells n \<le> length m \<longrightarrow>
        (\<exists>x\<in>used m. cells x \<inter> {a ..< a + block_cells n} \<noteq> {}))
    | Inr (m', Some p) \<Rightarrow> heap_ok m' \<and> length m' = length m
        \<and> n \<le> 4 * (block_cells n - 1) \<and> 4 * (block_cells n - 1) < n + 4
        \<and> used m' = insert (nat (p - 1), block_cells n) (used m)
        \<and> (\<forall>x\<in>used m. cells x \<inter> cells (nat (p - 1), block_cells n) = {})
        \<and> same_payload m m' (used m)"
proof (rule my_malloc_cases[OF assms])
qed (use assms in \<open>auto simp: block_cells_def\<close>)

text \<open>
  \<^verbatim>\<open>my_free\<close> on the pointer of a block in use returns, removes exactly that block from the blocks
  in use, keeps the heap well formed although it merges the free blocks that follow, and leaves the
  contents of all other blocks alone.
\<close>

lemma my_free_correct:
  assumes "heap_ok m" and "(b, l) \<in> used m"
  shows "\<exists>m'. my_free m (Some (int b + 1)) = Inr m' \<and> heap_ok m' \<and> length m' = length m
    \<and> used m' = used m - {(b, l)} \<and> same_payload m m' (used m - {(b, l)})"
  by (rule my_free_releases_block[OF assms]) blast

text \<open>
  C32: In every heap that a client reaches after a successful \<^verbatim>\<open>myalloc_initialize\<close> by asking for
  fewer than 2^33 - 3 bytes at a time, writing into the data of its blocks and freeing them, the blocks
  in use lie inside the file, do not overlap, each with room for data, and neither \<^verbatim>\<open>my_malloc\<close> of
  fewer than 2^33 - 3 bytes nor \<^verbatim>\<open>my_free\<close> on a block in use faults.  The bound is needed: \<^verbatim>\<open>my_malloc\<close>
  does not test for it, and larger requests can corrupt the heap (\<open>my_malloc_huge_requests\<close> below).
\<close>

theorem reachable_heaps_safe:
  assumes "reachable page bytes ns m" and "\<forall>n\<in>set ns. n < 2 ^ 33 - 3" and "0 < page" and "page < 2 ^ 31"
  shows "heap_ok m \<and> length m = bytes div 4
    \<and> (\<forall>(b, l) \<in> used m. 2 \<le> l \<and> b + l \<le> length m)
    \<and> (\<forall>x\<in>used m. \<forall>y\<in>used m. x \<noteq> y \<longrightarrow> cells x \<inter> cells y = {})
    \<and> (\<forall>n. n < 2 ^ 33 - 3 \<longrightarrow> (\<exists>r. my_malloc m n = Inr r))
    \<and> (\<forall>(b, l) \<in> used m. \<exists>m'. my_free m (Some (int b + 1)) = Inr m')"
proof -
  have ok: "heap_ok m" "length m = bytes div 4" using reachable_heap_ok[OF assms] by auto
  have "\<exists>r. my_malloc m n = Inr r" if "n < 2 ^ 33 - 3" for n
    using swap.alloc_law[OF ok(1), of n] that by (cases "n = 0") auto
  moreover have "\<exists>m'. my_free m (Some (int b + 1)) = Inr m'" if "(b, l) \<in> used m" for b l
    using swap.release_law[OF ok(1) that] by auto
  ultimately show ?thesis
    using ok used_bounds[OF ok(1)] used_disjoint[of _ m] by auto
qed

text \<open>
  Freeing a block that was just allocated restores the blocks in use, and the same request is
  granted again: the allocator does not leak.
\<close>

lemma malloc_free_malloc:
  assumes "heap_ok m" and "0 < n" and "n < 2 ^ 33 - 3" and "my_malloc m n = Inr (m1, Some p)"
  shows "\<exists>m2. my_free m1 (Some p) = Inr m2 \<and> heap_ok m2 \<and> used m2 = used m
    \<and> (\<exists>m3 q. my_malloc m2 n = Inr (m3, Some q))"
  using swap.granted_again[OF assms(1) _ assms(4)] assms(2,3) by (simp add: block_cells_def)

text \<open>
  \<^verbatim>\<open>myalloc_initialize\<close> maps as many bytes as the file has cells.  It gives a heap with one free
  block for a nonempty file of at most a page, stops the process for a file without a cell, and for
  any larger file clears memory that is not mapped.
\<close>

lemma myalloc_initialize_one_page:
  assumes "0 < page" and "page < 2 ^ 31"
  shows "case myalloc_initialize page bytes of
      Inr m \<Rightarrow> 0 < bytes div 4 \<and> 4 * (bytes div 4) \<le> page \<and> heap_ok m
        \<and> length m = bytes div 4 \<and> used m = {}
    | Inl ExitFailure \<Rightarrow> bytes div 4 = 0
    | Inl OutOfBounds \<Rightarrow> page < 4 * (bytes div 4)"
  using assms fresh_heap[of "bytes div 4"]
  by (auto simp: myalloc_initialize_cases)

text \<open>
  \<^verbatim>\<open>align_bytes\<close> truncates to 32 bits.  A request of 16 GiB less four bytes is granted on every
  nonempty heap and stores 0 as the first header, whatever block is there; after that the next request
  ends the process.  A request of 16 GiB gets a block without data cells from a heap that starts with
  a free block.
\<close>

lemma my_malloc_huge_requests:
  "(m \<noteq> [] \<longrightarrow> my_malloc m (2 ^ 34 - 4) = Inr (m[0 := 0], Some 1))
   \<and> (0 < n \<and> n < 2 ^ 33 - 3 \<longrightarrow> my_malloc (0 # cs) n = Inl ExitFailure)
   \<and> my_malloc [-4, 0, 0, 0] (2 ^ 34) = Inr ([1, -3, 0, 0], Some 1)"
proof (intro conjI impI)
  show "my_malloc m (2 ^ 34 - 4) = Inr (m[0 := 0], Some 1)" if "m \<noteq> []"
    using that by (simp add: my_malloc_def align_bytes_def find_first_empty_gap_def to_i32_def
      to_size_def store_def Let_def)
  show "my_malloc (0 # cs) n = Inl ExitFailure" if "0 < n \<and> n < 2 ^ 33 - 3"
    using that by (simp add: my_malloc_def align_bytes_exact find_first_empty_gap_def
      find_gap_loop.simps Let_def block_cells_def)
  show "my_malloc [-4, 0, 0, 0] (2 ^ 34) = Inr ([1, -3, 0, 0], Some 1)"
    by (simp add: my_malloc_def align_bytes_def find_first_empty_gap_def to_i32_def to_size_def
      find_gap_loop.simps store_def Let_def)
qed

text \<open>Concrete runs.\<close>

lemma small_heap: "heap_ok [2, 7, -3, 0, 0] \<and> used [2, 7, -3, 0, 0] = {(0, 2)}"
  by (simp add: heap_ok_def used_def headers.simps)

theorem my_malloc_correct_witness:
  "heap_ok [2, 7, -3, 0, 0] \<and> my_malloc [2, 7, -3, 0, 0] 1 = Inr ([2, 7, 2, 0, -1], Some 3)
   \<and> used [2, 7, 2, 0, -1] = insert (2, 2) (used [2, 7, -3, 0, 0])"
proof -
  have run_it: "my_malloc [2, 7, -3, 0, 0] 1 = Inr ([2, 7, 2, 0, -1], Some 3)"
    by (simp add: my_malloc_def align_bytes_def find_first_empty_gap_def to_i32_def to_size_def
      find_gap_loop.simps store_def Let_def)
  have bc: "block_cells 1 = 2" unfolding block_cells_def by linarith
  show ?thesis
    using my_malloc_correct[of "[2, 7, -3, 0, 0]" 1, unfolded bc] run_it small_heap by auto
qed

theorem my_free_correct_witness: "\<exists>m'. my_free [2, 7, -3, 0, 0] (Some 1) = Inr m' \<and> used m' = {}"
  using my_free_correct[of "[2, 7, -3, 0, 0]" 0 2] small_heap by auto

lemma small_reachable: "reachable 4096 16 [4] [2, 0, -2, 0]"
proof -
  have "reachable 4096 16 [] [-4, 0, 0, 0]" by (rule reachable.start) code_simp
  moreover have "my_malloc [-4, 0, 0, 0] 4 = Inr ([2, 0, -2, 0], Some 1)"
    by (simp add: my_malloc_def align_bytes_def find_first_empty_gap_def to_i32_def to_size_def
      find_gap_loop.simps store_def Let_def)
  ultimately show ?thesis by (rule reachable.malloc)
qed

theorem reachable_heaps_safe_witness: "heap_ok [2, 0, -2, 0] \<and> (\<exists>r. my_malloc [2, 0, -2, 0] 5 = Inr r)"
  using reachable_heaps_safe[OF small_reachable] by auto

theorem malloc_free_malloc_witness:
  "\<exists>m2. my_free [2, 7, 2, 0, -1] (Some 3) = Inr m2 \<and> used m2 = used [2, 7, -3, 0, 0]"
proof -
  have run_it: "my_malloc [2, 7, -3, 0, 0] 1 = Inr ([2, 7, 2, 0, -1], Some 3)"
    by (simp add: my_malloc_def align_bytes_def find_first_empty_gap_def to_i32_def to_size_def
      find_gap_loop.simps store_def Let_def)
  show ?thesis using malloc_free_malloc[OF _ _ _ run_it] small_heap by auto
qed

theorem myalloc_initialize_one_page_witness: "myalloc_initialize 4096 3 = Inl ExitFailure"
  using myalloc_initialize_one_page[of 4096 3] by (simp split: sum.splits fault.splits)

theorem my_malloc_huge_requests_witness:
  "my_malloc [2, 7, -3, 0, 0] (2 ^ 34 - 4) = Inr ([0, 7, -3, 0, 0], Some 1)
   \<and> my_malloc [0, 7, -3, 0, 0] 8 = Inl ExitFailure"
  using my_malloc_huge_requests[of "[2, 7, -3, 0, 0]" 8 "[7, -3, 0, 0]"] by simp

end
