(* ===== verification/LockFreeList.thy ===== *)
theory LockFreeList
  imports Prelude
begin

section \<open>threads_atomic: pushing to a shared list without locks\<close>

text \<open>
  \<^verbatim>\<open>inf19-2_posix_threads_atomic/main.c\<close>: \<open>n\<close> threads append to one linked list, thread \<open>t\<close> the values
  from \<open>t * k\<close> on below \<open>(t + 1) * k\<close>.  A push allocates and fills an item, exchanges the list's tail
  atomically, links the old tail (or the head) to the item and increments the size atomically.  The
  threads are interleaved between these four actions.

  The specification is a log of values to which every thread appends its values in order; the theorems
  say that the final list is such a log, that no interleaving dereferences a null or unallocated item,
  and that no thread is ever blocked.  The number of threads and of values per thread are nonnegative
  ints, so all values are below \<open>2 ^ 62\<close> and do not wrap around.  \<^verbatim>\<open>malloc\<close> is an arbitrary fresh
  address; the source does not check for its failure.
\<close>

subsection \<open>The specification: a log\<close>

inductive log_reach :: "nat \<Rightarrow> nat \<Rightarrow> nat list \<Rightarrow> (nat \<Rightarrow> nat) \<Rightarrow> bool" for n k where
  init: "log_reach n k [] (\<lambda>t. t * k)"
| push: "log_reach n k log nx \<Longrightarrow> t < n \<Longrightarrow> nx t < (t + 1) * k \<Longrightarrow>
    log_reach n k (log @ [nx t]) (nx(t := nx t + 1))"

lemma div_range: "t * k \<le> v \<Longrightarrow> v < (t + 1) * k \<Longrightarrow> v div k = t" for t k v :: nat
  by (metis Suc_eq_plus1 div_nat_eqI mult.commute)

lemma log_reach_inv:
  "log_reach n k log nx \<Longrightarrow>
     (\<forall>t. t * k \<le> nx t \<and> nx t \<le> (t + 1) * k)
     \<and> (\<forall>t<n. filter (\<lambda>v. v div k = t) log = [t * k ..< nx t]) \<and> (\<forall>v\<in>set log. v < n * k)"
proof (induction rule: log_reach.induct)
  case (push log nx t)
  have v: "nx t div k = t" using push.IH push.hyps(3) div_range[of t k "nx t"] by auto
  have "(t + 1) * k \<le> n * k" using push.hyps(2) by (intro mult_le_mono1) simp
  then have "nx t < n * k" using push.hyps(3) by simp
  moreover have "[t * k ..< nx t + 1] = [t * k ..< nx t] @ [nx t]" using push.IH by simp
  ultimately show ?case using push v by (auto simp: Suc_le_eq le_SucI)
qed auto

text \<open>When all threads have pushed everything, the log is a permutation of all values.\<close>

lemma log_reach_final:
  assumes "log_reach n k log nx" "\<forall>t<n. nx t = (t + 1) * k"
  shows "mset log = mset [0 ..< n * k]"
proof (rule multiset_eqI)
  fix v
  have dcount: "count (mset [a ..< b]) u = (if a \<le> u \<and> u < b then 1 else 0)" for a b u :: nat
    using distinct_upt[of a b] unfolding distinct_count_atmost_1 by simp
  have inv: "\<forall>t<n. filter (\<lambda>v. v div k = t) log = [t * k ..< nx t]" "\<forall>v\<in>set log. v < n * k"
    using log_reach_inv[OF assms(1)] by auto
  show "count (mset log) v = count (mset [0 ..< n * k]) v"
  proof (cases "v < n * k")
    case True
    then have t: "v div k < n" "0 < k" using less_mult_imp_div_less by (auto intro: gr0I)
    have r: "v div k * k \<le> v" "v < (v div k + 1) * k"
      using div_mult_mod_eq[of v k] mod_less_divisor[OF t(2), of v] add_mult_distrib[of "v div k" 1 k]
      by linarith+
    have "count (mset log) v = count (mset (filter (\<lambda>u. u div k = v div k) log)) v"
      by (simp add: mset_filter)
    also have "\<dots> = count (mset [v div k * k ..< (v div k + 1) * k]) v" using inv t assms(2) by simp
    also have "\<dots> = 1" using r dcount[of "v div k * k" "(v div k + 1) * k" v] by simp
    finally show ?thesis using True dcount[of 0 "n * k" v] by simp
  next
    case False
    then have "v \<notin> set log" using inv(2) by blast
    then show ?thesis using False dcount[of 0 "n * k" v] by (simp add: count_eq_zero_iff[THEN iffD2])
  qed
qed

subsection \<open>The program\<close>

record item =
  item_next :: "nat option"
  item_value :: nat

text \<open>
  The program counter of a thread: before pushing \<open>i\<close>, with the item \<open>p\<close> for \<open>i\<close> filled, after the
  exchange that returned the old tail, after the linking, and after the loop.
\<close>

datatype pc = Looping nat | Filled nat nat | Swapped nat nat "nat option" | Linked nat | Done

record list_state =
  items :: "nat \<Rightarrow> item option"
  list_head :: "nat option"
  list_tail :: "nat option"
  list_size :: nat
  pcs :: "nat \<Rightarrow> pc"

text \<open>
  The assignment to \<^verbatim>\<open>list->head\<close> or \<^verbatim>\<open>tail->next\<close>; \<open>None\<close> is a store through a pointer to no item.
\<close>

definition set_link :: "nat option \<Rightarrow> nat \<Rightarrow> list_state \<Rightarrow> list_state option" where
  "set_link old p s =
     (case old of
        None \<Rightarrow> Some (s\<lparr>list_head := Some p\<rparr>)
      | Some q \<Rightarrow>
          (case items s q of
             None \<Rightarrow> None
           | Some it \<Rightarrow> Some (s\<lparr>items := (items s)(q := Some (it\<lparr>item_next := Some p\<rparr>))\<rparr>)))"

text \<open>One action of thread \<open>t\<close>; \<open>p\<close> is the address that \<^verbatim>\<open>malloc\<close> returns if it is called.\<close>

definition list_push_step :: "nat \<Rightarrow> nat \<Rightarrow> nat \<Rightarrow> list_state \<Rightarrow> list_state option" where
  "list_push_step k t p s =
     (case pcs s t of
        Looping i \<Rightarrow>
          (if i < (t + 1) * k
           then Some (s\<lparr>items := (items s)(p := Some \<lparr>item_next = None, item_value = i\<rparr>),
                        pcs := (pcs s)(t := Filled i p)\<rparr>)
           else Some (s\<lparr>pcs := (pcs s)(t := Done)\<rparr>))
      | Filled i q \<Rightarrow> Some (s\<lparr>list_tail := Some q, pcs := (pcs s)(t := Swapped i q (list_tail s))\<rparr>)
      | Swapped i q old \<Rightarrow> map_option (\<lambda>s'. s'\<lparr>pcs := (pcs s')(t := Linked i)\<rparr>) (set_link old q s)
      | Linked i \<Rightarrow> Some (s\<lparr>list_size := list_size s + 1, pcs := (pcs s)(t := Looping (i + 1))\<rparr>)
      | Done \<Rightarrow> Some s)"

definition list_init :: "nat \<Rightarrow> list_state" where
  "list_init k = \<lparr>items = (\<lambda>_. None), list_head = None, list_tail = None, list_size = 0,
                  pcs = (\<lambda>t. Looping (t * k))\<rparr>"

text \<open>The states that \<open>n\<close> threads reach in any interleaving.\<close>

inductive worker_reach :: "nat \<Rightarrow> nat \<Rightarrow> list_state \<Rightarrow> bool" for n k where
  created: "worker_reach n k (list_init k)"
| act: "worker_reach n k s \<Longrightarrow> t < n \<Longrightarrow> items s p = None \<Longrightarrow> list_push_step k t p s = Some s' \<Longrightarrow>
    worker_reach n k s'"

text \<open>The printing loop of \<^verbatim>\<open>main\<close> and \<^verbatim>\<open>list_destroy\<close>; \<open>None\<close> is the use of a null or freed pointer.\<close>

fun print_items :: "(nat \<Rightarrow> item option) \<Rightarrow> nat \<Rightarrow> nat option \<Rightarrow> nat list option" where
  "print_items m 0 p = Some []"
| "print_items m (Suc c) p =
     (case p of
        None \<Rightarrow> None
      | Some a \<Rightarrow>
          (case m a of
             None \<Rightarrow> None
           | Some it \<Rightarrow> map_option (\<lambda>vs. item_value it # vs) (print_items m c (item_next it))))"

partial_function (option) destroy_items :: "(nat \<Rightarrow> item option) \<Rightarrow> nat option \<Rightarrow> (nat \<Rightarrow> item option) option" where
  "destroy_items m p =
     (case p of
        None \<Rightarrow> Some m
      | Some a \<Rightarrow>
          (case m a of
             None \<Rightarrow> None
           | Some it \<Rightarrow> destroy_items (m(a := None)) (item_next it)))"

definition list_destroy :: "list_state \<Rightarrow> list_state option" where
  "list_destroy s =
     map_option (\<lambda>m. s\<lparr>items := m, list_size := 0, list_head := None, list_tail := None\<rparr>)
       (destroy_items (items s) (list_head s))"

subsection \<open>The invariant\<close>

text \<open>
  \<open>ps\<close> lists the items in the order of their exchanges.  The pointer to the \<open>j\<close>-th of them is the head
  for \<open>j = 0\<close> and the \<^verbatim>\<open>next\<close> field of its predecessor otherwise; it is null exactly while the
  item's thread has not done the linking.
\<close>

definition before :: "nat list \<Rightarrow> nat \<Rightarrow> nat option" where
  "before ps j = (if j = 0 then None else Some (ps ! (j - 1)))"

definition link_of :: "list_state \<Rightarrow> nat option \<Rightarrow> nat option" where
  "link_of s old = (case old of None \<Rightarrow> list_head s | Some q \<Rightarrow> (case items s q of None \<Rightarrow> None | Some it \<Rightarrow> item_next it))"

definition pending :: "list_state \<Rightarrow> nat set" where
  "pending s = {p. \<exists>t i old. pcs s t = Swapped i p old}"

fun reached :: "nat \<Rightarrow> nat \<Rightarrow> pc \<Rightarrow> nat" where
  "reached k t (Looping i) = i"
| "reached k t (Filled i p) = i"
| "reached k t (Swapped i p old) = i + 1"
| "reached k t (Linked i) = i + 1"
| "reached k t Done = (t + 1) * k"

fun uncounted :: "pc \<Rightarrow> nat" where
  "uncounted (Swapped i p old) = 1"
| "uncounted (Linked i) = 1"
| "uncounted _ = 0"

definition pc_ok :: "nat \<Rightarrow> list_state \<Rightarrow> nat list \<Rightarrow> nat \<Rightarrow> bool" where
  "pc_ok k s ps t =
     (case pcs s t of
        Looping i \<Rightarrow> i \<le> (t + 1) * k
      | Filled i p \<Rightarrow> i < (t + 1) * k \<and> items s p = Some \<lparr>item_next = None, item_value = i\<rparr> \<and> p \<notin> set ps
          \<and> (\<forall>u i'. pcs s u = Filled i' p \<longrightarrow> u = t)
      | Swapped i p old \<Rightarrow> i < (t + 1) * k \<and> (\<exists>j<length ps. ps ! j = p \<and> old = before ps j)
          \<and> (\<forall>u i' old'. pcs s u = Swapped i' p old' \<longrightarrow> u = t)
      | Linked i \<Rightarrow> i < (t + 1) * k
      | Done \<Rightarrow> True)"

definition chain :: "list_state \<Rightarrow> nat list \<Rightarrow> bool" where
  "chain s ps \<longleftrightarrow> distinct ps \<and> (\<forall>p\<in>set ps. items s p \<noteq> None)
     \<and> list_tail s = before ps (length ps)
     \<and> (\<forall>j\<le>length ps. link_of s (before ps j) =
          (if j < length ps \<and> ps ! j \<notin> pending s then Some (ps ! j) else None))"

definition list_inv :: "nat \<Rightarrow> nat \<Rightarrow> list_state \<Rightarrow> nat list \<Rightarrow> bool" where
  "list_inv n k s ps \<longleftrightarrow> chain s ps \<and> (\<forall>t. pc_ok k s ps t)
     \<and> log_reach n k (map (\<lambda>p. item_value (the (items s p))) ps) (\<lambda>t. reached k t (pcs s t))
     \<and> list_size s + (\<Sum>t<n. uncounted (pcs s t)) = length ps"

lemma before_mem: "before ps j = Some q \<Longrightarrow> j \<le> length ps \<Longrightarrow> q \<in> set ps"
  by (auto simp: before_def split: if_splits)

lemma before_inj: "distinct ps \<Longrightarrow> before ps i = before ps j \<Longrightarrow> i \<le> length ps \<Longrightarrow> j \<le> length ps \<Longrightarrow> i = j"
  by (auto simp: before_def nth_eq_iff_index_eq split: if_splits)

lemma before_snoc: "j \<le> length ps \<Longrightarrow> before (ps @ [p]) j = before ps j"
  by (auto simp: before_def nth_append)

lemma chain_cong:
  assumes "chain s ps" "list_head s' = list_head s" "list_tail s' = list_tail s"
    "\<forall>q\<in>set ps. items s' q = items s q" "\<forall>q\<in>set ps. q \<in> pending s' \<longleftrightarrow> q \<in> pending s"
  shows "chain s' ps"
proof -
  have "link_of s' (before ps j) = link_of s (before ps j)" if "j \<le> length ps" for j
    using assms(2,4) before_mem[OF _ that] by (auto simp: link_of_def split: option.splits)
  then show ?thesis using assms by (auto simp: chain_def)
qed

fun pends :: "pc \<Rightarrow> nat set" where
  "pends (Swapped i p old) = {p}"
| "pends _ = {}"

lemma pending_UN: "pending s = (\<Union>t. pends (pcs s t))"
proof -
  have "p \<in> pends c \<longleftrightarrow> (\<exists>i old. c = Swapped i p old)" for p c by (cases c) auto
  then show ?thesis by (simp add: pending_def set_eq_iff)
qed

lemma pending_move:
  assumes "pcs s' = (pcs s)(t := c)" "pends (pcs s t) = {}"
  shows "pending s' = pends c \<union> pending s"
  unfolding pending_UN assms(1) using assms(2) by (auto split: if_splits) (metis emptyE)+

text \<open>The invariant is established from its parts.\<close>

lemma list_invI:
  "chain s ps \<Longrightarrow> (\<And>t. pc_ok k s ps t) \<Longrightarrow>
   log_reach n k (map (\<lambda>p. item_value (the (items s p))) ps) (\<lambda>t. reached k t (pcs s t)) \<Longrightarrow>
   list_size s + (\<Sum>t<n. uncounted (pcs s t)) = length ps \<Longrightarrow> list_inv n k s ps"
  unfolding list_inv_def by blast

lemma list_invD:
  assumes "list_inv n k s ps"
  shows "chain s ps" "pc_ok k s ps t"
   "log_reach n k (map (\<lambda>p. item_value (the (items s p))) ps) (\<lambda>t. reached k t (pcs s t))"
   "list_size s + (\<Sum>t<n. uncounted (pcs s t)) = length ps"
  using assms unfolding list_inv_def by blast+

lemma list_inv_stay:
  assumes "list_inv n k s ps" "chain s' ps" "\<And>u. pc_ok k s' ps u"
    "\<And>q. q \<in> set ps \<Longrightarrow> item_value (the (items s' q)) = item_value (the (items s q))"
    "\<And>u. reached k u (pcs s' u) = reached k u (pcs s u)"
    "list_size s' + (\<Sum>u<n. uncounted (pcs s' u)) = list_size s + (\<Sum>u<n. uncounted (pcs s u))"
  shows "list_inv n k s' ps"
proof -
  have vals: "map (\<lambda>p. item_value (the (items s' p))) ps = map (\<lambda>p. item_value (the (items s p))) ps"
    using assms(4) by simp
  have at: "(\<lambda>u. reached k u (pcs s' u)) = (\<lambda>u. reached k u (pcs s u))"
    using assms(5) by simp
  note log = list_invD(3)[OF assms(1), folded vals at]
  show ?thesis
    by (rule list_invI[OF assms(2,3) log]) (use assms(6) list_invD(4)[OF assms(1)] in simp)
qed

lemma inv_allocate:
  assumes inv: "list_inv n k s ps" and pc: "pcs s t = Looping i" "i < (t + 1) * k" "items s p = None"
    and s': "s' = s\<lparr>items := (items s)(p := Some \<lparr>item_next = None, item_value = i\<rparr>),
                  pcs := (pcs s)(t := Filled i p)\<rparr>"
  shows "list_inv n k s' ps"
proof -
  have ch: "chain s ps" and ok: "\<And>u. pc_ok k s ps u" using inv by (auto simp: list_inv_def)
  have p: "p \<notin> set ps" using ch pc(3) by (auto simp: chain_def)
  have "pending s' = pending s" using pc(1) pending_move[of s' s t "Filled i p"] by (simp add: s')
  then have "chain s' ps" using p by (intro chain_cong[OF ch]) (auto simp: s')
  moreover have "pc_ok k s' ps u" for u
  proof (cases "u = t")
    case True
    have "pcs s v \<noteq> Filled j p" for v j
      using ok[of v] pc(3) by (auto simp: pc_ok_def)
    then show ?thesis using True pc p by (auto simp: pc_ok_def s')
  next
    case False
    show ?thesis
    proof (cases "pcs s u")
      case (Filled j q)
      then have "q \<noteq> p" using ok[of u] pc(3) by (auto simp: pc_ok_def)
      then show ?thesis using ok[of u] False Filled by (auto simp: pc_ok_def s')
    qed (use ok[of u] False in \<open>auto simp: pc_ok_def s'\<close>)
  qed
  moreover have "uncounted (pcs s' u) = uncounted (pcs s u)" "reached k u (pcs s' u) = reached k u (pcs s u)" for u
    using pc(1) by (auto simp: s')
  moreover have "items s' q = items s q" if "q \<in> set ps" for q using that p by (auto simp: s')
  moreover have "list_size s' = list_size s" by (simp add: s')
  ultimately show ?thesis by (intro list_inv_stay[OF inv]) simp_all
qed

lemma inv_exchange:
  assumes inv: "list_inv n k s ps" and t: "t < n" and pc: "pcs s t = Filled i p"
    and s': "s' = s\<lparr>list_tail := Some p, pcs := (pcs s)(t := Swapped i p (list_tail s))\<rparr>"
  shows "list_inv n k s' (ps @ [p])"
proof -
  let ?ps = "ps @ [p]"
  have ch: "chain s ps" and ok: "\<And>u. pc_ok k s ps u" using inv by (auto simp: list_inv_def)
  from ok[of t] pc have p: "i < (t + 1) * k" "items s p = Some \<lparr>item_next = None, item_value = i\<rparr>"
    "p \<notin> set ps" "\<And>u j. pcs s u = Filled j p \<Longrightarrow> u = t"
    by (auto simp: pc_ok_def)
  have pend: "pending s' = insert p (pending s)"
    using pc pending_move[of s' s t "Swapped i p (list_tail s)"] by (simp add: s')
  have links: "link_of s' old = link_of s old" for old
    by (cases old) (simp_all add: link_of_def s')
  have "link_of s' (before ?ps j) = (if j < length ?ps \<and> ?ps ! j \<notin> pending s' then Some (?ps ! j) else None)"
    if "j \<le> length ?ps" for j
  proof -
    have "j \<le> length ps + 1" using that by simp
    then consider "j < length ps" | "j = length ps" | "j = length ps + 1" by linarith
    then show ?thesis
    proof cases
      case 1
      then have "ps ! j \<noteq> p" using p(3) by auto
      then show ?thesis using 1 ch pend by (simp add: chain_def links before_snoc nth_append)
    next
      case 2
      then show ?thesis using ch pend by (simp add: chain_def links before_snoc)
    next
      case 3
      have "before ?ps j = Some p" using 3 by (simp add: before_def)
      moreover have "link_of s (Some p) = None" using p(2) by (simp add: link_of_def)
      ultimately show ?thesis using 3 by (simp add: links)
    qed
  qed
  then have "chain s' ?ps" using ch p by (auto simp: chain_def s' before_def nth_append)
  moreover have "pc_ok k s' ?ps u" for u
  proof (cases "u = t")
    case True
    have "pcs s v \<noteq> Swapped j p old" for v j old
      using ok[of v] p(3) by (auto simp: pc_ok_def)
    moreover have "list_tail s = before ?ps (length ps)" using ch by (simp add: chain_def before_snoc)
    ultimately show ?thesis using True p by (auto simp: pc_ok_def s' intro!: exI[of _ "length ps"])
  next
    case False
    show ?thesis
    proof (cases "pcs s u")
      case (Filled j q)
      then have "q \<noteq> p" using p(4) False by auto
      then show ?thesis using ok[of u] False Filled by (auto simp: pc_ok_def s')
    next
      case (Swapped j q old)
      then have "q \<in> set ps" using ok[of u] by (auto simp: pc_ok_def)
      moreover from this obtain l where "l < length ps" "ps ! l = q" "old = before ps l"
        using ok[of u] Swapped by (auto simp: pc_ok_def)
      ultimately show ?thesis using ok[of u] False Swapped p(3)
        by (auto simp: pc_ok_def s' before_snoc nth_append intro!: exI[of _ l])
    qed (use ok[of u] False in \<open>auto simp: pc_ok_def s'\<close>)
  qed
  moreover have "log_reach n k (map (\<lambda>p. item_value (the (items s' p))) ?ps) (\<lambda>u. reached k u (pcs s' u))"
  proof -
    have "(\<lambda>u. reached k u (pcs s' u)) = (\<lambda>u. reached k u (pcs s u))(t := reached k t (pcs s t) + 1)"
      using pc by (auto simp: s' fun_eq_iff)
    moreover have "log_reach n k (map (\<lambda>p. item_value (the (items s p))) ps @ [reached k t (pcs s t)])
      ((\<lambda>u. reached k u (pcs s u))(t := reached k t (pcs s t) + 1))"
      using inv t p(1) pc by (intro log_reach.push) (auto simp: list_inv_def)
    ultimately show ?thesis using p(2) pc by (simp add: s')
  qed
  moreover have "(\<Sum>u<n. uncounted (pcs s' u)) = (\<Sum>u<n. uncounted (pcs s u)) + 1"
    using sum_move[OF t, of "\<lambda>u. uncounted (pcs s' u)" "\<lambda>u. uncounted (pcs s u)"] pc by (simp add: s')
  moreover have "list_size s' = list_size s" by (simp add: s')
  ultimately show ?thesis using list_invD(4)[OF inv] by (intro list_invI) simp_all
qed

lemma inv_link:
  assumes inv: "list_inv n k s ps" and t: "t < n" and pc: "pcs s t = Swapped i p old"
  obtains s1 where "set_link old p s = Some s1"
    "list_inv n k (s1\<lparr>pcs := (pcs s1)(t := Linked i)\<rparr>) ps"
proof -
  have ch: "chain s ps" and ok: "\<And>u. pc_ok k s ps u" using inv by (auto simp: list_inv_def)
  obtain j where j: "j < length ps" "ps ! j = p" "old = before ps j" "i < (t + 1) * k"
      "\<And>u i' old'. pcs s u = Swapped i' p old' \<Longrightarrow> u = t"
    using ok[of t] unfolding pc_ok_def pc pc.case by blast
  have dist: "distinct ps" and alloc: "\<And>q. q \<in> set ps \<Longrightarrow> items s q \<noteq> None"
    using ch by (auto simp: chain_def)
  have "items s q \<noteq> None" if "old = Some q" for q
    using alloc before_mem[of ps j q] that j by simp
  then obtain s1 where s1: "set_link old p s = Some s1"
    by (cases old) (auto simp: set_link_def)
  have fields: "pcs s1 = pcs s" "list_tail s1 = list_tail s" "list_size s1 = list_size s"
    "\<And>q. items s1 q = None \<longleftrightarrow> items s q = None"
    "\<And>q. item_value (the (items s1 q)) = item_value (the (items s q))"
    "\<And>old'. old' \<noteq> old \<Longrightarrow> link_of s1 old' = link_of s old'" "link_of s1 old = Some p"
    "\<And>q. old \<noteq> Some q \<Longrightarrow> items s1 q = items s q"
    using s1 by (auto simp: set_link_def link_of_def split: option.splits if_splits)
  let ?s = "s1\<lparr>pcs := (pcs s1)(t := Linked i)\<rparr>"
  have links: "link_of ?s old' = link_of s1 old'" for old'
    by (cases old') (simp_all add: link_of_def)
  have pend: "q \<in> pending ?s \<longleftrightarrow> q \<in> pending s \<and> q \<noteq> p" for q
  proof
    assume "q \<in> pending ?s"
    then obtain u i' old' where u: "(if u = t then Linked i else pcs s u) = Swapped i' q old'"
      unfolding pending_def using fields(1) by auto
    then have "u \<noteq> t" "pcs s u = Swapped i' q old'" by (auto split: if_splits)
    then show "q \<in> pending s \<and> q \<noteq> p" using j(5) unfolding pending_def by blast
  next
    assume "q \<in> pending s \<and> q \<noteq> p"
    then obtain u i' old' where u: "pcs s u = Swapped i' q old'" "q \<noteq> p"
      unfolding pending_def by blast
    then have "u \<noteq> t" using pc by auto
    then have "pcs ?s u = Swapped i' q old'" using u fields(1) by simp
    then show "q \<in> pending ?s" unfolding pending_def by blast
  qed
  have "link_of ?s (before ps l) = (if l < length ps \<and> ps ! l \<notin> pending ?s then Some (ps ! l) else None)"
    if "l \<le> length ps" for l
  proof (cases "l = j")
    case True
    then show ?thesis using j pend fields(7) links by simp
  next
    case False
    then have "before ps l \<noteq> old" using before_inj[OF dist] that j by (metis less_imp_le)
    moreover have "l < length ps \<Longrightarrow> ps ! l \<noteq> p" using False dist j nth_eq_iff_index_eq by metis
    ultimately show ?thesis using ch that pend fields(6) links by (auto simp: chain_def)
  qed
  then have "chain ?s ps" using ch fields by (auto simp: chain_def)
  moreover have "pc_ok k ?s ps u" for u
  proof (cases "u = t")
    case True
    then show ?thesis using j(4) by (simp add: pc_ok_def)
  next
    case False
    show ?thesis
    proof (cases "pcs s u")
      case (Filled i' q)
      then have "q \<notin> set ps" using ok[of u] by (simp add: pc_ok_def)
      then have "old \<noteq> Some q" using before_mem[of ps j q] j by auto
      then show ?thesis using ok[of u] False Filled fields by (auto simp: pc_ok_def)
    next
      case (Swapped i' q old')
      then show ?thesis using ok[of u] False fields by (auto simp: pc_ok_def)
    qed (use ok[of u] False fields in \<open>auto simp: pc_ok_def\<close>)
  qed
  moreover have "uncounted (pcs ?s u) = uncounted (pcs s u)" "reached k u (pcs ?s u) = reached k u (pcs s u)" for u
    using pc fields(1) by auto
  ultimately have "list_inv n k ?s ps"
    using list_inv_stay[OF inv, of ?s] fields by simp
  then show thesis using that s1 by blast
qed

lemma inv_local:
  assumes inv: "list_inv n k s ps" and t: "t < n"
    and s': "pcs s t = Looping i \<and> \<not> i < (t + 1) * k \<and> s' = s\<lparr>pcs := (pcs s)(t := Done)\<rparr>
      \<or> pcs s t = Linked i \<and> s' = s\<lparr>list_size := list_size s + 1, pcs := (pcs s)(t := Looping (i + 1))\<rparr>"
  shows "list_inv n k s' ps"
proof -
  have ch: "chain s ps" and ok: "\<And>u. pc_ok k s ps u" using inv by (auto simp: list_inv_def)
  obtain c where c: "pcs s' = (pcs s)(t := c)" "pends c = {}" "pends (pcs s t) = {}" "\<And>j q. c \<noteq> Filled j q"
      "\<And>j q old. c \<noteq> Swapped j q old" "items s' = items s" "list_head s' = list_head s" "list_tail s' = list_tail s"
    using s' by auto
  have "pending s' = pending s" using pending_move[OF c(1,3)] c(2) by simp
  then have "chain s' ps" using c by (intro chain_cong[OF ch]) auto
  moreover have "pc_ok k s' ps u" for u
  proof (cases "u = t")
    case True
    then show ?thesis using s' ok[of t] by (auto simp: pc_ok_def)
  next
    case False
    then have "pcs s' u = pcs s u" using c(1) by simp
    then show ?thesis using ok[of u] c by (cases "pcs s u") (auto simp: pc_ok_def)
  qed
  moreover have "reached k u (pcs s' u) = reached k u (pcs s u)" for u
    using s' ok[of t] by (auto simp: pc_ok_def)
  moreover have "list_size s' + (\<Sum>u<n. uncounted (pcs s' u)) = list_size s + (\<Sum>u<n. uncounted (pcs s u))"
    using sum_move[OF t, of "\<lambda>u. uncounted (pcs s' u)" "\<lambda>u. uncounted (pcs s u)"] s' by auto
  ultimately show ?thesis using list_inv_stay[OF inv, of s'] c(6) by simp
qed

lemma inv_init: "list_inv n k (list_init k) []"
proof (rule list_invI)
  show "chain (list_init k) []"
    by (simp add: chain_def list_init_def before_def link_of_def)
  show "log_reach n k (map (\<lambda>p. item_value (the (items (list_init k) p))) []) (\<lambda>t. reached k t (pcs (list_init k) t))"
    using log_reach.init[of n k] by (simp add: list_init_def)
qed (auto simp: pc_ok_def list_init_def)

text \<open>Every action of a thread succeeds and keeps the invariant.\<close>

lemma list_push_step_inv:
  assumes inv: "list_inv n k s ps" and t: "t < n" and fresh: "items s p = None"
  obtains s' ps' where "list_push_step k t p s = Some s'" "list_inv n k s' ps'"
proof (cases "pcs s t")
  case (Looping i)
  show thesis
  proof (cases "i < (t + 1) * k")
    case True
    then show thesis using that inv_allocate[OF inv Looping True fresh refl] Looping
      by (simp add: list_push_step_def)
  next
    case False
    then show thesis using that inv_local[OF inv t, of i "s\<lparr>pcs := (pcs s)(t := Done)\<rparr>"] Looping
      by (simp add: list_push_step_def)
  qed
next
  case (Filled i q)
  then show thesis using that inv_exchange[OF inv t Filled refl] by (simp add: list_push_step_def)
next
  case (Swapped i q old)
  show thesis
    by (rule inv_link[OF inv t Swapped]) (use that Swapped in \<open>simp add: list_push_step_def\<close>)
next
  case (Linked i)
  then show thesis
    using that inv_local[OF inv t, of i "s\<lparr>list_size := list_size s + 1, pcs := (pcs s)(t := Looping (i + 1))\<rparr>"]
    by (simp add: list_push_step_def)
next
  case Done
  then show thesis using that inv by (simp add: list_push_step_def)
qed

lemma worker_reach_inv: "worker_reach n k s \<Longrightarrow> \<exists>ps. list_inv n k s ps"
proof (induction rule: worker_reach.induct)
  case created
  then show ?case using inv_init by blast
next
  case (act s t p s')
  then obtain ps where "list_inv n k s ps" by blast
  from list_push_step_inv[OF this act.hyps(2,3)] obtain s'' ps' where
    "list_push_step k t p s = Some s''" "list_inv n k s'' ps'" by blast
  then show ?case using act.hyps(4) by auto
qed

text \<open>The number of actions a thread still has to do.\<close>

fun todo :: "nat \<Rightarrow> nat \<Rightarrow> pc \<Rightarrow> nat" where
  "todo k t (Looping i) = 4 * ((t + 1) * k - i) + 1"
| "todo k t (Filled i p) = 4 * ((t + 1) * k - i)"
| "todo k t (Swapped i p old) = 4 * ((t + 1) * k - i) - 1"
| "todo k t (Linked i) = 4 * ((t + 1) * k - i) - 2"
| "todo k t Done = 0"

lemma set_link_pcs: "set_link old p s = Some s' \<Longrightarrow> pcs s' = pcs s"
  by (auto simp: set_link_def split: option.splits)

lemma list_push_step_todo:
  assumes "list_push_step k t p s = Some s'" "pc_ok k s ps t" "pcs s t \<noteq> Done"
  shows "todo k t (pcs s' t) + 1 = todo k t (pcs s t)" "\<forall>u. u \<noteq> t \<longrightarrow> pcs s' u = pcs s u"
  using assms
  by (auto simp: list_push_step_def pc_ok_def set_link_pcs split: pc.splits if_splits)

subsection \<open>The final list\<close>

lemma print_chain:
  assumes "chain s ps" "pending s = {}"
  shows "l + j = length ps \<Longrightarrow>
    print_items (items s) l (link_of s (before ps j)) = Some (map (\<lambda>p. item_value (the (items s p))) (drop j ps))"
proof (induction l arbitrary: j)
  case (Suc l)
  then have j: "j < length ps" by simp
  have link: "link_of s (before ps j) = Some (ps ! j)" using assms j by (auto simp: chain_def)
  have "items s (ps ! j) \<noteq> None" using assms j by (auto simp: chain_def)
  then obtain it where it: "items s (ps ! j) = Some it" by blast
  have next_is: "item_next it = link_of s (before ps (j + 1))" using it by (simp add: before_def link_of_def)
  have "drop j ps = ps ! j # drop (j + 1) ps" using j by (simp add: Cons_nth_drop_Suc)
  then show ?case using Suc.IH[of "j + 1"] Suc.prems link it next_is by simp
qed simp

lemma destroy_chain:
  assumes "chain s ps" "pending s = {}"
  shows "l + j = length ps \<Longrightarrow> \<forall>q\<in>set (drop j ps). m q = items s q \<Longrightarrow>
    destroy_items m (link_of s (before ps j)) = Some (\<lambda>q. if q \<in> set (drop j ps) then None else m q)"
proof (induction l arbitrary: j m)
  case 0
  then have "link_of s (before ps j) = None" using assms by (auto simp: chain_def)
  then show ?case using 0 by (simp add: destroy_items.simps)
next
  case (Suc l)
  then have j: "j < length ps" by simp
  have link: "link_of s (before ps j) = Some (ps ! j)" using assms j by (auto simp: chain_def)
  have "items s (ps ! j) \<noteq> None" using assms j by (auto simp: chain_def)
  then obtain it where it: "items s (ps ! j) = Some it" by blast
  have next_is: "item_next it = link_of s (before ps (j + 1))" using it by (simp add: before_def link_of_def)
  have dr: "drop j ps = ps ! j # drop (j + 1) ps" using j by (simp add: Cons_nth_drop_Suc)
  have "distinct (drop j ps)" using assms by (simp add: chain_def)
  then have new: "ps ! j \<notin> set (drop (j + 1) ps)" using dr by simp
  have m: "m (ps ! j) = Some it" using Suc.prems(2) dr it by simp
  have "destroy_items (m(ps ! j := None)) (item_next it) =
      Some (\<lambda>q. if q \<in> set (drop (j + 1) ps) then None else (m(ps ! j := None)) q)"
    unfolding next_is
  proof (rule Suc.IH)
    show "l + (j + 1) = length ps" using Suc.prems(1) by simp
    show "\<forall>q\<in>set (drop (j + 1) ps). (m(ps ! j := None)) q = items s q"
      using Suc.prems(2) dr new by auto
  qed
  then show ?case using link m dr by (subst destroy_items.simps) (auto simp: fun_eq_iff)
qed

lemma all_done:
  assumes inv: "list_inv n k s ps" and done_all: "\<forall>t<n. pcs s t = Done"
    and rest: "\<forall>t\<ge>n. pcs s t = Looping (t * k)"
  shows "pending s = {}" "list_size s = length ps" "list_head s = link_of s (before ps 0)"
    "log_reach n k (map (\<lambda>p. item_value (the (items s p))) ps) (\<lambda>t. if t < n then (t + 1) * k else t * k)"
proof -
  have pcs: "pcs s t = (if t < n then Done else Looping (t * k))" for t
    using done_all rest by (simp add: not_less)
  show "pending s = {}" unfolding pending_def pcs by (auto split: if_splits)
  have "(\<Sum>t<n. uncounted (pcs s t)) = 0" using done_all by simp
  then show "list_size s = length ps" using list_invD(4)[OF inv] by simp
  show "list_head s = link_of s (before ps 0)" by (simp add: before_def link_of_def)
  have "(\<lambda>t. reached k t (pcs s t)) = (\<lambda>t. if t < n then (t + 1) * k else t * k)"
    by (simp add: pcs fun_eq_iff)
  then show "log_reach n k (map (\<lambda>p. item_value (the (items s p))) ps) (\<lambda>t. if t < n then (t + 1) * k else t * k)"
    using list_invD(3)[OF inv] by simp
qed

lemma worker_reach_idle: "worker_reach n k s \<Longrightarrow> \<forall>t\<ge>n. pcs s t = Looping (t * k)"
proof (induction rule: worker_reach.induct)
  case created
  then show ?case by (simp add: list_init_def)
next
  case (act s t p s')
  then show ?case
    by (auto simp: list_push_step_def set_link_pcs split: pc.splits if_splits)
qed

definition remaining :: "nat \<Rightarrow> nat \<Rightarrow> list_state \<Rightarrow> nat" where
  "remaining n k s = (\<Sum>t<n. todo k t (pcs s t))"

subsection \<open>Properties\<close>

text \<open>
  C4: Whatever the interleaving, when all threads have ended the printing loop of \<^verbatim>\<open>main\<close> prints every
  value from 0 to \<open>n * k - 1\<close> exactly once, the values of each thread in increasing order, without
  following a null pointer, and \<^verbatim>\<open>list_destroy\<close> ends without touching a freed item.
\<close>

theorem all_values_pushed:
  assumes "worker_reach n k s" and "\<forall>t<n. pcs s t = Done"
  shows "\<exists>xs m. print_items (items s) (list_size s) (list_head s) = Some xs
    \<and> mset xs = mset [0 ..< n * k]
    \<and> (\<forall>t<n. filter (\<lambda>v. v div k = t) xs = [t * k ..< (t + 1) * k])
    \<and> list_destroy s = Some m \<and> list_head m = None \<and> list_size m = 0"
proof -
  obtain ps where inv: "list_inv n k s ps" using worker_reach_inv[OF assms(1)] by blast
  note fin = all_done[OF inv assms(2) worker_reach_idle[OF assms(1)]]
  let ?xs = "map (\<lambda>p. item_value (the (items s p))) ps"
  have ch: "chain s ps" using list_invD(1)[OF inv] .
  have "print_items (items s) (list_size s) (list_head s) = Some ?xs"
    using print_chain[OF ch fin(1), of "length ps" 0] fin(2,3) by simp
  moreover have "mset ?xs = mset [0 ..< n * k]" using log_reach_final[OF fin(4)] by simp
  moreover have "\<forall>t<n. filter (\<lambda>v. v div k = t) ?xs = [t * k ..< (t + 1) * k]"
    using log_reach_inv[OF fin(4)] by simp
  moreover have "\<exists>m. list_destroy s = Some m \<and> list_head m = None \<and> list_size m = 0"
    using destroy_chain[OF ch fin(1), of "length ps" 0 "items s"] fin(3) by (auto simp: list_destroy_def)
  ultimately show ?thesis by blast
qed

text \<open>
  No interleaving stores through a pointer to no item, and no thread waits for another: in every
  reachable state the next action of any thread that has not ended succeeds and takes one off the number
  of remaining actions, which is \<open>n * (4 * k + 1)\<close> at the start and zero only when all have ended.
\<close>

lemma pushes_never_block:
  assumes "worker_reach n k s" and "t < n" and "pcs s t \<noteq> Done" and "items s p = None"
  shows "\<exists>s'. list_push_step k t p s = Some s' \<and> worker_reach n k s'
      \<and> remaining n k s' + 1 = remaining n k s
      \<and> remaining n k (list_init k) = n * (4 * k + 1) \<and> 0 < remaining n k s"
proof -
  obtain ps where inv: "list_inv n k s ps" using worker_reach_inv[OF assms(1)] by blast
  from list_push_step_inv[OF inv assms(2,4)] obtain s' where s': "list_push_step k t p s = Some s'" by blast
  note dec = list_push_step_todo[OF s' list_invD(2)[OF inv] assms(3)]
  have "remaining n k s' + 1 = remaining n k s"
    using sum_move[OF assms(2), of "\<lambda>u. todo k u (pcs s' u)" "\<lambda>u. todo k u (pcs s u)"] dec
    by (simp add: remaining_def)
  moreover have "remaining n k (list_init k) = n * (4 * k + 1)"
    by (simp add: remaining_def list_init_def)
  ultimately show ?thesis using s' worker_reach.act[OF assms(1,2,4) s'] by (metis add_gr_0 zero_less_one)
qed

text \<open>Two threads that push one value each, the second exchange before the first linking.\<close>

fun run_schedule :: "nat \<Rightarrow> (nat \<times> nat) list \<Rightarrow> list_state \<Rightarrow> list_state option" where
  "run_schedule k [] s = Some s"
| "run_schedule k ((t, p) # sch) s =
     (if items s p \<noteq> None then None
      else case list_push_step k t p s of None \<Rightarrow> None | Some s' \<Rightarrow> run_schedule k sch s')"

lemma run_schedule_reach:
  "run_schedule k sch s = Some s' \<Longrightarrow> worker_reach n k s \<Longrightarrow> \<forall>(t, p)\<in>set sch. t < n \<Longrightarrow> worker_reach n k s'"
proof (induction k sch s rule: run_schedule.induct)
  case (2 k t p sch s)
  then show ?case by (auto split: if_splits option.splits intro: worker_reach.act)
qed simp

definition two_threads :: "(nat \<times> nat) list" where
  "two_threads = [(0, 7), (1, 9), (1, 0), (0, 0), (0, 0), (0, 0), (1, 0), (1, 0), (0, 0), (1, 0)]"

lemma two_threads_run:
  "(case run_schedule 1 two_threads (list_init 1) of
      None \<Rightarrow> False
    | Some s \<Rightarrow> worker_reach 2 1 s \<and> (\<forall>t<2. pcs s t = Done)
        \<and> print_items (items s) (list_size s) (list_head s) = Some [1, 0])"
proof -
  have "(case run_schedule 1 two_threads (list_init 1) of None \<Rightarrow> False
      | Some s \<Rightarrow> pcs s 0 = Done \<and> pcs s 1 = Done
        \<and> print_items (items s) (list_size s) (list_head s) = Some [1, 0])"
    by code_simp
  moreover have "\<forall>(t, p)\<in>set two_threads. t < 2" by (simp add: two_threads_def)
  ultimately show ?thesis
    using run_schedule_reach[OF _ worker_reach.created[of 2 1]]
    by (auto simp: less_2_cases_iff split: option.splits)
qed

theorem all_values_pushed_witness:
  "\<exists>s xs. worker_reach 2 1 s \<and> print_items (items s) (list_size s) (list_head s) = Some xs
    \<and> mset xs = {#0, 1#}"
proof -
  obtain s where s: "worker_reach 2 1 s" "\<forall>t<2. pcs s t = Done"
    using two_threads_run by (auto split: option.splits)
  have "mset [0 ..< 2 * 1 :: nat] = {#0, 1#}" by (simp add: numeral_2_eq_2)
  then show ?thesis using all_values_pushed[OF s] s(1) by metis
qed

theorem pushes_never_block_witness: "\<exists>s'. list_push_step 3 1 5 (list_init 3) = Some s'"
  using pushes_never_block[OF worker_reach.created, of 1 2 3 5] by (simp add: list_init_def) blast

end
