(* ===== verification/DnsResolver.thy ===== *)
theory DnsResolver
  imports PrintList
begin

section \<open>udp-dns-resolver: building requests and reading replies\<close>

text \<open>
  \<^verbatim>\<open>inf22-2_posix_sockets_udp-dns-resolver/main.c\<close>.  Buffers are lists of characters of fixed length;
  an access outside of one, or the use of a string without its NUL, is \<open>None\<close>.  The 16-bit fields of
  the packed structures are numbers in memory (little-endian) order, as the program has them before
  \<open>ntohs\<close>.  The network is the function \<open>server\<close>, which maps the bytes sent to the bytes received.

  The theorems relate the encoded question to the labels of the domain name, the request to the format
  of RFC 1035, and the address found in a reply to the first A record of the reply; they also show
  what the 8-bit counter in \<^verbatim>\<open>represent_dns_packet\<close> does to long names.
\<close>

subsection \<open>The structures\<close>

record dns_question =
  q_domain :: "char list"
  q_type :: nat
  q_class :: nat

record dns_answer =
  name_ptr :: nat
  a_type :: nat
  a_class :: nat
  a_ttl :: "char list"
  data_length :: nat
  a_ip :: "char list"

record dns_header =
  transaction_id :: nat
  h_flags :: "nat \<times> nat"
  questions_count :: nat
  answers_count :: nat
  authority :: nat
  additional :: nat

text \<open>A 16-bit field in memory, and the byte swap that \<^verbatim>\<open>htons\<close> and \<^verbatim>\<open>ntohs\<close> are.\<close>

definition bytes16 :: "nat \<Rightarrow> char list" where
  "bytes16 n = [char_of (n mod 256), char_of (n div 256)]"

definition field16 :: "char list \<Rightarrow> nat" where
  "field16 bs = of_char (bs ! 0) + 256 * of_char (bs ! 1)"

definition ntohs :: "nat \<Rightarrow> nat" where
  "ntohs n = (n mod 256) * 256 + n div 256"

definition header_bytes :: "dns_header \<Rightarrow> char list" where
  "header_bytes h = bytes16 (transaction_id h) @ [char_of (fst (h_flags h)), char_of (snd (h_flags h))]
     @ bytes16 (questions_count h) @ bytes16 (answers_count h) @ bytes16 (authority h) @ bytes16 (additional h)"

definition header_of :: "char list \<Rightarrow> dns_header" where
  "header_of bs = \<lparr>transaction_id = field16 bs, h_flags = (of_char (bs ! 2), of_char (bs ! 3)),
     questions_count = field16 (drop 4 bs), answers_count = field16 (drop 6 bs),
     authority = field16 (drop 8 bs), additional = field16 (drop 10 bs)\<rparr>"

definition answer_of :: "char list \<Rightarrow> dns_answer" where
  "answer_of bs = \<lparr>name_ptr = field16 bs, a_type = field16 (drop 2 bs), a_class = field16 (drop 4 bs),
     a_ttl = take 4 (drop 6 bs), data_length = field16 (drop 10 bs), a_ip = take 4 (drop 12 bs)\<rparr>"

subsection \<open>Building the request\<close>

definition build_dns_request :: "nat \<Rightarrow> dns_header" where
  "build_dns_request n = \<lparr>transaction_id = 0, h_flags = (1, 0), questions_count = ntohs n,
     answers_count = 0, authority = 0, additional = 0\<rparr>"

text \<open>\<^verbatim>\<open>strlen(buffer + pos)\<close>.\<close>

definition strlen_at :: "char list \<Rightarrow> nat \<Rightarrow> nat option" where
  "strlen_at buf pos = (if NUL \<in> set (drop pos buf) then Some (length (cstr (drop pos buf))) else None)"

function question_loop ::
  "char list \<Rightarrow> nat \<Rightarrow> nat \<Rightarrow> nat \<Rightarrow> char list \<Rightarrow> char list \<Rightarrow> char list option" where
  "question_loop domain i passed word_len word q =
     (if i \<le> length domain then
        (if i = length domain \<or> domain ! i = CHR ''.'' then
           do { p \<leftarrow> strlen_at q 0;
                q \<leftarrow> copy_to q p [char_of word_len];
                p \<leftarrow> strlen_at q 0;
                q \<leftarrow> copy_to q p (strncpy_bytes word word_len);
                question_loop domain (i + 1) (passed + (word_len + 1)) 0 word q }
         else if passed \<le> i \<and> i - passed < length word
           then question_loop domain (i + 1) passed ((word_len + 1) mod 256) (word[i - passed := domain ! i]) q
           else None)
      else Some q)"
  by pat_completeness auto
termination
  by (relation "measure (\<lambda>(domain, i, passed, word_len, word, q). length domain + 1 - i)") auto

declare question_loop.simps [simp del]

text \<open>\<open>word\<close> is the uninitialised local array of 256 characters.\<close>

definition build_dns_question :: "char list \<Rightarrow> char list \<Rightarrow> dns_question option" where
  "build_dns_question word domain =
     map_option (\<lambda>q. \<lparr>q_domain = q, q_type = ntohs 1, q_class = ntohs 1\<rparr>)
       (question_loop domain 0 0 0 word (replicate 1000 NUL))"

text \<open>\<^verbatim>\<open>elapsed\<close> is a \<^verbatim>\<open>uint8_t\<close>, the length of a domain a \<^verbatim>\<open>uint16_t\<close>.\<close>

primrec represent_questions :: "dns_question list \<Rightarrow> u8 \<Rightarrow> char list \<Rightarrow> (char list \<times> u8) option" where
  "represent_questions [] elapsed buffer = Some (buffer, elapsed)"
| "represent_questions (q # qs) elapsed buffer =
     do { domain_len \<leftarrow> strlen_at (q_domain q) 0;
          buffer \<leftarrow> copy_to buffer (unat elapsed) (cstr (q_domain q) @ [NUL]);
          let elapsed = elapsed + of_nat (domain_len mod 65536 + 1);
          buffer \<leftarrow> copy_to buffer (unat elapsed) (bytes16 (q_type q) @ bytes16 (q_class q));
          represent_questions qs (elapsed + 4) buffer }"

definition represent_dns_packet :: "dns_header \<Rightarrow> dns_question list \<Rightarrow> char list \<Rightarrow> (char list \<times> nat) option" where
  "represent_dns_packet h qs buffer =
     do { buffer \<leftarrow> copy_to buffer 0 (header_bytes h);
          (buffer, elapsed) \<leftarrow> represent_questions (take (ntohs (questions_count h)) qs) 12 buffer;
          Some (buffer, unat elapsed) }"

subsection \<open>Reading the reply\<close>

primrec skip_questions :: "nat \<Rightarrow> nat \<Rightarrow> char list \<Rightarrow> nat option" where
  "skip_questions 0 elapsed buffer = Some elapsed"
| "skip_questions (Suc n) elapsed buffer =
     do { l \<leftarrow> strlen_at buffer elapsed; skip_questions n (elapsed + l + 1 + 4) buffer }"

text \<open>\<open>room\<close> is the number of elements left in the array \<^verbatim>\<open>answers\<close>; \<^verbatim>\<open>elapsed\<close> is a \<^verbatim>\<open>uint32_t\<close>.\<close>

primrec parse_answers :: "nat \<Rightarrow> nat \<Rightarrow> nat \<Rightarrow> char list \<Rightarrow> dns_answer list option" where
  "parse_answers 0 room elapsed buffer = Some []"
| "parse_answers (Suc n) room elapsed buffer =
     (if room = 0 \<or> length buffer < elapsed + 16 then None
      else let a = answer_of (take 16 (drop elapsed buffer));
               elapsed = nat ((int elapsed + (int (ntohs (data_length a)) - 4)) mod 2 ^ 32);
               elapsed = (elapsed + 16) mod 2 ^ 32
           in map_option (\<lambda>as. a # as) (parse_answers n (room - 1) elapsed buffer))"

definition parse_dns_packet :: "nat \<Rightarrow> char list \<Rightarrow> (dns_header \<times> dns_answer list) option" where
  "parse_dns_packet room buffer =
     (if length buffer < 12 then None
      else let h = header_of buffer in
        do { elapsed \<leftarrow> skip_questions (ntohs (questions_count h)) 12 buffer;
             answers \<leftarrow> parse_answers (ntohs (answers_count h)) room elapsed buffer;
             Some (h, answers) })"

text \<open>The address as the four bytes of the answer, zeros when there is none.\<close>

primrec get_ip :: "dns_answer list \<Rightarrow> char list" where
  "get_ip [] = [NUL, NUL, NUL, NUL]"
| "get_ip (a # as) = (if ntohs (a_type a) = 1 then a_ip a else get_ip as)"

text \<open>\<^verbatim>\<open>inet_ntoa\<close> and the copy of its result into \<^verbatim>\<open>ip_str\<close>.\<close>

definition inet_ntoa :: "char list \<Rightarrow> char list" where
  "inet_ntoa ip = dec_digits (of_char (ip ! 0)) @ ''.'' @ dec_digits (of_char (ip ! 1)) @ ''.''
     @ dec_digits (of_char (ip ! 2)) @ ''.'' @ dec_digits (of_char (ip ! 3))"

definition ip_to_str :: "char list \<Rightarrow> char list \<Rightarrow> char list option" where
  "ip_to_str ip_str ip_num =
     do { let tmp = inet_ntoa ip_num;
          s \<leftarrow> copy_to ip_str 0 tmp;
          copy_to s (length tmp) [NUL] }"

text \<open>
  \<open>word\<close>, \<open>buffer\<close> and \<open>ip\<close> are the local arrays with their old contents.  A request that is longer than
  the buffer, or a reply cut off at its 1000 bytes, behaves as \<^verbatim>\<open>sendto\<close> and \<^verbatim>\<open>recvfrom\<close> do.
\<close>

definition resolve_domain ::
  "(char list \<Rightarrow> char list) \<Rightarrow> char list \<Rightarrow> char list \<Rightarrow> char list \<Rightarrow> char list \<Rightarrow> char list option" where
  "resolve_domain server word buffer ip domain =
     do { q \<leftarrow> build_dns_question word domain;
          (buffer, request_size) \<leftarrow> represent_dns_packet (build_dns_request 1) [q] buffer;
          let reply = take (length buffer) (server (take request_size buffer));
          (h, answers) \<leftarrow> parse_dns_packet 10 (overwrite buffer 0 reply);
          ip_to_str ip (get_ip answers) }"

subsection \<open>The encoded name\<close>

text \<open>
  The encoding of a name: every nonempty label preceded by its length.  \<open>name_from w cs\<close> continues with the
  characters \<open>cs\<close> when the characters \<open>w\<close> of the current label have been read.
\<close>

definition label_bytes :: "char list \<Rightarrow> char list" where
  "label_bytes w = (if w = [] then [] else char_of (length w) # w)"

fun name_from :: "char list \<Rightarrow> char list \<Rightarrow> char list" where
  "name_from w [] = label_bytes w"
| "name_from w (c # cs) = (if c = CHR ''.'' then label_bytes w @ name_from [] cs else name_from (w @ [c]) cs)"

fun labels_short :: "nat \<Rightarrow> char list \<Rightarrow> bool" where
  "labels_short l [] = (l < 256)"
| "labels_short l (c # cs) = (if c = CHR ''.'' then l < 256 \<and> labels_short 0 cs else labels_short (l + 1) cs)"

lemma labels_short_bound: "labels_short l cs \<Longrightarrow> l < 256"
  by (induction l cs rule: labels_short.induct) (auto split: if_splits)

text \<open>Names given by their labels.\<close>

fun join_labels :: "char list list \<Rightarrow> char list" where
  "join_labels [] = []"
| "join_labels [l] = l"
| "join_labels (l # ls) = l @ CHR ''.'' # join_labels ls"

definition qname :: "char list list \<Rightarrow> char list" where
  "qname ls = concat (map label_bytes ls)"

lemma name_from_label:
  "CHR ''.'' \<notin> set l \<Longrightarrow> name_from w (l @ cs) = (case cs of [] \<Rightarrow> label_bytes (w @ l) | _ \<Rightarrow> name_from (w @ l) cs)"
  by (induction l arbitrary: w) (auto split: list.splits)

lemma name_from_labels: "\<forall>l\<in>set ls. CHR ''.'' \<notin> set l \<Longrightarrow> name_from [] (join_labels ls) = qname ls"
proof (induction ls rule: join_labels.induct)
  case 1
  then show ?case by (simp add: qname_def label_bytes_def)
next
  case (2 l)
  then show ?case using name_from_label[of l "[]" "[]"] by (simp add: qname_def)
next
  case (3 l l' ls)
  then show ?case using name_from_label[of l "[]" "CHR ''.'' # join_labels (l' # ls)"] by (simp add: qname_def)
qed

lemma labels_short_label:
  "CHR ''.'' \<notin> set l \<Longrightarrow> labels_short n (l @ cs) = (case cs of [] \<Rightarrow> n + length l < 256 | _ \<Rightarrow> labels_short (n + length l) cs)"
  by (induction l arbitrary: n) (auto split: list.splits)

lemma labels_short_labels:
  "\<forall>l\<in>set ls. CHR ''.'' \<notin> set l \<and> length l < 256 \<Longrightarrow> labels_short 0 (join_labels ls)"
proof (induction ls rule: join_labels.induct)
  case (2 l)
  then show ?case using labels_short_label[of l 0 "[]"] by simp
next
  case (3 l l' ls)
  then show ?case using labels_short_label[of l 0 "CHR ''.'' # join_labels (l' # ls)"] by simp
qed simp

lemma char_of_nonzero: "0 < n \<Longrightarrow> n < 256 \<Longrightarrow> char_of n \<noteq> NUL" for n :: nat
proof
  assume "0 < n" "n < 256" "char_of n = NUL"
  then have "(of_char (char_of n) :: nat) = 0" by (simp add: NUL_def)
  then show False using \<open>0 < n\<close> \<open>n < 256\<close> by simp
qed

lemma strlen_padded: "NUL \<notin> set e \<Longrightarrow> length e < n \<Longrightarrow>
  strlen_at (e @ replicate (n - length e) NUL) 0 = Some (length e)"
proof -
  assume e: "NUL \<notin> set e" "length e < n"
  then obtain k where "n - length e = Suc k" by (cases "n - length e") auto
  then show ?thesis using e by (simp add: strlen_at_def)
qed

lemma copy_padded: "length e + length bs \<le> n \<Longrightarrow>
  copy_to (e @ replicate (n - length e) NUL) (length e) bs = Some ((e @ bs) @ replicate (n - length (e @ bs)) NUL)"
  by (simp add: copy_to_def overwrite_def)

lemma char_of_0: "char_of (0 :: nat) = NUL"
  by (simp add: NUL_def char_of_def)

text \<open>Writing one label at the end of the name so far.\<close>

lemma write_label:
  assumes e: "NUL \<notin> set e" and w: "w = take l wb" "l \<le> length wb" "NUL \<notin> set w" "l < 256"
    and fits: "length e + length (label_bytes w) < n"
  shows "do { p \<leftarrow> strlen_at (e @ replicate (n - length e) NUL) 0;
              q \<leftarrow> copy_to (e @ replicate (n - length e) NUL) p [char_of l];
              p \<leftarrow> strlen_at q 0;
              q \<leftarrow> copy_to q p (strncpy_bytes wb l);
              f q } = f ((e @ label_bytes w) @ replicate (n - length (e @ label_bytes w)) NUL)"
proof (cases "l = 0")
  case True
  then have lb: "label_bytes w = []" using w by (simp add: label_bytes_def)
  have len: "length e < n" using fits by simp
  then obtain k where k: "n - length e = Suc k" by (cases "n - length e") auto
  have same: "copy_to (e @ replicate (n - length e) NUL) (length e) [NUL] = Some (e @ replicate (n - length e) NUL)"
    using len by (simp add: copy_to_def overwrite_def k)
  have "copy_to (e @ replicate (n - length e) NUL) (length e) [] = Some (e @ replicate (n - length e) NUL)"
    using len by (simp add: copy_to_def)
  then show ?thesis
    using True strlen_padded[OF e len] same lb by (simp add: char_of_0 strncpy_bytes_def)
next
  case False
  then have lw: "length w = l" "w \<noteq> []" using w by auto
  then have lb: "label_bytes w = char_of l # w" by (simp add: label_bytes_def)
  have c: "char_of l \<noteq> NUL" using char_of_nonzero False w(4) by blast
  let ?e1 = "e @ [char_of l]"
  have l1: "length e < n" "length ?e1 < n" "length ?e1 + length w \<le> n" "length e + 1 \<le> n" using fits lb by auto
  have e1: "NUL \<notin> set ?e1" using e c by auto
  note s1 = strlen_padded[OF e l1(1)] and s2 = strlen_padded[OF e1 l1(2)]
  have c1: "copy_to (e @ replicate (n - length e) NUL) (length e) [char_of l] = Some (?e1 @ replicate (n - length ?e1) NUL)"
    using copy_padded[of e "[char_of l]" n] l1(4) by simp
  have c2: "copy_to (?e1 @ replicate (n - length ?e1) NUL) (length ?e1) w
      = Some ((?e1 @ w) @ replicate (n - length (?e1 @ w)) NUL)"
    using copy_padded[of ?e1 w n] l1(3) by blast
  have cp: "strncpy_bytes wb l = w" using strncpy_plain[of l wb] w by simp
  show ?thesis
    unfolding s1 c1 s2 c2 cp lb Option.bind.bind_lunit by simp
qed

lemma question_loop_name:
  "length domain = i + length cs \<Longrightarrow> drop i domain = cs \<Longrightarrow> NUL \<notin> set domain \<Longrightarrow>
   length word = 256 \<Longrightarrow> take (length w) word = w \<Longrightarrow> NUL \<notin> set w \<Longrightarrow> i = passed + length w \<Longrightarrow>
   labels_short (length w) cs \<Longrightarrow> NUL \<notin> set e \<Longrightarrow> length e + length (name_from w cs) < n \<Longrightarrow>
   question_loop domain i passed (length w) word (e @ replicate (n - length e) NUL)
     = Some ((e @ name_from w cs) @ replicate (n - length (e @ name_from w cs)) NUL)"
proof (induction cs arbitrary: i passed w word e)
  case Nil
  then have i: "i = length domain" "length w < 256" by auto
  have done_loop: "question_loop domain (i + 1) p l wd q = Some q" for p l wd q
    using i by (simp add: question_loop.simps)
  show ?case
    using Nil i write_label[of e w "length w" word n "\<lambda>q. question_loop domain (i + 1) (passed + (length w + 1)) 0 word q"]
      done_loop
    by (subst question_loop.simps) simp
next
  case (Cons c cs)
  have i: "i < length domain" "domain ! i = c" "drop (i + 1) domain = cs"
    using Cons.prems(1,2) by (auto simp: nth_via_drop) (metis drop_Suc tl_drop list.sel(3) Suc_eq_plus1)
  show ?case
  proof (cases "c = CHR ''.''")
    case True
    then have w: "length w < 256" "labels_short (length []) cs" using Cons.prems(8) by auto
    have nul: "NUL \<notin> set (e @ label_bytes w)"
      using Cons.prems(6,9) char_of_nonzero[of "length w"] w(1) by (auto simp: label_bytes_def)
    have fits: "length e + length (label_bytes w) < n"
      "length (e @ label_bytes w) + length (name_from [] cs) < n" using Cons.prems(10) True by auto
    have IH: "question_loop domain (i + 1) (passed + (length w + 1)) (length ([] :: char list)) word
        ((e @ label_bytes w) @ replicate (n - length (e @ label_bytes w)) NUL)
      = Some (((e @ label_bytes w) @ name_from [] cs) @ replicate (n - length ((e @ label_bytes w) @ name_from [] cs)) NUL)"
      by (rule Cons.IH[where w = "[]" and e = "e @ label_bytes w"]) (use Cons.prems i w nul fits in auto)
    have "question_loop domain i passed (length w) word (e @ replicate (n - length e) NUL)
      = question_loop domain (i + 1) (passed + (length w + 1)) 0 word
        ((e @ label_bytes w) @ replicate (n - length (e @ label_bytes w)) NUL)"
      using write_label[of e w "length w" word n "\<lambda>q. question_loop domain (i + 1) (passed + (length w + 1)) 0 word q"]
        i True Cons.prems w fits by (subst question_loop.simps) simp
    then show ?thesis using IH True by simp
  next
    case False
    then have "labels_short (length w + 1) cs" using Cons.prems(8) by simp
    then have lw: "labels_short (length (w @ [c])) cs" "length w + 1 < 256"
      using labels_short_bound[of "length w + 1" cs] by simp_all
    have c: "c \<noteq> NUL" using Cons.prems(3) i(1,2) by (metis nth_mem)
    have "take (length (w @ [c])) (word[length w := c]) = w @ [c]"
      using Cons.prems(4,5) lw(2) by (simp add: take_Suc_conv_app_nth)
    then have IH: "question_loop domain (i + 1) passed (length (w @ [c])) (word[length w := c])
        (e @ replicate (n - length e) NUL)
      = Some ((e @ name_from (w @ [c]) cs) @ replicate (n - length (e @ name_from (w @ [c]) cs)) NUL)"
      by (intro Cons.IH[where w = "w @ [c]"]) (use Cons.prems i lw c False in auto)
    have "question_loop domain i passed (length w) word (e @ replicate (n - length e) NUL)
      = question_loop domain (i + 1) passed (length (w @ [c])) (word[length w := c]) (e @ replicate (n - length e) NUL)"
      using i False Cons.prems(4,7) lw(2) by (subst question_loop.simps) simp
    then show ?thesis using IH False by simp
  qed
qed

lemma build_dns_question_name:
  assumes "NUL \<notin> set domain" "labels_short 0 domain" "length (name_from [] domain) < 1000" "length word = 256"
  shows "build_dns_question word domain = Some \<lparr>
    q_domain = name_from [] domain @ replicate (1000 - length (name_from [] domain)) NUL,
    q_type = ntohs 1, q_class = ntohs 1\<rparr>"
  using question_loop_name[of domain 0 domain word "[]" 0 "[]" 1000] assms
  by (simp add: build_dns_question_def)

lemma NUL_notin_name: "NUL \<notin> set w \<Longrightarrow> NUL \<notin> set cs \<Longrightarrow> labels_short (length w) cs \<Longrightarrow> NUL \<notin> set (name_from w cs)"
proof (induction w cs rule: name_from.induct)
  case (1 w)
  then show ?case using char_of_nonzero[of "length w"] by (auto simp: label_bytes_def)
next
  case (2 w c cs)
  show ?case
  proof (cases "c = CHR ''.''")
    case True
    then show ?thesis using 2 char_of_nonzero[of "length w"] by (auto simp: label_bytes_def)
  next
    case False
    then show ?thesis using 2 by auto
  qed
qed

subsection \<open>The request\<close>

definition request_bytes :: "char list \<Rightarrow> char list" where
  "request_bytes nm = header_bytes (build_dns_request 1) @ nm @ [NUL] @ bytes16 (ntohs 1) @ bytes16 (ntohs 1)"

lemma length_bytes16 [simp]: "length (bytes16 n) = 2"
  by (simp add: bytes16_def)

lemma length_header_bytes [simp]: "length (header_bytes h) = 12"
  by (simp add: header_bytes_def)

lemma unat_u8: "unat (of_nat n :: u8) = n mod 256"
  by (simp add: unat_of_nat take_bit_eq_mod)

lemma represent_request:
  assumes nm: "NUL \<notin> set nm" "length nm \<le> 980" and buf: "length buffer = 1000"
  shows "\<exists>b. represent_dns_packet (build_dns_request 1)
      [\<lparr>q_domain = nm @ replicate (1000 - length nm) NUL, q_type = ntohs 1, q_class = ntohs 1\<rparr>] buffer
      = Some (b, (length nm + 17) mod 256) \<and> length b = 1000
      \<and> (length nm < 239 \<longrightarrow> b = overwrite buffer 0 (request_bytes nm))"
proof -
  let ?h = "header_bytes (build_dns_request 1)" and ?q = "nm @ replicate (1000 - length nm) NUL"
  let ?f = "bytes16 (ntohs 1) @ bytes16 (ntohs 1)"
  let ?b0 = "overwrite buffer 0 ?h" and ?e1 = "(12 :: u8) + of_nat (length nm mod 65536 + 1)"
  let ?b1 = "overwrite ?b0 12 (nm @ [NUL])"
  let ?b2 = "overwrite ?b1 (unat ?e1) ?f"
  have one: "ntohs (questions_count (build_dns_request 1)) = 1"
    by (simp add: build_dns_request_def ntohs_def)
  have sl: "strlen_at ?q 0 = Some (length nm)" using strlen_padded[OF nm(1)] nm(2) by simp
  have cs: "cstr ?q = nm"
  proof -
    obtain k where "1000 - length nm = Suc k" using nm(2) by (cases "1000 - length nm") auto
    then show ?thesis using nm(1) by simp
  qed
  have l0: "length ?b0 = 1000" using buf by (subst length_overwrite) auto
  have l1: "length ?b1 = 1000" using l0 nm by (subst length_overwrite) auto
  have e1_nat: "?e1 = of_nat (length nm + 13)" using nm(2) by (simp add: add.commute)
  have e1: "unat ?e1 = (length nm + 13) mod 256" unfolding e1_nat by (rule unat_u8)
  have l2: "length ?b2 = 1000" using l1 e1 by (subst length_overwrite) auto
  have e2: "unat (?e1 + 4) = (length nm + 17) mod 256"
  proof -
    have "?e1 + 4 = of_nat (length nm + 17)" unfolding e1_nat by simp
    then show ?thesis by (simp only: unat_u8)
  qed
  have c0: "copy_to buffer 0 ?h = Some ?b0" using buf by (simp add: copy_to_def)
  have c1: "copy_to ?b0 (unat (12 :: u8)) (nm @ [NUL]) = Some ?b1"
    using l0 nm by (simp add: copy_to_def)
  have c2: "copy_to ?b1 (unat ?e1) ?f = Some ?b2" using l1 e1 by (simp add: copy_to_def)
  have "represent_dns_packet (build_dns_request 1) [\<lparr>q_domain = ?q, q_type = ntohs 1, q_class = ntohs 1\<rparr>] buffer
      = Some (?b2, (length nm + 17) mod 256)"
    using c0 c1 c2 sl cs one e2 by (simp add: represent_dns_packet_def Let_def)
  moreover have "?b2 = overwrite buffer 0 (request_bytes nm)" if "length nm < 239"
  proof -
    have "unat ?e1 = 0 + length (?h @ nm @ [NUL])" using e1 that by simp
    moreover have "?b1 = overwrite buffer 0 (?h @ nm @ [NUL])"
      using overwrite_append[of 0 buffer ?h "nm @ [NUL]"] by simp
    ultimately show ?thesis
      using overwrite_append[of 0 buffer "?h @ nm @ [NUL]" ?f] by (simp add: request_bytes_def)
  qed
  ultimately show ?thesis using l2 by blast
qed

subsection \<open>The reply\<close>

record resource =
  rr_name :: "char list"
  rr_type :: nat
  rr_mid :: "char list"
  rr_data :: "char list"

text \<open>A resource record with a compressed name; a 16-bit number in network order is \<open>bytes16\<close> of its swap.\<close>

definition rr_bytes :: "resource \<Rightarrow> char list" where
  "rr_bytes r = rr_name r @ bytes16 (ntohs (rr_type r)) @ rr_mid r @ bytes16 (ntohs (length (rr_data r))) @ rr_data r"

definition rr_ok :: "resource \<Rightarrow> bool" where
  "rr_ok r \<longleftrightarrow> length (rr_name r) = 2 \<and> length (rr_mid r) = 6 \<and> rr_type r < 65536 \<and> length (rr_data r) < 65536
     \<and> (rr_type r = 1 \<longrightarrow> length (rr_data r) = 4)"

fun first_address :: "resource list \<Rightarrow> char list" where
  "first_address [] = [NUL, NUL, NUL, NUL]"
| "first_address (r # rs) = (if rr_type r = 1 then rr_data r else first_address rs)"

lemma ntohs_ntohs: "n < 65536 \<Longrightarrow> ntohs (ntohs n) = n"
  by (simp add: ntohs_def)

lemma field16_bytes16: "n < 65536 \<Longrightarrow> field16 (bytes16 n @ bs) = n"
  by (simp add: field16_def bytes16_def)

lemma ntohs_less: "n < 65536 \<Longrightarrow> ntohs n < 65536"
  unfolding ntohs_def by linarith

lemma parse_answers_resources:
  "drop elapsed buffer = concat (map rr_bytes rs) @ tl4 \<Longrightarrow> 4 \<le> length tl4 \<Longrightarrow> \<forall>r\<in>set rs. rr_ok r \<Longrightarrow>
   length rs \<le> room \<Longrightarrow> length buffer = 1000 \<Longrightarrow> 12 \<le> elapsed \<Longrightarrow>
   \<exists>answers. parse_answers (length rs) room elapsed buffer = Some answers \<and> get_ip answers = first_address rs"
proof (induction rs arbitrary: elapsed room)
  case (Cons r rs)
  have ok: "length (rr_name r) = 2" "length (rr_mid r) = 6" "rr_type r < 65536" "length (rr_data r) < 65536"
    "rr_type r = 1 \<longrightarrow> length (rr_data r) = 4" using Cons.prems(3) by (auto simp: rr_ok_def)
  define T where "T = concat (map rr_bytes rs) @ tl4"
  let ?n = "length (rr_data r)"
  let ?a = "answer_of (take 16 (drop elapsed buffer))"
  have d: "drop elapsed buffer = rr_name r @ bytes16 (ntohs (rr_type r)) @ rr_mid r @ bytes16 (ntohs ?n) @ rr_data r @ T"
    using Cons.prems(1) by (simp add: rr_bytes_def[of r] T_def)
  have len: "length buffer - elapsed = 12 + ?n + length T"
    using arg_cong[OF d, of length] ok by simp
  have tail: "4 \<le> length T" using Cons.prems(2) by (simp add: T_def)
  have room: "elapsed + 16 \<le> length buffer" using len tail by linarith
  have ty: "a_type ?a = ntohs (rr_type r)" and dl: "data_length ?a = ntohs ?n"
    and ip: "a_ip ?a = take 4 (rr_data r @ T)"
    using ok field16_bytes16[OF ntohs_less] tail
    by (simp_all add: d answer_of_def min_def)
  have nx: "((nat ((int elapsed + (int (ntohs (data_length ?a)) - 4)) mod 2 ^ 32) + 16) mod 2 ^ 32) = elapsed + 12 + ?n"
  proof -
    have "0 \<le> int elapsed + (int ?n - 4)" "int elapsed + (int ?n - 4) < 2 ^ 32"
      using Cons.prems(5,6) len by auto
    then have "nat ((int elapsed + (int ?n - 4)) mod 2 ^ 32) = elapsed + ?n - 4"
      using Cons.prems(6) by simp
    then show ?thesis using dl ntohs_ntohs[OF ok(4)] Cons.prems(5,6) len by simp
  qed
  have dn: "drop (elapsed + 12 + ?n) buffer = T"
  proof -
    have "drop (elapsed + 12 + ?n) buffer = drop (12 + ?n) (drop elapsed buffer)" by (simp add: add.commute add.left_commute)
    then show ?thesis using ok by (simp add: d)
  qed
  have left: "length rs \<le> room - 1" using Cons.prems(4) by (cases room) auto
  obtain answers where IH: "parse_answers (length rs) (room - 1) (elapsed + 12 + ?n) buffer = Some answers"
    "get_ip answers = first_address rs"
    using Cons.IH[OF dn[unfolded T_def] Cons.prems(2), of "room - 1"] Cons.prems(3,5,6) left by auto
  have "parse_answers (length (r # rs)) room elapsed buffer = Some (?a # answers)"
    using room Cons.prems(4) IH(1) nx by (simp add: Let_def)
  moreover have "get_ip (?a # answers) = first_address (r # rs)"
    using IH(2) ty ip ok ntohs_ntohs[OF ok(3)] by simp
  ultimately show ?case by blast
qed simp

lemma header_of_counts:
  assumes "questions_count h < 65536" "answers_count h < 65536"
  shows "questions_count (header_of (header_bytes h @ bs)) = questions_count h"
    "answers_count (header_of (header_bytes h @ bs)) = answers_count h"
  using assms by (simp_all add: header_of_def header_bytes_def bytes16_def field16_def)

definition reply_bytes :: "dns_header \<Rightarrow> char list \<Rightarrow> char list \<Rightarrow> resource list \<Rightarrow> char list" where
  "reply_bytes h nm flags rs = header_bytes h @ nm @ [NUL] @ flags @ concat (map rr_bytes rs)"

lemma parse_reply:
  assumes h: "questions_count h = ntohs 1" "answers_count h = ntohs (length rs)"
    and nm: "NUL \<notin> set nm" and flags: "length flags = 4"
    and rs: "\<forall>r\<in>set rs. rr_ok r" "length rs \<le> 10"
    and buffer: "buffer = reply_bytes h nm flags rs @ old" "length buffer = 1000" "4 \<le> length old"
  shows "\<exists>answers. parse_dns_packet 10 buffer = Some (header_of buffer, answers) \<and> get_ip answers = first_address rs"
proof -
  let ?rest = "concat (map rr_bytes rs) @ old"
  have counts: "questions_count (header_of buffer) = ntohs 1" "answers_count (header_of buffer) = ntohs (length rs)"
    using header_of_counts[of h "nm @ [NUL] @ flags @ ?rest"] h ntohs_less[of 1] ntohs_less[of "length rs"] rs(2) buffer(1)
    by (simp_all add: reply_bytes_def)
  have d12: "drop 12 buffer = nm @ NUL # flags @ ?rest"
    by (simp add: buffer(1) reply_bytes_def)
  then have sl: "strlen_at buffer 12 = Some (length nm)" using nm by (simp add: strlen_at_def)
  have "drop (12 + (length nm + 5)) buffer = drop (length nm + 5) (drop 12 buffer)" by (simp add: add.commute)
  also have "\<dots> = ?rest" using flags by (simp add: d12)
  finally have dr: "drop (12 + length nm + 1 + 4) buffer = ?rest" by (simp add: ac_simps)
  have skip: "skip_questions 1 12 buffer = Some (12 + length nm + 1 + 4)"
    using sl by simp
  obtain answers where a: "parse_answers (length rs) 10 (12 + length nm + 1 + 4) buffer = Some answers"
    "get_ip answers = first_address rs"
    using parse_answers_resources[OF dr buffer(3) rs buffer(2)] by auto
  show ?thesis
    using skip a counts buffer(2) ntohs_ntohs[of 1] ntohs_ntohs[of "length rs"] rs(2)
    by (simp add: parse_dns_packet_def Let_def del: skip_questions.simps)
qed

lemma inet_ntoa_length: "length (inet_ntoa ip) \<le> 15"
proof -
  have "(of_char c :: nat) = of_char c mod 256" for c by (metis char_of_char of_char_of)
  then have small: "(of_char c :: nat) < 256" for c by (metis mod_less_divisor zero_less_numeral)
  have "length (dec_digits (of_char c)) \<le> 3" for c
    using length_dec_digits[of "of_char c" 3] small[of c] less_trans[of "of_char c :: nat" 256 "10 ^ 3"] by simp
  from this[of "ip ! 0"] this[of "ip ! 1"] this[of "ip ! 2"] this[of "ip ! 3"]
  show ?thesis by (simp add: inet_ntoa_def)
qed

lemma inet_ntoa_no_NUL: "NUL \<notin> set (inet_ntoa ip)"
proof -
  have "NUL \<notin> set (dec_digits n)" for n
    using dec_digits_are_digits[of n] by (auto simp: is_digit_def NUL_def)
  then show ?thesis by (simp add: inet_ntoa_def NUL_def)
qed

lemma ip_to_str_copies:
  assumes "16 \<le> length s"
  shows "\<exists>s'. ip_to_str s ip = Some s' \<and> cstr s' = inet_ntoa ip"
proof -
  let ?t = "inet_ntoa ip"
  have l: "length ?t + 1 \<le> length s" using assms inet_ntoa_length[of ip] by simp
  have "copy_to s 0 ?t = Some (overwrite s 0 ?t)" using l by (simp add: copy_to_def)
  moreover have "copy_to (overwrite s 0 ?t) (length ?t) [NUL] = Some (overwrite s 0 (?t @ [NUL]))"
    using l overwrite_append[of 0 s ?t "[NUL]"] by (simp add: copy_to_def)
  moreover have "cstr (overwrite s 0 (?t @ [NUL])) = ?t"
    using inet_ntoa_no_NUL[of ip] by (simp add: overwrite_def)
  ultimately show ?thesis by (simp add: ip_to_str_def Let_def)
qed

subsection \<open>Properties\<close>

text \<open>
  For a domain name given by labels of less than 256 characters, without dots or NULs, whose encoding
  fits, \<^verbatim>\<open>build_dns_question\<close> stores exactly the encoding of RFC 1035: each nonempty label preceded by its
  length, ended by a zero byte; the question asks for an A record of class IN.
\<close>

lemma build_dns_question_encodes:
  assumes "\<forall>l\<in>set ls. CHR ''.'' \<notin> set l \<and> NUL \<notin> set l \<and> length l < 256"
    and "length (qname ls) < 1000" and "length word = 256"
  shows "\<exists>q. build_dns_question word (join_labels ls) = Some q \<and> length (q_domain q) = 1000
    \<and> cstr (q_domain q) = qname ls \<and> ntohs (q_type q) = 1 \<and> ntohs (q_class q) = 1"
proof -
  have nul: "NUL \<notin> set (join_labels ls)" using assms(1)
    by (induction ls rule: join_labels.induct) (auto simp: NUL_def)
  have nm: "name_from [] (join_labels ls) = qname ls" using name_from_labels assms(1) by blast
  have short: "labels_short 0 (join_labels ls)" using labels_short_labels assms(1) by blast
  have nq: "NUL \<notin> set (qname ls)" using NUL_notin_name[of "[]" "join_labels ls"] nul short nm by simp
  obtain k where "1000 - length (qname ls) = Suc k" using assms(2) by (cases "1000 - length (qname ls)") auto
  then have "cstr (qname ls @ replicate (1000 - length (qname ls)) NUL) = qname ls" using nq by simp
  then show ?thesis
    using build_dns_question_name[OF nul short _ assms(3)] nm assms(2) ntohs_ntohs[of 1] by simp
qed

text \<open>
  The request of a name with an encoding of less than 239 bytes is the header, the name and the two
  flags.  For a longer one the 8-bit counter wraps around, and the reported size is too small.
\<close>

lemma request_size_wraps:
  assumes "NUL \<notin> set nm" and "length nm \<le> 980" and "length buffer = 1000"
  shows "\<exists>b. represent_dns_packet (build_dns_request 1)
      [\<lparr>q_domain = nm @ replicate (1000 - length nm) NUL, q_type = ntohs 1, q_class = ntohs 1\<rparr>] buffer
      = Some (b, (length nm + 17) mod 256)
      \<and> (length nm < 239 \<longrightarrow> take (length nm + 17) b = request_bytes nm \<and> (length nm + 17) mod 256 = length nm + 17)
      \<and> (239 \<le> length nm \<longrightarrow> (length nm + 17) mod 256 < length nm)"
proof -
  from represent_request[OF assms] obtain b where b:
    "represent_dns_packet (build_dns_request 1)
      [\<lparr>q_domain = nm @ replicate (1000 - length nm) NUL, q_type = ntohs 1, q_class = ntohs 1\<rparr>] buffer
      = Some (b, (length nm + 17) mod 256)"
    "length nm < 239 \<Longrightarrow> b = overwrite buffer 0 (request_bytes nm)" by blast
  have "length (request_bytes nm) = length nm + 17" by (simp add: request_bytes_def)
  then have "length nm < 239 \<longrightarrow> take (length nm + 17) b = request_bytes nm"
    using b(2) by (simp add: overwrite_def)
  moreover have "239 \<le> length nm \<longrightarrow> (length nm + 17) mod 256 < length nm"
    using mod_less_divisor[of 256 "length nm + 17"] by (cases "length nm < 256") (auto simp: mod_if)
  ultimately show ?thesis using b(1) by auto
qed

text \<open>
  If the server answers the request with a well-formed reply of at most ten records with compressed
  names, \<^verbatim>\<open>resolve_domain\<close> leaves in \<^verbatim>\<open>ip\<close> the dotted form of the address in the first A record, whatever
  other records come before it, and 0.0.0.0 when there is none.
\<close>

lemma resolve_domain_finds_address:
  assumes "\<forall>l\<in>set ls. CHR ''.'' \<notin> set l \<and> NUL \<notin> set l \<and> length l < 256"
    and "length (qname ls) < 239" and "length word = 256" and "length buffer = 1000" and "16 \<le> length ip"
    and "server (request_bytes (qname ls)) = reply_bytes h (qname ls) flags rs"
    and "questions_count h = ntohs 1" and "answers_count h = ntohs (length rs)" and "length flags = 4"
    and "\<forall>r\<in>set rs. rr_ok r" and "length rs \<le> 10" and "length (reply_bytes h (qname ls) flags rs) \<le> 996"
  shows "\<exists>ip'. resolve_domain server word buffer ip (join_labels ls) = Some ip'
    \<and> cstr ip' = inet_ntoa (first_address rs)"
proof -
  let ?nm = "qname ls" and ?reply = "reply_bytes h (qname ls) flags rs"
  let ?q = "\<lparr>q_domain = ?nm @ replicate (1000 - length ?nm) NUL, q_type = ntohs 1, q_class = ntohs 1\<rparr>"
  have nul: "NUL \<notin> set (join_labels ls)" using assms(1)
    by (induction ls rule: join_labels.induct) (auto simp: NUL_def)
  have nm: "name_from [] (join_labels ls) = ?nm" using name_from_labels assms(1) by blast
  have short: "labels_short 0 (join_labels ls)" using labels_short_labels assms(1) by blast
  have nq: "NUL \<notin> set ?nm" using NUL_notin_name[of "[]" "join_labels ls"] nul short nm by simp
  have q: "build_dns_question word (join_labels ls) = Some ?q"
    using build_dns_question_name[OF nul short _ assms(3)] nm assms(2) by simp
  have len: "length (request_bytes ?nm) = length ?nm + 17" by (simp add: request_bytes_def)
  let ?b = "overwrite buffer 0 (request_bytes ?nm)"
  have rep: "represent_dns_packet (build_dns_request 1) [?q] buffer = Some (?b, length ?nm + 17)"
    using represent_request[OF nq _ assms(4)] assms(2) by auto
  have lb: "length ?b = 1000" using assms(2,4) len by (subst length_overwrite) auto
  have sent: "take (length ?nm + 17) ?b = request_bytes ?nm" using len by (simp add: overwrite_def)
  have buf: "overwrite ?b 0 ?reply = ?reply @ drop (length ?reply) ?b" by (simp add: overwrite_def)
  have slack: "length (?reply @ drop (length ?reply) ?b) = 1000" "4 \<le> length (drop (length ?reply) ?b)"
    using assms(12) lb by simp_all
  obtain answers where p: "parse_dns_packet 10 (overwrite ?b 0 ?reply) = Some (header_of (overwrite ?b 0 ?reply), answers)"
    "get_ip answers = first_address rs"
    using parse_reply[OF assms(7,8) nq assms(9-11) buf _ slack(2)] slack(1) buf by auto
  obtain s where "ip_to_str ip (first_address rs) = Some s" "cstr s = inet_ntoa (first_address rs)"
    using ip_to_str_copies[OF assms(5)] by blast
  then show ?thesis
    using q rep lb sent p assms(6,12) by (simp add: resolve_domain_def Let_def)
qed

theorem build_dns_question_encodes_witness:
  "\<exists>q. build_dns_question (replicate 256 CHR ''x'') ''mipt.ru'' = Some q \<and> cstr (q_domain q) = CHR 0x04 # ''mipt'' @ CHR 0x02 # ''ru''"
proof -
  have "qname [''mipt'', ''ru''] = CHR 0x04 # ''mipt'' @ CHR 0x02 # ''ru''" by code_simp
  then show ?thesis
    using build_dns_question_encodes[of "[''mipt'', ''ru'']" "replicate 256 CHR ''x''"] by (auto simp: NUL_def)
qed

theorem request_size_wraps_witness:
  "\<exists>b. represent_dns_packet (build_dns_request 1)
    [\<lparr>q_domain = replicate 240 CHR ''a'' @ replicate 760 NUL, q_type = ntohs 1, q_class = ntohs 1\<rparr>] (replicate 1000 NUL)
    = Some (b, 1)"
  using request_size_wraps[of "replicate 240 CHR ''a''" "replicate 1000 NUL"] by (auto simp: NUL_def)

theorem resolve_domain_finds_address_witness:
  "\<exists>ip'. resolve_domain
     (\<lambda>_. reply_bytes ((build_dns_request 1)\<lparr>answers_count := ntohs 1\<rparr>) (qname [''ru'']) ''qqqq''
        [\<lparr>rr_name = ''nn'', rr_type = 1, rr_mid = ''cctttt'', rr_data = [CHR 0x08, CHR 0x08, CHR 0x04, CHR 0x04]\<rparr>])
     (replicate 256 NUL) (replicate 1000 NUL) (replicate 100 NUL) ''ru'' = Some ip' \<and> cstr ip' = ''8.8.4.4''"
proof -
  have a: "inet_ntoa [CHR 0x08, CHR 0x08, CHR 0x04, CHR 0x04] = ''8.8.4.4''" by code_simp
  have b: "length (qname [''ru'']) = 3" by code_simp
  show ?thesis
    using resolve_domain_finds_address[of "[''ru'']" "replicate 256 NUL" "replicate 1000 NUL" "replicate 100 NUL"
        "\<lambda>_. reply_bytes ((build_dns_request 1)\<lparr>answers_count := ntohs 1\<rparr>) (qname [''ru'']) ''qqqq''
        [\<lparr>rr_name = ''nn'', rr_type = 1, rr_mid = ''cctttt'', rr_data = [CHR 0x08, CHR 0x08, CHR 0x04, CHR 0x04]\<rparr>]"
        "(build_dns_request 1)\<lparr>answers_count := ntohs 1\<rparr>" "''qqqq''"
        "[\<lparr>rr_name = ''nn'', rr_type = 1, rr_mid = ''cctttt'', rr_data = [CHR 0x08, CHR 0x08, CHR 0x04, CHR 0x04]\<rparr>]"]
      a b by (simp add: rr_ok_def reply_bytes_def rr_bytes_def build_dns_request_def NUL_def)
qed

end
