(* ===== verification/HttpServer.thy ===== *)
theory HttpServer
  imports PrintList
begin

section \<open>http-server-1: a file server for GET requests\<close>

text \<open>
  \<^verbatim>\<open>inf16-1_posix_sockets_http-server-1/main.c\<close>.  A client is a descriptor to read from and one to
  write to, as in \<open>PosixIO\<close>; the file system is the pair of the functions \<^verbatim>\<open>stat\<close> and \<^verbatim>\<open>open\<close>.  A write
  outside of an array is \<open>None\<close>.  The number \<open>free\<close> of descriptors that the process may still open is part of the
  state, because \<^verbatim>\<open>make_response\<close> does not close the file that it opens.  The theorems follow a request: reading it, parsing its head, the
  response, the whole handling, and the loop that accepts clients until a signal stops it.
\<close>

definition MAX_FILENAME_LEN :: nat where "MAX_FILENAME_LEN = 300"
definition MAX_FILEPATH_LEN :: nat where "MAX_FILEPATH_LEN = 500"
definition MAX_REQUEST_LEN :: nat where "MAX_REQUEST_LEN = 5000"

definition crlf :: "char list" where
  "crlf = [CHR 0x0D, CHR 0x0A]"

subsection \<open>Reading the request\<close>

function request_loop :: "char source \<Rightarrow> char list \<Rightarrow> nat \<Rightarrow> int \<times> char list \<times> char source" where
  "request_loop sock request_text bytes_read =
     (case sys_read sock 512 of (curr_bytes_read, bs, sock') \<Rightarrow>
        if 0 < curr_bytes_read then
          (if MAX_REQUEST_LEN - 2 < bytes_read + nat curr_bytes_read then (- 1, request_text, sock')
           else let request_text = overwrite request_text bytes_read (strncpy_bytes (bs @ [NUL]) (nat curr_bytes_read));
                    bytes_read = bytes_read + nat curr_bytes_read
                in if 4 \<le> bytes_read \<and> slice (bytes_read - 4) bytes_read request_text = crlf @ crlf
                   then (int bytes_read, request_text[bytes_read := NUL], sock')
                   else request_loop sock' request_text bytes_read)
        else if curr_bytes_read = - 1 then (- 1, request_text, sock')
        else (int bytes_read, request_text[bytes_read := NUL], sock'))"
  by pat_completeness auto
termination
  by (relation "measure (\<lambda>(sock, request_text, bytes_read). length (rest sock))")
    (auto dest!: sys_read_decreases[OF sym])

declare request_loop.simps [simp del]

definition read_request :: "char source \<Rightarrow> char list \<Rightarrow> int \<times> char list \<times> char source" where
  "read_request sock request_text = request_loop sock request_text 0"

subsection \<open>The head of the request\<close>

text \<open>
  \<^verbatim>\<open>strtok\<close>: the next token of the string and what remains after it; \<open>begins\<close> is
  \<^verbatim>\<open>strncmp(word, token, n) == 0\<close> for the length \<^verbatim>\<open>n\<close> of the word.
\<close>

definition strtok :: "char list \<Rightarrow> char list \<Rightarrow> char list option \<times> char list" where
  "strtok delims s =
     (let s = dropWhile (\<lambda>c. c \<in> set delims) s in
      if s = [] then (None, [])
      else (Some (takeWhile (\<lambda>c. c \<notin> set delims) s), drop 1 (dropWhile (\<lambda>c. c \<notin> set delims) s)))"

definition begins :: "char list \<Rightarrow> char list \<Rightarrow> bool" where
  "begins word token \<longleftrightarrow> take (length word) token = word"

text \<open>The status and the file name; the name is copied into an array of \<^verbatim>\<open>MAX_FILENAME_LEN\<close>.\<close>

definition read_request_head :: "char list \<Rightarrow> (int \<times> char list) option" where
  "read_request_head request_text =
     (case strtok '' '' (cstr request_text) of (token, s1) \<Rightarrow>
        if token = None \<or> \<not> begins ''GET'' (the token) then Some (- 1, [])
        else case strtok '' '' s1 of (filename, s2) \<Rightarrow>
          if filename = None \<or> length (the filename) \<le> 1 then Some (- 1, [])
          else case strtok ('' '' @ crlf) s2 of (protocol, s3) \<Rightarrow>
            if protocol = None \<or> \<not> begins ''HTTP/1.1'' (the protocol) then Some (- 1, [])
            else if length (the filename) + 1 \<le> MAX_FILENAME_LEN then Some (0, the filename)
            else None)"

subsection \<open>The response\<close>

function write_all :: "char sink \<Rightarrow> char list \<Rightarrow> nat \<Rightarrow> int \<times> char sink" where
  "write_all fd t written =
     (case sys_write fd (drop written t) of (curr_written, fd') \<Rightarrow>
        if 0 < curr_written then
          (if written + nat curr_written = length t then (int (length t), fd')
           else write_all fd' t (written + nat curr_written))
        else if curr_written = 0 then (int (length t), fd')
        else (- 1, fd'))"
  by pat_completeness auto
termination
  by (relation "measure (\<lambda>(fd, t, written). length t - written)")
    (auto dest!: sys_write_bound[OF sym])

declare write_all.simps [simp del]

definition append_text :: "char sink \<Rightarrow> char list \<Rightarrow> char sink" where
  "append_text fd t = snd (write_all fd t 0)"

text \<open>\<open>None\<close> for the source is the descriptor \<open>-1\<close>, from which every \<^verbatim>\<open>read\<close> fails.\<close>

function copy_file :: "char sink \<Rightarrow> char source option \<Rightarrow> int \<times> char sink" where
  "copy_file dest src =
     (case src of
        None \<Rightarrow> (- 1, dest)
      | Some src \<Rightarrow>
          (case sys_read src 1024 of (curr_read, buffer, src') \<Rightarrow>
             if 0 < curr_read then
               (case write_all dest buffer 0 of (status, dest') \<Rightarrow>
                  if status = - 1 then (- 1, dest') else copy_file dest' (Some src'))
             else if curr_read = 0 then (0, dest)
             else (- 1, dest)))"
  by pat_completeness auto
termination
  by (relation "measure (\<lambda>(dest, src). case src of None \<Rightarrow> 0 | Some s \<Rightarrow> length (rest s))")
    (auto dest!: sys_read_decreases[OF sym])

declare copy_file.simps [simp del]

record file_info =
  st_readable :: bool
  st_executable :: bool
  st_size :: int

datatype stat_result = NotFound | StatFailed | Exists file_info

text \<open>What the program sees of the file system: \<^verbatim>\<open>stat\<close>, and \<^verbatim>\<open>open\<close> for reading.\<close>

record file_system =
  stat_file :: "char list \<Rightarrow> stat_result"
  open_file :: "char list \<Rightarrow> char source option"

text \<open>\<^verbatim>\<open>open\<close> with \<open>free\<close> descriptors left: the descriptor and how many are left then.\<close>

definition open_fd :: "file_system \<Rightarrow> nat \<Rightarrow> char list \<Rightarrow> char source option \<times> nat" where
  "open_fd fs free filepath =
     (if free = 0 then (None, 0)
      else case open_file fs filepath of
        None \<Rightarrow> (None, free)
      | Some src \<Rightarrow> (Some src, free - 1))"

definition make_response ::
  "file_system \<Rightarrow> char list \<Rightarrow> char list \<Rightarrow> char sink \<Rightarrow> nat \<Rightarrow> (int \<times> char sink \<times> nat) option" where
  "make_response fs base_path filename fd free =
     (let filename = (if filename \<noteq> [] \<and> hd filename = CHR ''/'' then tl filename else filename) in
      if length filename < 1 then Some (- 1, fd, free)
      else let filepath = base_path @ ''/'' @ filename in
        if MAX_FILEPATH_LEN < length filepath + 1 then None
        else let fd = append_text fd ''HTTP/1.1'' in
          (case stat_file fs filepath of
             NotFound \<Rightarrow> Some (0, append_text fd ('' 404 Not Found'' @ crlf), free)
           | StatFailed \<Rightarrow> Some (0, append_text fd ('' 418 I'' @ [CHR 0xE2, CHR 0x80, CHR 0x99] @ ''m a teapot'' @ crlf), free)
           | Exists info \<Rightarrow>
               if \<not> st_readable info then Some (0, append_text fd ('' 403 Forbidden'' @ crlf), free)
               else
                 let fd = append_text fd ('' 200 OK'' @ crlf);
                     fd = append_text fd ''Content-Length: '';
                     fd = append_text fd (decimal (to_i32 (st_size info)));
                     fd = append_text fd crlf;
                     fd = append_text fd crlf
                 in (case open_fd fs free filepath of (file_fd, free) \<Rightarrow>
                       case copy_file fd file_fd of (status, fd) \<Rightarrow> Some (status, fd, free))))"

subsection \<open>Serving clients\<close>

record client =
  client_in :: "char source"
  client_out :: "char sink"

definition handle_request ::
  "file_system \<Rightarrow> char list \<Rightarrow> char list \<Rightarrow> client \<Rightarrow> nat \<Rightarrow> (int \<times> client \<times> nat) option" where
  "handle_request fs base_path request_text c free =
     (case read_request (client_in c) request_text of (request_size, request_text, sock') \<Rightarrow>
        let c = c\<lparr>client_in := sock'\<rparr> in
        if request_size \<le> 0 then Some (- 1, c, free)
        else case read_request_head request_text of
          None \<Rightarrow> None
        | Some (head_status, filename) \<Rightarrow>
            if head_status = - 1 then Some (- 1, c, free)
            else case make_response fs base_path filename (client_out c) free of
              None \<Rightarrow> None
            | Some (status, fd, free) \<Rightarrow> Some (if status = - 1 then - 1 else 0, c\<lparr>client_out := fd\<rparr>, free))"

text \<open>
  The loop of \<^verbatim>\<open>run_file_server\<close>.  A turn of it goes from the test of \<^verbatim>\<open>must_stop_server\<close> to the next one: the signals that are handled
  after the test and before \<^verbatim>\<open>accept\<close> waits, which do not interrupt it; what becomes of \<^verbatim>\<open>accept\<close>: a client, a signal that is
  handled while it waits and makes it fail, or another failure; and the signals that are handled after that, while the
  client is served.  A transfer that such a signal interrupts is a failing one in the schedule of the client.  Without a free
  descriptor \<^verbatim>\<open>accept\<close> fails and the client stays in the queue.  The result is the state of \<^verbatim>\<open>must_stop_server\<close>, the number of free descriptors, and the
  clients that were accepted, each with the status and the state it was left in.
\<close>

datatype signal = SIGINT | SIGTERM | SIGABRT | SIGPIPE | SIGCHLD

datatype accepting = Client client | Interrupted signal | AcceptFailed

record turn =
  before :: "signal list"
  outcome :: accepting
  during :: "signal list"

definition signal_handler :: "bool \<Rightarrow> signal \<Rightarrow> bool" where
  "signal_handler must_stop_server s =
     (if s = SIGINT \<or> s = SIGTERM \<or> s = SIGABRT then True else must_stop_server)"

fun run_file_server ::
  "(client \<Rightarrow> nat \<Rightarrow> (int \<times> client \<times> nat) option) \<Rightarrow> bool \<Rightarrow> nat \<Rightarrow> turn list
     \<Rightarrow> (bool \<times> nat \<times> (client \<times> int \<times> client) list) option" where
  "run_file_server handle must_stop_server free [] = Some (must_stop_server, free, [])"
| "run_file_server handle must_stop_server free (t # ts) =
     (if must_stop_server then Some (must_stop_server, free, [])
      else
        let stop = foldl signal_handler must_stop_server (before t) in
        case outcome t of
          Client c \<Rightarrow>
            (if free = 0 then run_file_server handle (foldl signal_handler stop (during t)) free ts
             else case handle c (free - 1) of
               None \<Rightarrow> None
             | Some (status, c', left) \<Rightarrow>
                 map_option (\<lambda>(stop, free, rs). (stop, free, (c, status, c') # rs))
                   (run_file_server handle (foldl signal_handler stop (during t)) (left + 1) ts))
        | Interrupted s \<Rightarrow> run_file_server handle (foldl signal_handler (signal_handler stop s) (during t)) free ts
        | AcceptFailed \<Rightarrow> run_file_server handle (foldl signal_handler stop (during t)) free ts)"

text \<open>For an empty path the program reads in front of it.\<close>

definition normalize_base_path :: "char list \<Rightarrow> char list option" where
  "normalize_base_path base_path =
     (if base_path = [] then None
      else if last base_path = CHR ''/'' then Some (butlast base_path) else Some base_path)"

subsection \<open>Reading a request\<close>

lemma cstr_chunk: "NUL \<notin> set bs \<Longrightarrow> strncpy_bytes (bs @ [NUL]) (length bs) = bs"
  using strncpy_plain[of "length bs" "bs @ [NUL]"] by simp

text \<open>What a finished loop has done with the data it consumed.\<close>

definition read_ok :: "char source \<Rightarrow> char list \<Rightarrow> nat \<Rightarrow> int \<times> char list \<times> char source \<Rightarrow> bool" where
  "read_ok sock t br r \<longleftrightarrow> (case r of (st, t', sock') \<Rightarrow>
     length t' = MAX_REQUEST_LEN \<and>
     (st = - 1 \<or> (\<exists>data. rest sock = data @ rest sock' \<and> nat st = br + length data \<and> 0 \<le> st
        \<and> nat st \<le> MAX_REQUEST_LEN - 2 \<and> t' ! nat st = NUL
        \<and> (NUL \<notin> set data \<longrightarrow> take (nat st) t' = take br t @ data)
        \<and> (rest sock' = [] \<or> slice (nat st - 4) (nat st) t' = crlf @ crlf))))"

lemma request_loop_ok:
  "length t = MAX_REQUEST_LEN \<Longrightarrow> br \<le> MAX_REQUEST_LEN - 2 \<Longrightarrow> read_ok sock t br (request_loop sock t br)
   \<and> (no_read_failure sock \<and> br + length (rest sock) \<le> MAX_REQUEST_LEN - 2 \<longrightarrow> fst (request_loop sock t br) \<noteq> - 1)"
proof (induction sock t br rule: request_loop.induct)
  case (1 sock t br)
  obtain n bs sock' where rd: "sys_read sock 512 = (n, bs, sock')" by (metis prod_cases3)
  note [simp] = rd
  have big: "br < length t" using 1(2,3) by (simp add: MAX_REQUEST_LEN_def)
  consider "n = - 1" | "n = 0" | "0 < n" "MAX_REQUEST_LEN - 2 < br + nat n"
    | "0 < n" "br + nat n \<le> MAX_REQUEST_LEN - 2"
    using source.rd_range[OF rd] by linarith
  then show ?case
  proof cases
    case 1
    then show ?thesis using \<open>length t = MAX_REQUEST_LEN\<close> sys_read_no_failure[OF rd]
      by (subst (1 2) request_loop.simps) (auto simp: read_ok_def)
  next
    case 2
    have "rest sock = []" using source.rd_eof[of sock 512 bs sock'] 2 rd by simp
    moreover have "rest sock' = []" using source.rd_left[OF rd] 2 calculation by simp
    ultimately show ?thesis using 2 1(2,3) big
      by (subst (1 2) request_loop.simps) (simp add: read_ok_def)
  next
    case 3
    have n: "nat n = length bs" "rest sock = bs @ rest sock'"
      using source.rd_left[OF rd] sys_read_decreases[OF rd 3(1)] 3(1) by auto
    then show ?thesis using 3 1(2)
      by (subst (1 2) request_loop.simps) (auto simp: read_ok_def)
  next
    case 4
    have n: "nat n = length bs" "rest sock = bs @ rest sock'"
      using source.rd_left[OF rd] sys_read_decreases[OF rd 4(1)] 4(1) by auto
    define t2 where "t2 = overwrite t br (strncpy_bytes (bs @ [NUL]) (nat n))"
    have l2: "length t2 = MAX_REQUEST_LEN"
      unfolding t2_def using 4(2) 1(2) by (subst length_overwrite) (auto simp: MAX_REQUEST_LEN_def)
    have tk: "take (br + nat n) t2 = take br t @ bs" if "NUL \<notin> set bs"
      unfolding t2_def n(1) cstr_chunk[OF that] using big by (simp add: overwrite_def)
    show ?thesis
    proof (cases "4 \<le> br + nat n \<and> slice (br + nat n - 4) (br + nat n) t2 = crlf @ crlf")
      case True
      have eq: "request_loop sock t br = (int (br + nat n), t2[br + nat n := NUL], sock')"
        using 4 True by (subst request_loop.simps) (simp add: t2_def Let_def)
      have "slice (br + nat n - 4) (br + nat n) (t2[br + nat n := NUL]) = crlf @ crlf"
        using True[THEN conjunct1] True[THEN conjunct2] by (simp add: slice_def drop_update_swap)
      then show ?thesis
        unfolding eq read_ok_def using n tk 4(2) l2 by (auto simp: MAX_REQUEST_LEN_def nat_int_add intro!: exI[of _ bs])
    next
      case False
      have eq: "request_loop sock t br = request_loop sock' t2 (br + nat n)"
        using 4 False by (subst request_loop.simps) (auto simp: t2_def Let_def)
      have IH: "read_ok sock' t2 (br + nat n) (request_loop sock' t2 (br + nat n))
        \<and> (no_read_failure sock' \<and> br + nat n + length (rest sock') \<le> MAX_REQUEST_LEN - 2 \<longrightarrow>
            fst (request_loop sock' t2 (br + nat n)) \<noteq> - 1)"
        using 1(1)[OF rd[symmetric] refl 4(1) _ t2_def refl] False 4(2) l2 by simp
      obtain st t' s' where r: "request_loop sock' t2 (br + nat n) = (st, t', s')" by (metis prod_cases3)
      have "read_ok sock t br (st, t', s')"
      proof (cases "st = - 1")
        case True
        then show ?thesis using IH r by (simp add: read_ok_def)
      next
        case False
        then obtain data where d: "rest sock' = data @ rest s'" "nat st = br + nat n + length data" "0 \<le> st"
          "nat st \<le> MAX_REQUEST_LEN - 2" "t' ! nat st = NUL" "length t' = MAX_REQUEST_LEN"
          "NUL \<notin> set data \<longrightarrow> take (nat st) t' = take (br + nat n) t2 @ data"
          "rest s' = [] \<or> slice (nat st - 4) (nat st) t' = crlf @ crlf"
          using IH r unfolding read_ok_def by auto
        then show ?thesis using n tk by (auto simp: read_ok_def intro!: exI[of _ "bs @ data"])
      qed
      then show ?thesis using eq r IH n sys_read_no_failure[OF rd] by simp
    qed
  qed
qed

subsection \<open>Tokens\<close>

lemma strtok_token:
  assumes "w \<noteq> []" "\<forall>c\<in>set w. c \<notin> set delims" "d \<in> set delims"
  shows "strtok delims (w @ d # s) = (Some w, s)"
proof -
  have "dropWhile (\<lambda>c. c \<in> set delims) (w @ d # s) = w @ d # s" using assms by (cases w) auto
  moreover have "takeWhile (\<lambda>c. c \<notin> set delims) (w @ d # s) = w" using assms by (simp add: takeWhile_append2)
  moreover have "dropWhile (\<lambda>c. c \<notin> set delims) (w @ d # s) = d # s" using assms by (simp add: dropWhile_append2)
  ultimately show ?thesis by (simp add: strtok_def Let_def)
qed

text \<open>The head of a request for \<open>name\<close>; anything may follow the protocol.\<close>

definition get_request :: "char list \<Rightarrow> char list \<Rightarrow> char list" where
  "get_request name tail = ''GET '' @ name @ '' HTTP/1.1'' @ tail"

lemma protocol_token:
  "\<exists>p s3. strtok ('' '' @ crlf) (''HTTP/1.1'' @ tail) = (Some p, s3) \<and> begins ''HTTP/1.1'' p"
  by (simp add: strtok_def begins_def crlf_def Let_def)

lemma read_request_head_get:
  assumes "cstr t = get_request name tail" "CHR '' '' \<notin> set name" "2 \<le> length name"
  shows "read_request_head t = (if length name + 1 \<le> MAX_FILENAME_LEN then Some (0, name) else None)"
proof -
  have "strtok '' '' (cstr t) = (Some ''GET'', name @ CHR '' '' # ''HTTP/1.1'' @ tail)"
    using strtok_token[of "''GET''" "'' ''" "CHR '' ''"] assms(1) by (simp add: get_request_def)
  moreover have "name \<noteq> []" "\<forall>c\<in>set name. c \<notin> set '' ''" using assms(2,3) by auto
  then have "strtok '' '' (name @ CHR '' '' # ''HTTP/1.1'' @ tail) = (Some name, ''HTTP/1.1'' @ tail)"
    using strtok_token[of name "'' ''" "CHR '' ''" "''HTTP/1.1'' @ tail"] by simp
  moreover obtain p s3 where "strtok ('' '' @ crlf) (''HTTP/1.1'' @ tail) = (Some p, s3)" "begins ''HTTP/1.1'' p"
    using protocol_token by blast
  moreover have "begins ''GET'' ''GET''" by (simp add: begins_def)
  ultimately show ?thesis using assms(3) by (simp add: read_request_head_def)
qed

subsection \<open>Writing\<close>

lemma write_all_writes:
  "progressing fd \<Longrightarrow> k \<le> length t \<Longrightarrow>
   \<exists>fd'. write_all fd t k = (int (length t), fd') \<and> progressing fd' \<and> sunk fd' = sunk fd @ drop k t"
proof (induction fd t k rule: write_all.induct)
  case (1 fd t k)
  obtain n fd1 where w: "sys_write fd (drop k t) = (n, fd1)" by fastforce
  note p = sys_write_progress[OF w 1(2)]
  show ?case
  proof (cases "0 < n")
    case True
    have split: "take (nat n) (drop k t) @ drop (k + nat n) t = drop k t"
      by (metis append_take_drop_id drop_drop add.commute)
    show ?thesis
    proof (cases "k + nat n = length t")
      case last: True
      then show ?thesis using w p True split by (subst write_all.simps) auto
    next
      case False
      have "nat n \<le> length t - k" using p by simp
      then have "k + nat n \<le> length t" using 1(3) by arith
      then obtain fd' where "write_all fd1 t (k + nat n) = (int (length t), fd')" "progressing fd'"
        "sunk fd' = sunk fd1 @ drop (k + nat n) t"
        using 1(1)[OF w[symmetric] True False] p by auto
      then show ?thesis using w p True False split by (subst write_all.simps) simp
    qed
  next
    case False
    then have "n = 0" "drop k t = []" using p by auto
    then show ?thesis using w p by (subst write_all.simps) simp
  qed
qed

lemma append_text_writes:
  "progressing fd \<Longrightarrow> progressing (append_text fd t) \<and> sunk (append_text fd t) = sunk fd @ t"
  using write_all_writes[of fd 0 t] by (auto simp: append_text_def)

lemma copy_file_copies:
  "progressing dest \<Longrightarrow> no_read_failure src \<Longrightarrow>
   \<exists>dest'. copy_file dest (Some src) = (0, dest') \<and> progressing dest' \<and> sunk dest' = sunk dest @ rest src"
proof (induction "length (rest src)" arbitrary: src dest rule: less_induct)
  case less
  obtain n bs src' where rd: "sys_read src 1024 = (n, bs, src')" by (metis prod_cases3)
  have ok: "n \<noteq> - 1" "no_read_failure src'" using sys_read_no_failure[OF rd less(3)] by auto
  show ?case
  proof (cases "n = 0")
    case True
    then have "rest src = []" using source.rd_eof[of src 1024 bs src'] rd by simp
    then show ?thesis using rd True less(2) by (subst copy_file.simps) simp
  next
    case False
    then have n: "0 < n" "rest src = bs @ rest src'" "length (rest src') < length (rest src)"
      using source.rd_range[OF rd] ok source.rd_left[OF rd] sys_read_decreases[OF rd] by auto
    obtain d1 where d1: "write_all dest bs 0 = (int (length bs), d1)" "progressing d1" "sunk d1 = sunk dest @ bs"
      using write_all_writes[OF less(2), of 0 bs] by auto
    from less(1)[OF n(3) d1(2) ok(2)] obtain d2 where
      "copy_file d1 (Some src') = (0, d2)" "progressing d2" "sunk d2 = sunk d1 @ rest src'" by blast
    then show ?thesis using rd n d1 by (subst copy_file.simps) auto
  qed
qed

subsection \<open>Properties\<close>

definition ok_head :: "int \<Rightarrow> char list" where
  "ok_head n = ''HTTP/1.1 200 OK'' @ crlf @ ''Content-Length: '' @ decimal n @ crlf @ crlf"

lemma make_response_output:
  assumes "progressing fd" "name \<noteq> []" "hd name \<noteq> CHR ''/''" "length base + length name + 2 \<le> MAX_FILEPATH_LEN"
    "path = base @ ''/'' @ name"
    and f: "f = name \<or> f = CHR ''/'' # name"
  shows "case stat_file fs path of
      NotFound \<Rightarrow> (\<exists>fd'. make_response fs base f fd free = Some (0, fd', free) \<and> sunk fd' = sunk fd @ ''HTTP/1.1 404 Not Found'' @ crlf)
    | StatFailed \<Rightarrow> (\<exists>fd'. make_response fs base f fd free = Some (0, fd', free))
    | Exists info \<Rightarrow>
        (\<not> st_readable info \<longrightarrow>
          (\<exists>fd'. make_response fs base f fd free = Some (0, fd', free) \<and> sunk fd' = sunk fd @ ''HTTP/1.1 403 Forbidden'' @ crlf))
        \<and> (\<forall>src. st_readable info \<longrightarrow> is_i32 (st_size info) \<longrightarrow> open_file fs path = Some src \<longrightarrow> no_read_failure src \<longrightarrow> 0 < free \<longrightarrow>
          (\<exists>fd'. make_response fs base f fd free = Some (0, fd', free - 1) \<and> sunk fd' = sunk fd @ ok_head (st_size info) @ rest src))"
proof -
  have strip: "(if f \<noteq> [] \<and> hd f = CHR ''/'' then tl f else f) = name" using assms(2,3) f by auto
  have fits: "\<not> MAX_FILEPATH_LEN < length path + 1" using assms(4,5) by simp
  have len: "\<not> length name < 1" using assms(2) by (cases name) auto
  note A = append_text_writes
  define fd1 where "fd1 = append_text fd ''HTTP/1.1''"
  have fd1: "progressing fd1" "sunk fd1 = sunk fd @ ''HTTP/1.1''" using A[OF assms(1)] by (simp_all add: fd1_def)
  have mr: "make_response fs base f fd free = (case stat_file fs path of
             NotFound \<Rightarrow> Some (0, append_text fd1 ('' 404 Not Found'' @ crlf), free)
           | StatFailed \<Rightarrow> Some (0, append_text fd1 ('' 418 I'' @ [CHR 0xE2, CHR 0x80, CHR 0x99] @ ''m a teapot'' @ crlf), free)
           | Exists info \<Rightarrow>
               if \<not> st_readable info then Some (0, append_text fd1 ('' 403 Forbidden'' @ crlf), free)
               else (case open_fd fs free path of (file_fd, free) \<Rightarrow>
                   case copy_file (append_text (append_text (append_text (append_text (append_text fd1 ('' 200 OK'' @ crlf))
                  ''Content-Length: '') (decimal (to_i32 (st_size info)))) crlf) crlf) file_fd of (status, fd) \<Rightarrow> Some (status, fd, free)))"
    unfolding make_response_def Let_def strip assms(5)[symmetric] if_not_P[OF len] if_not_P[OF fits] fd1_def
    by (rule refl)
  show ?thesis
  proof (cases "stat_file fs path")
    case NotFound
    then show ?thesis using mr A[OF fd1(1), of "'' 404 Not Found'' @ crlf"] fd1(2) by simp
  next
    case StatFailed
    then show ?thesis using mr by simp
  next
    case (Exists info)
    define fd2 where "fd2 = append_text (append_text (append_text (append_text (append_text fd1 ('' 200 OK'' @ crlf))
                  ''Content-Length: '') (decimal (to_i32 (st_size info)))) crlf) crlf"
    have fd2: "progressing fd2" "is_i32 (st_size info) \<Longrightarrow> sunk fd2 = sunk fd @ ok_head (st_size info)"
      using A fd1 by (simp_all add: fd2_def ok_head_def)
    show ?thesis
    proof (cases "st_readable info")
      case True
      have "\<exists>fd'. make_response fs base f fd free = Some (0, fd', free - 1) \<and> sunk fd' = sunk fd @ ok_head (st_size info) @ rest src"
        if h: "is_i32 (st_size info)" "open_file fs path = Some src" "no_read_failure src" "0 < free" for src
      proof -
        from copy_file_copies[OF fd2(1) h(3)] obtain fd' where
          "copy_file fd2 (Some src) = (0, fd')" "sunk fd' = sunk fd2 @ rest src" by blast
        then show ?thesis using mr Exists True h fd2(2) by (simp add: fd2_def open_fd_def)
      qed
      then show ?thesis using Exists True by simp
    next
      case False
      then show ?thesis using Exists mr A[OF fd1(1), of "'' 403 Forbidden'' @ crlf"] fd1(2) by simp
    qed
  qed
qed

text \<open>
  Reading a request always ends, without writing outside of the buffer.  Unless it reports failure, what
  it consumed has at most 4998 characters, stands at the front of the buffer followed by a NUL when it
  holds none itself, and is cut off only by the end of the data or an empty line.  It cannot fail when the
  data is short enough and no call of \<^verbatim>\<open>recv\<close> fails.
\<close>

lemma read_request_reads:
  assumes "length t = MAX_REQUEST_LEN"
  shows "case read_request sock t of (st, t', sock') \<Rightarrow>
    length t' = MAX_REQUEST_LEN
    \<and> (st = - 1 \<or> (\<exists>data. rest sock = data @ rest sock' \<and> st = int (length data) \<and> length data \<le> 4998
        \<and> (NUL \<notin> set data \<longrightarrow> cstr t' = data)
        \<and> (rest sock' = [] \<or> slice (length data - 4) (length data) t' = crlf @ crlf)))
    \<and> (no_read_failure sock \<and> length (rest sock) \<le> 4998 \<longrightarrow> st \<noteq> - 1)"
proof -
  obtain st t' sock' where r: "read_request sock t = (st, t', sock')" by (metis prod_cases3)
  have ok: "read_ok sock t 0 (st, t', sock')" "no_read_failure sock \<and> length (rest sock) \<le> 4998 \<longrightarrow> st \<noteq> - 1"
    using request_loop_ok[OF assms, of 0 sock] r by (simp_all add: read_request_def MAX_REQUEST_LEN_def)
  have "cstr t' = data" if "take (length data) t' = data" "t' ! length data = NUL" "length data < length t'" "NUL \<notin> set data" for data
  proof -
    have "t' = data @ NUL # drop (Suc (length data)) t'"
      using that(1-3) by (metis append_take_drop_id Cons_nth_drop_Suc)
    then show ?thesis using that(4) by (metis cstr_append_NUL)
  qed
  then show ?thesis
    using ok r by (auto simp: read_ok_def MAX_REQUEST_LEN_def nat_eq_iff2)
qed

text \<open>
  The head of a GET request for a name without spaces is accepted with that name when the name has less
  than 300 characters; a longer name is written beyond the end of the array.
\<close>

lemma read_request_head_accepts:
  assumes "cstr t = get_request name tail" and "CHR '' '' \<notin> set name" and "2 \<le> length name"
  shows "read_request_head t = (if length name < 300 then Some (0, name) else None)"
  using read_request_head_get[OF assms] by (simp add: MAX_FILENAME_LEN_def)

text \<open>
  The response to a request for an existing readable file is the status line, the length and then the contents
  of the file, however reads and writes are split; a missing file is answered with 404, an unreadable one with 403.
  A leading slash of the name makes no difference.
\<close>

lemma make_response_serves:
  assumes "progressing fd" and "name \<noteq> []" and "hd name \<noteq> CHR ''/''" and "f = name \<or> f = CHR ''/'' # name"
    and "length base + length name \<le> 498"
  shows "case stat_file fs (base @ ''/'' @ name) of
      NotFound \<Rightarrow> \<exists>fd'. make_response fs base f fd free = Some (0, fd', free)
        \<and> sunk fd' = sunk fd @ ''HTTP/1.1 404 Not Found'' @ crlf
    | StatFailed \<Rightarrow> \<exists>fd'. make_response fs base f fd free = Some (0, fd', free)
    | Exists info \<Rightarrow>
        (\<not> st_readable info \<longrightarrow> (\<exists>fd'. make_response fs base f fd free = Some (0, fd', free)
          \<and> sunk fd' = sunk fd @ ''HTTP/1.1 403 Forbidden'' @ crlf))
        \<and> (\<forall>src. st_readable info \<longrightarrow> is_i32 (st_size info) \<longrightarrow> open_file fs (base @ ''/'' @ name) = Some src \<longrightarrow>
          no_read_failure src \<longrightarrow> 0 < free \<longrightarrow> (\<exists>fd'. make_response fs base f fd free = Some (0, fd', free - 1)
            \<and> sunk fd' = sunk fd @ ok_head (st_size info) @ rest src))"
  using make_response_output[OF assms(1-3) _ refl assms(4)] assms(5) by (simp add: MAX_FILEPATH_LEN_def)

text \<open>A text with an empty line only at its end has no shorter prefix that ends with one.\<close>

lemma empty_line_at_end:
  assumes "P @ crlf @ crlf = D @ crlf @ crlf @ r" "CHR 0x0A \<notin> set P"
  shows "r = []"
proof (rule ccontr)
  assume r: "r \<noteq> []"
  have "length (filter (\<lambda>c. c = CHR 0x0A) (P @ crlf @ crlf)) = 2"
    using assms(2) by (auto simp: crlf_def filter_empty_conv)
  moreover have "length (filter (\<lambda>c. c = CHR 0x0A) (D @ crlf @ crlf @ r))
      = length (filter (\<lambda>c. c = CHR 0x0A) D) + 2 + length (filter (\<lambda>c. c = CHR 0x0A) r)"
    by (simp add: crlf_def)
  ultimately have "filter (\<lambda>c. c = CHR 0x0A) r = []" using assms(1) by simp
  moreover have "last r = CHR 0x0A"
    using arg_cong[OF assms(1), of last] r by (simp add: crlf_def)
  ultimately show False using r last_in_set[OF r] by (metis (mono_tags, lifting) filter_empty_conv)
qed

text \<open>
  A client that sends a GET request for a name and nothing after the empty line, whose transfers do not fail, and what a program reads of it.
\<close>

definition gets :: "char list \<Rightarrow> client \<Rightarrow> char list \<Rightarrow> bool" where
  "gets base c name \<longleftrightarrow>
     rest (client_in c) = get_request (CHR ''/'' # name) (crlf @ crlf) \<and> no_read_failure (client_in c) \<and> progressing (client_out c)
     \<and> name \<noteq> [] \<and> hd name \<noteq> CHR ''/'' \<and> CHR '' '' \<notin> set name \<and> NUL \<notin> set name \<and> CHR 0x0A \<notin> set name \<and> length name < 299
     \<and> length base + length name \<le> 498"

lemma request_is_read:
  assumes "gets base c name" and "length t = MAX_REQUEST_LEN"
  obtains st t' sock' where "read_request (client_in c) t = (st, t', sock')" "0 < st"
    "read_request_head t' = Some (0, CHR ''/'' # name)"
proof -
  note g = assms(1)[unfolded gets_def]
  let ?r = "get_request (CHR ''/'' # name) (crlf @ crlf)"
  obtain st t' sock' where r: "read_request (client_in c) t = (st, t', sock')" by (metis prod_cases3)
  have len: "length ?r \<le> 4998" using g by (simp add: get_request_def crlf_def)
  have nul: "NUL \<notin> set ?r" using g by (auto simp: get_request_def crlf_def NUL_def)
  obtain data where d: "?r = data @ rest sock'" "st = int (length data)" "cstr t' = data"
    "rest sock' = [] \<or> slice (length data - 4) (length data) t' = crlf @ crlf" "length data \<le> 4998"
    "length t' = MAX_REQUEST_LEN"
    using read_request_reads[OF assms(2), of "client_in c"] r g len nul by auto
  have whole: "rest sock' = []"
  proof (rule ccontr)
    assume ne: "rest sock' \<noteq> []"
    then have sl: "slice (length data - 4) (length data) t' = crlf @ crlf" using d(4) by simp
    have tk: "take (length data) t' = data"
      using d(3) unfolding cstr_def by (metis takeWhile_eq_take)
    have four: "4 \<le> length data"
      using arg_cong[OF sl, of length] by (simp add: slice_def crlf_def)
    have "slice (length data - 4) (length data) t' = drop (length data - 4) (take (length data) t')"
      using four by (simp add: slice_def drop_take)
    then have "drop (length data - 4) data = crlf @ crlf" using sl tk by simp
    then have "data = take (length data - 4) data @ crlf @ crlf" by (metis append_take_drop_id)
    then have "(''GET '' @ (CHR ''/'' # name) @ '' HTTP/1.1'') @ crlf @ crlf
        = take (length data - 4) data @ crlf @ crlf @ rest sock'"
      using d(1) by (simp add: get_request_def)
    from empty_line_at_end[OF this] g ne show False by auto
  qed
  then have all: "cstr t' = get_request (CHR ''/'' # name) (crlf @ crlf)" using d(1,3) by simp
  have "read_request_head t' = Some (0, CHR ''/'' # name)"
    using read_request_head_accepts[OF all] g by (cases name) auto
  moreover have "0 < st" using d(1,2) whole by (auto simp: get_request_def)
  ultimately show ?thesis using that r by blast
qed

text \<open>
  Such a client is sent the head and the contents of a readable file, if a descriptor for it is left.  Nothing is checked about the name, so one
  with \<^verbatim>\<open>..\<close> in it reaches files outside of the served directory.
\<close>

lemma handle_request_serves_file:
  assumes "gets base c name" and "length t = MAX_REQUEST_LEN"
    and "stat_file fs (base @ ''/'' @ name) = Exists info" and "st_readable info" and "is_i32 (st_size info)"
    and "open_file fs (base @ ''/'' @ name) = Some src" and "no_read_failure src" and "0 < free"
  shows "\<exists>c'. handle_request fs base t c free = Some (0, c', free - 1)
    \<and> sunk (client_out c') = sunk (client_out c) @ ok_head (st_size info) @ rest src"
proof -
  note g = assms(1)[unfolded gets_def]
  obtain st t' sock' where r: "read_request (client_in c) t = (st, t', sock')" "0 < st"
    "read_request_head t' = Some (0, CHR ''/'' # name)" using request_is_read[OF assms(1,2)] .
  obtain fd' where "make_response fs base (CHR ''/'' # name) (client_out c) free = Some (0, fd', free - 1)"
    "sunk fd' = sunk (client_out c) @ ok_head (st_size info) @ rest src"
    using make_response_output[OF _ _ _ _ refl, of "client_out c" name base "CHR ''/'' # name" fs free] g assms(3-8)
    by (auto simp: MAX_FILEPATH_LEN_def)
  then show ?thesis using r by (simp add: handle_request_def Let_def)
qed

text \<open>
  The descriptor is not given back: a file that is served costs one, and without one the response ends after the head.
\<close>

lemma make_response_no_descriptor:
  assumes "progressing fd" and "name \<noteq> []" and "hd name \<noteq> CHR ''/''" and "length base + length name \<le> 498"
    and "stat_file fs (base @ ''/'' @ name) = Exists info" and "st_readable info" and "is_i32 (st_size info)"
  shows "\<exists>fd'. make_response fs base name fd 0 = Some (- 1, fd', 0) \<and> sunk fd' = sunk fd @ ok_head (st_size info)"
proof -
  have strip: "(if name \<noteq> [] \<and> hd name = CHR ''/'' then tl name else name) = name" using assms(3) by simp
  have len: "\<not> length name < 1" using assms(2) by (cases name) auto
  have fits: "\<not> MAX_FILEPATH_LEN < length (base @ ''/'' @ name) + 1" using assms(4) by (simp add: MAX_FILEPATH_LEN_def)
  define fd2 where "fd2 = append_text (append_text (append_text (append_text (append_text (append_text fd ''HTTP/1.1'')
      ('' 200 OK'' @ crlf)) ''Content-Length: '') (decimal (to_i32 (st_size info)))) crlf) crlf"
  have "sunk fd2 = sunk fd @ ok_head (st_size info)"
    using append_text_writes assms(1,7) by (simp add: fd2_def ok_head_def)
  moreover have "make_response fs base name fd 0 = Some (- 1, fd2, 0)"
    unfolding make_response_def Let_def strip if_not_P[OF len] if_not_P[OF fits]
    using assms(5,6) by (simp add: open_fd_def copy_file.simps fd2_def)
  ultimately show ?thesis by blast
qed

lemma make_response_left:
  "make_response fs base name fd free = Some (status, fd', left) \<Longrightarrow> left \<le> free \<and> free \<le> left + 1"
  by (auto simp: make_response_def Let_def open_fd_def split: if_splits stat_result.splits option.splits prod.splits)

lemma handle_request_left:
  "handle_request fs base t c free = Some (status, c', left) \<Longrightarrow> left \<le> free \<and> free \<le> left + 1"
  by (auto simp: handle_request_def Let_def split: if_splits option.splits prod.splits dest: make_response_left)

text \<open>
  Whether a turn handles one of the three signals that stop the server, and the clients that are accepted: up to and including the
  first turn that does.  In that turn a client is still accepted when the signal does not interrupt \<^verbatim>\<open>accept\<close>.
\<close>

definition stop_signal :: "signal \<Rightarrow> bool" where
  "stop_signal s \<longleftrightarrow> s \<in> {SIGINT, SIGTERM, SIGABRT}"

definition stops :: "turn \<Rightarrow> bool" where
  "stops t \<longleftrightarrow> list_ex stop_signal (before t) \<or> list_ex stop_signal (during t)
     \<or> (case outcome t of Interrupted s \<Rightarrow> stop_signal s | _ \<Rightarrow> False)"

definition client_of :: "turn \<Rightarrow> client list" where
  "client_of t = (case outcome t of Client c \<Rightarrow> [c] | _ \<Rightarrow> [])"

fun accepted :: "turn list \<Rightarrow> client list" where
  "accepted [] = []"
| "accepted (t # ts) = client_of t @ (if stops t then [] else accepted ts)"

lemma signal_handler_stop: "signal_handler b s = (b \<or> stop_signal s)"
  by (auto simp: signal_handler_def stop_signal_def)

lemma signals_stop: "foldl signal_handler b ss = (b \<or> list_ex stop_signal ss)"
  by (induction ss arbitrary: b) (auto simp: signal_handler_stop)

text \<open>
  The server serves these clients in order, and stops exactly when a turn has handled such a signal.  The \<open>i\<close>-th client is served with
  at most \<open>i\<close> descriptors less than at the beginning, beside its own.
\<close>

lemma server_serves_accepted:
  assumes "\<forall>c\<in>set (accepted ts). \<forall>k. handle c k \<noteq> None"
    and "\<And>c k status c' left. handle c k = Some (status, c', left) \<Longrightarrow> left \<le> k \<and> k \<le> left + 1"
    and "length (accepted ts) < free"
  shows "\<exists>rs left. run_file_server handle False free ts = Some (list_ex stops ts, left, rs) \<and> map fst rs = accepted ts
    \<and> (\<forall>c status c'. (c, status, c') \<in> set rs \<longrightarrow> (\<exists>k left. 0 < k \<and> handle c k = Some (status, c', left)))"
  using assms(1,3)
proof (induction ts arbitrary: free)
  case (Cons t ts)
  define stop where "stop = list_ex stop_signal (before t)"
  define rest where "rest fr = run_file_server handle (stops t) fr ts" for fr
  have next_turns: "\<exists>rs left. rest fr = Some (list_ex stops (t # ts), left, rs)
      \<and> map fst rs = (if stops t then [] else accepted ts)
      \<and> (\<forall>c status c'. (c, status, c') \<in> set rs \<longrightarrow> (\<exists>k left. 0 < k \<and> handle c k = Some (status, c', left)))"
    if "\<not> stops t \<longrightarrow> length (accepted ts) < fr" for fr
  proof (cases "stops t")
    case True
    have "run_file_server handle True fr ts = Some (True, fr, [])" by (cases ts) simp_all
    then show ?thesis using True by (simp add: rest_def)
  next
    case False
    then show ?thesis using Cons.IH[of fr] Cons.prems(1) that by (simp add: rest_def)
  qed
  show ?case
  proof (cases "outcome t")
    case (Client c)
    then have c: "client_of t = [c]" "stops t \<longleftrightarrow> stop \<or> list_ex stop_signal (during t)"
      by (simp_all add: client_of_def stops_def stop_def)
    have free: "1 < free" "\<not> stops t \<longrightarrow> length (accepted ts) < free - 1" using Cons.prems(2) c(1) by auto
    obtain status c' left where h: "handle c (free - 1) = Some (status, c', left)"
      using Cons.prems(1) c(1) by (metis accepted.simps(2) append_Cons list.set_intros(1) not_None_eq prod_cases3)
    have "free - 1 \<le> left + 1" using assms(2)[OF h] by simp
    then have "\<not> stops t \<longrightarrow> length (accepted ts) < left + 1" using free(2) by auto
    from next_turns[OF this] obtain rs left' where rs: "rest (left + 1) = Some (list_ex stops (t # ts), left', rs)"
      "map fst rs = (if stops t then [] else accepted ts)"
      "\<forall>c status c'. (c, status, c') \<in> set rs \<longrightarrow> (\<exists>k left. 0 < k \<and> handle c k = Some (status, c', left))"
      by (elim exE conjE) (rule that)
    have run: "run_file_server handle False free (t # ts) = Some (list_ex stops (t # ts), left', (c, status, c') # rs)"
      using Client h free(1) rs(1) c(2) by (simp add: rest_def signals_stop stop_def Let_def)
    have one: "\<exists>k left. 0 < k \<and> handle c k = Some (status, c', left)"
      by (rule exI[of _ "free - 1"]) (use h free(1) in auto)
    show ?thesis unfolding run using rs(2,3) c(1) one by auto
  next
    case (Interrupted s)
    then have c: "client_of t = []" "stops t \<longleftrightarrow> stop \<or> stop_signal s \<or> list_ex stop_signal (during t)"
      by (auto simp: client_of_def stops_def stop_def)
    then have run: "run_file_server handle False free (t # ts) = rest free"
      using Interrupted by (simp add: rest_def signals_stop signal_handler_stop stop_def Let_def)
    have acc: "accepted (t # ts) = (if stops t then [] else accepted ts)" using c(1) by simp
    then have len: "\<not> stops t \<longrightarrow> length (accepted ts) < free" using Cons.prems(2) by (cases "stops t") simp_all
    show ?thesis unfolding run acc by (rule next_turns[OF len])
  next
    case AcceptFailed
    then have c: "client_of t = []" "stops t \<longleftrightarrow> stop \<or> list_ex stop_signal (during t)"
      by (auto simp: client_of_def stops_def stop_def)
    then have run: "run_file_server handle False free (t # ts) = rest free"
      using AcceptFailed by (simp add: rest_def signals_stop stop_def Let_def)
    have acc: "accepted (t # ts) = (if stops t then [] else accepted ts)" using c(1) by simp
    then have len: "\<not> stops t \<longrightarrow> length (accepted ts) < free" using Cons.prems(2) by (cases "stops t") simp_all
    show ?thesis unfolding run acc by (rule next_turns[OF len])
  qed
qed simp

subsection \<open>Examples\<close>

definition sample_fs :: file_system where
  "sample_fs = \<lparr>stat_file = (\<lambda>p. if p = ''srv/../key'' then Exists \<lparr>st_readable = True, st_executable = False, st_size = 3\<rparr> else NotFound),
     open_file = (\<lambda>p. if p = ''srv/../key'' then Some \<lparr>rest = ''abc'', rsched = []\<rparr> else None)\<rparr>"

definition sample_client :: client where
  "sample_client = \<lparr>client_in = \<lparr>rest = get_request ''/../key'' (crlf @ crlf), rsched = [5, 1]\<rparr>,
     client_out = \<lparr>sunk = [], wsched = [3, 1]\<rparr>\<rparr>"

theorem read_request_reads_witness:
  "fst (read_request \<lparr>rest = ''GET'', rsched = [1]\<rparr> (replicate 5000 NUL)) \<noteq> - 1"
  using read_request_reads[of "replicate 5000 NUL" "\<lparr>rest = ''GET'', rsched = [1]\<rparr>"]
  by (simp add: MAX_REQUEST_LEN_def no_read_failure_def split: prod.splits)

theorem read_request_head_accepts_witness: "read_request_head ''GET /a HTTP/1.1'' = Some (0, ''/a'')"
  using read_request_head_accepts[of "''GET /a HTTP/1.1''" "''/a''" "[]"] by (simp add: get_request_def NUL_def)

theorem make_response_serves_witness:
  "\<exists>fd'. make_response sample_fs ''srv'' ''x'' \<lparr>sunk = [], wsched = [1]\<rparr> 9 = Some (0, fd', 9)
    \<and> sunk fd' = ''HTTP/1.1 404 Not Found'' @ crlf"
  using make_response_serves[of "\<lparr>sunk = [], wsched = [1]\<rparr>" "''x''" "''x''" "''srv''" sample_fs 9]
  by (simp add: progressing_def sample_fs_def)

theorem handle_request_serves_file_witness:
  "\<exists>c'. handle_request sample_fs ''srv'' (replicate 5000 NUL) sample_client 9 = Some (0, c', 8)
    \<and> sunk (client_out c') = ok_head 3 @ ''abc''"
  using handle_request_serves_file[of "''srv''" sample_client "''../key''" "replicate 5000 NUL" sample_fs
      "\<lparr>st_readable = True, st_executable = False, st_size = 3\<rparr>" "\<lparr>rest = ''abc'', rsched = []\<rparr>" 9]
  by (simp add: gets_def sample_client_def sample_fs_def no_read_failure_def progressing_def MAX_REQUEST_LEN_def NUL_def is_i32_def)

text \<open>A signal that is handled between the test and \<^verbatim>\<open>accept\<close> lets one more client in.\<close>

lemma signal_before_accept:
  "run_file_server (\<lambda>c k. Some (0, c, k)) False 5
     [\<lparr>before = [], outcome = Interrupted SIGPIPE, during = []\<rparr>, \<lparr>before = [SIGTERM], outcome = Client sample_client, during = []\<rparr>,
      \<lparr>before = [], outcome = Client sample_client, during = []\<rparr>]
    = Some (True, 5, [(sample_client, 0, sample_client)])"
  by (simp add: signal_handler_def Let_def)

end
