(* ===== verification/HttpServerExec.thy ===== *)
theory HttpServerExec
  imports HttpServer
begin

section \<open>http-server-2: the file server that runs executable files\<close>

text \<open>
  \<^verbatim>\<open>inf16-2_posix_sockets_http-server-2/main.c\<close>.  Reading requests, parsing their head, writing and copying are
  the same code as in the first server and are taken from \<open>HttpServer\<close>.  New are the execution of files, the response with it
  and the handling of the child process by signals.  What running a file does is given with each request: the
  pipe, the \<^verbatim>\<open>fork\<close> or the \<^verbatim>\<open>exec\<close> fails, or the reading end of the pipe delivers what the program writes.  The processes are the
  set of children that have not ended and the set of those that ended and were not waited for.  This server closes every
  descriptor that it opens.
\<close>

datatype exec_result = PipeFailed | ForkFailed | ExecFailed | Output "char source"

record processes =
  current_child_pid :: int
  running :: "int set"
  zombies :: "int set"

text \<open>
  \<^verbatim>\<open>execute_file\<close> in the parent, for the process id that \<^verbatim>\<open>fork\<close> returns: the descriptor to read from, \<open>None\<close> for -1.  When
  \<^verbatim>\<open>fork\<close> fails nobody has the writing end any more, and the reader gets the end of the data at once.  When \<^verbatim>\<open>exec\<close> fails the child
  returns into the server loop and becomes a second server, with the writing end of the pipe as its standard output: there is no end of the data,
  and the parent, which copies until the end, waits until a signal interrupts its \<^verbatim>\<open>read\<close>, while the child takes clients from it.  That is
  the outer \<open>None\<close>, and what happens after it is not modelled.
\<close>

definition execute_file ::
  "(char list \<Rightarrow> exec_result) \<Rightarrow> int \<Rightarrow> processes \<Rightarrow> char list \<Rightarrow> (char source option \<times> processes) option" where
  "execute_file run_program child_pid ps filepath =
     (case run_program filepath of
        PipeFailed \<Rightarrow> Some (None, ps)
      | ForkFailed \<Rightarrow> Some (Some \<lparr>rest = [], rsched = []\<rparr>, ps\<lparr>current_child_pid := - 1\<rparr>)
      | ExecFailed \<Rightarrow> None
      | Output src \<Rightarrow> Some (Some src,
          ps\<lparr>running := insert child_pid (running ps), current_child_pid := child_pid\<rparr>))"

text \<open>
  \<^verbatim>\<open>read_request\<close>, \<^verbatim>\<open>read_request_head\<close>, \<^verbatim>\<open>write_all\<close>, \<^verbatim>\<open>copy_file\<close> and \<^verbatim>\<open>append_text\<close> are, line for line, the functions of
  the first server.
\<close>

definition read_request :: "char source \<Rightarrow> char list \<Rightarrow> int \<times> char list \<times> char source" where
  [simp]: "read_request = HttpServer.read_request"

definition read_request_head :: "char list \<Rightarrow> (int \<times> char list) option" where
  [simp]: "read_request_head = HttpServer.read_request_head"

definition write_all :: "char sink \<Rightarrow> char list \<Rightarrow> nat \<Rightarrow> int \<times> char sink" where
  [simp]: "write_all = HttpServer.write_all"

definition copy_file :: "char sink \<Rightarrow> char source option \<Rightarrow> int \<times> char sink" where
  [simp]: "copy_file = HttpServer.copy_file"

definition append_text :: "char sink \<Rightarrow> char list \<Rightarrow> char sink" where
  [simp]: "append_text fd t = snd (write_all fd t 0)"

lemma append_text_same [simp]: "append_text = HttpServer.append_text"
  by (simp add: fun_eq_iff HttpServer.append_text_def)

declare append_text_def [simp del]

definition make_response ::
  "file_system \<Rightarrow> (char list \<Rightarrow> exec_result) \<Rightarrow> int \<Rightarrow> processes \<Rightarrow> char list \<Rightarrow> char list \<Rightarrow> char sink
     \<Rightarrow> (int \<times> char sink \<times> processes) option" where
  "make_response fs run_program child_pid ps base_path filename fd =
     (let filename = (if filename \<noteq> [] \<and> hd filename = CHR ''/'' then tl filename else filename) in
      if length filename < 1 then Some (- 1, fd, ps)
      else let filepath = base_path @ ''/'' @ filename in
        if MAX_FILEPATH_LEN < length filepath + 1 then None
        else let fd = append_text fd ''HTTP/1.1'' in
          (case stat_file fs filepath of
             NotFound \<Rightarrow> Some (0, append_text fd ('' 404 Not Found'' @ crlf), ps)
           | StatFailed \<Rightarrow> Some (0, append_text fd ('' 418 I'' @ [CHR 0xE2, CHR 0x80, CHR 0x99] @ ''m a teapot'' @ crlf), ps)
           | Exists info \<Rightarrow>
               if \<not> st_readable info then Some (0, append_text fd ('' 403 Forbidden'' @ crlf), ps)
               else let fd = append_text fd ('' 200 OK'' @ crlf) in
                 if st_executable info then
                   (case execute_file run_program child_pid ps filepath of
                      None \<Rightarrow> None
                    | Some (None, ps) \<Rightarrow> Some (- 1, fd, ps)
                    | Some (Some output, ps) \<Rightarrow>
                        (case copy_file (append_text fd crlf) (Some output) of (status, fd) \<Rightarrow> Some (status, fd, ps)))
                 else
                   let fd = append_text fd ''Content-Length: '';
                       fd = append_text fd (decimal (to_i32 (st_size info)));
                       fd = append_text fd crlf;
                       fd = append_text fd crlf
                   in (case copy_file fd (open_file fs filepath) of (status, fd) \<Rightarrow> Some (status, fd, ps))))"

definition handle_request ::
  "file_system \<Rightarrow> (char list \<Rightarrow> exec_result) \<Rightarrow> char list \<Rightarrow> char list \<Rightarrow> int \<Rightarrow> processes \<Rightarrow> client
     \<Rightarrow> (int \<times> client \<times> processes) option" where
  "handle_request fs run_program base_path request_text child_pid ps c =
     (case read_request (client_in c) request_text of (request_size, request_text, sock') \<Rightarrow>
        let c = c\<lparr>client_in := sock'\<rparr> in
        if request_size \<le> 0 then Some (- 1, c, ps)
        else case read_request_head request_text of
          None \<Rightarrow> None
        | Some (head_status, filename) \<Rightarrow>
            if head_status = - 1 then Some (- 1, c, ps)
            else case make_response fs run_program child_pid ps base_path filename (client_out c) of
              None \<Rightarrow> None
            | Some (status, fd, ps) \<Rightarrow> Some (if status = - 1 then - 1 else 0, c\<lparr>client_out := fd\<rparr>, ps))"

subsection \<open>Signals and the child process\<close>

text \<open>\<^verbatim>\<open>kill(pid, SIGKILL)\<close>, \<^verbatim>\<open>wait(NULL)\<close> for some ended child, and \<^verbatim>\<open>waitpid(pid)\<close>.\<close>

definition kill_child :: "int \<Rightarrow> processes \<Rightarrow> processes" where
  "kill_child pid ps =
     (if pid \<in> running ps then ps\<lparr>running := running ps - {pid}, zombies := insert pid (zombies ps)\<rparr> else ps)"

definition waitpid :: "int \<Rightarrow> processes \<Rightarrow> processes" where
  "waitpid pid ps = ps\<lparr>running := running ps - {pid}, zombies := zombies ps - {pid}\<rparr>"

text \<open>\<open>z\<close> is the ended child that \<^verbatim>\<open>wait\<close> picks; it is used only when there is a child to stop.\<close>

definition signal_handler :: "int \<Rightarrow> signal \<Rightarrow> bool \<times> processes \<Rightarrow> bool \<times> processes" where
  "signal_handler z s st =
     (case st of (must_stop_server, ps) \<Rightarrow>
        let (must_stop_server, ps) =
              (if s = SIGINT \<or> s = SIGTERM \<or> s = SIGABRT
               then (True, if 0 < current_child_pid ps
                           then (waitpid z (kill_child (current_child_pid ps) ps))\<lparr>current_child_pid := - 1\<rparr>
                           else ps)
               else (must_stop_server, ps))
        in if s = SIGCHLD \<and> 0 < current_child_pid ps
           then (must_stop_server, (waitpid (current_child_pid ps) ps)\<lparr>current_child_pid := - 1\<rparr>)
           else (must_stop_server, ps))"

text \<open>
  The life of the server between its actions: a file is executed in the new process \<open>pid\<close>, a child ends
  by itself, a signal is handled.  \<open>wait\<close> picks any of the ended children.
\<close>

inductive lives :: "bool \<times> processes \<Rightarrow> bool" where
  started: "lives (False, \<lparr>current_child_pid = - 1, running = {}, zombies = {}\<rparr>)"
| executed: "lives (False, ps) \<Longrightarrow> 0 < pid \<Longrightarrow> pid \<notin> running ps \<union> zombies ps \<Longrightarrow>
    execute_file run_program pid ps filepath = Some (fd, ps') \<Longrightarrow> current_child_pid ps \<le> 0 \<Longrightarrow> lives (False, ps')"
| ended: "lives (stop, ps) \<Longrightarrow> pid \<in> running ps \<Longrightarrow>
    lives (stop, ps\<lparr>running := running ps - {pid}, zombies := insert pid (zombies ps)\<rparr>)"
| signalled: "lives (stop, ps) \<Longrightarrow> 0 < current_child_pid ps \<longrightarrow> z \<in> zombies (kill_child (current_child_pid ps) ps) \<Longrightarrow>
    lives (signal_handler z s (stop, ps))"

lemma lives_inv:
  "lives st \<Longrightarrow> (case st of (stop, ps) \<Rightarrow>
     running ps \<union> zombies ps = (if 0 < current_child_pid ps then {current_child_pid ps} else {})
     \<and> (stop \<longrightarrow> running ps \<union> zombies ps = {}))"
proof (induction rule: lives.induct)
  case (executed ps pid run_program filepath fd ps')
  then show ?case by (auto simp: execute_file_def split: exec_result.splits if_splits)
next
  case (signalled stop ps z s)
  then have z: "z = current_child_pid ps" if "0 < current_child_pid ps"
    using that by (auto simp: kill_child_def split: if_splits)
  then have gone: "running ps - {current_child_pid ps} = {} \<and> zombies ps - {current_child_pid ps} = {}"
    if "0 < current_child_pid ps" using that signalled by auto
  show ?case
    using signalled z gone
    by (cases "0 < current_child_pid ps") (auto simp: signal_handler_def kill_child_def waitpid_def Let_def)
qed (auto split: if_splits)

subsection \<open>The server\<close>

text \<open>
  \<^verbatim>\<open>normalize_base_path\<close> is that of the first server.  The server meets signals, with the ended child that \<^verbatim>\<open>wait\<close> picks, and ends of
  children, which change the processes as killing them does.  A turn of \<^verbatim>\<open>run_file_server\<close> goes from one test of
  \<^verbatim>\<open>must_stop_server\<close> to the next: what happens between the test and the waiting of \<^verbatim>\<open>accept\<close>; what becomes of \<^verbatim>\<open>accept\<close>; and what happens
  after it has returned.  A client comes with what running a file does for it, with what happens until its file is
  executed, and with the id of the process for it.  A transfer that is interrupted by a signal is a failing one in the schedule
  of the client, and a program that is killed delivers less.  The result is the state of the server and the clients that were accepted, each
  with the status and the state it was left in.
\<close>

definition normalize_base_path :: "char list \<Rightarrow> char list option" where
  "normalize_base_path = HttpServer.normalize_base_path"

datatype occurrence = Signalled signal int | ChildEnds int

definition occurs :: "bool \<times> processes \<Rightarrow> occurrence \<Rightarrow> bool \<times> processes" where
  "occurs st e =
     (case e of
        Signalled s z \<Rightarrow> signal_handler z s st
      | ChildEnds pid \<Rightarrow> (fst st, kill_child pid (snd st)))"

datatype accepting =
  Request client "char list \<Rightarrow> exec_result" "occurrence list" int
| AcceptInterrupted signal int
| AcceptFailure

record server_turn =
  waiting :: "occurrence list"
  outcome :: accepting
  after :: "occurrence list"

fun run_file_server ::
  "file_system \<Rightarrow> char list \<Rightarrow> char list \<Rightarrow> bool \<times> processes \<Rightarrow> server_turn list
     \<Rightarrow> ((bool \<times> processes) \<times> (client \<times> int \<times> client) list) option" where
  "run_file_server fs base_path request_text st [] = Some (st, [])"
| "run_file_server fs base_path request_text st (t # ts) =
     (if fst st then Some (st, [])
      else
        let st = foldl occurs st (waiting t) in
        case outcome t of
          Request c run_program early pid \<Rightarrow>
            (let st = foldl occurs st early in
             case handle_request fs run_program base_path request_text pid (snd st) c of
               None \<Rightarrow> None
             | Some (status, c', ps) \<Rightarrow>
                 map_option (\<lambda>(st, rs). (st, (c, status, c') # rs))
                   (run_file_server fs base_path request_text (foldl occurs (fst st, ps) (after t)) ts))
        | AcceptInterrupted s z \<Rightarrow>
            run_file_server fs base_path request_text (foldl occurs (signal_handler z s st) (after t)) ts
        | AcceptFailure \<Rightarrow> run_file_server fs base_path request_text (foldl occurs st (after t)) ts)"

definition server_start :: "bool \<times> processes" where
  "server_start = (False, \<lparr>current_child_pid = - 1, running = {}, zombies = {}\<rparr>)"

text \<open>The answer to a client, taken from a server without children.\<close>

definition answer ::
  "file_system \<Rightarrow> (char list \<Rightarrow> exec_result) \<Rightarrow> char list \<Rightarrow> char list \<Rightarrow> client \<Rightarrow> (int \<times> client) option" where
  "answer fs run_program base_path request_text c =
     map_option (\<lambda>(status, c', ps). (status, c')) (handle_request fs run_program base_path request_text 1 (snd server_start) c)"

text \<open>
  What a client is sent does not depend on the processes; they only change in that the child is started.
\<close>

datatype effect = Same | NoFork | Forked

definition affect :: "effect \<Rightarrow> int \<Rightarrow> processes \<Rightarrow> processes" where
  "affect e pid ps =
     (case e of
        Same \<Rightarrow> ps
      | NoFork \<Rightarrow> ps\<lparr>current_child_pid := - 1\<rparr>
      | Forked \<Rightarrow> ps\<lparr>running := insert pid (running ps), current_child_pid := pid\<rparr>)"

lemma affect_simps [simp]:
  "affect Same pid ps = ps"
  "affect NoFork pid ps = ps\<lparr>current_child_pid := - 1\<rparr>"
  "affect Forked pid ps = ps\<lparr>running := insert pid (running ps), current_child_pid := pid\<rparr>"
  by (simp_all add: affect_def)

definition with_child :: "int \<Rightarrow> processes \<Rightarrow> 'a \<times> 'b \<times> effect \<Rightarrow> 'a \<times> 'b \<times> processes" where
  "with_child pid ps r = (fst r, fst (snd r), affect (snd (snd r)) pid ps)"

lemma with_child_simp [simp]: "with_child pid ps (a, b, e) = (a, b, affect e pid ps)"
  by (simp add: with_child_def)

lemma make_response_child:
  "\<exists>R. \<forall>pid ps. make_response fs run_program pid ps base f fd = map_option (with_child pid ps) R"
proof -
  define f' where "f' = (if f \<noteq> [] \<and> hd f = CHR ''/'' then tl f else f)"
  define path where "path = base @ ''/'' @ f'"
  define fd1 where "fd1 = append_text fd ''HTTP/1.1''"
  define fd2 where "fd2 = append_text fd1 ('' 200 OK'' @ crlf)"
  note unfolded = make_response_def Let_def f'_def[symmetric] path_def[symmetric] fd1_def[symmetric] fd2_def[symmetric]
  consider (short) "length f' < 1" | (long) "\<not> length f' < 1" "MAX_FILEPATH_LEN < length path + 1"
    | (fits) "\<not> length f' < 1" "\<not> MAX_FILEPATH_LEN < length path + 1" by blast
  then show ?thesis
  proof cases
    case short
    then show ?thesis unfolding unfolded by (intro exI[of _ "Some (- 1, fd, Same)"]) simp
  next
    case long
    then show ?thesis unfolding unfolded by (intro exI[of _ None]) simp
  next
    case fits
    note go = if_not_P[OF fits(1)] if_not_P[OF fits(2)]
    show ?thesis
    proof (cases "stat_file fs path")
      case NotFound
      then show ?thesis unfolding unfolded go by (intro exI[of _ "Some (0, _, Same)"]) simp
    next
      case StatFailed
      then show ?thesis unfolding unfolded go by (intro exI[of _ "Some (0, _, Same)"]) simp
    next
      case (Exists info)
      note ex = Exists
      consider (unreadable) "\<not> st_readable info" | (plain) "st_readable info" "\<not> st_executable info"
        | (exec) "st_readable info" "st_executable info" by blast
      then show ?thesis
      proof cases
        case unreadable
        then show ?thesis unfolding unfolded go ex by (intro exI[of _ "Some (0, _, Same)"]) simp
      next
        case plain
        let ?d = "append_text (append_text (append_text (append_text fd2 ''Content-Length: '')
          (decimal (to_i32 (st_size info)))) crlf) crlf"
        obtain status d where "copy_file ?d (open_file fs path) = (status, d)" by fastforce
        then show ?thesis using plain unfolding unfolded go ex by (intro exI[of _ "Some (status, d, Same)"]) simp
      next
        case exec
        show ?thesis
        proof (cases "run_program path")
          case PipeFailed
          then show ?thesis using exec unfolding unfolded go ex
            by (intro exI[of _ "Some (- 1, fd2, Same)"]) (simp add: execute_file_def)
        next
          case ForkFailed
          obtain status d where "copy_file (append_text fd2 crlf) (Some \<lparr>rest = [], rsched = []\<rparr>) = (status, d)" by fastforce
          then show ?thesis using exec ForkFailed unfolding unfolded go ex
            by (intro exI[of _ "Some (status, d, NoFork)"]) (simp add: execute_file_def)
        next
          case ExecFailed
          then show ?thesis using exec unfolding unfolded go ex
            by (intro exI[of _ None]) (simp add: execute_file_def)
        next
          case (Output src)
          obtain status d where "copy_file (append_text fd2 crlf) (Some src) = (status, d)" by fastforce
          then show ?thesis using exec Output unfolding unfolded go ex
            by (intro exI[of _ "Some (status, d, Forked)"]) (simp add: execute_file_def)
        qed
      qed
    qed
  qed
qed

lemma handle_request_child:
  "\<exists>R. \<forall>pid ps. handle_request fs run_program base buf pid ps c = map_option (with_child pid ps) R"
proof -
  obtain size t sock where r: "read_request (client_in c) buf = (size, t, sock)" by (metis prod_cases3)
  show ?thesis
  proof (cases "size \<le> 0")
    case True
    then show ?thesis using r by (intro exI[of _ "Some (- 1, c\<lparr>client_in := sock\<rparr>, Same)"]) (simp add: handle_request_def)
  next
    case pos: False
    show ?thesis
    proof (cases "read_request_head t")
      case None
      then show ?thesis using r pos by (intro exI[of _ None]) (simp add: handle_request_def)
    next
      case (Some h)
      obtain st name where h: "h = (st, name)" by fastforce
      obtain R where R: "make_response fs run_program pid ps base name (client_out c) = map_option (with_child pid ps) R" for pid ps
        using make_response_child by blast
      let ?c = "c\<lparr>client_in := sock\<rparr>"
      show ?thesis
        using r pos Some h R
        by (intro exI[of _ "if st = - 1 then Some (- 1, ?c, Same)
            else map_option (\<lambda>(status, fd, b). (if status = - 1 then - 1 else 0, ?c\<lparr>client_out := fd\<rparr>, b)) R"])
          (auto simp: handle_request_def with_child_def option.map_comp comp_def split: option.split)
    qed
  qed
qed

lemma answer_request:
  obtains e where "handle_request fs run_program base buf pid ps c
    = map_option (\<lambda>(status, c'). (status, c', affect e pid ps)) (answer fs run_program base buf c)"
proof -
  obtain R where R: "handle_request fs run_program base buf pid ps c = map_option (with_child pid ps) R" for pid ps
    using handle_request_child by blast
  show ?thesis
    by (rule that[of "case R of None \<Rightarrow> Same | Some (_, _, e) \<Rightarrow> e"]) (cases R, auto simp: R answer_def)
qed

text \<open>
  Whether a turn handles one of the three signals that stop the server, and the clients that are accepted: up to and including the
  first turn that does.  In that turn a client is still accepted when the signal does not interrupt \<^verbatim>\<open>accept\<close>.
\<close>

definition stop_occurrence :: "occurrence \<Rightarrow> bool" where
  "stop_occurrence e = (case e of Signalled s z \<Rightarrow> HttpServer.stop_signal s | ChildEnds pid \<Rightarrow> False)"

definition stops :: "server_turn \<Rightarrow> bool" where
  "stops t \<longleftrightarrow> list_ex stop_occurrence (waiting t) \<or> list_ex stop_occurrence (after t)
     \<or> (case outcome t of
           Request c run_program early pid \<Rightarrow> list_ex stop_occurrence early
         | AcceptInterrupted s z \<Rightarrow> HttpServer.stop_signal s
         | AcceptFailure \<Rightarrow> False)"

definition request_of :: "server_turn \<Rightarrow> (client \<times> (char list \<Rightarrow> exec_result)) list" where
  "request_of t = (case outcome t of Request c run_program early pid \<Rightarrow> [(c, run_program)] | _ \<Rightarrow> [])"

fun accepted :: "server_turn list \<Rightarrow> (client \<times> (char list \<Rightarrow> exec_result)) list" where
  "accepted [] = []"
| "accepted (t # ts) = request_of t @ (if stops t then [] else accepted ts)"

lemma signal_handler_stops: "fst (signal_handler z s st) = (fst st \<or> HttpServer.stop_signal s)"
  by (auto simp: signal_handler_def HttpServer.stop_signal_def Let_def split: prod.splits)

lemma occurs_stop: "fst (foldl occurs st es) = (fst st \<or> list_ex stop_occurrence es)"
  by (induction es arbitrary: st)
    (auto simp: occurs_def stop_occurrence_def signal_handler_stops split: occurrence.splits)

text \<open>
  The server answers these clients in order, each as if it were the only one, whatever signals, failures and ends of children come in between,
  and stops exactly when a turn has handled such a signal.
\<close>

lemma file_server_answers:
  assumes "\<forall>(c, run_program)\<in>set (accepted ts). answer fs run_program base buf c \<noteq> None" and "\<not> fst st"
  shows "\<exists>ps. run_file_server fs base buf st ts
    = Some ((list_ex stops ts, ps), map (\<lambda>(c, run_program). (c, the (answer fs run_program base buf c))) (accepted ts))"
  using assms
proof (induction ts arbitrary: st)
  case (Cons t ts)
  let ?served = "map (\<lambda>(c, run_program). (c, the (answer fs run_program base buf c)))"
  define later where "later = (if stops t then [] else accepted ts)"
  have next_turns: "\<exists>ps. run_file_server fs base buf st' ts = Some ((list_ex stops (t # ts), ps), ?served later)"
    if "fst st' = stops t" for st'
  proof (cases "stops t")
    case True
    then show ?thesis using that by (cases st'; cases ts) (auto simp: later_def)
  next
    case False
    then show ?thesis using Cons.IH[of st'] Cons.prems(1) that by (auto simp: later_def)
  qed
  have acc: "accepted (t # ts) = request_of t @ later" by (simp add: later_def)
  define st1 where "st1 = foldl occurs st (waiting t)"
  have st1: "fst st1 = list_ex stop_occurrence (waiting t)" using Cons.prems(2) by (simp add: st1_def occurs_stop)
  show ?case
  proof (cases "outcome t")
    case (Request c run_program early pid)
    define st2 where "st2 = foldl occurs st1 early"
    obtain e where e: "handle_request fs run_program base buf pid (snd st2) c
        = map_option (\<lambda>(status, c'). (status, c', affect e pid (snd st2))) (answer fs run_program base buf c)"
      by (rule answer_request)
    have req: "request_of t = [(c, run_program)]" using Request by (simp add: request_of_def)
    then obtain status c' where r: "answer fs run_program base buf c = Some (status, c')" using Cons.prems(1) by auto
    define st3 where "st3 = foldl occurs (fst st2, affect e pid (snd st2)) (after t)"
    have "fst st3 = stops t" using st1 Request by (auto simp: st3_def st2_def occurs_stop stops_def)
    then obtain ps where ps: "run_file_server fs base buf st3 ts = Some ((list_ex stops (t # ts), ps), ?served later)"
      using next_turns by blast
    have "run_file_server fs base buf st (t # ts) = map_option (\<lambda>(st, rs). (st, (c, status, c') # rs)) (run_file_server fs base buf st3 ts)"
      using Cons.prems(2) Request e r by (simp add: st1_def[symmetric] st2_def[symmetric] st3_def[symmetric] Let_def)
    then show ?thesis unfolding acc req ps using r by simp
  next
    case (AcceptInterrupted s z)
    have "fst (foldl occurs (signal_handler z s st1) (after t)) = stops t"
      using st1 AcceptInterrupted by (auto simp: occurs_stop signal_handler_stops stops_def)
    moreover have "run_file_server fs base buf st (t # ts) = run_file_server fs base buf (foldl occurs (signal_handler z s st1) (after t)) ts"
      using Cons.prems(2) AcceptInterrupted by (simp add: st1_def[symmetric] Let_def)
    ultimately show ?thesis unfolding acc using next_turns AcceptInterrupted by (simp add: request_of_def)
  next
    case AcceptFailure
    have "fst (foldl occurs st1 (after t)) = stops t"
      using st1 AcceptFailure by (auto simp: occurs_stop stops_def)
    moreover have "run_file_server fs base buf st (t # ts) = run_file_server fs base buf (foldl occurs st1 (after t)) ts"
      using Cons.prems(2) AcceptFailure by (simp add: st1_def[symmetric] Let_def)
    ultimately show ?thesis unfolding acc using next_turns AcceptFailure by (simp add: request_of_def)
  qed
next
  case Nil
  then show ?case by (cases st) simp
qed

subsection \<open>Properties\<close>

text \<open>
  A request for an executable file is answered with the output of the program behind an empty head, any
  other readable file as by the first server; the new child is the current one.
\<close>

lemma make_response_executes:
  assumes "progressing fd" and "name \<noteq> []" and "hd name \<noteq> CHR ''/''" and f: "f = name \<or> f = CHR ''/'' # name" and "length base + length name \<le> 498"
    and "stat_file fs (base @ ''/'' @ name) = Exists info" and "st_readable info"
  shows "(st_executable info \<and> run_program (base @ ''/'' @ name) = Output src \<and> no_read_failure src \<longrightarrow>
      (\<exists>fd' ps'. make_response fs run_program pid ps base f fd = Some (0, fd', ps')
        \<and> sunk fd' = sunk fd @ ''HTTP/1.1 200 OK'' @ crlf @ crlf @ rest src
        \<and> current_child_pid ps' = pid \<and> running ps' = insert pid (running ps)))
    \<and> (\<not> st_executable info \<longrightarrow>
      make_response fs run_program pid ps base f fd
        = map_option (\<lambda>(st, fd', left). (st, fd', ps)) (HttpServer.make_response fs base f fd 1))"
proof -
  let ?path = "base @ ''/'' @ name"
  have strip: "(if f \<noteq> [] \<and> hd f = CHR ''/'' then tl f else f) = name" using assms(2,3) f by auto
  have len: "\<not> length name < 1" using assms(2) by (cases name) auto
  have fits: "\<not> MAX_FILEPATH_LEN < length ?path + 1" using assms(5) by (simp add: MAX_FILEPATH_LEN_def)
  define fd2 where "fd2 = append_text (append_text fd ''HTTP/1.1'') ('' 200 OK'' @ crlf)"
  define fd3 where "fd3 = append_text fd2 crlf"
  have fd3: "progressing fd3" "sunk fd3 = sunk fd @ ''HTTP/1.1 200 OK'' @ crlf @ crlf"
    using append_text_writes assms(1) by (simp_all add: fd3_def fd2_def)
  have "\<exists>fd' ps'. make_response fs run_program pid ps base f fd = Some (0, fd', ps')
        \<and> sunk fd' = sunk fd @ ''HTTP/1.1 200 OK'' @ crlf @ crlf @ rest src
        \<and> current_child_pid ps' = pid \<and> running ps' = insert pid (running ps)"
    if x: "st_executable info" "run_program ?path = Output src" "no_read_failure src"
  proof -
    obtain fd' where c: "copy_file fd3 (Some src) = (0, fd')" "sunk fd' = sunk fd3 @ rest src"
      using copy_file_copies[OF fd3(1) x(3)] by auto
    let ?ps = "ps\<lparr>running := insert pid (running ps), current_child_pid := pid\<rparr>"
    have "make_response fs run_program pid ps base f fd = Some (0, fd', ?ps)"
      unfolding make_response_def Let_def strip if_not_P[OF len] if_not_P[OF fits]
      using assms(6,7) x c(1)[unfolded fd3_def fd2_def] by (simp add: execute_file_def)
    then show ?thesis using c(2) fd3(2) by (intro exI[of _ fd'] exI[of _ ?ps]) simp
  qed
  moreover have "make_response fs run_program pid ps base f fd
        = map_option (\<lambda>(st, fd', left). (st, fd', ps)) (HttpServer.make_response fs base f fd 1)" if "\<not> st_executable info"
    unfolding make_response_def HttpServer.make_response_def Let_def strip if_not_P[OF len] if_not_P[OF fits]
    using assms(6,7) that by (simp add: HttpServer.open_fd_def split: prod.splits option.splits)
  ultimately show ?thesis by blast
qed

text \<open>What a client is sent that asks for a readable file.\<close>

lemma answer_sends:
  assumes "gets base c name" and "length buf = MAX_REQUEST_LEN"
    and "stat_file fs (base @ ''/'' @ name) = Exists info" and "st_readable info" and "no_read_failure src"
    and "if st_executable info then run_program (base @ ''/'' @ name) = Output src
         else is_i32 (st_size info) \<and> open_file fs (base @ ''/'' @ name) = Some src"
  shows "\<exists>c'. answer fs run_program base buf c = Some (0, c')
    \<and> sunk (client_out c') = sunk (client_out c)
      @ (if st_executable info then ''HTTP/1.1 200 OK'' @ crlf @ crlf else ok_head (st_size info)) @ rest src"
proof -
  note g = assms(1)[unfolded gets_def]
  let ?f = "CHR ''/'' # name" and ?ps = "snd server_start"
  obtain st t' sock' where r: "HttpServer.read_request (client_in c) buf = (st, t', sock')" "0 < st"
    "HttpServer.read_request_head t' = Some (0, ?f)" using request_is_read[OF assms(1,2)] .
  have e: "(st_executable info \<and> run_program (base @ ''/'' @ name) = Output src \<and> no_read_failure src \<longrightarrow>
      (\<exists>fd' ps'. make_response fs run_program 1 ?ps base ?f (client_out c) = Some (0, fd', ps')
        \<and> sunk fd' = sunk (client_out c) @ ''HTTP/1.1 200 OK'' @ crlf @ crlf @ rest src
        \<and> current_child_pid ps' = 1 \<and> running ps' = insert 1 (running ?ps)))
    \<and> (\<not> st_executable info \<longrightarrow>
      make_response fs run_program 1 ?ps base ?f (client_out c)
        = map_option (\<lambda>(st, fd', left). (st, fd', ?ps)) (HttpServer.make_response fs base ?f (client_out c) 1))"
    by (rule make_response_executes[where name = name]) (use g assms(3,4) in auto)
  have "\<exists>fd' ps'. make_response fs run_program 1 ?ps base ?f (client_out c) = Some (0, fd', ps')
      \<and> sunk fd' = sunk (client_out c)
        @ (if st_executable info then ''HTTP/1.1 200 OK'' @ crlf @ crlf else ok_head (st_size info)) @ rest src"
  proof (cases "st_executable info")
    case True
    then show ?thesis using e assms(5,6) by auto
  next
    case False
    obtain fd' where "HttpServer.make_response fs base ?f (client_out c) 1 = Some (0, fd', 0)"
      "sunk fd' = sunk (client_out c) @ ok_head (st_size info) @ rest src"
      using make_response_output[OF _ _ _ _ refl, of "client_out c" name base ?f fs 1] g assms(3-6) False
      by (auto simp: MAX_FILEPATH_LEN_def)
    then show ?thesis using e False by auto
  qed
  then show ?thesis using r by (auto simp: answer_def handle_request_def Let_def)
qed

text \<open>
  A request for a file that is marked as executable and cannot be executed: the parent waits for the end of data that nobody sends, which is \<open>None\<close>.
\<close>

lemma exec_failure_hangs:
  assumes "progressing fd" and "name \<noteq> []" and "hd name \<noteq> CHR ''/''" and "length base + length name \<le> 498"
    and "stat_file fs (base @ ''/'' @ name) = Exists info" and "st_readable info" and "st_executable info"
    and "run_program (base @ ''/'' @ name) = ExecFailed"
  shows "make_response fs run_program pid ps base name fd = None"
  using assms by (cases name) (auto simp: make_response_def execute_file_def Let_def)

text \<open>
  As long as no file is executed while a child is still the current one, there is never a child that is not the
  current one, and when the server has been told to stop, no child is left running or unwaited.
\<close>

lemma no_child_left:
  assumes "lives (stop, ps)"
  shows "running ps \<union> zombies ps \<subseteq> {current_child_pid ps} \<and> (stop \<longrightarrow> running ps = {} \<and> zombies ps = {})"
  using lives_inv[OF assms] by (auto split: if_splits)

definition demo_fs :: file_system where
  "demo_fs = \<lparr>stat_file = (\<lambda>_. Exists \<lparr>st_readable = True, st_executable = True, st_size = 9\<rparr>), open_file = (\<lambda>_. None)\<rparr>"

definition demo_program :: "char list \<Rightarrow> exec_result" where
  "demo_program _ = Output \<lparr>rest = ''hi'', rsched = []\<rparr>"

definition demo_client :: client where
  "demo_client = \<lparr>client_in = \<lparr>rest = ''GET /p HTTP/1.1'' @ crlf @ crlf, rsched = []\<rparr>, client_out = \<lparr>sunk = [], wsched = []\<rparr>\<rparr>"

lemma demo_answer:
  "map_option (\<lambda>(status, c). (status, sunk (client_out c))) (answer demo_fs demo_program ''srv'' (replicate 40 NUL) demo_client)
    = Some (0, ''HTTP/1.1 200 OK'' @ crlf @ crlf @ ''hi'')"
  by code_simp

text \<open>
  When a second file is executed before the first child was waited for, the first child is forgotten: a
  stop signal leaves it running.
\<close>

lemma overlapping_child_forgotten:
  assumes "p \<in> running ps" and "p \<noteq> pid" and "0 < pid" and "execute_file run_program pid ps filepath = Some (fd, ps')"
    and "run_program filepath = Output src"
  shows "p \<in> running (snd (signal_handler pid SIGTERM (stop, ps')))"
  using assms by (auto simp: execute_file_def signal_handler_def kill_child_def waitpid_def)

theorem make_response_executes_witness:
  "\<exists>fd' ps'. make_response \<lparr>stat_file = (\<lambda>_. Exists \<lparr>st_readable = True, st_executable = True, st_size = 9\<rparr>), open_file = (\<lambda>_. None)\<rparr>
      (\<lambda>_. Output \<lparr>rest = ''hi'', rsched = [1]\<rparr>) 7 \<lparr>current_child_pid = - 1, running = {}, zombies = {}\<rparr>
      ''srv'' ''prog'' \<lparr>sunk = [], wsched = []\<rparr> = Some (0, fd', ps')
    \<and> sunk fd' = ''HTTP/1.1 200 OK'' @ crlf @ crlf @ ''hi''"
  using make_response_executes[of "\<lparr>sunk = [], wsched = []\<rparr>" "''prog''" "''prog''" "''srv''"
      "\<lparr>stat_file = (\<lambda>_. Exists \<lparr>st_readable = True, st_executable = True, st_size = 9\<rparr>), open_file = (\<lambda>_. None)\<rparr>"
      "\<lparr>st_readable = True, st_executable = True, st_size = 9\<rparr>" "\<lambda>_. Output \<lparr>rest = ''hi'', rsched = [1]\<rparr>"
      "\<lparr>rest = ''hi'', rsched = [1]\<rparr>" 7 "\<lparr>current_child_pid = - 1, running = {}, zombies = {}\<rparr>"]
  by (auto simp: progressing_def no_read_failure_def)

theorem no_child_left_witness:
  "running (snd (signal_handler 7 SIGINT (False, \<lparr>current_child_pid = 7, running = {7}, zombies = {}\<rparr>))) = {}"
proof -
  let ?ps = "\<lparr>current_child_pid = 7, running = {7}, zombies = {}\<rparr>"
  have "lives (False, ?ps)"
    by (rule lives.executed[OF lives.started, of 7 "\<lambda>_. Output \<lparr>rest = [], rsched = []\<rparr>" "[]"])
      (auto simp: execute_file_def)
  then have "lives (signal_handler 7 SIGINT (False, ?ps))"
    by (rule lives.signalled) (simp add: kill_child_def)
  then show ?thesis
    using no_child_left[of "fst (signal_handler 7 SIGINT (False, ?ps))" "snd (signal_handler 7 SIGINT (False, ?ps))"]
    by (simp add: signal_handler_def kill_child_def waitpid_def)
qed

end
