(* ===== verification/SimpleFS.thy ===== *)
theory SimpleFS
  imports PrintList
begin

section \<open>fuse_simplefs: a read-only file system in an image file\<close>

text \<open>
  \<^verbatim>\<open>inf24-0_fuse_simplefs/main.c\<close>.  The image starts with the number of files and a line with name and size for
  each; after an empty line come the contents.  The state is the table of files and the mapped image.  An access
  outside of the image, a use of a file that was not found or of a value that could not be scanned is
  \<open>None\<close>.  The kernel's calls of the operations are their arguments.

  The theorems say that an image built from files is opened to a file system with those files, and what
  exactly \<^verbatim>\<open>my_read\<close> returns, which is not always what it should.
\<close>

record file_info =
  f_name :: "char list"
  f_offset :: nat
  f_size :: nat

record filesystem =
  files :: "file_info list"
  memory :: "char list"

subsection \<open>Scanning the table\<close>

text \<open>\<^verbatim>\<open>fscanf\<close> of an unsigned number below \<open>bound\<close> and of a word.\<close>

definition scan_number :: "nat \<Rightarrow> char list \<Rightarrow> (nat \<times> char list) option" where
  "scan_number bound s =
     (let s = dropWhile is_ws s; ds = takeWhile is_digit s in
      if ds = [] \<or> bound \<le> dec_val ds then None else Some (dec_val ds, dropWhile is_digit s))"

definition scan_word :: "char list \<Rightarrow> (char list \<times> char list) option" where
  "scan_word s =
     (let s = dropWhile is_ws s; w = takeWhile (\<lambda>c. \<not> is_ws c) s in
      if w = [] then None else Some (w, dropWhile (\<lambda>c. \<not> is_ws c) s))"

text \<open>\<^verbatim>\<open>strstr(s, "\n\n")\<close> as an index.\<close>

fun blank_line :: "char list \<Rightarrow> nat option" where
  "blank_line (c # d # s) =
     (if c = CHR 0x0A \<and> d = CHR 0x0A then Some 0 else map_option Suc (blank_line (d # s)))"
| "blank_line _ = None"

definition NAME_MAX :: nat where
  "NAME_MAX = 255"

text \<open>The loop over the table; the name is stored in an array of \<^verbatim>\<open>NAME_MAX\<close> characters.\<close>

primrec scan_files :: "nat \<Rightarrow> nat \<Rightarrow> char list \<Rightarrow> file_info list option" where
  "scan_files 0 offset stream = Some []"
| "scan_files (Suc n) offset stream =
     do { (w, stream) \<leftarrow> scan_word stream;
          (sz, stream) \<leftarrow> scan_number (2 ^ 64) stream;
          if NAME_MAX < length w + 1 then None
          else do { fs \<leftarrow> scan_files n (offset + sz) stream;
                    Some (\<lparr>f_name = w, f_offset = offset, f_size = sz\<rparr> # fs) } }"

definition open_filesystem :: "char list \<Rightarrow> filesystem option" where
  "open_filesystem img =
     do { new_line \<leftarrow> blank_line (cstr img);
          let offset = new_line + 2;
          (cnt, stream) \<leftarrow> scan_number (2 ^ 32) img;
          fs \<leftarrow> scan_files cnt offset stream;
          Some \<lparr>files = fs, memory = img\<rparr> }"

subsection \<open>The operations\<close>

definition strncmp_equal :: "nat \<Rightarrow> char list \<Rightarrow> char list \<Rightarrow> bool" where
  "strncmp_equal n a b \<longleftrightarrow> take n (a @ [NUL]) = take n (b @ [NUL])"

primrec find_loop :: "file_info list \<Rightarrow> char list \<Rightarrow> file_info option" where
  "find_loop [] path = None"
| "find_loop (fi # fs) path =
     (if strncmp_equal NAME_MAX (f_name fi) path then Some fi else find_loop fs path)"

definition find_file :: "filesystem \<Rightarrow> char list \<Rightarrow> file_info option" where
  "find_file FS path = find_loop (files FS) (tl path)"

datatype error = ENOENT | EACCES

datatype file_stat = Directory | Regular nat

definition my_stat :: "filesystem \<Rightarrow> char list \<Rightarrow> error + file_stat" where
  "my_stat FS path =
     (if path = ''/'' then Inr Directory
      else case find_file FS path of None \<Rightarrow> Inl ENOENT | Some target \<Rightarrow> Inr (Regular (f_size target)))"

definition my_readdir :: "filesystem \<Rightarrow> char list \<Rightarrow> error + char list list" where
  "my_readdir FS path =
     (if path \<noteq> ''/'' then Inl ENOENT else Inr ([''.'', ''..''] @ map f_name (files FS)))"

definition my_open :: "filesystem \<Rightarrow> char list \<Rightarrow> bool \<Rightarrow> error + unit" where
  "my_open FS path read_only =
     (case find_file FS path of None \<Rightarrow> Inl ENOENT | Some target \<Rightarrow> if \<not> read_only then Inl EACCES else Inr ())"

text \<open>The bytes that are copied to \<^verbatim>\<open>out\<close>; their number is returned.  The subtractions are on \<^verbatim>\<open>size_t\<close>.\<close>

definition my_read :: "filesystem \<Rightarrow> char list \<Rightarrow> nat \<Rightarrow> nat \<Rightarrow> char list option" where
  "my_read FS path sz off =
     (case find_file FS path of
        None \<Rightarrow> None
      | Some target \<Rightarrow>
          let rd = (if to_size (int (f_size target) - int off) < to_size (int sz - int off)
                    then nat (to_size (int (f_size target) - int off)) else sz)
          in if rd = 0 then Some []
             else if length (memory FS) < f_offset target + off + rd then None
             else Some (take rd (drop (f_offset target + off) (memory FS))))"

subsection \<open>Images\<close>

definition entry :: "char list \<times> char list \<Rightarrow> char list" where
  "entry f = fst f @ '' '' @ dec_digits (length (snd f))"

definition image_lines :: "(char list \<times> char list) list \<Rightarrow> char list list" where
  "image_lines fs = dec_digits (length fs) # map entry fs"

definition lines :: "char list list \<Rightarrow> char list" where
  "lines ls = concat (map (\<lambda>l. l @ [CHR 0x0A]) ls)"

definition mk_image :: "(char list \<times> char list) list \<Rightarrow> char list" where
  "mk_image fs = lines (image_lines fs) @ CHR 0x0A # concat (map snd fs)"

definition valid_name :: "char list \<Rightarrow> bool" where
  "valid_name w \<longleftrightarrow> w \<noteq> [] \<and> length w < NAME_MAX \<and> (\<forall>c\<in>set w. \<not> is_ws c \<and> c \<noteq> NUL)"

text \<open>The table that should result.\<close>

fun table :: "nat \<Rightarrow> (char list \<times> char list) list \<Rightarrow> file_info list" where
  "table offset [] = []"
| "table offset ((n, c) # fs) = \<lparr>f_name = n, f_offset = offset, f_size = length c\<rparr> # table (offset + length c) fs"

lemma scan_number_digits:
  assumes "n < bound" "\<forall>c\<in>set ws. is_ws c" "\<not> is_digit d"
  shows "scan_number bound (ws @ dec_digits n @ d # s) = Some (n, d # s)"
proof -
  obtain c cs where d: "dec_digits n = c # cs" using dec_digits_nonempty[of n] by (cases "dec_digits n") auto
  then have "is_digit c" using dec_digits_are_digits[of n] by simp
  then have "dropWhile is_ws (ws @ dec_digits n @ d # s) = dec_digits n @ d # s"
    using assms(2) d digit_not_ws by (simp add: dropWhile_append2)
  moreover have "takeWhile is_digit (dec_digits n @ d # s) = dec_digits n"
    "dropWhile is_digit (dec_digits n @ d # s) = d # s"
    using dec_digits_are_digits[of n] assms(3) by (simp_all add: takeWhile_append2 dropWhile_append2)
  ultimately show ?thesis using assms(1) dec_val_digits[of n] d by (simp add: scan_number_def Let_def)
qed

lemma scan_word_name:
  assumes "valid_name w" "\<forall>c\<in>set ws. is_ws c" "is_ws d"
  shows "scan_word (ws @ w @ d # s) = Some (w, d # s)"
proof -
  obtain c cs where w: "w = c # cs" "\<not> is_ws c" using assms(1) by (cases w) (auto simp: valid_name_def)
  then have "dropWhile is_ws (ws @ w @ d # s) = w @ d # s" using assms(2) by (simp add: dropWhile_append2)
  moreover have "takeWhile (\<lambda>c. \<not> is_ws c) (w @ d # s) = w" "dropWhile (\<lambda>c. \<not> is_ws c) (w @ d # s) = d # s"
    using assms(1,3) by (auto simp: valid_name_def takeWhile_append2 dropWhile_append2)
  ultimately show ?thesis using w by (simp add: scan_word_def Let_def)
qed

lemma scan_files_table:
  "\<forall>f\<in>set fs. valid_name (fst f) \<and> length (snd f) < 2 ^ 64 \<Longrightarrow>
   scan_files (length fs) offset (CHR 0x0A # lines (map entry fs) @ CHR 0x0A # s) = Some (table offset fs)"
proof (induction fs arbitrary: offset)
  case (Cons f fs)
  obtain n c where f: "f = (n, c)" by fastforce
  let ?tail = "lines (map entry fs) @ CHR 0x0A # s"
  have v: "valid_name n" "length c < 2 ^ 64" using Cons.prems f by auto
  have "lines (map entry (f # fs)) @ CHR 0x0A # s
      = n @ CHR '' '' # dec_digits (length c) @ CHR 0x0A # ?tail"
    by (simp add: lines_def entry_def f)
  moreover have "scan_word ([CHR 0x0A] @ n @ CHR '' '' # dec_digits (length c) @ CHR 0x0A # ?tail)
      = Some (n, CHR '' '' # dec_digits (length c) @ CHR 0x0A # ?tail)"
    by (rule scan_word_name[OF v(1)]) (simp_all add: newline_char)
  moreover have "scan_number (2 ^ 64) ([CHR '' ''] @ dec_digits (length c) @ CHR 0x0A # ?tail)
      = Some (length c, CHR 0x0A # ?tail)"
    by (rule scan_number_digits[OF v(2)]) (simp_all add: newline_char)
  ultimately show ?case
    using Cons.IH[of "offset + length c"] Cons.prems v(1) f by (simp add: valid_name_def)
qed simp

text \<open>The first empty line comes after the table.\<close>

lemma blank_line_line:
  "CHR 0x0A \<notin> set l \<Longrightarrow> l \<noteq> [] \<Longrightarrow>
   blank_line (l @ CHR 0x0A # s) = (case s of [] \<Rightarrow> None
     | c # cs \<Rightarrow> if c = CHR 0x0A then Some (length l) else map_option (\<lambda>k. length l + 1 + k) (blank_line s))"
proof (induction l)
  case (Cons a l)
  show ?case
  proof (cases l)
    case Nil
    have "(\<lambda>x. Suc (Suc x)) = (+) (Suc (Suc 0))" by auto
    then show ?thesis using Cons.prems Nil by (cases s) (auto simp: option.map_comp comp_def)
  next
    case (Cons b l')
    have "(\<lambda>x. Suc (Suc (Suc (length l' + x)))) = (+) (Suc (Suc (Suc (length l'))))" by auto
    then show ?thesis using Cons.IH Cons.prems Cons
      by (auto split: list.splits simp: option.map_comp comp_def)
  qed
qed simp

lemma blank_line_lines:
  "ls \<noteq> [] \<Longrightarrow> \<forall>l\<in>set ls. CHR 0x0A \<notin> set l \<and> l \<noteq> [] \<Longrightarrow>
   map_option (\<lambda>k. k + 2) (blank_line (lines ls @ CHR 0x0A # s)) = Some (length (lines ls) + 1)"
proof (induction ls)
  case (Cons l ls)
  show ?case
  proof (cases "ls = []")
    case True
    then show ?thesis using Cons.prems by (simp add: lines_def blank_line_line)
  next
    case False
    obtain c cs where c: "lines ls @ CHR 0x0A # s = c # cs" "c \<noteq> CHR 0x0A"
    proof -
      obtain l' ls' where "ls = l' # ls'" using False by (cases ls) auto
      moreover from this obtain c cs where "l' = c # cs" using Cons.prems by (cases l') auto
      ultimately show thesis using that[of c] Cons.prems by (auto simp: lines_def)
    qed
    obtain k where k: "blank_line (lines ls @ CHR 0x0A # s) = Some k" "k + 2 = length (lines ls) + 1"
      using Cons.IH[OF False] Cons.prems by auto
    have "blank_line (lines (l # ls) @ CHR 0x0A # s) = Some (length l + 1 + k)"
      using blank_line_line[of l "lines ls @ CHR 0x0A # s"] Cons.prems c k(1) by (simp add: lines_def)
    then show ?thesis using k(2) by (simp add: lines_def)
  qed
qed simp

lemma open_mk_image:
  assumes "\<forall>f\<in>set fs. valid_name (fst f) \<and> length (snd f) < 2 ^ 64" "length fs < 2 ^ 32"
  shows "open_filesystem (mk_image fs)
    = Some \<lparr>files = table (length (lines (image_lines fs)) + 1) fs, memory = mk_image fs\<rparr>"
proof -
  let ?ls = "image_lines fs" and ?data = "concat (map snd fs)"
  have dd: "CHR 0x0A \<notin> set (dec_digits n)" "NUL \<notin> set (dec_digits n)" for n
    using dec_digits_are_digits[of n] by (auto simp: is_digit_def NUL_def)
  have vn: "CHR 0x0A \<notin> set n \<and> n \<noteq> [] \<and> NUL \<notin> set n" if "(n, c) \<in> set fs" for n c
    using assms(1) that newline_char(1) by (fastforce simp: valid_name_def)
  have ok: "CHR 0x0A \<notin> set l \<and> l \<noteq> [] \<and> NUL \<notin> set l" if "l \<in> set ?ls" for l
    using that vn dd dec_digits_nonempty by (auto simp: image_lines_def entry_def NUL_def)
  have nul: "NUL \<notin> set (lines ?ls @ [CHR 0x0A])" using ok by (auto simp: lines_def NUL_def)
  have "cstr (mk_image fs) = lines ?ls @ CHR 0x0A # cstr ?data"
  proof -
    have "cstr (a @ b) = a @ cstr b" if "NUL \<notin> set a" for a b
      using that by (induction a) auto
    from this[OF nul] show ?thesis by (simp add: mk_image_def)
  qed
  then have "map_option (\<lambda>k. k + 2) (blank_line (cstr (mk_image fs))) = Some (length (lines ?ls) + 1)"
    using blank_line_lines[of ?ls "cstr ?data"] ok by (auto simp: image_lines_def)
  then obtain k where k: "blank_line (cstr (mk_image fs)) = Some k" "k + 2 = length (lines ?ls) + 1" by auto
  have img: "mk_image fs = [] @ dec_digits (length fs) @ CHR 0x0A # lines (map entry fs) @ CHR 0x0A # ?data"
    by (simp add: mk_image_def image_lines_def lines_def)
  have "scan_number (2 ^ 32) (mk_image fs) = Some (length fs, CHR 0x0A # lines (map entry fs) @ CHR 0x0A # ?data)"
    unfolding img by (rule scan_number_digits[OF assms(2)]) (simp_all add: newline_char)
  moreover have "scan_files (length fs) (k + 2) (CHR 0x0A # lines (map entry fs) @ CHR 0x0A # ?data) = Some (table (k + 2) fs)"
    using scan_files_table[OF assms(1)] .
  ultimately show ?thesis using k unfolding open_filesystem_def by (simp add: Let_def)
qed

text \<open>Where the contents of a file stand.\<close>

lemma table_contents:
  "(n, c) \<in> set fs \<Longrightarrow> distinct (map fst fs) \<Longrightarrow> \<forall>f\<in>set fs. valid_name (fst f) \<Longrightarrow>
   drop off0 mem = concat (map snd fs) \<Longrightarrow>
   \<exists>o'. find_loop (table off0 fs) n = Some \<lparr>f_name = n, f_offset = o', f_size = length c\<rparr>
     \<and> off0 \<le> o' \<and> take (length c) (drop o' mem) = c \<and> length c \<le> length mem - o'"
proof (induction fs arbitrary: off0)
  case (Cons f fs)
  obtain n1 c1 where f: "f = (n1, c1)" by fastforce
  have len: "length c1 \<le> length mem - off0" using arg_cong[OF Cons.prems(4), of length] f by simp
  show ?case
  proof (cases "n1 = n")
    case True
    then have "c1 = c" using Cons.prems(1,2) f by (auto simp: rev_image_eqI)
    then show ?thesis using True f Cons.prems(4) len by (simp add: strncmp_equal_def)
  next
    case False
    have "valid_name n1" "valid_name n" using Cons.prems(1,3) f by fastforce+
    then have vn: "length n1 < 255" "length n < 255" "NUL \<notin> set n1" "NUL \<notin> set n"
      by (auto simp: valid_name_def NAME_MAX_def)
    then have "\<not> strncmp_equal NAME_MAX n1 n"
      using False by (simp add: strncmp_equal_def NAME_MAX_def)
    moreover have "drop (off0 + length c1) mem = concat (map snd fs)"
    proof -
      have "drop (off0 + length c1) mem = drop (length c1) (drop off0 mem)" by (simp add: add.commute)
      then show ?thesis using Cons.prems(4) f by simp
    qed
    moreover have "(n, c) \<in> set fs" using Cons.prems(1) f False by auto
    ultimately show ?thesis using Cons.IH[of "off0 + length c1"] Cons.prems(2,3) f by auto
  qed
qed simp

lemma mk_image_data: "drop (length (lines (image_lines fs)) + 1) (mk_image fs) = concat (map snd fs)"
  by (simp add: mk_image_def)

lemma table_names: "map f_name (table o' fs) = map fst fs"
  by (induction fs arbitrary: o') auto

lemma my_read_count:
  assumes "sz < 2 ^ 63" "n < 2 ^ 63" "off \<le> n"
  shows "(if to_size (int n - int off) < to_size (int sz - int off) then nat (to_size (int n - int off)) else sz)
    = (if off \<le> sz \<and> sz \<le> n then sz else n - off)"
proof -
  have a: "to_size (int n - int off) = int n - int off" using assms by (intro to_size_id) auto
  show ?thesis
  proof (cases "off \<le> sz")
    case True
    then have "to_size (int sz - int off) = int sz - int off" using assms by (intro to_size_id) auto
    then show ?thesis using True a assms(3) by (auto simp: nat_diff_distrib)
  next
    case False
    have "to_size (int sz - int off) = (int sz - int off + 2 ^ 64) mod 2 ^ 64" by (simp add: to_size_def)
    also have "\<dots> = int sz - int off + 2 ^ 64" using False assms by (intro mod_pos_pos_trivial) auto
    finally show ?thesis using False a assms by (auto simp: nat_diff_distrib)
  qed
qed

subsection \<open>Properties\<close>

text \<open>
  An image built from files with distinct valid names is opened; every file is found under its name with its size
  and may be opened for reading only, its contents are read back from the start, and the root directory lists
  the names in order.
\<close>

lemma image_roundtrip:
  assumes "\<forall>f\<in>set fs. valid_name (fst f) \<and> length (snd f) < 2 ^ 63" and "distinct (map fst fs)" and "length fs < 2 ^ 32"
  shows "\<exists>FS. open_filesystem (mk_image fs) = Some FS
    \<and> (\<forall>(n, c)\<in>set fs. my_stat FS (CHR ''/'' # n) = Inr (Regular (length c)) \<and> my_open FS (CHR ''/'' # n) True = Inr ()
        \<and> my_open FS (CHR ''/'' # n) False = Inl EACCES
        \<and> (\<forall>sz<2 ^ 63. my_read FS (CHR ''/'' # n) sz 0 = Some (take sz c)))
    \<and> my_readdir FS ''/'' = Inr ([''.'', ''..''] @ map fst fs)"
proof -
  let ?off = "length (lines (image_lines fs)) + 1"
  let ?FS = "\<lparr>files = table ?off fs, memory = mk_image fs\<rparr>"
  have small: "length (snd f) < 2 ^ 64" if "f \<in> set fs" for f using assms(1) that by force
  have opened: "open_filesystem (mk_image fs) = Some ?FS"
    using open_mk_image[of fs] assms(1,3) small by blast
  have each: "my_stat ?FS (CHR ''/'' # n) = Inr (Regular (length c)) \<and> my_open ?FS (CHR ''/'' # n) True = Inr ()
        \<and> my_open ?FS (CHR ''/'' # n) False = Inl EACCES
        \<and> (\<forall>sz<2 ^ 63. my_read ?FS (CHR ''/'' # n) sz 0 = Some (take sz c))" if nc: "(n, c) \<in> set fs" for n c
  proof -
    have "\<forall>f\<in>set fs. valid_name (fst f)" using assms(1) by blast
    from table_contents[OF nc assms(2) this mk_image_data] obtain o' where
      o': "find_loop (table ?off fs) n = Some \<lparr>f_name = n, f_offset = o', f_size = length c\<rparr>"
        "take (length c) (drop o' (mk_image fs)) = c" "length c \<le> length (mk_image fs) - o'" by blast
    have v: "n \<noteq> []" "length c < 2 ^ 63" using assms(1) nc by (auto simp: valid_name_def)
    have "my_read ?FS (CHR ''/'' # n) sz 0 = Some (take sz c)" if "sz < 2 ^ 63" for sz
    proof -
      have "take (min sz (length c)) (drop o' (mk_image fs)) = take sz c"
        using o'(2) by (metis take_take min.commute)
      then show ?thesis
        using o'(1,3) my_read_count[OF that v(2), of 0]
        by (auto simp: my_read_def find_file_def Let_def min_def not_le split: if_splits)
    qed
    then show ?thesis using o'(1) v(1) by (simp add: my_stat_def my_open_def find_file_def)
  qed
  show ?thesis
    by (intro exI[of _ ?FS] conjI) (use opened each in \<open>auto simp: my_readdir_def table_names\<close>)
qed

text \<open>
  What \<^verbatim>\<open>my_read\<close> copies for a request of \<open>sz\<close> bytes at \<open>off\<close> of a file of \<open>n\<close> bytes: \<open>sz\<close> bytes when
  \<open>off \<le> sz \<le> n\<close> and \<open>n - off\<close> bytes otherwise.  So a request that starts after its own size and ends inside the file
  overruns the caller's buffer, and one that starts inside the file and ends behind it may return bytes
  that are not of the file.
\<close>

lemma my_read_exact:
  assumes "find_file FS path = Some t" and "f_offset t + f_size t \<le> length (memory FS)"
    and "f_size t < 2 ^ 63" and "sz < 2 ^ 63" and "off \<le> f_size t"
  shows "my_read FS path sz off =
      (let rd = if off \<le> sz \<and> sz \<le> f_size t then sz else f_size t - off in
       if rd \<noteq> 0 \<and> length (memory FS) < f_offset t + off + rd then None
       else Some (take rd (drop (f_offset t + off) (memory FS))))
    \<and> (sz < off \<and> off + sz < f_size t \<longrightarrow> (\<exists>bs. my_read FS path sz off = Some bs \<and> sz < length bs))
    \<and> (off \<le> sz \<and> sz \<le> f_size t \<and> f_size t < off + sz \<and> f_offset t + off + sz \<le> length (memory FS) \<longrightarrow>
        (\<exists>bs. my_read FS path sz off = Some bs \<and> f_size t - off < length bs))"
proof -
  have m: "my_read FS path sz off =
      (let rd = if off \<le> sz \<and> sz \<le> f_size t then sz else f_size t - off in
       if rd \<noteq> 0 \<and> length (memory FS) < f_offset t + off + rd then None
       else Some (take rd (drop (f_offset t + off) (memory FS))))"
    using my_read_count[OF assms(4,3,5)] by (simp add: my_read_def assms(1) Let_def del: take_eq_Nil)
  show ?thesis
    using assms(2,5) by (auto simp: m Let_def)
qed

theorem image_roundtrip_witness:
  "\<exists>FS. open_filesystem (mk_image [(''a'', ''xyz''), (''bc'', [])]) = Some FS
    \<and> my_read FS ''/a'' 2 0 = Some ''xy'' \<and> my_readdir FS ''/'' = Inr [''.'', ''..'', ''a'', ''bc'']"
  using image_roundtrip[of "[(''a'', ''xyz''), (''bc'', [])]"]
  by (auto simp: valid_name_def NAME_MAX_def is_ws_def NUL_def)

theorem my_read_exact_witness:
  "my_read \<lparr>files = [\<lparr>f_name = ''f'', f_offset = 2, f_size = 6\<rparr>], memory = ''__abcdef__''\<rparr> ''/f'' 1 2 = Some ''cdef''"
proof -
  have "find_file \<lparr>files = [\<lparr>f_name = ''f'', f_offset = 2, f_size = 6\<rparr>], memory = ''__abcdef__''\<rparr> ''/f''
      = Some \<lparr>f_name = ''f'', f_offset = 2, f_size = 6\<rparr>"
    by (simp add: find_file_def strncmp_equal_def)
  from my_read_exact[OF this, of 1 2] show ?thesis by simp
qed

subsection \<open>The mounted file system\<close>

text \<open>
  FUSE calls the operations of the table \<^verbatim>\<open>operations\<close> while the image is open; \<open>None\<close> is an undefined access in one of
  them.  The paths of FUSE begin with a slash, which the requests leave out.
\<close>

datatype request = Getattr "char list" | Readdir "char list" | Open "char list" bool | Read "char list" nat nat

datatype reply = Attr "error + file_stat" | Names "error + char list list" | Opened "error + unit" | Data "char list"

fun operation :: "filesystem \<Rightarrow> request \<Rightarrow> reply option" where
  "operation FS (Getattr p) = Some (Attr (my_stat FS (CHR ''/'' # p)))"
| "operation FS (Readdir p) = Some (Names (my_readdir FS (CHR ''/'' # p)))"
| "operation FS (Open p read_only) = Some (Opened (my_open FS (CHR ''/'' # p) read_only))"
| "operation FS (Read p sz off) = map_option Data (my_read FS (CHR ''/'' # p) sz off)"

fun session :: "filesystem \<Rightarrow> request list \<Rightarrow> reply list option" where
  "session FS [] = Some []"
| "session FS (r # rs) = (case operation FS r of None \<Rightarrow> None | Some a \<Rightarrow> map_option (Cons a) (session FS rs))"

definition close_filesystem :: "filesystem \<Rightarrow> filesystem" where
  "close_filesystem FS = FS\<lparr>files := [], memory := []\<rparr>"

text \<open>
  The image is \<open>None\<close> when it cannot be opened; \<open>ret\<close> is what \<^verbatim>\<open>fuse_main\<close> returns.  The result is the exit status, the replies
  and the table that is left.
\<close>

definition simplefs_main :: "char list option \<Rightarrow> request list \<Rightarrow> int \<Rightarrow> (int \<times> reply list \<times> filesystem) option" where
  "simplefs_main source requests ret =
     (case source of
        None \<Rightarrow> Some (1, [], \<lparr>files = [], memory = []\<rparr>)
      | Some img \<Rightarrow>
          (case open_filesystem img of
             None \<Rightarrow> None
           | Some FS \<Rightarrow> map_option (\<lambda>replies. (ret, replies, close_filesystem FS)) (session FS requests)))"

text \<open>The file system that the image stands for: a list of names with their contents.\<close>

type_synonym contents = "(char list \<times> char list) list"

fun serve :: "contents \<Rightarrow> request \<Rightarrow> reply" where
  "serve fs (Getattr p) = Attr (if p = [] then Inr Directory
     else case map_of fs p of None \<Rightarrow> Inl ENOENT | Some c \<Rightarrow> Inr (Regular (length c)))"
| "serve fs (Readdir p) = Names (if p = [] then Inr ([''.'', ''..''] @ map fst fs) else Inl ENOENT)"
| "serve fs (Open p read_only) = Opened (case map_of fs p of None \<Rightarrow> Inl ENOENT
     | Some c \<Rightarrow> if read_only then Inr () else Inl EACCES)"
| "serve fs (Read p sz off) = Data (take sz (drop off (the (map_of fs p))))"

text \<open>
  A request that FUSE may make: names without NUL, and only files that exist are read, within their size.  The last line leaves out the
  requests on which the computation of the number of bytes is wrong.
\<close>

fun possible_request :: "contents \<Rightarrow> request \<Rightarrow> bool" where
  "possible_request fs (Read p sz off) = (case map_of fs p of
     None \<Rightarrow> False
   | Some c \<Rightarrow> sz < 2 ^ 63 \<and> off \<le> length c
       \<and> (if off \<le> sz \<and> sz \<le> length c then off + sz \<le> length c else length c - off \<le> sz))"
| "possible_request fs (Getattr p) = (NUL \<notin> set p)"
| "possible_request fs (Readdir p) = (NUL \<notin> set p)"
| "possible_request fs (Open p read_only) = (NUL \<notin> set p)"

lemma strncmp_valid:
  assumes "valid_name n" "NUL \<notin> set p"
  shows "strncmp_equal NAME_MAX n p \<longleftrightarrow> n = p"
proof
  assume "strncmp_equal NAME_MAX n p"
  moreover have "take NAME_MAX (n @ [NUL]) = n @ [NUL]" using assms(1) by (intro take_all) (simp add: valid_name_def)
  ultimately have e: "n @ [NUL] = take NAME_MAX (p @ [NUL])" by (simp only: strncmp_equal_def)
  then have "NUL \<in> set (take NAME_MAX (p @ [NUL]))" by (metis in_set_conv_decomp)
  then have "length p < NAME_MAX" using assms(2) by (cases "NAME_MAX - length p") (auto dest: in_set_takeD)
  then show "n = p" using e by simp
qed (simp add: strncmp_equal_def)

lemma find_absent:
  "\<forall>f\<in>set fs. valid_name (fst f) \<Longrightarrow> NUL \<notin> set p \<Longrightarrow> map_of fs p = None \<Longrightarrow> find_loop (table o' fs) p = None"
proof (induction fs arbitrary: o')
  case (Cons f fs)
  then show ?case by (cases f) (auto simp: strncmp_valid split: if_splits)
qed simp

lemma table_file:
  assumes "\<forall>f\<in>set fs. valid_name (fst f)" "distinct (map fst fs)" "map_of fs p = Some c"
  obtains o' where "find_file \<lparr>files = table (length (lines (image_lines fs)) + 1) fs, memory = mk_image fs\<rparr> (CHR ''/'' # p)
      = Some \<lparr>f_name = p, f_offset = o', f_size = length c\<rparr>"
    "take (length c) (drop o' (mk_image fs)) = c" "length c \<le> length (mk_image fs) - o'" "p \<noteq> []" "NUL \<notin> set p"
proof -
  have m: "(p, c) \<in> set fs" using assms(3) by (rule map_of_SomeD)
  moreover have "valid_name p" using assms(1) m by force
  ultimately show ?thesis using that table_contents[OF m assms(2,1) mk_image_data]
    by (auto simp: find_file_def valid_name_def)
qed

lemma read_served:
  assumes "\<forall>f\<in>set fs. valid_name (fst f) \<and> length (snd f) < 2 ^ 63" "distinct (map fst fs)" "map_of fs p = Some c"
    and "possible_request fs (Read p sz off)"
  shows "my_read \<lparr>files = table (length (lines (image_lines fs)) + 1) fs, memory = mk_image fs\<rparr> (CHR ''/'' # p) sz off
    = Some (take sz (drop off c))"
proof -
  have "\<forall>f\<in>set fs. valid_name (fst f)" using assms(1) by blast
  then obtain o' where o': "find_file \<lparr>files = table (length (lines (image_lines fs)) + 1) fs, memory = mk_image fs\<rparr> (CHR ''/'' # p)
      = Some \<lparr>f_name = p, f_offset = o', f_size = length c\<rparr>"
    "take (length c) (drop o' (mk_image fs)) = c" "length c \<le> length (mk_image fs) - o'"
    using table_file[OF _ assms(2,3)] by metis
  have q: "sz < 2 ^ 63" "off \<le> length c" "if off \<le> sz \<and> sz \<le> length c then off + sz \<le> length c else length c - off \<le> sz"
    using assms(3,4) by auto
  have "length c < 2 ^ 63" using assms(1) map_of_SomeD[OF assms(3)] by force
  then have cnt: "(if to_size (int (length c) - int off) < to_size (int sz - int off) then nat (to_size (int (length c) - int off)) else sz)
      = min sz (length c - off)"
    using my_read_count[OF q(1) _ q(2)] q by (auto simp: min_def split: if_splits)
  have "drop (o' + off) (mk_image fs) = drop off (drop o' (mk_image fs))" by (simp add: add.commute)
  moreover have "take (min sz (length c - off)) (drop off (drop o' (mk_image fs))) = take sz (drop off c)"
    using o'(2) by (metis drop_take min.commute take_take)
  moreover have "o' + off + min sz (length c - off) \<le> length (mk_image fs) \<or> min sz (length c - off) = 0"
    using o'(3) q(2) by (cases "length c = 0") (auto simp: min_def)
  ultimately show ?thesis
    using o'(1) cnt by (auto simp: my_read_def Let_def)
qed

lemma operation_serves:
  assumes "\<forall>f\<in>set fs. valid_name (fst f) \<and> length (snd f) < 2 ^ 63" "distinct (map fst fs)" "possible_request fs r"
  shows "operation \<lparr>files = table (length (lines (image_lines fs)) + 1) fs, memory = mk_image fs\<rparr> r = Some (serve fs r)"
proof -
  let ?FS = "\<lparr>files = table (length (lines (image_lines fs)) + 1) fs, memory = mk_image fs\<rparr>"
  have v: "\<forall>f\<in>set fs. valid_name (fst f)" using assms(1) by blast
  have found: "\<exists>o'. find_file ?FS (CHR ''/'' # p) = Some \<lparr>f_name = p, f_offset = o', f_size = length c\<rparr> \<and> p \<noteq> []"
    if "map_of fs p = Some c" for p c
    using table_file[OF v assms(2) that] by metis
  have absent: "find_file ?FS (CHR ''/'' # p) = None" if "map_of fs p = None" "NUL \<notin> set p" for p
    using find_absent[OF v that(2,1)] by (simp add: find_file_def)
  show ?thesis
  proof (cases r)
    case (Getattr p)
    then show ?thesis using found[of p] absent[of p] assms(3)
      by (cases "map_of fs p") (auto simp: my_stat_def)
  next
    case (Readdir p)
    then show ?thesis by (simp add: my_readdir_def table_names)
  next
    case (Open p ro)
    then show ?thesis using found[of p] absent[of p] assms(3)
      by (cases "map_of fs p") (auto simp: my_open_def)
  next
    case (Read p sz off)
    then show ?thesis using read_served[OF assms(1,2), of p _ sz off] assms(3) by (auto split: option.splits)
  qed
qed

lemma session_serves:
  "list_all (possible_request fs) rs \<Longrightarrow> (\<And>r. possible_request fs r \<Longrightarrow> operation FS r = Some (serve fs r)) \<Longrightarrow>
    session FS rs = Some (map (serve fs) rs)"
  by (induction rs) simp_all

text \<open>
  C35: The mounted file system.  For an image built from files with distinct valid names, and for every sequence of requests,
  the replies are those of the list of names and contents: attributes, the directory, opening for reading only, errors for names that do
  not exist, and the bytes of every read that is not one of those for which the number of bytes is computed wrongly.  At the end the
  table is empty and the program returns what \<^verbatim>\<open>fuse_main\<close> returned.
\<close>

theorem simplefs_main_serves:
  assumes "\<forall>f\<in>set fs. valid_name (fst f) \<and> length (snd f) < 2 ^ 63" "distinct (map fst fs)" "length fs < 2 ^ 32"
    and "list_all (possible_request fs) requests"
  shows "simplefs_main (Some (mk_image fs)) requests ret = Some (ret, map (serve fs) requests, \<lparr>files = [], memory = []\<rparr>)"
proof -
  let ?FS = "\<lparr>files = table (length (lines (image_lines fs)) + 1) fs, memory = mk_image fs\<rparr>"
  have "length (snd f) < 2 ^ 64" if "f \<in> set fs" for f using assms(1) that by force
  then have "open_filesystem (mk_image fs) = Some ?FS" using open_mk_image[of fs] assms(1,3) by blast
  moreover have "session ?FS requests = Some (map (serve fs) requests)"
    using assms(4) operation_serves[OF assms(1,2)] by (rule session_serves)
  ultimately show ?thesis by (simp add: simplefs_main_def close_filesystem_def)
qed

lemma simplefs_main_witness:
  "simplefs_main (Some (mk_image [(''a'', ''xyz''), (''bc'', [])]))
      [Getattr ''a'', Read ''a'' 2 0, Read ''a'' 1 2, Getattr ''x'', Open ''bc'' False, Readdir []] 0
    = Some (0, [Attr (Inr (Regular 3)), Data ''xy'', Data ''z'', Attr (Inl ENOENT), Opened (Inl EACCES),
        Names (Inr [''.'', ''..'', ''a'', ''bc''])], \<lparr>files = [], memory = []\<rparr>)"
  by (subst simplefs_main_serves) (auto simp: valid_name_def NAME_MAX_def is_ws_def NUL_def)

end
