(* ===== verification/MergeFS.thy ===== *)
theory MergeFS
  imports HttpServer
begin

section \<open>fuse_mergefs: several directories as one\<close>

text \<open>
  \<^verbatim>\<open>inf24-1_fuse_mergefs/main.c\<close>.  The underlying system is what \<^verbatim>\<open>stat\<close>, \<^verbatim>\<open>opendir\<close> and \<^verbatim>\<open>open\<close> return for a path.
  A write outside of an array is \<open>None\<close>.  An open file is its contents and the position of its
  descriptor.  The theorems say that the newest version of a file is the one that is found, that a listing
  has every name once if the table of names was empty, and what becomes of reads at an offset.
\<close>

definition max_number_of_files :: nat where "max_number_of_files = 100"
definition max_path_size :: nat where "max_path_size = 500"

record stat_info =
  st_mtime :: int
  st_dir :: bool
  st_length :: nat

record my_file =
  if_directory :: bool
  error_code :: int
  found_stat :: stat_info
  found_path :: "char list"

text \<open>What the program asks the system; a failing call yields an error number.\<close>

record underlying =
  sys_stat :: "char list \<Rightarrow> int + stat_info"
  sys_listdir :: "char list \<Rightarrow> char list list option"
  sys_open :: "char list \<Rightarrow> int + char list"

definition ENOENT :: int where "ENOENT = 2"
definition EACCES :: int where "EACCES = 13"

subsection \<open>Looking up a path\<close>

text \<open>The loop over the directories; \<open>exists\<close> is the local variable of that name.\<close>

fun find_loop :: "underlying \<Rightarrow> char list \<Rightarrow> char list list \<Rightarrow> bool \<Rightarrow> my_file \<Rightarrow> my_file option" where
  "find_loop u path [] exists f = Some f"
| "find_loop u path (d # ds) exists f =
     (if max_path_size < length (d @ path) + 1 then None
      else case sys_stat u (d @ path) of
        Inr st \<Rightarrow>
          if \<not> exists \<or> st_mtime (found_stat f) < st_mtime st
          then find_loop u path ds True
            (f\<lparr>error_code := 0, if_directory := st_dir st, found_path := d @ path, found_stat := st\<rparr>)
          else find_loop u path ds exists f
      | Inl e \<Rightarrow> find_loop u path ds exists (if exists then f else f\<lparr>error_code := e\<rparr>))"

text \<open>\<open>uninit\<close> is what the stack holds for the local \<^verbatim>\<open>my_file\<close>.\<close>

definition find_file :: "my_file \<Rightarrow> underlying \<Rightarrow> char list list \<Rightarrow> char list \<Rightarrow> my_file option" where
  "find_file uninit u directories path =
     find_loop u path directories False (uninit\<lparr>error_code := ENOENT, if_directory := False\<rparr>)"

datatype stat_reply = RootDir | DirStat stat_info | FileStat stat_info

definition custom_stat :: "my_file \<Rightarrow> underlying \<Rightarrow> char list list \<Rightarrow> char list \<Rightarrow> (int + stat_reply) option" where
  "custom_stat uninit u directories path =
     (if path = ''/'' then Some (Inr RootDir)
      else case find_file uninit u directories path of
        None \<Rightarrow> None
      | Some f \<Rightarrow> if error_code f \<noteq> 0 then Some (Inl (- error_code f))
                  else if if_directory f then Some (Inr (DirStat (found_stat f)))
                  else Some (Inr (FileStat (found_stat f))))"

subsection \<open>Listing\<close>

text \<open>The table of names is a list of strings, an empty string a free entry.\<close>

fun check_new_file :: "char list list \<Rightarrow> char list \<Rightarrow> bool \<times> char list list" where
  "check_new_file [] path = (False, [])"
| "check_new_file (d # ds) path =
     (if d = [] then (True, path # ds)
      else if d = path then (False, d # ds)
      else case check_new_file ds path of (new, ds') \<Rightarrow> (new, d # ds'))"

fun list_entries :: "char list list \<Rightarrow> char list list \<Rightarrow> char list list \<times> char list list" where
  "list_entries dict [] = ([], dict)"
| "list_entries dict (e # es) =
     (if e \<noteq> [] \<and> hd e = CHR ''.'' then list_entries dict es
      else case check_new_file dict e of (new, dict') \<Rightarrow>
        case list_entries dict' es of (out, dict'') \<Rightarrow> (if new then e # out else out, dict''))"

fun list_directories :: "underlying \<Rightarrow> char list \<Rightarrow> char list list \<Rightarrow> char list list \<Rightarrow> char list list option" where
  "list_directories u path dict [] = Some []"
| "list_directories u path dict (d # ds) =
     (if max_path_size < length (d @ path) + 1 then None
      else case sys_listdir u (d @ path) of
        None \<Rightarrow> list_directories u path dict ds
      | Some es \<Rightarrow> (case list_entries dict es of (out, dict') \<Rightarrow>
          map_option (\<lambda>r. out @ r) (list_directories u path dict' ds)))"

text \<open>\<open>dict\<close> is the uninitialised local array \<^verbatim>\<open>files_dict\<close>.\<close>

definition custom_readdir :: "char list list \<Rightarrow> underlying \<Rightarrow> char list list \<Rightarrow> char list \<Rightarrow> char list list option" where
  "custom_readdir dict u directories path =
     (if max_path_size < length path + 1 then None
      else let path1 = (if length path = 1 then [] else path) in
        map_option (\<lambda>out. [''.'', ''..''] @ out) (list_directories u path1 dict directories))"

subsection \<open>Open files\<close>

record handle =
  h_content :: "char list"
  h_pos :: nat

definition custom_open :: "my_file \<Rightarrow> underlying \<Rightarrow> char list list \<Rightarrow> char list \<Rightarrow> bool \<Rightarrow> (int + handle) option" where
  "custom_open uninit u directories path read_only =
     (case find_file uninit u directories path of
        None \<Rightarrow> None
      | Some f \<Rightarrow>
          if error_code f \<noteq> 0 then Some (Inl (- error_code f))
          else if \<not> read_only then Some (Inl (- EACCES))
          else case sys_open u (found_path f) of
            Inl e \<Rightarrow> Some (Inl (- e))
          | Inr content \<Rightarrow> Some (Inr \<lparr>h_content = content, h_pos = 0\<rparr>))"

text \<open>The offset is an argument that is not used.\<close>

definition custom_read :: "handle \<Rightarrow> nat \<Rightarrow> nat \<Rightarrow> char list \<times> handle" where
  "custom_read h sz off =
     (let bs = take sz (drop (h_pos h) (h_content h)) in (bs, h\<lparr>h_pos := h_pos h + length bs\<rparr>))"

text \<open>\<^verbatim>\<open>custom_close\<close>; the argument is the error of \<^verbatim>\<open>close\<close>, if it fails.\<close>

definition custom_close :: "int option \<Rightarrow> int" where
  "custom_close failed = (case failed of Some e \<Rightarrow> - e | None \<Rightarrow> 0)"

subsection \<open>The option\<close>

function split_option :: "char list \<Rightarrow> char list \<Rightarrow> char list list" where
  "split_option cwd s =
     (case strtok '':'' s of (None, _) \<Rightarrow> []
      | (Some w, s') \<Rightarrow> (cwd @ ''/'' @ w) # split_option cwd s')"
  by pat_completeness auto

lemma strtok_shorter: "strtok d s = (Some w, s') \<Longrightarrow> length s' < length s"
proof -
  assume "strtok d s = (Some w, s')"
  then have ne: "dropWhile (\<lambda>c. c \<in> set d) s \<noteq> []"
    and s': "s' = drop 1 (dropWhile (\<lambda>c. c \<notin> set d) (dropWhile (\<lambda>c. c \<in> set d) s))"
    by (auto simp: strtok_def Let_def split: if_splits)
  have "length (dropWhile P xs) \<le> length xs" for P and xs :: "char list" by (simp add: length_dropWhile_le)
  from this[of "\<lambda>c. c \<in> set d" s] this[of "\<lambda>c. c \<notin> set d" "dropWhile (\<lambda>c. c \<in> set d) s"] ne
  show ?thesis unfolding s' by (cases "dropWhile (\<lambda>c. c \<in> set d) s") auto
qed

termination split_option
  by (relation "measure (\<lambda>(cwd, s). length s)") (auto dest: strtok_shorter[OF sym])

declare split_option.simps [simp del]

text \<open>The table of directories that \<^verbatim>\<open>main\<close> fills; \<open>None\<close> when there are too many or a path does not fit.\<close>

definition open_directories :: "char list \<Rightarrow> char list \<Rightarrow> char list list option" where
  "open_directories cwd src =
     (let ds = split_option cwd src in
      if length ds \<le> max_number_of_files \<and> list_all (\<lambda>d. length d < max_path_size) ds then Some ds else None)"

subsection \<open>The newest version is found\<close>

definition version_in :: "underlying \<Rightarrow> char list \<Rightarrow> char list \<Rightarrow> my_file \<Rightarrow> bool" where
  "version_in u path d f \<longleftrightarrow> sys_stat u (d @ path) = Inr (found_stat f) \<and> found_path f = d @ path
     \<and> error_code f = 0 \<and> if_directory f = st_dir (found_stat f)"

definition newest :: "underlying \<Rightarrow> char list \<Rightarrow> char list list \<Rightarrow> my_file \<Rightarrow> bool" where
  "newest u path ds f \<longleftrightarrow> (\<forall>d\<in>set ds. \<forall>st. sys_stat u (d @ path) = Inr st \<longrightarrow> st_mtime st \<le> st_mtime (found_stat f))"

lemma find_loop_exists:
  "\<forall>d\<in>set ds. length (d @ path) < max_path_size \<Longrightarrow>
   \<exists>f'. find_loop u path ds True f = Some f' \<and> (f' = f \<or> (\<exists>d\<in>set ds. version_in u path d f'))
     \<and> st_mtime (found_stat f) \<le> st_mtime (found_stat f') \<and> newest u path ds f'"
proof (induction ds arbitrary: f)
  case (Cons d ds)
  have ok: "\<forall>d\<in>set ds. length (d @ path) < max_path_size" "\<not> max_path_size < length (d @ path) + 1"
    using Cons.prems by auto
  show ?case
  proof (cases "sys_stat u (d @ path)")
    case (Inl e)
    then show ?thesis using Cons.IH[OF ok(1), of f] ok(2) by (auto simp: newest_def)
  next
    case (Inr st)
    show ?thesis
    proof (cases "st_mtime (found_stat f) < st_mtime st")
      case True
      let ?f = "f\<lparr>error_code := 0, if_directory := st_dir st, found_path := d @ path, found_stat := st\<rparr>"
      have "version_in u path d ?f" using Inr by (simp add: version_in_def)
      moreover obtain f' where "find_loop u path ds True ?f = Some f'"
        "f' = ?f \<or> (\<exists>d\<in>set ds. version_in u path d f')" "st_mtime st \<le> st_mtime (found_stat f')" "newest u path ds f'"
        using Cons.IH[OF ok(1), of ?f] by auto
      ultimately show ?thesis using True Inr ok(2) by (auto simp: newest_def)
    next
      case False
      obtain f' where "find_loop u path ds True f = Some f'" "f' = f \<or> (\<exists>d\<in>set ds. version_in u path d f')"
        "st_mtime (found_stat f) \<le> st_mtime (found_stat f')" "newest u path ds f'"
        using Cons.IH[OF ok(1), of f] by blast
      then show ?thesis using False Inr ok(2) by (auto simp: newest_def)
    qed
  qed
qed (simp add: newest_def)

lemma find_loop_new:
  "\<forall>d\<in>set ds. length (d @ path) < max_path_size \<Longrightarrow>
   \<exists>f'. find_loop u path ds False f = Some f' \<and>
     (if \<exists>d\<in>set ds. \<exists>st. sys_stat u (d @ path) = Inr st
      then (\<exists>d\<in>set ds. version_in u path d f') \<and> newest u path ds f'
      else error_code f' = (if ds = [] then error_code f else projl (sys_stat u (last ds @ path))))"
proof (induction ds arbitrary: f)
  case (Cons d ds)
  have ok: "\<forall>d\<in>set ds. length (d @ path) < max_path_size" "\<not> max_path_size < length (d @ path) + 1"
    using Cons.prems by auto
  show ?case
  proof (cases "sys_stat u (d @ path)")
    case (Inl e)
    obtain f' where f': "find_loop u path ds False (f\<lparr>error_code := e\<rparr>) = Some f'"
     "if \<exists>d\<in>set ds. \<exists>st. sys_stat u (d @ path) = Inr st
      then (\<exists>d\<in>set ds. version_in u path d f') \<and> newest u path ds f'
      else error_code f' = (if ds = [] then e else projl (sys_stat u (last ds @ path)))"
      using Cons.IH[OF ok(1), of "f\<lparr>error_code := e\<rparr>"] by auto
    show ?thesis using f' Inl ok(2) by (auto simp: newest_def split: if_splits)
  next
    case (Inr st)
    let ?f = "f\<lparr>error_code := 0, if_directory := st_dir st, found_path := d @ path, found_stat := st\<rparr>"
    have "version_in u path d ?f" using Inr by (simp add: version_in_def)
    moreover obtain f' where "find_loop u path ds True ?f = Some f'"
      "f' = ?f \<or> (\<exists>d\<in>set ds. version_in u path d f')" "st_mtime st \<le> st_mtime (found_stat f')" "newest u path ds f'"
      using find_loop_exists[OF ok(1), of u ?f] by auto
    ultimately show ?thesis using Inr ok(2) by (auto simp: newest_def)
  qed
qed simp

subsection \<open>Listings\<close>

text \<open>The table with the names \<open>ns\<close>.\<close>

definition padded :: "char list list \<Rightarrow> char list list" where
  "padded ns = ns @ replicate (max_number_of_files - length ns) []"

definition visible :: "char list list \<Rightarrow> char list list" where
  "visible es = filter (\<lambda>e. e \<noteq> [] \<and> hd e \<noteq> CHR ''.'') es"

lemma check_new_prefix:
  "[] \<notin> set ns \<Longrightarrow> e \<noteq> [] \<Longrightarrow> check_new_file (ns @ replicate k []) e =
     (if e \<in> set ns then (False, ns @ replicate k [])
      else if k = 0 then (False, ns) else (True, (ns @ [e]) @ replicate (k - 1) []))"
proof (induction ns)
  case Nil
  then show ?case by (cases k) auto
qed auto

lemma check_new_padded:
  "[] \<notin> set ns \<Longrightarrow> e \<noteq> [] \<Longrightarrow> length ns < max_number_of_files \<Longrightarrow>
   check_new_file (padded ns) e = (if e \<in> set ns then (False, padded ns) else (True, padded (ns @ [e])))"
  using check_new_prefix[of ns e "max_number_of_files - length ns"] by (simp add: padded_def)

lemma list_entries_padded:
  "[] \<notin> set ns \<Longrightarrow> distinct ns \<Longrightarrow> card (set ns \<union> set (visible es)) < max_number_of_files \<Longrightarrow> [] \<notin> set es \<Longrightarrow>
   \<exists>out. list_entries (padded ns) es = (out, padded (ns @ out)) \<and> distinct (ns @ out)
     \<and> set (ns @ out) = set ns \<union> set (visible es)"
proof (induction es arbitrary: ns)
  case Nil
  then show ?case by (simp add: visible_def)
next
  case (Cons e es)
  have e: "e \<noteq> []" "[] \<notin> set es" using Cons.prems(4) by auto
  show ?case
  proof (cases "hd e = CHR ''.''")
    case True
    then show ?thesis using Cons.IH[OF Cons.prems(1,2) _ e(2)] Cons.prems(3) e by (simp add: visible_def)
  next
    case False
    then have vis: "visible (e # es) = e # visible es" using e by (simp add: visible_def)
    have "length ns = card (set ns)" using Cons.prems(2) by (simp add: distinct_card)
    also have "\<dots> \<le> card (set ns \<union> set (visible (e # es)))" by (intro card_mono) auto
    finally have len: "length ns < max_number_of_files" using Cons.prems(3) by simp
    show ?thesis
    proof (cases "e \<in> set ns")
      case True
      then have "set ns \<union> set (visible (e # es)) = set ns \<union> set (visible es)" using vis by auto
      then show ?thesis
        using Cons.IH[OF Cons.prems(1,2) _ e(2)] Cons.prems(3) e False True check_new_padded[OF Cons.prems(1) e(1) len]
        by auto
    next
      case new: False
      have sets: "set (ns @ [e]) \<union> set (visible es) = set ns \<union> set (visible (e # es))" using vis by auto
      have p: "[] \<notin> set (ns @ [e])" "distinct (ns @ [e])" "card (set (ns @ [e]) \<union> set (visible es)) < max_number_of_files"
        using Cons.prems e new sets by auto
      obtain out where out: "list_entries (padded (ns @ [e])) es = (out, padded ((ns @ [e]) @ out))"
        "distinct ((ns @ [e]) @ out)" "set ((ns @ [e]) @ out) = set (ns @ [e]) \<union> set (visible es)"
        using Cons.IH[OF p e(2)] by blast
      have "list_entries (padded ns) (e # es) = (e # out, padded (ns @ e # out))"
        using out(1) check_new_padded[OF Cons.prems(1) e(1) len] new e False by simp
      then show ?thesis using out(2,3) sets by (intro exI[of _ "e # out"]) simp
    qed
  qed
qed

definition all_entries :: "underlying \<Rightarrow> char list \<Rightarrow> char list list \<Rightarrow> char list set" where
  "all_entries u path ds =
     (\<Union>d\<in>set ds. case sys_listdir u (d @ path) of None \<Rightarrow> {} | Some es \<Rightarrow> set (visible es))"

lemma list_directories_padded:
  "[] \<notin> set ns \<Longrightarrow> distinct ns \<Longrightarrow> card (set ns \<union> all_entries u path ds) < max_number_of_files \<Longrightarrow>
   \<forall>d\<in>set ds. length (d @ path) < max_path_size \<and> (\<forall>es. sys_listdir u (d @ path) = Some es \<longrightarrow> [] \<notin> set es) \<Longrightarrow>
   \<exists>out. list_directories u path (padded ns) ds = Some out \<and> distinct (ns @ out)
     \<and> set (ns @ out) = set ns \<union> all_entries u path ds"
proof (induction ds arbitrary: ns)
  case Nil
  then show ?case by (simp add: all_entries_def)
next
  case (Cons d ds)
  have ok: "\<not> max_path_size < length (d @ path) + 1" "\<forall>d\<in>set ds. length (d @ path) < max_path_size \<and>
      (\<forall>es. sys_listdir u (d @ path) = Some es \<longrightarrow> [] \<notin> set es)" using Cons.prems(4) by auto
  show ?case
  proof (cases "sys_listdir u (d @ path)")
    case None
    then have "all_entries u path (d # ds) = all_entries u path ds" by (simp add: all_entries_def)
    then show ?thesis using Cons.IH[OF Cons.prems(1,2) _ ok(2)] Cons.prems(3) None ok(1) by auto
  next
    case (Some es)
    have all: "all_entries u path (d # ds) = set (visible es) \<union> all_entries u path ds"
      using Some by (simp add: all_entries_def)
    have fin: "finite (all_entries u path ds)" by (auto simp: all_entries_def split: option.splits)
    have "card (set ns \<union> set (visible es)) \<le> card (set ns \<union> all_entries u path (d # ds))"
      unfolding all using fin by (intro card_mono) auto
    then have c: "card (set ns \<union> set (visible es)) < max_number_of_files" using Cons.prems(3) by simp
    have nes: "[] \<notin> set es" using Cons.prems(4) Some by simp
    obtain o1 where o1: "list_entries (padded ns) es = (o1, padded (ns @ o1))" "distinct (ns @ o1)"
      "set (ns @ o1) = set ns \<union> set (visible es)"
      using list_entries_padded[OF Cons.prems(1,2) c nes] by blast
    have n1: "[] \<notin> set (ns @ o1)" using o1(3) Cons.prems(1) by (auto simp: visible_def)
    have "card (set (ns @ o1) \<union> all_entries u path ds) < max_number_of_files"
      using Cons.prems(3) unfolding o1(3) all by (simp add: Un_assoc)
    then obtain o2 where o2: "list_directories u path (padded (ns @ o1)) ds = Some o2" "distinct ((ns @ o1) @ o2)"
      "set ((ns @ o1) @ o2) = set (ns @ o1) \<union> all_entries u path ds"
      using Cons.IH[OF n1 o1(2) _ ok(2)] by blast
    have "list_directories u path (padded ns) (d # ds) = Some (o1 @ o2)" using Some ok(1) o1(1) o2(1) by simp
    then show ?thesis using o2(2,3) o1(3) all by (intro exI[of _ "o1 @ o2"]) auto
  qed
qed

subsection \<open>Properties\<close>

text \<open>
  When paths fit into the arrays, \<^verbatim>\<open>find_file\<close> yields the newest version of the path among the directories,
  with its own attributes and path; when no directory has it, the error is that of the last directory.  What
  the stack held does not matter.
\<close>

lemma find_file_newest:
  assumes "\<forall>d\<in>set ds. length (d @ path) < 500"
  shows "\<exists>f. find_file uninit u ds path = Some f \<and>
    (if \<exists>d\<in>set ds. \<exists>st. sys_stat u (d @ path) = Inr st
     then error_code f = 0 \<and> if_directory f = st_dir (found_stat f)
       \<and> (\<exists>d\<in>set ds. found_path f = d @ path \<and> sys_stat u (found_path f) = Inr (found_stat f))
       \<and> (\<forall>d\<in>set ds. \<forall>st. sys_stat u (d @ path) = Inr st \<longrightarrow> st_mtime st \<le> st_mtime (found_stat f))
     else error_code f = (if ds = [] then ENOENT else projl (sys_stat u (last ds @ path))))"
  using find_loop_new[of ds path u "uninit\<lparr>error_code := ENOENT, if_directory := False\<rparr>"] assms
  unfolding find_file_def max_path_size_def version_in_def newest_def by (auto split: if_splits)

text \<open>
  With an empty table of names and at most 99 different names, a listing consists of the two dot entries and of every
  name of every directory that does not start with a dot, each exactly once.
\<close>

lemma custom_readdir_lists:
  assumes "length path < 500" and "q = (if length path = 1 then [] else path)"
    and "\<forall>d\<in>set ds. length (d @ q) < 500 \<and> (\<forall>es. sys_listdir u (d @ q) = Some es \<longrightarrow> [] \<notin> set es)"
    and "card (all_entries u q ds) < 100"
  shows "\<exists>out. custom_readdir (replicate 100 []) u ds path = Some ([''.'', ''..''] @ out)
    \<and> distinct out \<and> set out = all_entries u q ds"
proof -
  have "padded [] = replicate 100 []" by (simp add: padded_def max_number_of_files_def)
  then obtain out where "list_directories u q (replicate 100 []) ds = Some out" "distinct out" "set out = all_entries u q ds"
    using list_directories_padded[of "[]" u q ds] assms(3,4) by (auto simp: max_number_of_files_def max_path_size_def)
  then show ?thesis using assms(1,2) by (simp add: custom_readdir_def max_path_size_def Let_def)
qed

text \<open>
  The table of names is not initialised: a name that happens to be in it is missing from the listing, and
  when it has no free entry no name is listed.
\<close>

lemma readdir_uninitialised:
  assumes "e \<noteq> []" and "[] \<notin> set ns"
  shows "fst (check_new_file (ns @ e # ds) e) = False \<and> fst (check_new_file ns e) = False"
proof -
  have "fst (check_new_file (ns @ e # ds) e) = False" using assms
    by (induction ns) (auto split: prod.splits)
  moreover have "fst (check_new_file ns e) = False" using assms(2)
    by (induction ns) (auto split: prod.splits)
  ultimately show ?thesis by simp
qed

text \<open>
  \<^verbatim>\<open>custom_read\<close> ignores the offset: a read at the position of the descriptor returns the bytes of the file there and
  moves on, so reads one after the other are right, but reading the same range again returns what follows it.
\<close>

lemma custom_read_ignores_offset:
  assumes "custom_read h n off = (bs, h')"
  shows "(off = h_pos h \<longrightarrow> bs = take n (drop off (h_content h)) \<and> h_pos h' = off + length bs)
    \<and> h_content h' = h_content h
    \<and> fst (custom_read h' m off') = take m (drop (h_pos h + length bs) (h_content h))"
  using assms by (auto simp: custom_read_def Let_def)

definition sample :: underlying where
  "sample = \<lparr>sys_stat = (\<lambda>p. if p = ''/a/x'' then Inr \<lparr>st_mtime = 3, st_dir = False, st_length = 1\<rparr>
       else if p = ''/b/x'' then Inr \<lparr>st_mtime = 7, st_dir = False, st_length = 2\<rparr> else Inl 2),
     sys_listdir = (\<lambda>p. if p = ''/a'' then Some [''x'', ''.h''] else if p = ''/b'' then Some [''y'', ''x''] else None),
     sys_open = (\<lambda>p. Inl 13)\<rparr>"

theorem find_file_newest_witness:
  "\<forall>uninit. \<exists>f. find_file uninit sample [''/a'', ''/b''] ''/x'' = Some f \<and> 7 \<le> st_mtime (found_stat f)"
  using find_file_newest[of "[''/a'', ''/b'']" "''/x''" _ sample] by (auto simp: sample_def)

theorem custom_readdir_lists_witness:
  "\<exists>out. custom_readdir (replicate 100 []) sample [''/a'', ''/b''] ''/'' = Some ([''.'', ''..''] @ out)
    \<and> distinct out \<and> set out = {''x'', ''y''}"
proof -
  have all: "all_entries sample [] [''/a'', ''/b''] = {''x'', ''y''}"
    by (auto simp: all_entries_def sample_def visible_def)
  show ?thesis
    using custom_readdir_lists[of "''/''" "[]" "[''/a'', ''/b'']" sample] unfolding all by (auto simp: sample_def)
qed

theorem readdir_uninitialised_witness: "check_new_file [''f'', ''g''] ''g'' = (False, [''f'', ''g''])"
  using readdir_uninitialised[of "''g''" "[''f'']" "[]"] by simp

theorem custom_read_ignores_offset_witness:
  "fst (custom_read \<lparr>h_content = ''abcdef'', h_pos = 2\<rparr> 2 0) = ''cd''"
  using custom_read_ignores_offset[of "\<lparr>h_content = ''abcdef'', h_pos = 0\<rparr>" 2 0 "''ab''" "\<lparr>h_content = ''abcdef'', h_pos = 2\<rparr>" 2 0]
  by (simp add: custom_read_def)

end
