(* ===== verification/EpollServer.thy ===== *)
theory EpollServer
  imports PrintList
begin

section \<open>epoll-read-write-socket: an echo server with one event loop\<close>

text \<open>
  \<^verbatim>\<open>inf17-1_highload_epoll-read-write-socket/main.c\<close>.  A client is its buffer with the number of pending
  characters, its socket (a source and a sink as in \<open>PosixIO\<close>) and whether the epoll instance reports it
  as writable.  The server is the map of the open clients, the counter of connections and the flag that the
  signal handler sets.  One step is the handling of one reported event.

  The theorems follow the whole loop: the counter counts the open clients, as long as no \<^verbatim>\<open>accept\<close> fails, and respects
  the limit, every client receives the upper-case text it sent when there are no partial writes, the server
  returns when a signal arrives while it waits.  Lemmas say what a partial write does.
\<close>

definition REQUEST_BUFFER :: nat where "REQUEST_BUFFER = 4096"
definition CONNECTIONS_LIMIT :: int where "CONNECTIONS_LIMIT = 1000"

record client_unit =
  buffer :: "char list"
  buffer_len :: nat
  sock_in :: "char source"
  sock_out :: "char sink"
  wants_write :: bool

definition to_upper :: "char \<Rightarrow> char" where
  "to_upper c = (if 97 \<le> (of_char c :: nat) \<and> (of_char c :: nat) \<le> 122 then char_of (of_char c - 32 :: nat) else c)"

subsection \<open>One client\<close>

definition initialize_connection :: "char source \<Rightarrow> char sink \<Rightarrow> client_unit" where
  "initialize_connection i out = \<lparr>buffer = replicate REQUEST_BUFFER NUL, buffer_len = 0, sock_in = i, sock_out = out,
     wants_write = False\<rparr>"

definition handle_read :: "client_unit \<Rightarrow> int \<times> client_unit" where
  "handle_read client =
     (case sys_read (sock_in client) REQUEST_BUFFER of (n_read, bs, i) \<Rightarrow>
        let client = client\<lparr>sock_in := i\<rparr> in
        if 0 < n_read
        then (n_read, client\<lparr>buffer := overwrite (buffer client) 0 (map to_upper bs), buffer_len := nat n_read\<rparr>)
        else (n_read, client))"

definition handle_write :: "client_unit \<Rightarrow> int \<times> client_unit" where
  "handle_write client =
     (if 0 < buffer_len client then
        (case sys_write (sock_out client) (take (buffer_len client) (buffer client)) of (bytes_wrote, out) \<Rightarrow>
           let client = client\<lparr>sock_out := out\<rparr> in
           if bytes_wrote = - 1 then (- 1, client)
           else (int (buffer_len client - nat bytes_wrote), client\<lparr>buffer_len := buffer_len client - nat bytes_wrote\<rparr>))
      else (0, client))"

definition epoll_add_write :: "client_unit \<Rightarrow> client_unit" where
  "epoll_add_write client = client\<lparr>wants_write := True\<rparr>"

definition epoll_del_write :: "client_unit \<Rightarrow> client_unit" where
  "epoll_del_write client = client\<lparr>wants_write := False\<rparr>"

text \<open>
  The handling of an event that reports readiness for reading and writing; \<open>None\<close> when the client is freed.
  After a successful read the event counts as ready for writing, because \<^verbatim>\<open>epoll_add_write\<close> changes it.
\<close>

definition handle_client :: "bool \<Rightarrow> bool \<Rightarrow> client_unit \<Rightarrow> client_unit option" where
  "handle_client ready_in ready_out conn =
     (case (if ready_in then handle_read conn else (0, conn)) of (status, conn) \<Rightarrow>
        if ready_in \<and> status = - 1 then None
        else
          let (conn, ready_out) = (if ready_in \<and> 0 < status then (epoll_add_write conn, True) else (conn, ready_out)) in
          if ready_out then
            (case handle_write conn of (status, conn) \<Rightarrow>
               if status = - 1 then None
               else Some (if buffer_len conn = 0 then epoll_del_write conn else conn))
          else None)"

subsection \<open>The event loop\<close>

record server =
  clients :: "int \<Rightarrow> client_unit option"
  current_connection_count :: int
  must_stop_server :: bool

datatype signal = SIGINT | SIGTERM | SIGABRT | SIGPIPE

definition signal_handler :: "signal \<Rightarrow> server \<Rightarrow> server" where
  "signal_handler sg s = (if sg = SIGINT \<or> sg = SIGTERM \<or> sg = SIGABRT then s\<lparr>must_stop_server := True\<rparr> else s)"

text \<open>
  What the loop handles: a client that \<^verbatim>\<open>accept\<close> returns, a failed \<^verbatim>\<open>accept\<close>, whose descriptor cannot be added to the
  epoll instance but is counted, and a client that is ready; a signal may be handled between two events.
\<close>

datatype event = Incoming int "char source" "char sink" | AcceptFailed | Ready int bool bool | Signalled signal

definition run_server_step :: "event \<Rightarrow> server \<Rightarrow> server" where
  "run_server_step e s =
     (case e of
        Incoming fd i out \<Rightarrow>
          if CONNECTIONS_LIMIT \<le> current_connection_count s then s
          else s\<lparr>current_connection_count := current_connection_count s + 1,
                 clients := (clients s)(fd := Some (initialize_connection i out))\<rparr>
      | AcceptFailed \<Rightarrow>
          if CONNECTIONS_LIMIT \<le> current_connection_count s then s
          else s\<lparr>current_connection_count := current_connection_count s + 1\<rparr>
      | Ready fd ready_in ready_out \<Rightarrow>
          (case clients s fd of
             None \<Rightarrow> s
           | Some conn \<Rightarrow>
               (case handle_client ready_in ready_out conn of
                  None \<Rightarrow> s\<lparr>clients := (clients s)(fd := None), current_connection_count := current_connection_count s - 1\<rparr>
                | Some conn \<Rightarrow> s\<lparr>clients := (clients s)(fd := Some conn)\<rparr>))
      | Signalled sg \<Rightarrow> signal_handler sg s)"

text \<open>What \<^verbatim>\<open>epoll_pwait\<close> returns: events, or a failure because a signal was handled.\<close>

datatype waited = Reported "event list" | Interrupted signal

definition server_start :: server where
  "server_start = \<lparr>clients = (\<lambda>_. None), current_connection_count = 0, must_stop_server = False\<rparr>"

text \<open>Whether the loop has ended, and the server.\<close>

fun run_server :: "waited list \<Rightarrow> server \<Rightarrow> bool \<times> server" where
  "run_server [] s = (False, s)"
| "run_server (Interrupted sg # ws) s = (True, signal_handler sg s)"
| "run_server (Reported es # ws) s = run_server ws (fold run_server_step es s)"

inductive serves :: "server \<Rightarrow> bool" where
  started: "serves server_start"
| incoming: "serves s \<Longrightarrow> clients s fd = None \<Longrightarrow> serves (run_server_step (Incoming fd i out) s)"
| ready: "serves s \<Longrightarrow> serves (run_server_step (Ready fd ready_in ready_out) s)"

subsection \<open>Invariants\<close>

definition client_ok :: "client_unit \<Rightarrow> bool" where
  "client_ok c \<longleftrightarrow> length (buffer c) = REQUEST_BUFFER \<and> buffer_len c \<le> REQUEST_BUFFER"

lemma handle_read_ok: "client_ok c \<Longrightarrow> handle_read c = (st, c') \<Longrightarrow> client_ok c'"
proof -
  assume c: "client_ok c" and h: "handle_read c = (st, c')"
  obtain n bs i where rd: "sys_read (sock_in c) REQUEST_BUFFER = (n, bs, i)" by (metis prod_cases3)
  have len: "n = int (length bs) \<and> length bs \<le> REQUEST_BUFFER" if "0 < n"
    using source.rd_range[OF rd] that by auto
  show ?thesis
  proof (cases "0 < n")
    case True
    then have "length (overwrite (buffer c) 0 (map to_upper bs)) = REQUEST_BUFFER"
      using len c by (subst length_overwrite) (auto simp: client_ok_def)
    then show ?thesis using h rd True len by (auto simp: handle_read_def client_ok_def)
  next
    case False
    then show ?thesis using h rd c by (auto simp: handle_read_def client_ok_def)
  qed
qed

lemma handle_write_ok: "client_ok c \<Longrightarrow> handle_write c = (st, c') \<Longrightarrow> client_ok c'"
  by (auto simp: handle_write_def client_ok_def Let_def split: if_splits prod.splits)

lemma handle_client_ok: "client_ok c \<Longrightarrow> handle_client ri ro c = Some c' \<Longrightarrow> client_ok c'"
proof -
  assume c: "client_ok c" and h: "handle_client ri ro c = Some c'"
  obtain st c1 where r: "(if ri then handle_read c else (0, c)) = (st, c1)" by fastforce
  have c1: "client_ok c1" using r c handle_read_ok by (auto split: if_splits)
  define c2 where "c2 = (if ri \<and> 0 < st then epoll_add_write c1 else c1)"
  have c2: "client_ok c2" using c1 by (simp add: c2_def epoll_add_write_def client_ok_def)
  obtain st3 c3 where w: "handle_write c2 = (st3, c3)" by fastforce
  have c3: "client_ok c3" using handle_write_ok[OF c2 w] .
  have "c' = (if buffer_len c3 = 0 then epoll_del_write c3 else c3)"
    using h w unfolding handle_client_def r by (auto simp: c2_def Let_def split: if_splits)
  then show ?thesis using c3 by (simp add: epoll_del_write_def client_ok_def)
qed

definition counts :: "int \<Rightarrow> server \<Rightarrow> bool" where
  "counts lost s \<longleftrightarrow> finite (dom (clients s)) \<and> current_connection_count s = int (card (dom (clients s))) + lost
     \<and> current_connection_count s \<le> CONNECTIONS_LIMIT \<and> (\<forall>fd c. clients s fd = Some c \<longrightarrow> client_ok c)"

text \<open>What can happen: descriptors are new, and readiness is reported for open clients only, for writing only if that was asked.\<close>

fun possible :: "server \<Rightarrow> event \<Rightarrow> bool" where
  "possible s (Incoming fd i out) = (clients s fd = None)"
| "possible s (Ready fd ready_in ready_out) =
     (case clients s fd of None \<Rightarrow> False | Some conn \<Rightarrow> ready_out \<longrightarrow> wants_write conn)"
| "possible s _ = True"

lemma dom_update: "dom (m(a := Some x)) = insert a (dom m)" "dom (m(a := None)) = dom m - {a}"
  by (auto split: if_splits)

lemma incoming_counts:
  assumes "counts lost s" "clients s fd = None"
  shows "counts lost (run_server_step (Incoming fd i out) s)"
proof -
  have "client_ok (initialize_connection i out)" by (simp add: client_ok_def initialize_connection_def)
  moreover have "fd \<notin> dom (clients s)" using assms(2) by auto
  ultimately show ?thesis using assms(1) by (auto simp: counts_def run_server_step_def dom_update simp del: dom_fun_upd)
qed

lemma ready_counts:
  assumes "counts lost s"
  shows "counts lost (run_server_step (Ready fd ready_in ready_out) s)"
proof (cases "clients s fd")
  case None
  then show ?thesis using assms by (simp add: run_server_step_def)
next
  case conn: (Some conn)
  then have fd: "fd \<in> dom (clients s)" by auto
  show ?thesis
  proof (cases "handle_client ready_in ready_out conn")
    case None
    have "card (dom (clients s)) = card (dom (clients s) - {fd}) + 1"
      using assms fd card_Suc_Diff1[of "dom (clients s)" fd] by (simp add: counts_def)
    then show ?thesis using assms conn None
      by (auto simp: run_server_step_def counts_def dom_update simp del: dom_fun_upd split: if_splits)
  next
    case (Some conn')
    have "client_ok conn'" using handle_client_ok[of conn ready_in ready_out conn'] assms conn Some by (simp add: counts_def)
    then show ?thesis using assms conn Some fd
      by (auto simp: run_server_step_def counts_def dom_update insert_absorb simp del: dom_fun_upd split: if_splits)
  qed
qed

lemma serves_inv: "serves s \<Longrightarrow> counts 0 s"
proof (induction rule: serves.induct)
  case started
  then show ?case by (simp add: counts_def CONNECTIONS_LIMIT_def server_start_def)
qed (auto intro: incoming_counts ready_counts)

lemma step_counts:
  assumes "counts lost s" "possible s e"
  shows "\<exists>lost'. lost \<le> lost' \<and> (e \<noteq> AcceptFailed \<longrightarrow> lost' = lost) \<and> counts lost' (run_server_step e s)"
proof (cases e)
  case AcceptFailed
  then show ?thesis using assms
    by (cases "CONNECTIONS_LIMIT \<le> current_connection_count s") (auto simp: counts_def run_server_step_def)
next
  case (Signalled sg)
  then show ?thesis using assms by (auto simp: counts_def run_server_step_def signal_handler_def)
qed (use assms incoming_counts ready_counts in auto)

subsection \<open>The echo\<close>

text \<open>A descriptor that always takes everything.\<close>

definition complete :: "'a sink \<Rightarrow> bool" where
  "complete s \<longleftrightarrow> wsched s = []"

lemma handle_client_echo:
  assumes c: "client_ok conn" "buffer_len conn = 0" "complete (sock_out conn)"
    and rd: "sys_read (sock_in conn) REQUEST_BUFFER = (n, bs, i)" "0 < n"
  shows "\<exists>conn'. handle_client True ro conn = Some conn' \<and> client_ok conn' \<and> buffer_len conn' = 0
    \<and> complete (sock_out conn') \<and> sock_in conn' = i \<and> sunk (sock_out conn') = sunk (sock_out conn) @ map to_upper bs"
proof -
  have n: "n = int (length bs)" "length bs \<le> REQUEST_BUFFER" using source.rd_range[OF rd(1)] rd(2) by auto
  let ?c1 = "conn\<lparr>sock_in := i, buffer := overwrite (buffer conn) 0 (map to_upper bs), buffer_len := length bs\<rparr>"
  have r: "handle_read conn = (n, ?c1)" using rd n by (simp add: handle_read_def)
  let ?c2 = "epoll_add_write ?c1"
  have tk: "take (length bs) (buffer ?c2) = map to_upper bs" by (simp add: epoll_add_write_def overwrite_def)
  have pos: "0 < length bs" using n(1) rd(2) by simp
  have w: "handle_write ?c2 = (0, ?c2\<lparr>sock_out := (sock_out conn)\<lparr>sunk := sunk (sock_out conn) @ map to_upper bs\<rparr>, buffer_len := 0\<rparr>)"
    using tk pos c(3) by (simp add: handle_write_def complete_def sys_write_def epoll_add_write_def)
  have "length (overwrite (buffer conn) 0 (map to_upper bs)) = REQUEST_BUFFER"
    using n(2) c(1) by (subst length_overwrite) (auto simp: client_ok_def)
  then show ?thesis
    using r w rd(2) c(3) by (simp add: handle_client_def epoll_del_write_def epoll_add_write_def client_ok_def complete_def)
qed

fun handle_events :: "(bool \<times> bool) list \<Rightarrow> client_unit \<Rightarrow> client_unit option" where
  "handle_events [] conn = Some conn"
| "handle_events ((ri, ro) # es) conn =
     (case handle_client ri ro conn of None \<Rightarrow> None | Some conn \<Rightarrow> handle_events es conn)"

lemma handle_events_echo:
  "client_ok conn \<Longrightarrow> buffer_len conn = 0 \<Longrightarrow> complete (sock_out conn) \<Longrightarrow> \<forall>(ri, ro)\<in>set es. ri \<and> \<not> ro \<Longrightarrow>
   handle_events es conn = Some conn' \<Longrightarrow>
   \<exists>data. rest (sock_in conn) = data @ rest (sock_in conn') \<and> sunk (sock_out conn') = sunk (sock_out conn) @ map to_upper data"
proof (induction es arbitrary: conn)
  case (Cons e es)
  obtain ri ro where e: "e = (ri, ro)" by fastforce
  with Cons.prems have ri: "ri" "\<not> ro" by auto
  obtain n bs i where rd: "sys_read (sock_in conn) REQUEST_BUFFER = (n, bs, i)" by (metis prod_cases3)
  have pos: "0 < n"
  proof (rule ccontr)
    assume "\<not> 0 < n"
    then have "handle_client True False conn = None"
      using rd by (auto simp: handle_client_def handle_read_def Let_def)
    then show False using Cons.prems(5) e ri by simp
  qed
  obtain c1 where c1: "handle_client True ro conn = Some c1" "client_ok c1" "buffer_len c1 = 0" "complete (sock_out c1)"
    "sock_in c1 = i" "sunk (sock_out c1) = sunk (sock_out conn) @ map to_upper bs"
    using handle_client_echo[OF Cons.prems(1-3) rd pos] by blast
  have "rest (sock_in conn) = bs @ rest i" using source.rd_left[OF rd] pos by simp
  moreover obtain data where "rest i = data @ rest (sock_in conn')"
      "sunk (sock_out conn') = sunk (sock_out c1) @ map to_upper data"
    using Cons.IH[OF c1(2-4)] Cons.prems(4,5) e ri c1(1,5) by auto
  ultimately show ?case using c1(6) by (intro exI[of _ "bs @ data"]) simp
qed (auto intro: exI[of _ "[]"])

subsection \<open>All clients of the server\<close>

text \<open>A client that has got back what was read from it, of a server that accepted the sockets \<open>A\<close>.\<close>

definition echoed :: "(int \<times> char source \<times> char sink) set \<Rightarrow> int \<Rightarrow> client_unit \<Rightarrow> bool" where
  "echoed A fd conn \<longleftrightarrow> buffer_len conn = 0 \<and> \<not> wants_write conn \<and> complete (sock_out conn)
     \<and> (\<exists>i out data. (fd, i, out) \<in> A \<and> rest i = data @ rest (sock_in conn)
          \<and> sunk (sock_out conn) = sunk out @ map to_upper data)"

definition all_echoed :: "(int \<times> char source \<times> char sink) set \<Rightarrow> server \<Rightarrow> bool" where
  "all_echoed A s \<longleftrightarrow> (\<forall>fd conn. clients s fd = Some conn \<longrightarrow> echoed A fd conn)"

lemma echoed_mono: "echoed A fd conn \<Longrightarrow> A \<subseteq> B \<Longrightarrow> echoed B fd conn"
  unfolding echoed_def by blast

lemma handle_client_echoed:
  assumes "client_ok conn" "echoed A fd conn" "handle_client ri False conn = Some conn'"
  shows "echoed A fd conn'"
proof -
  obtain i out data where old: "(fd, i, out) \<in> A" "rest i = data @ rest (sock_in conn)"
      "sunk (sock_out conn) = sunk out @ map to_upper data" "buffer_len conn = 0" "complete (sock_out conn)"
    using assms(2) by (auto simp: echoed_def)
  have ri: ri using assms(3) by (cases ri) (auto simp: handle_client_def)
  obtain n bs j where rd: "sys_read (sock_in conn) REQUEST_BUFFER = (n, bs, j)" by (metis prod_cases3)
  have pos: "0 < n"
    using assms(3) ri rd by (auto simp: handle_client_def handle_read_def Let_def split: if_splits)
  obtain c where c: "handle_client True False conn = Some c" "buffer_len c = 0" "complete (sock_out c)" "sock_in c = j"
      "sunk (sock_out c) = sunk (sock_out conn) @ map to_upper bs"
    using handle_client_echo[OF assms(1) old(4,5) rd pos] by blast
  then have c': "c = conn'" using assms(3) ri by simp
  have "\<not> wants_write conn'"
    using assms(3) c(2) unfolding c' handle_client_def
    by (auto simp: Let_def epoll_del_write_def split: if_splits prod.splits)
  moreover have "rest i = (data @ bs) @ rest (sock_in conn')" using old(2) c(4) c' source.rd_left[OF rd] pos by simp
  moreover have "sunk (sock_out conn') = sunk out @ map to_upper (data @ bs)" using old(3) c(5) c' by simp
  ultimately show ?thesis using old(1) c(2,3) unfolding c' echoed_def by blast
qed

fun accepts :: "event \<Rightarrow> (int \<times> char source \<times> char sink) set" where
  "accepts (Incoming fd i out) = {(fd, i, out)}"
| "accepts _ = {}"

fun accepted :: "event list \<Rightarrow> (int \<times> char source \<times> char sink) set" where
  "accepted [] = {}"
| "accepted (e # es) = accepts e \<union> accepted es"

definition take_all :: "(int \<times> char source \<times> char sink) set \<Rightarrow> bool" where
  "take_all A \<longleftrightarrow> (\<forall>fd i out. (fd, i, out) \<in> A \<longrightarrow> complete out)"

lemma take_all_Un: "take_all (A \<union> B) \<longleftrightarrow> take_all A \<and> take_all B"
  by (auto simp: take_all_def)

lemma accepted_Incoming: "(fd, i, out) \<in> accepted es \<longleftrightarrow> Incoming fd i out \<in> set es"
proof (induction es)
  case (Cons e es)
  then show ?case by (cases e) auto
qed simp

lemma step_echoed:
  assumes "all_echoed A s" "counts lost s" "possible s e" "take_all (accepts e)"
  shows "all_echoed (A \<union> accepts e) (run_server_step e s)"
proof (cases e)
  case (Incoming fd i out)
  then have "echoed (A \<union> accepts e) fd (initialize_connection i out)"
    using assms(4) by (auto simp: echoed_def take_all_def initialize_connection_def intro!: exI[of _ i] exI[of _ out])
  then show ?thesis using assms(1) Incoming echoed_mono[of A _ _ "A \<union> accepts e"]
    by (auto simp: all_echoed_def run_server_step_def split: if_splits)
next
  case (Ready fd ri ro)
  then obtain conn where conn: "clients s fd = Some conn" "ro \<longrightarrow> wants_write conn"
    using assms(3) by (auto split: option.splits)
  then have old: "echoed A fd conn" "client_ok conn" using assms(1,2) by (auto simp: all_echoed_def counts_def)
  then have "\<not> ro" using conn(2) by (simp add: echoed_def)
  then have "echoed A fd conn'" if "handle_client ri ro conn = Some conn'" for conn'
    using handle_client_echoed[OF old(2,1)] that by simp
  then show ?thesis using assms(1) Ready conn(1)
    by (auto simp: all_echoed_def run_server_step_def split: option.splits if_splits)
qed (use assms(1) in \<open>auto simp: all_echoed_def run_server_step_def signal_handler_def\<close>)

fun possible_run :: "event list \<Rightarrow> server \<Rightarrow> bool" where
  "possible_run [] s = True"
| "possible_run (e # es) s = (possible s e \<and> possible_run es (run_server_step e s))"

lemma events_keep:
  assumes "counts lost s" "possible_run es s"
  shows "\<exists>lost'. lost \<le> lost' \<and> (AcceptFailed \<notin> set es \<longrightarrow> lost' = lost) \<and> counts lost' (fold run_server_step es s)
    \<and> (all_echoed A s \<longrightarrow> take_all (accepted es) \<longrightarrow> all_echoed (A \<union> accepted es) (fold run_server_step es s))"
  using assms
proof (induction es arbitrary: lost s A)
  case (Cons e es)
  obtain l where l: "lost \<le> l" "e \<noteq> AcceptFailed \<longrightarrow> l = lost" "counts l (run_server_step e s)"
    using step_counts[OF Cons.prems(1)] Cons.prems(2) by auto
  have "possible_run es (run_server_step e s)" using Cons.prems(2) by simp
  from Cons.IH[OF l(3) this, of "A \<union> accepts e"] obtain l' where l':
    "l \<le> l'" "AcceptFailed \<notin> set es \<longrightarrow> l' = l" "counts l' (fold run_server_step es (run_server_step e s))"
    "all_echoed (A \<union> accepts e) (run_server_step e s) \<Longrightarrow> take_all (accepted es)
       \<Longrightarrow> all_echoed ((A \<union> accepts e) \<union> accepted es) (fold run_server_step es (run_server_step e s))"
    by blast
  have "all_echoed (A \<union> accepted (e # es)) (fold run_server_step (e # es) s)"
    if "all_echoed A s" "take_all (accepted (e # es))"
    using l'(4) step_echoed[OF that(1) Cons.prems(1), of e] that(2) Cons.prems(2) by (simp add: take_all_Un Un_assoc)
  then show ?case using l l'(1-3) by (intro exI[of _ l']) auto
qed auto

text \<open>The events that are handled before the loop ends.\<close>

fun handled :: "waited list \<Rightarrow> event list" where
  "handled [] = []"
| "handled (Interrupted sg # ws) = []"
| "handled (Reported es # ws) = es @ handled ws"

lemma run_server_handled:
  "fst (run_server ws s) = (\<exists>sg. Interrupted sg \<in> set ws)
   \<and> clients (snd (run_server ws s)) = clients (fold run_server_step (handled ws) s)
   \<and> current_connection_count (snd (run_server ws s)) = current_connection_count (fold run_server_step (handled ws) s)"
  by (induction ws s rule: run_server.induct) (auto simp: signal_handler_def)

subsection \<open>Properties\<close>

text \<open>
  In every state the server reaches, the counter is the number of open clients, at most 1000, and every
  client's pending characters are inside its buffer.
\<close>

lemma connection_count_correct:
  assumes "serves s"
  shows "finite (dom (clients s)) \<and> current_connection_count s = int (card (dom (clients s)))
    \<and> current_connection_count s \<le> 1000
    \<and> (\<forall>fd c. clients s fd = Some c \<longrightarrow> length (buffer c) = 4096 \<and> buffer_len c \<le> 4096)"
  using serves_inv[OF assms] by (auto simp: counts_def CONNECTIONS_LIMIT_def REQUEST_BUFFER_def client_ok_def)

text \<open>
  When the socket takes everything that is written, a new client gets back exactly what it sent, in upper
  case, as long as it stays connected, however its data is split into events.
\<close>

lemma echo_upper_case:
  assumes "wsched out = []" and "\<forall>(ri, ro)\<in>set es. ri \<and> \<not> ro"
    and "handle_events es (initialize_connection i out) = Some conn"
  shows "\<exists>data. rest i = data @ rest (sock_in conn) \<and> sunk (sock_out conn) = sunk out @ map to_upper data"
  using handle_events_echo[of "initialize_connection i out" es conn] assms
  by (simp add: initialize_connection_def client_ok_def complete_def)

text \<open>
  Whatever \<^verbatim>\<open>epoll_pwait\<close> reports: the loop ends exactly when a signal interrupts the waiting, not when one is
  handled between events.  The counter is at most 1000, at least the number of open clients, and equal to it unless an
  \<^verbatim>\<open>accept\<close> failed.  When the sockets take everything that is written, every open client has got back, in
  upper case, what was read from it, and nothing of it is pending.
\<close>

lemma run_server_echoes:
  assumes "possible_run (handled ws) server_start" and "run_server ws server_start = (ended, s)"
  shows "(ended \<longleftrightarrow> (\<exists>sg. Interrupted sg \<in> set ws))
    \<and> finite (dom (clients s)) \<and> int (card (dom (clients s))) \<le> current_connection_count s \<and> current_connection_count s \<le> 1000
    \<and> (AcceptFailed \<notin> set (handled ws) \<longrightarrow> current_connection_count s = int (card (dom (clients s))))
    \<and> ((\<forall>fd i out. Incoming fd i out \<in> set (handled ws) \<longrightarrow> wsched out = []) \<longrightarrow>
        (\<forall>fd conn. clients s fd = Some conn \<longrightarrow> buffer_len conn = 0
          \<and> (\<exists>i out data. Incoming fd i out \<in> set (handled ws) \<and> rest i = data @ rest (sock_in conn)
              \<and> sunk (sock_out conn) = sunk out @ map to_upper data)))"
proof -
  let ?f = "fold run_server_step (handled ws) server_start"
  have s: "ended = (\<exists>sg. Interrupted sg \<in> set ws)" "clients s = clients ?f" "current_connection_count s = current_connection_count ?f"
    using run_server_handled[of ws server_start] assms(2) by simp_all
  have "all_echoed {} server_start" by (simp add: all_echoed_def server_start_def)
  then obtain lost where lost: "0 \<le> lost" "AcceptFailed \<notin> set (handled ws) \<longrightarrow> lost = 0" "counts lost ?f"
    "take_all (accepted (handled ws)) \<longrightarrow> all_echoed (accepted (handled ws)) ?f"
    using events_keep[OF serves_inv[OF serves.started] assms(1), of "{}"] by auto
  then show ?thesis using s unfolding counts_def CONNECTIONS_LIMIT_def
    by (simp add: take_all_def all_echoed_def echoed_def complete_def accepted_Incoming)
qed

text \<open>After 1000 failed calls of \<^verbatim>\<open>accept\<close> no client is ever served.\<close>

lemma failed_accepts:
  "n \<le> 1000 \<Longrightarrow> fold run_server_step (replicate n AcceptFailed) server_start = server_start\<lparr>current_connection_count := int n\<rparr>"
proof (induction n)
  case (Suc n)
  have "replicate (Suc n) AcceptFailed = replicate n AcceptFailed @ [AcceptFailed]" by (simp add: replicate_append_same)
  then show ?case using Suc by (simp add: run_server_step_def CONNECTIONS_LIMIT_def del: replicate.simps)
qed (simp add: server_start_def)

lemma accept_failures_block:
  "run_server_step (Incoming fd i out) (fold run_server_step (replicate 1000 AcceptFailed) server_start)
    = fold run_server_step (replicate 1000 AcceptFailed) server_start"
  using failed_accepts[of 1000] by (simp add: run_server_step_def CONNECTIONS_LIMIT_def del: replicate.simps)

text \<open>
  After a write that took only \<open>k\<close> of the pending characters, the next write sends again the first of the pending characters
  instead of the remaining ones.
\<close>

lemma partial_write_repeats:
  assumes "client_ok conn" and "0 < k" and "k < buffer_len conn"
    and "sock_out conn = \<lparr>sunk = sent, wsched = [int k]\<rparr>"
  shows "\<exists>c1 c2. handle_write conn = (int (buffer_len conn - k), c1) \<and> handle_write c1 = (0, c2)
    \<and> sunk (sock_out c2) = sent @ take k (buffer conn) @ take (buffer_len conn - k) (buffer conn)"
proof -
  let ?c1 = "conn\<lparr>sock_out := \<lparr>sunk = sent @ take k (buffer conn), wsched = []\<rparr>, buffer_len := buffer_len conn - k\<rparr>"
  have len: "buffer_len conn \<le> length (buffer conn)" using assms(1) by (simp add: client_ok_def)
  have "handle_write conn = (int (buffer_len conn - k), ?c1)"
    using assms(2-4) len by (simp add: handle_write_def sys_write_def Let_def min_def)
  moreover have "\<exists>c2. handle_write ?c1 = (0, c2) \<and> sunk (sock_out c2) = (sent @ take k (buffer conn)) @ take (buffer_len conn - k) (buffer conn)"
    using assms(2,3) len by (simp add: handle_write_def sys_write_def Let_def min_def)
  ultimately show ?thesis by fastforce
qed

theorem connection_count_correct_witness:
  "current_connection_count (run_server_step (Incoming 5 \<lparr>rest = ''a'', rsched = []\<rparr> \<lparr>sunk = [], wsched = []\<rparr>)
     server_start) \<le> 1000"
  using connection_count_correct[OF serves.incoming[OF serves.started, of 5 "\<lparr>rest = ''a'', rsched = []\<rparr>" "\<lparr>sunk = [], wsched = []\<rparr>"]]
  by (simp add: server_start_def)

theorem echo_upper_case_witness:
  "\<exists>conn data. handle_events [(True, False)] (initialize_connection \<lparr>rest = ''ab'', rsched = [1]\<rparr> \<lparr>sunk = [], wsched = []\<rparr>) = Some conn
    \<and> ''ab'' = data @ rest (sock_in conn) \<and> sunk (sock_out conn) = map to_upper data"
proof -
  have "handle_events [(True, False)] (initialize_connection \<lparr>rest = ''ab'', rsched = [1]\<rparr> \<lparr>sunk = [], wsched = []\<rparr>) \<noteq> None"
    by (simp add: initialize_connection_def handle_client_def handle_read_def sys_read_def REQUEST_BUFFER_def
      handle_write_def sys_write_def epoll_add_write_def overwrite_def Let_def)
  then obtain conn where "handle_events [(True, False)] (initialize_connection \<lparr>rest = ''ab'', rsched = [1]\<rparr> \<lparr>sunk = [], wsched = []\<rparr>) = Some conn"
    by blast
  from this echo_upper_case[OF _ _ this] show ?thesis by simp
qed

theorem partial_write_repeats_witness:
  "\<exists>c1 c2. handle_write \<lparr>buffer = ''ABC'' @ replicate 4093 NUL, buffer_len = 3, sock_in = \<lparr>rest = [], rsched = []\<rparr>,
      sock_out = \<lparr>sunk = [], wsched = [1]\<rparr>, wants_write = True\<rparr> = (2, c1) \<and> handle_write c1 = (0, c2) \<and> sunk (sock_out c2) = ''AAB''"
  using partial_write_repeats[of "\<lparr>buffer = ''ABC'' @ replicate 4093 NUL, buffer_len = 3, sock_in = \<lparr>rest = [], rsched = []\<rparr>,
      sock_out = \<lparr>sunk = [], wsched = [1]\<rparr>, wants_write = True\<rparr>" 1 "[]"]
  by (simp add: client_ok_def REQUEST_BUFFER_def)

definition demo_out :: "char sink" where
  "demo_out = \<lparr>sunk = [], wsched = []\<rparr>"

definition demo_waits :: "waited list" where
  "demo_waits = [Reported [Incoming 5 \<lparr>rest = ''ab'', rsched = [1]\<rparr> demo_out], Reported [Ready 5 True False, Signalled SIGINT],
     Interrupted SIGTERM]"

lemma demo_run:
  "\<exists>conn. run_server demo_waits server_start
      = (True, \<lparr>clients = (\<lambda>_. None)(5 := Some conn), current_connection_count = 1, must_stop_server = True\<rparr>)
    \<and> rest (sock_in conn) = ''b''"
  by (intro exI[of _ "\<lparr>buffer = to_upper CHR ''a'' # replicate 4095 NUL, buffer_len = 0,
        sock_in = \<lparr>rest = ''b'', rsched = []\<rparr>, sock_out = \<lparr>sunk = [to_upper CHR ''a''], wsched = []\<rparr>, wants_write = False\<rparr>"])
    (simp add: demo_waits_def server_start_def run_server_step_def signal_handler_def initialize_connection_def
      handle_client_def handle_read_def sys_read_def REQUEST_BUFFER_def CONNECTIONS_LIMIT_def demo_out_def
      handle_write_def sys_write_def epoll_add_write_def epoll_del_write_def overwrite_def Let_def)

lemma demo_possible: "possible_run (handled demo_waits) server_start"
  by (simp add: demo_waits_def server_start_def run_server_step_def CONNECTIONS_LIMIT_def)

theorem run_server_echoes_witness:
  "\<exists>s conn. run_server demo_waits server_start = (True, s) \<and> clients s 5 = Some conn
    \<and> current_connection_count s = 1 \<and> sunk (sock_out conn) = ''A''"
proof -
  obtain conn where run: "run_server demo_waits server_start
      = (True, \<lparr>clients = (\<lambda>_. None)(5 := Some conn), current_connection_count = 1, must_stop_server = True\<rparr>)"
    "rest (sock_in conn) = ''b''"
    using demo_run by blast
  let ?s = "\<lparr>clients = (\<lambda>_. None)(5 := Some conn), current_connection_count = 1, must_stop_server = True\<rparr>"
  have waits: "handled demo_waits = [Incoming 5 \<lparr>rest = ''ab'', rsched = [1]\<rparr> demo_out, Ready 5 True False, Signalled SIGINT]"
    by (simp add: demo_waits_def)
  then have "\<forall>fd i out. Incoming fd i out \<in> set (handled demo_waits) \<longrightarrow> wsched out = []" by (simp add: demo_out_def)
  moreover have "clients ?s 5 = Some conn" by simp
  ultimately obtain i out data where "Incoming 5 i out \<in> set (handled demo_waits)" "rest i = data @ rest (sock_in conn)"
      "sunk (sock_out conn) = sunk out @ map to_upper data"
    using run_server_echoes[OF demo_possible run(1)] by blast
  then have "\<exists>data. ''ab'' = data @ ''b'' \<and> sunk (sock_out conn) = map to_upper data"
    using run(2) unfolding waits by (auto simp: demo_out_def)
  then obtain data where "''ab'' = data @ ''b''" "sunk (sock_out conn) = map to_upper data" by blast
  moreover have "data = ''a''" using calculation(1) by (cases data rule: rev_cases) auto
  ultimately show ?thesis using run by (intro exI[of _ ?s] exI[of _ conn]) (simp add: to_upper_def char_of_def bit_iff_odd)
qed

end
