(* ===== verification/PrimeFactors.thy ===== *)
theory PrimeFactors
  imports Prelude
begin

section \<open>pyprimes: a Python module that factors numbers\<close>

text \<open>
  \<^verbatim>\<open>pyprimes/primes.c\<close>.  \<open>divide_out\<close> is the inner loop of \<^verbatim>\<open>factor_out\<close>, \<open>factor_loop\<close> the outer one.  The Python
  object that is returned is a value of \<open>factor_result\<close>; the argument has been converted to an
  \<^verbatim>\<open>int32_t\<close>.  The theorem says that the list holds the prime factors in ascending order, and which
  numbers are called prime.
\<close>

datatype factor_result = ValueError | PrimeText | Factors "nat list"

text \<open>The loop is entered with \<open>2 \<le> i \<le> number\<close>; it would not end for \<open>number = 0\<close>.\<close>

function divide_out :: "nat \<Rightarrow> nat \<Rightarrow> nat list \<Rightarrow> nat \<times> nat list" where
  "divide_out i number primes =
     (if 2 \<le> i \<and> 0 < number \<and> number mod i = 0 then divide_out i (number div i) (primes @ [i])
      else (number, primes))"
  by pat_completeness auto
termination
  by (relation "measure (\<lambda>(i, number, primes). number)") auto

declare divide_out.simps [simp del]

lemma divide_out_le: "fst (divide_out i number primes) \<le> number"
proof (induction i number primes rule: divide_out.induct)
  case (1 i number primes)
  then show ?case
  proof (cases "2 \<le> i \<and> 0 < number \<and> number mod i = 0")
    case True
    then show ?thesis
      using le_trans[OF 1[OF True] div_le_dividend[of number i]] divide_out.simps[of i number primes] by simp
  next
    case False
    then show ?thesis by (subst divide_out.simps) (simp only: if_False fst_conv order_refl)
  qed
qed

function factor_loop :: "nat \<Rightarrow> nat \<Rightarrow> nat list \<Rightarrow> nat list" where
  "factor_loop i number primes =
     (if i \<le> number
      then case divide_out i number primes of (number, primes) \<Rightarrow> factor_loop (i + 1) number primes
      else primes)"
  by pat_completeness auto
termination
proof (relation "measure (\<lambda>(i, number, primes). number + 1 - i)")
  fix i number x y and primes :: "nat list"
  assume "i \<le> number" "(x, y) = divide_out i number primes"
  then have "x \<le> number" using divide_out_le[of i number primes] by (metis fst_conv)
  then show "((i + 1, x, y), i, number, primes) \<in> measure (\<lambda>(i, number, primes). number + 1 - i)"
    using \<open>i \<le> number\<close> by simp
qed simp

declare factor_loop.simps [simp del]

definition factor_out :: "int \<Rightarrow> factor_result" where
  "factor_out number =
     (if number < 0 then ValueError
      else let primeNumbers = factor_loop 2 (nat number) [] in
        if length primeNumbers \<le> 1 then PrimeText else Factors primeNumbers)"

subsection \<open>Prime numbers\<close>

definition is_prime :: "nat \<Rightarrow> bool" where
  "is_prime p \<longleftrightarrow> 2 \<le> p \<and> (\<forall>d. d dvd p \<longrightarrow> d = 1 \<or> d = p)"

text \<open>No number from 2 on below \<open>i\<close> divides \<open>n\<close>.\<close>

definition no_small :: "nat \<Rightarrow> nat \<Rightarrow> bool" where
  "no_small i n \<longleftrightarrow> (\<forall>d. 2 \<le> d \<longrightarrow> d < i \<longrightarrow> \<not> d dvd n)"

lemma no_small_prime: "no_small i n \<Longrightarrow> 2 \<le> i \<Longrightarrow> i dvd n \<Longrightarrow> 0 < n \<Longrightarrow> is_prime i"
  unfolding is_prime_def
proof (intro conjI allI impI)
  fix d assume h: "no_small i n" "2 \<le> i" "i dvd n" "0 < n" "d dvd i"
  have "d dvd n" using h(5,3) by (rule dvd_trans)
  moreover have "d \<le> i" using h(2,5) by (intro dvd_imp_le) simp_all
  moreover have "d \<noteq> 0" using h(2,5) by (intro notI) simp
  moreover have "\<not> (2 \<le> d \<and> d < i)" using h(1) calculation(1) by (auto simp: no_small_def)
  ultimately show "d = 1 \<or> d = i" by linarith
qed

lemma no_small_dvd: "no_small i n \<Longrightarrow> m dvd n \<Longrightarrow> no_small i m"
  unfolding no_small_def using dvd_trans by blast

lemma divide_out_spec:
  "2 \<le> i \<Longrightarrow> 0 < n \<Longrightarrow> no_small i n \<Longrightarrow>
   \<exists>m k. divide_out i n ps = (m, ps @ replicate k i) \<and> n = m * i ^ k \<and> 0 < m \<and> no_small (i + 1) m
     \<and> (0 < k \<longrightarrow> is_prime i)"
proof (induction i n ps rule: divide_out.induct)
  case (1 i n ps)
  show ?case
  proof (cases "n mod i = 0")
    case True
    then have dv: "i dvd n" by (simp add: mod_eq_0_iff_dvd)
    then have n: "n = (n div i) * i" "0 < n div i" using 1(2,3) by (auto simp: dvd_imp_le div_greater_zero_iff)
    have ns: "no_small i (n div i)" using no_small_dvd[OF 1(4)] n(1) by (metis dvd_triv_left)
    have c: "2 \<le> i \<and> 0 < n \<and> n mod i = 0" using True 1(2,3) by simp
    obtain m k where mk: "divide_out i (n div i) (ps @ [i]) = (m, (ps @ [i]) @ replicate k i)"
      "n div i = m * i ^ k" "0 < m" "no_small (i + 1) m"
      using 1(1)[OF c 1(2) n(2) ns] by blast
    have "divide_out i n ps = divide_out i (n div i) (ps @ [i])"
      by (subst divide_out.simps) (simp only: c simp_thms if_True)
    then have "divide_out i n ps = (m, ps @ replicate (Suc k) i)" unfolding mk(1) by simp
    moreover have "n = m * i ^ Suc k" by (subst n(1)) (simp add: mk(2))
    ultimately show ?thesis using mk(3,4) no_small_prime[OF 1(4,2) dv 1(3)] by blast
  next
    case False
    then have "no_small (i + 1) n" using 1(4) by (auto simp: no_small_def less_Suc_eq mod_eq_0_iff_dvd)
    then show ?thesis using False 1(2,3) by (subst divide_out.simps) (auto intro!: exI[of _ n] exI[of _ 0])
  qed
qed

text \<open>What the loop appends: the prime factors of what is left, in ascending order.\<close>

lemma factor_loop_spec:
  "2 \<le> i \<Longrightarrow> 0 < n \<Longrightarrow> no_small i n \<Longrightarrow>
   \<exists>qs. factor_loop i n ps = ps @ qs \<and> prod_list qs = n \<and> sorted qs \<and> (\<forall>q\<in>set qs. is_prime q \<and> i \<le> q)"
proof (induction i n ps rule: factor_loop.induct)
  case (1 i n ps)
  show ?case
  proof (cases "i \<le> n")
    case True
    obtain m k where mk: "divide_out i n ps = (m, ps @ replicate k i)" "n = m * i ^ k" "0 < m" "no_small (i + 1) m"
      "0 < k \<longrightarrow> is_prime i" using divide_out_spec[OF 1(2-4)] by blast
    obtain qs where qs: "factor_loop (i + 1) m (ps @ replicate k i) = (ps @ replicate k i) @ qs" "prod_list qs = m"
      "sorted qs" "\<forall>q\<in>set qs. is_prime q \<and> i + 1 \<le> q"
      using 1(1)[OF True mk(1)[symmetric]] mk(3,4) 1(2) by auto
    have "factor_loop i n ps = ps @ (replicate k i @ qs)"
      using True mk(1) qs(1) by (subst factor_loop.simps) simp
    moreover have "prod_list (replicate k i @ qs) = n" using mk(2) qs(2) by (simp add: mult.commute)
    moreover have "sorted (replicate k i @ qs)" using qs(3,4) by (fastforce simp: sorted_append)
    moreover have "\<forall>q\<in>set (replicate k i @ qs). is_prime q \<and> i \<le> q" using qs(4) mk(5) by (auto split: if_splits)
    ultimately show ?thesis by blast
  next
    case False
    have "n = 1"
    proof (rule ccontr)
      assume "n \<noteq> 1"
      then have "2 \<le> n" using 1(3) by simp
      then show False using 1(4) False by (auto simp: no_small_def)
    qed
    then show ?thesis using False by (subst factor_loop.simps) simp
  qed
qed

lemma prod_list_ge: "\<forall>q\<in>set qs. 2 \<le> (q :: nat) \<Longrightarrow> 1 \<le> prod_list qs \<and> (qs \<noteq> [] \<longrightarrow> 2 \<le> prod_list qs)"
proof (induction qs)
  case (Cons q qs)
  have "1 \<le> prod_list qs" using Cons by simp
  then have "2 * 1 \<le> q * prod_list qs" using Cons.prems by (intro mult_le_mono) simp_all
  then have "2 \<le> prod_list (q # qs)" by simp
  then show ?case by linarith
qed simp

text \<open>
  For a nonnegative number the function returns its prime factors in ascending order, with multiplicity, when it has at least
  two, and the text for primes otherwise: for the primes, and also for 0 and 1.  A negative number is an error.
\<close>

lemma factor_out_factors:
  "case factor_out number of
      ValueError \<Rightarrow> number < 0
    | PrimeText \<Rightarrow> number = 0 \<or> number = 1 \<or> 0 < number \<and> is_prime (nat number)
    | Factors qs \<Rightarrow> 0 < number \<and> 2 \<le> length qs \<and> prod_list qs = nat number \<and> sorted qs
        \<and> (\<forall>q\<in>set qs. is_prime q) \<and> \<not> is_prime (nat number)"
proof (cases "0 < number")
  case True
  then have "no_small 2 (nat number)" by (simp add: no_small_def)
  then obtain qs where qs: "factor_loop 2 (nat number) [] = qs" "prod_list qs = nat number" "sorted qs"
    "\<forall>q\<in>set qs. is_prime q" using factor_loop_spec[of 2 "nat number" "[]"] True by auto
  show ?thesis
  proof (cases "length qs \<le> 1")
    case short: True
    have "qs = [] \<or> (\<exists>q. qs = [q])" using short by (cases qs) auto
    then have "number = 1 \<or> is_prime (nat number)" using qs(2,4) True by auto
    then show ?thesis using True qs(1) short by (auto simp: factor_out_def)
  next
    case False
    then obtain q1 q2 qs' where q: "qs = q1 # q2 # qs'" by (cases qs; cases "tl qs") auto
    have ge: "\<forall>q\<in>set qs. 2 \<le> q" using qs(4) by (simp add: is_prime_def)
    have "2 \<le> prod_list (q2 # qs')" using prod_list_ge[of "q2 # qs'"] ge q by simp
    moreover have "nat number = q1 * prod_list (q2 # qs')" using qs(2) q by simp
    moreover have "2 \<le> q1" using ge q by simp
    ultimately have "q1 dvd nat number" "q1 \<noteq> 1" "q1 \<noteq> nat number"
      by (auto simp del: prod_list.Cons)
    then have "\<not> is_prime (nat number)" by (auto simp: is_prime_def)
    then show ?thesis using True qs False by (auto simp: factor_out_def)
  qed
next
  case False
  have "factor_loop 2 0 [] = []" by (simp add: factor_loop.simps)
  then show ?thesis using False by (auto simp: factor_out_def)
qed

lemma factor_out_factors_witness:
  "\<exists>qs. factor_out 12 = Factors qs \<and> prod_list qs = 12 \<and> sorted qs \<and> (\<forall>q\<in>set qs. is_prime q)"
proof -
  have "\<not> is_prime 12" by (auto simp: is_prime_def intro!: exI[of _ 2])
  then show ?thesis using factor_out_factors[of 12] by (auto split: factor_result.splits)
qed

end
