(* ===== verification/NormalizePath.thy ===== *)
theory NormalizePath
  imports Prelude "HOL-Library.Monad_Syntax"
begin

section \<open>normalize-path: rewriting a path in place\<close>

text \<open>
  \<^verbatim>\<open>inf09-0_c_texts_normalize-path/main.c\<close>.  The path is a NUL-terminated string in an array of bytes that
  the routines shift and overwrite in place; a pointer is an index into it, and a read or write outside of the
  array is \<open>None\<close>.  The specification splits the path into its components and resolves them with a stack.
  The theorems say that the in-place algorithm ends and computes what the specification says, which arrays
  are too short for it, and what becomes of names that begin with a dot.
\<close>

subsection \<open>The routines on the array\<close>

definition peek :: "char list \<Rightarrow> nat \<Rightarrow> char option" where
  "peek buf p = (if p < length buf then Some (buf ! p) else None)"

definition poke :: "char list \<Rightarrow> nat \<Rightarrow> char \<Rightarrow> char list option" where
  "poke buf p c = (if p < length buf then Some (buf[p := c]) else None)"

function read_name :: "char list \<Rightarrow> nat \<Rightarrow> nat option" where
  "read_name buf path =
     (case peek buf path of
        None \<Rightarrow> None
      | Some c \<Rightarrow> if c \<noteq> NUL \<and> c \<noteq> CHR ''/'' then read_name buf (path + 1) else Some path)"
  by pat_completeness auto
termination
  by (relation "measure (\<lambda>(buf, path). length buf - path)") (auto simp: peek_def split: if_splits)

text \<open>The loop of \<open>strlen'\<close> leaves its pointer one behind the NUL.\<close>

function strlen_loop :: "char list \<Rightarrow> nat \<Rightarrow> nat option" where
  "strlen_loop buf str =
     (case peek buf str of
        None \<Rightarrow> None
      | Some c \<Rightarrow> if c \<noteq> NUL then strlen_loop buf (str + 1) else Some (str + 1))"
  by pat_completeness auto
termination
  by (relation "measure (\<lambda>(buf, str). length buf - str)") (auto simp: peek_def split: if_splits)

definition strlen' :: "char list \<Rightarrow> nat \<Rightarrow> nat option" where
  "strlen' buf begin' = map_option (\<lambda>str. str - begin' - 1) (strlen_loop buf begin')"

text \<open>The two strings are given by the bytes from the pointers on.\<close>

fun strncmp' :: "char list \<Rightarrow> char list \<Rightarrow> nat \<Rightarrow> int option" where
  "strncmp' str1 str2 0 = Some 0"
| "strncmp' [] str2 (Suc n) = None"
| "strncmp' (a # str1) str2 (Suc n) =
     (if a = NUL then Some 1
      else case str2 of
        [] \<Rightarrow> None
      | b # str2 \<Rightarrow> if b = NUL then Some 1 else if a \<noteq> b then Some 1 else strncmp' str1 str2 n)"

definition strcmp' :: "char list \<Rightarrow> char list \<Rightarrow> int option" where
  "strcmp' str1 str2 =
     do { n1 \<leftarrow> strlen' str1 0; n2 \<leftarrow> strlen' str2 0;
          if n1 \<noteq> n2 then Some 1 else strncmp' str1 str2 n1 }"

fun strncpy' :: "char list \<Rightarrow> nat \<Rightarrow> char list \<Rightarrow> nat \<Rightarrow> char list option" where
  "strncpy' buf dest source 0 = Some buf"
| "strncpy' buf dest [] (Suc n) = None"
| "strncpy' buf dest (c # source) (Suc n) =
     (case poke buf dest c of None \<Rightarrow> None | Some buf \<Rightarrow> strncpy' buf (dest + 1) source n)"

definition strcpy' :: "char list \<Rightarrow> nat \<Rightarrow> char list \<Rightarrow> char list option" where
  "strcpy' buf dest source = do { n \<leftarrow> strlen' source 0; strncpy' buf dest source (n + 1) }"

text \<open>The loop for a negative shift by \<open>k\<close>: \<open>n\<close> is the number of bytes left, \<open>end = path + n - 1\<close>.\<close>

fun shift_right :: "char list \<Rightarrow> nat \<Rightarrow> nat \<Rightarrow> nat \<Rightarrow> char list option" where
  "shift_right buf path 0 k = Some buf"
| "shift_right buf path (Suc n) k =
     (case peek buf (path + n) of
        None \<Rightarrow> None
      | Some c \<Rightarrow> (case poke buf (path + n + k) c of None \<Rightarrow> None | Some buf \<Rightarrow> shift_right buf path n k))"

function shift_left :: "char list \<Rightarrow> nat \<Rightarrow> nat \<Rightarrow> char list option" where
  "shift_left buf path k =
     (case peek buf (path + k) of
        None \<Rightarrow> None
      | Some c \<Rightarrow> (if c \<noteq> NUL then shift_left (buf[path := c]) (path + 1) k else Some (buf[path := c])))"
  by pat_completeness auto
termination
  by (relation "measure (\<lambda>(buf, path, k). length buf - path)") (auto simp: peek_def split: if_splits)

definition shift_path :: "char list \<Rightarrow> nat \<Rightarrow> int \<Rightarrow> char list option" where
  "shift_path buf path shift =
     (if shift < 0 then do { n \<leftarrow> strlen' buf path; shift_right buf path (n + 1) (nat (- shift)) }
      else shift_left buf path (nat shift))"

function skip_slashes :: "char list \<Rightarrow> nat \<Rightarrow> nat option" where
  "skip_slashes buf path =
     (case peek buf path of
        None \<Rightarrow> None
      | Some c \<Rightarrow> if c = CHR ''/'' then skip_slashes buf (path + 1) else Some path)"
  by pat_completeness auto
termination
  by (relation "measure (\<lambda>(buf, path). length buf - path)") (auto simp: peek_def split: if_splits)

definition restore_coupler :: "char list \<Rightarrow> nat \<Rightarrow> (nat \<times> char list) option" where
  "restore_coupler buf path =
     do { q \<leftarrow> skip_slashes buf path;
          let coupler = q - path;
          buf \<leftarrow> (if coupler > 1 then shift_path buf path (int coupler - 1) else Some buf);
          Some (if coupler > 0 then 1 else 0, buf) }"

text \<open>The result is the returned flag and the array.  Returning is proved below.\<close>

partial_function (option) normalize_relative_path :: "char list \<Rightarrow> nat \<Rightarrow> (bool \<times> char list) option" where
  "normalize_relative_path buf path =
     do { c \<leftarrow> peek buf path;
          if c = NUL then Some (False, buf)
          else do {
            (k, buf) \<leftarrow> restore_coupler buf path;
            let path_begin = path + k;
            path \<leftarrow> read_name buf path_begin;
            (k, buf) \<leftarrow> restore_coupler buf path;
            let path = path + k;
            up \<leftarrow> strncmp' (drop path_begin buf) (''..'' @ [NUL]) 2;
            if up = 0 then do { buf \<leftarrow> shift_path buf path_begin (int (path - path_begin)); Some (True, buf) }
            else do {
              here \<leftarrow> strncmp' (drop path_begin buf) (''.'' @ [NUL]) 1;
              if here = 0 then do {
                buf \<leftarrow> shift_path buf path_begin (int (path - path_begin));
                normalize_relative_path buf path_begin }
              else do {
                (b, buf) \<leftarrow> normalize_relative_path buf path;
                if b then do {
                  buf \<leftarrow> shift_path buf path_begin (int (path - path_begin));
                  normalize_relative_path buf path_begin }
                else Some (False, buf) }}}}"

partial_function (option) normalize_loop :: "char list \<Rightarrow> nat \<Rightarrow> char list option" where
  "normalize_loop buf path =
     do { (b, buf) \<leftarrow> normalize_relative_path buf path;
          if b then do {
            buf \<leftarrow> shift_path buf path (- 3);
            buf \<leftarrow> strncpy' buf path (''../'' @ [NUL]) 3;
            normalize_loop buf (path + 3) }
          else Some buf }"

definition normalize_path :: "char list \<Rightarrow> char list option" where
  "normalize_path buf =
     do { buf \<leftarrow> normalize_loop buf 0;
          n \<leftarrow> strlen' buf 0;
          if n = 0 then strcpy' buf 0 (''./'' @ [NUL]) else Some buf }"

subsection \<open>The specification\<close>

text \<open>
  A component is a name with the slash behind it, if there is one; runs of slashes count as one and leading
  slashes are not part of a component.
\<close>

definition lead :: "char list \<Rightarrow> char list" where
  "lead s = (if s \<noteq> [] \<and> hd s = CHR ''/'' then ''/'' else [])"

definition skip :: "char list \<Rightarrow> char list" where
  "skip s = dropWhile (\<lambda>c. c = CHR ''/'') s"

definition name :: "char list \<Rightarrow> char list" where
  "name s = takeWhile (\<lambda>c. c \<noteq> CHR ''/'') s"

definition behind :: "char list \<Rightarrow> char list" where
  "behind s = dropWhile (\<lambda>c. c \<noteq> CHR ''/'') s"

lemma length_skip: "length (skip s) \<le> length s"
  by (simp add: skip_def length_dropWhile_le)

lemma behind_less: "skip s \<noteq> [] \<Longrightarrow> length (behind (skip s)) < length s"
proof -
  assume ne: "skip s \<noteq> []"
  then have "hd (skip s) \<noteq> CHR ''/''" unfolding skip_def by (rule hd_dropWhile)
  then have "length (behind (skip s)) < length (skip s)"
    using ne length_dropWhile_le[of "\<lambda>c. c \<noteq> CHR ''/''" "tl (skip s)"]
    by (cases "skip s") (auto simp: behind_def)
  then show ?thesis using length_skip[of s] by linarith
qed

function components :: "char list \<Rightarrow> char list list" where
  "components s =
     (if skip s = [] then []
      else (name (skip s) @ lead (behind (skip s))) # components (behind (skip s)))"
  by pat_completeness auto
termination
  by (relation "measure length") (simp_all add: behind_less)

declare components.simps [simp del]

text \<open>
  Resolving the components: \<open>k\<close> is the number of steps up that are left over, \<open>st\<close> the stack of names.  The
  tests are those of the code, which looks at the beginning of a name only.
\<close>

definition up_component :: "char list \<Rightarrow> bool" where
  "up_component t \<longleftrightarrow> take 2 t = ''..''"

definition here_component :: "char list \<Rightarrow> bool" where
  "here_component t \<longleftrightarrow> take 1 t = ''.''"

fun resolve :: "nat \<Rightarrow> char list list \<Rightarrow> char list list \<Rightarrow> nat \<times> char list list" where
  "resolve k st [] = (k, rev st)"
| "resolve k st (t # ts) =
     (if up_component t then (case st of [] \<Rightarrow> resolve (k + 1) [] ts | _ # st' \<Rightarrow> resolve k st' ts)
      else if here_component t then resolve k st ts
      else resolve k (t # st) ts)"

definition normal_path :: "char list \<Rightarrow> char list" where
  "normal_path s =
     (case resolve 0 [] (components s) of (k, names) \<Rightarrow>
        let t = concat (replicate k ''../'') @ lead s @ concat names in if t = [] then ''./'' else t)"

subsection \<open>What the routines do to a string in the array\<close>

text \<open>The array holds \<open>pre @ s @ NUL # post\<close>, the pointer is behind \<open>pre\<close>.\<close>

declare read_name.simps [simp del] strlen_loop.simps [simp del] shift_left.simps [simp del] skip_slashes.simps [simp del]

lemma peek_at [simp]: "peek (pre @ x # y) (length pre) = Some x"
  by (simp add: peek_def)

lemma peek_behind [simp]: "peek (pre @ y) (length pre + k) = peek y k"
  by (simp add: peek_def nth_append)

lemma read_name_eq:
  "NUL \<notin> set s \<Longrightarrow> read_name (pre @ s @ NUL # post) (length pre) = Some (length pre + length (name s))"
proof (induction s arbitrary: pre)
  case Nil
  then show ?case by (subst read_name.simps) (simp add: name_def)
next
  case (Cons c s)
  show ?case
  proof (cases "c = CHR ''/''")
    case True
    then show ?thesis by (subst read_name.simps) (simp add: name_def)
  next
    case False
    have "read_name (pre @ (c # s) @ NUL # post) (length pre) = read_name ((pre @ [c]) @ s @ NUL # post) (length (pre @ [c]))"
      using False Cons.prems by (subst read_name.simps) auto
    then show ?thesis using Cons.IH[of "pre @ [c]"] Cons.prems False by (simp add: name_def)
  qed
qed

lemma skip_slashes_eq:
  "skip_slashes (pre @ s @ NUL # post) (length pre) = Some (length pre + (length s - length (skip s)))"
proof (induction s arbitrary: pre)
  case Nil
  then show ?case by (subst skip_slashes.simps) (simp add: skip_def NUL_def)
next
  case (Cons c s)
  show ?case
  proof (cases "c = CHR ''/''")
    case True
    have "skip_slashes (pre @ (c # s) @ NUL # post) (length pre) = skip_slashes ((pre @ [c]) @ s @ NUL # post) (length (pre @ [c]))"
      using True by (subst skip_slashes.simps) auto
    then show ?thesis using Cons.IH[of "pre @ [c]"] True length_skip[of s] by (simp add: skip_def Suc_diff_le)
  next
    case False
    then show ?thesis by (subst skip_slashes.simps) (simp add: skip_def)
  qed
qed

lemma strlen_loop_eq:
  "NUL \<notin> set s \<Longrightarrow> strlen_loop (pre @ s @ NUL # post) (length pre) = Some (length pre + length s + 1)"
proof (induction s arbitrary: pre)
  case Nil
  then show ?case by (subst strlen_loop.simps) simp
next
  case (Cons c s)
  have "strlen_loop (pre @ (c # s) @ NUL # post) (length pre) = strlen_loop ((pre @ [c]) @ s @ NUL # post) (length (pre @ [c]))"
    using Cons.prems by (subst strlen_loop.simps) auto
  then show ?case using Cons.IH[of "pre @ [c]"] Cons.prems by simp
qed

lemma strlen_eq: "NUL \<notin> set s \<Longrightarrow> strlen' (pre @ s @ NUL # post) (length pre) = Some (length s)"
  by (simp add: strlen'_def strlen_loop_eq)

text \<open>Removing the string \<open>x\<close> at the pointer; the array keeps its length.\<close>

lemma shift_left_eq:
  "NUL \<notin> set s \<Longrightarrow>
   \<exists>post'. shift_left (pre @ x @ s @ NUL # post) (length pre) (length x) = Some (pre @ s @ NUL # post')
     \<and> length post' = length post + length x"
proof (induction s arbitrary: pre x)
  case Nil
  obtain y ys where y: "x @ NUL # post = y # ys" by (cases "x @ NUL # post") auto
  have "peek (pre @ x @ NUL # post) (length pre + length x) = Some NUL" by (simp add: peek_def nth_append)
  moreover have "(pre @ x @ NUL # post)[length pre := NUL] = pre @ NUL # ys"
    unfolding y by (simp add: list_update_append)
  moreover have "length ys = length post + length x" using arg_cong[OF y, of length] by simp
  ultimately show ?case by (subst shift_left.simps) simp
next
  case (Cons c s)
  obtain y ys where y: "x @ [c] = y # ys" by (cases "x @ [c]") auto
  have len: "length ys = length x" using arg_cong[OF y, of length] by simp
  have arr: "x @ (c # s) @ NUL # post = y # ys @ s @ NUL # post"
    using y by (metis append.assoc append_Cons append_Nil)
  have "peek (pre @ x @ (c # s) @ NUL # post) (length pre + length x) = Some c" by (simp add: peek_def nth_append)
  moreover have "(pre @ x @ (c # s) @ NUL # post)[length pre := c] = (pre @ [c]) @ ys @ s @ NUL # post"
    unfolding arr by (simp add: list_update_append)
  ultimately have "shift_left (pre @ x @ (c # s) @ NUL # post) (length pre) (length x)
      = shift_left ((pre @ [c]) @ ys @ s @ NUL # post) (length (pre @ [c])) (length ys)"
    using Cons.prems len by (subst shift_left.simps) auto
  then show ?case using Cons.IH[of "pre @ [c]" ys] Cons.prems len by simp
qed

lemma shift_path_left:
  assumes "NUL \<notin> set s"
  obtains post' where "shift_path (pre @ x @ s @ NUL # post) (length pre) (int (length x)) = Some (pre @ s @ NUL # post')"
    "length post' = length post + length x"
  using shift_left_eq[OF assms, of pre x post] by (auto simp: shift_path_def)

text \<open>Moving the string to the right opens a gap of the same width.\<close>

lemma shift_right_eq:
  "length g = k \<Longrightarrow>
   \<exists>g'. shift_right (pre @ t @ g @ post) (length pre) (length t) k = Some (pre @ g' @ t @ post) \<and> length g' = k"
proof (induction t arbitrary: g post rule: rev_induct)
  case Nil
  then show ?case by auto
next
  case (snoc c t)
  obtain g2 d where d: "c # g = g2 @ [d]" by (metis append_butlast_last_id list.distinct(1))
  have len: "length g2 = k" using arg_cong[OF d, of length] snoc.prems by simp
  have "(pre @ (t @ [c]) @ g @ post)[length pre + length t + k := c] = pre @ t @ ((c # g) @ post)[k := c]"
    by (simp add: list_update_append)
  also have "\<dots> = pre @ t @ g2 @ c # post" unfolding d using len by (simp add: list_update_append)
  finally have upd: "poke (pre @ (t @ [c]) @ g @ post) (length pre + length t + k) c = Some (pre @ t @ g2 @ c # post)"
    using snoc.prems by (simp add: poke_def)
  have "peek (pre @ (t @ [c]) @ g @ post) (length pre + length t) = Some c" by (simp add: peek_def nth_append)
  then have "shift_right (pre @ (t @ [c]) @ g @ post) (length pre) (length (t @ [c])) k
      = shift_right (pre @ t @ g2 @ c # post) (length pre) (length t) k"
    unfolding length_append_singleton shift_right.simps(2) using upd by simp
  then show ?case using snoc.IH[OF len, of "c # post"] by simp
qed

lemma shift_path_right:
  assumes "NUL \<notin> set s" "k \<le> length post" "0 < k"
  obtains g' where "shift_path (pre @ s @ NUL # post) (length pre) (- int k) = Some (pre @ g' @ s @ NUL # drop k post)"
    "length g' = k"
  using shift_right_eq[of "take k post" k pre "s @ [NUL]" "drop k post"] strlen_eq[OF assms(1), of pre post] assms(2,3)
  by (auto simp: shift_path_def)

lemma strncpy_eq:
  "length g = length t \<Longrightarrow> strncpy' (pre @ g @ post) (length pre) (t @ src) (length t) = Some (pre @ t @ post)"
proof (induction t arbitrary: g pre)
  case Nil
  then show ?case by simp
next
  case (Cons c t)
  obtain d g' where g: "g = d # g'" "length g' = length t" using Cons.prems by (cases g) auto
  have "poke (pre @ g @ post) (length pre) c = Some ((pre @ [c]) @ g' @ post)"
    using g by (simp add: poke_def list_update_append)
  then show ?case using Cons.IH[OF g(2), of "pre @ [c]"] by simp
qed

lemma strncmp_up:
  "NUL \<notin> set x \<Longrightarrow> strncmp' (x @ NUL # y) (''..'' @ [NUL]) 2 = Some (if up_component x then 0 else 1)"
  by (cases x; cases "tl x") (auto simp: up_component_def NUL_def numeral_2_eq_2)

lemma strncmp_here:
  "NUL \<notin> set x \<Longrightarrow> strncmp' (x @ NUL # y) (''.'' @ [NUL]) 1 = Some (if here_component x then 0 else 1)"
  by (cases x) (auto simp: here_component_def NUL_def)

lemma lead_skip: "lead s @ skip s = drop (length s - length (skip s) - length (lead s)) s"
  and lead_nonempty: "lead s \<noteq> [] \<longleftrightarrow> length (skip s) < length s"
  and lead_cases: "lead s = [] \<or> lead s = ''/''"
proof -
  show "lead s = [] \<or> lead s = ''/''" by (simp add: lead_def)
  show ne: "lead s \<noteq> [] \<longleftrightarrow> length (skip s) < length s"
    using length_dropWhile_le[of "\<lambda>c. c = CHR ''/''" "tl s"] by (cases s) (auto simp: lead_def skip_def)
  let ?n = "length (takeWhile (\<lambda>c. c = CHR ''/'') s)"
  have len: "length s = ?n + length (skip s)"
    unfolding skip_def by (metis length_append takeWhile_dropWhile_id)
  show "lead s @ skip s = drop (length s - length (skip s) - length (lead s)) s"
  proof (cases "?n = 0")
    case True
    then have "lead s = []" using len ne by auto
    moreover have "skip s = s" using True by (auto simp: skip_def dropWhile_eq_drop)
    ultimately show ?thesis by simp
  next
    case False
    then have l: "lead s = ''/''" using len ne by (auto simp: lead_def split: if_splits)
    have i: "?n - 1 < length s" using len False by linarith
    have sn: "Suc (?n - 1) = ?n" using False by linarith
    have "s ! (?n - 1) = CHR ''/''"
    proof -
      have n: "?n - 1 < ?n" using False by linarith
      then have "takeWhile (\<lambda>c. c = CHR ''/'') s ! (?n - 1) \<in> set (takeWhile (\<lambda>c. c = CHR ''/'') s)" by (rule nth_mem)
      then show ?thesis using takeWhile_nth[OF n] by (auto dest: set_takeWhileD)
    qed
    then have "drop (?n - 1) s = CHR ''/'' # drop ?n s"
      using Cons_nth_drop_Suc[OF i] sn by metis
    moreover have "skip s = drop ?n s" by (simp add: skip_def dropWhile_eq_drop)
    moreover have "length s - length (skip s) - length (lead s) = ?n - 1" using l len by simp
    ultimately show ?thesis using l by (metis append_Cons append_Nil)
  qed
qed

lemma NUL_parts: "NUL \<notin> set s \<Longrightarrow> NUL \<notin> set (skip s) \<and> NUL \<notin> set (name s) \<and> NUL \<notin> set (behind s) \<and> NUL \<notin> set (lead s)"
  using lead_cases[of s]
  by (auto simp: skip_def name_def behind_def NUL_def dest: set_takeWhileD set_dropWhileD)

lemma restore_coupler_eq:
  assumes "NUL \<notin> set s"
  obtains post' where
    "restore_coupler (pre @ s @ NUL # post) (length pre) = Some (length (lead s), pre @ lead s @ skip s @ NUL # post')"
    "length (lead s @ skip s) + length post' = length s + length post"
proof -
  let ?c = "length s - length (skip s)"
  have le: "length (skip s) \<le> length s" by (rule length_skip)
  have l: "length (lead s) = (if ?c > 0 then 1 else 0)"
    using lead_nonempty[of s] lead_cases[of s] by auto
  show ?thesis
  proof (cases "?c > 1")
    case True
    let ?x = "take (?c - 1) s"
    have s: "s = ?x @ lead s @ skip s"
      unfolding lead_skip using l True append_take_drop_id[of "?c - 1" s] by simp
    have lx: "length ?x = ?c - 1" by simp
    have "NUL \<notin> set (lead s @ skip s)" using NUL_parts[OF assms] by simp
    from shift_path_left[OF this, of pre ?x post] obtain post' where p:
      "shift_path (pre @ ?x @ (lead s @ skip s) @ NUL # post) (length pre) (int (length ?x)) = Some (pre @ (lead s @ skip s) @ NUL # post')"
      "length post' = length post + length ?x" by blast
    have "shift_path (pre @ s @ NUL # post) (length pre) (int ?c - 1) = Some (pre @ lead s @ skip s @ NUL # post')"
    proof -
      have "pre @ s @ NUL # post = pre @ ?x @ (lead s @ skip s) @ NUL # post"
        using arg_cong[OF s, of "\<lambda>t. pre @ t @ NUL # post"] by simp
      moreover have "int ?c - 1 = int (length ?x)" using lx True by (simp add: of_nat_diff)
      ultimately show ?thesis using p(1) by (simp only: append_assoc)
    qed
    then have "restore_coupler (pre @ s @ NUL # post) (length pre) = Some (length (lead s), pre @ lead s @ skip s @ NUL # post')"
      using True l by (simp add: restore_coupler_def skip_slashes_eq Let_def) (use le in linarith)
    moreover have "length (lead s @ skip s) + length post' = length s + length post"
    proof -
      have "length (lead s) = 1" using True l by simp
      then show ?thesis unfolding length_append p(2) lx using True by linarith
    qed
    ultimately show ?thesis by (rule that)
  next
    case False
    have "lead s @ skip s = s" unfolding lead_skip using l False by auto
    then show ?thesis using that[of post] False l by (auto simp: restore_coupler_def skip_slashes_eq Let_def)
  qed
qed

subsection \<open>One pass\<close>

lemma skip_skip [simp]: "skip (skip s) = skip s"
  by (simp add: skip_def)

lemma lead_skip_Nil [simp]: "lead (skip s) = []"
  using hd_dropWhile[of "\<lambda>c. c = CHR ''/''" s] by (auto simp: lead_def skip_def)

lemma components_skip [simp]: "components (skip s) = components s"
  by (subst (1 2) components.simps) simp

lemma components_Nil [simp]: "components [] = []"
  by (subst components.simps) (simp add: skip_def)

lemma components_lead [simp]: "components (lead s @ u) = components u"
proof -
  have "skip (lead s @ u) = skip u" using lead_cases[of s] by (auto simp: skip_def)
  then show ?thesis by (metis components_skip)
qed

abbreviation (input) component :: "char list \<Rightarrow> char list" where
  "component s \<equiv> name (skip s) @ lead (behind (skip s))"

abbreviation (input) others :: "char list \<Rightarrow> char list" where
  "others s \<equiv> skip (behind (skip s))"

lemma skip_split: "skip s = name (skip s) @ behind (skip s)"
  by (simp add: name_def behind_def)

lemma component_others:
  assumes "skip s \<noteq> []"
  shows "components s = component s # components (others s)"
    and "component s \<noteq> []"
    and "length (component s @ others s) \<le> length (skip s)"
    and "length (component s) \<le> 2 \<longrightarrow> up_component (component s) \<longrightarrow> others s = []"
proof -
  show "components s = component s # components (others s)"
    using assms by (subst components.simps) simp
  have "hd (skip s) \<noteq> CHR ''/''" using assms unfolding skip_def by (rule hd_dropWhile)
  then have ne: "name (skip s) \<noteq> []" using assms by (cases "skip s") (auto simp: name_def)
  then show "component s \<noteq> []" by simp
  have le: "length (lead (behind (skip s)) @ others s) \<le> length (behind (skip s))"
    using lead_nonempty[of "behind (skip s)"] lead_cases[of "behind (skip s)"] length_skip[of "behind (skip s)"] by auto
  then show "length (component s @ others s) \<le> length (skip s)"
    using arg_cong[OF skip_split[of s], of length] by simp
  show "length (component s) \<le> 2 \<longrightarrow> up_component (component s) \<longrightarrow> others s = []"
  proof (intro impI)
    assume short: "length (component s) \<le> 2" and up: "up_component (component s)"
    have "behind (skip s) = []"
    proof (rule ccontr)
      assume b: "behind (skip s) \<noteq> []"
      then have "hd (behind (skip s)) = CHR ''/''"
        unfolding behind_def using hd_dropWhile[of "\<lambda>c. c \<noteq> CHR ''/''" "skip s"] by simp
      then have l: "lead (behind (skip s)) = ''/''" using b by (simp add: lead_def)
      then have "length (name (skip s)) = 1" using short ne by (cases "name (skip s)") auto
      then obtain c where "name (skip s) = [c]" by (cases "name (skip s)") auto
      then show False using up l by (simp add: up_component_def)
    qed
    then show "others s = []" by (simp add: skip_def)
  qed
qed

lemma up_append: "t = name x @ lead (behind x) \<Longrightarrow> x \<noteq> [] \<Longrightarrow> lead x = [] \<Longrightarrow> up_component (t @ skip (behind x)) = up_component t"
  and here_append: "t = name x @ lead (behind x) \<Longrightarrow> x \<noteq> [] \<Longrightarrow> lead x = [] \<Longrightarrow> here_component (t @ skip (behind x)) = here_component t"
proof -
  assume t: "t = name x @ lead (behind x)" "x \<noteq> []" "lead x = []"
  have ne: "name x \<noteq> []" using t(2,3) by (cases x) (auto simp: name_def lead_def)
  then show "here_component (t @ skip (behind x)) = here_component t" using t(1) by (cases "name x") (auto simp: here_component_def)
  show "up_component (t @ skip (behind x)) = up_component t"
  proof (cases "behind x = []")
    case True
    then show ?thesis by (simp add: skip_def)
  next
    case False
    then have "hd (behind x) = CHR ''/''"
      unfolding behind_def using hd_dropWhile[of "\<lambda>c. c \<noteq> CHR ''/''" x] by simp
    then have "lead (behind x) = ''/''" using False by (simp add: lead_def)
    then have "2 \<le> length t" using t(1) ne by (cases "name x") auto
    then show ?thesis by (simp add: up_component_def)
  qed
qed

lemma flag_test: "((if b then 0 else 1 :: int) = 0) = b"
  by simp

lemma norm_unfold:
  assumes "NUL \<notin> set s" "s \<noteq> []"
  obtains post' where "length (lead s @ component s @ others s) + length post' = length s + length post"
    "normalize_relative_path (pre @ s @ NUL # post) (length pre) =
       (let pre' = pre @ lead s; t = component s; buf = pre' @ t @ others s @ NUL # post' in
          if up_component t then do { buf \<leftarrow> shift_path buf (length pre') (int (length t)); Some (True, buf) }
          else if here_component t then do {
            buf \<leftarrow> shift_path buf (length pre') (int (length t)); normalize_relative_path buf (length pre') }
          else do { (b, buf) \<leftarrow> normalize_relative_path buf (length (pre' @ t));
            if b then do {
              buf \<leftarrow> shift_path buf (length pre') (int (length t)); normalize_relative_path buf (length pre') }
            else Some (False, buf) })"
proof -
  let ?x = "skip s"
  let ?pre = "pre @ lead s"
  let ?t = "component s"
  have nul: "NUL \<notin> set ?x" "NUL \<notin> set (name ?x)" "NUL \<notin> set (behind ?x)" "NUL \<notin> set ?t" "NUL \<notin> set (others s)"
    using NUL_parts[OF assms(1)] NUL_parts[of ?x] NUL_parts[of "behind ?x"] by auto
  obtain p1 where p1: "restore_coupler (pre @ s @ NUL # post) (length pre) = Some (length (lead s), pre @ lead s @ ?x @ NUL # p1)"
    "length (lead s @ ?x) + length p1 = length s + length post"
    using restore_coupler_eq[OF assms(1)] by blast
  obtain p2 where p2: "restore_coupler ((?pre @ name ?x) @ behind ?x @ NUL # p1) (length (?pre @ name ?x))
      = Some (length (lead (behind ?x)), (?pre @ name ?x) @ lead (behind ?x) @ others s @ NUL # p2)"
    "length (lead (behind ?x) @ others s) + length p2 = length (behind ?x) + length p1"
    using restore_coupler_eq[OF nul(3)] by blast
  have buf: "pre @ lead s @ ?x @ NUL # p1 = (?pre @ name ?x) @ behind ?x @ NUL # p1"
    using arg_cong[OF skip_split[of s], of "\<lambda>x. pre @ lead s @ x @ NUL # p1"] by simp
  have rn: "read_name (pre @ lead s @ ?x @ NUL # p1) (length pre + length (lead s)) = Some (length (?pre @ name ?x))"
    using read_name_eq[OF nul(1), of ?pre p1] by simp
  let ?buf = "?pre @ ?t @ others s @ NUL # p2"
  have rc: "restore_coupler (pre @ lead s @ ?x @ NUL # p1) (length (?pre @ name ?x)) = Some (length (lead (behind ?x)), ?buf)"
    unfolding buf p2(1) by simp
  have dr: "drop (length pre + length (lead s)) ?buf = (?t @ others s) @ NUL # p2" by simp
  have "NUL \<notin> set (?t @ others s)" using nul by simp
  note cmp = strncmp_up[OF this, of p2] strncmp_here[OF this, of p2]
  have tests: "up_component (?t @ others s) = up_component ?t" "here_component (?t @ others s) = here_component ?t"
  proof -
    show "up_component (?t @ others s) = up_component ?t"
    proof (cases "?x = []")
      case True
      have "others s = []" unfolding True by (simp add: skip_def behind_def)
      then show ?thesis by simp
    next
      case False
      then show ?thesis by (rule up_append[OF refl _ lead_skip_Nil])
    qed
    show "here_component (?t @ others s) = here_component ?t"
    proof (cases "?x = []")
      case True
      have "others s = []" unfolding True by (simp add: skip_def behind_def)
      then show ?thesis by simp
    next
      case False
      then show ?thesis by (rule here_append[OF refl _ lead_skip_Nil])
    qed
  qed
  obtain c s' where c: "s = c # s'" "c \<noteq> NUL" using assms by (cases s) auto
  have pk: "peek (pre @ s @ NUL # post) (length pre) = Some c" unfolding c(1) by simp
  have len: "length (?pre @ name ?x) + length (lead (behind ?x)) = length (?pre @ ?t)"
    "length pre + length (lead s) = length ?pre" "length (?pre @ ?t) - length ?pre = length ?t" by simp_all
  have "normalize_relative_path (pre @ s @ NUL # post) (length pre) =
       (let pre' = pre @ lead s; t = component s; buf = pre' @ t @ others s @ NUL # p2 in
          if up_component t then do { buf \<leftarrow> shift_path buf (length pre') (int (length t)); Some (True, buf) }
          else if here_component t then do {
            buf \<leftarrow> shift_path buf (length pre') (int (length t)); normalize_relative_path buf (length pre') }
          else do { (b, buf) \<leftarrow> normalize_relative_path buf (length (pre' @ t));
            if b then do {
              buf \<leftarrow> shift_path buf (length pre') (int (length t)); normalize_relative_path buf (length pre') }
            else Some (False, buf) })"
    by (subst normalize_relative_path.simps)
      (simp only: flag_test pk c(2) p1(1) rn[unfolded len(2)] rc dr[unfolded len(2)] cmp tests Option.bind.simps Let_def prod.case if_False len option.inject)
  moreover have "length (lead s @ component s @ others s) + length p2 = length s + length post"
    using p1(2) p2(2) arg_cong[OF skip_split[of s], of length] by simp
  ultimately show ?thesis using that by blast
qed

text \<open>
  What one call promises: either everything is resolved, or the string was cut off behind a step up that has
  nothing to remove.
\<close>

definition pass_result :: "bool \<Rightarrow> char list \<Rightarrow> char list \<Rightarrow> bool" where
  "pass_result b s u \<longleftrightarrow> NUL \<notin> set u \<and> lead u = [] \<and>
     (if b
      then (\<forall>k st. resolve k st (components s) =
              (case st of [] \<Rightarrow> resolve (k + 1) [] (components u) | _ # st' \<Rightarrow> resolve k st' (components u)))
        \<and> (length (lead s @ u) + 3 \<le> length s \<or> length (lead s @ u) + 2 \<le> length s \<and> u = [])
      else (\<exists>us. u = concat us \<and> (\<forall>k st. resolve k st (components s) = (k, rev st @ us)))
        \<and> length (lead s @ u) \<le> length s)"

lemma up_length: "up_component t \<Longrightarrow> 2 \<le> length t"
  by (cases t; cases "tl t") (auto simp: up_component_def)

lemma name_nonempty: "skip s \<noteq> [] \<Longrightarrow> \<exists>c cs. name (skip s) = c # cs \<and> c \<noteq> CHR ''/''"
  using hd_dropWhile[of "\<lambda>c. c = CHR ''/''" s] by (cases "skip s") (auto simp: name_def skip_def)

lemma pass_up:
  assumes "NUL \<notin> set s" "up_component (component s)"
  shows "pass_result True s (others s)"
proof -
  have ne: "skip s \<noteq> []" using assms(2) by (auto simp: up_component_def name_def behind_def lead_def)
  note co = component_others[OF ne]
  have two: "2 \<le> length (component s)"
    using assms(2) by (rule up_length)
  have le: "length (lead s @ component s @ others s) \<le> length s"
    using co(3) lead_nonempty[of s] lead_cases[of s] length_skip[of s] by auto
  have "length (lead s @ others s) + 3 \<le> length s \<or> length (lead s @ others s) + 2 \<le> length s \<and> others s = []"
    using le two co(4) assms(2) by (cases "length (component s) \<le> 2") auto
  then show ?thesis
    using NUL_parts[OF assms(1)] NUL_parts[of "skip s"] NUL_parts[of "behind (skip s)"] co(1) assms(2)
    by (simp add: pass_result_def split: list.split)
qed

lemma pass_here:
  assumes "skip s \<noteq> []" "\<not> up_component (component s)" "here_component (component s)" "pass_result b (others s) u"
  shows "pass_result b s u"
proof -
  have le: "length (lead s @ component s @ others s) \<le> length s"
    using component_others(3)[OF assms(1)] lead_nonempty[of s] lead_cases[of s] length_skip[of s] by auto
  have c: "components s = component s # components (others s)" by (rule component_others(1)[OF assms(1)])
  show ?thesis using assms(4) le
    unfolding pass_result_def c resolve.simps if_not_P[OF assms(2)] if_P[OF assms(3)] lead_skip_Nil
    by (auto split: if_splits)
qed

lemma pass_name_done:
  assumes "skip s \<noteq> []" "\<not> up_component (component s)" "\<not> here_component (component s)" "pass_result False (others s) u"
    and "NUL \<notin> set s"
  shows "pass_result False s (component s @ u)"
proof -
  have le: "length (lead s @ component s @ others s) \<le> length s"
    using component_others(3)[OF assms(1)] lead_nonempty[of s] lead_cases[of s] length_skip[of s] by auto
  have c: "components s = component s # components (others s)" by (rule component_others(1)[OF assms(1)])
  obtain us where us: "u = concat us" "\<forall>k st. resolve k st (components (others s)) = (k, rev st @ us)"
    using assms(4) by (auto simp: pass_result_def)
  have "length u \<le> length (others s)" using assms(4) by (simp add: pass_result_def)
  then have "length (lead s @ component s @ u) \<le> length s" using le by simp
  moreover have "component s @ u = concat (component s # us)" using us(1) by simp
  moreover have "\<forall>k st. resolve k st (components s) = (k, rev st @ component s # us)"
    unfolding c resolve.simps if_not_P[OF assms(2)] if_not_P[OF assms(3)] us(2)[rule_format] by simp
  moreover have "lead (component s @ u) = []"
    using name_nonempty[OF assms(1)] by (auto simp: lead_def)
  moreover have "NUL \<notin> set (component s @ u)"
    using NUL_parts[OF assms(5)] NUL_parts[of "skip s"] NUL_parts[of "behind (skip s)"] assms(4) by (auto simp: pass_result_def)
  ultimately show ?thesis unfolding pass_result_def by (metis (no_types, lifting))
qed

lemma pass_name_again:
  assumes "skip s \<noteq> []" "\<not> up_component (component s)" "\<not> here_component (component s)" "pass_result True (others s) u"
    and "pass_result b u v"
  shows "pass_result b s v"
proof -
  have le: "length (lead s @ component s @ others s) \<le> length s"
    using component_others(3)[OF assms(1)] lead_nonempty[of s] lead_cases[of s] length_skip[of s] by auto
  have c: "components s = component s # components (others s)" by (rule component_others(1)[OF assms(1)])
  have r: "resolve k st (components s) = resolve k st (components u)" for k st
    using assms(4) unfolding c resolve.simps if_not_P[OF assms(2)] if_not_P[OF assms(3)] by (simp add: pass_result_def)
  have l: "lead u = []" "length u \<le> length (others s)" using assms(4) by (auto simp: pass_result_def)
  show ?thesis using assms(5) le l unfolding pass_result_def r by (auto split: if_splits)
qed

lemma pass_slashes: "NUL \<notin> set s \<Longrightarrow> skip s = [] \<Longrightarrow> pass_result False s []"
  using components.simps[of s] by (cases s) (auto simp: pass_result_def lead_def intro!: exI[of _ "[]"])

lemma normalize_relative_path_ok:
  "NUL \<notin> set s \<Longrightarrow>
   \<exists>b u post'. normalize_relative_path (pre @ s @ NUL # post) (length pre) = Some (b, pre @ lead s @ u @ NUL # post')
     \<and> pass_result b s u \<and> length (lead s @ u) + length post' = length s + length post"
proof (induction "length s" arbitrary: s pre post rule: less_induct)
  case less
  show ?case
  proof (cases "s = []")
    case True
    have "normalize_relative_path (pre @ NUL # post) (length pre) = Some (False, pre @ NUL # post)"
      by (subst normalize_relative_path.simps) (simp only: peek_at Option.bind.simps refl if_True)
    moreover have "pass_result False [] []" by (rule pass_slashes) (simp_all add: skip_def)
    ultimately show ?thesis unfolding True
      by (intro exI[of _ False] exI[of _ "[]"] exI[of _ post]) (simp add: lead_def)
  next
    case False
    let ?t = "component s"
    let ?pre = "pre @ lead s"
    obtain p where p: "length (lead s @ component s @ others s) + length p = length s + length post"
      and unf: "normalize_relative_path (pre @ s @ NUL # post) (length pre) =
       (let pre' = pre @ lead s; t = component s; buf = pre' @ t @ others s @ NUL # p in
          if up_component t then do { buf \<leftarrow> shift_path buf (length pre') (int (length t)); Some (True, buf) }
          else if here_component t then do {
            buf \<leftarrow> shift_path buf (length pre') (int (length t)); normalize_relative_path buf (length pre') }
          else do { (b, buf) \<leftarrow> normalize_relative_path buf (length (pre' @ t));
            if b then do {
              buf \<leftarrow> shift_path buf (length pre') (int (length t)); normalize_relative_path buf (length pre') }
            else Some (False, buf) })"
      using norm_unfold[OF less.prems False] by blast
    have nul: "NUL \<notin> set (others s)" "NUL \<notin> set ?t"
      using NUL_parts[OF less.prems] NUL_parts[of "skip s"] NUL_parts[of "behind (skip s)"] by auto
    obtain q where q: "shift_path (?pre @ ?t @ others s @ NUL # p) (length ?pre) (int (length ?t)) = Some (?pre @ others s @ NUL # q)"
      "length q = length p + length ?t" using shift_path_left[OF nul(1)] by blast
    have qlen: "length (lead s @ others s) + length q = length s + length post" using p q(2) by simp
    show ?thesis
    proof (cases "skip s = []")
      case slashes: True
      have "lead s = ''/''" using False slashes lead_cases[of s] lead_nonempty[of s] by auto
      moreover have t: "?t = []" "others s = []" unfolding slashes by (simp_all add: name_def behind_def lead_def skip_def)
      moreover have "normalize_relative_path (?pre @ NUL # p) (length ?pre) = Some (False, ?pre @ NUL # p)"
        by (subst normalize_relative_path.simps) (simp only: peek_at Option.bind.simps refl if_True)
      ultimately have "normalize_relative_path (pre @ s @ NUL # post) (length pre) = Some (False, ?pre @ NUL # p)"
        using unf by (simp add: up_component_def here_component_def)
      then show ?thesis using pass_slashes[OF less.prems slashes] p t by (intro exI[of _ False] exI[of _ "[]"] exI[of _ p]) simp
    next
      case ne: False
      note co = component_others[OF ne]
      have small: "length (others s) < length s" using co(2,3) length_skip[of s] by (cases ?t) auto
      note IH = less.hyps[OF small nul(1)]
      consider (up) "up_component ?t" | (here) "\<not> up_component ?t" "here_component ?t"
        | (nm) "\<not> up_component ?t" "\<not> here_component ?t" by blast
      then show ?thesis
      proof cases
        case up
        have "normalize_relative_path (pre @ s @ NUL # post) (length pre) = Some (True, ?pre @ others s @ NUL # q)"
          using unf up q(1) by (simp add: Let_def)
        then show ?thesis using pass_up[OF less.prems up] qlen by auto
      next
        case here
        obtain b u r where r: "normalize_relative_path (?pre @ others s @ NUL # q) (length ?pre) = Some (b, ?pre @ u @ NUL # r)"
          "pass_result b (others s) u" "length u + length r = length (others s) + length q"
          using IH[of ?pre q] by auto
        have "normalize_relative_path (pre @ s @ NUL # post) (length pre) = Some (b, ?pre @ u @ NUL # r)"
          using unf here q(1) r(1) by (simp add: Let_def)
        moreover have "length (lead s @ u) + length r = length s + length post" using qlen r(3) by simp
        ultimately show ?thesis using pass_here[OF ne here r(2)]
          by (intro exI[of _ b] exI[of _ u] exI[of _ r]) simp
      next
        case nm
        obtain b u r where r: "normalize_relative_path (?pre @ ?t @ others s @ NUL # p) (length (?pre @ ?t)) = Some (b, ?pre @ ?t @ u @ NUL # r)"
          "pass_result b (others s) u" "length u + length r = length (others s) + length p"
          using IH[of "?pre @ ?t" p] by auto
        show ?thesis
        proof (cases b)
          case False
          have "normalize_relative_path (pre @ s @ NUL # post) (length pre) = Some (False, ?pre @ (?t @ u) @ NUL # r)"
            unfolding unf Let_def if_not_P[OF nm(1)] if_not_P[OF nm(2)] r(1) using False by simp
          moreover have "pass_result False s (?t @ u)" using pass_name_done[OF ne nm _ less.prems] r(2) False by simp
          ultimately show ?thesis using p r(3) by (intro exI[of _ False] exI[of _ "?t @ u"] exI[of _ r]) simp
        next
          case b: True
          then have pu: "pass_result True (others s) u" using r(2) by simp
          have u: "NUL \<notin> set u" "lead u = []" "length u \<le> length (others s)"
            using pu by (auto simp: pass_result_def)
          obtain q2 where q2: "shift_path (?pre @ ?t @ u @ NUL # r) (length ?pre) (int (length ?t)) = Some (?pre @ u @ NUL # q2)"
            "length q2 = length r + length ?t" using shift_path_left[OF u(1)] by blast
          have "length u < length s" using u(3) small by simp
          from less.hyps[OF this u(1), of ?pre q2] obtain b2 v r2 where v:
            "normalize_relative_path (?pre @ u @ NUL # q2) (length ?pre) = Some (b2, ?pre @ v @ NUL # r2)"
            "pass_result b2 u v" "length v + length r2 = length u + length q2"
            using u(2) by auto
          have "normalize_relative_path (pre @ s @ NUL # post) (length pre) = Some (b2, ?pre @ v @ NUL # r2)"
            unfolding unf Let_def if_not_P[OF nm(1)] if_not_P[OF nm(2)] r(1) Option.bind.simps prod.case if_P[OF b] q2(1) v(1)
            by (rule refl)
          then show ?thesis using pass_name_again[OF ne nm pu v(2)] p r(3) q2(2) v(3)
            by (intro exI[of _ b2] exI[of _ v] exI[of _ r2]) simp
        qed
      qed
    qed
  qed
qed

subsection \<open>The whole program\<close>

lemma resolve_add: "resolve (k + j) st ts = (case resolve j st ts of (m, us) \<Rightarrow> (k + m, us))"
proof (induction ts arbitrary: j st)
  case (Cons t ts)
  show ?case using Cons.IH[of "j + 1" "[]"] Cons.IH[of j] by (cases st) (simp_all add: add.assoc)
qed simp

lemma lead_lead: "lead u = [] \<Longrightarrow> lead (lead s @ u) = lead s"
  using lead_cases[of s] by (auto simp: lead_def)

lemma normalize_loop_ok:
  "NUL \<notin> set s \<Longrightarrow> 2 \<le> length post \<or> 1 \<le> length post \<and> (s = [] \<or> s = ''/'') \<Longrightarrow>
   \<exists>t post'. normalize_loop (pre @ s @ NUL # post) (length pre) = Some (pre @ t @ NUL # post')
     \<and> t = (case resolve 0 [] (components s) of (k, us) \<Rightarrow> concat (replicate k ''../'') @ lead s @ concat us)
     \<and> NUL \<notin> set t \<and> length t + length post' = length s + length post"
proof (induction "length s" arbitrary: s pre post rule: less_induct)
  case less
  obtain b u q where q: "normalize_relative_path (pre @ s @ NUL # post) (length pre) = Some (b, pre @ lead s @ u @ NUL # q)"
    "pass_result b s u" "length (lead s @ u) + length q = length s + length post"
    using normalize_relative_path_ok[OF less.prems(1)] by blast
  have nul: "NUL \<notin> set (lead s @ u)" using q(2) NUL_parts[OF less.prems(1)] by (simp add: pass_result_def)
  show ?case
  proof (cases b)
    case False
    then obtain us where us: "u = concat us" "resolve 0 [] (components s) = (0, us)"
      using q(2) by (auto simp: pass_result_def)
    have "normalize_loop (pre @ s @ NUL # post) (length pre) = Some (pre @ (lead s @ u) @ NUL # q)"
      using False q(1) by (subst normalize_loop.simps) simp
    then show ?thesis using us q(3) nul by (intro exI[of _ "lead s @ u"] exI[of _ q]) simp
  next
    case True
    have pr: "resolve 0 [] (components s) = resolve 1 [] (components u)" "lead u = []"
      "length (lead s @ u) + 3 \<le> length s \<or> length (lead s @ u) + 2 \<le> length s \<and> u = []"
      using q(2) True by (auto simp: pass_result_def)
    have sm: "length (lead s @ u) < length s" "2 \<le> length s" using pr(3) by auto
    have post: "1 \<le> length post" using less.prems(2) by auto
    have q3: "3 \<le> length q" using pr(3) post q(3) by linarith
    obtain g where g: "shift_path (pre @ (lead s @ u) @ NUL # q) (length pre) (- int 3) = Some (pre @ g @ (lead s @ u) @ NUL # drop 3 q)"
      "length g = 3" using shift_path_right[OF nul q3] by auto
    have cp: "strncpy' (pre @ g @ (lead s @ u) @ NUL # drop 3 q) (length pre) (''../'' @ [NUL]) 3
        = Some (pre @ ''../'' @ (lead s @ u) @ NUL # drop 3 q)"
      using strncpy_eq[of g "''../''" pre "(lead s @ u) @ NUL # drop 3 q" "[NUL]"] g(2) by (simp add: numeral_3_eq_3)
    have room: "2 \<le> length (drop 3 q) \<or> 1 \<le> length (drop 3 q) \<and> (lead s @ u = [] \<or> lead s @ u = ''/'')"
      using pr(3)
    proof
      assume "length (lead s @ u) + 3 \<le> length s"
      then have "length post \<le> length (drop 3 q)" using q(3) by simp
      then show ?thesis using less.prems(2) sm(2) by auto
    next
      assume a: "length (lead s @ u) + 2 \<le> length s \<and> u = []"
      then have "2 \<le> length post" using less.prems(2) by auto
      then have "4 \<le> length q" using q(3) a unfolding length_append by linarith
      then have "1 \<le> length (drop 3 q)" by simp
      then show ?thesis using a lead_cases[of s] by auto
    qed
    from less.hyps[OF sm(1) nul room, of "pre @ ''../''"] obtain t p where t:
      "normalize_loop ((pre @ ''../'') @ (lead s @ u) @ NUL # drop 3 q) (length (pre @ ''../'')) = Some ((pre @ ''../'') @ t @ NUL # p)"
      "t = (case resolve 0 [] (components u) of (k, us) \<Rightarrow> concat (replicate k ''../'') @ lead s @ concat us)"
      "NUL \<notin> set t" "length t + length p = length (lead s @ u) + length (drop 3 q)"
      unfolding components_lead lead_lead[OF pr(2)] by blast
    have "normalize_loop (pre @ s @ NUL # post) (length pre)
        = normalize_loop ((pre @ ''../'') @ (lead s @ u) @ NUL # drop 3 q) (length (pre @ ''../''))"
    proof -
      have "length (pre @ ''../'') = length pre + 3" by simp
      then show ?thesis using True q(1) g(1) cp by (subst normalize_loop.simps) (simp del: list.size length_append)
    qed
    then have "normalize_loop (pre @ s @ NUL # post) (length pre) = Some (pre @ (''../'' @ t) @ NUL # p)"
      using t(1) by simp
    moreover have "''../'' @ t = (case resolve 0 [] (components s) of (k, us) \<Rightarrow> concat (replicate k ''../'') @ lead s @ concat us)"
      unfolding pr(1) t(2) using resolve_add[of 1 0 "[]" "components u"] by (auto split: prod.split)
    moreover have "length (''../'' @ t) + length p = length s + length post" using t(4) q(3) q3 by simp
    moreover have "NUL \<notin> set (''../'' @ t)" using t(3) by (simp add: NUL_def)
    ultimately show ?thesis by blast
  qed
qed

text \<open>
  C6: On every string with at least two bytes of room behind its NUL the program ends without touching a byte
  outside of the array and leaves the path that resolving its components with a stack gives, \<^verbatim>\<open>./\<close> if that is
  empty.
\<close>

theorem normalize_path_resolves:
  assumes "NUL \<notin> set s" "2 \<le> length post"
  shows "\<exists>buf. normalize_path (s @ NUL # post) = Some buf \<and> cstr buf = normal_path s
    \<and> length buf = length s + 1 + length post"
proof -
  obtain t p where t: "normalize_loop (s @ NUL # post) 0 = Some (t @ NUL # p)"
    "t = (case resolve 0 [] (components s) of (k, us) \<Rightarrow> concat (replicate k ''../'') @ lead s @ concat us)"
    "NUL \<notin> set t" "length t + length p = length s + length post"
    using normalize_loop_ok[OF assms(1) disjI1[OF assms(2)], of "[]"] by auto
  have n: "normal_path s = (if t = [] then ''./'' else t)"
    unfolding normal_path_def t(2) by (simp add: Let_def split: prod.split)
  have sl: "strlen' (t @ NUL # p) 0 = Some (length t)" using strlen_eq[OF t(3), of "[]" p] by simp
  show ?thesis
  proof (cases "t = []")
    case True
    obtain x y p' where p: "p = x # y # p'" using t(4) True assms(2) by (cases p; cases "tl p") auto
    have "strlen' (''./'' @ [NUL]) 0 = Some 2" using strlen_eq[of "''./''" "[]" "[]"] by (simp add: NUL_def)
    moreover have "strncpy' (NUL # p) 0 (''./'' @ [NUL]) 3 = Some (''./'' @ NUL # p')"
      using strncpy_eq[of "[NUL, x, y]" "''./'' @ [NUL]" "[]" p' "[]"] p
      by (simp add: numeral_3_eq_3 del: strncpy'.simps)
    ultimately have "strcpy' (NUL # p) 0 (''./'' @ [NUL]) = Some (''./'' @ NUL # p')"
      by (simp add: strcpy'_def del: strncpy'.simps)
    then have "normalize_path (s @ NUL # post) = Some (''./'' @ NUL # p')"
      using t(1) sl True by (simp add: normalize_path_def)
    then show ?thesis using n True t(4) p by (simp add: NUL_def)
  next
    case False
    then have "normalize_path (s @ NUL # post) = Some (t @ NUL # p)" using t(1) sl by (simp add: normalize_path_def)
    then show ?thesis using n False t(3,4) by simp
  qed
qed

lemma normalize_path_resolves_witness:
  "\<exists>buf. normalize_path (''/var//log/../lib/./x'' @ NUL # ''ab'') = Some buf \<and> cstr buf = ''/var/lib/x''"
proof -
  have "NUL \<notin> set ''/var//log/../lib/./x''" by (simp add: NUL_def)
  moreover have "normal_path ''/var//log/../lib/./x'' = ''/var/lib/x''"
    by (simp add: normal_path_def components.simps skip_def name_def behind_def lead_def up_component_def here_component_def)
  ultimately show ?thesis using normalize_path_resolves[of "''/var//log/../lib/./x''" "''ab''"] by auto
qed

text \<open>The specification, and with it the program, looks at the first characters of a name only.\<close>

lemma normal_path_dot_names:
  "normal_path ''.bashrc'' = ''./''" "normal_path ''a/..b/c'' = ''c''" "normal_path ''/../a'' = ''..//a''"
  by (simp_all add: normal_path_def components.simps skip_def name_def behind_def lead_def up_component_def here_component_def)

lemma normalize_path_overflow:
  "normalize_path [NUL] = None" "normalize_path (''.'' @ [NUL]) = None" "normalize_path (''/..'' @ [NUL]) = None"
  "normalize_path (''..'' @ [NUL]) = None"
  by (simp_all add: normalize_path_def normalize_loop.simps normalize_relative_path.simps restore_coupler_def skip_slashes.simps
    peek_def poke_def read_name.simps NUL_def shift_path_def shift_left.simps strlen'_def strlen_loop.simps strcpy'_def
    numeral_2_eq_2 numeral_3_eq_3)

end
