(* ===== verification/ExprParser.thy ===== *)
theory ExprParser
  imports Prelude "HOL-Library.Monad_Syntax"
begin

section \<open>compileexpr: from infix text to reverse Polish notation\<close>

text \<open>
  The first half of \<^verbatim>\<open>asm-arm_codegen_compileexpr-1/jit_compile_arm.cpp\<close>: the reader of tokens and the "sorting
  station" of \<^verbatim>\<open>ReversePolishNotation\<close>.  The string that is read and its pointer are modelled by the part that
  is still unread.  \<^verbatim>\<open>top()\<close> of an empty stack is undefined in C++ and \<open>None\<close> here.  The theorem says that the
  text of every well-formed expression, with blanks anywhere between its symbols, is turned into the postfix form
  of the expression.
\<close>

subsection \<open>Operands and tokens\<close>

datatype exp_stack_type = CONSTANT | MATH_OPERATOR | FUNCTION | VARIABLE

record StackOperand =
  so_type :: exp_stack_type
  n_arguments :: int
  so_value :: int
  so_name :: string

definition value_operand :: "exp_stack_type \<Rightarrow> int \<Rightarrow> StackOperand" where
  "value_operand t v = \<lparr>so_type = t, n_arguments = 0, so_value = v, so_name = []\<rparr>"

text \<open>The number of arguments is passed as a \<^verbatim>\<open>uint8_t\<close>, 2 by default.\<close>

definition name_operand :: "exp_stack_type \<Rightarrow> string \<Rightarrow> int \<Rightarrow> StackOperand" where
  "name_operand t n k = \<lparr>so_type = t, n_arguments = k mod 256, so_value = 0, so_name = n\<rparr>"

datatype token_type =
  OPEN_BRACKET | CLOSE_BRACKET | OPERATION | NAME | FUNC | VAR | NUMBER | COMMA | UNDEFINED

record Token =
  t_type :: token_type
  t_name :: string
  t_sym :: char
  t_value :: int

definition token :: "token_type \<Rightarrow> Token" where
  "token t = \<lparr>t_type = t, t_name = [], t_sym = NUL, t_value = 0\<rparr>"

definition PushTokenToPoliz :: "StackOperand list \<Rightarrow> Token \<Rightarrow> int \<Rightarrow> StackOperand list" where
  "PushTokenToPoliz poliz t args_count =
     (case t_type t of
        NUMBER \<Rightarrow> poliz @ [value_operand CONSTANT (t_value t)]
      | FUNC \<Rightarrow> poliz @ [name_operand FUNCTION (t_name t) args_count]
      | VAR \<Rightarrow> poliz @ [name_operand VARIABLE (t_name t) 2]
      | OPERATION \<Rightarrow> poliz @ [name_operand MATH_OPERATOR [t_sym t] 2]
      | _ \<Rightarrow> poliz)"

subsection \<open>Reading tokens\<close>

definition isalpha :: "char \<Rightarrow> bool" where
  "isalpha c \<longleftrightarrow> (let n = of_char c :: nat in 65 \<le> n \<and> n \<le> 90 \<or> 97 \<le> n \<and> n \<le> 122)"

fun ReadName :: "string \<Rightarrow> string \<Rightarrow> string \<times> string" where
  "ReadName name [] = (name, [])"
| "ReadName name (c # cs) = (if isalpha c \<or> is_digit c then ReadName (name @ [c]) cs else (name, c # cs))"

text \<open>The value is an \<^verbatim>\<open>int\<close>; an overflow, undefined in C++, is modelled with wrap-around.\<close>

fun ReadNumber :: "int \<Rightarrow> string \<Rightarrow> int \<times> string" where
  "ReadNumber v [] = (v, [])"
| "ReadNumber v (c # cs) =
     (if is_digit c then ReadNumber (to_i32 (to_i32 (v * 10) + int (digit_val c))) cs else (v, c # cs))"

fun ReadToken :: "string \<Rightarrow> Token \<times> string" where
  "ReadToken [] = (token UNDEFINED, [])"
| "ReadToken (c # cs) =
     (if c = CHR ''+'' \<or> c = CHR ''-'' \<or> c = CHR ''*'' then ((token OPERATION)\<lparr>t_sym := c\<rparr>, cs)
      else if c = CHR ''('' then (token OPEN_BRACKET, cs)
      else if c = CHR '')'' then (token CLOSE_BRACKET, cs)
      else if c = CHR '','' then (token COMMA, cs)
      else if is_digit c then
        (case ReadNumber 0 (c # cs) of (v, cs) \<Rightarrow> ((token NUMBER)\<lparr>t_value := v\<rparr>, cs))
      else if isalpha c then
        (case ReadName [] (c # cs) of (n, cs) \<Rightarrow> ((token NAME)\<lparr>t_name := n\<rparr>, cs))
      else ReadToken cs)"

lemma ReadName_le: "length (snd (ReadName n cs)) \<le> length cs"
  by (induction n cs rule: ReadName.induct) auto

lemma ReadNumber_le: "length (snd (ReadNumber v cs)) \<le> length cs"
  by (induction v cs rule: ReadNumber.induct) auto

lemma ReadToken_less: "cs \<noteq> [] \<Longrightarrow> length (snd (ReadToken cs)) < length cs"
proof (induction cs rule: ReadToken.induct)
  case (2 c cs)
  then show ?case
    using ReadName_le[of "[c]" cs] ReadNumber_le[of "to_i32 (to_i32 0 + int (digit_val c))" cs]
    by (cases "cs = []") (auto split: prod.splits simp: less_Suc_eq_le)
qed simp

subsection \<open>The sorting station\<close>

text \<open>The variables of \<^verbatim>\<open>FromInfixString\<close>; the top of \<open>sorting_stack\<close> is the head of the list.\<close>

record station =
  sorting_stack :: "Token list"
  poliz :: "StackOperand list"
  last_read_token :: Token
  unary_minus :: bool

fun pop_until_open :: "Token list \<Rightarrow> StackOperand list \<Rightarrow> (Token list \<times> StackOperand list) option" where
  "pop_until_open [] p = None"
| "pop_until_open (t # st) p =
     (if t_type t \<noteq> OPEN_BRACKET then pop_until_open st (PushTokenToPoliz p t 0) else Some (t # st, p))"

fun pop_operations :: "Token \<Rightarrow> Token list \<Rightarrow> StackOperand list \<Rightarrow> (Token list \<times> StackOperand list) option" where
  "pop_operations tok [] p = None"
| "pop_operations tok (t # st) p =
     (if t_type t = OPERATION \<and> (t_sym tok \<noteq> CHR ''*'' \<or> t_sym t = CHR ''*'')
      then pop_operations tok st (PushTokenToPoliz p t 0) else Some (t # st, p))"

fun pop_all :: "Token list \<Rightarrow> StackOperand list \<Rightarrow> StackOperand list option" where
  "pop_all [] p = None"
| "pop_all (t # st) p = (if t_type t \<noteq> UNDEFINED then pop_all st (PushTokenToPoliz p t 0) else Some p)"

text \<open>The name that was read last is a function if a bracket follows and a variable otherwise.\<close>

definition settle_name :: "token_type \<Rightarrow> station \<Rightarrow> station" where
  "settle_name next s =
     (if t_type (last_read_token s) = NAME then
        (if next = OPEN_BRACKET then
           (let l = (last_read_token s)\<lparr>t_type := FUNC\<rparr> in
              s\<lparr>last_read_token := l, sorting_stack := l # sorting_stack s\<rparr>)
         else
           (let l = (last_read_token s)\<lparr>t_type := VAR\<rparr> in
              s\<lparr>last_read_token := l, poliz := PushTokenToPoliz (poliz s) l 0\<rparr>))
      else s)"

definition starts_operand :: "token_type \<Rightarrow> bool" where
  "starts_operand t \<longleftrightarrow> t = OPEN_BRACKET \<or> t = COMMA \<or> t = UNDEFINED \<or> t = OPERATION"

definition close_bracket :: "station \<Rightarrow> station option" where
  "close_bracket s =
     (case pop_until_open (sorting_stack s) (poliz s) of
        None \<Rightarrow> None
      | Some ([], p) \<Rightarrow> None
      | Some (b # st, p) \<Rightarrow>
          (case st of
             [] \<Rightarrow> None
           | t # st' \<Rightarrow>
               if t_type t = FUNC then Some (s\<lparr>sorting_stack := st', poliz := PushTokenToPoliz p t (t_value b)\<rparr>)
               else Some (s\<lparr>sorting_stack := st, poliz := p\<rparr>)))"

definition switch_token :: "Token \<Rightarrow> station \<Rightarrow> (Token \<times> station) option" where
  "switch_token tok s =
     (case t_type tok of
        NUMBER \<Rightarrow>
          (let tok = (if unary_minus s then tok\<lparr>t_value := to_i32 (t_value tok * - 1)\<rparr> else tok) in
             Some (tok, s\<lparr>unary_minus := False, poliz := PushTokenToPoliz (poliz s) tok 0\<rparr>))
      | COMMA \<Rightarrow>
          (case pop_until_open (sorting_stack s) (poliz s) of
             Some (b # st, p) \<Rightarrow> Some (tok, s\<lparr>sorting_stack := b\<lparr>t_value := t_value b + 1\<rparr> # st, poliz := p\<rparr>)
           | _ \<Rightarrow> None)
      | OPEN_BRACKET \<Rightarrow>
          (let tok = tok\<lparr>t_value := 1\<rparr> in Some (tok, s\<lparr>sorting_stack := tok # sorting_stack s\<rparr>))
      | CLOSE_BRACKET \<Rightarrow> map_option (Pair tok) (close_bracket s)
      | OPERATION \<Rightarrow>
          (if t_sym tok = CHR ''-'' \<and> starts_operand (t_type (last_read_token s))
           then Some (tok, s\<lparr>unary_minus := True\<rparr>)
           else map_option (\<lambda>(st, p). (tok, s\<lparr>sorting_stack := tok # st, poliz := p\<rparr>))
                  (pop_operations tok (sorting_stack s) (poliz s)))
      | _ \<Rightarrow> Some (tok, s))"

definition process_token :: "Token \<Rightarrow> station \<Rightarrow> station option" where
  "process_token tok s =
     map_option (\<lambda>(tok, s). s\<lparr>last_read_token := tok\<rparr>) (switch_token tok (settle_name (t_type tok) s))"

function station_loop :: "string \<Rightarrow> station \<Rightarrow> station option" where
  "station_loop cs s =
     (if cs = [] then Some s
      else (case process_token (fst (ReadToken cs)) s of
              None \<Rightarrow> None
            | Some s' \<Rightarrow> station_loop (snd (ReadToken cs)) s'))"
  by pat_completeness auto
termination
  by (relation "measure (\<lambda>(cs, s). length cs)") (simp_all add: ReadToken_less)

declare station_loop.simps [simp del]

definition FromInfixString :: "string \<Rightarrow> StackOperand list option" where
  "FromInfixString expression =
     (case station_loop (expression @ '' '')
        \<lparr>sorting_stack = [token UNDEFINED], poliz = [], last_read_token = token UNDEFINED, unary_minus = False\<rparr> of
        None \<Rightarrow> None
      | Some s \<Rightarrow> pop_all (sorting_stack s) (poliz s))"

subsection \<open>Expressions and their postfix form\<close>

text \<open>
  Expressions as written: \<open>Paren\<close> is a pair of brackets in the text.  A negative number is a number with a minus in
  front of it.
\<close>

datatype expr = Num int | Var string | Op char expr expr | Call string "expr list" | Paren expr

definition op_token :: "char \<Rightarrow> Token" where
  "op_token c = (token OPERATION)\<lparr>t_sym := c\<rparr>"

definition number_token :: "int \<Rightarrow> Token" where
  "number_token v = (token NUMBER)\<lparr>t_value := v\<rparr>"

definition name_token :: "string \<Rightarrow> Token" where
  "name_token n = (token NAME)\<lparr>t_name := n\<rparr>"

fun lexemes :: "expr \<Rightarrow> Token list" and arg_lexemes :: "expr list \<Rightarrow> Token list" where
  "lexemes (Num n) = (if n < 0 then [op_token CHR ''-'', number_token (- n)] else [number_token n])"
| "lexemes (Var x) = [name_token x]"
| "lexemes (Op c l r) = lexemes l @ op_token c # lexemes r"
| "lexemes (Call f es) = name_token f # token OPEN_BRACKET # arg_lexemes es @ [token CLOSE_BRACKET]"
| "lexemes (Paren e) = token OPEN_BRACKET # lexemes e @ [token CLOSE_BRACKET]"
| "arg_lexemes [] = []"
| "arg_lexemes (e # es) = lexemes e @ (if es = [] then [] else token COMMA # arg_lexemes es)"

text \<open>0 for sums and differences, 1 for products, 2 for what needs no brackets anywhere.\<close>

fun level :: "expr \<Rightarrow> nat" where
  "level (Op c l r) = (if c = CHR ''*'' then 1 else 0)"
| "level e = 2"

text \<open>Operators of one level associate to the left, a call has between 1 and 255 arguments.\<close>

fun wf_expr :: "expr \<Rightarrow> bool" where
  "wf_expr (Num n) \<longleftrightarrow> - (2 ^ 31) < n \<and> n < 2 ^ 31"
| "wf_expr (Var x) \<longleftrightarrow> True"
| "wf_expr (Op c l r) \<longleftrightarrow> wf_expr l \<and> wf_expr r \<and>
     (if c = CHR ''*'' then 1 \<le> level l \<and> level r = 2
      else (c = CHR ''+'' \<or> c = CHR ''-'') \<and> 1 \<le> level r)"
| "wf_expr (Call f es) \<longleftrightarrow> es \<noteq> [] \<and> length es < 256 \<and> list_all wf_expr es"
| "wf_expr (Paren e) \<longleftrightarrow> wf_expr e"

definition op_operand :: "char \<Rightarrow> StackOperand" where
  "op_operand c = name_operand MATH_OPERATOR [c] 2"

fun postfix :: "expr \<Rightarrow> StackOperand list" where
  "postfix (Num n) = [value_operand CONSTANT n]"
| "postfix (Var x) = [name_operand VARIABLE x 2]"
| "postfix (Op c l r) = postfix l @ postfix r @ [op_operand c]"
| "postfix (Call f es) = concat (map postfix es) @ [name_operand FUNCTION f (int (length es))]"
| "postfix (Paren e) = postfix e"

text \<open>
  Behind the last symbol of an expression some of its operators still wait on the stack: \<open>waiting\<close> are these, the
  innermost first, \<open>put_out\<close> is what has been put out.
\<close>

fun waiting :: "expr \<Rightarrow> char list" where
  "waiting (Op c l r) = waiting r @ [c]"
| "waiting e = []"

fun put_out :: "expr \<Rightarrow> StackOperand list" where
  "put_out (Op c l r) = postfix l @ put_out r"
| "put_out e = postfix e"

lemma postfix_split: "postfix e = put_out e @ map op_operand (waiting e)"
  by (induction e) auto

lemma waiting_level:
  "level e = 2 \<Longrightarrow> waiting e = []"
  "wf_expr e \<Longrightarrow> 1 \<le> level e \<Longrightarrow> set (waiting e) \<subseteq> {CHR ''*''}"
  "wf_expr e \<Longrightarrow> set (waiting e) \<subseteq> {CHR ''*'', CHR ''+'', CHR ''-''}"
proof -
  show l2: "level e = 2 \<Longrightarrow> waiting e = []" for e by (cases e) (auto split: if_splits)
  show l1: "wf_expr e \<Longrightarrow> 1 \<le> level e \<Longrightarrow> set (waiting e) \<subseteq> {CHR ''*''}" for e
    by (cases e) (auto dest: l2 split: if_splits)
  show "wf_expr e \<Longrightarrow> set (waiting e) \<subseteq> {CHR ''*'', CHR ''+'', CHR ''-''}" for e
    by (induction e) (auto split: if_splits)
qed

subsection \<open>The sorting station on a sequence of tokens\<close>

fun run_tokens :: "Token list \<Rightarrow> station \<Rightarrow> station option" where
  "run_tokens [] s = Some s"
| "run_tokens (t # ts) s = (case process_token t s of None \<Rightarrow> None | Some s \<Rightarrow> run_tokens ts s)"

lemma run_tokens_append: "run_tokens (xs @ ys) s = (case run_tokens xs s of None \<Rightarrow> None | Some s \<Rightarrow> run_tokens ys s)"
  by (induction xs arbitrary: s) (auto split: option.split)

definition station_of :: "Token list \<Rightarrow> StackOperand list \<Rightarrow> Token \<Rightarrow> station" where
  "station_of S P L = \<lparr>sorting_stack = S, poliz = P, last_read_token = L, unary_minus = False\<rparr>"

text \<open>Before an operand, and behind one, when a name that was read last counts as put out.\<close>

definition operand_place :: "Token list \<Rightarrow> Token \<Rightarrow> bool" where
  "operand_place S L \<longleftrightarrow> starts_operand (t_type L) \<and> S \<noteq> [] \<and> t_type (hd S) \<in> {OPEN_BRACKET, OPERATION, UNDEFINED}"

definition behind_operand :: "Token list \<Rightarrow> StackOperand list \<Rightarrow> station \<Rightarrow> bool" where
  "behind_operand S P s \<longleftrightarrow> (\<exists>L. t_type L \<in> {NUMBER, VAR, CLOSE_BRACKET} \<and>
     (\<forall>t. t \<noteq> OPEN_BRACKET \<longrightarrow> settle_name t s = station_of S P L))"

lemma token_simps [simp]:
  "t_type (token t) = t" "t_type (op_token c) = OPERATION" "t_sym (op_token c) = c"
  "t_type (number_token v) = NUMBER" "t_value (number_token v) = v" "t_type (name_token n) = NAME"
  "t_name (name_token n) = n"
  by (simp_all add: token_def op_token_def number_token_def name_token_def)

lemma place_number:
  "operand_place S L \<Longrightarrow> process_token (number_token v) (station_of S P L)
     = Some (station_of S (P @ [value_operand CONSTANT v]) (number_token v))"
  by (auto simp: operand_place_def starts_operand_def process_token_def switch_token_def settle_name_def station_of_def
      PushTokenToPoliz_def Let_def)

lemma behind_number: "behind_operand S P (station_of S P (number_token v))"
  unfolding behind_operand_def by (rule exI[of _ "number_token v"]) (simp add: settle_name_def station_of_def)

lemma place_minus:
  assumes "operand_place S L" "0 < v" "v < 2 ^ 31"
  shows "\<exists>s. run_tokens [op_token CHR ''-'', number_token v] (station_of S P L) = Some s
    \<and> behind_operand S (P @ [value_operand CONSTANT (- v)]) s"
proof -
  have "run_tokens [op_token CHR ''-'', number_token v] (station_of S P L)
      = Some (station_of S (P @ [value_operand CONSTANT (- v)]) (number_token (- v)))"
    using assms by (auto simp: operand_place_def starts_operand_def process_token_def switch_token_def settle_name_def
        station_of_def PushTokenToPoliz_def Let_def is_i32_def number_token_def token_def)
  then show ?thesis using behind_number by blast
qed

lemma place_name:
  "operand_place S L \<Longrightarrow> process_token (name_token x) (station_of S P L) = Some (station_of S P (name_token x))"
  by (auto simp: operand_place_def starts_operand_def process_token_def switch_token_def settle_name_def station_of_def)

lemma behind_name: "behind_operand S (P @ [name_operand VARIABLE x 2]) (station_of S P (name_token x))"
  unfolding behind_operand_def
  by (rule exI[of _ "(name_token x)\<lparr>t_type := VAR\<rparr>"])
    (simp add: settle_name_def station_of_def PushTokenToPoliz_def Let_def name_token_def token_def)

text \<open>An open bracket that has counted \<open>v\<close> arguments, and the name of a function below it.\<close>

definition bracket :: "int \<Rightarrow> Token" where
  "bracket v = (token OPEN_BRACKET)\<lparr>t_value := v\<rparr>"

definition func_token :: "string \<Rightarrow> Token" where
  "func_token f = (name_token f)\<lparr>t_type := FUNC\<rparr>"

lemma bracket_simps [simp]:
  "t_type (bracket v) = OPEN_BRACKET" "t_value (bracket v) = v" "(bracket v)\<lparr>t_value := w\<rparr> = bracket w"
  "t_type (func_token f) = FUNC" "t_name (func_token f) = f" "(token OPEN_BRACKET)\<lparr>t_value := w\<rparr> = bracket w"
  by (simp_all add: bracket_def func_token_def token_def name_token_def)

lemma place_bracket:
  "operand_place S L \<Longrightarrow> process_token (token OPEN_BRACKET) (station_of S P L) = Some (station_of (bracket 1 # S) P (bracket 1))"
  by (auto simp: operand_place_def starts_operand_def process_token_def switch_token_def settle_name_def station_of_def Let_def)

lemma name_bracket:
  "process_token (token OPEN_BRACKET) (station_of S P (name_token f)) = Some (station_of (bracket 1 # func_token f # S) P (bracket 1))"
  by (simp add: process_token_def switch_token_def settle_name_def station_of_def Let_def func_token_def)

lemma behind_op:
  assumes "behind_operand S P s" "pop_operations (op_token c) S P = Some (S', P')"
  shows "process_token (op_token c) s = Some (station_of (op_token c # S') P' (op_token c))"
  using assms by (auto simp: behind_operand_def process_token_def switch_token_def station_of_def starts_operand_def)

lemma behind_comma:
  assumes "behind_operand S P s" "pop_until_open S P = Some (bracket v # S', P')"
  shows "process_token (token COMMA) s = Some (station_of (bracket (v + 1) # S') P' (token COMMA))"
  using assms by (auto simp: behind_operand_def process_token_def switch_token_def station_of_def)

lemma behind_close:
  assumes "behind_operand S P s" "pop_until_open S P = Some (bracket v # t # S', P')"
  shows "process_token (token CLOSE_BRACKET) s = Some (if t_type t = FUNC
    then station_of S' (P' @ [name_operand FUNCTION (t_name t) v]) (token CLOSE_BRACKET)
    else station_of (t # S') P' (token CLOSE_BRACKET))"
  using assms by (auto simp: behind_operand_def process_token_def switch_token_def station_of_def close_bracket_def PushTokenToPoliz_def)

lemma behind_closed: "behind_operand S P (station_of S P (token CLOSE_BRACKET))"
  unfolding behind_operand_def by (rule exI[of _ "token CLOSE_BRACKET"]) (simp add: settle_name_def station_of_def)

lemma push_ops: "PushTokenToPoliz p (op_token c) k = p @ [op_operand c]"
  by (simp add: PushTokenToPoliz_def op_operand_def)

lemma pop_waiting:
  "\<forall>w\<in>set ws. c \<noteq> CHR ''*'' \<or> w = CHR ''*'' \<Longrightarrow> S \<noteq> [] \<Longrightarrow>
   \<not> (t_type (hd S) = OPERATION \<and> (c \<noteq> CHR ''*'' \<or> t_sym (hd S) = CHR ''*'')) \<Longrightarrow>
   pop_operations (op_token c) (map op_token ws @ S) P = Some (S, P @ map op_operand ws)"
proof (induction ws arbitrary: P)
  case Nil
  then show ?case by (cases S) auto
qed (auto simp: push_ops)

lemma pop_to_bracket:
  "pop_until_open (map op_token ws @ bracket v # S) P = Some (bracket v # S, P @ map op_operand ws)"
  by (induction ws arbitrary: P) (auto simp: push_ops)

lemma pop_to_end: "pop_all (map op_token ws @ [token UNDEFINED]) P = Some (P @ map op_operand ws)"
  by (induction ws arbitrary: P) (auto simp: push_ops)

text \<open>What an expression of a level needs on the stack below it.\<close>

definition below :: "nat \<Rightarrow> Token list \<Rightarrow> bool" where
  "below l S \<longleftrightarrow> (l = 0 \<longrightarrow> t_type (hd S) \<noteq> OPERATION) \<and>
     (l = 1 \<longrightarrow> \<not> (t_type (hd S) = OPERATION \<and> t_sym (hd S) = CHR ''*''))"

definition runs_expr :: "expr \<Rightarrow> bool" where
  "runs_expr e \<longleftrightarrow> (\<forall>S P L. operand_place S L \<longrightarrow> below (level e) S \<longrightarrow>
     (\<exists>s. run_tokens (lexemes e) (station_of S P L) = Some s \<and> behind_operand (map op_token (waiting e) @ S) (P @ put_out e) s))"

lemma runs_exprD:
  assumes "runs_expr e" "operand_place S L" "below (level e) S"
  obtains s where "run_tokens (lexemes e) (station_of S P L) = Some s" "behind_operand (map op_token (waiting e) @ S) (P @ put_out e) s"
  using assms unfolding runs_expr_def by blast

lemma level_cases: "level e = 0 \<or> level e = 1 \<or> level e = 2"
  by (cases e) auto

lemma runs_op:
  assumes l: "runs_expr l" and r: "runs_expr r" and wf: "wf_expr (Op c l r)"
  shows "runs_expr (Op c l r)"
  unfolding runs_expr_def
proof (intro allI impI)
  fix S P L assume S: "operand_place S L" and b: "below (level (Op c l r)) S"
  have bl: "below (level l) S"
    using b wf level_cases[of l] by (auto simp: below_def split: if_splits)
  obtain s where s: "run_tokens (lexemes l) (station_of S P L) = Some s" "behind_operand (map op_token (waiting l) @ S) (P @ put_out l) s"
    using runs_exprD[OF l S bl] by blast
  have "\<forall>w\<in>set (waiting l). c \<noteq> CHR ''*'' \<or> w = CHR ''*''"
    using wf waiting_level(2)[of l] by (auto split: if_splits)
  moreover have "\<not> (t_type (hd S) = OPERATION \<and> (c \<noteq> CHR ''*'' \<or> t_sym (hd S) = CHR ''*''))"
    using b by (auto simp: below_def split: if_splits)
  moreover have "S \<noteq> []" using S by (simp add: operand_place_def)
  ultimately have p: "pop_operations (op_token c) (map op_token (waiting l) @ S) (P @ put_out l) = Some (S, P @ postfix l)"
    using pop_waiting[of "waiting l" c S "P @ put_out l"] by (simp add: postfix_split)
  have place: "operand_place (op_token c # S) (op_token c)" by (simp add: operand_place_def starts_operand_def)
  have br: "below (level r) (op_token c # S)" using wf by (auto simp: below_def split: if_splits)
  obtain s' where s': "run_tokens (lexemes r) (station_of (op_token c # S) (P @ postfix l) (op_token c)) = Some s'"
    "behind_operand (map op_token (waiting r) @ op_token c # S) ((P @ postfix l) @ put_out r) s'"
    using runs_exprD[OF r place br] by blast
  have "run_tokens (lexemes (Op c l r)) (station_of S P L) = Some s'"
    using s(1) behind_op[OF s(2) p] s'(1) by (simp add: run_tokens_append)
  then show "\<exists>s. run_tokens (lexemes (Op c l r)) (station_of S P L) = Some s
      \<and> behind_operand (map op_token (waiting (Op c l r)) @ S) (P @ put_out (Op c l r)) s"
    using s'(2) by simp
qed

lemma runs_args:
  "\<forall>e\<in>set es. runs_expr e \<Longrightarrow> es \<noteq> [] \<Longrightarrow> starts_operand (t_type L) \<Longrightarrow>
   run_tokens (arg_lexemes es @ [token CLOSE_BRACKET]) (station_of (bracket v # t # S) P L) =
     Some (if t_type t = FUNC
       then station_of S (P @ concat (map postfix es) @ [name_operand FUNCTION (t_name t) (v + int (length es) - 1)]) (token CLOSE_BRACKET)
       else station_of (t # S) (P @ concat (map postfix es)) (token CLOSE_BRACKET))"
proof (induction es arbitrary: v P L)
  case (Cons e es)
  have place: "operand_place (bracket v # t # S) L" using Cons.prems(3) by (simp add: operand_place_def)
  have b: "below (level e) (bracket v # t # S)" by (simp add: below_def)
  have e: "runs_expr e" using Cons.prems(1) by simp
  obtain s where s: "run_tokens (lexemes e) (station_of (bracket v # t # S) P L) = Some s"
    "behind_operand (map op_token (waiting e) @ bracket v # t # S) (P @ put_out e) s"
    using runs_exprD[OF e place b] by blast
  have p: "pop_until_open (map op_token (waiting e) @ bracket v # t # S) (P @ put_out e) = Some (bracket v # t # S, P @ postfix e)"
    by (simp add: pop_to_bracket postfix_split)
  show ?case
  proof (cases "es = []")
    case True
    then show ?thesis using s(1) behind_close[OF s(2) p] by (simp add: run_tokens_append)
  next
    case False
    have "starts_operand (t_type (token COMMA))" by (simp add: starts_operand_def)
    then show ?thesis
      using False s(1) behind_comma[OF s(2) p] Cons.IH[of "token COMMA" "v + 1" "P @ postfix e"] Cons.prems(1)
      by (simp add: run_tokens_append algebra_simps)
  qed
qed simp

lemma wf_runs: "wf_expr e \<Longrightarrow> runs_expr e"
proof (induction e)
  case (Num n)
  show ?case unfolding runs_expr_def
  proof (intro allI impI)
    fix S P L assume S: "operand_place S L"
    show "\<exists>s. run_tokens (lexemes (Num n)) (station_of S P L) = Some s
        \<and> behind_operand (map op_token (waiting (Num n)) @ S) (P @ put_out (Num n)) s"
    proof (cases "n < 0")
      case True
      then show ?thesis using place_minus[OF S, of "- n" P] Num.prems by simp
    next
      case False
      then show ?thesis using place_number[OF S, of n P] behind_number by simp
    qed
  qed
next
  case (Var x)
  show ?case unfolding runs_expr_def using place_name behind_name by auto
next
  case (Op c l r)
  then show ?case by (intro runs_op) (auto split: if_splits)
next
  case (Call f es)
  have es: "\<forall>e\<in>set es. runs_expr e" "es \<noteq> []" using Call by (auto simp: list_all_iff)
  show ?case unfolding runs_expr_def
  proof (intro allI impI)
    fix S P L assume S: "operand_place S L"
    have "run_tokens (lexemes (Call f es)) (station_of S P L)
        = Some (station_of S (P @ put_out (Call f es)) (token CLOSE_BRACKET))"
      using place_name[OF S, of f P] name_bracket[of S P f] runs_args[OF es, of "bracket 1" 1 "func_token f" S P]
      by (simp add: starts_operand_def)
    then show "\<exists>s. run_tokens (lexemes (Call f es)) (station_of S P L) = Some s
        \<and> behind_operand (map op_token (waiting (Call f es)) @ S) (P @ put_out (Call f es)) s"
      using behind_closed by auto
  qed
next
  case (Paren e)
  have es: "\<forall>e'\<in>set [e]. runs_expr e'" "[e] \<noteq> []" using Paren by auto
  show ?case unfolding runs_expr_def
  proof (intro allI impI)
    fix S P L assume S: "operand_place S L"
    then obtain t S' where t: "S = t # S'" "t_type t \<noteq> FUNC" by (cases S) (auto simp: operand_place_def)
    have "run_tokens (lexemes (Paren e)) (station_of S P L)
        = Some (station_of S (P @ put_out (Paren e)) (token CLOSE_BRACKET))"
      using place_bracket[OF S, of P] runs_args[OF es, of "bracket 1" 1 t S' P] t
      by (simp add: starts_operand_def)
    then show "\<exists>s. run_tokens (lexemes (Paren e)) (station_of S P L) = Some s
        \<and> behind_operand (map op_token (waiting (Paren e)) @ S) (P @ put_out (Paren e)) s"
      using behind_closed by auto
  qed
qed

subsection \<open>The text of a sequence of tokens\<close>

text \<open>Characters that separate tokens: everything without a meaning of its own.\<close>

definition blank :: "char \<Rightarrow> bool" where
  "blank c \<longleftrightarrow> \<not> isalpha c \<and> \<not> is_digit c \<and> c \<notin> {CHR ''+'', CHR ''-'', CHR ''*'', CHR ''('', CHR '')'', CHR '',''}"

definition alnum :: "char \<Rightarrow> bool" where
  "alnum c \<longleftrightarrow> isalpha c \<or> is_digit c"

definition valid_name :: "string \<Rightarrow> bool" where
  "valid_name n \<longleftrightarrow> n \<noteq> [] \<and> isalpha (hd n) \<and> list_all alnum n"

text \<open>The strings a token may be written as.\<close>

definition written_as :: "Token \<Rightarrow> string \<Rightarrow> bool" where
  "written_as t w \<longleftrightarrow>
     (\<exists>c\<in>{CHR ''+'', CHR ''-'', CHR ''*''}. t = op_token c \<and> w = [c])
     \<or> t = token OPEN_BRACKET \<and> w = ''('' \<or> t = token CLOSE_BRACKET \<and> w = '')'' \<or> t = token COMMA \<and> w = '',''
     \<or> t = number_token (int (dec_val w)) \<and> w \<noteq> [] \<and> list_all is_digit w \<and> dec_val w < 2 ^ 31
     \<or> t = name_token w \<and> valid_name w"

text \<open>Blanks before every token and behind the last; a name or number ends before a name or number begins.\<close>

inductive spells :: "Token list \<Rightarrow> string \<Rightarrow> bool" where
  spells_end: "list_all blank g \<Longrightarrow> spells [] g"
| spells_token: "list_all blank g \<Longrightarrow> written_as t w \<Longrightarrow> spells ts s \<Longrightarrow>
    (t_type t \<in> {NUMBER, NAME} \<longrightarrow> s = [] \<or> \<not> alnum (hd s)) \<Longrightarrow> spells (t # ts) (g @ w @ s)"

lemma ReadToken_blank: "list_all blank g \<Longrightarrow> ReadToken (g @ s) = ReadToken s"
  by (induction g) (auto simp: blank_def)

lemma foldl_ge: "foldl (\<lambda>a c. 10 * a + digit_val c) a ds \<ge> (a :: nat)"
proof (induction ds arbitrary: a)
  case (Cons d ds)
  have "a \<le> 10 * a + digit_val d" by simp
  also have "\<dots> \<le> foldl (\<lambda>a c. 10 * a + digit_val c) (10 * a + digit_val d) ds" by (rule Cons.IH)
  finally show ?case by simp
qed simp

lemma ReadNumber_digits:
  "list_all is_digit ds \<Longrightarrow> s = [] \<or> \<not> is_digit (hd s) \<Longrightarrow> foldl (\<lambda>a c. 10 * a + digit_val c) v ds < 2 ^ 31 \<Longrightarrow>
   ReadNumber (int v) (ds @ s) = (int (foldl (\<lambda>a c. 10 * a + digit_val c) v ds), s)"
proof (induction ds arbitrary: v)
  case Nil
  then show ?case by (cases s) auto
next
  case (Cons d ds)
  have "10 * v + digit_val d < 2 ^ 31"
    using Cons.prems(3) foldl_ge[of "10 * v + digit_val d" ds] by simp
  then have "to_i32 (to_i32 (int v * 10) + int (digit_val d)) = int (10 * v + digit_val d)"
    by (simp add: is_i32_def)
  then show ?case using Cons.prems Cons.IH[of "10 * v + digit_val d"] by simp
qed

lemma ReadName_alnums:
  "list_all alnum ns \<Longrightarrow> s = [] \<or> \<not> alnum (hd s) \<Longrightarrow> ReadName n (ns @ s) = (n @ ns, s)"
proof (induction ns arbitrary: n)
  case Nil
  then show ?case by (cases s) (auto simp: alnum_def)
qed (auto simp: alnum_def)

lemma digit_not_special:
  "is_digit c \<Longrightarrow> c \<notin> {CHR ''+'', CHR ''-'', CHR ''*'', CHR ''('', CHR '')'', CHR '',''}"
  "isalpha c \<Longrightarrow> c \<notin> {CHR ''+'', CHR ''-'', CHR ''*'', CHR ''('', CHR '')'', CHR '',''} \<and> \<not> is_digit c"
  by (auto simp: is_digit_def isalpha_def Let_def)

lemma ReadToken_written:
  assumes "written_as t w" "t_type t \<in> {NUMBER, NAME} \<longrightarrow> s = [] \<or> \<not> alnum (hd s)"
  shows "ReadToken (w @ s) = (t, s)" and "w \<noteq> []"
proof -
  consider (op) c where "c \<in> {CHR ''+'', CHR ''-'', CHR ''*''}" "t = op_token c" "w = [c]"
    | (sep) "t = token OPEN_BRACKET \<and> w = ''('' \<or> t = token CLOSE_BRACKET \<and> w = '')'' \<or> t = token COMMA \<and> w = '',''"
    | (num) "t = number_token (int (dec_val w))" "w \<noteq> []" "list_all is_digit w" "dec_val w < 2 ^ 31"
    | (nam) "t = name_token w" "valid_name w"
    using assms(1) unfolding written_as_def by blast
  then have "ReadToken (w @ s) = (t, s) \<and> w \<noteq> []"
  proof cases
    case op
    then show ?thesis by (auto simp: op_token_def)
  next
    case sep
    then show ?thesis by auto
  next
    case num
    obtain c cs where w: "w = c # cs" using num(2) by (cases w) auto
    have c: "is_digit c" using num(3) w by simp
    have "s = [] \<or> \<not> is_digit (hd s)" using assms(2) num(1) by (auto simp: alnum_def)
    then have "ReadNumber 0 (w @ s) = (int (dec_val w), s)"
      using ReadNumber_digits[of w s 0] num(3,4) by (simp add: dec_val_def)
    then show ?thesis using c digit_not_special(1)[OF c] num(1) unfolding w by (simp add: number_token_def del: ReadNumber.simps)
  next
    case nam
    obtain c cs where w: "w = c # cs" using nam(2) by (cases w) (auto simp: valid_name_def)
    have c: "isalpha c" using nam(2) w by (simp add: valid_name_def)
    have "ReadName [] (w @ s) = (w, s)"
      using ReadName_alnums[of w s "[]"] nam assms(2) by (simp add: valid_name_def)
    then show ?thesis using c digit_not_special(2)[OF c] nam(1) unfolding w by (simp add: name_token_def del: ReadName.simps)
  qed
  then show "ReadToken (w @ s) = (t, s)" "w \<noteq> []" by auto
qed

lemma written_token: "written_as t w \<Longrightarrow> t_type t \<noteq> UNDEFINED"
  by (auto simp: written_as_def)

text \<open>The loop processes the tokens and then the end of the string, which the appended blank announces.\<close>

lemma spells_loop:
  "spells ts s \<Longrightarrow> station_loop (s @ '' '') st =
     (case run_tokens ts st of None \<Rightarrow> None | Some st' \<Rightarrow> process_token (token UNDEFINED) st')"
proof (induction ts s arbitrary: st rule: spells.induct)
  case (spells_end g)
  have "list_all blank (g @ '' '')" using spells_end by (simp add: blank_def isalpha_def is_digit_def)
  then have "ReadToken (g @ '' '') = (token UNDEFINED, [])" using ReadToken_blank[of "g @ '' ''" "[]"] by simp
  then show ?case by (subst station_loop.simps) (auto simp: station_loop.simps[of "[]"] split: option.split)
next
  case (spells_token g t w ts s)
  have "t_type t \<in> {NUMBER, NAME} \<longrightarrow> s @ '' '' = [] \<or> \<not> alnum (hd (s @ '' ''))"
    using spells_token.hyps(4) by (cases s) (auto simp: alnum_def isalpha_def is_digit_def)
  then have "ReadToken ((g @ w @ s) @ '' '') = (t, s @ '' '')"
    using ReadToken_blank[OF spells_token.hyps(1)] ReadToken_written(1)[OF spells_token.hyps(2)] by simp
  moreover have "(g @ w @ s) @ '' '' \<noteq> []" by simp
  ultimately show ?case
    using spells_token.IH by (subst station_loop.simps) (auto split: option.split)
qed

lemma FromInfixString_post:
  assumes "wf_expr e" "spells (lexemes e) text"
  shows "FromInfixString text = Some (postfix e)"
proof -
  let ?U = "token UNDEFINED"
  have place: "operand_place [?U] ?U" by (simp add: operand_place_def starts_operand_def)
  have "below (level e) [?U]" by (simp add: below_def)
  then obtain s where s: "run_tokens (lexemes e) (station_of [?U] [] ?U) = Some s"
    "behind_operand (map op_token (waiting e) @ [?U]) ([] @ put_out e) s"
    using runs_exprD[OF wf_runs[OF assms(1)] place] by blast
  have "process_token ?U s = Some (station_of (map op_token (waiting e) @ [?U]) (put_out e) ?U)"
    using s(2) by (auto simp: behind_operand_def process_token_def switch_token_def station_of_def)
  then have "station_loop (text @ '' '') (station_of [?U] [] ?U) = Some (station_of (map op_token (waiting e) @ [?U]) (put_out e) ?U)"
    using spells_loop[OF assms(2)] s(1) by simp
  then show ?thesis using pop_to_end[of "waiting e" "put_out e"]
    unfolding FromInfixString_def station_of_def by (simp add: postfix_split)
qed

text \<open>
  C5: The text of a well-formed expression, with any number of blanks between its symbols, is turned into the
  postfix form of the expression: operators of equal precedence associate to the left, products bind tighter, a
  minus in front of a number belongs to the number, and every call gets the number of its arguments.
\<close>

theorem FromInfixString_postfix:
  assumes "wf_expr e" "spells (lexemes e) text"
  shows "FromInfixString text = Some (postfix e)"
  using assms by (rule FromInfixString_post)

definition sample_expr :: expr where
  "sample_expr = Op CHR ''+'' (Op CHR ''+'' (Op CHR ''*'' (Paren (Op CHR ''+'' (Num 1) (Var ''a''))) (Var ''c''))
     (Call ''div'' [Op CHR ''+'' (Num 2) (Num 4), Num (- 2)])) (Num 3)"

text \<open>A text given piece by piece: a token with the blanks before it and its string.\<close>

fun pieces :: "(Token \<times> string \<times> string) list \<Rightarrow> bool" where
  "pieces [] = True"
| "pieces ((t, g, w) # ps) \<longleftrightarrow> list_all blank g \<and> written_as t w \<and> pieces ps \<and>
     (case ps of [] \<Rightarrow> True | (t', g', w') # _ \<Rightarrow> t_type t \<notin> {NUMBER, NAME} \<or> \<not> alnum (hd (g' @ w')))"

lemma spells_pieces: "pieces ps \<Longrightarrow> spells (map fst ps) (concat (map (\<lambda>(t, g, w). g @ w) ps))"
proof (induction ps rule: pieces.induct)
  case 1
  then show ?case by (simp add: spells_end)
next
  case (2 t g w ps)
  let ?s = "concat (map (\<lambda>(t, g, w). g @ w) ps)"
  have "?s = [] \<or> \<not> alnum (hd ?s)" if tt: "t_type t \<in> {NUMBER, NAME}"
  proof (cases ps)
    case (Cons p ps')
    obtain t' g' w' where p: "p = (t', g', w')" by (cases p)
    then have "w' \<noteq> []" using 2(2) Cons by (auto simp: written_as_def valid_name_def)
    then show ?thesis using 2(2) tt Cons p by (cases g') auto
  qed simp
  then show ?case using 2 spells_token[of g t w "map fst ps" ?s] by auto
qed

lemma written_tokens:
  "c \<in> {CHR ''+'', CHR ''-'', CHR ''*''} \<Longrightarrow> written_as (op_token c) [c]"
  "written_as (token OPEN_BRACKET) ''(''" "written_as (token CLOSE_BRACKET) '')''" "written_as (token COMMA) '',''"
  "w \<noteq> [] \<Longrightarrow> list_all is_digit w \<Longrightarrow> v = int (dec_val w) \<Longrightarrow> dec_val w < 2 ^ 31 \<Longrightarrow> written_as (number_token v) w"
  "valid_name w \<Longrightarrow> written_as (name_token w) w"
  by (auto simp: written_as_def)

lemmas char_class = alnum_def isalpha_def is_digit_def digit_val_def blank_def valid_name_def dec_val_def

lemma spells_sample: "spells (lexemes sample_expr) ''(1+a)*c + div(2+4,-2) + 3''"
proof -
  let ?ps = "[(token OPEN_BRACKET, [], ''(''), (number_token 1, [], ''1''), (op_token CHR ''+'', [], ''+''),
    (name_token ''a'', [], ''a''), (token CLOSE_BRACKET, [], '')''), (op_token CHR ''*'', [], ''*''), (name_token ''c'', [], ''c''),
    (op_token CHR ''+'', '' '', ''+''), (name_token ''div'', '' '', ''div''), (token OPEN_BRACKET, [], ''(''),
    (number_token 2, [], ''2''), (op_token CHR ''+'', [], ''+''), (number_token 4, [], ''4''), (token COMMA, [], '',''),
    (op_token CHR ''-'', [], ''-''), (number_token 2, [], ''2''), (token CLOSE_BRACKET, [], '')''),
    (op_token CHR ''+'', '' '', ''+''), (number_token 3, '' '', ''3'')]"
  have "pieces ?ps" by (simp add: written_tokens char_class)
  then have "spells (map fst ?ps) (concat (map (\<lambda>(t, g, w). g @ w) ?ps))" by (rule spells_pieces)
  then show ?thesis by (simp add: sample_expr_def)
qed

lemma FromInfixString_postfix_witness:
  "wf_expr sample_expr \<and> FromInfixString ''(1+a)*c + div(2+4,-2) + 3'' = Some (postfix sample_expr)"
proof -
  have "wf_expr sample_expr" by (simp add: sample_expr_def)
  then show ?thesis using FromInfixString_postfix[OF _ spells_sample] by blast
qed

subsection \<open>Texts outside of the grammar\<close>

text \<open>
  A closing bracket without an opening one pops the empty stack; a call without arguments counts one; a minus in
  front of a name is forgotten until the next number.
\<close>

lemma FromInfixString_close_bracket: "FromInfixString '')'' = None"
  and FromInfixString_no_arguments: "FromInfixString ''f()'' = Some [name_operand FUNCTION ''f'' 1]"
  and FromInfixString_minus_name: "FromInfixString ''-a+5'' = Some (postfix (Op CHR ''+'' (Var ''a'') (Num (- 5))))"
  by (simp_all add: FromInfixString_def station_loop.simps process_token_def switch_token_def settle_name_def token_def
      close_bracket_def char_class PushTokenToPoliz_def starts_operand_def op_operand_def name_operand_def value_operand_def
      to_i32_def Let_def)

end
