(* ===== verification/ArmCodegen.thy ===== *)
theory ArmCodegen
  imports ExprParser
begin

section \<open>compileexpr: ARM code for expressions\<close>

text \<open>
  The second half of \<^verbatim>\<open>asm-arm_codegen_compileexpr-1/jit_compile_arm.cpp\<close>: the namespace \<^verbatim>\<open>arm_commands\<close>, the class
  \<^verbatim>\<open>ExpressionFuncGenerator\<close> and \<^verbatim>\<open>jit_compile_expression_to_arm\<close>.  Commands, addresses and \<^verbatim>\<open>size_t\<close> are 32-bit
  words, as on the target.  The buffer is the list of its words; a write outside of it is \<open>None\<close>.  The processor
  that runs the code is modelled as far as the encodings that the generator emits: fields of the instruction
  word select an instruction, and instructions change registers and memory.  The theorem says that calling the
  generated code returns the value of the expression.
\<close>

subsection \<open>The instruction words\<close>

definition WORD_SIZE :: u32 where "WORD_SIZE = 4"
definition PROGRAM_BUFFER_SIZE :: u32 where "PROGRAM_BUFFER_SIZE = 0x1000"

definition arm_add :: u32 where "arm_add = 0xe0810002"
definition arm_sub :: u32 where "arm_sub = 0xe0410002"
definition arm_mul :: u32 where "arm_mul = 0xe0000291"
definition push_r0 :: u32 where "push_r0 = 0xe52d0004"
definition push_r4_lr :: u32 where "push_r4_lr = 0xe92d4010"
definition pop_r4_lr :: u32 where "pop_r4_lr = 0xe8bd4010"
definition pop_r :: "u32 \<Rightarrow> u32" where "pop_r r_num = 0xe49d0004 + 0x1000 * r_num"

definition mov_constant :: "int \<Rightarrow> u32" where
  "mov_constant v = (if 0 \<le> v then 0xe3a00000 + word_of_int v else 0xe3e00000 - word_of_int v - 1)"

definition load_constant :: "u32 \<Rightarrow> u32" where "load_constant shift = 0xe59f0000 + shift - 2 * WORD_SIZE"
definition load_shifted_addr :: "u32 \<Rightarrow> u32" where "load_shifted_addr shift = 0xe59f4000 + shift - 2 * WORD_SIZE"
definition load_r4 :: u32 where "load_r4 = 0xe5940000"
definition goto_r4 :: u32 where "goto_r4 = 0xe1a0f004"
definition save_pc :: u32 where "save_pc = 0xe1a0e00f"
definition increment_lr :: u32 where "increment_lr = 0xe28ee004"
definition arm_exit :: u32 where "arm_exit = 0xe12fff1e"

subsection \<open>The generator\<close>

record generator =
  symbols_ptr :: "string \<rightharpoonup> u32"
  program_commands :: "u32 list"
  data_section :: "u32 list"
  program_buffer_size :: u32

definition PushCommand :: "u32 \<Rightarrow> generator \<Rightarrow> generator" where
  "PushCommand cmd g = g\<lparr>program_commands := program_commands g @ [cmd]\<rparr>"

definition GetNextDataWordShift :: "generator \<Rightarrow> u32" where
  "GetNextDataWordShift g = program_buffer_size g - WORD_SIZE * of_nat (length (data_section g) + 1)"

text \<open>The \<^verbatim>\<open>externs\<close> up to the entry without a name; a later entry of the same name replaces the earlier.\<close>

fun set_symbol_loop :: "(string \<times> u32) list \<Rightarrow> generator \<Rightarrow> generator" where
  "set_symbol_loop [] g = g"
| "set_symbol_loop ((name, pointer) # externs) g =
     set_symbol_loop externs
       (g\<lparr>symbols_ptr := (symbols_ptr g)(name \<mapsto> GetNextDataWordShift g), data_section := data_section g @ [pointer]\<rparr>)"

definition SetSymbols :: "(string \<times> u32) list \<Rightarrow> u32 \<Rightarrow> generator \<Rightarrow> generator" where
  "SetSymbols externs buffer_size g = set_symbol_loop externs (g\<lparr>program_buffer_size := buffer_size\<rparr>)"

text \<open>\<^verbatim>\<open>symbols_ptr[name]\<close> of an unknown name enters 0 into the map.\<close>

definition symbol_shift :: "string \<Rightarrow> generator \<Rightarrow> u32 \<times> generator" where
  "symbol_shift name g =
     (case symbols_ptr g name of
        Some shift \<Rightarrow> (shift, g)
      | None \<Rightarrow> (0, g\<lparr>symbols_ptr := (symbols_ptr g)(name \<mapsto> 0)\<rparr>))"

definition program_offset :: "generator \<Rightarrow> u32" where
  "program_offset g = of_nat (length (program_commands g)) * WORD_SIZE"

text \<open>The loop that pops the arguments, the last one first.\<close>

fun pop_arguments :: "nat \<Rightarrow> generator \<Rightarrow> generator" where
  "pop_arguments 0 g = g"
| "pop_arguments (Suc i) g = pop_arguments i (PushCommand (pop_r (of_nat i)) g)"

definition ProcessStackOperand :: "StackOperand \<Rightarrow> generator \<Rightarrow> generator" where
  "ProcessStackOperand operand g =
     PushCommand push_r0
      (case so_type operand of
         CONSTANT \<Rightarrow>
           (let addr_shift = GetNextDataWordShift g;
                g = g\<lparr>data_section := data_section g @ [word_of_int (so_value operand)]\<rparr> in
              PushCommand (load_constant (addr_shift - program_offset g)) g)
       | VARIABLE \<Rightarrow>
           (case symbol_shift (so_name operand) g of (addr_shift, g) \<Rightarrow>
              PushCommand load_r4 (PushCommand (load_shifted_addr (addr_shift - program_offset g)) g))
       | FUNCTION \<Rightarrow>
           (case symbol_shift (so_name operand) (pop_arguments (nat (n_arguments operand)) g) of (addr_shift, g) \<Rightarrow>
              PushCommand goto_r4 (PushCommand increment_lr (PushCommand save_pc
                (PushCommand (load_shifted_addr (addr_shift - program_offset g)) g))))
       | MATH_OPERATOR \<Rightarrow>
           (let g = PushCommand (pop_r 1) (PushCommand (pop_r 2) g) in
              case so_name operand of
                [] \<Rightarrow> g
              | c # _ \<Rightarrow> if c = CHR ''*'' then PushCommand arm_mul g
                         else if c = CHR ''+'' then PushCommand arm_add g
                         else if c = CHR ''-'' then PushCommand arm_sub g
                         else g))"

definition GenerateMachineCommands :: "StackOperand list \<Rightarrow> generator \<Rightarrow> generator" where
  "GenerateMachineCommands expression g =
     PushCommand arm_exit (PushCommand pop_r4_lr (PushCommand (pop_r 0)
       (foldl (\<lambda>g operand. ProcessStackOperand operand g) (PushCommand push_r4_lr g) expression)))"

fun write_up :: "u32 list \<Rightarrow> nat \<Rightarrow> u32 list \<Rightarrow> u32 list option" where
  "write_up buf p [] = Some buf"
| "write_up buf p (w # ws) = (if p < length buf then write_up (buf[p := w]) (p + 1) ws else None)"

fun write_down :: "u32 list \<Rightarrow> int \<Rightarrow> u32 list \<Rightarrow> u32 list option" where
  "write_down buf p [] = Some buf"
| "write_down buf p (w # ws) =
     (if 0 \<le> p \<and> p < int (length buf) then write_down (buf[nat p := w]) (p - 1) ws else None)"

definition WriteCommandsByPtr :: "generator \<Rightarrow> u32 list \<Rightarrow> u32 list option" where
  "WriteCommandsByPtr g out_buffer =
     (case write_up out_buffer 0 (program_commands g) of
        None \<Rightarrow> None
      | Some buf \<Rightarrow> write_down buf (uint (program_buffer_size g div WORD_SIZE) - 1) (data_section g))"

definition new_generator :: generator where
  "new_generator = \<lparr>symbols_ptr = Map.empty, program_commands = [], data_section = [], program_buffer_size = 0\<rparr>"

definition jit_compile_expression_to_arm :: "string \<Rightarrow> (string \<times> u32) list \<Rightarrow> u32 list \<Rightarrow> u32 list option" where
  "jit_compile_expression_to_arm expression externs out_buffer =
     (case FromInfixString expression of
        None \<Rightarrow> None
      | Some polishStack \<Rightarrow>
          WriteCommandsByPtr
            (GenerateMachineCommands polishStack (SetSymbols externs PROGRAM_BUFFER_SIZE new_generator)) out_buffer)"

subsection \<open>The processor\<close>

text \<open>Register 13 is the stack pointer, 14 the return address, 15 the address of the current instruction.\<close>

record arm =
  reg :: "nat \<Rightarrow> u32"
  mem :: "u32 \<Rightarrow> u32"

datatype alu = ADD | SUB | MOV | MVN

datatype instr =
    DataReg alu nat nat nat
  | DataImm alu nat nat nat
  | Mul nat nat nat
  | Transfer bool bool bool bool nat nat nat
  | StoreMulti nat "nat list"
  | LoadMulti nat "nat list"
  | Bx nat

text \<open>Bits \<open>hi\<close> down to \<open>lo\<close> of an instruction word.\<close>

definition field :: "u32 \<Rightarrow> nat \<Rightarrow> nat \<Rightarrow> nat" where
  "field w hi lo = unat w div 2 ^ lo mod 2 ^ (hi + 1 - lo)"

definition decode_alu :: "nat \<Rightarrow> alu option" where
  "decode_alu opc = (if opc = 4 then Some ADD else if opc = 2 then Some SUB else if opc = 13 then Some MOV
     else if opc = 15 then Some MVN else None)"

definition decode :: "u32 \<Rightarrow> instr option" where
  "decode w =
     (let rd = field w 15 12; rn = field w 19 16; S = field w 20 20; opc = field w 24 21 in
      if field w 31 28 \<noteq> 14 then None
      else if field w 27 25 = 0 then
        (if field w 27 20 = 0x12 \<and> field w 19 4 = 0xfff1 then Some (Bx (field w 3 0))
         else if field w 27 20 = 0 \<and> field w 7 4 = 9 then Some (Mul rn (field w 3 0) (field w 11 8))
         else if S = 0 \<and> field w 11 4 = 0 then map_option (\<lambda>a. DataReg a rd rn (field w 3 0)) (decode_alu opc)
         else None)
      else if field w 27 25 = 1 then
        (if S = 0 \<and> field w 11 8 = 0 then map_option (\<lambda>a. DataImm a rd rn (field w 7 0)) (decode_alu opc) else None)
      else if field w 27 25 = 2 \<and> field w 22 22 = 0 then
        Some (Transfer (field w 20 20 = 1) (field w 24 24 = 1) (field w 23 23 = 1) (field w 21 21 = 1) rn rd (field w 11 0))
      else if field w 27 20 = 0x92 then Some (StoreMulti rn (filter (\<lambda>i. odd (unat w div 2 ^ i)) [0..<16]))
      else if field w 27 20 = 0x8b \<and> field w 15 15 = 0 then Some (LoadMulti rn (filter (\<lambda>i. odd (unat w div 2 ^ i)) [0..<15]))
      else None)"

text \<open>The program counter reads as the address of the current instruction plus 8; writing it is a jump.\<close>

definition get_reg :: "arm \<Rightarrow> nat \<Rightarrow> u32" where
  "get_reg s i = (if i = 15 then reg s 15 + 8 else reg s i)"

definition next_instr :: "arm \<Rightarrow> arm" where
  "next_instr s = s\<lparr>reg := (reg s)(15 := reg s 15 + 4)\<rparr>"

definition put_reg :: "nat \<Rightarrow> u32 \<Rightarrow> arm \<Rightarrow> arm" where
  "put_reg i v s = (if i = 15 then s\<lparr>reg := (reg s)(15 := v)\<rparr> else next_instr (s\<lparr>reg := (reg s)(i := v)\<rparr>))"

definition alu_value :: "alu \<Rightarrow> u32 \<Rightarrow> u32 \<Rightarrow> u32" where
  "alu_value a x y = (case a of ADD \<Rightarrow> x + y | SUB \<Rightarrow> x - y | MOV \<Rightarrow> y | MVN \<Rightarrow> - y - 1)"

fun store_words :: "(u32 \<Rightarrow> u32) \<Rightarrow> u32 \<Rightarrow> u32 list \<Rightarrow> u32 \<Rightarrow> u32" where
  "store_words m a [] = m"
| "store_words m a (v # vs) = store_words (m(a := v)) (a + 4) vs"

fun load_regs :: "(u32 \<Rightarrow> u32) \<Rightarrow> u32 \<Rightarrow> nat list \<Rightarrow> (nat \<Rightarrow> u32) \<Rightarrow> nat \<Rightarrow> u32" where
  "load_regs m a [] r = r"
| "load_regs m a (i # is) r = load_regs m (a + 4) is (r(i := m a))"

fun execute :: "instr \<Rightarrow> arm \<Rightarrow> arm" where
  "execute (DataReg a rd rn rm) s = put_reg rd (alu_value a (get_reg s rn) (get_reg s rm)) s"
| "execute (DataImm a rd rn imm) s = put_reg rd (alu_value a (get_reg s rn) (of_nat imm)) s"
| "execute (Mul rd rm rs) s = put_reg rd (get_reg s rm * get_reg s rs) s"
| "execute (Transfer load pre up wb rn rd imm) s =
     (let base = get_reg s rn;
          moved = (if up then base + of_nat imm else base - of_nat imm);
          a = (if pre then moved else base);
          s1 = (if \<not> pre \<or> wb then s\<lparr>reg := (reg s)(rn := moved)\<rparr> else s) in
        if load then put_reg rd (mem s a) s1
        else next_instr (s1\<lparr>mem := (mem s)(a := get_reg s rd)\<rparr>))"
| "execute (StoreMulti rn regs) s =
     (let a = reg s rn - 4 * of_nat (length regs) in
        next_instr (s\<lparr>reg := (reg s)(rn := a), mem := store_words (mem s) a (map (get_reg s) regs)\<rparr>))"
| "execute (LoadMulti rn regs) s =
     (let a = reg s rn in
        next_instr (s\<lparr>reg := load_regs (mem s) a regs ((reg s)(rn := a + 4 * of_nat (length regs)))\<rparr>))"
| "execute (Bx rm) s = put_reg 15 (get_reg s rm) s"

text \<open>
  A compiled function of the program the code is linked with: it leaves its result in register 0, may change the
  registers that the procedure call standard lets it change, and returns.
\<close>

type_synonym ext_function = "(nat \<Rightarrow> u32) \<Rightarrow> nat \<Rightarrow> u32"

definition call_ext :: "ext_function \<Rightarrow> arm \<Rightarrow> arm" where
  "call_ext f s = s\<lparr>reg := (\<lambda>i. if i \<in> {0, 1, 2, 3, 12, 14} then f (reg s) i else if i = 15 then reg s 14 else reg s i)\<rparr>"

definition arm_step :: "(u32 \<rightharpoonup> ext_function) \<Rightarrow> arm \<Rightarrow> arm option" where
  "arm_step ext s =
     (case ext (reg s 15) of
        Some f \<Rightarrow> Some (call_ext f s)
      | None \<Rightarrow> map_option (\<lambda>i. execute i s) (decode (mem s (reg s 15))))"

fun arm_run :: "(u32 \<rightharpoonup> ext_function) \<Rightarrow> nat \<Rightarrow> arm \<Rightarrow> arm option" where
  "arm_run ext 0 s = Some s"
| "arm_run ext (Suc n) s = (case arm_step ext s of None \<Rightarrow> None | Some s' \<Rightarrow> arm_run ext n s')"

subsection \<open>Decoding what the generator emits\<close>

lemma decode_words:
  "decode arm_add = Some (DataReg ADD 0 1 2)" "decode arm_sub = Some (DataReg SUB 0 1 2)"
  "decode arm_mul = Some (Mul 0 1 2)" "decode push_r0 = Some (Transfer False True False True 13 0 4)"
  "decode push_r4_lr = Some (StoreMulti 13 [4, 14])" "decode pop_r4_lr = Some (LoadMulti 13 [4, 14])"
  "decode load_r4 = Some (Transfer True True True False 4 0 0)" "decode goto_r4 = Some (DataReg MOV 15 0 4)"
  "decode save_pc = Some (DataReg MOV 14 0 15)" "decode increment_lr = Some (DataImm ADD 14 14 4)"
  "decode arm_exit = Some (Bx 14)"
  by (simp_all add: decode_def field_def arm_add_def arm_sub_def arm_mul_def push_r0_def push_r4_lr_def pop_r4_lr_def
      load_r4_def goto_r4_def save_pc_def increment_lr_def arm_exit_def decode_alu_def upt_rec Let_def)

lemma decode_pop_r: "i < 4 \<Longrightarrow> decode (pop_r (of_nat i)) = Some (Transfer True False True False 13 i 4)"
proof -
  assume "i < 4"
  then consider "i = 0" | "i = 1" | "i = 2" | "i = 3" by linarith
  then show ?thesis by cases (simp_all add: decode_def field_def pop_r_def Let_def)
qed

lemma field_literal:
  assumes "unat w = 4096 * q + k" "k < 4096" "12 \<le> lo"
  shows "field w hi lo = q div 2 ^ (lo - 12) mod 2 ^ (hi + 1 - lo)"
proof -
  have "(2 :: nat) ^ lo = 4096 * 2 ^ (lo - 12)"
    using assms(3) power_add[of "2 :: nat" 12 "lo - 12"] by simp
  then have "(4096 * q + k) div 2 ^ lo = (4096 * q + k) div 4096 div 2 ^ (lo - 12)" by (simp add: div_mult2_eq)
  then show ?thesis using assms(1,2) by (simp add: field_def)
qed

lemma decode_literal_word:
  assumes "unat w = 4096 * (0xe59f0 + r) + k" "k < 4096" "r = 0 \<or> r = 4"
  shows "decode w = Some (Transfer True True True False 15 r k)"
proof -
  note f = field_literal[OF assms(1,2)]
  have "field w 11 0 = k"
    unfolding field_def assms(1) using assms(2) mod_mult_self4[of 4096 "0xe59f0 + r" k] by (simp del: mod_mult_self4 distrib_left_numeral)
  moreover have "field w 31 28 = 14" "field w 27 25 = 2" "field w 22 22 = 0" "field w 20 20 = 1" "field w 24 24 = 1"
    "field w 23 23 = 1" "field w 21 21 = 0" "field w 19 16 = 15" "field w 15 12 = r"
    using assms(3) by (auto simp: f)
  ultimately show ?thesis by (simp add: decode_def Let_def)
qed

lemma decode_literal:
  assumes "k < 4096" "r = 0 \<or> r = 4"
  shows "decode (0xe59f0000 + 0x1000 * of_nat r + of_nat k) = Some (Transfer True True True False 15 r k)"
proof (rule decode_literal_word[OF _ assms])
  have "(0xe59f0000 + 0x1000 * of_nat r + of_nat k :: u32) = of_nat (4096 * (0xe59f0 + r) + k)" by simp
  then show "unat (0xe59f0000 + 0x1000 * of_nat r + of_nat k :: u32) = 4096 * (0xe59f0 + r) + k"
    using assms unat_of_nat_small[of "4096 * (0xe59f0 + r) + k", where 'a = 32] by auto
qed

lemma load_words:
  "load_constant shift = 0xe59f0000 + 0x1000 * of_nat 0 + (shift - 8)"
  "load_shifted_addr shift = 0xe59f0000 + 0x1000 * of_nat 4 + (shift - 8)"
  by (simp_all add: load_constant_def load_shifted_addr_def WORD_SIZE_def)

text \<open>The offset from a command to a word of data behind it.\<close>

lemma word_offset:
  assumes "p + 2 \<le> d"
  shows "4 * of_nat d - 4 * of_nat p - 8 = (of_nat (4 * (d - p - 2)) :: u32)"
proof -
  obtain q where "d = q + p + 2" using assms by (metis add.commute add.assoc le_Suc_ex)
  then show ?thesis by (simp add: algebra_simps)
qed

subsection \<open>The stack of the generated code\<close>

definition slot :: "u32 \<Rightarrow> nat \<Rightarrow> u32" where
  "slot sp k = sp - 4 * of_nat (k + 1)"

definition slots :: "u32 \<Rightarrow> u32 set" where
  "slots sp = slot sp ` {..<1024}"

lemma slot_eq: "j < 2 ^ 30 \<Longrightarrow> k < 2 ^ 30 \<Longrightarrow> slot sp j = slot sp k \<longleftrightarrow> j = k"
proof -
  assume "j < 2 ^ 30" "k < 2 ^ 30"
  then have u: "unat (of_nat (4 * j) :: u32) = 4 * j" "unat (of_nat (4 * k) :: u32) = 4 * k"
    by (intro unat_of_nat_small; simp)+
  have "slot sp j = slot sp k \<longleftrightarrow> (of_nat (4 * j) :: u32) = of_nat (4 * k)"
    by (simp add: slot_def)
  also have "\<dots> \<longleftrightarrow> 4 * j = 4 * k" using u by (metis word_unat_eq_iff)
  finally show ?thesis by simp
qed

lemma slot_in: "k < 1024 \<Longrightarrow> slot sp k \<in> slots sp"
  by (simp add: slots_def)

fun stack_mem :: "(u32 \<Rightarrow> u32) \<Rightarrow> u32 \<Rightarrow> u32 list \<Rightarrow> bool" where
  "stack_mem m sp [] = True"
| "stack_mem m sp (v # stk) \<longleftrightarrow> m (slot sp (length stk)) = v \<and> stack_mem m sp stk"

lemma stack_mem_upd:
  "length stk \<le> n \<Longrightarrow> n < 1024 \<Longrightarrow> stack_mem (m(slot sp n := v)) sp stk = stack_mem m sp stk"
  by (induction stk) (auto simp: slot_eq)

text \<open>
  The code at index \<open>p\<close> of the buffer at \<open>base\<close> is about to run; \<open>stk\<close> is on the stack that begins below \<open>sp\<close>; all
  other memory is as in \<open>m0\<close>.
\<close>

definition code_addr :: "u32 \<Rightarrow> nat \<Rightarrow> u32" where
  "code_addr base p = base + 4 * of_nat p"

definition running :: "u32 \<Rightarrow> u32 \<Rightarrow> (u32 \<Rightarrow> u32) \<Rightarrow> nat \<Rightarrow> u32 list \<Rightarrow> arm \<Rightarrow> bool" where
  "running base sp m0 p stk s \<longleftrightarrow> reg s 15 = code_addr base p \<and> reg s 13 = sp - 4 * of_nat (length stk)
     \<and> stack_mem (mem s) sp stk \<and> (\<forall>a. a \<notin> slots sp \<longrightarrow> mem s a = m0 a)"

definition has_word :: "u32 \<Rightarrow> u32 \<Rightarrow> (u32 \<Rightarrow> u32) \<Rightarrow> nat \<Rightarrow> u32 \<Rightarrow> bool" where
  "has_word base sp m0 p w \<longleftrightarrow> m0 (code_addr base p) = w \<and> code_addr base p \<notin> slots sp"

definition fetches :: "u32 \<Rightarrow> u32 \<Rightarrow> (u32 \<rightharpoonup> ext_function) \<Rightarrow> (u32 \<Rightarrow> u32) \<Rightarrow> nat \<Rightarrow> u32 \<Rightarrow> bool" where
  "fetches base sp ext m0 p w \<longleftrightarrow> has_word base sp m0 p w \<and> ext (code_addr base p) = None"

lemma code_addr_next: "code_addr base p + 4 = code_addr base (p + 1)"
  by (simp add: code_addr_def algebra_simps)

lemma running_step:
  assumes "running base sp m0 p stk s" "fetches base sp ext m0 p w" "decode w = Some i"
  shows "arm_step ext s = Some (execute i s)"
  using assms by (simp add: running_def fetches_def has_word_def arm_step_def)

lemma step_pop:
  assumes "running base sp m0 p (v # stk) s" "fetches base sp ext m0 p (pop_r (of_nat i))" "i < 4"
  shows "\<exists>s'. arm_step ext s = Some s' \<and> running base sp m0 (p + 1) stk s' \<and> reg s' i = v
    \<and> (\<forall>j. j \<notin> {i, 13, 15} \<longrightarrow> reg s' j = reg s j)"
proof -
  have sp: "reg s 13 = slot sp (length stk)" "mem s (slot sp (length stk)) = v" "reg s 15 = code_addr base p"
    using assms(1) by (simp_all add: running_def slot_def)
  have "slot sp (length stk) + 4 = sp - 4 * of_nat (length stk)" by (simp add: slot_def algebra_simps)
  then have "running base sp m0 (p + 1) stk (execute (Transfer True False True False 13 i 4) s)"
    using assms(1,3) sp by (auto simp: running_def Let_def put_reg_def next_instr_def get_reg_def code_addr_next)
  moreover have "reg (execute (Transfer True False True False 13 i 4) s) i = v"
    using assms(3) sp by (auto simp: Let_def put_reg_def next_instr_def get_reg_def)
  moreover have "\<forall>j. j \<notin> {i, 13, 15} \<longrightarrow> reg (execute (Transfer True False True False 13 i 4) s) j = reg s j"
    using assms(3) by (auto simp: Let_def put_reg_def next_instr_def get_reg_def)
  ultimately show ?thesis using running_step[OF assms(1,2) decode_pop_r[OF assms(3)]] by blast
qed

lemma step_push:
  assumes "running base sp m0 p stk s" "fetches base sp ext m0 p push_r0" "length stk < 1024"
  shows "\<exists>s'. arm_step ext s = Some s' \<and> running base sp m0 (p + 1) (reg s 0 # stk) s'
    \<and> (\<forall>j. j \<notin> {13, 15} \<longrightarrow> reg s' j = reg s j)"
proof -
  have sp: "reg s 13 - 4 = slot sp (length stk)" using assms(1) by (simp add: running_def slot_def algebra_simps)
  have ex: "execute (Transfer False True False True 13 0 4) s =
      next_instr (s\<lparr>reg := (reg s)(13 := slot sp (length stk)), mem := (mem s)(slot sp (length stk) := reg s 0)\<rparr>)"
    using sp by (simp add: Let_def get_reg_def)
  have "sp - (4 + 4 * of_nat (length stk)) = slot sp (length stk)" by (simp add: slot_def)
  then have "running base sp m0 (p + 1) (reg s 0 # stk) (execute (Transfer False True False True 13 0 4) s)"
    unfolding ex using assms(1,3) slot_in[OF assms(3), of sp] stack_mem_upd[OF order_refl assms(3)]
    by (auto simp: running_def next_instr_def code_addr_next)
  moreover have "\<forall>j. j \<notin> {13, 15} \<longrightarrow> reg (execute (Transfer False True False True 13 0 4) s) j = reg s j"
    by (auto simp: Let_def next_instr_def get_reg_def)
  ultimately show ?thesis using running_step[OF assms(1,2) decode_words(4)] by blast
qed

text \<open>Commands that change one register other than 13 and 15.\<close>

lemma step_put:
  assumes "running base sp m0 p stk s" "fetches base sp ext m0 p w" "decode w = Some i"
    "execute i s = put_reg r v s" "r \<notin> {13, 15}"
  shows "\<exists>s'. arm_step ext s = Some s' \<and> running base sp m0 (p + 1) stk s' \<and> reg s' r = v
    \<and> (\<forall>j. j \<notin> {r, 15} \<longrightarrow> reg s' j = reg s j)"
proof -
  have "running base sp m0 (p + 1) stk (put_reg r v s)"
    using assms(1,5) by (auto simp: running_def put_reg_def next_instr_def code_addr_next)
  moreover have "reg (put_reg r v s) r = v" "\<forall>j. j \<notin> {r, 15} \<longrightarrow> reg (put_reg r v s) j = reg s j"
    using assms(5) by (auto simp: put_reg_def next_instr_def)
  ultimately show ?thesis using running_step[OF assms(1-3)] assms(4) by metis
qed

subsection \<open>Blocks of commands\<close>

definition reaches :: "(u32 \<rightharpoonup> ext_function) \<Rightarrow> arm \<Rightarrow> arm \<Rightarrow> bool" where
  "reaches ext s s' \<longleftrightarrow> (\<exists>n. arm_run ext n s = Some s')"

lemma reaches_refl: "reaches ext s s"
  unfolding reaches_def by (rule exI[of _ 0]) simp

lemma reaches_step: "arm_step ext s = Some s' \<Longrightarrow> reaches ext s' s'' \<Longrightarrow> reaches ext s s''"
  unfolding reaches_def by (metis arm_run.simps(2) option.simps(5))

lemma arm_run_append: "arm_run ext (m + n) s = (case arm_run ext m s of None \<Rightarrow> None | Some s' \<Rightarrow> arm_run ext n s')"
  by (induction m arbitrary: s) (auto split: option.split)

lemma reaches_trans: "reaches ext s s' \<Longrightarrow> reaches ext s' s'' \<Longrightarrow> reaches ext s s''"
  unfolding reaches_def by (metis arm_run_append option.simps(5))

definition code_block :: "u32 \<Rightarrow> u32 \<Rightarrow> (u32 \<rightharpoonup> ext_function) \<Rightarrow> (u32 \<Rightarrow> u32) \<Rightarrow> nat \<Rightarrow> u32 list \<Rightarrow> bool" where
  "code_block base sp ext m0 p ws \<longleftrightarrow> (\<forall>i<length ws. fetches base sp ext m0 (p + i) (ws ! i))"

lemma code_block_simps [simp]:
  "code_block base sp ext m0 p []"
  "code_block base sp ext m0 p (w # ws) \<longleftrightarrow> fetches base sp ext m0 p w \<and> code_block base sp ext m0 (p + 1) ws"
proof -
  show "code_block base sp ext m0 p (w # ws) \<longleftrightarrow> fetches base sp ext m0 p w \<and> code_block base sp ext m0 (p + 1) ws"
    unfolding code_block_def by (auto simp: less_Suc_eq_0_disj)
qed (simp add: code_block_def)

lemma code_block_append [simp]:
  "code_block base sp ext m0 p (xs @ ys) \<longleftrightarrow> code_block base sp ext m0 p xs \<and> code_block base sp ext m0 (p + length xs) ys"
  by (induction xs arbitrary: p) (auto simp: add.assoc)

text \<open>Popping the arguments of a function, the last one first, puts them into the registers from 0 on.\<close>

lemma pops_run:
  "length args \<le> 4 \<Longrightarrow> running base sp m0 p (rev args @ stk) s \<Longrightarrow>
   code_block base sp ext m0 p (map (\<lambda>i. pop_r (of_nat i)) (rev [0..<length args])) \<Longrightarrow>
   \<exists>s'. reaches ext s s' \<and> running base sp m0 (p + length args) stk s' \<and> map (reg s') [0..<length args] = args
     \<and> (\<forall>j. j \<notin> {..<length args} \<union> {13, 15} \<longrightarrow> reg s' j = reg s j)"
proof (induction args arbitrary: p s rule: rev_induct)
  case Nil
  then show ?case using reaches_refl by auto
next
  case (snoc a args)
  let ?n = "length args"
  have n: "?n < 4" using snoc.prems(1) by simp
  have r: "running base sp m0 p (a # rev args @ stk) s" using snoc.prems(2) by simp
  have c: "fetches base sp ext m0 p (pop_r (of_nat ?n))"
    "code_block base sp ext m0 (p + 1) (map (\<lambda>i. pop_r (of_nat i)) (rev [0..<?n]))"
    using snoc.prems(3) by simp_all
  obtain s1 where s1: "arm_step ext s = Some s1" "running base sp m0 (p + 1) (rev args @ stk) s1" "reg s1 ?n = a"
    "\<forall>j. j \<notin> {?n, 13, 15} \<longrightarrow> reg s1 j = reg s j" using step_pop[OF r c(1) n] by blast
  obtain s2 where s2: "reaches ext s1 s2" "running base sp m0 (p + 1 + ?n) stk s2" "map (reg s2) [0..<?n] = args"
    "\<forall>j. j \<notin> {..<?n} \<union> {13, 15} \<longrightarrow> reg s2 j = reg s1 j"
    using snoc.IH[OF _ s1(2) c(2)] n by auto
  have "reg s2 ?n = a" using s2(4) s1(3) n by auto
  then have "map (reg s2) [0..<length (args @ [a])] = args @ [a]" using s2(3) by simp
  moreover have "\<forall>j. j \<notin> {..<length (args @ [a])} \<union> {13, 15} \<longrightarrow> reg s2 j = reg s j" using s2(4) s1(4) by auto
  ultimately show ?case using reaches_step[OF s1(1) s2(1)] s2(2) by (auto simp: add.assoc)
qed

text \<open>Loading a word of the data section.\<close>

lemma literal_run:
  assumes "running base sp m0 p stk s" "fetches base sp ext m0 p w" "has_word base sp m0 d v" "p + 2 \<le> d" "d < 1024"
    and w: "w = 0xe59f0000 + 0x1000 * of_nat r + (4 * of_nat d - 4 * of_nat p - 8)" and r: "r = 0 \<or> r = 4"
  shows "\<exists>s'. arm_step ext s = Some s' \<and> running base sp m0 (p + 1) stk s' \<and> reg s' r = v
    \<and> (\<forall>j. j \<notin> {r, 15} \<longrightarrow> reg s' j = reg s j)"
proof -
  let ?k = "4 * (d - p - 2)"
  have k: "?k < 4096" using assms(5) by linarith
  have dec: "decode w = Some (Transfer True True True False 15 r ?k)"
    unfolding w word_offset[OF assms(4)] using decode_literal[OF k r] .
  obtain q where d: "d = q + p + 2" using assms(4) by (metis add.commute add.assoc le_Suc_ex)
  have "get_reg s 15 + of_nat ?k = code_addr base d"
    using assms(1) unfolding d by (simp add: running_def get_reg_def code_addr_def algebra_simps)
  moreover have "mem s (code_addr base d) = v"
    using assms(1,3) by (simp add: running_def has_word_def)
  ultimately have ex: "execute (Transfer True True True False 15 r ?k) s = put_reg r v s" by (simp add: Let_def)
  have "r \<notin> {13, 15}" using r by auto
  then show ?thesis by (rule step_put[OF assms(1,2) dec ex])
qed

subsection \<open>Operands on an abstract stack\<close>

definition op_value :: "char \<Rightarrow> u32 \<Rightarrow> u32 \<Rightarrow> u32" where
  "op_value c x y = (if c = CHR ''*'' then x * y else if c = CHR ''+'' then x + y else x - y)"

definition rpn_step :: "(string \<Rightarrow> u32) \<Rightarrow> (string \<Rightarrow> u32 list \<Rightarrow> u32) \<Rightarrow> StackOperand \<Rightarrow> u32 list \<Rightarrow> u32 list option" where
  "rpn_step vars funs op stk =
     (case so_type op of
        CONSTANT \<Rightarrow> Some (word_of_int (so_value op) # stk)
      | VARIABLE \<Rightarrow> Some (vars (so_name op) # stk)
      | FUNCTION \<Rightarrow>
          (let n = nat (n_arguments op) in
             if n \<le> length stk then Some (funs (so_name op) (rev (take n stk)) # drop n stk) else None)
      | MATH_OPERATOR \<Rightarrow>
          (case (stk, so_name op) of (y # x # stk', [c]) \<Rightarrow> Some (op_value c x y # stk') | _ \<Rightarrow> None))"

fun rpn_run :: "(string \<Rightarrow> u32) \<Rightarrow> (string \<Rightarrow> u32 list \<Rightarrow> u32) \<Rightarrow> StackOperand list \<Rightarrow> u32 list \<Rightarrow> u32 list option" where
  "rpn_run vars funs [] stk = Some stk"
| "rpn_run vars funs (op # ops) stk =
     (case rpn_step vars funs op stk of None \<Rightarrow> None | Some stk \<Rightarrow> rpn_run vars funs ops stk)"

text \<open>The value of an expression, on 32-bit words.\<close>

fun eval :: "(string \<Rightarrow> u32) \<Rightarrow> (string \<Rightarrow> u32 list \<Rightarrow> u32) \<Rightarrow> expr \<Rightarrow> u32" where
  "eval vars funs (Num n) = word_of_int n"
| "eval vars funs (Var x) = vars x"
| "eval vars funs (Op c l r) = op_value c (eval vars funs l) (eval vars funs r)"
| "eval vars funs (Call f es) = funs f (map (eval vars funs) es)"
| "eval vars funs (Paren e) = eval vars funs e"

lemma rpn_args:
  "\<forall>e\<in>set es. \<forall>ops stk. rpn_run vars funs (postfix e @ ops) stk = rpn_run vars funs ops (eval vars funs e # stk) \<Longrightarrow>
   rpn_run vars funs (concat (map postfix es) @ ops) stk = rpn_run vars funs ops (rev (map (eval vars funs) es) @ stk)"
  by (induction es arbitrary: stk) auto

lemma rpn_postfix:
  "wf_expr e \<Longrightarrow> rpn_run vars funs (postfix e @ ops) stk = rpn_run vars funs ops (eval vars funs e # stk)"
proof (induction e arbitrary: ops stk)
  case (Op c l r)
  then have "wf_expr l" "wf_expr r" by (auto split: if_splits)
  then show ?case
    using Op.IH by (simp add: op_operand_def name_operand_def rpn_step_def)
next
  case (Call f es)
  then have "\<forall>e\<in>set es. \<forall>ops stk. rpn_run vars funs (postfix e @ ops) stk = rpn_run vars funs ops (eval vars funs e # stk)"
    by (simp add: list_all_iff)
  note args = rpn_args[OF this]
  have n: "nat (int (length es) mod 256) = length es" using Call.prems by simp
  show ?case by (simp add: args name_operand_def rpn_step_def n)
qed (simp_all add: value_operand_def name_operand_def rpn_step_def)

subsection \<open>Running what is generated for one operand\<close>

text \<open>The program is linked with \<open>syms\<close>: variables are in memory outside of the stack
  \<open>area\<close>, functions are code outside of the buffer.\<close>

definition linked_op ::
    "(string \<rightharpoonup> u32) \<Rightarrow> u32 set \<Rightarrow> (u32 \<rightharpoonup> ext_function) \<Rightarrow> (u32 \<Rightarrow> u32) \<Rightarrow> (string \<Rightarrow> u32) \<Rightarrow> (string \<Rightarrow> u32 list \<Rightarrow> u32)
     \<Rightarrow> StackOperand \<Rightarrow> bool" where
  "linked_op syms area ext m0 vars funs op =
     (case so_type op of
        CONSTANT \<Rightarrow> True
      | VARIABLE \<Rightarrow> (\<exists>a. syms (so_name op) = Some a \<and> m0 a = vars (so_name op) \<and> a \<notin> area)
      | FUNCTION \<Rightarrow> nat (n_arguments op) \<le> 4 \<and>
          (\<exists>a f. syms (so_name op) = Some a \<and> ext a = Some f \<and>
             (\<forall>r. f r 0 = funs (so_name op) (map r [0..<nat (n_arguments op)])))
      | MATH_OPERATOR \<Rightarrow> \<exists>c\<in>{CHR ''*'', CHR ''+'', CHR ''-''}. so_name op = [c])"

text \<open>The generator knows where in the data section the symbols are.\<close>

definition gen_ok :: "(string \<rightharpoonup> u32) \<Rightarrow> generator \<Rightarrow> bool" where
  "gen_ok syms g \<longleftrightarrow> program_buffer_size g = 0x1000 \<and>
     (\<forall>x a. syms x = Some a \<longrightarrow> (\<exists>j<length (data_section g). symbols_ptr g x = Some (4 * of_nat (1023 - j)) \<and> data_section g ! j = a))"

definition image_ok :: "u32 \<Rightarrow> u32 \<Rightarrow> (u32 \<rightharpoonup> ext_function) \<Rightarrow> (u32 \<Rightarrow> u32) \<Rightarrow> generator \<Rightarrow> bool" where
  "image_ok base sp ext m0 g \<longleftrightarrow> code_block base sp ext m0 0 (program_commands g) \<and>
     (\<forall>j<length (data_section g). has_word base sp m0 (1023 - j) (data_section g ! j)) \<and>
     length (program_commands g) + length (data_section g) \<le> 1022"

lemma pop_arguments_eq:
  "pop_arguments n g = g\<lparr>program_commands := program_commands g @ map (\<lambda>i. pop_r (of_nat i)) (rev [0..<n])\<rparr>"
  by (induction n arbitrary: g) (simp_all add: PushCommand_def)

lemma next_shift:
  "program_buffer_size g = 0x1000 \<Longrightarrow> length (data_section g) < 1024 \<Longrightarrow>
   GetNextDataWordShift g = 4 * of_nat (1023 - length (data_section g))"
proof -
  assume a: "program_buffer_size g = 0x1000" "length (data_section g) < 1024"
  let ?d = "1023 - length (data_section g)"
  have "length (data_section g) = 1023 - ?d" using a(2) by simp
  then have e: "(of_nat (length (data_section g)) :: u32) = of_nat 1023 - of_nat ?d"
    by (metis diff_le_self of_nat_diff)
  have "GetNextDataWordShift g = 4096 - 4 * (of_nat (length (data_section g)) + 1)"
    using a(1) by (simp add: GetNextDataWordShift_def WORD_SIZE_def add.commute)
  also have "\<dots> = 4 * of_nat ?d" unfolding e by (simp add: algebra_simps)
  finally show ?thesis .
qed

lemma gen_ok_lookup:
  assumes "gen_ok syms g" "syms x = Some a"
  obtains j where "j < length (data_section g)" "symbol_shift x g = (4 * of_nat (1023 - j), g)" "data_section g ! j = a"
  using assms by (fastforce simp: gen_ok_def symbol_shift_def)

text \<open>The push that ends the commands of every operand.\<close>

lemma push_run:
  assumes "reaches ext s s1" "running base sp m0 p stk s1" "fetches base sp ext m0 p push_r0" "length stk < 1024" "reg s1 0 = v"
  shows "\<exists>s'. reaches ext s s' \<and> running base sp m0 (p + 1) (v # stk) s' \<and> (\<forall>j. j \<notin> {13, 15} \<longrightarrow> reg s' j = reg s1 j)"
  using step_push[OF assms(2-4)] assms(1,5) reaches_trans reaches_step[OF _ reaches_refl] by metis

lemma constant_run:
  assumes g: "gen_ok syms g" and op: "so_type op = CONSTANT" and img: "image_ok base sp ext m0 (ProcessStackOperand op g)"
    and s: "running base sp m0 (length (program_commands g)) stk s" and len: "length stk < 1024"
  shows "\<exists>s'. reaches ext s s' \<and> running base sp m0 (length (program_commands (ProcessStackOperand op g))) (word_of_int (so_value op) # stk) s'"
proof -
  let ?p = "length (program_commands g)" let ?j = "length (data_section g)"
  let ?w = "load_constant (GetNextDataWordShift g - program_offset g)"
  have g': "ProcessStackOperand op g = g\<lparr>program_commands := program_commands g @ [?w, push_r0],
      data_section := data_section g @ [word_of_int (so_value op)]\<rparr>"
    using op by (simp add: ProcessStackOperand_def PushCommand_def Let_def program_offset_def)
  have i: "fetches base sp ext m0 ?p ?w" "fetches base sp ext m0 (?p + 1) push_r0" "?p + 2 + (?j + 1) \<le> 1022"
    "has_word base sp m0 (1023 - ?j) (word_of_int (so_value op))"
    using img unfolding g' by (auto simp: image_ok_def nth_append)
  have "GetNextDataWordShift g = 4 * of_nat (1023 - ?j)" using g i(3) by (intro next_shift) (auto simp: gen_ok_def)
  then have w: "?w = 0xe59f0000 + 0x1000 * of_nat 0 + (4 * of_nat (1023 - ?j) - 4 * of_nat ?p - 8)"
    by (simp add: load_words program_offset_def WORD_SIZE_def)
  have d: "?p + 2 \<le> 1023 - ?j" "1023 - ?j < 1024" using i(3) by linarith+
  obtain s1 where "arm_step ext s = Some s1" "running base sp m0 (?p + 1) stk s1" "reg s1 0 = word_of_int (so_value op)"
    using literal_run[OF s i(1,4) d w disjI1[OF refl]] by blast
  then show ?thesis unfolding g' using push_run[OF reaches_step[OF _ reaches_refl] _ i(2) len] by fastforce
qed

lemma variable_run:
  assumes g: "gen_ok syms g" and op: "so_type op = VARIABLE" and img: "image_ok base sp ext m0 (ProcessStackOperand op g)"
    and s: "running base sp m0 (length (program_commands g)) stk s" and len: "length stk < 1024"
    and link: "linked_op syms (slots sp) ext m0 vars funs op"
  shows "\<exists>s'. reaches ext s s' \<and> running base sp m0 (length (program_commands (ProcessStackOperand op g))) (vars (so_name op) # stk) s'"
proof -
  let ?p = "length (program_commands g)"
  obtain a where a: "syms (so_name op) = Some a" "m0 a = vars (so_name op)" "a \<notin> slots sp"
    using link op by (auto simp: linked_op_def)
  obtain j where j: "j < length (data_section g)" "symbol_shift (so_name op) g = (4 * of_nat (1023 - j), g)" "data_section g ! j = a"
    using gen_ok_lookup[OF g a(1)] .
  let ?w = "load_shifted_addr (4 * of_nat (1023 - j) - program_offset g)"
  have g': "ProcessStackOperand op g = g\<lparr>program_commands := program_commands g @ [?w, load_r4, push_r0]\<rparr>"
    using op j(2) by (simp add: ProcessStackOperand_def PushCommand_def)
  have i: "fetches base sp ext m0 ?p ?w" "fetches base sp ext m0 (?p + 1) load_r4" "fetches base sp ext m0 (?p + 1 + 1) push_r0"
    "?p + 3 + length (data_section g) \<le> 1022" "has_word base sp m0 (1023 - j) a"
    using img j unfolding g' by (auto simp: image_ok_def)
  have w: "?w = 0xe59f0000 + 0x1000 * of_nat 4 + (4 * of_nat (1023 - j) - 4 * of_nat ?p - 8)"
    by (simp add: load_words program_offset_def WORD_SIZE_def)
  have d: "?p + 2 \<le> 1023 - j" "1023 - j < 1024" using i(4) j(1) by linarith+
  obtain s1 where s1: "arm_step ext s = Some s1" "running base sp m0 (?p + 1) stk s1" "reg s1 4 = a"
    using literal_run[OF s i(1,5) d w disjI2[OF refl]] by blast
  have "execute (Transfer True True True False 4 0 0) s1 = put_reg 0 (vars (so_name op)) s1"
    using s1(2,3) a(2,3) by (simp add: get_reg_def running_def)
  then obtain s2 where s2: "arm_step ext s1 = Some s2" "running base sp m0 (?p + 1 + 1) stk s2" "reg s2 0 = vars (so_name op)"
    using step_put[OF s1(2) i(2) decode_words(7), of 0] by auto
  have "reaches ext s s2" by (rule reaches_step[OF s1(1) reaches_step[OF s2(1) reaches_refl]])
  then show ?thesis unfolding g' using push_run[OF _ s2(2) i(3) len s2(3)] by (fastforce simp: add.assoc)
qed

lemma math_run:
  assumes op: "so_type op = MATH_OPERATOR" and img: "image_ok base sp ext m0 (ProcessStackOperand op g)"
    and s: "running base sp m0 (length (program_commands g)) (y # x # stk) s" and len: "length stk < 1024"
    and c: "so_name op = [c]" "c \<in> {CHR ''*'', CHR ''+'', CHR ''-''}"
  shows "\<exists>s'. reaches ext s s' \<and> running base sp m0 (length (program_commands (ProcessStackOperand op g))) (op_value c x y # stk) s'"
proof -
  let ?p = "length (program_commands g)"
  let ?w = "if c = CHR ''*'' then arm_mul else if c = CHR ''+'' then arm_add else arm_sub"
  have g': "ProcessStackOperand op g = g\<lparr>program_commands := program_commands g @ [pop_r (of_nat 2), pop_r (of_nat 1), ?w, push_r0]\<rparr>"
    using op c by (auto simp: ProcessStackOperand_def PushCommand_def Let_def)
  have i: "fetches base sp ext m0 ?p (pop_r (of_nat 2))" "fetches base sp ext m0 (?p + 1) (pop_r (of_nat 1))"
    "fetches base sp ext m0 (?p + 1 + 1) ?w" "fetches base sp ext m0 (?p + 1 + 1 + 1) push_r0"
    using img unfolding g' by (simp_all add: image_ok_def)
  obtain s1 where s1: "arm_step ext s = Some s1" "running base sp m0 (?p + 1) (x # stk) s1" "reg s1 2 = y"
    using step_pop[OF s i(1)] by auto
  obtain s2 where s2: "arm_step ext s1 = Some s2" "running base sp m0 (?p + 1 + 1) stk s2" "reg s2 1 = x" "reg s2 2 = y"
    using step_pop[OF s1(2) i(2)] s1(3) by auto
  let ?m = "if c = CHR ''*'' then Mul 0 1 2 else if c = CHR ''+'' then DataReg ADD 0 1 2 else DataReg SUB 0 1 2"
  have m: "decode ?w = Some ?m" "execute ?m s2 = put_reg 0 (op_value c x y) s2"
    using s2(3,4) decode_words(1-3) by (simp_all add: op_value_def alu_value_def get_reg_def)
  obtain s3 where s3: "arm_step ext s2 = Some s3" "running base sp m0 (?p + 1 + 1 + 1) stk s3" "reg s3 0 = op_value c x y"
    using step_put[OF s2(2) i(3) m] by auto
  have "reaches ext s s3" by (rule reaches_step[OF s1(1) reaches_step[OF s2(1) reaches_step[OF s3(1) reaches_refl]]])
  then show ?thesis unfolding g' using push_run[OF _ s3(2) i(4) len s3(3)] by (fastforce simp: add.assoc)
qed

text \<open>A call: the address of the command behind the jump is put into register 14.\<close>

lemma call_run:
  assumes s: "running base sp m0 p stk s" and a: "reg s 4 = a" "ext a = Some f"
    and i: "fetches base sp ext m0 p save_pc" "fetches base sp ext m0 (p + 1) increment_lr" "fetches base sp ext m0 (p + 1 + 1) goto_r4"
  shows "\<exists>s' r. reaches ext s s' \<and> running base sp m0 (p + 1 + 1 + 1) stk s' \<and> reg s' 0 = f r 0 \<and> (\<forall>j<4. r j = reg s j)"
proof -
  have "execute (DataReg MOV 14 0 15) s = put_reg 14 (code_addr base (p + 1 + 1)) s"
    using s by (simp add: alu_value_def get_reg_def running_def code_addr_def algebra_simps)
  then obtain s1 where s1: "arm_step ext s = Some s1" "running base sp m0 (p + 1) stk s1" "reg s1 14 = code_addr base (p + 1 + 1)"
    "\<forall>j. j \<notin> {14, 15} \<longrightarrow> reg s1 j = reg s j"
    using step_put[OF s i(1) decode_words(9), of 14] by auto
  have "execute (DataImm ADD 14 14 4) s1 = put_reg 14 (code_addr base (p + 1 + 1 + 1)) s1"
    using s1(3) by (simp add: alu_value_def get_reg_def code_addr_def algebra_simps)
  then obtain s2 where s2: "arm_step ext s1 = Some s2" "running base sp m0 (p + 1 + 1) stk s2" "reg s2 14 = code_addr base (p + 1 + 1 + 1)"
    "\<forall>j. j \<notin> {14, 15} \<longrightarrow> reg s2 j = reg s1 j"
    using step_put[OF s1(2) i(2) decode_words(10), of 14] by auto
  let ?s3 = "s2\<lparr>reg := (reg s2)(15 := a)\<rparr>"
  have "reg s2 4 = a" using s2(4) s1(4) a(1) by simp
  then have "execute (DataReg MOV 15 0 4) s2 = ?s3" by (simp add: alu_value_def get_reg_def put_reg_def)
  then have s3: "arm_step ext s2 = Some ?s3" using running_step[OF s2(2) i(3) decode_words(8)] by simp
  have s4: "arm_step ext ?s3 = Some (call_ext f ?s3)" using a(2) by (simp add: arm_step_def)
  have "running base sp m0 (p + 1 + 1 + 1) stk (call_ext f ?s3)"
    using s2(2,3) by (simp add: running_def call_ext_def)
  moreover have "reg (call_ext f ?s3) 0 = f (reg ?s3) 0" by (simp add: call_ext_def)
  moreover have "\<forall>j<4. reg ?s3 j = reg s j" using s1(4) s2(4) by auto
  moreover have "reaches ext s (call_ext f ?s3)"
    by (rule reaches_step[OF s1(1) reaches_step[OF s2(1) reaches_step[OF s3 reaches_step[OF s4 reaches_refl]]]])
  ultimately show ?thesis by (intro exI[of _ "call_ext f ?s3"] exI[of _ "reg ?s3"] conjI)
qed

lemma function_run:
  assumes g: "gen_ok syms g" and op: "so_type op = FUNCTION" and img: "image_ok base sp ext m0 (ProcessStackOperand op g)"
    and s: "running base sp m0 (length (program_commands g)) (rev args @ stk) s" and len: "length stk < 1024"
    and n: "nat (n_arguments op) = length args" and link: "linked_op syms (slots sp) ext m0 vars funs op"
  shows "\<exists>s'. reaches ext s s' \<and> running base sp m0 (length (program_commands (ProcessStackOperand op g))) (funs (so_name op) args # stk) s'"
proof -
  let ?n = "length args" let ?p = "length (program_commands g)"
  let ?pops = "map (\<lambda>i. pop_r (of_nat i)) (rev [0..<?n])"
  obtain a f where a: "?n \<le> 4" "syms (so_name op) = Some a" "ext a = Some f" "\<forall>r. f r 0 = funs (so_name op) (map r [0..<?n])"
    using link op n by (auto simp: linked_op_def)
  let ?g = "g\<lparr>program_commands := program_commands g @ ?pops\<rparr>"
  have g1: "gen_ok syms ?g" using g by (simp add: gen_ok_def)
  obtain j where j: "j < length (data_section g)" "symbol_shift (so_name op) ?g = (4 * of_nat (1023 - j), ?g)" "data_section g ! j = a"
    using gen_ok_lookup[OF g1 a(2)] by auto
  let ?w = "load_shifted_addr (4 * of_nat (1023 - j) - program_offset ?g)"
  have g': "ProcessStackOperand op g = g\<lparr>program_commands := program_commands g @ ?pops @ [?w, save_pc, increment_lr, goto_r4, push_r0]\<rparr>"
    using op j(2) n by (simp add: ProcessStackOperand_def PushCommand_def pop_arguments_eq)
  have i: "code_block base sp ext m0 ?p ?pops" "fetches base sp ext m0 (?p + ?n) ?w" "fetches base sp ext m0 (?p + ?n + 1) save_pc"
    "fetches base sp ext m0 (?p + ?n + 1 + 1) increment_lr" "fetches base sp ext m0 (?p + ?n + 1 + 1 + 1) goto_r4"
    "fetches base sp ext m0 (?p + ?n + 1 + 1 + 1 + 1) push_r0"
    "?p + ?n + 5 + length (data_section g) \<le> 1022"
    using img unfolding g' by (simp_all add: image_ok_def)
  have hw: "has_word base sp m0 (1023 - j) a"
    using img j(1) j(3)[symmetric] unfolding g' image_ok_def by simp
  have w: "?w = 0xe59f0000 + 0x1000 * of_nat 4 + (4 * of_nat (1023 - j) - 4 * of_nat (?p + ?n) - 8)"
    by (simp add: load_words program_offset_def WORD_SIZE_def algebra_simps)
  obtain s1 where s1: "reaches ext s s1" "running base sp m0 (?p + ?n) stk s1" "map (reg s1) [0..<?n] = args"
    using pops_run[OF a(1) s i(1)] by blast
  have d: "?p + ?n + 2 \<le> 1023 - j" "1023 - j < 1024" using i(7) j(1) by linarith+
  obtain s2 where s2: "arm_step ext s1 = Some s2" "running base sp m0 (?p + ?n + 1) stk s2" "reg s2 4 = a"
    "\<forall>j. j \<notin> {4, 15} \<longrightarrow> reg s2 j = reg s1 j"
    using literal_run[OF s1(2) i(2) hw d w disjI2[OF refl]] by blast
  obtain s3 r where s3: "reaches ext s2 s3" "running base sp m0 (?p + ?n + 1 + 1 + 1 + 1) stk s3" "reg s3 0 = f r 0" "\<forall>j<4. r j = reg s2 j"
    using call_run[OF s2(2,3) a(3) i(3,4,5)] by blast
  have "map r [0..<?n] = map (reg s1) [0..<?n]"
  proof (rule map_cong[OF refl])
    fix i assume "i \<in> set [0..<?n]"
    then have "i < 4" using a(1) by simp
    then show "r i = reg s1 i" using s3(4) s2(4) by simp
  qed
  then have "map r [0..<?n] = args" using s1(3) by (rule trans)
  then have v: "reg s3 0 = funs (so_name op) args" using a(4) s3(3) by simp
  have "reaches ext s s3" by (rule reaches_trans[OF s1(1) reaches_step[OF s2(1) s3(1)]])
  from push_run[OF this s3(2) i(6) len v] obtain s4 where
    "reaches ext s s4" "running base sp m0 (?p + ?n + 1 + 1 + 1 + 1 + 1) (funs (so_name op) args # stk) s4" by blast
  then show ?thesis unfolding g' by (intro exI[of _ s4]) simp
qed

lemma operand_run:
  assumes g: "gen_ok syms g" and img: "image_ok base sp ext m0 (ProcessStackOperand op g)"
    and s: "running base sp m0 (length (program_commands g)) stk s" and len: "length stk < 1024"
    and link: "linked_op syms (slots sp) ext m0 vars funs op" and r: "rpn_step vars funs op stk = Some stk'"
  shows "\<exists>s'. reaches ext s s' \<and> running base sp m0 (length (program_commands (ProcessStackOperand op g))) stk' s'"
proof (cases "so_type op")
  case CONSTANT
  then show ?thesis using constant_run[OF g _ img s len] r by (simp add: rpn_step_def)
next
  case VARIABLE
  then show ?thesis using variable_run[OF g _ img s len link] r by (simp add: rpn_step_def)
next
  case MATH_OPERATOR
  then obtain c where c: "so_name op = [c]" "c \<in> {CHR ''*'', CHR ''+'', CHR ''-''}" using link by (auto simp: linked_op_def)
  obtain y x st where st: "stk = y # x # st" "stk' = op_value c x y # st"
    using r MATH_OPERATOR c(1) by (auto simp: rpn_step_def split: list.splits)
  show ?thesis using math_run[OF MATH_OPERATOR img s[unfolded st(1)] _ c] len st by simp
next
  case FUNCTION
  let ?n = "nat (n_arguments op)"
  have n: "?n \<le> length stk" "stk' = funs (so_name op) (rev (take ?n stk)) # drop ?n stk"
    using r FUNCTION by (auto simp: rpn_step_def Let_def split: if_splits)
  have "running base sp m0 (length (program_commands g)) (rev (rev (take ?n stk)) @ drop ?n stk) s" using s by simp
  then show ?thesis using function_run[OF g FUNCTION img _ _ _ link, of "rev (take ?n stk)"] n len by simp
qed

lemma rpn_step_length: "rpn_step vars funs op stk = Some stk' \<Longrightarrow> length stk' \<le> length stk + 1"
  by (auto simp: rpn_step_def Let_def split: exp_stack_type.splits list.splits if_splits)

text \<open>How many words an operand adds to program and data.\<close>

definition operand_words :: "StackOperand \<Rightarrow> nat" where
  "operand_words op =
     (case so_type op of CONSTANT \<Rightarrow> 3 | VARIABLE \<Rightarrow> 3 | FUNCTION \<Rightarrow> nat (n_arguments op) + 5 | MATH_OPERATOR \<Rightarrow> 4)"

lemma process_extends:
  "\<exists>ws ds. program_commands (ProcessStackOperand op g) = program_commands g @ ws \<and>
     data_section (ProcessStackOperand op g) = data_section g @ ds \<and> 1 \<le> length ws \<and>
     length ws + length ds \<le> operand_words op"
  by (cases "so_type op")
    (auto simp: ProcessStackOperand_def PushCommand_def Let_def operand_words_def pop_arguments_eq symbol_shift_def
      split: option.split list.split)

lemma process_gen_ok: "gen_ok syms g \<Longrightarrow> gen_ok syms (ProcessStackOperand op g)"
proof -
  assume g: "gen_ok syms g"
  obtain ds where ds: "data_section (ProcessStackOperand op g) = data_section g @ ds" using process_extends by blast
  have "program_buffer_size (ProcessStackOperand op g) = program_buffer_size g"
    by (cases "so_type op") (auto simp: ProcessStackOperand_def PushCommand_def Let_def pop_arguments_eq symbol_shift_def
        split: option.split list.split)
  moreover have "symbols_ptr g x = Some v \<Longrightarrow> symbols_ptr (ProcessStackOperand op g) x = Some v" for x v
    by (cases "so_type op") (auto simp: ProcessStackOperand_def PushCommand_def Let_def pop_arguments_eq symbol_shift_def
        split: option.split list.split)
  ultimately show ?thesis using g unfolding gen_ok_def ds by (fastforce simp: nth_append)
qed

abbreviation process_all :: "StackOperand list \<Rightarrow> generator \<Rightarrow> generator" where
  "process_all ops g \<equiv> foldl (\<lambda>g operand. ProcessStackOperand operand g) g ops"

lemma process_all_extends:
  "\<exists>ws ds. program_commands (process_all ops g) = program_commands g @ ws \<and>
     data_section (process_all ops g) = data_section g @ ds \<and> length ops \<le> length ws \<and>
     length ws + length ds \<le> sum_list (map operand_words ops)"
proof (induction ops arbitrary: g)
  case (Cons op ops)
  obtain ws ds where 1: "program_commands (ProcessStackOperand op g) = program_commands g @ ws"
    "data_section (ProcessStackOperand op g) = data_section g @ ds" "1 \<le> length ws" "length ws + length ds \<le> operand_words op"
    using process_extends by blast
  obtain ws' ds' where 2: "program_commands (process_all ops (ProcessStackOperand op g)) = program_commands (ProcessStackOperand op g) @ ws'"
    "data_section (process_all ops (ProcessStackOperand op g)) = data_section (ProcessStackOperand op g) @ ds'"
    "length ops \<le> length ws'" "length ws' + length ds' \<le> sum_list (map operand_words ops)"
    using Cons.IH by blast
  show ?case using 1 2 by (intro exI[of _ "ws @ ws'"] exI[of _ "ds @ ds'"]) simp
qed simp

lemma image_ok_prefix:
  "image_ok base sp ext m0 g' \<Longrightarrow> program_commands g' = program_commands g @ ws \<Longrightarrow> data_section g' = data_section g @ ds \<Longrightarrow>
   image_ok base sp ext m0 g"
proof -
  assume i: "image_ok base sp ext m0 g'" and p: "program_commands g' = program_commands g @ ws" "data_section g' = data_section g @ ds"
  have "has_word base sp m0 (1023 - j) (data_section g ! j)" if "j < length (data_section g)" for j
  proof -
    have "has_word base sp m0 (1023 - j) ((data_section g @ ds) ! j)" using i that unfolding image_ok_def p by simp
    then show ?thesis using that by (simp add: nth_append)
  qed
  then show ?thesis using i unfolding image_ok_def p by simp
qed

lemma operands_run:
  "rpn_run vars funs ops stk = Some stk' \<Longrightarrow> gen_ok syms g \<Longrightarrow> image_ok base sp ext m0 (process_all ops g) \<Longrightarrow>
   running base sp m0 (length (program_commands g)) stk s \<Longrightarrow> length stk + length ops \<le> 1024 \<Longrightarrow>
   \<forall>op\<in>set ops. linked_op syms (slots sp) ext m0 vars funs op \<Longrightarrow>
   \<exists>s'. reaches ext s s' \<and> running base sp m0 (length (program_commands (process_all ops g))) stk' s'"
proof (induction ops arbitrary: g stk s)
  case Nil
  then show ?case using reaches_refl by auto
next
  case (Cons op ops)
  let ?g = "ProcessStackOperand op g"
  obtain stk1 where st: "rpn_step vars funs op stk = Some stk1" "rpn_run vars funs ops stk1 = Some stk'"
    using Cons.prems(1) by (auto split: option.splits)
  have img: "image_ok base sp ext m0 (process_all ops ?g)" using Cons.prems(3) by simp
  obtain ws ds where "program_commands (process_all ops ?g) = program_commands ?g @ ws" "data_section (process_all ops ?g) = data_section ?g @ ds"
    using process_all_extends by blast
  then have img1: "image_ok base sp ext m0 ?g" by (rule image_ok_prefix[OF img])
  have len: "length stk < 1024" and link: "linked_op syms (slots sp) ext m0 vars funs op" using Cons.prems(5,6) by simp_all
  obtain s1 where s1: "reaches ext s s1" "running base sp m0 (length (program_commands ?g)) stk1 s1"
    using operand_run[OF Cons.prems(2) img1 Cons.prems(4) len link st(1)] by blast
  have len1: "length stk1 + length ops \<le> 1024" using rpn_step_length[OF st(1)] Cons.prems(5) by simp
  have link1: "\<forall>op\<in>set ops. linked_op syms (slots sp) ext m0 vars funs op" using Cons.prems(6) by simp
  obtain s2 where "reaches ext s1 s2" "running base sp m0 (length (program_commands (process_all ops ?g))) stk' s2"
    using Cons.IH[OF st(2) process_gen_ok[OF Cons.prems(2)] img s1(2) len1 link1] by blast
  then show ?case using reaches_trans[OF s1(1)] by auto
qed

subsection \<open>The buffer\<close>

lemma write_up_ok:
  "p + length ws \<le> length buf \<Longrightarrow> \<exists>b. write_up buf p ws = Some b \<and> length b = length buf
     \<and> (\<forall>i<length ws. b ! (p + i) = ws ! i) \<and> (\<forall>i. i < p \<or> p + length ws \<le> i \<longrightarrow> b ! i = buf ! i)"
proof (induction ws arbitrary: buf p)
  case (Cons w ws)
  then obtain b where b: "write_up (buf[p := w]) (p + 1) ws = Some b" "length b = length buf"
    "\<forall>i<length ws. b ! (p + 1 + i) = ws ! i" "\<forall>i. i < p + 1 \<or> p + 1 + length ws \<le> i \<longrightarrow> b ! i = buf[p := w] ! i"
    using Cons.IH[of "p + 1" "buf[p := w]"] by auto
  have "b ! (p + i) = (w # ws) ! i" if "i < length (w # ws)" for i
    using b(3,4) that Cons.prems by (cases i) auto
  then show ?case using b Cons.prems by auto
qed simp

lemma write_down_ok:
  "length ws \<le> n \<Longrightarrow> n \<le> length buf \<Longrightarrow> \<exists>b. write_down buf (int n - 1) ws = Some b \<and> length b = length buf
     \<and> (\<forall>j<length ws. b ! (n - 1 - j) = ws ! j) \<and> (\<forall>i. i + length ws < n \<or> n \<le> i \<longrightarrow> b ! i = buf ! i)"
proof (induction ws arbitrary: buf n)
  case (Cons w ws)
  obtain m where n: "n = Suc m" using Cons.prems(1) by (cases n) auto
  obtain b where b: "write_down (buf[m := w]) (int m - 1) ws = Some b" "length b = length buf"
    "\<forall>j<length ws. b ! (m - 1 - j) = ws ! j" "\<forall>i. i + length ws < m \<or> m \<le> i \<longrightarrow> b ! i = buf[m := w] ! i"
    using Cons.IH[of m "buf[m := w]"] Cons.prems n by auto
  have "b ! (n - 1 - j) = (w # ws) ! j" if "j < length (w # ws)" for j
    using b(3,4) that Cons.prems n by (cases j) auto
  moreover have "b ! i = buf ! i" if "i + length (w # ws) < n \<or> n \<le> i" for i
    using b(4) that n by (cases "i = m") auto
  ultimately show ?case using b(1,2) Cons.prems n by auto
qed simp

text \<open>Program and data do not meet: the buffer holds both.\<close>

lemma WriteCommandsByPtr_ok:
  assumes "program_buffer_size g = 0x1000" "length buf = 1024" "length (program_commands g) + length (data_section g) \<le> 1024"
  obtains b where "WriteCommandsByPtr g buf = Some b" "length b = 1024"
    "\<forall>i<length (program_commands g). b ! i = program_commands g ! i"
    "\<forall>j<length (data_section g). b ! (1023 - j) = data_section g ! j"
proof -
  obtain b1 where b1: "write_up buf 0 (program_commands g) = Some b1" "length b1 = 1024"
    "\<forall>i<length (program_commands g). b1 ! i = program_commands g ! i"
    using write_up_ok[of 0 "program_commands g" buf] assms by auto
  obtain b where b: "write_down b1 (int 1024 - 1) (data_section g) = Some b" "length b = 1024"
    "\<forall>j<length (data_section g). b ! (1024 - 1 - j) = data_section g ! j"
    "\<forall>i. i + length (data_section g) < 1024 \<or> 1024 \<le> i \<longrightarrow> b ! i = b1 ! i"
    using write_down_ok[of "data_section g" 1024 b1] assms b1(2) by auto
  have "uint (program_buffer_size g div WORD_SIZE) - 1 = int 1024 - 1"
    unfolding assms(1) WORD_SIZE_def by simp
  then have "WriteCommandsByPtr g buf = Some b" unfolding WriteCommandsByPtr_def b1(1) option.case using b(1) by metis
  moreover have "\<forall>i<length (program_commands g). b ! i = program_commands g ! i" using b(4) b1(3) assms(3) by auto
  ultimately show ?thesis using that b(2,3) by simp
qed

lemma set_symbols_ok:
  "gen_ok syms g \<Longrightarrow> length (data_section g) + length externs \<le> 1023 \<Longrightarrow>
   gen_ok (syms ++ map_of (rev externs)) (set_symbol_loop externs g)
   \<and> program_commands (set_symbol_loop externs g) = program_commands g
   \<and> length (data_section (set_symbol_loop externs g)) = length (data_section g) + length externs"
proof (induction externs arbitrary: syms g)
  case (Cons e externs)
  obtain x a where e: "e = (x, a)" by (cases e)
  let ?g = "g\<lparr>symbols_ptr := (symbols_ptr g)(x \<mapsto> GetNextDataWordShift g), data_section := data_section g @ [a]\<rparr>"
  have "GetNextDataWordShift g = 4 * of_nat (1023 - length (data_section g))"
    using Cons.prems by (intro next_shift) (auto simp: gen_ok_def)
  then have "gen_ok (syms(x \<mapsto> a)) ?g"
    using Cons.prems(1) by (fastforce simp: gen_ok_def nth_append)
  moreover have "length (data_section ?g) + length externs \<le> 1023" using Cons.prems(2) by simp
  ultimately have "gen_ok (syms(x \<mapsto> a) ++ map_of (rev externs)) (set_symbol_loop externs ?g)
      \<and> program_commands (set_symbol_loop externs ?g) = program_commands ?g
      \<and> length (data_section (set_symbol_loop externs ?g)) = length (data_section ?g) + length externs"
    by (rule Cons.IH)
  note r = this
  have m: "syms ++ map_of (rev (e # externs)) = syms(x \<mapsto> a) ++ map_of (rev externs)"
    by (simp add: e)
  have l: "set_symbol_loop (e # externs) g = set_symbol_loop externs ?g" by (simp add: e)
  have "length (data_section ?g) + length externs = length (data_section g) + length (e # externs)"
    "program_commands ?g = program_commands g" by simp_all
  then show ?case unfolding m l using r by metis
qed simp

subsection \<open>The compiler\<close>

text \<open>
  4104 bytes of stack: the saved registers and one word for each of at most 1024 operands.  The code is called at
  the beginning of the buffer, which lies outside of the stack and holds no external function.
\<close>

definition stack_area :: "u32 \<Rightarrow> u32 set" where
  "stack_area sp = slot sp ` {..<1026}"

definition called :: "u32 \<Rightarrow> u32 list \<Rightarrow> (u32 \<rightharpoonup> ext_function) \<Rightarrow> arm \<Rightarrow> bool" where
  "called base code ext s \<longleftrightarrow> reg s 15 = base \<and>
     (\<forall>i<1024. mem s (code_addr base i) = code ! i \<and> ext (code_addr base i) = None
        \<and> code_addr base i \<notin> stack_area (reg s 13))"

definition linked ::
    "(string \<times> u32) list \<Rightarrow> (u32 \<rightharpoonup> ext_function) \<Rightarrow> arm \<Rightarrow> (string \<Rightarrow> u32) \<Rightarrow> (string \<Rightarrow> u32 list \<Rightarrow> u32) \<Rightarrow> expr \<Rightarrow> bool" where
  "linked externs ext s vars funs e \<longleftrightarrow>
     (\<forall>op\<in>set (postfix e). linked_op (map_of (rev externs)) (stack_area (reg s 13)) ext (mem s) vars funs op)"

definition jit_words :: "(string \<times> u32) list \<Rightarrow> expr \<Rightarrow> nat" where
  "jit_words externs e = 4 + length externs + sum_list (map operand_words (postfix e))"

definition jit_generator :: "(string \<times> u32) list \<Rightarrow> expr \<Rightarrow> generator" where
  "jit_generator externs e =
     process_all (postfix e) (PushCommand push_r4_lr (SetSymbols externs PROGRAM_BUFFER_SIZE new_generator))"

lemma gen_ok_push: "gen_ok syms (PushCommand w g) = gen_ok syms g"
  by (simp add: gen_ok_def PushCommand_def)

lemma process_all_gen_ok: "gen_ok syms g \<Longrightarrow> gen_ok syms (process_all ops g)"
  by (induction ops arbitrary: g) (simp_all add: process_gen_ok)

lemma start_generator:
  assumes "jit_words externs e \<le> 1024"
  defines "g \<equiv> PushCommand push_r4_lr (SetSymbols externs PROGRAM_BUFFER_SIZE new_generator)"
  shows "gen_ok (map_of (rev externs)) g" "program_commands g = [push_r4_lr]" "length (data_section g) = length externs"
proof -
  let ?n = "new_generator\<lparr>program_buffer_size := PROGRAM_BUFFER_SIZE\<rparr>"
  have n: "gen_ok Map.empty ?n" by (simp add: gen_ok_def PROGRAM_BUFFER_SIZE_def)
  have l: "length (data_section ?n) + length externs \<le> 1023"
    using assms(1) by (simp add: new_generator_def jit_words_def)
  note s = set_symbols_ok[OF n l]
  show "gen_ok (map_of (rev externs)) g"
    using s unfolding g_def SetSymbols_def gen_ok_push by simp
  show "program_commands g = [push_r4_lr]" "length (data_section g) = length externs"
    using s unfolding g_def SetSymbols_def PushCommand_def by (simp_all add: new_generator_def)
qed

lemma jit_generator_words:
  assumes "jit_words externs e \<le> 1024"
  obtains ws where "program_commands (jit_generator externs e) = push_r4_lr # ws"
    "length (program_commands (jit_generator externs e)) + length (data_section (jit_generator externs e)) + 3 \<le> 1024"
    "length (postfix e) \<le> length ws"
proof -
  let ?g = "PushCommand push_r4_lr (SetSymbols externs PROGRAM_BUFFER_SIZE new_generator)"
  note g = start_generator(2,3)[OF assms]
  obtain ws ds where w: "program_commands (process_all (postfix e) ?g) = program_commands ?g @ ws"
    "data_section (process_all (postfix e) ?g) = data_section ?g @ ds"
    "length (postfix e) \<le> length ws" "length ws + length ds \<le> sum_list (map operand_words (postfix e))"
    using process_all_extends by blast
  have "program_commands (jit_generator externs e) = push_r4_lr # ws"
    unfolding jit_generator_def w(1) g(1) by simp
  moreover have "length (data_section (jit_generator externs e)) = length externs + length ds"
    unfolding jit_generator_def w(2) length_append g(2) ..
  ultimately show ?thesis using that[of ws] w(3,4) assms by (simp add: jit_words_def)
qed

lemma slots_stack_area: "slots (sp - 8) \<subseteq> stack_area sp"
proof
  fix a assume "a \<in> slots (sp - 8)"
  then obtain k where k: "k < 1024" "a = slot (sp - 8) k" by (auto simp: slots_def)
  then have "a = slot sp (k + 2)" by (simp add: slot_def algebra_simps)
  then show "a \<in> stack_area sp" using k(1) by (auto simp: stack_area_def)
qed

lemma saved_words: "sp - 8 \<in> stack_area sp" "sp - 4 \<in> stack_area sp" "sp - 8 \<notin> slots (sp - 8)" "sp - 4 \<notin> slots (sp - 8)"
proof -
  have s: "sp - 8 = slot sp 1" "sp - 4 = slot sp 0" "slot (sp - 8) k = slot sp (k + 2)" for k
    by (simp_all add: slot_def algebra_simps)
  show "sp - 8 \<in> stack_area sp" "sp - 4 \<in> stack_area sp" by (auto simp: stack_area_def s(1,2))
  show "sp - 8 \<notin> slots (sp - 8)" unfolding slots_def s(1)[symmetric] by (auto simp: s(3)) (simp add: s(1) slot_eq)
  show "sp - 4 \<notin> slots (sp - 8)" unfolding slots_def by (auto simp: s(3)) (simp add: s(2) slot_eq)
qed

lemma enter_run:
  assumes "called base code ext s" "code ! 0 = push_r4_lr"
  defines "m \<equiv> (mem s)(reg s 13 - 8 := reg s 4, reg s 13 - 4 := reg s 14)"
  shows "\<exists>s'. arm_step ext s = Some s' \<and> running base (reg s 13 - 8) m 1 [] s'"
proof -
  have "mem s (code_addr base 0) = code ! 0 \<and> ext (code_addr base 0) = None"
    using assms(1) unfolding called_def by (metis zero_less_numeral)
  then have "reg s 15 = base" "mem s base = push_r4_lr" "ext base = None"
    using assms(1,2) by (simp_all add: called_def code_addr_def)
  then have "arm_step ext s = Some (execute (StoreMulti 13 [4, 14]) s)" by (simp add: arm_step_def decode_words)
  moreover have "running base (reg s 13 - 8) m 1 [] (execute (StoreMulti 13 [4, 14]) s)"
    using \<open>reg s 15 = base\<close> by (simp add: running_def Let_def next_instr_def get_reg_def code_addr_def m_def)
  ultimately show ?thesis by blast
qed

lemma leave_run:
  assumes s: "running base sp m0 p [v] s"
    and i: "fetches base sp ext m0 p (pop_r (of_nat 0))" "fetches base sp ext m0 (p + 1) pop_r4_lr" "fetches base sp ext m0 (p + 1 + 1) arm_exit"
    and sv: "sp \<notin> slots sp" "sp + 4 \<notin> slots sp"
  shows "\<exists>s'. reaches ext s s' \<and> reg s' 0 = v \<and> reg s' 15 = m0 (sp + 4) \<and> reg s' 4 = m0 sp \<and> reg s' 13 = sp + 8
    \<and> (\<forall>a. a \<notin> slots sp \<longrightarrow> mem s' a = m0 a)"
proof -
  obtain s1 where s1: "arm_step ext s = Some s1" "running base sp m0 (p + 1) [] s1" "reg s1 0 = v"
    using step_pop[OF s i(1)] by auto
  let ?s2 = "execute (LoadMulti 13 [4, 14]) s1"
  have m: "mem s1 sp = m0 sp" "mem s1 (sp + 4) = m0 (sp + 4)" "reg s1 13 = sp" using s1(2) sv by (simp_all add: running_def)
  have r: "reg ?s2 0 = v" "reg ?s2 4 = m0 sp" "reg ?s2 14 = m0 (sp + 4)" "reg ?s2 13 = sp + 8" "mem ?s2 = mem s1"
    "reg ?s2 15 = code_addr base (p + 1 + 1)"
    using s1(2,3) m by (simp_all add: Let_def next_instr_def running_def code_addr_next)
  have st2: "arm_step ext s1 = Some ?s2" by (rule running_step[OF s1(2) i(2) decode_words(6)])
  have "mem ?s2 (code_addr base (p + 1 + 1)) = arm_exit" "ext (code_addr base (p + 1 + 1)) = None"
    using i(3) s1(2) r(5) by (auto simp: fetches_def has_word_def running_def)
  then have st3: "arm_step ext ?s2 = Some (execute (Bx 14) ?s2)" unfolding arm_step_def r(6) by (simp add: decode_words)
  have "reaches ext s (execute (Bx 14) ?s2)"
    by (rule reaches_step[OF s1(1) reaches_step[OF st2 reaches_step[OF st3 reaches_refl]]])
  moreover have "reg (execute (Bx 14) ?s2) 15 = m0 (sp + 4)" "reg (execute (Bx 14) ?s2) 0 = v"
    "reg (execute (Bx 14) ?s2) 4 = m0 sp" "reg (execute (Bx 14) ?s2) 13 = sp + 8" "mem (execute (Bx 14) ?s2) = mem s1"
    using r by (simp_all add: put_reg_def get_reg_def)
  ultimately show ?thesis using s1(2) by (intro exI[of _ "execute (Bx 14) ?s2"]) (simp add: running_def)
qed

lemma jit_run:
  assumes F: "program_commands F = program_commands G @ [pop_r 0, pop_r4_lr, arm_exit]" "data_section F = data_section G"
    and G: "G = jit_generator externs e" and fits: "jit_words externs e \<le> 1024" and wf: "wf_expr e"
    and code: "\<forall>i<length (program_commands F). code ! i = program_commands F ! i"
      "\<forall>j<length (data_section F). code ! (1023 - j) = data_section F ! j"
    and s: "called base code ext s" and l: "linked externs ext s vars funs e"
  shows "\<exists>n s'. arm_run ext n s = Some s' \<and> reg s' 15 = reg s 14 \<and> reg s' 0 = eval vars funs e \<and>
    reg s' 13 = reg s 13 \<and> reg s' 4 = reg s 4 \<and> (\<forall>a. a \<notin> stack_area (reg s 13) \<longrightarrow> mem s' a = mem s a)"
proof -
  let ?sp = "reg s 13 - 8" let ?p = "length (program_commands G)"
  define m where "m = (mem s)(reg s 13 - 8 := reg s 4, reg s 13 - 4 := reg s 14)"
  let ?g = "PushCommand push_r4_lr (SetSymbols externs PROGRAM_BUFFER_SIZE new_generator)"
  obtain ws where ws: "program_commands G = push_r4_lr # ws" "?p + length (data_section G) + 3 \<le> 1024"
    "length (postfix e) \<le> length ws" using jit_generator_words[OF fits] unfolding G .
  have outside: "m a = mem s a" "a \<notin> slots ?sp" if "a \<notin> stack_area (reg s 13)" for a
    using that saved_words(1,2)[of "reg s 13"] slots_stack_area[of "reg s 13"] by (auto simp: m_def)
  have at: "mem s (code_addr base i) = code ! i" "ext (code_addr base i) = None" "code_addr base i \<notin> stack_area (reg s 13)"
    if "i < 1024" for i using s that by (auto simp: called_def)
  have fetch: "fetches base ?sp ext m i (program_commands F ! i)" if "i < ?p + 3" for i
    using at[of i] outside[of "code_addr base i"] code(1) that ws(2) unfolding F(1) by (simp add: fetches_def has_word_def)
  have data: "has_word base ?sp m (1023 - j) (data_section G ! j)" if "j < length (data_section G)" for j
    using at[of "1023 - j"] outside[of "code_addr base (1023 - j)"] code(2) that unfolding F(2) by (simp add: has_word_def)
  have "fetches base ?sp ext m i (program_commands G ! i)" if "i < ?p" for i
    using fetch[of i] that unfolding F(1) by (simp add: nth_append)
  then have "code_block base ?sp ext m 0 (program_commands G)" by (simp add: code_block_def)
  then have img: "image_ok base ?sp ext m (process_all (postfix e) ?g)"
    using data ws(2) unfolding G[unfolded jit_generator_def, symmetric] by (simp add: image_ok_def)
  have "code ! 0 = push_r4_lr" using code(1) F(1) ws(1) by auto
  then obtain s1 where s1: "arm_step ext s = Some s1" "running base ?sp m 1 [] s1"
    using enter_run[OF s] unfolding m_def by blast
  have s1': "running base ?sp m (length (program_commands ?g)) [] s1" using s1(2) start_generator(2)[OF fits] by simp
  have rpn: "rpn_run vars funs (postfix e) [] = Some [eval vars funs e]"
    using rpn_postfix[OF wf, of vars funs "[]" "[]"] by simp
  have link: "\<forall>op\<in>set (postfix e). linked_op (map_of (rev externs)) (slots ?sp) ext m vars funs op"
    using l outside unfolding linked_def linked_op_def by (fastforce split: exp_stack_type.splits)
  have len: "length ([] :: u32 list) + length (postfix e) \<le> 1024" using ws by simp
  obtain s2 where s2: "reaches ext s1 s2" "running base ?sp m ?p [eval vars funs e] s2"
    using operands_run[OF rpn start_generator(1)[OF fits] img s1' len link] unfolding G jit_generator_def by blast
  have f: "fetches base ?sp ext m ?p (pop_r (of_nat 0))" "fetches base ?sp ext m (?p + 1) pop_r4_lr" "fetches base ?sp ext m (?p + 1 + 1) arm_exit"
    using fetch[of ?p] fetch[of "?p + 1"] fetch[of "?p + 1 + 1"] unfolding F(1) by (simp_all add: nth_append)
  have sp4: "?sp + 4 = reg s 13 - 4" "?sp + 8 = reg s 13" by simp_all
  have sv: "?sp \<notin> slots ?sp" "?sp + 4 \<notin> slots ?sp" unfolding sp4 using saved_words(3,4) by blast+
  have mv: "m ?sp = reg s 4" "m (?sp + 4) = reg s 14" unfolding sp4 by (simp_all add: m_def)
  obtain s3 where s3: "reaches ext s2 s3" "reg s3 0 = eval vars funs e" "reg s3 15 = reg s 14" "reg s3 4 = reg s 4"
    "reg s3 13 = reg s 13" "\<forall>a. a \<notin> slots ?sp \<longrightarrow> mem s3 a = m a"
    using leave_run[OF s2(2) f sv] unfolding mv sp4(2) by blast
  have "reaches ext s s3" by (rule reaches_step[OF s1(1) reaches_trans[OF s2(1) s3(1)]])
  moreover have "\<forall>a. a \<notin> stack_area (reg s 13) \<longrightarrow> mem s3 a = mem s a" using s3(6) outside by simp
  ultimately show ?thesis using s3(2-5) unfolding reaches_def by blast
qed

text \<open>
  C1: Compiling the text of a well-formed expression that fits into the buffer succeeds, and calling the code that is
  left in the buffer, wherever it lies, returns: the result register holds the value of the expression in 32-bit
  arithmetic, with the variables read from memory and the functions called with their arguments in order, the stack
  pointer and the saved register are as before, and no memory outside of the stack has changed.
\<close>

theorem jit_code_evaluates:
  assumes "wf_expr e" "spells (lexemes e) text" "jit_words externs e \<le> 1024" "length out_buffer = 1024"
  shows "\<exists>code. jit_compile_expression_to_arm text externs out_buffer = Some code \<and> length code = 1024 \<and>
    (\<forall>base ext s vars funs. called base code ext s \<longrightarrow> linked externs ext s vars funs e \<longrightarrow>
       (\<exists>n s'. arm_run ext n s = Some s' \<and> reg s' 15 = reg s 14 \<and> reg s' 0 = eval vars funs e \<and>
          reg s' 13 = reg s 13 \<and> reg s' 4 = reg s 4 \<and> (\<forall>a. a \<notin> stack_area (reg s 13) \<longrightarrow> mem s' a = mem s a)))"
proof -
  let ?G = "jit_generator externs e"
  let ?F = "PushCommand arm_exit (PushCommand pop_r4_lr (PushCommand (pop_r 0) ?G))"
  have F: "program_commands ?F = program_commands ?G @ [pop_r 0, pop_r4_lr, arm_exit]" "data_section ?F = data_section ?G"
    "program_buffer_size ?F = 0x1000"
    using process_all_gen_ok[OF start_generator(1)[OF assms(3)], of "postfix e"]
    by (simp_all add: PushCommand_def gen_ok_def jit_generator_def)
  have "length (program_commands ?F) + length (data_section ?F) \<le> 1024"
    using jit_generator_words[OF assms(3)] unfolding F(1,2) by fastforce
  then obtain code where code: "WriteCommandsByPtr ?F out_buffer = Some code" "length code = 1024"
    "\<forall>i<length (program_commands ?F). code ! i = program_commands ?F ! i"
    "\<forall>j<length (data_section ?F). code ! (1023 - j) = data_section ?F ! j"
    using WriteCommandsByPtr_ok[OF F(3) assms(4)] by blast
  have "jit_compile_expression_to_arm text externs out_buffer = Some code"
    using code(1) FromInfixString_post[OF assms(1,2)]
    by (simp add: jit_compile_expression_to_arm_def GenerateMachineCommands_def jit_generator_def)
  then show ?thesis using code(2) jit_run[OF F(1,2) refl assms(3,1) code(3,4)] by blast
qed

text \<open>The code for \<^verbatim>\<open>a*3 + inc(2)\<close>, placed at address 65536, with \<^verbatim>\<open>a = 7\<close>.\<close>

definition demo_expr :: expr where
  "demo_expr = Op CHR ''+'' (Op CHR ''*'' (Var ''a'') (Num 3)) (Call ''inc'' [Num 2])"

definition demo_externs :: "(string \<times> u32) list" where
  "demo_externs = [(''inc'', 0x20000), (''a'', 0x30000)]"

definition demo_ext :: "u32 \<rightharpoonup> ext_function" where
  "demo_ext = [0x20000 \<mapsto> (\<lambda>r i. if i = 0 then r 0 + 1 else 0)]"

definition demo_state :: "u32 list \<Rightarrow> arm" where
  "demo_state code = \<lparr>reg = (\<lambda>i. if i = 15 then 0x10000 else if i = 13 then 0x40000 else if i = 14 then 0x50000 else 0),
     mem = (\<lambda>a. if unat a < 0x11000 then code ! ((unat a - 0x10000) div 4) else if a = 0x30000 then 7 else 0)\<rparr>"

lemma spells_demo: "spells (lexemes demo_expr) ''a*3 + inc(2)''"
proof -
  let ?ps = "[(name_token ''a'', [], ''a''), (op_token CHR ''*'', [], ''*''), (number_token 3, [], ''3''),
    (op_token CHR ''+'', '' '', ''+''), (name_token ''inc'', '' '', ''inc''), (token OPEN_BRACKET, [], ''(''),
    (number_token 2, [], ''2''), (token CLOSE_BRACKET, [], '')'')]"
  have "pieces ?ps" by (simp add: written_tokens char_class)
  then have "spells (map fst ?ps) (concat (map (\<lambda>(t, g, w). g @ w) ?ps))" by (rule spells_pieces)
  then show ?thesis by (simp add: demo_expr_def)
qed

lemma demo_called: "length code = 1024 \<Longrightarrow> called 0x10000 code demo_ext (demo_state code)"
  unfolding called_def
proof (intro conjI allI impI)
  fix i :: nat assume i: "i < 1024"
  have c: "unat (code_addr 0x10000 i) = 0x10000 + 4 * i"
  proof -
    have "code_addr 0x10000 i = (of_nat (0x10000 + 4 * i) :: u32)" by (simp add: code_addr_def)
    then show ?thesis using i unat_of_nat_small[of "0x10000 + 4 * i", where 'a = 32] by simp
  qed
  show "mem (demo_state code) (code_addr 0x10000 i) = code ! i" using i c by (simp add: demo_state_def)
  show "demo_ext (code_addr 0x10000 i) = None" using i arg_cong[of "code_addr 0x10000 i" "0x20000 :: u32" unat] c
    by (auto simp: demo_ext_def)
  show "code_addr 0x10000 i \<notin> stack_area (reg (demo_state code) 13)"
  proof
    assume "code_addr 0x10000 i \<in> stack_area (reg (demo_state code) 13)"
    then obtain k where k: "k < 1026" "code_addr 0x10000 i = slot 0x40000 k" by (auto simp: stack_area_def demo_state_def)
    have "slot 0x40000 k + of_nat (4 * (k + 1)) = (0x40000 :: u32)" by (simp add: slot_def)
    then have "code_addr 0x10000 i + of_nat (4 * (k + 1)) = (0x40000 :: u32)" unfolding k(2) .
    moreover have "(of_nat (0x10000 + 4 * i + 4 * (k + 1)) :: u32) = code_addr 0x10000 i + of_nat (4 * (k + 1))"
      by (simp add: code_addr_def)
    ultimately have "(of_nat (0x10000 + 4 * i + 4 * (k + 1)) :: u32) = 0x40000" by simp
    then have "unat (of_nat (0x10000 + 4 * i + 4 * (k + 1)) :: u32) = 0x40000" by simp
    then show False using i k(1) unat_of_nat_small[of "0x10000 + 4 * i + 4 * (k + 1)", where 'a = 32] by simp
  qed
qed (simp add: demo_state_def)

lemma demo_linked: "linked demo_externs demo_ext (demo_state code) (\<lambda>_. 7) (\<lambda>_ vs. hd vs + 1) demo_expr"
proof -
  have "(0x30000 :: u32) \<notin> stack_area 0x40000"
  proof
    assume "(0x30000 :: u32) \<in> stack_area 0x40000"
    then obtain k where k: "k < 1026" "0x30000 = slot 0x40000 k" by (auto simp: stack_area_def)
    have "slot 0x40000 k + of_nat (4 * (k + 1)) = (0x40000 :: u32)" by (simp add: slot_def)
    then have "(of_nat (0x30000 + 4 * (k + 1)) :: u32) = 0x40000" using k(2)[symmetric] by simp
    then have "unat (of_nat (0x30000 + 4 * (k + 1)) :: u32) = 0x40000" by simp
    then show False using k(1) unat_of_nat_small[of "0x30000 + 4 * (k + 1)", where 'a = 32] by simp
  qed
  then show ?thesis
    by (simp add: linked_def linked_op_def demo_expr_def demo_externs_def demo_ext_def demo_state_def value_operand_def
        name_operand_def op_operand_def)
qed

lemma jit_code_evaluates_witness:
  "\<exists>code. jit_compile_expression_to_arm ''a*3 + inc(2)'' demo_externs (replicate 1024 0) = Some code \<and>
     (\<exists>n s'. arm_run demo_ext n (demo_state code) = Some s' \<and> reg s' 15 = 0x50000 \<and> reg s' 0 = 24 \<and> reg s' 13 = 0x40000)"
proof -
  have "wf_expr demo_expr" "jit_words demo_externs demo_expr \<le> 1024"
    by (simp_all add: demo_expr_def jit_words_def demo_externs_def operand_words_def value_operand_def name_operand_def op_operand_def)
  from jit_code_evaluates[OF this(1) spells_demo this(2), of "replicate 1024 0"] obtain code where code:
    "jit_compile_expression_to_arm ''a*3 + inc(2)'' demo_externs (replicate 1024 0) = Some code" "length code = 1024"
    "\<And>base ext s vars funs. called base code ext s \<Longrightarrow> linked demo_externs ext s vars funs demo_expr \<Longrightarrow>
       \<exists>n s'. arm_run ext n s = Some s' \<and> reg s' 15 = reg s 14 \<and> reg s' 0 = eval vars funs demo_expr \<and> reg s' 13 = reg s 13"
    by fastforce
  have "eval (\<lambda>_. 7) (\<lambda>_ vs. hd vs + 1) demo_expr = 24" by (simp add: demo_expr_def op_value_def)
  moreover have "reg (demo_state code) 14 = 0x50000" "reg (demo_state code) 13 = 0x40000" by (simp_all add: demo_state_def)
  ultimately show ?thesis using code(1) code(3)[OF demo_called[OF code(2)] demo_linked] by metis
qed

subsection \<open>Constants in instructions\<close>

text \<open>
  \<open>mov_constant\<close>, which the generator does not use, is right for constants of one byte only; larger ones run into
  the field of the rotation.
\<close>

lemma decode_immediate:
  assumes "unat w = 4096 * q + k" "k < 256" "q = 0xe3a00 \<and> a = MOV \<or> q = 0xe3e00 \<and> a = MVN"
  shows "decode w = Some (DataImm a 0 0 k)"
proof -
  have k: "k < 4096" using assms(2) by simp
  note f = field_literal[OF assms(1) k]
  have "(4096 * q + k) div 256 mod 16 = 0"
  proof -
    have "4096 * q + k = k + 256 * (16 * q)" by simp
    moreover have "(k + 256 * (16 * q)) div 256 = 16 * q + k div 256" by (rule div_mult_self2) simp
    ultimately have "(4096 * q + k) div 256 = 16 * q" using assms(2) by (simp only: div_less add_0_right)
    then show ?thesis by simp
  qed
  then have "(4096 * q + k) div 2 ^ 8 mod 2 ^ (11 + 1 - 8) = 0" by simp
  then have "field w 11 8 = 0" unfolding field_def assms(1) .
  moreover have "field w 7 0 = k"
  proof -
    have "4096 * q + k = k + 256 * (16 * q)" by simp
    then have "(4096 * q + k) mod 256 = k" using assms(2) by (simp only: mod_mult_self2 mod_less)
    then have "(4096 * q + k) div 2 ^ 0 mod 2 ^ (7 + 1 - 0) = k" by simp
    then show ?thesis unfolding field_def assms(1) .
  qed
  moreover have "field w 31 28 = 14" "field w 27 25 = 1" "field w 20 20 = 0" "field w 15 12 = 0" "field w 19 16 = 0"
    "decode_alu (field w 24 21) = Some a"
    using assms(3) by (auto simp: f decode_alu_def)
  ultimately show ?thesis by (simp add: decode_def Let_def)
qed

lemma mov_constant_byte:
  assumes "- 256 \<le> v" "v < 256"
  shows "\<exists>i. decode (mov_constant v) = Some i \<and> execute i s = put_reg 0 (word_of_int v) s"
proof (cases "0 \<le> v")
  case True
  then obtain k where k: "v = int k" "k < 256" using assms(2) by (metis nonneg_int_cases of_nat_less_numeral_iff)
  have "mov_constant v = of_nat (4096 * 0xe3a00 + k)" using k(1) by (simp add: mov_constant_def)
  then have "unat (mov_constant v) = 4096 * 0xe3a00 + k"
    using k(2) unat_of_nat_small[of "4096 * 0xe3a00 + k", where 'a = 32] by simp
  from decode_immediate[OF this k(2), of MOV] show ?thesis using k(1) by (simp add: alu_value_def)
next
  case False
  then obtain k where k: "v = - int k - 1" "k < 256" using assms(1)
    by (intro that[of "nat (- v - 1)"]) auto
  have "mov_constant v = of_nat (4096 * 0xe3e00 + k)" using k(1) False by (simp add: mov_constant_def)
  then have "unat (mov_constant v) = 4096 * 0xe3e00 + k"
    using k(2) unat_of_nat_small[of "4096 * 0xe3e00 + k", where 'a = 32] by simp
  from decode_immediate[OF this k(2), of MVN] show ?thesis using k(1) by (simp add: alu_value_def)
qed

lemma mov_constant_300: "decode (mov_constant 300) = None"
  by (simp add: decode_def field_def mov_constant_def Let_def)

end
