(* ===== verification/PrimesCondvar.thy ===== *)
theory PrimesCondvar
  imports PrimeFactors
begin

section \<open>threads_condvar: a worker that hands prime numbers to the main thread\<close>

text \<open>
  \<^verbatim>\<open>inf19-1_posix_threads_condvar/file.c\<close> and \<^verbatim>\<open>main.c\<close>: two solutions of one task.  A worker looks for the primes
  from \<open>A\<close> to \<open>B\<close> and hands them over one by one, the main thread prints at most \<open>N\<close> of them.  Both threads use
  one mutex and one condition variable.  A thread takes one step from one call of the pthread library to the
  next; a step is \<open>None\<close> while the thread is blocked.  Waiting for the condition variable releases the mutex; a
  signal lets the other thread, if it waits, compete for the mutex again, and so may a spurious wake-up.  The
  theorems say what is printed in every interleaving, that the threads end, and for which arguments they do not.
\<close>

subsection \<open>Looking for primes\<close>

function prime_loop :: "int \<Rightarrow> int \<Rightarrow> bool" where
  "prime_loop i number =
     (if i \<le> number div 2 then (if number mod i = 0 then False else prime_loop (i + 1) number) else True)"
  by pat_completeness auto
termination
  by (relation "measure (\<lambda>(i, number). nat (number div 2 + 1 - i))") auto

declare prime_loop.simps [simp del]

definition prime :: "int \<Rightarrow> bool" where
  "prime number =
     (if number \<le> 1 then False
      else if number mod 2 = 0 then number = 2
      else prime_loop 2 number)"

text \<open>The other program: \<open>div\<close> is an \<^verbatim>\<open>int\<close> and its square is compared with a \<^verbatim>\<open>uint64_t\<close>.\<close>

partial_function (option) is_prime_loop :: "int \<Rightarrow> int \<Rightarrow> bool option" where
  "is_prime_loop dv num =
     (if to_i32 (dv * dv) mod 2 ^ 64 \<le> num
      then if num mod (dv mod 2 ^ 64) = 0 then Some False else is_prime_loop (to_i32 (dv + 1)) num
      else Some True)"

definition is_prime_number :: "int \<Rightarrow> bool option" where
  "is_prime_number num = (if num \<le> 1 then Some False else is_prime_loop 2 num)"

lemma prime_loop_iff: "2 \<le> i \<Longrightarrow> prime_loop i n \<longleftrightarrow> (\<forall>d. i \<le> d \<longrightarrow> d \<le> n div 2 \<longrightarrow> \<not> d dvd n)"
proof (induction i n rule: prime_loop.induct)
  case (1 i n)
  show ?case
  proof (cases "i \<le> n div 2 \<and> n mod i \<noteq> 0")
    case True
    then have "prime_loop i n = prime_loop (i + 1) n" by (subst prime_loop.simps) simp
    also have "\<dots> \<longleftrightarrow> (\<forall>d. i + 1 \<le> d \<longrightarrow> d \<le> n div 2 \<longrightarrow> \<not> d dvd n)" using 1 True by simp
    also have "\<dots> \<longleftrightarrow> (\<forall>d. i \<le> d \<longrightarrow> d \<le> n div 2 \<longrightarrow> \<not> d dvd n)"
      using True by (metis add1_zle_eq dvd_imp_mod_0 order_le_less)
    finally show ?thesis .
  next
    case False
    then show ?thesis by (subst prime_loop.simps) (auto simp: dvd_eq_mod_eq_0)
  qed
qed

lemma is_prime_int:
  assumes "2 \<le> n"
  shows "is_prime (nat n) \<longleftrightarrow> (\<forall>d. 2 \<le> d \<longrightarrow> d < n \<longrightarrow> \<not> d dvd n)"
proof
  assume p: "is_prime (nat n)"
  show "\<forall>d. 2 \<le> d \<longrightarrow> d < n \<longrightarrow> \<not> d dvd n"
  proof (intro allI impI notI)
    fix d assume d: "2 \<le> d" "d < n" "d dvd n"
    then have "nat d dvd nat n" using assms by (simp add: nat_dvd_iff)
    then have "nat d = 1 \<or> nat d = nat n" using p by (simp add: is_prime_def)
    then show False using d assms by auto
  qed
next
  assume a: "\<forall>d. 2 \<le> d \<longrightarrow> d < n \<longrightarrow> \<not> d dvd n"
  show "is_prime (nat n)" unfolding is_prime_def
  proof (intro conjI allI impI)
    show "2 \<le> nat n" using assms by simp
    fix d assume d: "d dvd nat n"
    then have le: "d \<le> nat n" using assms by (intro dvd_imp_le) auto
    have "d \<noteq> 0" using d assms by (intro notI) simp
    have "int d dvd n" using d assms by (metis int_dvd_int_iff int_nat_eq order_trans zero_le_numeral)
    then have "\<not> (2 \<le> int d \<and> int d < n)" using a by blast
    then show "d = 1 \<or> d = nat n" using le \<open>d \<noteq> 0\<close> by linarith
  qed
qed

lemma prime_correct: "prime n \<longleftrightarrow> 0 < n \<and> is_prime (nat n)"
proof (cases "2 \<le> n")
  case False
  then show ?thesis by (auto simp: prime_def is_prime_def)
next
  case True
  have half: "d dvd n \<Longrightarrow> d < n \<Longrightarrow> d \<le> n div 2" for d
  proof -
    assume d: "d dvd n" "d < n"
    then obtain k where k: "n = d * k" by (auto simp: dvd_def)
    show "d \<le> n div 2"
    proof (cases "0 < d")
      case True
      have "2 \<le> k"
      proof (rule ccontr)
        assume "\<not> 2 \<le> k"
        then have "d * k \<le> d * 1" using True by (intro mult_left_mono) simp_all
        then show False using k d(2) by simp
      qed
      then have "d * 2 \<le> n" using k True by simp
      then show ?thesis by linarith
    qed (use \<open>2 \<le> n\<close> in linarith)
  qed
  have "prime n \<longleftrightarrow> (\<forall>d. 2 \<le> d \<longrightarrow> d < n \<longrightarrow> \<not> d dvd n)"
  proof (cases "n mod 2 = 0")
    case even: True
    show ?thesis
    proof (cases "n = 2")
      case False
      then have "2 dvd n" "2 < n" using even True by (auto simp: dvd_eq_mod_eq_0)
      then show ?thesis using even False True by (auto simp: prime_def)
    qed (simp add: prime_def)
  next
    case odd: False
    have "prime n \<longleftrightarrow> (\<forall>d. 2 \<le> d \<longrightarrow> d \<le> n div 2 \<longrightarrow> \<not> d dvd n)"
      using odd True by (simp add: prime_def prime_loop_iff)
    also have "\<dots> \<longleftrightarrow> (\<forall>d. 2 \<le> d \<longrightarrow> d < n \<longrightarrow> \<not> d dvd n)"
    proof
      assume a: "\<forall>d. 2 \<le> d \<longrightarrow> d < n \<longrightarrow> \<not> d dvd n"
      show "\<forall>d. 2 \<le> d \<longrightarrow> d \<le> n div 2 \<longrightarrow> \<not> d dvd n" using a True by auto
    qed (use half in blast)
    finally show ?thesis .
  qed
  then show ?thesis using is_prime_int[OF True] True by simp
qed

lemma no_divisor_sqrt:
  assumes "\<forall>d. 2 \<le> d \<longrightarrow> d < dv \<longrightarrow> \<not> d dvd n" "n < dv * dv" "2 \<le> n" "0 < dv"
  shows "\<forall>d. 2 \<le> d \<longrightarrow> d < n \<longrightarrow> \<not> d dvd (n :: int)"
proof (intro allI impI notI)
  fix d assume d: "2 \<le> d" "d < n" "d dvd n"
  then obtain k where k: "n = d * k" by (auto simp: dvd_def)
  have "0 < k"
  proof (rule ccontr)
    assume "\<not> 0 < k"
    then have "d * k \<le> 0" using d(1) by (intro mult_nonneg_nonpos) auto
    then show False using k assms(3) by simp
  qed
  moreover have "k \<noteq> 1" using k d(2) by auto
  ultimately have k2: "2 \<le> k" by linarith
  show False
  proof (cases "d < dv")
    case True
    then show False using assms(1) d by blast
  next
    case False
    then have "k < dv"
    proof -
      have "\<not> dv \<le> k"
      proof
        assume "dv \<le> k"
        then have "dv * dv \<le> d * k" using False assms(4) by (intro mult_mono) auto
        then show False using assms(2) k by simp
      qed
      then show ?thesis by simp
    qed
    moreover have "k dvd n" using k by simp
    ultimately show False using assms(1) k2 by blast
  qed
qed

lemma i32_to_u64: "0 \<le> x \<Longrightarrow> x < 2 ^ 31 \<Longrightarrow> to_i32 x mod 2 ^ 64 = x"
  by (simp add: is_i32_def)

lemma is_prime_loop_ok:
  "2 \<le> dv \<Longrightarrow> dv \<le> 46341 \<Longrightarrow> 2 \<le> n \<Longrightarrow> n < 2 ^ 31 \<Longrightarrow> \<forall>d. 2 \<le> d \<longrightarrow> d < dv \<longrightarrow> \<not> d dvd n \<or> d = n \<Longrightarrow> dv \<le> n \<Longrightarrow>
   is_prime_loop dv n = Some (\<forall>d. 2 \<le> d \<longrightarrow> d < n \<longrightarrow> \<not> d dvd n)"
proof (induction "nat (46341 - dv)" arbitrary: dv rule: less_induct)
  case less
  have small: "\<forall>d. 2 \<le> d \<longrightarrow> d < dv \<longrightarrow> \<not> d dvd n" using less.prems(5,6) by auto
  show ?case
  proof (cases "dv * dv \<le> n")
    case False
    have "is_prime_loop dv n = Some True"
    proof (cases "dv = 46341")
      case True
      then show ?thesis using less.prems(4) by (subst is_prime_loop.simps) (simp add: to_i32_def)
    next
      case f: False
      then have "dv * dv \<le> 46340 * 46340" using less.prems(1,2) by (intro mult_mono) auto
      then have "to_i32 (dv * dv) mod 2 ^ 64 = dv * dv" by (intro i32_to_u64) simp_all
      then show ?thesis using False by (subst is_prime_loop.simps) simp
    qed
    then show ?thesis using no_divisor_sqrt[OF small] False less.prems(1,3) by simp
  next
    case True
    have lt: "dv < 46341"
    proof (rule ccontr)
      assume "\<not> dv < 46341"
      then have "dv = 46341" using less.prems(2) by simp
      then show False using True less.prems(4) by simp
    qed
    then have "dv * dv \<le> 46340 * 46340" using less.prems(1) by (intro mult_mono) auto
    then have sq: "to_i32 (dv * dv) mod 2 ^ 64 = dv * dv" by (intro i32_to_u64) simp_all
    have dn: "dv < n"
    proof -
      have "dv * 2 \<le> dv * dv" using less.prems(1) by (intro mult_left_mono) auto
      then show ?thesis using True less.prems(1) by linarith
    qed
    have md: "dv mod 2 ^ 64 = dv" "to_i32 (dv + 1) = dv + 1" using less.prems(1) lt by (simp_all add: is_i32_def)
    show ?thesis
    proof (cases "n mod dv = 0")
      case m: True
      then have "is_prime_loop dv n = Some False" using True sq md by (subst is_prime_loop.simps) simp
      moreover have "dv dvd n" using m by (simp add: dvd_eq_mod_eq_0)
      ultimately show ?thesis using dn less.prems(1) by auto
    next
      case m: False
      have "is_prime_loop dv n = is_prime_loop (dv + 1) n" using True sq md m by (subst is_prime_loop.simps) simp
      also have "\<dots> = Some (\<forall>d. 2 \<le> d \<longrightarrow> d < n \<longrightarrow> \<not> d dvd n)"
      proof (rule less.hyps)
        show "\<forall>d. 2 \<le> d \<longrightarrow> d < dv + 1 \<longrightarrow> \<not> d dvd n \<or> d = n"
          using small m by (metis dvd_imp_mod_0 order_le_less zle_add1_eq_le)
      qed (use less.prems lt dn in auto)
      finally show ?thesis .
    qed
  qed
qed

text \<open>Both tests agree with the mathematical one, the second for the numbers that the program reads.\<close>

lemma is_prime_number_eq: "0 \<le> n \<Longrightarrow> n < 2 ^ 31 \<Longrightarrow> is_prime_number n = Some (prime n)"
proof (cases "2 \<le> n")
  case False
  then show ?thesis by (auto simp: is_prime_number_def prime_def)
next
  case True
  assume "n < 2 ^ 31"
  then show ?thesis using is_prime_loop_ok[of 2 n] True is_prime_int[OF True] prime_correct[of n]
    by (simp add: is_prime_number_def)
qed

subsection \<open>file.c\<close>

datatype thread = Worker | Main

datatype worker_pc =
    WStart | WLoop | WUnlock | WSignal | WLock | WCheck | WWait | WEndUnlock | WEndSignal | WDone

datatype main_pc = MStart | MLoop | MSignal | MLock | MCheck | MWait | MEndUnlock | MEndSignal | MJoin | MDone

record handover =
  prime_number :: int
  owner :: "thread option"
  wpc :: worker_pc
  idx :: int
  finded :: int
  mpc :: main_pc
  readed :: int
  printed :: "int list"

text \<open>What \<^verbatim>\<open>pthread_cond_signal\<close> does to the thread that may be waiting.\<close>

definition signal_main :: "handover \<Rightarrow> handover" where
  "signal_main s = (if mpc s = MWait then s\<lparr>mpc := MLock\<rparr> else s)"

definition signal_worker :: "handover \<Rightarrow> handover" where
  "signal_worker s = (if wpc s = WWait then s\<lparr>wpc := WLock\<rparr> else s)"

definition find_primes_step :: "int \<Rightarrow> int \<Rightarrow> handover \<Rightarrow> handover option" where
  "find_primes_step B N s =
     (case wpc s of
        WStart \<Rightarrow> (if owner s = None then Some (s\<lparr>owner := Some Worker, wpc := WLoop\<rparr>) else None)
      | WLoop \<Rightarrow>
          (if idx s \<le> B then
             (if prime (idx s) then Some (s\<lparr>prime_number := idx s, wpc := WUnlock\<rparr>)
              else Some (s\<lparr>idx := idx s + 1\<rparr>))
           else Some (s\<lparr>prime_number := - 2, wpc := WEndUnlock\<rparr>))
      | WUnlock \<Rightarrow> Some (s\<lparr>owner := None, wpc := WSignal\<rparr>)
      | WSignal \<Rightarrow> Some ((signal_main s)\<lparr>wpc := WLock\<rparr>)
      | WLock \<Rightarrow> (if owner s = None then Some (s\<lparr>owner := Some Worker, wpc := WCheck\<rparr>) else None)
      | WCheck \<Rightarrow>
          (if prime_number s \<noteq> - 1 then Some (s\<lparr>owner := None, wpc := WWait\<rparr>)
           else let s = s\<lparr>finded := finded s + 1\<rparr> in
             if finded s = N then Some (s\<lparr>prime_number := - 2, wpc := WEndUnlock\<rparr>)
             else Some (s\<lparr>idx := idx s + 1, wpc := WLoop\<rparr>))
      | WWait \<Rightarrow> None
      | WEndUnlock \<Rightarrow> Some (s\<lparr>owner := None, wpc := WEndSignal\<rparr>)
      | WEndSignal \<Rightarrow> Some ((signal_main s)\<lparr>wpc := WDone\<rparr>)
      | WDone \<Rightarrow> None)"

definition main_step :: "int \<Rightarrow> handover \<Rightarrow> handover option" where
  "main_step N s =
     (case mpc s of
        MStart \<Rightarrow> (if owner s = None then Some (s\<lparr>owner := Some Main, mpc := MLoop\<rparr>) else None)
      | MLoop \<Rightarrow>
          (if readed s < N then Some (s\<lparr>owner := None, mpc := MSignal\<rparr>) else Some (s\<lparr>mpc := MEndUnlock\<rparr>))
      | MSignal \<Rightarrow> Some ((signal_worker s)\<lparr>mpc := MLock\<rparr>)
      | MLock \<Rightarrow> (if owner s = None then Some (s\<lparr>owner := Some Main, mpc := MCheck\<rparr>) else None)
      | MCheck \<Rightarrow>
          (if prime_number s = - 1 then Some (s\<lparr>owner := None, mpc := MWait\<rparr>)
           else if prime_number s = - 2 then Some (s\<lparr>mpc := MEndUnlock\<rparr>)
           else Some (s\<lparr>printed := printed s @ [prime_number s], readed := readed s + 1, prime_number := - 1, mpc := MLoop\<rparr>))
      | MWait \<Rightarrow> None
      | MEndUnlock \<Rightarrow> Some (s\<lparr>owner := None, mpc := MEndSignal\<rparr>)
      | MEndSignal \<Rightarrow> Some ((signal_worker s)\<lparr>mpc := MJoin\<rparr>)
      | MJoin \<Rightarrow> (if wpc s = WDone then Some (s\<lparr>mpc := MDone\<rparr>) else None)
      | MDone \<Rightarrow> None)"

definition start_state :: "int \<Rightarrow> handover" where
  "start_state A = \<lparr>prime_number = - 1, owner = None, wpc = WStart, idx = A, finded = 0, mpc = MStart, readed = 0, printed = []\<rparr>"

text \<open>A step of one of the threads, and a spurious wake-up.\<close>

inductive thread_step :: "int \<Rightarrow> int \<Rightarrow> handover \<Rightarrow> handover \<Rightarrow> bool" for B N where
  worker: "find_primes_step B N s = Some s' \<Longrightarrow> thread_step B N s s'"
| main: "main_step N s = Some s' \<Longrightarrow> thread_step B N s s'"

inductive handover_reach :: "int \<Rightarrow> int \<Rightarrow> int \<Rightarrow> handover \<Rightarrow> bool" for A B N where
  start: "handover_reach A B N (start_state A)"
| step: "handover_reach A B N s \<Longrightarrow> thread_step B N s s' \<Longrightarrow> handover_reach A B N s'"
| wake_worker: "handover_reach A B N s \<Longrightarrow> wpc s = WWait \<Longrightarrow> handover_reach A B N (s\<lparr>wpc := WLock\<rparr>)"
| wake_main: "handover_reach A B N s \<Longrightarrow> mpc s = MWait \<Longrightarrow> handover_reach A B N (s\<lparr>mpc := MLock\<rparr>)"

subsection \<open>The invariant of file.c\<close>

definition primes_in :: "int \<Rightarrow> int \<Rightarrow> int list" where
  "primes_in A B = filter prime [A..B]"

lemma primes_in_snoc: "A \<le> i \<Longrightarrow> primes_in A i = primes_in A (i - 1) @ (if prime i then [i] else [])"
  by (simp add: primes_in_def upto_rec2)

lemma primes_in_next: "A \<le> i \<Longrightarrow> primes_in A (i + 1 - 1) = primes_in A (i - 1) @ (if prime i then [i] else [])"
  using primes_in_snoc[of A i] by simp

lemma prime_ge: "prime i \<Longrightarrow> 2 \<le> i"
  by (auto simp: prime_correct is_prime_def)

text \<open>The worker looks for a prime, hands one over or has ended; the main thread begins, reads or has ended.\<close>

datatype phase = Seeking | Handing | Ended

fun wphase :: "worker_pc \<Rightarrow> phase" where
  "wphase WStart = Seeking" | "wphase WLoop = Seeking"
| "wphase WUnlock = Handing" | "wphase WSignal = Handing" | "wphase WLock = Handing"
| "wphase WCheck = Handing" | "wphase WWait = Handing"
| "wphase WEndUnlock = Ended" | "wphase WEndSignal = Ended" | "wphase WDone = Ended"

fun mphase :: "main_pc \<Rightarrow> phase" where
  "mphase MStart = Seeking" | "mphase MLoop = Seeking"
| "mphase MSignal = Handing" | "mphase MLock = Handing" | "mphase MCheck = Handing" | "mphase MWait = Handing"
| "mphase MEndUnlock = Ended" | "mphase MEndSignal = Ended" | "mphase MJoin = Ended" | "mphase MDone = Ended"

text \<open>What the worker has found and what is printed.\<close>

definition worker_inv :: "int \<Rightarrow> int \<Rightarrow> int \<Rightarrow> handover \<Rightarrow> bool" where
  "worker_inv A B N s \<longleftrightarrow> readed s = int (length (printed s)) \<and>
     (wphase (wpc s) = Seeking \<longrightarrow> A \<le> idx s \<and> (idx s \<le> B + 1 \<or> idx s = A) \<and>
        prime_number s = - 1 \<and> printed s = primes_in A (idx s - 1) \<and> finded s = int (length (primes_in A (idx s - 1)))) \<and>
     (wphase (wpc s) = Handing \<longrightarrow> A \<le> idx s \<and> idx s \<le> B \<and> prime (idx s) \<and>
        finded s = int (length (primes_in A (idx s - 1))) \<and>
        (prime_number s = idx s \<and> printed s = primes_in A (idx s - 1) \<or>
         wpc s \<noteq> WUnlock \<and> prime_number s = - 1 \<and> printed s = primes_in A (idx s - 1) @ [idx s])) \<and>
     (wphase (wpc s) = Ended \<longrightarrow> prime_number s = - 2 \<and> finded s = readed s \<and>
        (printed s = primes_in A B \<or>
         A \<le> idx s \<and> idx s \<le> B \<and> prime (idx s) \<and> finded s = N \<and> printed s = primes_in A (idx s))) \<and>
     (1 \<le> N \<and> wphase (wpc s) \<noteq> Ended \<longrightarrow> finded s < N)"

definition main_inv :: "int \<Rightarrow> handover \<Rightarrow> bool" where
  "main_inv N s \<longleftrightarrow>
     (mphase (mpc s) = Handing \<longrightarrow> readed s < N) \<and>
     (mphase (mpc s) = Ended \<longrightarrow> N \<le> readed s \<or> prime_number s = - 2) \<and>
     (mpc s = MDone \<longrightarrow> wpc s = WDone) \<and> (readed s = 0 \<or> readed s \<le> N) \<and> (mpc s = MStart \<longrightarrow> readed s = 0)"

text \<open>Who holds the mutex, and that a thread that waits will be woken.\<close>

definition worker_holds :: "worker_pc \<Rightarrow> bool" where
  "worker_holds p \<longleftrightarrow> p = WLoop \<or> p = WUnlock \<or> p = WCheck \<or> p = WEndUnlock"

definition main_holds :: "main_pc \<Rightarrow> bool" where
  "main_holds p \<longleftrightarrow> p = MLoop \<or> p = MCheck \<or> p = MEndUnlock"

definition lock_inv :: "handover \<Rightarrow> bool" where
  "lock_inv s \<longleftrightarrow>
     (owner s = Some Main \<longleftrightarrow> main_holds (mpc s)) \<and> (owner s = Some Worker \<longleftrightarrow> worker_holds (wpc s)) \<and>
     (mpc s = MWait \<longrightarrow> prime_number s = - 1 \<or> wpc s = WUnlock \<or> wpc s = WSignal \<or> wpc s = WEndUnlock \<or> wpc s = WEndSignal) \<and>
     (wpc s = WWait \<longrightarrow> prime_number s \<noteq> - 1 \<or> mpc s = MLoop \<or> mpc s = MSignal \<or> mpc s = MEndUnlock \<or> mpc s = MEndSignal)"

lemma start_inv: "worker_inv A B N (start_state A)" "main_inv N (start_state A)" "lock_inv (start_state A)"
  by (auto simp: worker_inv_def main_inv_def lock_inv_def start_state_def primes_in_def main_holds_def worker_holds_def)

lemma worker_keeps_loop:
  assumes "find_primes_step B N s = Some s'" "worker_inv A B N s" "wpc s = WLoop"
  shows "worker_inv A B N s'"
proof -
  have i: "A \<le> idx s" "idx s \<le> B + 1 \<or> idx s = A" "prime_number s = - 1" "printed s = primes_in A (idx s - 1)"
    "finded s = int (length (primes_in A (idx s - 1)))" "readed s = int (length (printed s))" "1 \<le> N \<longrightarrow> finded s < N"
    using assms(2,3) unfolding worker_inv_def by auto
  consider (found) "idx s \<le> B" "prime (idx s)" | (composite) "idx s \<le> B" "\<not> prime (idx s)" | (ends) "B < idx s" by linarith
  then show ?thesis
  proof cases
    case found
    then have "s' = s\<lparr>prime_number := idx s, wpc := WUnlock\<rparr>" using assms(1,3) by (simp add: find_primes_step_def)
    then show ?thesis using i found by (simp add: worker_inv_def)
  next
    case composite
    then have "s' = s\<lparr>idx := idx s + 1\<rparr>" using assms(1,3) by (simp add: find_primes_step_def)
    then show ?thesis using i composite primes_in_snoc[OF i(1)] assms(3) by (simp add: worker_inv_def)
  next
    case ends
    have "primes_in A (idx s - 1) = primes_in A B"
      using i(1,2) ends by (cases "idx s = B + 1") (auto simp: primes_in_def)
    moreover have "s' = s\<lparr>prime_number := - 2, wpc := WEndUnlock\<rparr>" using ends assms(1,3) by (simp add: find_primes_step_def)
    ultimately show ?thesis using i by (simp add: worker_inv_def)
  qed
qed

lemma worker_keeps_check:
  assumes "find_primes_step B N s = Some s'" "worker_inv A B N s" "wpc s = WCheck"
  shows "worker_inv A B N s'"
proof -
  have i: "A \<le> idx s" "idx s \<le> B" "prime (idx s)" "finded s = int (length (primes_in A (idx s - 1)))"
    "prime_number s = idx s \<and> printed s = primes_in A (idx s - 1) \<or> prime_number s = - 1 \<and> printed s = primes_in A (idx s - 1) @ [idx s]"
    "readed s = int (length (printed s))" "1 \<le> N \<longrightarrow> finded s < N"
    using assms(2,3) unfolding worker_inv_def by auto
  note p = primes_in_snoc[OF i(1)] prime_ge[OF i(3)]
  show ?thesis
  proof (cases "prime_number s = - 1")
    case False
    then have "s' = s\<lparr>owner := None, wpc := WWait\<rparr>" using assms(1,3) by (simp add: find_primes_step_def)
    then show ?thesis using i by (simp add: worker_inv_def)
  next
    case True
    then have pr: "printed s = primes_in A (idx s)" using i(3,5) p by simp
    show ?thesis
    proof (cases "finded s + 1 = N")
      case e: True
      then have "s' = s\<lparr>finded := finded s + 1, prime_number := - 2, wpc := WEndUnlock\<rparr>"
        using True assms(1,3) by (simp add: find_primes_step_def Let_def)
      then show ?thesis using i(1-4,6) pr p e by (simp add: worker_inv_def)
    next
      case False
      then have "s' = s\<lparr>finded := finded s + 1, idx := idx s + 1, wpc := WLoop\<rparr>"
        using True assms(1,3) by (simp add: find_primes_step_def Let_def)
      then show ?thesis using i(1-4,6,7) pr p True False by (auto simp: worker_inv_def)
    qed
  qed
qed

lemma worker_keeps:
  assumes "find_primes_step B N s = Some s'" "worker_inv A B N s"
  shows "worker_inv A B N s'"
proof (cases "wpc s")
  case WLoop
  then show ?thesis using worker_keeps_loop[OF assms] by blast
next
  case WCheck
  then show ?thesis using worker_keeps_check[OF assms] by blast
next
  case WStart
  then have "s' = s\<lparr>owner := Some Worker, wpc := WLoop\<rparr>" using assms(1) by (simp add: find_primes_step_def split: if_splits)
  then show ?thesis using WStart assms(2) by (auto simp: worker_inv_def)
next
  case WUnlock
  then have "s' = s\<lparr>owner := None, wpc := WSignal\<rparr>" using assms(1) by (simp add: find_primes_step_def)
  then show ?thesis using WUnlock assms(2) by (auto simp: worker_inv_def)
next
  case WSignal
  then have "s' = (signal_main s)\<lparr>wpc := WLock\<rparr>" using assms(1) by (simp add: find_primes_step_def)
  then show ?thesis using WSignal assms(2) by (auto simp: worker_inv_def signal_main_def)
next
  case WLock
  then have "s' = s\<lparr>owner := Some Worker, wpc := WCheck\<rparr>" using assms(1) by (simp add: find_primes_step_def split: if_splits)
  then show ?thesis using WLock assms(2) by (auto simp: worker_inv_def)
next
  case WEndUnlock
  then have "s' = s\<lparr>owner := None, wpc := WEndSignal\<rparr>" using assms(1) by (simp add: find_primes_step_def)
  then show ?thesis using WEndUnlock assms(2) by (auto simp: worker_inv_def)
next
  case WEndSignal
  then have "s' = (signal_main s)\<lparr>wpc := WDone\<rparr>" using assms(1) by (simp add: find_primes_step_def)
  then show ?thesis using WEndSignal assms(2) by (auto simp: worker_inv_def signal_main_def)
qed (use assms(1) in \<open>simp_all add: find_primes_step_def\<close>)

text \<open>Steps of the main thread do not touch what the worker knows, except for taking the number.\<close>

lemma worker_inv_main_fields [simp]:
  "worker_inv A B N (s\<lparr>mpc := y\<rparr>) = worker_inv A B N s"
  "worker_inv A B N (s\<lparr>owner := x\<rparr>) = worker_inv A B N s"
  "worker_inv A B N (s\<lparr>owner := x, mpc := y\<rparr>) = worker_inv A B N s"
  by (simp_all add: worker_inv_def)

lemma worker_inv_signal: "worker_inv A B N s \<Longrightarrow> worker_inv A B N (signal_worker s)"
proof (cases "wpc s = WWait")
  case True
  then show "worker_inv A B N s \<Longrightarrow> ?thesis" by (auto simp: worker_inv_def signal_worker_def)
qed (simp add: signal_worker_def)

lemma worker_inv_handing:
  "worker_inv A B N s \<Longrightarrow> wphase (wpc s) = Handing \<Longrightarrow>
     A \<le> idx s \<and> idx s \<le> B \<and> prime (idx s) \<and> finded s = int (length (primes_in A (idx s - 1))) \<and>
     (prime_number s = idx s \<and> printed s = primes_in A (idx s - 1) \<or>
      prime_number s = - 1 \<and> printed s = primes_in A (idx s - 1) @ [idx s]) \<and>
     readed s = int (length (printed s)) \<and> (1 \<le> N \<longrightarrow> finded s < N)"
  unfolding worker_inv_def by auto

lemma worker_inv_taken:
  "wphase (wpc s) = Handing \<Longrightarrow> wpc s \<noteq> WUnlock \<Longrightarrow> A \<le> idx s \<Longrightarrow> idx s \<le> B \<Longrightarrow> prime (idx s) \<Longrightarrow>
   finded s = int (length (primes_in A (idx s - 1))) \<Longrightarrow> prime_number s = - 1 \<Longrightarrow>
   printed s = primes_in A (idx s - 1) @ [idx s] \<Longrightarrow> readed s = int (length (printed s)) \<Longrightarrow> (1 \<le> N \<longrightarrow> finded s < N) \<Longrightarrow>
   worker_inv A B N s"
  unfolding worker_inv_def by simp

lemma main_keeps_worker:
  assumes "main_step N s = Some s'" "worker_inv A B N s" "lock_inv s"
  shows "worker_inv A B N s'"
proof (cases "mpc s = MCheck \<and> prime_number s \<noteq> - 1 \<and> prime_number s \<noteq> - 2")
  case False
  note w = assms(2) worker_inv_signal[OF assms(2)]
  have "s' \<in> {s\<lparr>owner := Some Main, mpc := MLoop\<rparr>, s\<lparr>owner := None, mpc := MSignal\<rparr>, s\<lparr>mpc := MEndUnlock\<rparr>,
      (signal_worker s)\<lparr>mpc := MLock\<rparr>, s\<lparr>owner := Some Main, mpc := MCheck\<rparr>, s\<lparr>owner := None, mpc := MWait\<rparr>,
      s\<lparr>owner := None, mpc := MEndSignal\<rparr>, (signal_worker s)\<lparr>mpc := MJoin\<rparr>, s\<lparr>mpc := MDone\<rparr>}"
    using assms(1) False by (cases "mpc s") (simp_all add: main_step_def split: if_splits)
  then show ?thesis using w by (elim insertE emptyE) simp_all
next
  case True
  then have s': "s' = s\<lparr>printed := printed s @ [prime_number s], readed := readed s + 1, prime_number := - 1, mpc := MLoop\<rparr>"
    using assms(1) by (simp add: main_step_def)
  have o: "wpc s \<noteq> WUnlock" using assms(3) True by (auto simp: lock_inv_def main_holds_def worker_holds_def)
  have n: "prime_number s \<noteq> - 1" "prime_number s \<noteq> - 2" using True by simp_all
  have w: "wphase (wpc s) = Handing"
    using assms(2) n by (cases "wphase (wpc s)") (simp_all add: worker_inv_def)
  have f: "A \<le> idx s" "idx s \<le> B" "prime (idx s)" "finded s = int (length (primes_in A (idx s - 1)))"
    "prime_number s = idx s" "printed s = primes_in A (idx s - 1)" "readed s = int (length (printed s))" "1 \<le> N \<longrightarrow> finded s < N"
    using worker_inv_handing[OF assms(2) w] n by auto
  show ?thesis unfolding s' using w f o by (intro worker_inv_taken) simp_all
qed

lemma main_inv_keep:
  "main_inv N s \<Longrightarrow> mphase (mpc s') = mphase (mpc s) \<Longrightarrow> mpc s' = MDone \<longleftrightarrow> mpc s = MDone \<Longrightarrow> mpc s' = MStart \<longrightarrow> mpc s = MStart \<Longrightarrow>
   readed s' = readed s \<Longrightarrow> prime_number s \<noteq> - 2 \<or> prime_number s' = - 2 \<Longrightarrow> wpc s \<noteq> WDone \<Longrightarrow> main_inv N s'"
  unfolding main_inv_def by auto

lemma worker_keeps_main:
  assumes "find_primes_step B N s = Some s'" "worker_inv A B N s" "main_inv N s"
  shows "main_inv N s'"
proof (rule main_inv_keep[OF assms(3)])
  show "wpc s \<noteq> WDone" using assms(1) by (auto simp: find_primes_step_def)
  have "(mpc s' = mpc s \<or> mpc s = MWait \<and> mpc s' = MLock) \<and> readed s' = readed s"
    using assms(1) by (cases "wpc s"; auto simp: find_primes_step_def signal_main_def Let_def split: if_splits)
  then show "mphase (mpc s') = mphase (mpc s)" "mpc s' = MDone \<longleftrightarrow> mpc s = MDone" "mpc s' = MStart \<longrightarrow> mpc s = MStart"
    "readed s' = readed s" by auto
  show "prime_number s \<noteq> - 2 \<or> prime_number s' = - 2"
  proof (cases "wphase (wpc s) = Ended")
    case False
    then have "prime_number s = - 1 \<or> prime_number s = idx s \<and> prime (idx s)"
      using assms(2) by (cases "wphase (wpc s)") (auto simp: worker_inv_def)
    then show ?thesis using prime_ge[of "idx s"] by auto
  next
    case True
    then have "prime_number s' = prime_number s"
      using assms(1) by (cases "wpc s") (auto simp: find_primes_step_def signal_main_def)
    then show ?thesis by simp
  qed
qed

lemma main_keeps_main: "main_step N s = Some s' \<Longrightarrow> main_inv N s \<Longrightarrow> main_inv N s'"
  by (cases "mpc s") (auto simp: main_inv_def main_step_def signal_worker_def split: if_splits)

lemma worker_keeps_lock:
  assumes "find_primes_step B N s = Some s'" "worker_inv A B N s" "lock_inv s"
  shows "lock_inv s'"
proof -
  show ?thesis
  proof (cases "wpc s")
    case WLoop
    then show ?thesis using assms(1,3) prime_ge[of "idx s"]
      by (auto simp: find_primes_step_def lock_inv_def worker_holds_def main_holds_def split: if_splits)
  next
    case WCheck
    then show ?thesis using assms(1,3)
      by (auto simp: find_primes_step_def lock_inv_def worker_holds_def main_holds_def Let_def split: if_splits)
  qed (use assms(1,3) in \<open>auto simp: find_primes_step_def signal_main_def lock_inv_def worker_holds_def main_holds_def split: if_splits\<close>)
qed

lemma main_keeps_lock:
  assumes "main_step N s = Some s'" "lock_inv s"
  shows "lock_inv s'"
  using assms
  by (cases "mpc s") (auto simp: main_step_def signal_worker_def lock_inv_def worker_holds_def main_holds_def split: if_splits)

lemma handover_inv:
  "handover_reach A B N s \<Longrightarrow> worker_inv A B N s \<and> main_inv N s \<and> lock_inv s"
proof (induction rule: handover_reach.induct)
  case start
  then show ?case using start_inv by blast
next
  case (step s s')
  from step.hyps(2) show ?case
  proof cases
    case worker
    then show ?thesis using step.IH worker_keeps worker_keeps_main worker_keeps_lock by blast
  next
    case main
    then show ?thesis using step.IH main_keeps_worker main_keeps_main main_keeps_lock by blast
  qed
next
  case (wake_worker s)
  then have "worker_inv A B N (s\<lparr>wpc := WLock\<rparr>)" using worker_inv_signal[of A B N s] by (simp add: signal_worker_def)
  moreover have "main_inv N (s\<lparr>wpc := WLock\<rparr>)" "lock_inv (s\<lparr>wpc := WLock\<rparr>)"
    using wake_worker by (auto simp: main_inv_def lock_inv_def worker_holds_def)
  ultimately show ?case by blast
next
  case (wake_main s)
  then have "worker_inv A B N (s\<lparr>mpc := MLock\<rparr>)" by simp
  moreover have "main_inv N (s\<lparr>mpc := MLock\<rparr>)" "lock_inv (s\<lparr>mpc := MLock\<rparr>)"
    using wake_main by (auto simp: main_inv_def lock_inv_def main_holds_def)
  ultimately show ?case by blast
qed

definition handover_ended :: "handover \<Rightarrow> bool" where
  "handover_ended s \<longleftrightarrow> wpc s = WDone \<and> mpc s = MDone"

lemma primes_in_split: "A \<le> i \<Longrightarrow> i \<le> B + 1 \<Longrightarrow> primes_in A B = primes_in A (i - 1) @ primes_in i B"
  using upto_split1[of A i B] by (cases "i = B + 1") (auto simp: primes_in_def)

lemma handing_printed:
  assumes "worker_inv A B N s" "wphase (wpc s) = Handing"
  shows "printed s = primes_in A (idx s - 1) \<or> printed s = primes_in A (idx s - 1) @ [idx s]"
  using worker_inv_handing[OF assms] by blast

lemma handing_readed:
  assumes "worker_inv A B N s" "wphase (wpc s) = Handing" "prime_number s \<noteq> - 1"
  shows "readed s = finded s"
proof -
  have "printed s = primes_in A (idx s - 1)" using worker_inv_handing[OF assms(1,2)] assms(3) by blast
  then show ?thesis using worker_inv_handing[OF assms(1,2)] by presburger
qed

lemma handing_number:
  assumes "worker_inv A B N s" "wphase (wpc s) = Handing"
  shows "A \<le> idx s" "idx s \<le> B" "prime (idx s)" "prime_number s = idx s \<or> prime_number s = - 1"
  using worker_inv_handing[OF assms] by blast+

lemma printed_prefix:
  assumes "worker_inv A B N s"
  shows "\<exists>r. primes_in A B = printed s @ r"
proof (cases "wphase (wpc s)")
  case Seeking
  then have f: "A \<le> idx s" "idx s \<le> B + 1 \<or> idx s = A" "printed s = primes_in A (idx s - 1)" using assms by (auto simp: worker_inv_def)
  show ?thesis
  proof (cases "idx s = A")
    case False
    then show ?thesis using primes_in_split[OF f(1), of B] f(2,3) by auto
  qed (simp add: f(3) primes_in_def)
next
  case Handing
  note f = handing_number[OF assms Handing] and p = handing_printed[OF assms Handing]
  have "primes_in A B = primes_in A (idx s - 1) @ primes_in (idx s) B" using primes_in_split[OF f(1), of B] f(2) by linarith
  moreover have "primes_in A B = (primes_in A (idx s - 1) @ [idx s]) @ primes_in (idx s + 1) B"
    using primes_in_split[of A "idx s + 1" B] primes_in_snoc[OF f(1)] f(1,2,3) by simp
  ultimately show ?thesis using p by metis
next
  case Ended
  then have "printed s = primes_in A B \<or> A \<le> idx s \<and> idx s \<le> B \<and> printed s = primes_in A (idx s)"
    using assms unfolding worker_inv_def by force
  then consider "printed s = primes_in A B" | "A \<le> idx s" "idx s \<le> B" "printed s = primes_in A (idx s)" by blast
  then show ?thesis
  proof cases
    case 2
    then show ?thesis using primes_in_split[of A "idx s + 1" B] by simp
  qed simp
qed

text \<open>
  In every interleaving, spurious wake-ups included, the first program has at any time printed the first of the primes
  from \<open>A\<close> to \<open>B\<close> in order, never more than \<open>N\<close>, and when both threads have ended exactly the first \<open>N\<close> or all of
  them.  With \<open>N\<close> not positive and a prime in the range the threads never end.
\<close>

lemma handover_prints_primes:
  assumes "handover_reach A B N s"
  shows "printed s = take (length (printed s)) (primes_in A B) \<and> length (printed s) \<le> nat N \<and>
    (handover_ended s \<longrightarrow> printed s = take (nat N) (primes_in A B) \<and> (1 \<le> N \<or> primes_in A B = []))"
proof -
  have inv: "worker_inv A B N s" "main_inv N s" using handover_inv[OF assms] by auto
  have r: "readed s = int (length (printed s))" using inv(1) by (simp add: worker_inv_def)
  then have len: "length (printed s) \<le> nat N" using inv(2) by (auto simp: main_inv_def)
  obtain rs where rs: "primes_in A B = printed s @ rs" using printed_prefix[OF inv(1)] by blast
  have "printed s = take (nat N) (primes_in A B) \<and> (1 \<le> N \<or> primes_in A B = [])" if e: "handover_ended s"
  proof -
    have "printed s = primes_in A B \<or> prime (idx s) \<and> A \<le> idx s \<and> readed s = N \<and> printed s = primes_in A (idx s)"
      using inv(1) e unfolding worker_inv_def handover_ended_def by auto
    then show ?thesis
    proof
      assume "printed s = primes_in A B"
      then show ?thesis using len by (cases "1 \<le> N") auto
    next
      assume a: "prime (idx s) \<and> A \<le> idx s \<and> readed s = N \<and> printed s = primes_in A (idx s)"
      then have "0 < length (printed s)" using primes_in_snoc[of A "idx s"] by simp
      moreover have "length (printed s) = nat N" using a r by (metis nat_int)
      ultimately show ?thesis using rs by auto
    qed
  qed
  then show ?thesis using len rs by simp
qed

lemma handover_prints_primes_witness:
  "printed (start_state 1) = take (length (printed (start_state 1))) (primes_in 1 10) \<and> length (printed (start_state 1)) \<le> nat 2"
  using handover_prints_primes[OF handover_reach.start[of 1 10 2]] by blast

subsection \<open>file.c ends\<close>

fun wrank :: "worker_pc \<Rightarrow> nat" where
  "wrank WStart = 9" | "wrank WLoop = 8" | "wrank WUnlock = 7" | "wrank WSignal = 6" | "wrank WLock = 2"
| "wrank WCheck = 1" | "wrank WWait = 0" | "wrank WEndUnlock = 4" | "wrank WEndSignal = 3" | "wrank WDone = 0"

fun mrank :: "main_pc \<Rightarrow> nat" where
  "mrank MStart = 14" | "mrank MLoop = 13" | "mrank MSignal = 12" | "mrank MLock = 8" | "mrank MCheck = 7"
| "mrank MWait = 6" | "mrank MEndUnlock = 5" | "mrank MEndSignal = 4" | "mrank MJoin = 1" | "mrank MDone = 0"

definition stage :: "handover \<Rightarrow> nat" where
  "stage s = (case wphase (wpc s) of Seeking \<Rightarrow> 3 | Handing \<Rightarrow> (if prime_number s = - 1 then 1 else 2) | Ended \<Rightarrow> 0)"

definition handover_rank :: "int \<Rightarrow> handover \<Rightarrow> nat" where
  "handover_rank B s = 100 * (4 * nat (B + 1 - idx s) + stage s) + wrank (wpc s) + mrank (mpc s)"

lemma worker_rank:
  assumes "find_primes_step B N s = Some s'" "worker_inv A B N s"
  shows "handover_rank B s' < handover_rank B s"
proof (cases "wpc s")
  case WLoop
  then have "prime_number s = - 1" using assms(2) by (simp add: worker_inv_def)
  then show ?thesis using WLoop assms(1)
    by (auto simp: find_primes_step_def handover_rank_def stage_def nat_diff_distrib split: if_splits)
next
  case WCheck
  then have "idx s \<le> B" using assms(2) by (simp add: worker_inv_def)
  then show ?thesis using WCheck assms(1)
    by (auto simp: find_primes_step_def handover_rank_def stage_def Let_def split: if_splits)
qed (use assms(1) in \<open>auto simp: find_primes_step_def handover_rank_def stage_def signal_main_def split: if_splits\<close>)

lemma main_rank:
  assumes "main_step N s = Some s'" "worker_inv A B N s"
  shows "handover_rank B s' < handover_rank B s"
proof (cases "mpc s")
  case MCheck
  have "prime_number s \<noteq> - 1 \<Longrightarrow> prime_number s \<noteq> - 2 \<Longrightarrow> wphase (wpc s) = Handing"
    using assms(2) by (cases "wphase (wpc s)") (auto simp: worker_inv_def)
  then show ?thesis using MCheck assms(1)
    by (auto simp: main_step_def handover_rank_def stage_def split: if_splits)
qed (use assms(1) in \<open>auto simp: main_step_def handover_rank_def stage_def signal_worker_def split: if_splits phase.splits\<close>)

text \<open>No state in which both threads wait is reachable.\<close>

lemma handover_not_stuck:
  assumes inv: "worker_inv A B N s" "main_inv N s" "lock_inv s" and n: "1 \<le> N" and e: "\<not> handover_ended s"
  shows "find_primes_step B N s \<noteq> None \<or> main_step N s \<noteq> None"
proof (rule ccontr)
  assume "\<not> (find_primes_step B N s \<noteq> None \<or> main_step N s \<noteq> None)"
  then have blocked: "find_primes_step B N s = None" "main_step N s = None" by simp_all
  have nw: "\<not> worker_holds (wpc s)" using blocked(1)
    by (auto simp: worker_holds_def find_primes_step_def Let_def split: if_splits)
  have nm: "\<not> main_holds (mpc s)" using blocked(2) by (auto simp: main_holds_def main_step_def split: if_splits)
  have "owner s = None"
  proof (cases "owner s")
    case (Some t)
    then show ?thesis using nw nm inv(3) by (cases t) (auto simp: lock_inv_def)
  qed simp
  then have w: "wpc s = WWait \<or> wpc s = WDone" and m: "mpc s = MWait \<or> mpc s = MJoin \<and> wpc s \<noteq> WDone \<or> mpc s = MDone"
    using blocked by (cases "wpc s"; auto simp: find_primes_step_def main_step_def Let_def split: main_pc.splits if_splits)+
  show False
  proof (cases "wpc s = WDone")
    case True
    then have "mpc s = MWait" using m e by (auto simp: handover_ended_def)
    then show False using True inv(1,3) by (auto simp: lock_inv_def worker_inv_def)
  next
    case False
    then have ww: "wpc s = WWait" using w by simp
    then have h: "wphase (wpc s) = Handing" by simp
    have f: "prime (idx s)" "finded s < N" using worker_inv_handing[OF inv(1) h] n by blast+
    show False
    proof (cases "mpc s = MWait")
      case True
      then show False using ww inv(3) by (auto simp: lock_inv_def)
    next
      case False
      then have mj: "mpc s = MJoin" using m ww inv(2) by (auto simp: main_inv_def)
      then have pn: "prime_number s \<noteq> - 1" using ww inv(3) by (auto simp: lock_inv_def)
      then have "prime_number s \<noteq> - 2" using handing_number(4)[OF inv(1) h] prime_ge[OF f(1)] by linarith
      then have "readed s < N \<and> prime_number s \<noteq> - 2" using f(2) handing_readed[OF inv(1) h pn] by simp
      then show False using mj inv(2) by (simp add: main_inv_def)
    qed
  qed
qed

text \<open>
  If at least one prime is asked for, no reachable state of the first program is a deadlock: until both threads have
  ended one of them can take a step, without any spurious wake-up, and every step of a thread decreases a rank, so the program ends.
\<close>

lemma handover_ends:
  assumes "handover_reach A B N s" "1 \<le> N" "\<not> handover_ended s"
  shows "(\<exists>s'. thread_step B N s s') \<and> (\<forall>s'. thread_step B N s s' \<longrightarrow> handover_rank B s' < handover_rank B s)"
proof -
  have inv: "worker_inv A B N s" "main_inv N s" "lock_inv s" using handover_inv[OF assms(1)] by auto
  have "find_primes_step B N s \<noteq> None \<or> main_step N s \<noteq> None"
    using handover_not_stuck[OF inv assms(2,3)] .
  then have "\<exists>s'. thread_step B N s s'" by (auto intro: thread_step.intros)
  moreover have "\<forall>s'. thread_step B N s s' \<longrightarrow> handover_rank B s' < handover_rank B s"
    using worker_rank[OF _ inv(1)] main_rank[OF _ inv(1)] by (auto elim: thread_step.cases)
  ultimately show ?thesis by blast
qed

lemma handover_ends_witness: "\<exists>s'. thread_step 10 2 (start_state 1) s'"
  using handover_ends[OF handover_reach.start[of 1 10 2]] by (simp add: handover_ended_def start_state_def)

text \<open>
  C16: In every interleaving, spurious wake-ups included, the first program has at any time printed the first of the primes
  from \<open>A\<close> to \<open>B\<close> in order, never more than \<open>N\<close>, and when both threads have ended exactly the first \<open>N\<close> or all of
  them.  If at least one prime is asked for it ends: until then one of the threads can take a step without any
  wake-up, and every step of a thread decreases a rank.  With \<open>N\<close> not positive and a prime in the range it never ends.
\<close>

theorem handover_correct:
  assumes "handover_reach A B N s"
  shows "printed s = take (length (printed s)) (primes_in A B) \<and> length (printed s) \<le> nat N
    \<and> (handover_ended s \<longrightarrow> printed s = take (nat N) (primes_in A B) \<and> (1 \<le> N \<or> primes_in A B = []))
    \<and> (1 \<le> N \<and> \<not> handover_ended s \<longrightarrow>
        (\<exists>s'. thread_step B N s s') \<and> (\<forall>s'. thread_step B N s s' \<longrightarrow> handover_rank B s' < handover_rank B s))"
  using handover_prints_primes[OF assms] handover_ends[OF assms] by blast

theorem handover_correct_witness: "\<exists>s'. thread_step 10 2 (start_state 1) s'"
  using handover_correct[OF handover_reach.start[of 1 10 2]] by (simp add: handover_ended_def start_state_def)

end
