(* ===== verification/PrimesGenerator.thy ===== *)
theory PrimesGenerator
  imports PrimesCondvar
begin

section \<open>threads_condvar: the program that keeps its mutex\<close>

text \<open>
  \<^verbatim>\<open>inf19-1_posix_threads_condvar/main.c\<close>, the other solution of the task of PrimesCondvar.  The generator
  thread gives up the mutex only while it waits, and returns without unlocking it.  One step runs a thread from one call of
  the pthread library to the next one.  The theorems say what is printed, for which arguments the program ends and for
  which it hangs.
\<close>

subsection \<open>The threads\<close>

datatype generator_pc = GLock | GLoop | GSignal | GTest | GWait | GRelock | GReturned

datatype consumer_pc = CLock | CLoop | CTest | CWait | CRelock | CSignal | CUnlock | CJoin | CDone

record generator =
  num :: int
  finished :: bool
  mutex :: "thread option"
  gpc :: generator_pc
  index :: int
  found_numbers_count :: int
  cpc :: consumer_pc
  iteration :: int
  shown :: "int list"

text \<open>The field \<open>finished\<close> is \<^verbatim>\<open>done\<close>: a number is ready.  \<^verbatim>\<open>pthread_cond_signal\<close> reaches the other thread if it waits.\<close>

definition wake_consumer :: "generator \<Rightarrow> generator" where
  "wake_consumer s = (if cpc s = CWait then s\<lparr>cpc := CRelock\<rparr> else s)"

definition wake_generator :: "generator \<Rightarrow> generator" where
  "wake_generator s = (if gpc s = GWait then s\<lparr>gpc := GRelock\<rparr> else s)"

definition routine_step :: "int \<Rightarrow> int \<Rightarrow> generator \<Rightarrow> generator option" where
  "routine_step B N s =
     (case gpc s of
        GLock \<Rightarrow> (if mutex s = None then Some (s\<lparr>mutex := Some Worker, gpc := GLoop\<rparr>) else None)
      | GLoop \<Rightarrow>
          (if index s \<le> B then
             (case is_prime_number (index s) of
                None \<Rightarrow> None
              | Some True \<Rightarrow> Some (s\<lparr>num := index s, finished := True, gpc := GSignal\<rparr>)
              | Some False \<Rightarrow> Some (s\<lparr>index := (index s + 1) mod 2 ^ 64\<rparr>))
           else Some (s\<lparr>gpc := GReturned\<rparr>))
      | GSignal \<Rightarrow> Some ((wake_consumer s)\<lparr>gpc := GTest\<rparr>)
      | GTest \<Rightarrow>
          (if finished s then Some (s\<lparr>mutex := None, gpc := GWait\<rparr>)
           else let s = s\<lparr>found_numbers_count := found_numbers_count s + 1\<rparr> in
             if N = found_numbers_count s then Some (s\<lparr>gpc := GReturned\<rparr>)
             else Some (s\<lparr>index := (index s + 1) mod 2 ^ 64, gpc := GLoop\<rparr>))
      | GWait \<Rightarrow> None
      | GRelock \<Rightarrow> (if mutex s = None then Some (s\<lparr>mutex := Some Worker, gpc := GTest\<rparr>) else None)
      | GReturned \<Rightarrow> None)"

definition consumer_step :: "int \<Rightarrow> generator \<Rightarrow> generator option" where
  "consumer_step N s =
     (case cpc s of
        CLock \<Rightarrow> (if mutex s = None then Some (s\<lparr>mutex := Some Main, cpc := CLoop\<rparr>) else None)
      | CLoop \<Rightarrow> (if iteration s < N then Some (s\<lparr>cpc := CTest\<rparr>) else Some (s\<lparr>cpc := CUnlock\<rparr>))
      | CTest \<Rightarrow>
          (if \<not> finished s then Some (s\<lparr>mutex := None, cpc := CWait\<rparr>)
           else Some (s\<lparr>shown := shown s @ [num s], finished := False, cpc := CSignal\<rparr>))
      | CWait \<Rightarrow> None
      | CRelock \<Rightarrow> (if mutex s = None then Some (s\<lparr>mutex := Some Main, cpc := CTest\<rparr>) else None)
      | CSignal \<Rightarrow> Some ((wake_generator s)\<lparr>iteration := iteration s + 1, cpc := CLoop\<rparr>)
      | CUnlock \<Rightarrow> Some (s\<lparr>mutex := None, cpc := CJoin\<rparr>)
      | CJoin \<Rightarrow> (if gpc s = GReturned then Some (s\<lparr>cpc := CDone\<rparr>) else None)
      | CDone \<Rightarrow> None)"

definition generator_start :: "int \<Rightarrow> generator" where
  "generator_start A =
     \<lparr>num = 0, finished = False, mutex = None, gpc = GLock, index = A, found_numbers_count = 0,
      cpc = CLock, iteration = 0, shown = []\<rparr>"

inductive generator_step :: "int \<Rightarrow> int \<Rightarrow> generator \<Rightarrow> generator \<Rightarrow> bool" for B N where
  routine: "routine_step B N s = Some s' \<Longrightarrow> generator_step B N s s'"
| consumer: "consumer_step N s = Some s' \<Longrightarrow> generator_step B N s s'"

inductive generator_reach :: "int \<Rightarrow> int \<Rightarrow> int \<Rightarrow> generator \<Rightarrow> bool" for A B N where
  start: "generator_reach A B N (generator_start A)"
| step: "generator_reach A B N s \<Longrightarrow> generator_step B N s s' \<Longrightarrow> generator_reach A B N s'"
| wake_generator: "generator_reach A B N s \<Longrightarrow> gpc s = GWait \<Longrightarrow> generator_reach A B N (s\<lparr>gpc := GRelock\<rparr>)"
| wake_consumer: "generator_reach A B N s \<Longrightarrow> cpc s = CWait \<Longrightarrow> generator_reach A B N (s\<lparr>cpc := CRelock\<rparr>)"

inductive_simps generator_step_iff: "generator_step B N s s'"

subsection \<open>The invariant\<close>

fun gphase :: "generator_pc \<Rightarrow> phase" where
  "gphase GLock = Seeking" | "gphase GLoop = Seeking"
| "gphase GSignal = Handing" | "gphase GTest = Handing" | "gphase GWait = Handing" | "gphase GRelock = Handing"
| "gphase GReturned = Ended"

text \<open>Before the last wanted number, and after the mutex was given up for good.\<close>

fun cphase :: "consumer_pc \<Rightarrow> phase" where
  "cphase CLock = Seeking" | "cphase CLoop = Seeking" | "cphase CSignal = Seeking"
| "cphase CTest = Handing" | "cphase CWait = Handing" | "cphase CRelock = Handing"
| "cphase CUnlock = Ended" | "cphase CJoin = Ended" | "cphase CDone = Ended"

definition generator_inv :: "int \<Rightarrow> int \<Rightarrow> int \<Rightarrow> generator \<Rightarrow> bool" where
  "generator_inv A B N s \<longleftrightarrow>
     (gphase (gpc s) = Seeking \<longrightarrow> A \<le> index s \<and> (index s \<le> B + 1 \<or> index s = A) \<and> \<not> finished s \<and>
        shown s = primes_in A (index s - 1) \<and> found_numbers_count s = int (length (primes_in A (index s - 1)))) \<and>
     (gphase (gpc s) = Handing \<longrightarrow> A \<le> index s \<and> index s \<le> B \<and> prime (index s) \<and>
        found_numbers_count s = int (length (primes_in A (index s - 1))) \<and>
        (finished s \<and> num s = index s \<and> shown s = primes_in A (index s - 1) \<or>
         gpc s \<noteq> GSignal \<and> \<not> finished s \<and> shown s = primes_in A (index s - 1) @ [index s])) \<and>
     (gphase (gpc s) = Ended \<longrightarrow> \<not> finished s \<and> found_numbers_count s = int (length (shown s)) \<and>
        (shown s = primes_in A B \<and> (1 \<le> N \<longrightarrow> int (length (primes_in A B)) < N) \<or>
         A \<le> index s \<and> index s \<le> B \<and> prime (index s) \<and> found_numbers_count s = N \<and> shown s = primes_in A (index s))) \<and>
     (1 \<le> N \<and> gphase (gpc s) \<noteq> Ended \<longrightarrow> found_numbers_count s < N)"

definition consumer_inv :: "int \<Rightarrow> generator \<Rightarrow> bool" where
  "consumer_inv N s \<longleftrightarrow>
     int (length (shown s)) = iteration s + (if cpc s = CSignal then 1 else 0) \<and>
     (cphase (cpc s) = Handing \<or> cpc s = CSignal \<longrightarrow> iteration s < N) \<and> (cpc s = CLock \<longrightarrow> iteration s = 0) \<and>
     (cphase (cpc s) = Ended \<longrightarrow> N \<le> iteration s) \<and> (cpc s = CDone \<longrightarrow> gpc s = GReturned) \<and>
     0 \<le> iteration s \<and> (iteration s = 0 \<or> iteration s \<le> N)"

definition generator_holds :: "generator_pc \<Rightarrow> bool" where
  "generator_holds p \<longleftrightarrow> p = GLoop \<or> p = GSignal \<or> p = GTest \<or> p = GReturned"

definition consumer_holds :: "consumer_pc \<Rightarrow> bool" where
  "consumer_holds p \<longleftrightarrow> p = CLoop \<or> p = CTest \<or> p = CSignal \<or> p = CUnlock"

definition mutex_inv :: "generator \<Rightarrow> bool" where
  "mutex_inv s \<longleftrightarrow>
     (mutex s = Some Main \<longleftrightarrow> consumer_holds (cpc s)) \<and> (mutex s = Some Worker \<longleftrightarrow> generator_holds (gpc s)) \<and>
     (cpc s = CWait \<longrightarrow> \<not> finished s \<or> gpc s = GSignal) \<and>
     (gpc s = GWait \<longrightarrow> finished s \<or> cpc s = CSignal)"

lemma generator_start_inv:
  "generator_inv A B N (generator_start A)" "consumer_inv N (generator_start A)" "mutex_inv (generator_start A)"
  by (auto simp: generator_inv_def consumer_inv_def mutex_inv_def generator_start_def primes_in_def
      generator_holds_def consumer_holds_def)

lemma generator_keeps_loop:
  assumes "routine_step B N s = Some s'" "generator_inv A B N s" "gpc s = GLoop" "0 \<le> A" "B < 2 ^ 31"
  shows "generator_inv A B N s'"
proof -
  have i: "A \<le> index s" "index s \<le> B + 1 \<or> index s = A" "\<not> finished s" "shown s = primes_in A (index s - 1)"
    "found_numbers_count s = int (length (primes_in A (index s - 1)))" "1 \<le> N \<longrightarrow> found_numbers_count s < N"
    using assms(2,3) unfolding generator_inv_def by auto
  consider (found) "index s \<le> B" "prime (index s)" | (composite) "index s \<le> B" "\<not> prime (index s)" | (ends) "B < index s" by linarith
  then show ?thesis
  proof cases
    case found
    then have "is_prime_number (index s) = Some True" using is_prime_number_eq[of "index s"] i(1) assms(4,5) by simp
    then have "s' = s\<lparr>num := index s, finished := True, gpc := GSignal\<rparr>" using found assms(1,3) by (simp add: routine_step_def)
    then show ?thesis using i found by (simp add: generator_inv_def)
  next
    case composite
    then have "is_prime_number (index s) = Some False" using is_prime_number_eq[of "index s"] i(1) assms(4,5) by simp
    moreover have "(index s + 1) mod 2 ^ 64 = index s + 1" using composite(1) i(1) assms(4,5) by simp
    ultimately have "s' = s\<lparr>index := index s + 1\<rparr>" using composite assms(1,3) by (simp add: routine_step_def)
    then show ?thesis using i composite primes_in_snoc[OF i(1)] assms(3) by (simp add: generator_inv_def)
  next
    case ends
    have "primes_in A (index s - 1) = primes_in A B"
      using i(1,2) ends by (cases "index s = B + 1") (auto simp: primes_in_def)
    moreover have "s' = s\<lparr>gpc := GReturned\<rparr>" using ends assms(1,3) by (simp add: routine_step_def)
    ultimately show ?thesis using i by (simp add: generator_inv_def)
  qed
qed

lemma generator_keeps_test:
  assumes "routine_step B N s = Some s'" "generator_inv A B N s" "gpc s = GTest" "0 \<le> A" "B < 2 ^ 31"
  shows "generator_inv A B N s'"
proof -
  have i: "A \<le> index s" "index s \<le> B" "prime (index s)" "found_numbers_count s = int (length (primes_in A (index s - 1)))"
    "finished s \<and> num s = index s \<and> shown s = primes_in A (index s - 1) \<or> \<not> finished s \<and> shown s = primes_in A (index s - 1) @ [index s]"
    "1 \<le> N \<longrightarrow> found_numbers_count s < N"
    using assms(2,3) unfolding generator_inv_def by auto
  show ?thesis
  proof (cases "finished s")
    case True
    then have "s' = s\<lparr>mutex := None, gpc := GWait\<rparr>" using assms(1,3) by (simp add: routine_step_def)
    then show ?thesis using i by (simp add: generator_inv_def)
  next
    case False
    have sh: "shown s = primes_in A (index s)" using i(5) False primes_in_snoc[OF i(1)] i(3) by simp
    have n: "found_numbers_count s + 1 = int (length (primes_in A (index s)))" using i(4) primes_in_snoc[OF i(1)] i(3) by simp
    show ?thesis
    proof (cases "N = found_numbers_count s + 1")
      case e: True
      then have "s' = s\<lparr>found_numbers_count := found_numbers_count s + 1, gpc := GReturned\<rparr>"
        using False assms(1,3) by (simp add: routine_step_def Let_def)
      then show ?thesis using i(1-3) sh n e False by (simp add: generator_inv_def)
    next
      case ne: False
      have "(index s + 1) mod 2 ^ 64 = index s + 1" using i(1,2) assms(4,5) by simp
      then have "s' = s\<lparr>found_numbers_count := found_numbers_count s + 1, index := index s + 1, gpc := GLoop\<rparr>"
        using False ne assms(1,3) by (simp add: routine_step_def Let_def)
      moreover have "1 \<le> N \<longrightarrow> found_numbers_count s + 1 < N" using i(6) ne by linarith
      ultimately show ?thesis using i(1-3) sh n False by (simp add: generator_inv_def)
    qed
  qed
qed

lemma generator_keeps:
  assumes "routine_step B N s = Some s'" "generator_inv A B N s" "0 \<le> A" "B < 2 ^ 31"
  shows "generator_inv A B N s'"
proof (cases "gpc s")
  case GLoop
  then show ?thesis using generator_keeps_loop[OF assms(1,2) _ assms(3,4)] by blast
next
  case GTest
  then show ?thesis using generator_keeps_test[OF assms(1,2) _ assms(3,4)] by blast
next
  case GLock
  then have "s' = s\<lparr>mutex := Some Worker, gpc := GLoop\<rparr>" using assms(1) by (simp add: routine_step_def split: if_splits)
  then show ?thesis using GLock assms(2) by (auto simp: generator_inv_def)
next
  case GSignal
  then have "s' = (wake_consumer s)\<lparr>gpc := GTest\<rparr>" using assms(1) by (simp add: routine_step_def)
  then show ?thesis using GSignal assms(2) by (auto simp: generator_inv_def wake_consumer_def)
next
  case GRelock
  then have "s' = s\<lparr>mutex := Some Worker, gpc := GTest\<rparr>" using assms(1) by (simp add: routine_step_def split: if_splits)
  then show ?thesis using GRelock assms(2) by (auto simp: generator_inv_def)
qed (use assms(1) in \<open>simp_all add: routine_step_def\<close>)

lemma generator_inv_consumer_fields [simp]:
  "generator_inv A B N (s\<lparr>cpc := y\<rparr>) = generator_inv A B N s"
  "generator_inv A B N (s\<lparr>mutex := x\<rparr>) = generator_inv A B N s"
  "generator_inv A B N (s\<lparr>iteration := i\<rparr>) = generator_inv A B N s"
  "generator_inv A B N (s\<lparr>mutex := x, cpc := y\<rparr>) = generator_inv A B N s"
  "generator_inv A B N (s\<lparr>cpc := y, iteration := i\<rparr>) = generator_inv A B N s"
  by (simp_all add: generator_inv_def)

lemma generator_inv_woken: "generator_inv A B N s \<Longrightarrow> generator_inv A B N (wake_generator s)"
proof (cases "gpc s = GWait")
  case True
  then show "generator_inv A B N s \<Longrightarrow> ?thesis" by (auto simp: generator_inv_def wake_generator_def)
qed (simp add: wake_generator_def)

lemma generator_handing:
  assumes "generator_inv A B N s" "gphase (gpc s) = Handing"
  shows "A \<le> index s" "index s \<le> B" "prime (index s)"
    "found_numbers_count s = int (length (primes_in A (index s - 1)))" "1 \<le> N \<longrightarrow> found_numbers_count s < N"
    "finished s \<Longrightarrow> num s = index s \<and> shown s = primes_in A (index s - 1)"
    "\<not> finished s \<Longrightarrow> shown s = primes_in A (index s - 1) @ [index s]"
  using assms unfolding generator_inv_def by auto

lemma generator_inv_taken:
  "gphase (gpc s) = Handing \<Longrightarrow> gpc s \<noteq> GSignal \<Longrightarrow> A \<le> index s \<Longrightarrow> index s \<le> B \<Longrightarrow> prime (index s) \<Longrightarrow>
   found_numbers_count s = int (length (primes_in A (index s - 1))) \<Longrightarrow> \<not> finished s \<Longrightarrow>
   shown s = primes_in A (index s - 1) @ [index s] \<Longrightarrow> (1 \<le> N \<longrightarrow> found_numbers_count s < N) \<Longrightarrow> generator_inv A B N s"
  unfolding generator_inv_def by simp

lemma consumer_keeps_generator:
  assumes "consumer_step N s = Some s'" "generator_inv A B N s" "mutex_inv s"
  shows "generator_inv A B N s'"
proof (cases "cpc s = CTest \<and> finished s")
  case False
  note w = assms(2) generator_inv_woken[OF assms(2)]
  have "s' \<in> {s\<lparr>mutex := Some Main, cpc := CLoop\<rparr>, s\<lparr>cpc := CTest\<rparr>, s\<lparr>cpc := CUnlock\<rparr>, s\<lparr>mutex := None, cpc := CWait\<rparr>,
      s\<lparr>mutex := Some Main, cpc := CTest\<rparr>, (wake_generator s)\<lparr>iteration := iteration s + 1, cpc := CLoop\<rparr>,
      s\<lparr>mutex := None, cpc := CJoin\<rparr>, s\<lparr>cpc := CDone\<rparr>}"
    using assms(1) False by (cases "cpc s") (simp_all add: consumer_step_def split: if_splits)
  then show ?thesis using w by (elim insertE emptyE) simp_all
next
  case True
  then have s': "s' = s\<lparr>shown := shown s @ [num s], finished := False, cpc := CSignal\<rparr>"
    using assms(1) by (simp add: consumer_step_def)
  have o: "gpc s \<noteq> GSignal" using assms(3) True by (auto simp: mutex_inv_def consumer_holds_def generator_holds_def)
  have w: "gphase (gpc s) = Handing" using assms(2) True by (cases "gphase (gpc s)") (simp_all add: generator_inv_def)
  note f = generator_handing[OF assms(2) w]
  have "num s = index s" "shown s = primes_in A (index s - 1)" using f(6) True by blast+
  then show ?thesis unfolding s' using w f(1-5) o by (intro generator_inv_taken) simp_all
qed

lemma generator_keeps_consumer:
  assumes "routine_step B N s = Some s'" "consumer_inv N s"
  shows "consumer_inv N s'"
proof -
  have "(cpc s' = cpc s \<or> cpc s = CWait \<and> cpc s' = CRelock) \<and> iteration s' = iteration s \<and> shown s' = shown s \<and> gpc s \<noteq> GReturned"
    using assms(1)
    by (cases "gpc s"; auto simp: routine_step_def wake_consumer_def Let_def split: if_splits option.splits bool.splits)
  then show ?thesis using assms(2) by (auto simp: consumer_inv_def)
qed

lemma consumer_keeps_consumer:
  assumes "consumer_step N s = Some s'" "consumer_inv N s"
  shows "consumer_inv N s'"
  using assms by (cases "cpc s") (auto simp: consumer_inv_def consumer_step_def wake_generator_def split: if_splits)

lemma generator_keeps_mutex:
  assumes "routine_step B N s = Some s'" "mutex_inv s"
  shows "mutex_inv s'"
proof (cases "gpc s")
  case GLoop
  then show ?thesis using assms
    by (auto simp: routine_step_def mutex_inv_def generator_holds_def consumer_holds_def split: if_splits option.splits bool.splits)
qed (use assms in \<open>auto simp: routine_step_def wake_consumer_def mutex_inv_def generator_holds_def consumer_holds_def Let_def
    split: if_splits\<close>)

lemma consumer_keeps_mutex:
  assumes "consumer_step N s = Some s'" "mutex_inv s"
  shows "mutex_inv s'"
  using assms
  by (cases "cpc s") (auto simp: consumer_step_def wake_generator_def mutex_inv_def generator_holds_def consumer_holds_def split: if_splits)

lemma generator_reach_inv:
  assumes "generator_reach A B N s" "0 \<le> A" "B < 2 ^ 31"
  shows "generator_inv A B N s \<and> consumer_inv N s \<and> mutex_inv s"
  using assms(1)
proof (induction rule: generator_reach.induct)
  case start
  then show ?case using generator_start_inv by blast
next
  case (step s s')
  from step.hyps(2) show ?case
  proof cases
    case routine
    then show ?thesis
      using step.IH generator_keeps[OF _ _ assms(2,3)] generator_keeps_consumer generator_keeps_mutex by blast
  next
    case consumer
    then show ?thesis using step.IH consumer_keeps_generator consumer_keeps_consumer consumer_keeps_mutex by blast
  qed
next
  case (wake_generator s)
  then have "generator_inv A B N (s\<lparr>gpc := GRelock\<rparr>)" using generator_inv_woken[of A B N s] by (simp add: wake_generator_def)
  moreover have "consumer_inv N (s\<lparr>gpc := GRelock\<rparr>)" "mutex_inv (s\<lparr>gpc := GRelock\<rparr>)"
    using wake_generator by (auto simp: consumer_inv_def mutex_inv_def generator_holds_def)
  ultimately show ?case by blast
next
  case (wake_consumer s)
  then have "generator_inv A B N (s\<lparr>cpc := CRelock\<rparr>)" by simp
  moreover have "consumer_inv N (s\<lparr>cpc := CRelock\<rparr>)" "mutex_inv (s\<lparr>cpc := CRelock\<rparr>)"
    using wake_consumer by (auto simp: consumer_inv_def mutex_inv_def consumer_holds_def)
  ultimately show ?case by blast
qed

subsection \<open>What is printed\<close>

lemma shown_prefix:
  assumes "generator_inv A B N s"
  shows "\<exists>r. primes_in A B = shown s @ r"
proof (cases "gphase (gpc s)")
  case Seeking
  then have f: "A \<le> index s" "index s \<le> B + 1 \<or> index s = A" "shown s = primes_in A (index s - 1)"
    using assms by (auto simp: generator_inv_def)
  show ?thesis
  proof (cases "index s = A")
    case False
    then show ?thesis using primes_in_split[OF f(1), of B] f(2,3) by auto
  qed (simp add: f(3) primes_in_def)
next
  case Handing
  note f = generator_handing[OF assms Handing]
  have "primes_in A B = primes_in A (index s - 1) @ primes_in (index s) B"
    using primes_in_split[OF f(1), of B] f(2) by linarith
  moreover have "primes_in A B = (primes_in A (index s - 1) @ [index s]) @ primes_in (index s + 1) B"
    using primes_in_split[of A "index s + 1" B] primes_in_snoc[OF f(1)] f(1,2,3) by simp
  ultimately show ?thesis using f(6,7) by metis
next
  case Ended
  then have "shown s = primes_in A B \<or> A \<le> index s \<and> index s \<le> B \<and> shown s = primes_in A (index s)"
    using assms unfolding generator_inv_def by force
  then consider "shown s = primes_in A B" | "A \<le> index s" "index s \<le> B" "shown s = primes_in A (index s)" by blast
  then show ?thesis
  proof cases
    case 2
    then show ?thesis using primes_in_split[of A "index s + 1" B] by simp
  qed simp
qed

definition generator_ended :: "generator \<Rightarrow> bool" where
  "generator_ended s \<longleftrightarrow> gpc s = GReturned \<and> cpc s = CDone"

lemma shown_length: "consumer_inv N s \<Longrightarrow> length (shown s) \<le> nat N"
proof -
  assume "consumer_inv N s"
  then have "int (length (shown s)) = iteration s + (if cpc s = CSignal then 1 else 0)" "cpc s = CSignal \<longrightarrow> iteration s < N"
    "iteration s = 0 \<or> iteration s \<le> N"
    unfolding consumer_inv_def by blast+
  then show ?thesis by (cases "cpc s = CSignal") auto
qed

lemma ended_shown:
  assumes "generator_inv A B N s" "consumer_inv N s" "generator_ended s"
  shows "shown s = take (nat N) (primes_in A B) \<and> (1 \<le> N \<and> N \<le> int (length (primes_in A B)) \<or> N \<le> 0 \<and> primes_in A B = [])"
proof -
  have c: "int (length (shown s)) = iteration s" "N \<le> iteration s" "iteration s = 0 \<or> iteration s \<le> N"
    using assms(2,3) by (auto simp: consumer_inv_def generator_ended_def)
  obtain r where r: "primes_in A B = shown s @ r" using shown_prefix[OF assms(1)] by blast
  have "shown s = primes_in A B \<or> 0 < length (shown s) \<and> int (length (shown s)) = N"
    using assms(1,3) primes_in_snoc[of A "index s"] unfolding generator_inv_def generator_ended_def by fastforce
  then show ?thesis
  proof
    assume a: "shown s = primes_in A B"
    show ?thesis
    proof (cases "1 \<le> N")
      case True
      then have "int (length (shown s)) = N" using c by linarith
      then show ?thesis using a True by auto
    next
      case False
      then have "length (shown s) = 0" using c by linarith
      then show ?thesis using a False by auto
    qed
  next
    assume a: "0 < length (shown s) \<and> int (length (shown s)) = N"
    then show ?thesis using r by (auto simp: Suc_le_eq)
  qed
qed

text \<open>
  The other program prints at any time a prefix of the primes from \<open>A\<close> to \<open>B\<close>.  It can only end after exactly the
  first \<open>N\<close> of them: if the range has fewer primes, or if \<open>N\<close> is not positive and the range has a prime, no schedule ends
  it, because the generator returns with the mutex locked or waits for ever.
\<close>

lemma generator_prints_primes:
  assumes "generator_reach A B N s" "0 \<le> A" "B < 2 ^ 31"
  shows "shown s = take (length (shown s)) (primes_in A B) \<and> length (shown s) \<le> nat N \<and>
    (generator_ended s \<longrightarrow> shown s = take (nat N) (primes_in A B) \<and>
       (1 \<le> N \<and> N \<le> int (length (primes_in A B)) \<or> N \<le> 0 \<and> primes_in A B = []))"
proof -
  have inv: "generator_inv A B N s" "consumer_inv N s" using generator_reach_inv[OF assms] by auto
  obtain r where "primes_in A B = shown s @ r" using shown_prefix[OF inv(1)] by blast
  then have "shown s = take (length (shown s)) (primes_in A B)" by simp
  then show ?thesis using shown_length[OF inv(2)] ended_shown[OF inv] by blast
qed

lemma generator_prints_primes_witness: "length (shown (generator_start 1)) \<le> nat 2"
  using generator_prints_primes[OF generator_reach.start[of 1 10 2]] by simp

subsection \<open>When it ends\<close>

fun grank :: "generator_pc \<Rightarrow> nat" where
  "grank GLock = 9" | "grank GLoop = 8" | "grank GSignal = 7" | "grank GRelock = 2" | "grank GTest = 1" | "grank GWait = 0"
| "grank GReturned = 0"

fun crank :: "consumer_pc \<Rightarrow> nat" where
  "crank CSignal = 12" | "crank CLock = 9" | "crank CLoop = 8" | "crank CRelock = 7" | "crank CTest = 6" | "crank CWait = 5"
| "crank CUnlock = 4" | "crank CJoin = 1" | "crank CDone = 0"

definition generator_stage :: "generator \<Rightarrow> nat" where
  "generator_stage s = (case gphase (gpc s) of Seeking \<Rightarrow> 3 | Handing \<Rightarrow> (if finished s then 2 else 1) | Ended \<Rightarrow> 0)"

definition generator_rank :: "int \<Rightarrow> generator \<Rightarrow> nat" where
  "generator_rank B s = 100 * (4 * nat (B + 1 - index s) + generator_stage s) + grank (gpc s) + crank (cpc s)"

lemma generator_decreases:
  assumes "routine_step B N s = Some s'" "generator_inv A B N s" "0 \<le> A" "B < 2 ^ 31"
  shows "generator_rank B s' < generator_rank B s"
proof (cases "gpc s")
  case GLoop
  then have i: "\<not> finished s" "0 \<le> index s" using assms(2,3) by (auto simp: generator_inv_def)
  have "index s \<le> B \<Longrightarrow> (index s + 1) mod 2 ^ 64 = index s + 1" using i(2) assms(4) by simp
  then show ?thesis using GLoop assms(1) i(1)
    by (auto simp: routine_step_def generator_rank_def generator_stage_def nat_diff_distrib split: if_splits option.splits bool.splits)
next
  case GTest
  then have i: "index s \<le> B" "0 \<le> index s" using assms(2,3) by (auto simp: generator_inv_def)
  then have "(index s + 1) mod 2 ^ 64 = index s + 1" using assms(4) by simp
  then show ?thesis using GTest assms(1) i
    by (auto simp: routine_step_def generator_rank_def generator_stage_def Let_def split: if_splits)
qed (use assms(1) in \<open>auto simp: routine_step_def generator_rank_def generator_stage_def wake_consumer_def split: if_splits\<close>)

lemma consumer_decreases:
  assumes "consumer_step N s = Some s'" "generator_inv A B N s"
  shows "generator_rank B s' < generator_rank B s"
proof (cases "cpc s")
  case CTest
  have "finished s \<Longrightarrow> gphase (gpc s) = Handing"
    using assms(2) by (cases "gphase (gpc s)") (auto simp: generator_inv_def)
  then show ?thesis using CTest assms(1)
    by (auto simp: consumer_step_def generator_rank_def generator_stage_def split: if_splits)
qed (use assms(1) in \<open>auto simp: consumer_step_def generator_rank_def generator_stage_def wake_generator_def split: if_splits phase.splits\<close>)

lemma generator_blocked:
  assumes "routine_step B N s = None" "generator_inv A B N s" "mutex_inv s" "mutex s \<noteq> Some Main" "0 \<le> A" "B < 2 ^ 31"
  shows "gpc s = GWait \<or> gpc s = GReturned"
proof (cases "gpc s")
  case GLoop
  then have "0 \<le> index s" using assms(2,5) by (auto simp: generator_inv_def)
  then have "index s \<le> B \<Longrightarrow> is_prime_number (index s) = Some (prime (index s))"
    using is_prime_number_eq[of "index s"] assms(6) by simp
  then show ?thesis using GLoop assms(1) by (auto simp: routine_step_def split: if_splits bool.splits)
next
  case GLock
  then have "mutex s = None" using assms(3,4) by (cases "mutex s"; cases "the (mutex s)") (auto simp: mutex_inv_def generator_holds_def)
  then show ?thesis using GLock assms(1) by (simp add: routine_step_def)
next
  case GRelock
  then have "mutex s = None" using assms(3,4) by (cases "mutex s"; cases "the (mutex s)") (auto simp: mutex_inv_def generator_holds_def)
  then show ?thesis using GRelock assms(1) by (simp add: routine_step_def)
qed (use assms(1) in \<open>simp_all add: routine_step_def Let_def split: if_splits\<close>)

lemma consumer_blocked:
  assumes "consumer_step N s = None"
  shows "\<not> consumer_holds (cpc s) \<and>
    (cpc s = CWait \<or> cpc s = CDone \<or> cpc s = CJoin \<and> gpc s \<noteq> GReturned \<or> (cpc s = CLock \<or> cpc s = CRelock) \<and> mutex s \<noteq> None)"
  using assms by (cases "cpc s") (auto simp: consumer_step_def consumer_holds_def split: if_splits)

lemma returned_consumer:
  assumes "generator_inv A B N s" "consumer_inv N s" "mutex_inv s" "gpc s = GReturned" "1 \<le> N" "N \<le> int (length (primes_in A B))"
  shows "cpc s = CJoin \<or> cpc s = CDone"
proof -
  have m: "mutex s = Some Worker" using assms(3,4) by (simp add: mutex_inv_def generator_holds_def)
  have "\<not> (shown s = primes_in A B \<and> (1 \<le> N \<longrightarrow> int (length (primes_in A B)) < N))" using assms(5,6) by linarith
  then have "found_numbers_count s = N" "found_numbers_count s = int (length (shown s))"
    using assms(1,4) unfolding generator_inv_def by auto
  then have n: "int (length (shown s)) = N" by simp
  have h: "\<not> consumer_holds (cpc s)" using m assms(3) by (auto simp: mutex_inv_def)
  then have "cpc s \<noteq> CSignal" by (auto simp: consumer_holds_def)
  then have "iteration s = N" using n assms(2) by (simp add: consumer_inv_def)
  then have "cphase (cpc s) \<noteq> Handing \<and> cpc s \<noteq> CLock" using assms(2,5) by (auto simp: consumer_inv_def)
  then show ?thesis using h by (cases "cpc s") (auto simp: consumer_holds_def)
qed

lemma generator_not_stuck:
  assumes "generator_inv A B N s" "consumer_inv N s" "mutex_inv s" "0 \<le> A" "B < 2 ^ 31"
    "1 \<le> N" "N \<le> int (length (primes_in A B))" "\<not> generator_ended s"
  shows "routine_step B N s \<noteq> None \<or> consumer_step N s \<noteq> None"
proof (rule ccontr)
  assume "\<not> (routine_step B N s \<noteq> None \<or> consumer_step N s \<noteq> None)"
  then have b: "routine_step B N s = None" "consumer_step N s = None" by simp_all
  note c = consumer_blocked[OF b(2)]
  then have nm: "mutex s \<noteq> Some Main" using assms(3) by (auto simp: mutex_inv_def)
  show False
  proof (cases "gpc s = GReturned")
    case True
    then have "cpc s = CJoin \<or> cpc s = CDone" using returned_consumer[OF assms(1-3) _ assms(6,7)] by blast
    then show False using c True assms(8) by (auto simp: generator_ended_def)
  next
    case False
    then have w: "gpc s = GWait" using generator_blocked[OF b(1) assms(1,3) nm assms(4,5)] by simp
    then have h: "gphase (gpc s) = Handing" by simp
    have f: "finished s" using w c assms(3) by (auto simp: mutex_inv_def consumer_holds_def)
    have "mutex s = None" using nm w assms(3) by (cases "mutex s"; cases "the (mutex s)") (auto simp: mutex_inv_def generator_holds_def)
    then have "cpc s = CWait \<or> cpc s = CDone \<or> cpc s = CJoin" using c by blast
    moreover have "cpc s \<noteq> CWait" using f w assms(3) by (auto simp: mutex_inv_def)
    ultimately have e: "cphase (cpc s) = Ended" "cpc s \<noteq> CSignal" by auto
    then have "N \<le> iteration s" "int (length (shown s)) = iteration s" using assms(2) by (auto simp: consumer_inv_def)
    moreover have "int (length (shown s)) = found_numbers_count s"
      using generator_handing(4)[OF assms(1) h] generator_handing(6)[OF assms(1) h f] by simp
    ultimately show False using generator_handing(5)[OF assms(1) h] assms(6) by linarith
  qed
qed

text \<open>
  If the range has the wanted number of primes, at least one, then every schedule ends the program: no reachable state
  is a deadlock, and every step of a thread decreases a rank.
\<close>

lemma generator_ends:
  assumes "generator_reach A B N s" "0 \<le> A" "B < 2 ^ 31" "1 \<le> N" "N \<le> int (length (primes_in A B))" "\<not> generator_ended s"
  shows "(\<exists>s'. generator_step B N s s') \<and> (\<forall>s'. generator_step B N s s' \<longrightarrow> generator_rank B s' < generator_rank B s)"
proof -
  have inv: "generator_inv A B N s" "consumer_inv N s" "mutex_inv s" using generator_reach_inv[OF assms(1-3)] by auto
  have "\<exists>s'. generator_step B N s s'"
    using generator_not_stuck[OF inv assms(2-6)] by (auto simp: generator_step_iff)
  moreover have "\<forall>s'. generator_step B N s s' \<longrightarrow> generator_rank B s' < generator_rank B s"
    using generator_decreases[OF _ inv(1) assms(2,3)] consumer_decreases[OF _ inv(1)] by (auto simp: generator_step_iff)
  ultimately show ?thesis by blast
qed

lemma primes_1_3: "primes_in 1 3 = [2, 3]"
proof -
  have u: "[1..3] = [1, 2, 3 :: int]" by (simp add: upto_rec1)
  show ?thesis unfolding primes_in_def u by (simp add: prime_def prime_loop.simps)
qed

lemma generator_ends_witness: "\<exists>s'. generator_step 3 2 (generator_start 1) s'"
  using generator_ends[OF generator_reach.start[of 1 3 2]] by (simp add: primes_1_3 generator_ended_def generator_start_def)

text \<open>
  C15: The other program prints at any time a prefix of the primes from \<open>A\<close> to \<open>B\<close>.  It can only end after exactly the
  first \<open>N\<close> of them.  If the range has that many, at least one, then every schedule ends it: no reachable state
  is a deadlock, and every step of a thread decreases a rank.  If the range has fewer primes, no schedule ends
  it, because the generator returns with the mutex locked or waits for ever.
\<close>

theorem generator_correct:
  assumes "generator_reach A B N s" "0 \<le> A" "B < 2 ^ 31"
  shows "shown s = take (length (shown s)) (primes_in A B) \<and> length (shown s) \<le> nat N
    \<and> (generator_ended s \<longrightarrow> shown s = take (nat N) (primes_in A B) \<and>
        (1 \<le> N \<and> N \<le> int (length (primes_in A B)) \<or> N \<le> 0 \<and> primes_in A B = []))
    \<and> (1 \<le> N \<and> N \<le> int (length (primes_in A B)) \<and> \<not> generator_ended s \<longrightarrow>
        (\<exists>s'. generator_step B N s s') \<and> (\<forall>s'. generator_step B N s s' \<longrightarrow> generator_rank B s' < generator_rank B s))"
  using generator_prints_primes[OF assms] generator_ends[OF assms] by blast

theorem generator_correct_witness: "\<exists>s'. generator_step 3 2 (generator_start 1) s'"
  using generator_correct[OF generator_reach.start[of 1 3 2]] by (simp add: primes_1_3 generator_ended_def generator_start_def)

end
