(* ===== verification/Smokers.thy ===== *)
theory Smokers
  imports Prelude
begin

section \<open>smokers: a table keeper and three smokers with semaphores\<close>

text \<open>
  \<^verbatim>\<open>inf20-2-posix_shm_sem_smokers/file.c\<close> and \<^verbatim>\<open>main.c\<close>: a process reads letters and hands each to one of three child
  processes through a semaphore of its own; the child prints what it was given and posts a second semaphore.  At the end
  of the input the children are killed and waited for.  The semaphores are in shared memory: arrays of three counters.
  A step of a process runs it to its next system call; it is \<open>None\<close> while the process is blocked.  The theorems say
  that the output follows the input in every interleaving, that the first program ends, and how the second one hangs.
\<close>

subsection \<open>The state\<close>

datatype hand_pc = HRead | HWait nat | HKill nat | HReap nat | HDone

text \<open>The second program uses all places of a smoker, the first one has no test and enters the call at once.\<close>

datatype smoker_pc = SStart | SLoop | SEnter | SWait | SCheck | SPrint | SPost | SDone

record kitchen =
  stock :: string
  hpc :: hand_pc
  resources :: "nat \<Rightarrow> nat"
  smoked :: "nat \<Rightarrow> nat"
  spc :: "nat \<Rightarrow> smoker_pc"
  term_sent :: "nat \<Rightarrow> bool"
  kick_out :: "nat \<Rightarrow> bool"
  paper :: string

definition kitchen_start :: "string \<Rightarrow> kitchen" where
  "kitchen_start inp =
     \<lparr>stock = inp, hpc = HRead, resources = (\<lambda>i. 0), smoked = (\<lambda>i. 0), spc = (\<lambda>i. SStart),
      term_sent = (\<lambda>i. False), kick_out = (\<lambda>i. False), paper = []\<rparr>"

definition was_given :: "nat \<Rightarrow> char" where
  "was_given i = (if i = 1 then CHR ''P'' else if i = 0 then CHR ''T'' else CHR ''M'')"

definition smoke_line :: "nat \<Rightarrow> string" where
  "smoke_line i = [was_given i, CHR 0x0A]"

subsection \<open>The first program\<close>

definition ingredient :: "char \<Rightarrow> nat" where
  "ingredient c = (if c = CHR ''t'' then 0 else if c = CHR ''p'' then 1 else 2)"

definition to_hand_step :: "kitchen \<Rightarrow> kitchen option" where
  "to_hand_step s =
     (case hpc s of
        HRead \<Rightarrow>
          (case stock s of
             [] \<Rightarrow> Some (s\<lparr>hpc := HKill 0\<rparr>)
           | c # cs \<Rightarrow> let i = ingredient c in
               Some (s\<lparr>stock := cs, resources := (resources s)(i := resources s i + 1), hpc := HWait i\<rparr>))
      | HWait i \<Rightarrow>
          (if 0 < smoked s i then Some (s\<lparr>smoked := (smoked s)(i := smoked s i - 1), hpc := HRead\<rparr>) else None)
      | HKill i \<Rightarrow>
          (if i < 3 then Some (s\<lparr>term_sent := (term_sent s)(i := True), hpc := HReap i\<rparr>)
           else Some (s\<lparr>hpc := HDone\<rparr>))
      | HReap i \<Rightarrow> (if spc s i = SDone then Some (s\<lparr>hpc := HKill (i + 1)\<rparr>) else None)
      | HDone \<Rightarrow> None)"

definition to_smoke_step :: "nat \<Rightarrow> kitchen \<Rightarrow> kitchen option" where
  "to_smoke_step i s =
     (case spc s i of
        SStart \<Rightarrow> Some (s\<lparr>spc := (spc s)(i := SWait)\<rparr>)
      | SWait \<Rightarrow>
          (if 0 < resources s i
           then Some (s\<lparr>resources := (resources s)(i := resources s i - 1), spc := (spc s)(i := SPrint)\<rparr>) else None)
      | SPrint \<Rightarrow> Some (s\<lparr>paper := paper s @ smoke_line i, spc := (spc s)(i := SPost)\<rparr>)
      | SPost \<Rightarrow> Some (s\<lparr>smoked := (smoked s)(i := smoked s i + 1), spc := (spc s)(i := SWait)\<rparr>)
      | _ \<Rightarrow> None)"

text \<open>The signal ends the process wherever it is, before its handler is set as well.\<close>

definition term_exit :: "nat \<Rightarrow> kitchen \<Rightarrow> kitchen option" where
  "term_exit i s = (if term_sent s i \<and> spc s i \<noteq> SDone then Some (s\<lparr>spc := (spc s)(i := SDone)\<rparr>) else None)"

inductive smokers_step :: "kitchen \<Rightarrow> kitchen \<Rightarrow> bool" where
  hand: "to_hand_step s = Some s' \<Longrightarrow> smokers_step s s'"
| smoke: "i < 3 \<Longrightarrow> to_smoke_step i s = Some s' \<Longrightarrow> smokers_step s s'"
| leave: "i < 3 \<Longrightarrow> term_exit i s = Some s' \<Longrightarrow> smokers_step s s'"

inductive_simps smokers_step_iff: "smokers_step s s'"

inductive smokers_reach :: "string \<Rightarrow> kitchen \<Rightarrow> bool" for inp where
  start: "smokers_reach inp (kitchen_start inp)"
| step: "smokers_reach inp s \<Longrightarrow> smokers_step s s' \<Longrightarrow> smokers_reach inp s'"

subsection \<open>What is printed\<close>

text \<open>
  A portion is on the table, in the hands of a smoker or reported back.  At most one exists, that of the smoker the
  table keeper waits for.
\<close>

definition portions :: "kitchen \<Rightarrow> nat \<Rightarrow> nat" where
  "portions s i = resources s i + smoked s i + (if spc s i = SPrint \<or> spc s i = SPost \<or> spc s i = SCheck \<and> \<not> kick_out s i then 1 else 0)"

text \<open>The line that is still to be printed for the letter read last.\<close>

definition owed :: "kitchen \<Rightarrow> string" where
  "owed s = (case hpc s of HWait i \<Rightarrow> if smoked s i = 0 \<and> spc s i \<noteq> SPost then smoke_line i else [] | _ \<Rightarrow> [])"

definition smoke_lines :: "string \<Rightarrow> string" where
  "smoke_lines cs = concat (map (\<lambda>c. smoke_line (ingredient c)) cs)"

fun serving :: "hand_pc \<Rightarrow> bool" where
  "serving HRead = True" | "serving (HWait i) = True" | "serving _ = False"

text \<open>\<open>f\<close> gives the output for the letters read so far.\<close>

definition kitchen_inv :: "(string \<Rightarrow> string) \<Rightarrow> string \<Rightarrow> kitchen \<Rightarrow> bool" where
  "kitchen_inv f inp s \<longleftrightarrow>
     (\<exists>eaten. inp = eaten @ stock s \<and> paper s @ owed s = f eaten) \<and>
     (\<forall>i. portions s i = (if hpc s = HWait i then 1 else 0)) \<and>
     (\<not> serving (hpc s) \<longrightarrow> stock s = []) \<and>
     (serving (hpc s) \<longrightarrow> (\<forall>i. \<not> term_sent s i \<and> \<not> kick_out s i \<and> spc s i \<noteq> SDone))"

text \<open>
  The steps that both programs have in common keep it: a letter is put on the table, a portion moves on, a line is
  printed, a report is taken.
\<close>

lemma inv_portions: "kitchen_inv f inp s \<Longrightarrow> portions s i = (if hpc s = HWait i then 1 else 0)"
  by (simp add: kitchen_inv_def)

lemma inv_serve:
  assumes "kitchen_inv f inp s" "hpc s = HRead" "stock s = c # cs" "\<And>e. f (e @ [c]) = f e @ smoke_line i"
  shows "kitchen_inv f inp (s\<lparr>stock := cs, resources := (resources s)(i := resources s i + 1), hpc := HWait i\<rparr>)"
proof -
  obtain e where e: "inp = e @ c # cs" "paper s = f e" using assms(1-3) by (auto simp: kitchen_inv_def owed_def)
  have p: "portions s j = 0" for j using inv_portions[OF assms(1)] assms(2) by simp
  have "smoked s i = 0" "spc s i \<noteq> SPost" using p[of i] by (auto simp: portions_def split: if_splits)
  moreover have "\<exists>eaten. inp = eaten @ cs \<and> paper s @ smoke_line i = f eaten" using e assms(4) by (intro exI[of _ "e @ [c]"]) simp
  ultimately show ?thesis using assms(1,2) p
    by (auto simp: kitchen_inv_def portions_def owed_def split: if_splits)
qed

lemma inv_take_report:
  assumes "kitchen_inv f inp s" "hpc s = HWait i" "0 < smoked s i"
  shows "kitchen_inv f inp (s\<lparr>smoked := (smoked s)(i := smoked s i - 1), hpc := HRead\<rparr>)"
proof -
  have p: "portions s j = (if j = i then 1 else 0)" for j using inv_portions[OF assms(1)] assms(2) by auto
  have i: "portions s i = 1" using p by simp
  have "owed s = []" using assms(2,3) by (simp add: owed_def)
  moreover have "portions (s\<lparr>smoked := (smoked s)(i := smoked s i - 1), hpc := HRead\<rparr>) j = 0" for j
    using p[of j] i assms(3) by (auto simp: portions_def split: if_splits)
  ultimately show ?thesis using assms(1,2) by (simp add: kitchen_inv_def owed_def)
qed

lemma inv_finish:
  assumes "kitchen_inv f inp s" "\<not> serving (hpc s) \<or> stock s = [] \<and> hpc s = HRead" "\<not> serving p"
  shows "kitchen_inv f inp (s\<lparr>hpc := p\<rparr>)" "kitchen_inv f inp (s\<lparr>term_sent := t, hpc := p\<rparr>)"
proof -
  have n: "\<forall>i. p \<noteq> HWait i" "\<forall>i. hpc s \<noteq> HWait i" using assms(2,3) by auto
  then have "owed s = []" "\<And>x. owed (s\<lparr>hpc := p\<rparr>) = []" "owed (s\<lparr>term_sent := t, hpc := p\<rparr>) = []"
    by (cases "hpc s"; cases p; simp add: owed_def)+
  then show "kitchen_inv f inp (s\<lparr>hpc := p\<rparr>)" "kitchen_inv f inp (s\<lparr>term_sent := t, hpc := p\<rparr>)"
    using assms n by (auto simp: kitchen_inv_def portions_def)
qed

text \<open>A smoker moves to another place.\<close>

lemma inv_move:
  assumes "kitchen_inv f inp s" "portions (s\<lparr>spc := (spc s)(i := p)\<rparr>) i = portions s i" "spc s i \<noteq> SPost" "p \<noteq> SPost"
    "p = SDone \<longrightarrow> \<not> serving (hpc s)"
  shows "kitchen_inv f inp (s\<lparr>spc := (spc s)(i := p)\<rparr>)"
proof -
  have "portions (s\<lparr>spc := (spc s)(i := p)\<rparr>) j = portions s j" for j
    using assms(2) by (cases "j = i") (simp_all add: portions_def)
  moreover have "owed (s\<lparr>spc := (spc s)(i := p)\<rparr>) = owed s"
    using assms(3,4) by (cases "hpc s") (simp_all add: owed_def)
  ultimately show ?thesis using assms(1,5) by (auto simp: kitchen_inv_def)
qed

lemma inv_take:
  assumes "kitchen_inv f inp s" "spc s i = SWait" "0 < resources s i" "p = SPrint \<or> p = SCheck"
  shows "kitchen_inv f inp (s\<lparr>resources := (resources s)(i := resources s i - 1), spc := (spc s)(i := p)\<rparr>)" (is "kitchen_inv f inp ?s'")
proof -
  have "hpc s = HWait i" using inv_portions[OF assms(1), of i] assms(3) by (auto simp: portions_def split: if_splits)
  then have k: "\<not> kick_out s i" using assms(1) by (simp add: kitchen_inv_def)
  have "portions ?s' j = portions s j" for j
    using assms(2,3,4) k by (cases "j = i") (auto simp: portions_def)
  moreover have "owed ?s' = owed s" using assms(2,4) by (cases "hpc s") (auto simp: owed_def)
  ultimately show ?thesis using assms(1,4) by (auto simp: kitchen_inv_def)
qed

lemma inv_print:
  assumes "kitchen_inv f inp s" "spc s i = SPrint"
  shows "kitchen_inv f inp (s\<lparr>paper := paper s @ smoke_line i, spc := (spc s)(i := SPost)\<rparr>)" (is "kitchen_inv f inp ?s'")
proof -
  have h: "hpc s = HWait i" "smoked s i = 0"
    using inv_portions[OF assms(1), of i] assms(2) by (auto simp: portions_def split: if_splits)
  then have "paper ?s' @ owed ?s' = paper s @ owed s" using assms(2) by (simp add: owed_def)
  moreover have "portions ?s' j = portions s j" for j using assms(2) by (cases "j = i") (auto simp: portions_def)
  ultimately show ?thesis using assms(1) by (auto simp: kitchen_inv_def)
qed

lemma inv_report:
  assumes "kitchen_inv f inp s" "spc s i = SPost" "p = SWait \<or> p = SLoop"
  shows "kitchen_inv f inp (s\<lparr>smoked := (smoked s)(i := smoked s i + 1), spc := (spc s)(i := p)\<rparr>)" (is "kitchen_inv f inp ?s'")
proof -
  have h: "hpc s = HWait i" "smoked s i = 0"
    using inv_portions[OF assms(1), of i] assms(2) by (auto simp: portions_def split: if_splits)
  then have "owed ?s' = owed s" using assms(2,3) by (simp add: owed_def)
  moreover have "portions ?s' j = portions s j" for j using assms(2,3) by (cases "j = i") (auto simp: portions_def)
  ultimately show ?thesis using assms(1,3) by (auto simp: kitchen_inv_def)
qed

lemma inv_start: "f [] = [] \<Longrightarrow> kitchen_inv f inp (kitchen_start inp)"
  by (simp add: kitchen_inv_def kitchen_start_def owed_def portions_def)

lemma to_hand_keeps:
  assumes "to_hand_step s = Some s'" "kitchen_inv smoke_lines inp s"
  shows "kitchen_inv smoke_lines inp s'"
proof (cases "hpc s")
  case HRead
  show ?thesis
  proof (cases "stock s")
    case Nil
    then show ?thesis using HRead assms(1) inv_finish(1)[OF assms(2), of "HKill 0"] by (simp add: to_hand_step_def)
  next
    case (Cons c cs)
    then show ?thesis
      using HRead assms(1) inv_serve[OF assms(2) HRead Cons, of "ingredient c"]
      by (simp add: to_hand_step_def Let_def smoke_lines_def)
  qed
next
  case (HWait i)
  then show ?thesis using assms(1) inv_take_report[OF assms(2) HWait] by (simp add: to_hand_step_def split: if_splits)
next
  case (HKill i)
  then show ?thesis using assms(1) inv_finish[OF assms(2)] by (auto simp: to_hand_step_def split: if_splits)
next
  case (HReap i)
  then show ?thesis using assms(1) inv_finish(1)[OF assms(2)] by (auto simp: to_hand_step_def split: if_splits)
qed (use assms(1) in \<open>simp add: to_hand_step_def\<close>)

lemma to_smoke_keeps:
  assumes "to_smoke_step i s = Some s'" "kitchen_inv f inp s"
  shows "kitchen_inv f inp s'"
proof (cases "spc s i")
  case SStart
  then have "portions (s\<lparr>spc := (spc s)(i := SWait)\<rparr>) i = portions s i" by (simp add: portions_def)
  then show ?thesis using SStart assms(1) inv_move[OF assms(2), of i SWait] by (simp add: to_smoke_step_def)
next
  case SWait
  then show ?thesis using assms(1) inv_take[OF assms(2) SWait] by (auto simp: to_smoke_step_def split: if_splits)
next
  case SPrint
  then show ?thesis using assms(1) inv_print[OF assms(2) SPrint] by (simp add: to_smoke_step_def)
next
  case SPost
  then show ?thesis using assms(1) inv_report[OF assms(2) SPost, of SWait] by (simp add: to_smoke_step_def)
qed (use assms(1) in \<open>simp_all add: to_smoke_step_def\<close>)

lemma inv_leave:
  assumes "kitchen_inv f inp s" "\<not> serving (hpc s)"
  shows "kitchen_inv f inp (s\<lparr>spc := (spc s)(i := SDone)\<rparr>)"
proof -
  have "portions s i = 0" using inv_portions[OF assms(1), of i] assms(2) by (cases "hpc s") auto
  then show ?thesis using inv_move[OF assms(1), of i SDone] assms(2) by (auto simp: portions_def split: if_splits)
qed

lemma term_exit_keeps:
  assumes "term_exit i s = Some s'" "kitchen_inv f inp s"
  shows "kitchen_inv f inp s'"
proof -
  have "term_sent s i" "s' = s\<lparr>spc := (spc s)(i := SDone)\<rparr>" using assms(1) by (simp_all add: term_exit_def split: if_splits)
  moreover have "\<not> serving (hpc s)" using calculation(1) assms(2) by (auto simp: kitchen_inv_def)
  ultimately show ?thesis using inv_leave[OF assms(2)] by simp
qed

lemma smokers_inv: "smokers_reach inp s \<Longrightarrow> kitchen_inv smoke_lines inp s"
proof (induction rule: smokers_reach.induct)
  case start
  show ?case by (rule inv_start) (simp add: smoke_lines_def)
next
  case (step s s')
  from step.hyps(2) show ?case
    by cases (use step.IH to_hand_keeps to_smoke_keeps term_exit_keeps in blast)+
qed

text \<open>
  In every interleaving the output of the first program together with the line it owes for the letter in work is one
  line for each letter read: T for \<open>t\<close>, P for \<open>p\<close> and M for any other character, newlines included.  Before the first
  child is killed everything is printed.
\<close>

lemma smokers_print:
  assumes "smokers_reach inp s"
  shows "(\<exists>eaten. inp = eaten @ stock s \<and> paper s @ owed s = smoke_lines eaten) \<and>
    (\<not> serving (hpc s) \<longrightarrow> paper s = smoke_lines inp)"
proof -
  have inv: "kitchen_inv smoke_lines inp s" using smokers_inv[OF assms] .
  then obtain e where e: "inp = e @ stock s" "paper s @ owed s = smoke_lines e" by (auto simp: kitchen_inv_def)
  have "\<not> serving (hpc s) \<Longrightarrow> stock s = [] \<and> owed s = []"
    using inv by (cases "hpc s") (simp_all add: kitchen_inv_def owed_def)
  then show ?thesis using e by auto
qed

lemma smokers_print_witness: "\<exists>eaten. ''tp'' = eaten @ stock (kitchen_start ''tp'') \<and>
    paper (kitchen_start ''tp'') @ owed (kitchen_start ''tp'') = smoke_lines eaten"
  using smokers_print[OF smokers_reach.start[of "''tp''"]] by blast

subsection \<open>The first program ends\<close>

definition hand_inv :: "kitchen \<Rightarrow> bool" where
  "hand_inv s \<longleftrightarrow> (\<forall>i. spc s i \<noteq> SLoop \<and> spc s i \<noteq> SEnter \<and> spc s i \<noteq> SCheck) \<and>
     (\<forall>i. hpc s = HWait i \<longrightarrow> i < 3) \<and> (\<forall>i. hpc s = HKill i \<longrightarrow> i \<le> 3) \<and> (\<forall>i. hpc s = HReap i \<longrightarrow> i < 3 \<and> term_sent s i)"

lemma ingredient_less: "ingredient c < 3"
  by (simp add: ingredient_def)

lemma hand_inv_reach: "smokers_reach inp s \<Longrightarrow> hand_inv s"
proof (induction rule: smokers_reach.induct)
  case start
  show ?case by (simp add: hand_inv_def kitchen_start_def)
next
  case (step s s')
  from step.hyps(2) show ?case
  proof cases
    case hand
    then show ?thesis using step.IH ingredient_less
      by (cases "hpc s") (auto simp: hand_inv_def to_hand_step_def Let_def split: list.splits if_splits)
  next
    case (smoke i)
    then show ?thesis using step.IH
      by (cases "spc s i") (auto simp: hand_inv_def to_smoke_step_def split: if_splits)
  next
    case (leave i)
    then show ?thesis using step.IH by (auto simp: hand_inv_def term_exit_def split: if_splits)
  qed
qed

fun hand_rank :: "hand_pc \<Rightarrow> nat" where
  "hand_rank HRead = 9" | "hand_rank (HWait i) = 9" | "hand_rank (HKill i) = 8 - 2 * i" | "hand_rank (HReap i) = 7 - 2 * i"
| "hand_rank HDone = 0"

fun smoker_rank :: "smoker_pc \<Rightarrow> nat" where
  "smoker_rank SStart = 2" | "smoker_rank SPrint = 5" | "smoker_rank SPost = 4" | "smoker_rank SDone = 0" | "smoker_rank _ = 1"

definition portion_rank :: "kitchen \<Rightarrow> nat \<Rightarrow> nat" where
  "portion_rank s i = 5 * resources s i + smoker_rank (spc s i) + 2 * smoked s i"

definition kitchen_rank :: "kitchen \<Rightarrow> nat" where
  "kitchen_rank s = 10 * length (stock s) + hand_rank (hpc s) + portion_rank s 0 + portion_rank s 1 + portion_rank s 2"

lemma below_3: "i < 3 \<Longrightarrow> i = 0 \<or> i = 1 \<or> i = (2::nat)"
  by linarith

lemma to_hand_rank:
  assumes "to_hand_step s = Some s'" "hand_inv s"
  shows "kitchen_rank s' < kitchen_rank s"
proof (cases "hpc s")
  case HRead
  then show ?thesis using assms below_3[OF ingredient_less]
    by (auto simp: to_hand_step_def Let_def kitchen_rank_def portion_rank_def split: list.splits)
next
  case (HWait i)
  then have "i < 3" using assms(2) by (simp add: hand_inv_def)
  then show ?thesis using below_3[of i] HWait assms(1)
    by (auto simp: to_hand_step_def kitchen_rank_def portion_rank_def split: if_splits)
next
  case (HKill i)
  then have "i \<le> 3" using assms(2) by (simp add: hand_inv_def)
  then show ?thesis using HKill assms(1)
    by (auto simp: to_hand_step_def kitchen_rank_def portion_rank_def split: if_splits)
next
  case (HReap i)
  then have "i < 3" using assms(2) by (simp add: hand_inv_def)
  then show ?thesis using HReap assms(1)
    by (auto simp: to_hand_step_def kitchen_rank_def portion_rank_def split: if_splits)
qed (use assms(1) in \<open>simp add: to_hand_step_def\<close>)

lemma to_smoke_rank:
  assumes "to_smoke_step i s = Some s'" "i < 3"
  shows "kitchen_rank s' < kitchen_rank s"
  using assms(1) below_3[OF assms(2)]
  by (cases "spc s i") (auto simp: to_smoke_step_def kitchen_rank_def portion_rank_def split: if_splits)

lemma term_exit_rank:
  assumes "term_exit i s = Some s'" "i < 3"
  shows "kitchen_rank s' < kitchen_rank s"
  using assms(1) below_3[OF assms(2)]
  by (cases "spc s i") (auto simp: term_exit_def kitchen_rank_def portion_rank_def split: if_splits)

lemma smokers_not_stuck:
  assumes "kitchen_inv f inp s" "hand_inv s" "hpc s \<noteq> HDone"
  shows "\<exists>s'. smokers_step s s'"
proof (cases "hpc s")
  case HRead
  then show ?thesis by (auto simp: smokers_step_iff to_hand_step_def Let_def split: list.splits)
next
  case (HWait i)
  then have i: "i < 3" "spc s i \<notin> {SLoop, SEnter, SCheck}" using assms(2) by (auto simp: hand_inv_def)
  have "portions s i = 1" "spc s i \<noteq> SDone" using assms(1) HWait by (auto simp: kitchen_inv_def)
  then have "to_hand_step s \<noteq> None \<or> to_smoke_step i s \<noteq> None"
    using HWait i(2) by (cases "spc s i") (auto simp: portions_def to_hand_step_def to_smoke_step_def split: if_splits)
  then show ?thesis using i(1) by (auto simp: smokers_step_iff)
next
  case (HKill i)
  then show ?thesis by (auto simp: smokers_step_iff to_hand_step_def)
next
  case (HReap i)
  then have i: "i < 3" "term_sent s i" using assms(2) by (auto simp: hand_inv_def)
  then have "to_hand_step s \<noteq> None \<or> term_exit i s \<noteq> None" using HReap by (auto simp: to_hand_step_def term_exit_def)
  then show ?thesis using i(1) by (auto simp: smokers_step_iff)
qed (use assms(3) in simp)

text \<open>
  The first program always ends: until the table keeper has left, some process can take a step, and every step
  decreases a rank.
\<close>

lemma smokers_end:
  assumes "smokers_reach inp s"
  shows "(hpc s \<noteq> HDone \<longrightarrow> (\<exists>s'. smokers_step s s')) \<and> (\<forall>s'. smokers_step s s' \<longrightarrow> kitchen_rank s' < kitchen_rank s)"
proof -
  note inv = smokers_inv[OF assms] hand_inv_reach[OF assms]
  have "\<forall>s'. smokers_step s s' \<longrightarrow> kitchen_rank s' < kitchen_rank s"
    using to_hand_rank[OF _ inv(2)] to_smoke_rank term_exit_rank by (auto simp: smokers_step_iff)
  then show ?thesis using smokers_not_stuck[OF inv] by blast
qed

lemma smokers_end_witness: "\<exists>s'. smokers_step (kitchen_start ''tp'') s'"
  using smokers_end[OF smokers_reach.start[of "''tp''"]] by (simp add: kitchen_start_def)

text \<open>
  C17: In every interleaving the output of the first program together with the line it owes for the letter in work is one
  line for each letter read: T for \<open>t\<close>, P for \<open>p\<close> and M for any other character, newlines included.  Before the first
  child is killed everything is printed.  The program always ends: until the table keeper has left, some process
  can take a step, and every step decreases a rank.
\<close>

theorem smokers_serve:
  assumes "smokers_reach inp s"
  shows "(\<exists>eaten. inp = eaten @ stock s \<and> paper s @ owed s = smoke_lines eaten)
    \<and> (\<not> serving (hpc s) \<longrightarrow> paper s = smoke_lines inp)
    \<and> (hpc s \<noteq> HDone \<longrightarrow> (\<exists>s'. smokers_step s s'))
    \<and> (\<forall>s'. smokers_step s s' \<longrightarrow> kitchen_rank s' < kitchen_rank s)"
  using smokers_print[OF assms] smokers_end[OF assms] by blast

theorem smokers_serve_witness: "\<exists>s'. smokers_step (kitchen_start ''tp'') s'"
  using smokers_serve[OF smokers_reach.start[of "''tp''"]] by (simp add: kitchen_start_def)

subsection \<open>The second program\<close>

text \<open>Other characters are skipped.  All children get the signal before the first one is waited for.\<close>

definition smoker_of :: "char \<Rightarrow> nat option" where
  "smoker_of c = (if c = CHR ''t'' then Some 0 else if c = CHR ''p'' then Some 1 else if c = CHR ''m'' then Some 2 else None)"

definition keeper_step :: "kitchen \<Rightarrow> kitchen option" where
  "keeper_step s =
     (case hpc s of
        HRead \<Rightarrow>
          (case stock s of
             [] \<Rightarrow> Some (s\<lparr>hpc := HKill 0\<rparr>)
           | c # cs \<Rightarrow>
               (case smoker_of c of
                  None \<Rightarrow> Some (s\<lparr>stock := cs\<rparr>)
                | Some i \<Rightarrow> Some (s\<lparr>stock := cs, resources := (resources s)(i := resources s i + 1), hpc := HWait i\<rparr>)))
      | HWait i \<Rightarrow>
          (if 0 < smoked s i then Some (s\<lparr>smoked := (smoked s)(i := smoked s i - 1), hpc := HRead\<rparr>) else None)
      | HKill i \<Rightarrow>
          (if i < 3 then Some (s\<lparr>term_sent := (term_sent s)(i := True), hpc := HKill (i + 1)\<rparr>)
           else Some (s\<lparr>hpc := HReap 0\<rparr>))
      | HReap i \<Rightarrow>
          (if i < 3 then if spc s i = SDone then Some (s\<lparr>hpc := HReap (i + 1)\<rparr>) else None
           else Some (s\<lparr>hpc := HDone\<rparr>))
      | HDone \<Rightarrow> None)"

definition run_smoker_step :: "nat \<Rightarrow> kitchen \<Rightarrow> kitchen option" where
  "run_smoker_step i s =
     (case spc s i of
        SStart \<Rightarrow> Some (s\<lparr>spc := (spc s)(i := SLoop)\<rparr>)
      | SLoop \<Rightarrow> Some (s\<lparr>spc := (spc s)(i := (if kick_out s i then SDone else SEnter))\<rparr>)
      | SEnter \<Rightarrow> Some (s\<lparr>spc := (spc s)(i := SWait)\<rparr>)
      | SWait \<Rightarrow>
          (if 0 < resources s i
           then Some (s\<lparr>resources := (resources s)(i := resources s i - 1), spc := (spc s)(i := SCheck)\<rparr>) else None)
      | SCheck \<Rightarrow> Some (s\<lparr>spc := (spc s)(i := (if kick_out s i then SDone else SPrint))\<rparr>)
      | SPrint \<Rightarrow> Some (s\<lparr>paper := paper s @ smoke_line i, spc := (spc s)(i := SPost)\<rparr>)
      | SPost \<Rightarrow> Some (s\<lparr>smoked := (smoked s)(i := smoked s i + 1), spc := (spc s)(i := SLoop)\<rparr>)
      | SDone \<Rightarrow> None)"

text \<open>
  The signal is delivered: before its handler is set it ends the process, afterwards it sets the flag, and inside
  \<^verbatim>\<open>sem_wait\<close> the call is interrupted.
\<close>

definition deliver_term :: "nat \<Rightarrow> kitchen \<Rightarrow> kitchen option" where
  "deliver_term i s =
     (if term_sent s i \<and> spc s i \<noteq> SDone
      then let s = s\<lparr>term_sent := (term_sent s)(i := False)\<rparr> in
        if spc s i = SStart then Some (s\<lparr>spc := (spc s)(i := SDone)\<rparr>)
        else if spc s i = SWait then Some (s\<lparr>kick_out := (kick_out s)(i := True), spc := (spc s)(i := SCheck)\<rparr>)
        else Some (s\<lparr>kick_out := (kick_out s)(i := True)\<rparr>)
      else None)"

inductive kitchen_step :: "kitchen \<Rightarrow> kitchen \<Rightarrow> bool" where
  keeper: "keeper_step s = Some s' \<Longrightarrow> kitchen_step s s'"
| smoker: "i < 3 \<Longrightarrow> run_smoker_step i s = Some s' \<Longrightarrow> kitchen_step s s'"
| signal: "i < 3 \<Longrightarrow> deliver_term i s = Some s' \<Longrightarrow> kitchen_step s s'"

inductive_simps kitchen_step_iff: "kitchen_step s s'"

inductive kitchen_reach :: "string \<Rightarrow> kitchen \<Rightarrow> bool" for inp where
  start: "kitchen_reach inp (kitchen_start inp)"
| step: "kitchen_reach inp s \<Longrightarrow> kitchen_step s s' \<Longrightarrow> kitchen_reach inp s'"

definition type_lines :: "string \<Rightarrow> string" where
  "type_lines cs = concat (map (\<lambda>c. case smoker_of c of Some i \<Rightarrow> smoke_line i | None \<Rightarrow> []) cs)"

lemma keeper_keeps:
  assumes "keeper_step s = Some s'" "kitchen_inv type_lines inp s"
  shows "kitchen_inv type_lines inp s'"
proof (cases "hpc s")
  case HRead
  show ?thesis
  proof (cases "stock s")
    case Nil
    then show ?thesis using HRead assms(1) inv_finish(1)[OF assms(2), of "HKill 0"] by (simp add: keeper_step_def)
  next
    case (Cons c cs)
    show ?thesis
    proof (cases "smoker_of c")
      case None
      then have s': "s' = s\<lparr>stock := cs\<rparr>" using HRead Cons assms(1) by (simp add: keeper_step_def)
      obtain e where e: "inp = e @ c # cs" "paper s = type_lines e" using assms(2) HRead Cons by (auto simp: kitchen_inv_def owed_def)
      then have "inp = (e @ [c]) @ cs \<and> paper s = type_lines (e @ [c])" using None by (simp add: type_lines_def)
      then have "\<exists>eaten. inp = eaten @ cs \<and> paper s = type_lines eaten" by blast
      moreover have "portions (s\<lparr>stock := cs\<rparr>) j = portions s j" for j by (simp add: portions_def)
      ultimately show ?thesis using assms(2) HRead by (simp add: s' kitchen_inv_def owed_def)
    next
      case (Some i)
      then show ?thesis using HRead Cons assms(1) inv_serve[OF assms(2) HRead Cons, of i]
        by (simp add: keeper_step_def type_lines_def)
    qed
  qed
next
  case (HWait i)
  then show ?thesis using assms(1) inv_take_report[OF assms(2) HWait] by (simp add: keeper_step_def split: if_splits)
next
  case (HKill i)
  then show ?thesis using assms(1) inv_finish[OF assms(2)] by (auto simp: keeper_step_def split: if_splits)
next
  case (HReap i)
  then show ?thesis using assms(1) inv_finish(1)[OF assms(2)] by (auto simp: keeper_step_def split: if_splits)
qed (use assms(1) in \<open>simp add: keeper_step_def\<close>)

lemma kicked_not_serving: "kitchen_inv f inp s \<Longrightarrow> kick_out s i \<Longrightarrow> \<not> serving (hpc s)"
  by (auto simp: kitchen_inv_def)

lemma run_smoker_keeps:
  assumes "run_smoker_step i s = Some s'" "kitchen_inv f inp s"
  shows "kitchen_inv f inp s'"
proof (cases "spc s i")
  case SStart
  then have "portions (s\<lparr>spc := (spc s)(i := SLoop)\<rparr>) i = portions s i" by (simp add: portions_def)
  then show ?thesis using SStart assms(1) inv_move[OF assms(2), of i SLoop] by (simp add: run_smoker_step_def)
next
  case SLoop
  then have p: "portions (s\<lparr>spc := (spc s)(i := p)\<rparr>) i = portions s i" if "p = SDone \<or> p = SEnter" for p
    using that by (auto simp: portions_def)
  show ?thesis using SLoop assms(1) inv_move[OF assms(2) p] kicked_not_serving[OF assms(2)]
    by (auto simp: run_smoker_step_def split: if_splits)
next
  case SEnter
  then have "portions (s\<lparr>spc := (spc s)(i := SWait)\<rparr>) i = portions s i" by (simp add: portions_def)
  then show ?thesis using SEnter assms(1) inv_move[OF assms(2), of i SWait] by (simp add: run_smoker_step_def)
next
  case SWait
  then show ?thesis using assms(1) inv_take[OF assms(2) SWait] by (auto simp: run_smoker_step_def split: if_splits)
next
  case SCheck
  then have p: "portions (s\<lparr>spc := (spc s)(i := (if kick_out s i then SDone else SPrint))\<rparr>) i = portions s i"
    by (simp add: portions_def)
  show ?thesis using SCheck assms(1) inv_move[OF assms(2) p] kicked_not_serving[OF assms(2)]
    by (auto simp: run_smoker_step_def split: if_splits)
next
  case SPrint
  then show ?thesis using assms(1) inv_print[OF assms(2) SPrint] by (simp add: run_smoker_step_def)
next
  case SPost
  then show ?thesis using assms(1) inv_report[OF assms(2) SPost, of SLoop] by (simp add: run_smoker_step_def)
qed (use assms(1) in \<open>simp add: run_smoker_step_def\<close>)

lemma inv_flags:
  assumes "kitchen_inv f inp s" "\<not> serving (hpc s)" "spc s i \<noteq> SPrint \<and> spc s i \<noteq> SPost"
    "p = SDone \<or> p = SCheck \<and> k i \<or> p = spc s i" "\<And>j. j \<noteq> i \<Longrightarrow> k j = kick_out s j" "kick_out s i \<longrightarrow> k i"
  shows "kitchen_inv f inp (s\<lparr>term_sent := t, kick_out := k, spc := (spc s)(i := p)\<rparr>)" (is "kitchen_inv f inp ?s'")
proof -
  have h: "\<forall>i. hpc s \<noteq> HWait i" using assms(2) by auto
  have z: "portions s j = 0" for j using inv_portions[OF assms(1), of j] h by simp
  have "portions ?s' j = 0" for j
    using z[of j] assms(3,4,6) assms(5)[of j] by (cases "j = i") (auto simp: portions_def split: if_splits)
  moreover have "owed s = []" "owed ?s' = []" using h by (cases "hpc s"; simp add: owed_def)+
  ultimately show ?thesis using assms(1,2) h by (auto simp: kitchen_inv_def)
qed

lemma deliver_keeps:
  assumes "deliver_term i s = Some s'" "kitchen_inv f inp s"
  shows "kitchen_inv f inp s'"
proof -
  have t: "term_sent s i" using assms(1) by (simp add: deliver_term_def split: if_splits)
  then have n: "\<not> serving (hpc s)" using assms(2) by (auto simp: kitchen_inv_def)
  then have "portions s i = 0" using inv_portions[OF assms(2), of i] by (cases "hpc s") auto
  then have q: "spc s i \<noteq> SPrint \<and> spc s i \<noteq> SPost" by (auto simp: portions_def split: if_splits)
  define t' k' where "t' = (term_sent s)(i := False)" and "k' = (kick_out s)(i := True)"
  consider "s' = s\<lparr>term_sent := t', kick_out := kick_out s, spc := (spc s)(i := SDone)\<rparr>"
    | "s' = s\<lparr>term_sent := t', kick_out := k', spc := (spc s)(i := SCheck)\<rparr>"
    | "s' = s\<lparr>term_sent := t', kick_out := k', spc := (spc s)(i := spc s i)\<rparr>"
    using assms(1) by (auto simp: deliver_term_def Let_def t'_def k'_def split: if_splits)
  then show ?thesis
    by cases (use inv_flags[OF assms(2) n q, of SDone "kick_out s" t'] inv_flags[OF assms(2) n q, of SCheck k' t']
        inv_flags[OF assms(2) n q, of "spc s i" k' t'] in \<open>simp_all add: k'_def\<close>)
qed

lemma kitchen_reach_inv: "kitchen_reach inp s \<Longrightarrow> kitchen_inv type_lines inp s"
proof (induction rule: kitchen_reach.induct)
  case start
  show ?case by (rule inv_start) (simp add: type_lines_def)
next
  case (step s s')
  from step.hyps(2) show ?case
    by cases (use step.IH keeper_keeps run_smoker_keeps deliver_keeps in blast)+
qed

lemma kitchen_prints:
  assumes "kitchen_reach inp s"
  shows "(\<exists>eaten. inp = eaten @ stock s \<and> paper s @ owed s = type_lines eaten) \<and>
    (\<not> serving (hpc s) \<longrightarrow> paper s = type_lines inp)"
proof -
  have inv: "kitchen_inv type_lines inp s" using kitchen_reach_inv[OF assms] .
  then obtain e where e: "inp = e @ stock s" "paper s @ owed s = type_lines e" by (auto simp: kitchen_inv_def)
  have "\<not> serving (hpc s) \<Longrightarrow> stock s = [] \<and> owed s = []"
    using inv by (cases "hpc s") (simp_all add: kitchen_inv_def owed_def)
  then show ?thesis using e by auto
qed

subsection \<open>The second program may hang\<close>

text \<open>A schedule that handles all letters and leaves the smokers at the test of their loop.\<close>

definition at_rest :: "string \<Rightarrow> string \<Rightarrow> kitchen" where
  "at_rest cs out =
     \<lparr>stock = cs, hpc = HRead, resources = (\<lambda>i. 0), smoked = (\<lambda>i. 0), spc = (\<lambda>i. if i < 3 then SLoop else SStart),
      term_sent = (\<lambda>i. False), kick_out = (\<lambda>i. False), paper = out\<rparr>"

datatype process = Keeper | Smoker nat | Signal nat

fun process_step :: "process \<Rightarrow> kitchen \<Rightarrow> kitchen option" where
  "process_step Keeper s = keeper_step s"
| "process_step (Smoker i) s = (if i < 3 then run_smoker_step i s else None)"
| "process_step (Signal i) s = (if i < 3 then deliver_term i s else None)"

fun run_schedule :: "process list \<Rightarrow> kitchen \<Rightarrow> kitchen option" where
  "run_schedule [] s = Some s"
| "run_schedule (p # ps) s = (case process_step p s of None \<Rightarrow> None | Some s' \<Rightarrow> run_schedule ps s')"

lemma process_step_kitchen: "process_step p s = Some s' \<Longrightarrow> kitchen_step s s'"
  by (cases p) (auto simp: kitchen_step_iff split: if_splits)

lemma kitchen_schedule_reach: "run_schedule ps s = Some s' \<Longrightarrow> kitchen_reach inp s \<Longrightarrow> kitchen_reach inp s'"
  by (induction ps arbitrary: s) (auto split: option.splits dest: process_step_kitchen kitchen_reach.step)

lemma run_schedule_append:
  "run_schedule (ps @ qs) s = (case run_schedule ps s of None \<Rightarrow> None | Some s' \<Rightarrow> run_schedule qs s')"
  by (induction ps arbitrary: s) (auto split: option.splits)

lemma smoker_of_less: "smoker_of c = Some i \<Longrightarrow> i < 3"
  by (auto simp: smoker_of_def split: if_splits)

lemmas schedule_simps = keeper_step_def run_smoker_step_def deliver_term_def Let_def at_rest_def kitchen_start_def

lemma serve_one: "\<exists>ps. run_schedule ps (at_rest (c # cs) out) = Some (at_rest cs (out @ type_lines [c]))"
proof (cases "smoker_of c")
  case None
  then have "run_schedule [Keeper] (at_rest (c # cs) out) = Some (at_rest cs (out @ type_lines [c]))"
    by (simp add: keeper_step_def at_rest_def type_lines_def)
  then show ?thesis by blast
next
  case (Some i)
  have "(\<lambda>i. if i < 3 then SLoop else SStart)(i := SLoop) = (\<lambda>i. if i < 3 then SLoop else SStart)"
    "(\<lambda>i. 0 :: nat)(i := 0) = (\<lambda>i. 0)"
    using smoker_of_less[OF Some] by (auto simp: fun_eq_iff)
  then have "run_schedule ([Keeper] @ replicate 6 (Smoker i) @ [Keeper]) (at_rest (c # cs) out) = Some (at_rest cs (out @ type_lines [c]))"
    using Some smoker_of_less[OF Some] by (simp add: schedule_simps type_lines_def eval_nat_numeral)
  then show ?thesis by blast
qed

lemma serve_all: "\<exists>ps. run_schedule ps (at_rest cs out) = Some (at_rest [] (out @ type_lines cs))"
proof (induction cs arbitrary: out)
  case Nil
  have "run_schedule [] (at_rest [] out) = Some (at_rest [] (out @ type_lines []))" by (simp add: type_lines_def)
  then show ?case by blast
next
  case (Cons c cs)
  have "type_lines (c # cs) = type_lines [c] @ type_lines cs" by (simp add: type_lines_def)
  then obtain qs where "run_schedule qs (at_rest cs (out @ type_lines [c])) = Some (at_rest [] (out @ type_lines (c # cs)))"
    using Cons[of "out @ type_lines [c]"] by auto
  moreover obtain ps where "run_schedule ps (at_rest (c # cs) out) = Some (at_rest cs (out @ type_lines [c]))" using serve_one by blast
  ultimately have "run_schedule (ps @ qs) (at_rest (c # cs) out) = Some (at_rest [] (out @ type_lines (c # cs)))"
    by (simp add: run_schedule_append)
  then show ?case by blast
qed

lemma rest_reached: "kitchen_reach inp (at_rest [] (type_lines inp))"
proof -
  have "(\<lambda>i. SStart)(0 := SLoop, 1 := SLoop, 2 := SLoop) = (\<lambda>i :: nat. if i < 3 then SLoop else SStart)"
    by (auto simp: fun_eq_iff dest: below_3)
  then have "run_schedule [Smoker 0, Smoker 1, Smoker 2] (kitchen_start inp) = Some (at_rest inp [])"
    by (simp add: schedule_simps)
  then have "kitchen_reach inp (at_rest inp [])" using kitchen_schedule_reach[OF _ kitchen_reach.start] by blast
  moreover obtain ps where "run_schedule ps (at_rest inp []) = Some (at_rest [] (type_lines inp))"
    using serve_all[of inp "[]"] by auto
  ultimately show ?thesis using kitchen_schedule_reach by blast
qed

definition kitchen_stuck :: "kitchen \<Rightarrow> bool" where
  "kitchen_stuck s \<longleftrightarrow> keeper_step s = None \<and> (\<forall>i < 3. run_smoker_step i s = None \<and> deliver_term i s = None)"

text \<open>The signal reaches the first smoker between the test of the flag and \<^verbatim>\<open>sem_wait\<close>.\<close>

lemma rest_hangs:
  "\<exists>ps s. run_schedule ps (at_rest [] out) = Some s \<and> kitchen_stuck s \<and> hpc s = HReap 0"
  by (rule exI[of _ "[Keeper, Smoker 0, Keeper, Signal 0, Smoker 0, Keeper, Keeper, Signal 1, Smoker 1, Signal 2, Smoker 2, Keeper]"])
    (auto simp: schedule_simps kitchen_stuck_def dest!: below_3)

lemma rest_ends: "\<exists>ps s. run_schedule ps (at_rest [] out) = Some s \<and> hpc s = HDone"
  by (rule exI[of _ "replicate 5 Keeper @ [Signal 0, Signal 1, Signal 2, Smoker 0, Smoker 1, Smoker 2] @ replicate 4 Keeper"])
    (simp add: schedule_simps eval_nat_numeral)

text \<open>
  C18: The second program has printed one line for each of the letters \<open>t\<close>, \<open>p\<close> and \<open>m\<close> before it kills a child, in every
  interleaving.  After that some schedules end it and others hang it: a signal that arrives between the test of the flag and
  \<^verbatim>\<open>sem_wait\<close> is lost, the child waits for ever and so does its parent.
\<close>

theorem kitchen_prints_may_hang:
  "(\<forall>s. kitchen_reach inp s \<longrightarrow> \<not> serving (hpc s) \<longrightarrow> paper s = type_lines inp) \<and>
   (\<exists>s. kitchen_reach inp s \<and> hpc s = HDone) \<and>
   (\<exists>s. kitchen_reach inp s \<and> kitchen_stuck s \<and> hpc s = HReap 0)"
  using kitchen_prints rest_ends[of "type_lines inp"] rest_hangs[of "type_lines inp"] kitchen_schedule_reach[OF _ rest_reached] by blast

lemma kitchen_prints_may_hang_witness: "\<exists>s. kitchen_reach ''tpm'' s \<and> hpc s = HDone \<and> paper s = type_lines ''tpm''"
  using kitchen_prints_may_hang[of "''tpm''"] by force

end
