(* ===== verification/LockFreePush.thy ===== *)
theory LockFreePush
  imports LockFreeList
begin

section \<open>threads_atomic: pushing to the front of a shared list\<close>

text \<open>
  \<^verbatim>\<open>inf19-2_posix_threads_atomic/file.c\<close>: the program that keeps only the first item of the list.  \<^verbatim>\<open>add_item\<close>
  allocates an item, exchanges the head with it atomically and only then writes its two fields, so other threads may find
  items with arbitrary contents behind the head.  The threads are interleaved between these four actions.  The
  specification is the log of \<open>LockFreeList\<close>: the list ends as the log of exchanges, read backwards.
\<close>

subsection \<open>The program\<close>

datatype push_pc = Counting nat | Allocated nat nat | Exchanged nat nat "nat option" | Chained nat nat | Finished

record push_state =
  nodes :: "nat \<Rightarrow> item option"
  top :: "nat option"
  workers :: "nat \<Rightarrow> push_pc"

text \<open>
  One action of thread \<open>t\<close>, which is in \<^verbatim>\<open>fill_list\<close> with the values from \<open>t * k\<close> below \<open>(t + 1) * k\<close>.  \<open>p\<close> is the
  address that \<^verbatim>\<open>malloc\<close> returns if it is called and \<open>garbage\<close> what is stored there; \<open>None\<close> is an
  access to no item.
\<close>

definition add_item_step :: "nat \<Rightarrow> nat \<Rightarrow> nat \<Rightarrow> item \<Rightarrow> push_state \<Rightarrow> push_state option" where
  "add_item_step k t p garbage s =
     (case workers s t of
        Counting i \<Rightarrow>
          (if i < (t + 1) * k
           then Some (s\<lparr>nodes := (nodes s)(p := Some garbage), workers := (workers s)(t := Allocated i p)\<rparr>)
           else Some (s\<lparr>workers := (workers s)(t := Finished)\<rparr>))
      | Allocated i q \<Rightarrow> Some (s\<lparr>top := Some q, workers := (workers s)(t := Exchanged i q (top s))\<rparr>)
      | Exchanged i q old \<Rightarrow>
          map_option (\<lambda>it. s\<lparr>nodes := (nodes s)(q := Some (it\<lparr>item_next := old\<rparr>)), workers := (workers s)(t := Chained i q)\<rparr>)
            (nodes s q)
      | Chained i q \<Rightarrow>
          map_option (\<lambda>it. s\<lparr>nodes := (nodes s)(q := Some (it\<lparr>item_value := i\<rparr>)), workers := (workers s)(t := Counting (i + 1))\<rparr>)
            (nodes s q)
      | Finished \<Rightarrow> Some s)"

definition push_init :: "nat \<Rightarrow> push_state" where
  "push_init k = \<lparr>nodes = (\<lambda>_. None), top = None, workers = (\<lambda>t. Counting (t * k))\<rparr>"

inductive push_reach :: "nat \<Rightarrow> nat \<Rightarrow> push_state \<Rightarrow> bool" for n k where
  created: "push_reach n k (push_init k)"
| act: "push_reach n k s \<Longrightarrow> t < n \<Longrightarrow> nodes s p = None \<Longrightarrow> add_item_step k t p garbage s = Some s' \<Longrightarrow> push_reach n k s'"

text \<open>The printed values; \<open>None\<close> is the use of a null pointer, of an address that holds no item, or no end.\<close>

partial_function (option) print_list :: "(nat \<Rightarrow> item option) \<Rightarrow> nat option \<Rightarrow> nat list option" where
  "print_list m cur =
     (case cur of
        None \<Rightarrow> None
      | Some a \<Rightarrow>
          (case m a of
             None \<Rightarrow> None
           | Some it \<Rightarrow>
               (if item_next it \<noteq> None
                then Option.bind (print_list m (item_next it)) (\<lambda>vs. Some (item_value it # vs))
                else Some [item_value it])))"

subsection \<open>The invariant\<close>

text \<open>\<open>rs\<close> has the items that were exchanged, the newest first, with the values they are to hold.\<close>

fun front :: "(nat \<times> nat) list \<Rightarrow> nat option" where
  "front [] = None" | "front ((p, v) # rs) = Some p"

fun owned :: "push_pc \<Rightarrow> nat option" where
  "owned (Allocated i p) = Some p" | "owned (Exchanged i p old) = Some p" | "owned (Chained i p) = Some p" | "owned _ = None"

fun pushed :: "nat \<Rightarrow> nat \<Rightarrow> push_pc \<Rightarrow> nat" where
  "pushed k t (Counting i) = i" | "pushed k t (Allocated i p) = i" | "pushed k t (Exchanged i p old) = i + 1"
| "pushed k t (Chained i p) = i + 1" | "pushed k t Finished = (t + 1) * k"

definition item_ok :: "push_state \<Rightarrow> nat \<Rightarrow> nat \<Rightarrow> nat option \<Rightarrow> bool" where
  "item_ok s p v old \<longleftrightarrow> nodes s p \<noteq> None \<and>
     ((\<exists>t. workers s t = Exchanged v p old) \<or>
      item_next (the (nodes s p)) = old \<and> ((\<exists>t. workers s t = Chained v p) \<or> item_value (the (nodes s p)) = v))"

definition worker_ok :: "nat \<Rightarrow> push_state \<Rightarrow> (nat \<times> nat) list \<Rightarrow> nat \<Rightarrow> bool" where
  "worker_ok k s rs t \<longleftrightarrow>
     (case workers s t of
        Counting i \<Rightarrow> i \<le> (t + 1) * k
      | Allocated i p \<Rightarrow> i < (t + 1) * k \<and> nodes s p \<noteq> None \<and> p \<notin> fst ` set rs
      | Exchanged i p old \<Rightarrow> i < (t + 1) * k \<and> (\<exists>j<length rs. rs ! j = (p, i) \<and> old = front (drop (Suc j) rs))
      | Chained i p \<Rightarrow> i < (t + 1) * k \<and> (p, i) \<in> set rs
      | Finished \<Rightarrow> True) \<and>
     (\<forall>u p. owned (workers s t) = Some p \<longrightarrow> owned (workers s u) = Some p \<longrightarrow> u = t)"

definition push_inv :: "nat \<Rightarrow> nat \<Rightarrow> push_state \<Rightarrow> (nat \<times> nat) list \<Rightarrow> bool" where
  "push_inv n k s rs \<longleftrightarrow> distinct (map fst rs) \<and> top s = front rs \<and>
     (\<forall>j<length rs. item_ok s (fst (rs ! j)) (snd (rs ! j)) (front (drop (Suc j) rs))) \<and>
     (\<forall>t. worker_ok k s rs t) \<and> log_reach n k (rev (map snd rs)) (\<lambda>t. pushed k t (workers s t))"

lemma push_invI:
  "distinct (map fst rs) \<Longrightarrow> top s = front rs \<Longrightarrow>
   (\<And>j. j < length rs \<Longrightarrow> item_ok s (fst (rs ! j)) (snd (rs ! j)) (front (drop (Suc j) rs))) \<Longrightarrow>
   (\<And>t. worker_ok k s rs t) \<Longrightarrow> log_reach n k (rev (map snd rs)) (\<lambda>t. pushed k t (workers s t)) \<Longrightarrow> push_inv n k s rs"
  by (simp add: push_inv_def)

lemma push_invD:
  assumes "push_inv n k s rs"
  shows "distinct (map fst rs)" "top s = front rs"
    "j < length rs \<Longrightarrow> item_ok s (fst (rs ! j)) (snd (rs ! j)) (front (drop (Suc j) rs))"
    "worker_ok k s rs t" "log_reach n k (rev (map snd rs)) (\<lambda>t. pushed k t (workers s t))"
  using assms by (simp_all add: push_inv_def)

lemma listed_allocated: "push_inv n k s rs \<Longrightarrow> p \<in> fst ` set rs \<Longrightarrow> nodes s p \<noteq> None"
  using push_invD(3)[of n k s rs] by (auto simp: in_set_conv_nth item_ok_def) (metis fst_conv option.distinct(1))

lemma only_owner: "push_inv n k s rs \<Longrightarrow> owned (workers s t) = Some p \<Longrightarrow> owned (workers s u) = Some p \<Longrightarrow> u = t"
  using push_invD(4)[of n k s rs t] unfolding worker_ok_def by blast

text \<open>No other thread owns the item of thread \<open>t\<close> after its step to \<open>c\<close>.\<close>

lemma owner_after:
  assumes "\<And>u. owned (workers s u) = Some p \<Longrightarrow> u = t" "workers s' = (workers s)(t := c)" "owned c = Some p \<or> owned c = None"
  shows "\<forall>u q. owned (workers s' t) = Some q \<longrightarrow> owned (workers s' u) = Some q \<longrightarrow> u = t"
  using assms(2,3) by (auto split: if_splits dest: assms(1))

lemma pushed_same:
  assumes "workers s' = (workers s)(t := c)" "pushed k t c = pushed k t (workers s t)"
  shows "(\<lambda>u. pushed k u (workers s' u)) = (\<lambda>u. pushed k u (workers s u))"
  using assms by (auto simp: fun_eq_iff)

lemma item_ok_other:
  assumes "item_ok s q v old" "nodes s' q = nodes s q" "workers s' = (workers s)(t := c)" "owned (workers s t) \<noteq> Some q"
  shows "item_ok s' q v old"
proof -
  have "workers s' u = workers s u" if "owned (workers s u) = Some q" for u using that assms(3,4) by auto
  then have "workers s u = Exchanged v q old \<Longrightarrow> workers s' u = Exchanged v q old"
    "workers s u = Chained v q \<Longrightarrow> workers s' u = Chained v q" for u by auto
  then show ?thesis using assms(1,2) unfolding item_ok_def by metis
qed

lemma worker_ok_other:
  assumes "worker_ok k s rs u" "u \<noteq> t" "workers s' = (workers s)(t := c)" "owned c = None \<or> owned c = owned (workers s t)"
    "\<And>q. nodes s' q = None \<Longrightarrow> nodes s q = None"
  shows "worker_ok k s' rs u"
proof -
  have w: "workers s' u = workers s u" using assms(2,3) by simp
  have "\<forall>v p. owned (workers s' u) = Some p \<longrightarrow> owned (workers s' v) = Some p \<longrightarrow> v = u"
    using assms(1,3,4) w unfolding worker_ok_def by (metis fun_upd_apply option.distinct(1))
  then show ?thesis using assms(1) assms(5) w unfolding worker_ok_def by (auto split: push_pc.splits)
qed

lemma keeps_alloc:
  assumes inv: "push_inv n k s rs" and pc: "workers s t = Counting i" "i < (t + 1) * k" "nodes s p = None"
    and s': "s' = s\<lparr>nodes := (nodes s)(p := Some garbage), workers := (workers s)(t := Allocated i p)\<rparr>"
  shows "push_inv n k s' rs"
proof (rule push_invI)
  have new: "p \<notin> fst ` set rs" using listed_allocated[OF inv] pc(3) by blast
  have free: "owned (workers s u) \<noteq> Some p" for u
  proof
    assume o: "owned (workers s u) = Some p"
    then have "nodes s p \<noteq> None \<or> p \<in> fst ` set rs"
      using push_invD(4)[OF inv, of u] by (cases "workers s u") (force simp: worker_ok_def in_set_conv_nth)+
    then show False using pc(3) new by blast
  qed
  show "distinct (map fst rs)" "top s' = front rs" using push_invD(1,2)[OF inv] by (simp_all add: s')
  show "log_reach n k (rev (map snd rs)) (\<lambda>t. pushed k t (workers s' t))"
    using push_invD(5)[OF inv] pushed_same[of s' s t "Allocated i p" k] pc(1) by (simp add: s')
  show "item_ok s' (fst (rs ! j)) (snd (rs ! j)) (front (drop (Suc j) rs))" if "j < length rs" for j
  proof (rule item_ok_other[OF push_invD(3)[OF inv that]])
    have "fst (rs ! j) \<noteq> p" using new that by (metis image_eqI nth_mem)
    then show "nodes s' (fst (rs ! j)) = nodes s (fst (rs ! j))" by (simp add: s')
    show "workers s' = (workers s)(t := Allocated i p)" by (simp add: s')
  qed (simp add: pc(1))
  show "worker_ok k s' rs u" for u
  proof (cases "u = t")
    case True
    then show ?thesis using pc(2) new free by (auto simp: worker_ok_def s')
  next
    case False
    then have w: "workers s' u = workers s u" by (simp add: s')
    have "\<forall>v q. owned (workers s' u) = Some q \<longrightarrow> owned (workers s' v) = Some q \<longrightarrow> v = u"
      using only_owner[OF inv] free w False by (auto simp: s' split: if_splits)
    then show ?thesis using push_invD(4)[OF inv, of u] w unfolding worker_ok_def
      by (auto simp: s' split: push_pc.splits)
  qed
qed

lemma keeps_exchange:
  assumes inv: "push_inv n k s rs" and t: "t < n" and pc: "workers s t = Allocated i p"
    and s': "s' = s\<lparr>top := Some p, workers := (workers s)(t := Exchanged i p (top s))\<rparr>"
  shows "push_inv n k s' ((p, i) # rs)"
proof (rule push_invI)
  have ok: "i < (t + 1) * k" "nodes s p \<noteq> None" "p \<notin> fst ` set rs"
    using push_invD(4)[OF inv, of t] pc by (auto simp: worker_ok_def)
  have own: "owned (workers s u) = Some p \<Longrightarrow> u = t" for u using only_owner[OF inv, of t p u] pc by simp
  have w: "workers s' = (workers s)(t := Exchanged i p (top s))" by (simp add: s')
  show "distinct (map fst ((p, i) # rs))" "top s' = front ((p, i) # rs)"
    using push_invD(1)[OF inv] ok(3) by (simp_all add: s')
  have "(\<lambda>u. pushed k u (workers s' u)) = (\<lambda>u. pushed k u (workers s u))(t := pushed k t (workers s t) + 1)"
    using pc by (auto simp: fun_eq_iff w)
  moreover have "log_reach n k (rev (map snd rs) @ [pushed k t (workers s t)])
      ((\<lambda>u. pushed k u (workers s u))(t := pushed k t (workers s t) + 1))"
    using log_reach.push[OF push_invD(5)[OF inv] t] ok(1) pc by simp
  ultimately show "log_reach n k (rev (map snd ((p, i) # rs))) (\<lambda>u. pushed k u (workers s' u))" using pc by simp
  show "item_ok s' (fst (((p, i) # rs) ! j)) (snd (((p, i) # rs) ! j)) (front (drop (Suc j) ((p, i) # rs)))"
    if "j < length ((p, i) # rs)" for j
  proof (cases j)
    case 0
    have "workers s' t = Exchanged i p (front rs)" using w push_invD(2)[OF inv] by simp
    then show ?thesis using 0 ok(2) unfolding item_ok_def by (auto simp: s')
  next
    case (Suc l)
    then have l: "l < length rs" using that by simp
    have "fst (rs ! l) \<noteq> p" using ok(3) l by (metis image_eqI nth_mem)
    then have "item_ok s' (fst (rs ! l)) (snd (rs ! l)) (front (drop (Suc l) rs))"
      using item_ok_other[OF push_invD(3)[OF inv l] _ w] pc by (simp add: s')
    then show ?thesis using Suc by simp
  qed
  show "worker_ok k s' ((p, i) # rs) u" for u
  proof (cases "u = t")
    case True
    have o: "\<forall>v q. owned (workers s' t) = Some q \<longrightarrow> owned (workers s' v) = Some q \<longrightarrow> v = t"
      using owner_after[OF own w] by simp
    have "\<exists>j<length ((p, i) # rs). ((p, i) # rs) ! j = (p, i) \<and> top s = front (drop (Suc j) ((p, i) # rs))"
      using push_invD(2)[OF inv] by (intro exI[of _ 0]) simp
    then show ?thesis unfolding worker_ok_def True using ok(1) by (intro conjI o) (simp add: w)
  next
    case False
    have o: "worker_ok k s' rs u" using worker_ok_other[OF push_invD(4)[OF inv] False w] pc by (simp add: s')
    have np: "owned (workers s' u) \<noteq> Some p" using own False w by auto
    show ?thesis
    proof (cases "workers s' u")
      case (Exchanged a q old)
      then obtain j where "j < length rs" "rs ! j = (q, a)" "old = front (drop (Suc j) rs)" using o by (auto simp: worker_ok_def)
      then have "\<exists>j<length ((p, i) # rs). ((p, i) # rs) ! j = (q, a) \<and> old = front (drop (Suc j) ((p, i) # rs))"
        by (intro exI[of _ "Suc j"]) simp
      then show ?thesis using o Exchanged unfolding worker_ok_def by simp
    qed (use o np in \<open>auto simp: worker_ok_def\<close>)
  qed
qed

lemma listed_unique: "distinct (map fst rs) \<Longrightarrow> j < length rs \<Longrightarrow> l < length rs \<Longrightarrow> fst (rs ! j) = fst (rs ! l) \<Longrightarrow> j = l"
  by (metis length_map nth_eq_iff_index_eq nth_map)

text \<open>A thread fills a field of an item of the list and goes on to \<open>c\<close>.\<close>

lemma keeps_fill:
  assumes inv: "push_inv n k s rs" and own: "owned (workers s t) = Some p"
    and c: "owned c = None \<or> owned c = Some p" "pushed k t c = pushed k t (workers s t)" "worker_ok k s' rs t"
    and j: "j < length rs" "fst (rs ! j) = p" "item_ok s' p (snd (rs ! j)) (front (drop (Suc j) rs))"
    and s': "s' = s\<lparr>nodes := (nodes s)(p := Some it), workers := (workers s)(t := c)\<rparr>"
  shows "push_inv n k s' rs"
proof (rule push_invI)
  have w: "workers s' = (workers s)(t := c)" by (simp add: s')
  show "distinct (map fst rs)" "top s' = front rs" using push_invD(1,2)[OF inv] by (simp_all add: s')
  show "log_reach n k (rev (map snd rs)) (\<lambda>u. pushed k u (workers s' u))"
    using push_invD(5)[OF inv] pushed_same[OF w c(2)] by simp
  show "item_ok s' (fst (rs ! l)) (snd (rs ! l)) (front (drop (Suc l) rs))" if "l < length rs" for l
  proof (cases "l = j")
    case False
    then have "fst (rs ! l) \<noteq> p" using listed_unique[OF push_invD(1)[OF inv] that j(1)] j(2) by auto
    then show ?thesis using item_ok_other[OF push_invD(3)[OF inv that] _ w] own by (simp add: s')
  qed (use j in simp)
  have n: "nodes s' q = None \<Longrightarrow> nodes s q = None" for q by (auto simp: s' split: if_splits)
  have o: "owned c = None \<or> owned c = owned (workers s t)" using c(1) own by simp
  show "worker_ok k s' rs u" for u
    using c(3) worker_ok_other[OF push_invD(4)[OF inv, of u] _ w o n] by (cases "u = t") simp_all
qed

lemma keeps_link:
  assumes inv: "push_inv n k s rs" and pc: "workers s t = Exchanged i p old" and it: "nodes s p = Some it"
    and s': "s' = s\<lparr>nodes := (nodes s)(p := Some (it\<lparr>item_next := old\<rparr>)), workers := (workers s)(t := Chained i p)\<rparr>"
  shows "push_inv n k s' rs"
proof -
  obtain j where j: "i < (t + 1) * k" "j < length rs" "rs ! j = (p, i)" "old = front (drop (Suc j) rs)"
    using push_invD(4)[OF inv, of t] pc by (auto simp: worker_ok_def)
  have own: "owned (workers s u) = Some p \<Longrightarrow> u = t" for u using only_owner[OF inv, of t p u] pc by simp
  have "(p, i) \<in> set rs" using j(2,3) by (metis nth_mem)
  have w: "workers s' = (workers s)(t := Chained i p)" by (simp add: s')
  have o: "\<forall>v q. owned (workers s' t) = Some q \<longrightarrow> owned (workers s' v) = Some q \<longrightarrow> v = t"
    using owner_after[OF own w] by simp
  have "worker_ok k s' rs t"
    unfolding worker_ok_def using j(1) \<open>(p, i) \<in> set rs\<close> by (intro conjI o) (simp add: w)
  moreover have "item_ok s' p (snd (rs ! j)) (front (drop (Suc j) rs))"
  proof -
    have "nodes s' p = Some (it\<lparr>item_next := front (drop (Suc j) rs)\<rparr>)" using j(4) by (simp add: s')
    moreover have "workers s' t = Chained i p" by (simp add: s')
    ultimately show ?thesis unfolding item_ok_def j(3) by auto
  qed
  ultimately show ?thesis using keeps_fill[OF inv _ _ _ _ j(2) _ _ s'] pc j(3) by simp
qed

lemma keeps_value:
  assumes inv: "push_inv n k s rs" and pc: "workers s t = Chained i p" and it: "nodes s p = Some it"
    and s': "s' = s\<lparr>nodes := (nodes s)(p := Some (it\<lparr>item_value := i\<rparr>)), workers := (workers s)(t := Counting (i + 1))\<rparr>"
  shows "push_inv n k s' rs"
proof -
  obtain j where j: "i < (t + 1) * k" "j < length rs" "rs ! j = (p, i)"
    using push_invD(4)[OF inv, of t] pc by (auto simp: worker_ok_def in_set_conv_nth)
  have "workers s u \<noteq> Exchanged i p old" for u old using only_owner[OF inv, of t p u] pc by auto
  then have "item_next it = front (drop (Suc j) rs)" using push_invD(3)[OF inv j(2)] j(3) it by (auto simp: item_ok_def)
  then have "item_ok s' p (snd (rs ! j)) (front (drop (Suc j) rs))" using j(3) by (simp add: item_ok_def s')
  moreover have "worker_ok k s' rs t" using j(1) by (simp add: worker_ok_def s')
  ultimately show ?thesis using keeps_fill[OF inv _ _ _ _ j(2) _ _ s'] pc j(3) by simp
qed

lemma keeps_finish:
  assumes inv: "push_inv n k s rs" and pc: "workers s t = Counting i" "\<not> i < (t + 1) * k"
    and s': "s' = s\<lparr>workers := (workers s)(t := Finished)\<rparr>"
  shows "push_inv n k s' rs"
proof (rule push_invI)
  have w: "workers s' = (workers s)(t := Finished)" by (simp add: s')
  have "i = (t + 1) * k" using push_invD(4)[OF inv, of t] pc by (simp add: worker_ok_def)
  then show "log_reach n k (rev (map snd rs)) (\<lambda>u. pushed k u (workers s' u))"
    using push_invD(5)[OF inv] pushed_same[OF w] pc(1) by simp
  show "distinct (map fst rs)" "top s' = front rs" using push_invD(1,2)[OF inv] by (simp_all add: s')
  show "item_ok s' (fst (rs ! j)) (snd (rs ! j)) (front (drop (Suc j) rs))" if "j < length rs" for j
    using item_ok_other[OF push_invD(3)[OF inv that] _ w] pc(1) by (simp add: s')
  have n: "nodes s' q = None \<Longrightarrow> nodes s q = None" for q by (simp add: s')
  have "worker_ok k s' rs t" by (simp add: worker_ok_def s')
  then show "worker_ok k s' rs u" for u
    using worker_ok_other[OF push_invD(4)[OF inv, of u] _ w _ n] by (cases "u = t") simp_all
qed

text \<open>Every action of a thread succeeds and keeps the invariant.\<close>

lemma add_item_step_inv:
  assumes inv: "push_inv n k s rs" and t: "t < n" and fresh: "nodes s p = None"
  shows "\<exists>s' rs'. add_item_step k t p garbage s = Some s' \<and> push_inv n k s' rs'"
proof (cases "workers s t")
  case (Counting i)
  then show ?thesis using keeps_alloc[OF inv Counting _ fresh refl] keeps_finish[OF inv Counting _ refl]
    by (auto simp: add_item_step_def)
next
  case (Allocated i q)
  then show ?thesis using keeps_exchange[OF inv t Allocated refl] by (auto simp: add_item_step_def)
next
  case (Exchanged i q old)
  then have "q \<in> fst ` set rs" using push_invD(4)[OF inv, of t] by (force simp: worker_ok_def in_set_conv_nth)
  then obtain it where it: "nodes s q = Some it" using listed_allocated[OF inv] by blast
  show ?thesis using keeps_link[OF inv Exchanged it refl] Exchanged it by (auto simp: add_item_step_def)
next
  case (Chained i q)
  then have "q \<in> fst ` set rs" using push_invD(4)[OF inv, of t] by (force simp: worker_ok_def)
  then obtain it where it: "nodes s q = Some it" using listed_allocated[OF inv] by blast
  show ?thesis using keeps_value[OF inv Chained it refl] Chained it by (auto simp: add_item_step_def)
next
  case Finished
  then show ?thesis using inv by (auto simp: add_item_step_def)
qed

lemma push_init_inv: "push_inv n k (push_init k) []"
  using log_reach.init[of n k] by (intro push_invI) (auto simp: push_init_def worker_ok_def)

lemma push_reach_inv: "push_reach n k s \<Longrightarrow> \<exists>rs. push_inv n k s rs"
proof (induction rule: push_reach.induct)
  case created
  then show ?case using push_init_inv by blast
next
  case (act s t p garbage s')
  then obtain rs where "push_inv n k s rs" by blast
  from add_item_step_inv[OF this act.hyps(2,3), of garbage] act.hyps(4) show ?case by auto
qed

lemma outside_idle: "push_reach n k s \<Longrightarrow> n \<le> t \<Longrightarrow> workers s t = Counting (t * k)"
proof (induction rule: push_reach.induct)
  case created
  then show ?case by (simp add: push_init_def)
next
  case (act s u p garbage s')
  then have "workers s' t = workers s t"
    by (auto simp: add_item_step_def split: push_pc.splits if_splits)
  then show ?case using act by simp
qed

subsection \<open>The final list\<close>

lemma print_chained:
  assumes "\<And>j. j < length rs \<Longrightarrow> nodes s (fst (rs ! j)) = Some \<lparr>item_next = front (drop (Suc j) rs), item_value = snd (rs ! j)\<rparr>"
    and "rs \<noteq> []"
  shows "print_list (nodes s) (front rs) = Some (map snd rs)"
  using assms
proof (induction rs)
  case (Cons r rs)
  obtain p v where r: "r = (p, v)" by fastforce
  have it: "nodes s p = Some \<lparr>item_next = front rs, item_value = v\<rparr>" using Cons.prems(1)[of 0] r by simp
  show ?case
  proof (cases rs)
    case Nil
    then show ?thesis using it r by (simp add: print_list.simps)
  next
    case (Cons r' rs')
    have "front rs \<noteq> None" using Cons by (cases r') simp
    moreover have "print_list (nodes s) (front rs) = Some (map snd rs)"
      using Cons.IH Cons.prems(1)[of "Suc _"] Cons by auto
    ultimately show ?thesis using it r by (simp add: print_list.simps[of _ "Some p"])
  qed
qed simp

lemma finished_items:
  assumes inv: "push_inv n k s rs" and idle: "\<forall>t<n. workers s t = Finished" "\<forall>t\<ge>n. workers s t = Counting (t * k)"
    and j: "j < length rs"
  shows "nodes s (fst (rs ! j)) = Some \<lparr>item_next = front (drop (Suc j) rs), item_value = snd (rs ! j)\<rparr>"
proof -
  have "workers s t = Finished \<or> workers s t = Counting (t * k)" for t using idle by (cases "t < n") auto
  then have "workers s t \<noteq> Exchanged a b c" "workers s t \<noteq> Chained a b" for t a b c by (metis push_pc.distinct(3,5,7,9,15,17,19))+
  then show ?thesis using push_invD(3)[OF inv j] by (cases "the (nodes s (fst (rs ! j)))") (auto simp: item_ok_def)
qed

text \<open>
  C21: When all threads of the second program have ended, the printed list has each of the values from 0 below \<open>n * k\<close>
  exactly once, those of one thread in descending order.  Without any value the program dereferences a null pointer.
\<close>

theorem add_item_pushes_all:
  assumes "push_reach n k s" and "\<forall>t<n. workers s t = Finished"
  shows "(0 < n * k \<longrightarrow> (\<exists>xs. print_list (nodes s) (top s) = Some xs \<and> mset xs = mset [0 ..< n * k]
      \<and> (\<forall>t<n. filter (\<lambda>v. v div k = t) xs = rev [t * k ..< (t + 1) * k])))
    \<and> (n * k = 0 \<longrightarrow> print_list (nodes s) (top s) = None)"
proof -
  obtain rs where inv: "push_inv n k s rs" using push_reach_inv[OF assms(1)] by blast
  have idle: "\<forall>t\<ge>n. workers s t = Counting (t * k)" using outside_idle[OF assms(1)] by blast
  let ?nx = "\<lambda>t. if t < n then (t + 1) * k else t * k"
  have "(\<lambda>t. pushed k t (workers s t)) = ?nx" using assms(2) idle by (auto simp: fun_eq_iff)
  then have log: "log_reach n k (rev (map snd rs)) ?nx" using push_invD(5)[OF inv] by simp
  have m: "mset (map snd rs) = mset [0 ..< n * k]" using log_reach_final[OF log] by simp
  have f: "filter (\<lambda>v. v div k = t) (map snd rs) = rev [t * k ..< (t + 1) * k]" if "t < n" for t
  proof -
    have "rev (filter (\<lambda>v. v div k = t) (map snd rs)) = [t * k ..< (t + 1) * k]"
      using log_reach_inv[OF log] that by (simp add: rev_filter)
    then show ?thesis by (metis rev_rev_ident)
  qed
  have "length (map snd rs) = length [0 ..< n * k]" using m by (metis size_mset)
  then have len: "length rs = n * k" by simp
  show ?thesis
  proof (intro conjI impI)
    assume "0 < n * k"
    then have "rs \<noteq> []" using len by auto
    then have "print_list (nodes s) (top s) = Some (map snd rs)"
      using print_chained[OF finished_items[OF inv assms(2) idle]] push_invD(2)[OF inv] by simp
    then show "\<exists>xs. print_list (nodes s) (top s) = Some xs \<and> mset xs = mset [0 ..< n * k]
      \<and> (\<forall>t<n. filter (\<lambda>v. v div k = t) xs = rev [t * k ..< (t + 1) * k])" using m f by blast
  next
    assume "n * k = 0"
    then have "rs = []" using len by (metis length_0_conv)
    then have "top s = None" using push_invD(2)[OF inv] by simp
    then show "print_list (nodes s) (top s) = None" by (simp add: print_list.simps)
  qed
qed

text \<open>No action of any thread in any interleaving goes through a pointer to no item.\<close>

lemma add_item_never_faults:
  assumes "push_reach n k s" "t < n" "nodes s p = None"
  shows "\<exists>s'. add_item_step k t p garbage s = Some s' \<and> push_reach n k s'"
  using push_reach_inv[OF assms(1)] add_item_step_inv[OF _ assms(2,3)] push_reach.act[OF assms] by blast

text \<open>One thread with one value, in an item that was not empty.\<close>

fun add_one :: "nat \<Rightarrow> push_state \<Rightarrow> push_state option" where
  "add_one 0 s = Some s"
| "add_one (Suc c) s =
     (case add_item_step 1 0 (7 + c) \<lparr>item_next = Some 3, item_value = 9\<rparr> s of None \<Rightarrow> None | Some s' \<Rightarrow> add_one c s')"

lemma add_one_reach:
  "add_one c s = Some s' \<Longrightarrow> push_reach 1 1 s \<Longrightarrow> \<forall>d<c. nodes s (7 + d) = None \<Longrightarrow> push_reach 1 1 s'"
proof (induction c arbitrary: s)
  case (Suc c)
  then obtain s1 where s1: "add_item_step 1 0 (7 + c) \<lparr>item_next = Some 3, item_value = 9\<rparr> s = Some s1" "add_one c s1 = Some s'"
    by (auto split: option.splits)
  have "nodes s1 (7 + d) = None" if "d < c" for d
    using s1(1) Suc.prems(3) that by (auto simp: add_item_step_def split: push_pc.splits if_splits)
  moreover have "push_reach 1 1 s1" using push_reach.act[OF Suc.prems(2) _ _ s1(1)] Suc.prems(3) by simp
  ultimately show ?case using Suc.IH s1(2) by blast
qed simp

lemma add_item_pushes_all_witness: "\<exists>s. push_reach 1 1 s \<and> print_list (nodes s) (top s) = Some [0]"
proof -
  have "\<exists>s. add_one 5 (push_init 1) = Some s \<and> workers s 0 = Finished"
    by (simp add: eval_nat_numeral add_item_step_def push_init_def)
  then obtain s where s: "push_reach 1 1 s" "workers s 0 = Finished"
    using add_one_reach[OF _ push_reach.created] by (auto simp: push_init_def)
  then obtain xs where "print_list (nodes s) (top s) = Some xs" "mset xs = mset [0 ..< 1]"
    using add_item_pushes_all[OF s(1)] by auto
  then show ?thesis using s(1) by auto
qed

end
