(* ===== verification/PingPong.thy ===== *)
theory PingPong
  imports Prelude
begin

section \<open>ping-pong: two threads and a pair of sockets\<close>

text \<open>
  \<^verbatim>\<open>inf18-2_posix_threads_ping-pong-threads-socketpair/main.c\<close>: two threads pass a number to and fro, one subtracts
  3 and the other adds 5, until the number is 0 or above 100; then 200 tells the other thread to stop.  All messages
  have four bytes, so each direction of the pair is a queue of numbers.  A step of a thread is a \<^verbatim>\<open>read\<close> with the
  computation and the printing that follow it, or a \<^verbatim>\<open>write\<close>; it is \<open>None\<close> while the thread is blocked, and
  also where the subtraction of two ints overflows.
\<close>

subsection \<open>The threads\<close>

datatype player_pc = Receiving | Sending int bool | Stopped

text \<open>\<open>Sending v b\<close>: before writing \<open>v\<close>, with \<open>b\<close> if the thread leaves its loop afterwards.\<close>

record rally =
  to_first :: "int list"
  to_second :: "int list"
  first :: player_pc
  second :: player_pc
  played :: "int list"

definition first_thread_step :: "rally \<Rightarrow> rally option" where
  "first_thread_step s =
     (case first s of
        Receiving \<Rightarrow>
          (case to_first s of
             [] \<Rightarrow> None
           | v # q \<Rightarrow>
               let s = s\<lparr>to_first := q\<rparr> in
               if v = 200 then Some (s\<lparr>first := Stopped\<rparr>)
               else if \<not> is_i32 (v - 3) then None
               else let v = v - 3; s = s\<lparr>played := played s @ [v]\<rparr> in
                 if v = 0 \<or> 100 < v then Some (s\<lparr>first := Sending 200 True\<rparr>) else Some (s\<lparr>first := Sending v False\<rparr>))
      | Sending v b \<Rightarrow> Some (s\<lparr>to_second := to_second s @ [v], first := (if b then Stopped else Receiving)\<rparr>)
      | Stopped \<Rightarrow> None)"

definition second_thread_step :: "rally \<Rightarrow> rally option" where
  "second_thread_step s =
     (case second s of
        Receiving \<Rightarrow>
          (case to_second s of
             [] \<Rightarrow> None
           | v # q \<Rightarrow>
               let s = s\<lparr>to_second := q\<rparr> in
               if v = 200 then Some (s\<lparr>second := Stopped\<rparr>)
               else if \<not> is_i32 (v + 5) then None
               else let v = v + 5; s = s\<lparr>played := played s @ [v]\<rparr> in
                 if v = 0 \<or> 100 < v then Some (s\<lparr>second := Sending 200 True\<rparr>) else Some (s\<lparr>second := Sending v False\<rparr>))
      | Sending v b \<Rightarrow> Some (s\<lparr>to_first := to_first s @ [v], second := (if b then Stopped else Receiving)\<rparr>)
      | Stopped \<Rightarrow> None)"

definition rally_start :: "int \<Rightarrow> rally" where
  "rally_start initial_value = \<lparr>to_first = [initial_value], to_second = [], first = Receiving, second = Receiving, played = []\<rparr>"

inductive rally_step :: "rally \<Rightarrow> rally \<Rightarrow> bool" where
  one: "first_thread_step s = Some s' \<Longrightarrow> rally_step s s'"
| two: "second_thread_step s = Some s' \<Longrightarrow> rally_step s s'"

inductive_simps rally_step_iff: "rally_step s s'"

definition rally_over :: "rally \<Rightarrow> bool" where
  "rally_over s \<longleftrightarrow> first s = Stopped \<and> second s = Stopped"

subsection \<open>The numbers of a game\<close>

text \<open>\<open>game True v\<close>: the numbers that are printed from the moment the first thread is to receive \<open>v\<close>.\<close>

function game :: "bool \<Rightarrow> int \<Rightarrow> int list" where
  "game turn v =
     (let w = (if turn then v - 3 else v + 5) in
      if w = 0 \<or> 100 < w then [w] else w # game (\<not> turn) w)"
  by pat_completeness auto
termination
  by (relation "measure (\<lambda>(turn, v). nat (if turn then 2 * (200 - v) else 2 * (195 - v) + 1))") (auto split: if_splits)

declare game.simps [simp del]

lemma game_stop: "w = (if turn then v - 3 else v + 5) \<Longrightarrow> w = 0 \<or> 100 < w \<Longrightarrow> game turn v = [w]"
  by (subst game.simps) (auto simp: Let_def)

lemma game_go: "w = (if turn then v - 3 else v + 5) \<Longrightarrow> \<not> (w = 0 \<or> 100 < w) \<Longrightarrow> game turn v = w # game (\<not> turn) w"
  by (subst game.simps) (auto simp: Let_def)

text \<open>The states of a game that ends with the numbers \<open>r\<close>.\<close>

inductive playing :: "int list \<Rightarrow> rally \<Rightarrow> bool" for r where
  first_next: "out @ game True v = r \<Longrightarrow> v \<noteq> 200 \<Longrightarrow> - (2 ^ 31) + 3 \<le> v \<Longrightarrow> v < 2 ^ 31 \<Longrightarrow>
    playing r \<lparr>to_first = [v], to_second = [], first = Receiving, second = Receiving, played = out\<rparr>"
| second_next: "out @ game False v = r \<Longrightarrow> v \<le> 100 \<Longrightarrow> - (2 ^ 31) \<le> v \<Longrightarrow>
    playing r \<lparr>to_first = [], to_second = [v], first = Receiving, second = Receiving, played = out\<rparr>"
| first_sends: "out @ game False v = r \<Longrightarrow> v \<le> 100 \<Longrightarrow> - (2 ^ 31) \<le> v \<Longrightarrow>
    playing r \<lparr>to_first = [], to_second = [], first = Sending v False, second = Receiving, played = out\<rparr>"
| second_sends: "out @ game True v = r \<Longrightarrow> v \<le> 100 \<Longrightarrow> - (2 ^ 31) + 3 \<le> v \<Longrightarrow>
    playing r \<lparr>to_first = [], to_second = [], first = Receiving, second = Sending v False, played = out\<rparr>"
| first_ends: "playing r \<lparr>to_first = [], to_second = [], first = Sending 200 True, second = Receiving, played = r\<rparr>"
| second_ends: "playing r \<lparr>to_first = [], to_second = [], first = Receiving, second = Sending 200 True, played = r\<rparr>"
| first_ended: "playing r \<lparr>to_first = [], to_second = [200], first = Stopped, second = Receiving, played = r\<rparr>"
| second_ended: "playing r \<lparr>to_first = [200], to_second = [], first = Receiving, second = Stopped, played = r\<rparr>"
| over: "playing r \<lparr>to_first = [], to_second = [], first = Stopped, second = Stopped, played = r\<rparr>"

fun pc_weight :: "player_pc \<Rightarrow> nat" where
  "pc_weight Receiving = 1" | "pc_weight (Sending v b) = (if b then 1 else 2)" | "pc_weight Stopped = 0"

definition rally_rank :: "int list \<Rightarrow> rally \<Rightarrow> nat" where
  "rally_rank r s = 2 * (length r - length (played s)) + pc_weight (first s) + pc_weight (second s)"

lemmas player_steps = first_thread_step_def second_thread_step_def Let_def

lemma playing_steps:
  assumes "playing r s" "rally_step s s'"
  shows "playing r s' \<and> rally_rank r s' < rally_rank r s"
  using assms(1)
proof cases
  case (first_next out v)
  show ?thesis
  proof (cases "v - 3 = 0 \<or> 100 < v - 3")
    case True
    then have "game True v = [v - 3]" by (intro game_stop) simp_all
    moreover have "s' = \<lparr>to_first = [], to_second = [], first = Sending 200 True, second = Receiving, played = out @ [v - 3]\<rparr>"
      using assms(2) first_next True by (auto simp: rally_step_iff player_steps is_i32_def)
    ultimately show ?thesis using first_next playing.first_ends[of r] by (auto simp: rally_rank_def)
  next
    case False
    then have g: "game True v = (v - 3) # game False (v - 3)" by (subst game_go) simp_all
    moreover have "s' = \<lparr>to_first = [], to_second = [], first = Sending (v - 3) False, second = Receiving, played = out @ [v - 3]\<rparr>"
      using assms(2) first_next False by (auto simp: rally_step_iff player_steps is_i32_def)
    ultimately show ?thesis using first_next playing.first_sends[of "out @ [v - 3]" "v - 3" r] False
      by (auto simp: rally_rank_def)
  qed
next
  case (second_next out v)
  show ?thesis
  proof (cases "v + 5 = 0 \<or> 100 < v + 5")
    case True
    then have "game False v = [v + 5]" by (intro game_stop) simp_all
    moreover have "s' = \<lparr>to_first = [], to_second = [], first = Receiving, second = Sending 200 True, played = out @ [v + 5]\<rparr>"
      using assms(2) second_next True by (auto simp: rally_step_iff player_steps is_i32_def)
    ultimately show ?thesis using second_next playing.second_ends[of r] by (auto simp: rally_rank_def)
  next
    case False
    then have g: "game False v = (v + 5) # game True (v + 5)" by (subst game_go) simp_all
    moreover have "s' = \<lparr>to_first = [], to_second = [], first = Receiving, second = Sending (v + 5) False, played = out @ [v + 5]\<rparr>"
      using assms(2) second_next False by (auto simp: rally_step_iff player_steps is_i32_def)
    ultimately show ?thesis using second_next playing.second_sends[of "out @ [v + 5]" "v + 5" r] False
      by (auto simp: rally_rank_def)
  qed
qed (use assms(2) in \<open>auto simp: rally_step_iff player_steps rally_rank_def intro: playing.intros\<close>)

lemma playing_not_stuck:
  assumes "playing r s" "\<not> rally_over s"
  shows "\<exists>s'. rally_step s s'"
  using assms by cases (auto simp: rally_step_iff player_steps rally_over_def is_i32_def)

lemma playing_over: "playing r s \<Longrightarrow> rally_over s \<Longrightarrow> played s = r"
  by (cases rule: playing.cases) (auto simp: rally_over_def)

lemma playing_start: "- (2 ^ 31) + 3 \<le> v \<Longrightarrow> v < 2 ^ 31 \<Longrightarrow> v \<noteq> 200 \<Longrightarrow> playing (game True v) (rally_start v)"
  unfolding rally_start_def by (rule playing.first_next) simp_all

lemma playing_reach: "rally_step\<^sup>*\<^sup>* s s' \<Longrightarrow> playing r s \<Longrightarrow> playing r s'"
  by (induction rule: rtranclp_induct) (use playing_steps in blast)+

text \<open>
  C22: For every initial number from \<open>- 2 ^ 31 + 3\<close> on, except 200, all schedules play the same game: no state is a
  deadlock, every step decreases a rank, and when both threads have stopped the numbers of the game have been printed.  For
  200 the first thread stops at once without a message and the second one waits for ever.
\<close>

theorem ping_pong_plays:
  assumes "rally_step\<^sup>*\<^sup>* (rally_start v) s" and "- (2 ^ 31) + 3 \<le> v" and "v < 2 ^ 31"
  shows "(v \<noteq> 200 \<longrightarrow> (\<not> rally_over s \<longrightarrow> (\<exists>s'. rally_step s s'))
      \<and> (\<forall>s'. rally_step s s' \<longrightarrow> rally_rank (game True v) s' < rally_rank (game True v) s)
      \<and> (rally_over s \<longrightarrow> played s = game True v))
    \<and> (v = 200 \<longrightarrow> \<not> rally_over s)"
proof (cases "v = 200")
  case False
  then have "playing (game True v) s" using playing_reach[OF assms(1)] playing_start assms(2,3) by blast
  then show ?thesis using False playing_steps playing_not_stuck playing_over by blast
next
  case True
  have "second s = Receiving \<and> to_second s = [] \<and> (first s = Receiving \<and> to_first s = [200] \<or> first s = Stopped)"
    using assms(1)
  proof (induction rule: rtranclp_induct)
    case base
    show ?case by (simp add: rally_start_def True)
  next
    case (step s s')
    then show ?case by (auto simp: rally_step_iff player_steps)
  qed
  then show ?thesis using True by (auto simp: rally_over_def)
qed

text \<open>From 1 the game is -2, 3, 0.\<close>

lemma game_1: "game True 1 = [- 2, 3, 0]"
  by (simp add: game.simps)

lemma ping_pong_plays_witness:
  "\<exists>s. rally_step\<^sup>*\<^sup>* (rally_start 1) s \<and> (rally_over s \<longrightarrow> played s = [- 2, 3, 0])"
  using ping_pong_plays[of 1 "rally_start 1"] game_1 by (intro exI[of _ "rally_start 1"]) simp

end
