(* ===== verification/IcmpPing.thy ===== *)
theory IcmpPing
  imports Prelude
begin

unbundle bit_operations_syntax

section \<open>icmp-ping: echo requests until an alarm\<close>

text \<open>
  \<^verbatim>\<open>inf22-1_posix_sockets_icmp-ping/main.c\<close>: the packet with its checksum, one exchange with the pinged host and the loop
  of \<^verbatim>\<open>main\<close>.  The memory of the packet is a list of bytes in the order of a little-endian machine.  What the system
  calls of one round return is a record of their results; an alarm may come in any round.
\<close>

subsection \<open>The checksum\<close>

fun sum_buf :: "u8 list \<Rightarrow> u32 \<Rightarrow> u32" where
  "sum_buf (a # b # r) acc = sum_buf r (acc + (ucast a + push_bit 8 (ucast b)))"
| "sum_buf [a] acc = acc + ucast a"
| "sum_buf [] acc = acc"

definition checksum :: "u8 list \<Rightarrow> u16" where
  "checksum b =
     (let acc = sum_buf b 0;
          acc = drop_bit 16 acc + (acc AND 0xFFFF);
          acc = acc + drop_bit 16 acc
      in ucast (NOT acc))"

record icmp_packet =
  icmp_type :: u8
  icmp_code :: u8
  icmp_checksum :: u32
  icmp_data :: "u8 list"

definition packet_bytes :: "icmp_packet \<Rightarrow> u8 list" where
  "packet_bytes p =
     [icmp_type p, icmp_code p, ucast (icmp_checksum p), ucast (drop_bit 8 (icmp_checksum p)),
      ucast (drop_bit 16 (icmp_checksum p)), ucast (drop_bit 24 (icmp_checksum p))] @ icmp_data p"

definition make_ping_icmp_packet :: "icmp_packet" where
  "make_ping_icmp_packet =
     (let ping_pkt = \<lparr>icmp_type = 8, icmp_code = 0, icmp_checksum = 0, icmp_data = replicate 4 1\<rparr>
      in ping_pkt\<lparr>icmp_checksum := ucast (checksum (packet_bytes ping_pkt))\<rparr>)"

text \<open>The acc of the 16-bit numbers without a bound.\<close>

fun words_sum :: "u8 list \<Rightarrow> nat" where
  "words_sum (a # b # r) = unat a + 256 * unat b + words_sum r"
| "words_sum [a] = unat a"
| "words_sum [] = 0"

lemma words_sum_bound: "words_sum b \<le> 65535 * ((length b + 1) div 2)"
proof (induction b rule: words_sum.induct)
  case (1 a b r)
  then show ?case using unat_lt[of a] unat_lt[of b] by simp
next
  case (2 a)
  then show ?case using unat_lt[of a] by simp
qed simp

lemma unat_pair: "unat (ucast (a :: u8) + push_bit 8 (ucast (b :: u8)) :: u32) = unat a + 256 * unat b"
proof -
  have b: "unat (push_bit 8 (ucast b) :: u32) = 256 * unat b"
    using unat_lt[of b] by (simp add: unat_shiftl unat_cast)
  have "unat (ucast a :: u32) = unat a" using unat_lt[of a] by (simp add: unat_cast)
  then show ?thesis using b unat_lt[of a] unat_lt[of b] by (simp add: unat_word_ariths)
qed

lemma unat_sum_buf: "unat acc + words_sum b < 2 ^ 32 \<Longrightarrow> unat (sum_buf b acc) = unat acc + words_sum b"
proof (induction b acc rule: sum_buf.induct)
  case (1 a b r acc)
  have "unat (acc + (ucast a + push_bit 8 (ucast b))) = unat acc + (unat a + 256 * unat b)"
    using 1(2) unat_pair[of a b] by (simp add: unat_word_ariths del: unat_pair)
  then show ?case using 1 by simp
next
  case (2 a acc)
  have "unat (ucast a :: u32) = unat a" using unat_lt[of a] by (simp add: unat_cast)
  then show ?case using 2 by (simp add: unat_word_ariths)
qed simp

lemma complement_mod:
  assumes "(x :: nat) \<le> 4294967295"
  shows "(4294967295 - x) mod 65536 = 65535 - x mod 65536"
proof -
  define q r where "q = x div 65536" and "r = x mod 65536"
  have x: "x = 65536 * q + r" by (simp add: q_def r_def)
  have r: "r \<le> 65535" by (simp add: r_def)
  have "q \<le> 65535" using assms x by linarith
  then have "4294967295 - x = (65535 - r) + 65536 * (65535 - q)" using x r by linarith
  then have "(4294967295 - x) mod 65536 = (65535 - r) mod 65536" by (simp only: mod_mult_self2)
  then show ?thesis by (simp add: r_def)
qed

lemma unat_checksum:
  assumes "words_sum b < 2 ^ 32"
  shows "unat (checksum b) = 65535 - (let s = words_sum b div 65536 + words_sum b mod 65536 in (s + s div 65536) mod 65536)"
proof -
  let ?S = "words_sum b" and ?s = "words_sum b div 65536 + words_sum b mod 65536"
  define w where "w = sum_buf b 0"
  define w1 where "w1 = drop_bit 16 w + (w AND 0xFFFF)"
  define w2 where "w2 = w1 + drop_bit 16 w1"
  have w: "unat w = ?S" using unat_sum_buf[of 0 b] assms by (simp add: w_def)
  have "w AND 0xFFFF = take_bit 16 w" by (simp add: take_bit_eq_mask mask_eq_exp_minus_1)
  then have m: "unat (w AND 0xFFFF) = ?S mod 65536" using w by (simp only: unsigned_take_bit_eq) (simp add: take_bit_eq_mod)
  have d: "unat (drop_bit 16 w) = ?S div 65536" using w by (simp add: unat_shiftr)
  have s: "?s < 131072" using assms by (simp add: less_mult_imp_div_less add_less_mono[of _ 65536 _ 65536, simplified])
  then have w1: "unat w1 = ?s" using m d by (simp add: w1_def unat_word_ariths)
  then have "unat (drop_bit 16 w1) = ?s div 65536" by (simp add: unat_shiftr)
  moreover have "?s + ?s div 65536 < 2 ^ 32" using s by simp
  ultimately have w2: "unat w2 = ?s + ?s div 65536" using w1 by (simp add: w2_def unat_word_ariths)
  have "unat (ucast (NOT w2) :: u16) = unat (NOT w2) mod 65536" by (simp add: unat_cast)
  moreover have "unat (NOT w2) = 2 ^ 32 - 1 - unat w2"
  proof -
    have "NOT w2 = - 1 - w2" by (simp add: not_eq_complement)
    then show ?thesis using unat_sub[OF word_n1_ge, of w2] by (simp add: unat_minus_1)
  qed
  ultimately have "unat (ucast (NOT w2) :: u16) = (4294967295 - unat w2) mod 65536" by simp
  also have "\<dots> = 65535 - unat w2 mod 65536"
    using unat_lt[of w2] by (intro complement_mod) simp
  finally show ?thesis using w2 by (simp add: checksum_def Let_def w_def w1_def w2_def)
qed

text \<open>Adding the checksum to the sum gives a multiple of 65535, which is how a receiver checks it.\<close>

lemma fold_carry: "((S :: nat) div 65536 + S mod 65536) mod 65535 = S mod 65535"
proof -
  have e: "S div 65536 + S mod 65536 + 65535 * (S div 65536) = S"
    using div_mult_mod_eq[of S 65536] by linarith
  show ?thesis by (rule mod_mult_self2[of "S div 65536 + S mod 65536" 65535 "S div 65536", unfolded e, symmetric])
qed

lemma checksum_completes:
  assumes "length b \<le> 131072"
  shows "(words_sum b + unat (checksum b)) mod 65535 = 0"
proof -
  let ?S = "words_sum b" define s where "s = words_sum b div 65536 + words_sum b mod 65536"
  have "(length b + 1) div 2 \<le> 65536" using assms by simp
  then have "?S \<le> 65535 * 65536" using words_sum_bound[of b] mult_le_mono2 le_trans by blast
  then have bound: "?S < 2 ^ 32" by simp
  have "?S div 65536 \<le> 65535" "?S mod 65536 \<le> 65535" using bound less_mult_imp_div_less[of ?S 65536 65536] by simp_all
  then consider "s < 65536" | "65536 \<le> s" "s < 131071" unfolding s_def by linarith
  then have c: "(s + (65535 - (s + s div 65536) mod 65536)) mod 65535 = 0"
  proof cases
    case 1
    then show ?thesis by simp
  next
    case 2
    then have "s div 65536 = 1" by (simp add: div_nat_eqI)
    moreover have "(s + 1) mod 65536 = s + 1 - 65536"
      using 2 mod_add_self1[of 65536 "s + 1 - 65536"] by simp
    ultimately show ?thesis using 2 by simp
  qed
  have "(?S + unat (checksum b)) mod 65535 = (s + unat (checksum b)) mod 65535"
    by (rule mod_add_cong) (simp_all only: s_def fold_carry)
  moreover have "unat (checksum b) = 65535 - (s + s div 65536) mod 65536"
    using unat_checksum[OF bound] by (simp only: Let_def s_def)
  ultimately show ?thesis using c by (simp only:)
qed

lemma words_sum_packet:
  "words_sum (packet_bytes (p\<lparr>icmp_checksum := ucast (c :: u16)\<rparr>)) =
   words_sum (packet_bytes (p\<lparr>icmp_checksum := 0\<rparr>)) + unat c"
proof -
  have u: "unat (ucast c :: u32) = unat c" using unat_lt[of c] by (simp add: unat_cast)
  have c: "unat c < 65536" using unat_lt[of c] by simp
  then have d: "unat c div 256 < 256" by (simp add: less_mult_imp_div_less)
  have "unat (ucast (ucast c :: u32) :: u8) = unat c mod 256"
    using c by (simp only: unat_cast) simp
  moreover have "unat (ucast (drop_bit 8 (ucast c :: u32)) :: u8) = unat c div 256"
    using d by (simp only: unat_cast unat_shiftr u) simp
  moreover have "unat (ucast (drop_bit 16 (ucast c :: u32)) :: u8) = 0"
    using c by (simp only: unat_cast unat_shiftr u) simp
  moreover have "unat (ucast (drop_bit 24 (ucast c :: u32)) :: u8) = 0"
    using c by (simp only: unat_cast unat_shiftr u) simp
  ultimately show ?thesis using mod_mult_div_eq[of "unat c" 256] by (simp add: packet_bytes_def)
qed

lemma ping_packet_sum: "words_sum (packet_bytes make_ping_icmp_packet) mod 65535 = 0"
proof -
  define p where "p = \<lparr>icmp_type = 8, icmp_code = 0, icmp_checksum = 0, icmp_data = replicate 4 1\<rparr>"
  have m: "make_ping_icmp_packet = p\<lparr>icmp_checksum := ucast (checksum (packet_bytes p))\<rparr>"
    by (simp only: make_ping_icmp_packet_def Let_def p_def)
  have z: "p\<lparr>icmp_checksum := 0\<rparr> = p" by (simp add: p_def)
  have "length (packet_bytes p) \<le> 131072" by (simp add: p_def packet_bytes_def)
  then show ?thesis unfolding m words_sum_packet z by (rule checksum_completes)
qed

subsection \<open>One exchange and the loop of main\<close>

record ping_io =
  sock :: int
  address_valid :: bool
  sendto_result :: int
  recvfrom_result :: int

text \<open>What the process leaves in the system: its open sockets and the packets it has sent.\<close>

record ping_world =
  open_sockets :: nat
  wire :: "u8 list list"

text \<open>\<open>None\<close> is a failed assertion.\<close>

definition ping :: "ping_io \<Rightarrow> ping_world \<Rightarrow> (bool \<times> ping_world) option" where
  "ping io w =
     (if sock io < 0 then Some (False, w)
      else let w = w\<lparr>open_sockets := open_sockets w + 1\<rparr> in
        if \<not> address_valid io then None
        else let icmp_request = make_ping_icmp_packet in
          if sendto_result io \<le> 0 then Some (False, w\<lparr>open_sockets := open_sockets w - 1\<rparr>)
          else let w = w\<lparr>wire := wire w @ [packet_bytes icmp_request]\<rparr> in
            if recvfrom_result io \<le> 0 then Some (False, w)
            else Some (True, w\<lparr>open_sockets := open_sockets w - 1\<rparr>))"

text \<open>
  The rounds of the loop, each with the alarm that may come in it; \<open>None\<close> is a failed assertion or a loop that is not stopped
  by the alarm.
\<close>

fun ping_loop :: "(ping_io \<times> bool) list \<Rightarrow> bool \<Rightarrow> int \<Rightarrow> ping_world \<Rightarrow> (int \<times> ping_world) option" where
  "ping_loop rounds True success_responses w = Some (success_responses, w)"
| "ping_loop [] False success_responses w = None"
| "ping_loop ((io, alarm) # rounds) False success_responses w =
     (case ping io w of
        None \<Rightarrow> None
      | Some (ok, w) \<Rightarrow> ping_loop rounds alarm (success_responses + (if ok then 1 else 0)) w)"

text \<open>The exit status, and what is printed.\<close>

definition ping_main :: "nat \<Rightarrow> (ping_io \<times> bool) list \<Rightarrow> bool \<Rightarrow> (int \<times> int option \<times> ping_world) option" where
  "ping_main argc rounds alarm =
     (if argc \<noteq> 4 then Some (1, None, \<lparr>open_sockets = 0, wire = []\<rparr>)
      else case ping_loop rounds alarm 0 \<lparr>open_sockets = 0, wire = []\<rparr> of
        None \<Rightarrow> None
      | Some (success_responses, w) \<Rightarrow> Some (0, Some success_responses, w))"

subsection \<open>Properties\<close>

text \<open>
  C29: The checksum completes any message of at most 131072 bytes to a multiple of 65535, the test of a receiver, and so
  does the one in the echo request, whose bytes are those of an echo request with the identifier 0.
\<close>

theorem checksum_verifies:
  "(length b \<le> 131072 \<longrightarrow> (words_sum b + unat (checksum b)) mod 65535 = 0)
   \<and> words_sum (packet_bytes make_ping_icmp_packet) mod 65535 = 0
   \<and> take 2 (packet_bytes make_ping_icmp_packet) = [8, 0] \<and> length (packet_bytes make_ping_icmp_packet) = 10"
proof -
  have "take 2 (packet_bytes make_ping_icmp_packet) = [8, 0] \<and> length (packet_bytes make_ping_icmp_packet) = 10"
    by (simp add: make_ping_icmp_packet_def packet_bytes_def Let_def eval_nat_numeral)
  then show ?thesis using checksum_completes ping_packet_sum by blast
qed

lemma checksum_verifies_witness: "(words_sum [1, 2, 3] + unat (checksum [1, 2, 3])) mod 65535 = 0"
  using checksum_verifies[of "[1, 2, 3]"] by (simp del: words_sum.simps)

definition sent :: "ping_io \<Rightarrow> bool" where
  "sent io \<longleftrightarrow> 0 \<le> sock io \<and> 0 < sendto_result io"

definition answered :: "ping_io \<Rightarrow> bool" where
  "answered io \<longleftrightarrow> sent io \<and> 0 < recvfrom_result io"

lemma ping_result:
  "address_valid io \<Longrightarrow> ping io w = Some (answered io,
     \<lparr>open_sockets = open_sockets w + (if sent io \<and> \<not> answered io then 1 else 0),
      wire = wire w @ (if sent io then [packet_bytes make_ping_icmp_packet] else [])\<rparr>)"
  by (cases w) (auto simp: ping_def answered_def sent_def Let_def)

lemma ping_loop_result:
  "\<forall>(io, alarm)\<in>set rs. address_valid io \<and> \<not> alarm \<Longrightarrow> address_valid io \<Longrightarrow>
   ping_loop (rs @ (io, True) # later) False n w = Some (n + int (length (filter answered (map fst rs @ [io]))),
     \<lparr>open_sockets = open_sockets w + length (filter (\<lambda>io. sent io \<and> \<not> answered io) (map fst rs @ [io])),
      wire = wire w @ replicate (length (filter sent (map fst rs @ [io]))) (packet_bytes make_ping_icmp_packet)\<rparr>)"
proof (induction rs arbitrary: n w)
  case Nil
  then show ?case by (simp add: ping_result)
next
  case (Cons r rs)
  obtain io' where r: "r = (io', False)" "address_valid io'" using Cons.prems(1) by (cases r) auto
  have "\<forall>(io, alarm)\<in>set rs. address_valid io \<and> \<not> alarm" using Cons.prems(1) by auto
  note IH = Cons.IH[OF this Cons.prems(2)]
  show ?case using r by (simp add: ping_result IH)
qed

text \<open>
  Until the alarm comes the program sends one correct request in each round whose socket can be opened and written, prints the number
  of rounds that received anything, and leaves a socket open for each round in which nothing was received.
\<close>

lemma ping_main_counts:
  assumes "\<forall>(io, alarm)\<in>set rs. address_valid io \<and> \<not> alarm" and "address_valid io"
  shows "ping_main 4 (rs @ (io, True) # later) False = Some (0, Some (int (length (filter answered (map fst rs @ [io])))),
     \<lparr>open_sockets = length (filter (\<lambda>io. sent io \<and> \<not> answered io) (map fst rs @ [io])),
      wire = replicate (length (filter sent (map fst rs @ [io]))) (packet_bytes make_ping_icmp_packet)\<rparr>)"
  using ping_loop_result[OF assms, of later 0 "\<lparr>open_sockets = 0, wire = []\<rparr>"] by (simp add: ping_main_def)

lemma ping_main_counts_witness:
  "ping_main 4 [(\<lparr>sock = 3, address_valid = True, sendto_result = 10, recvfrom_result = - 1\<rparr>, True)] False =
     Some (0, Some 0, \<lparr>open_sockets = 1, wire = [packet_bytes make_ping_icmp_packet]\<rparr>)"
  using ping_main_counts[of "[]" "\<lparr>sock = 3, address_valid = True, sendto_result = 10, recvfrom_result = - 1\<rparr>" "[]"]
  by (simp add: answered_def sent_def)

end
