(* ===== verification/SpiralFile.thy ===== *)
theory SpiralFile
  imports PrintList
begin

section \<open>make-spiral-file: numbers in a spiral, written into a mapped file\<close>

text \<open>
  \<^verbatim>\<open>inf10-2_posix_mmap_make-spiral-file/main.c\<close>: the file is a table of \<open>N\<close> rows of \<open>N\<close> cells of \<open>W\<close> characters
  with a newline at the end of each row.  It is first filled with blanks; then the numbers from 1 to \<open>N * N\<close> are written
  along a spiral, ring by ring, each ring as four lines.  The mapping is a list of characters, a pointer into it an
  integer, and a write outside of it is \<open>None\<close>.
\<close>

subsection \<open>The program\<close>

definition strncpy_at :: "char list \<Rightarrow> int \<Rightarrow> char list \<Rightarrow> char list option" where
  "strncpy_at file p s = (if 0 \<le> p \<and> p + int (length s) \<le> int (length file) then Some (overwrite file (nat p) s) else None)"

text \<open>The first \<open>i\<close> iterations of the loop of \<^verbatim>\<open>write_line\<close>, and all \<^verbatim>\<open>count\<close> of them.\<close>

primrec write_line_upto :: "char list \<Rightarrow> int \<Rightarrow> int \<Rightarrow> int \<Rightarrow> int \<Rightarrow> nat \<Rightarrow> char list option" where
  "write_line_upto file start step cell_size begin_value 0 = Some file"
| "write_line_upto file start step cell_size begin_value (Suc i) =
     Option.bind (write_line_upto file start step cell_size begin_value i) (\<lambda>file.
       let str = decimal (int i + begin_value); len = int (length str)
       in strncpy_at file (start + int i * step + (cell_size - len)) str)"

definition write_line :: "char list \<Rightarrow> int \<Rightarrow> int \<Rightarrow> int \<Rightarrow> int \<Rightarrow> int \<Rightarrow> char list option" where
  "write_line file start step cell_size cnt begin_value = write_line_upto file start step cell_size begin_value (nat cnt)"

function spiral_loop :: "char list \<Rightarrow> int \<Rightarrow> int \<Rightarrow> int \<Rightarrow> int \<Rightarrow> int \<Rightarrow> char list option" where
  "spiral_loop file pos file_width W line_len val =
     (if 0 < line_len then
        Option.bind (write_line file pos W W line_len val) (\<lambda>file.
        Option.bind (write_line file (pos + (line_len - 1) * W + file_width) file_width W (line_len - 1) (val + line_len)) (\<lambda>file.
        Option.bind (write_line file (pos + (line_len - 2) * W + file_width * (line_len - 1)) (- W) W (line_len - 1)
          (val + line_len * 2 - 1)) (\<lambda>file.
        Option.bind (write_line file (pos + file_width * (line_len - 1)) (- file_width) W (line_len - 1)
          (val + line_len * 3 - 3)) (\<lambda>file.
        spiral_loop file (pos + file_width + W) file_width W (line_len - 2) (val + line_len * 4 - 4)))))
      else Some file)"
  by pat_completeness auto
termination
  by (relation "measure (\<lambda>(file, pos, file_width, W, line_len, val). nat line_len)") auto

declare spiral_loop.simps [simp del]

text \<open>The blanks and newlines; nothing of the old contents is left.\<close>

definition blank_file :: "int \<Rightarrow> int \<Rightarrow> int \<Rightarrow> char list" where
  "blank_file f_size N W =
     map (\<lambda>i. if i mod (N * W + 1) = N * W then CHR 0x0A else CHR '' '') [0 .. f_size - 1]"

definition write_spiral :: "int \<Rightarrow> int \<Rightarrow> int \<Rightarrow> char list option" where
  "write_spiral f_size N W = spiral_loop (blank_file f_size N W) 0 (N * W + 1) W N 1"

text \<open>
  The exit status and the file.  An overflow of the size is \<open>None\<close>; \<^verbatim>\<open>ftruncate\<close> gives the file its size, and a size that
  is not positive makes \<^verbatim>\<open>ftruncate\<close> or \<^verbatim>\<open>mmap\<close> fail.
\<close>

definition spiral_main :: "nat \<Rightarrow> bool \<Rightarrow> int \<Rightarrow> int \<Rightarrow> char list \<Rightarrow> (int \<times> char list) option" where
  "spiral_main argc opened N W old =
     (if argc < 4 then Some (1, old)
      else if \<not> opened then Some (2, old)
      else let f_size = N * N * W + N in
        if \<not> is_i32 f_size then None
        else if f_size \<le> 0 then Some (3, if f_size = 0 then [] else old)
        else map_option (\<lambda>file. (0, file)) (write_spiral f_size N W))"

subsection \<open>The table\<close>

text \<open>
  \<open>spiral n v r c\<close>: the number in row \<open>r\<close> and column \<open>c\<close> of a spiral of width \<open>n\<close> that begins with \<open>v\<close>: its upper row, its right
  column, its lower row, its left column, or in the spiral inside.
\<close>

fun spiral :: "nat \<Rightarrow> nat \<Rightarrow> nat \<Rightarrow> nat \<Rightarrow> nat" where
  "spiral n v r c =
     (if n \<le> 1 then v
      else if r = 0 then v + c
      else if c = n - 1 then v + (n - 1) + r
      else if r = n - 1 then v + 3 * (n - 1) - c
      else if c = 0 then v + 4 * (n - 1) - r
      else spiral (n - 2) (v + 4 * (n - 1)) (r - 1) (c - 1))"

declare spiral.simps [simp del]

definition cell_text :: "nat \<Rightarrow> char list \<Rightarrow> char list" where
  "cell_text W s = replicate (W - length s) CHR '' '' @ s"

definition spiral_text :: "nat \<Rightarrow> nat \<Rightarrow> char list" where
  "spiral_text N W =
     concat (map (\<lambda>r. concat (map (\<lambda>c. cell_text W (decimal (int (spiral N 1 r c)))) [0 ..< N]) @ [CHR 0x0A]) [0 ..< N])"

text \<open>The file in which the cells of \<open>S\<close> have their numbers and the others are blank.\<close>

definition table :: "nat \<Rightarrow> nat \<Rightarrow> (nat \<times> nat) set \<Rightarrow> char list" where
  "table N W S = map (\<lambda>k. let r = k div (N * W + 1); m = k mod (N * W + 1); c = m div W in
     if m = N * W then CHR 0x0A
     else if (r, c) \<in> S then cell_text W (decimal (int (spiral N 1 r c))) ! (m mod W) else CHR '' '') [0 ..< N * (N * W + 1)]"

lemma length_table [simp]: "length (table N W S) = N * (N * W + 1)"
  by (simp add: table_def)

lemma cell_index:
  fixes r c j N W :: nat
  assumes "c < N" "j < W"
  shows "(r * (N * W + 1) + c * W + j) div (N * W + 1) = r" "(r * (N * W + 1) + c * W + j) mod (N * W + 1) = c * W + j"
    "(c * W + j) div W = c" "(c * W + j) mod W = j" "c * W + j < N * W"
proof -
  have "(c + 1) * W \<le> N * W" using assms(1) by (intro mult_le_mono) simp_all
  then show l: "c * W + j < N * W" using assms(2) by simp
  show "(r * (N * W + 1) + c * W + j) div (N * W + 1) = r" using l by (intro div_nat_eqI) (simp_all add: algebra_simps)
  show "(r * (N * W + 1) + c * W + j) mod (N * W + 1) = c * W + j"
    using l by (simp only: add.assoc mod_mult_self3) simp
  show "(c * W + j) div W = c" "(c * W + j) mod W = j" using assms(2) by simp_all
qed

lemma cell_inside: "r < N \<Longrightarrow> c < N \<Longrightarrow> r * (N * W + 1) + c * W + W \<le> N * (N * W + 1)" for r N c W :: nat
proof -
  assume "r < N" "c < N"
  then have "(c + 1) * W \<le> N * W" "(r + 1) * (N * W + 1) \<le> N * (N * W + 1)"
    by (intro mult_le_mono; simp)+
  then show ?thesis by simp
qed

lemma nth_cell_text: "length s \<le> W \<Longrightarrow> j < W \<Longrightarrow> cell_text W s ! j = (if j < W - length s then CHR '' '' else s ! (j - (W - length s)))"
  by (simp add: cell_text_def nth_append)

lemma nth_table:
  "k < N * (N * W + 1) \<Longrightarrow> table N W S ! k = (if k mod (N * W + 1) = N * W then CHR 0x0A
     else if (k div (N * W + 1), k mod (N * W + 1) div W) \<in> S
     then cell_text W (decimal (int (spiral N 1 (k div (N * W + 1)) (k mod (N * W + 1) div W)))) ! (k mod (N * W + 1) mod W)
     else CHR '' '')"
  by (simp add: table_def Let_def)

lemma strncpy_cell:
  assumes "r < N" "c < N" "s = decimal (int (spiral N 1 r c))" "length s \<le> W" "0 < W"
  shows "strncpy_at (table N W S) (int (r * (N * W + 1) + c * W) + (int W - int (length s))) s = Some (table N W (insert (r, c) S))"
proof -
  define p where "p = r * (N * W + 1) + c * W + (W - length s)"
  have p: "int (r * (N * W + 1) + c * W) + (int W - int (length s)) = int p" using assms(4) by (simp add: p_def)
  have fits: "p + length s \<le> N * (N * W + 1)" using cell_inside[OF assms(1,2), of W] assms(4) by (simp add: p_def)
  have "overwrite (table N W S) p s = table N W (insert (r, c) S)"
  proof (rule nth_equalityI)
    show "length (overwrite (table N W S) p s) = length (table N W (insert (r, c) S))" using fits by simp
    fix k assume "k < length (overwrite (table N W S) p s)"
    then have k: "k < N * (N * W + 1)" using fits by simp
    let ?r = "k div (N * W + 1)" and ?m = "k mod (N * W + 1)"
    have o: "overwrite (table N W S) p s ! k = (if p \<le> k \<and> k < p + length s then s ! (k - p) else table N W S ! k)"
      using fits k by (simp add: nth_overwrite)
    show "overwrite (table N W S) p s ! k = table N W (insert (r, c) S) ! k"
    proof (cases "?r = r \<and> ?m \<noteq> N * W \<and> ?m div W = c")
      case True
      define j where "j = ?m mod W"
      have "k = ?r * (N * W + 1) + ?m" "?m = ?m div W * W + j"
        unfolding j_def by (rule div_mult_mod_eq[symmetric])+
      then have kj: "k = r * (N * W + 1) + c * W + j" using True by (metis add.assoc)
      have j: "j < W" using assms(5) by (simp add: j_def)
      have in_word: "p \<le> k \<and> k < p + length s \<longleftrightarrow> W - length s \<le> j" "k - p = j - (W - length s)"
        using j assms(4) unfolding kj p_def by linarith+
      have new: "table N W (insert (r, c) S) ! k = cell_text W s ! j" using True k assms(3) by (simp add: nth_table j_def)
      show ?thesis
      proof (cases "W - length s \<le> j")
        case t: True
        then show ?thesis using o new in_word nth_cell_text[OF assms(4) j] by simp
      next
        case False
        then have "table N W S ! k = CHR '' ''" using True k assms(3) nth_cell_text[OF assms(4) j] by (simp add: nth_table j_def)
        then show ?thesis using False o new in_word nth_cell_text[OF assms(4) j] by simp
      qed
    next
      case False
      have "\<not> (p \<le> k \<and> k < p + length s)"
      proof
        assume a: "p \<le> k \<and> k < p + length s"
        define j where "j = k - (r * (N * W + 1) + c * W)"
        have j: "j < W" "k = r * (N * W + 1) + c * W + j" using a assms(4) unfolding p_def j_def by linarith+
        show False using False cell_index(1,2)[OF assms(2) j(1), of r] cell_index(3,5)[OF assms(2) j(1)] unfolding j(2) by simp
      qed
      moreover have "table N W (insert (r, c) S) ! k = table N W S ! k" using False k by (auto simp: nth_table)
      ultimately show ?thesis unfolding o by (simp only: if_False)
    qed
  qed
  moreover have "int p + int (length s) \<le> int (length (table N W S))"
    using fits by (metis length_table of_nat_add of_nat_le_iff)
  ultimately show ?thesis unfolding p strncpy_at_def by simp
qed

subsection \<open>The lines of a ring\<close>

lemma write_line_cells:
  assumes "\<And>i. i < n \<Longrightarrow> row i < N \<and> column i < N \<and> start + int i * step = int (row i * (N * W + 1) + column i * W)"
    and "\<And>i. i < n \<Longrightarrow> int (spiral N 1 (row i) (column i)) = int i + v"
    and "\<And>r c. r < N \<Longrightarrow> c < N \<Longrightarrow> length (decimal (int (spiral N 1 r c))) \<le> W" and "0 < W"
  shows "write_line (table N W S) start step (int W) (int n) v = Some (table N W (S \<union> (\<lambda>i. (row i, column i)) ` {..<n}))"
proof -
  have "write_line_upto (table N W S) start step (int W) v i = Some (table N W (S \<union> (\<lambda>i. (row i, column i)) ` {..<i}))"
    if "i \<le> n" for i
    using that
  proof (induction i)
    case (Suc i)
    let ?S = "S \<union> (\<lambda>i. (row i, column i)) ` {..<i}" and ?s = "decimal (int i + v)"
    have c: "row i < N" "column i < N" "start + int i * step = int (row i * (N * W + 1) + column i * W)"
      using assms(1) Suc.prems by auto
    have "strncpy_at (table N W ?S) (int (row i * (N * W + 1) + column i * W) + (int W - int (length ?s))) ?s =
        Some (table N W (insert (row i, column i) ?S))"
      using assms(2)[of i] assms(3)[OF c(1,2)] Suc.prems assms(4) by (intro strncpy_cell c(1,2)) simp_all
    moreover have "insert (row i, column i) ?S = S \<union> (\<lambda>i. (row i, column i)) ` {..<Suc i}"
      by (auto simp: lessThan_Suc)
    ultimately show ?case using Suc c(3) by (simp add: Let_def)
  qed simp
  then show ?thesis by (simp add: write_line_def)
qed

text \<open>The cells outside of the square that begins at \<open>(d, d)\<close>.\<close>

definition outer :: "nat \<Rightarrow> nat \<Rightarrow> (nat \<times> nat) set" where
  "outer N d = {(r, c). r < N \<and> c < N \<and> \<not> (d \<le> r \<and> r + d < N \<and> d \<le> c \<and> c + d < N)}"

lemma spiral_ring:
  "2 * d < N \<Longrightarrow> r + d < N - d \<Longrightarrow> c + d < N - d \<Longrightarrow>
   spiral N 1 (d + r) (d + c) = spiral (N - 2 * d) (1 + 4 * d * (N - d)) r c"
proof (induction d arbitrary: r c)
  case (Suc d)
  have n: "N - 2 * Suc d = N - 2 * d - 2" by simp
  have "spiral N 1 (Suc d + r) (Suc d + c) = spiral (N - 2 * d) (1 + 4 * d * (N - d)) (r + 1) (c + 1)"
    using Suc.IH[of "r + 1" "c + 1"] Suc.prems by simp
  also have "\<dots> = spiral (N - 2 * d - 2) (1 + 4 * d * (N - d) + 4 * (N - 2 * d - 1)) r c"
    using Suc.prems by (subst spiral.simps) auto
  also have "1 + 4 * d * (N - d) + 4 * (N - 2 * d - 1) = 1 + 4 * Suc d * (N - Suc d)"
  proof -
    obtain e where e: "N = 2 * d + 2 + e" using Suc.prems(1) by (metis add_2_eq_Suc less_eqE less_imp_le mult_Suc_right add.commute)
    show ?thesis by (simp add: e algebra_simps)
  qed
  finally show ?case using n by simp
qed simp

lemma spiral_sides:
  assumes "0 < n"
  shows "i < n \<Longrightarrow> spiral n v 0 i = v + i"
    "i < n - 1 \<Longrightarrow> spiral n v (1 + i) (n - 1) = v + n + i"
    "i < n - 1 \<Longrightarrow> spiral n v (n - 1) (n - 2 - i) = v + 2 * n - 1 + i"
    "i < n - 1 \<Longrightarrow> spiral n v (n - 1 - i) 0 = v + 3 * n - 3 + i"
  using assms by (subst spiral.simps; auto)+

definition ring_start :: "nat \<Rightarrow> nat \<Rightarrow> nat" where
  "ring_start N d = 1 + 4 * d * (N - d)"

lemma ring_cells:
  assumes "2 * d < N"
  shows "outer N (Suc d) = outer N d \<union> (\<lambda>i. (d, d + i)) ` {..<N - 2 * d} \<union> (\<lambda>i. (d + (1 + i), d + (N - 2 * d - 1))) ` {..<N - 2 * d - 1}
    \<union> (\<lambda>i. (d + (N - 2 * d - 1), d + (N - 2 * d - 2 - i))) ` {..<N - 2 * d - 1}
    \<union> (\<lambda>i. (d + (N - 2 * d - 1 - i), d)) ` {..<N - 2 * d - 1}" (is "_ = ?R")
proof (intro equalityI subsetI)
  fix x assume "x \<in> outer N (Suc d)"
  then obtain r c where x: "x = (r, c)" "r < N" "c < N" "\<not> (Suc d \<le> r \<and> r + Suc d < N \<and> Suc d \<le> c \<and> c + Suc d < N)"
    by (auto simp: outer_def)
  show "x \<in> ?R"
  proof (cases "x \<in> outer N d")
    case False
    then have s: "d \<le> r" "r + d < N" "d \<le> c" "c + d < N" using x by (auto simp: outer_def)
    then consider "r = d" | "r \<noteq> d" "c + d + 1 = N" | "r + d + 1 = N" "c + d + 1 \<noteq> N" | "r \<noteq> d" "r + d + 1 \<noteq> N" "c = d"
      using x(4) by linarith
    then show ?thesis
    proof cases
      case 1
      then have "x = (d, d + (c - d)) \<and> c - d < N - 2 * d" using x(1) s by auto
      then show ?thesis by blast
    next
      case 2
      then have "x = (d + (1 + (r - d - 1)), d + (N - 2 * d - 1)) \<and> r - d - 1 < N - 2 * d - 1" using x(1) s by auto
      then show ?thesis by blast
    next
      case 3
      then have "x = (d + (N - 2 * d - 1), d + (N - 2 * d - 2 - (N - d - 2 - c))) \<and> N - d - 2 - c < N - 2 * d - 1" using x(1) s by auto
      then show ?thesis by blast
    next
      case 4
      then have "x = (d + (N - 2 * d - 1 - (N - d - 1 - r)), d) \<and> N - d - 1 - r < N - 2 * d - 1" using x(1) s by auto
      then show ?thesis by blast
    qed
  qed simp
next
  fix x assume "x \<in> ?R"
  then show "x \<in> outer N (Suc d)" using assms by (auto simp: outer_def)
qed

lemma spiral_loop_table:
  assumes "\<And>r c. r < N \<Longrightarrow> c < N \<Longrightarrow> length (decimal (int (spiral N 1 r c))) \<le> W" "0 < W"
  shows "d \<le> N \<Longrightarrow> spiral_loop (table N W (outer N d)) (int (d * (N * W + 1 + W))) (int N * int W + 1) (int W)
     (int N - 2 * int d) (int (ring_start N d)) = Some (table N W UNIV)"
proof (induction "N - d" arbitrary: d rule: less_induct)
  case less
  show ?case
  proof (cases "2 * d < N")
    case False
    have "table N W (outer N d) = table N W UNIV"
      unfolding table_def
    proof (rule map_cong[OF refl])
      fix k assume "k \<in> set [0 ..< N * (N * W + 1)]"
      then have k: "k < N * (N * W + 1)" by simp
      have "k div (N * W + 1) < N" using k by (simp add: less_mult_imp_div_less)
      moreover have "k mod (N * W + 1) div W < N" if "k mod (N * W + 1) \<noteq> N * W"
      proof -
        have "k mod (N * W + 1) < N * W + 1" by simp
        then have "k mod (N * W + 1) < N * W" using that by linarith
        then show ?thesis by (simp add: less_mult_imp_div_less)
      qed
      ultimately show "(let r = k div (N * W + 1); m = k mod (N * W + 1); c = m div W in
         if m = N * W then CHR 0x0A
         else if (r, c) \<in> outer N d then cell_text W (decimal (int (spiral N 1 r c))) ! (m mod W) else CHR '' '') =
        (let r = k div (N * W + 1); m = k mod (N * W + 1); c = m div W in
         if m = N * W then CHR 0x0A
         else if (r, c) \<in> UNIV then cell_text W (decimal (int (spiral N 1 r c))) ! (m mod W) else CHR '' '')"
        using False by (auto simp: Let_def outer_def)
    qed
    then show ?thesis using False by (subst spiral_loop.simps) simp
  next
    case True
    define n where "n = N - 2 * d"
    have n: "0 < n" "N = 2 * d + n" "int N - 2 * int d = int n" using True by (simp_all add: n_def)
    define v where "v = ring_start N d"
    have sp: "spiral N 1 (d + r) (d + c) = spiral n v r c" if "r < n" "c < n" for r c
    proof -
      have "r + d < N - d" "c + d < N - d" using that unfolding n_def by linarith+
      then show ?thesis using spiral_ring[OF True] unfolding n_def v_def ring_start_def by blast
    qed
    note sides = spiral_sides[OF n(1), where v = v]
    let ?pos = "int (d * (N * W + 1 + W))" and ?fw = "int N * int W + 1"
    let ?S1 = "outer N d \<union> (\<lambda>i. (d, d + i)) ` {..<n}"
    let ?S2 = "?S1 \<union> (\<lambda>i. (d + (1 + i), d + (n - 1))) ` {..<n - 1}"
    let ?S3 = "?S2 \<union> (\<lambda>i. (d + (n - 1), d + (n - 2 - i))) ` {..<n - 1}"
    let ?S4 = "?S3 \<union> (\<lambda>i. (d + (n - 1 - i), d)) ` {..<n - 1}"
    have m: "int n - 1 = int (n - 1)" using n(1) by simp
    have L1: "write_line (table N W (outer N d)) ?pos (int W) (int W) (int n) (int v) = Some (table N W ?S1)"
    proof (rule write_line_cells[OF _ _ assms])
      fix i assume i: "i < n"
      show "d < N \<and> d + i < N \<and> ?pos + int i * int W = int (d * (N * W + 1) + (d + i) * W)"
        using i n(1,2) by (simp add: algebra_simps)
      show "int (spiral N 1 d (d + i)) = int i + int v" using sp[of 0 i] sides(1)[OF i] i by simp
    qed
    have L2: "write_line (table N W ?S1) (?pos + int (n - 1) * int W + ?fw) ?fw (int W) (int (n - 1)) (int v + int n) =
        Some (table N W ?S2)"
    proof (rule write_line_cells[OF _ _ assms])
      fix i assume i: "i < n - 1"
      have "int ((d + (1 + i)) * (N * W + 1) + (d + (n - 1)) * W) =
          (int d + (1 + int i)) * (int N * int W + 1) + (int d + int (n - 1)) * int W" by (simp only: of_nat_add of_nat_mult of_nat_1)
      also have "\<dots> = ?pos + int (n - 1) * int W + ?fw + int i * ?fw" by (simp add: algebra_simps)
      finally show "d + (1 + i) < N \<and> d + (n - 1) < N \<and>
          ?pos + int (n - 1) * int W + ?fw + int i * ?fw = int ((d + (1 + i)) * (N * W + 1) + (d + (n - 1)) * W)"
        using i n(1,2) by linarith
      show "int (spiral N 1 (d + (1 + i)) (d + (n - 1))) = int i + (int v + int n)" using sp[of "1 + i" "n - 1"] sides(2)[OF i] i by simp
    qed
    have L3: "write_line (table N W ?S2) (?pos + (int n - 2) * int W + ?fw * int (n - 1)) (- int W) (int W) (int (n - 1))
        (int v + int n * 2 - 1) = Some (table N W ?S3)"
    proof (rule write_line_cells[OF _ _ assms])
      fix i assume i: "i < n - 1"
      have e: "int (n - 2 - i) = int n - 2 - int i" using i by linarith
      have "int ((d + (n - 1)) * (N * W + 1) + (d + (n - 2 - i)) * W) =
          (int d + int (n - 1)) * (int N * int W + 1) + (int d + (int n - 2 - int i)) * int W" by (simp only: of_nat_add of_nat_mult e of_nat_1)
      also have "\<dots> = ?pos + (int n - 2) * int W + ?fw * int (n - 1) + int i * - int W" by (simp add: algebra_simps)
      finally show "d + (n - 1) < N \<and> d + (n - 2 - i) < N \<and>
          ?pos + (int n - 2) * int W + ?fw * int (n - 1) + int i * - int W = int ((d + (n - 1)) * (N * W + 1) + (d + (n - 2 - i)) * W)"
        using i n(1,2) by linarith
      have "int (v + 2 * n - 1 + i) = int i + (int v + int n * 2 - 1)" using i by linarith
      then show "int (spiral N 1 (d + (n - 1)) (d + (n - 2 - i))) = int i + (int v + int n * 2 - 1)"
        using sp[of "n - 1" "n - 2 - i"] sides(3)[OF i] i by simp
    qed
    have L4: "write_line (table N W ?S3) (?pos + ?fw * int (n - 1)) (- ?fw) (int W) (int (n - 1)) (int v + int n * 3 - 3) =
        Some (table N W ?S4)"
    proof (rule write_line_cells[OF _ _ assms])
      fix i assume i: "i < n - 1"
      have e: "int (n - 1 - i) = int (n - 1) - int i" using i by linarith
      have "int ((d + (n - 1 - i)) * (N * W + 1) + d * W) = (int d + (int (n - 1) - int i)) * (int N * int W + 1) + int d * int W"
        by (simp only: of_nat_add of_nat_mult e of_nat_1)
      also have "\<dots> = ?pos + ?fw * int (n - 1) + int i * - ?fw" by (simp add: algebra_simps)
      finally show "d + (n - 1 - i) < N \<and> d < N \<and>
          ?pos + ?fw * int (n - 1) + int i * - ?fw = int ((d + (n - 1 - i)) * (N * W + 1) + d * W)"
        using i n(1,2) by linarith
      have "int (v + 3 * n - 3 + i) = int i + (int v + int n * 3 - 3)" using i by linarith
      then show "int (spiral N 1 (d + (n - 1 - i)) d) = int i + (int v + int n * 3 - 3)"
        using sp[of "n - 1 - i" 0] sides(4)[OF i] i by simp
    qed
    have S4: "?S4 = outer N (Suc d)" using ring_cells[OF True] by (simp only: n_def)
    have pos: "?pos + ?fw + int W = int (Suc d * (N * W + 1 + W))" by (simp add: algebra_simps)
    have start: "int v + int n * 4 - 4 = int (ring_start N (Suc d))"
    proof -
      obtain e where e: "n = Suc e" using n(1) by (cases n) auto
      have "N - d = d + Suc e" "N - Suc d = d + e" using n(2) e by simp_all
      then show ?thesis by (simp add: v_def ring_start_def e algebra_simps)
    qed
    have "spiral_loop (table N W ?S4) (?pos + ?fw + int W) ?fw (int W) (int n - 2) (int v + int n * 4 - 4) = Some (table N W UNIV)"
    proof -
      have l: "int n - 2 = int N - 2 * int (Suc d)" using n(3) by simp
      show ?thesis unfolding S4 pos start l by (rule less.hyps) (use True in simp_all)
    qed
    then show ?thesis unfolding n(3) v_def[symmetric]
      using n(1) L1 L2 L3 L4 by (subst spiral_loop.simps) (simp only: m bind.simps of_nat_0_less_iff if_True)
  qed
qed

subsection \<open>The whole file\<close>

lemma dec_digits_mono: "m \<le> n \<Longrightarrow> length (dec_digits m) \<le> length (dec_digits n)"
proof (induction n arbitrary: m rule: less_induct)
  case (less n)
  show ?case
  proof (cases "m < 10")
    case True
    then have "length (dec_digits m) = 1" by (subst dec_digits.simps) simp
    then show ?thesis using dec_digits_nonempty[of n] by (cases "dec_digits n") auto
  next
    case False
    then have "length (dec_digits (m div 10)) \<le> length (dec_digits (n div 10))"
      using less by (intro less.IH) (simp_all add: div_le_mono)
    moreover have "\<not> n < 10" using False less.prems by simp
    ultimately show ?thesis using False by (simp add: dec_digits.simps[of m] dec_digits.simps[of n])
  qed
qed

lemma decimal_mono: "m \<le> n \<Longrightarrow> length (decimal (int m)) \<le> length (decimal (int n))"
  using dec_digits_mono[of m n] by (simp add: decimal_def)

lemma spiral_bound: "r < n \<Longrightarrow> c < n \<Longrightarrow> spiral n v r c < v + n * n"
proof (induction n v r c rule: spiral.induct)
  case (1 n v r c)
  show ?case
  proof (cases "1 < n \<and> r \<noteq> 0 \<and> c \<noteq> n - 1 \<and> r \<noteq> n - 1 \<and> c \<noteq> 0")
    case True
    then obtain k where k: "n = k + 2" by (metis Suc_1 Suc_leI le_Suc_ex add.commute)
    have "spiral n v r c = spiral (n - 2) (v + 4 * (n - 1)) (r - 1) (c - 1)" using True by (subst spiral.simps) simp
    also have "\<dots> < v + 4 * (n - 1) + (n - 2) * (n - 2)" using 1 True by (intro "1.IH") auto
    also have "\<dots> = v + n * n" by (simp add: k algebra_simps)
    finally show ?thesis .
  next
    case False
    show ?thesis
    proof (cases "n \<le> 1")
      case True
      then show ?thesis using 1(2) by (subst spiral.simps) simp
    next
      case n: False
      then obtain k where k: "n = k + 2" by (metis Suc_1 Suc_leI le_Suc_ex add.commute not_le)
      have "spiral n v r c \<le> v + 3 * (n - 1) \<or> 0 < r \<and> c = 0 \<and> r < n - 1 \<and> spiral n v r c = v + 4 * (n - 1) - r"
        using False 1(2,3) n by (subst (1 2) spiral.simps) auto
      then show ?thesis using 1(2,3) by (cases k) (auto simp: k algebra_simps)
    qed
  qed
qed

lemma map_rows: "map f [0 ..< n * k] = concat (map (\<lambda>r. map (\<lambda>m. f (r * k + m)) [0 ..< k]) [0 ..< n])"
proof (induction n)
  case (Suc n)
  have e: "Suc n * k = n * k + k" by simp
  have "map f [0 ..< Suc n * k] = map f [0 ..< n * k] @ map f [n * k ..< n * k + k]"
    unfolding e by (simp only: upt_add_eq_append[OF le0] map_append)
  moreover have "map f [n * k ..< n * k + k] = map (\<lambda>m. f (n * k + m)) [0 ..< k]" by (rule nth_equalityI) simp_all
  ultimately show ?case using Suc.IH by (simp del: mult_Suc)
qed simp

lemma length_blank_file: "length (blank_file (int F) n w) = F"
  by (simp add: blank_file_def)

lemma nth_blank_file: "k < F \<Longrightarrow> blank_file (int F) n w ! k = (if int k mod (n * w + 1) = n * w then CHR 0x0A else CHR '' '')"
  by (simp add: blank_file_def)

lemma blank_file_table: "blank_file (int N * int N * int W + int N) (int N) (int W) = table N W {}"
proof -
  have f: "int N * int N * int W + int N = int (N * (N * W + 1))" by (simp add: algebra_simps)
  show ?thesis unfolding f
  proof (rule nth_equalityI)
    show "length (blank_file (int (N * (N * W + 1))) (int N) (int W)) = length (table N W {})"
      unfolding length_blank_file by simp
    fix k assume "k < length (blank_file (int (N * (N * W + 1))) (int N) (int W))"
    then have k: "k < N * (N * W + 1)" unfolding length_blank_file .
    have "int k mod (int N * int W + 1) = int N * int W \<longleftrightarrow> k mod (N * W + 1) = N * W"
      by (metis of_nat_1 of_nat_add of_nat_eq_iff of_nat_mod of_nat_mult)
    then show "blank_file (int (N * (N * W + 1))) (int N) (int W) ! k = table N W {} ! k"
      unfolding nth_blank_file[OF k] nth_table[OF k] by simp
  qed
qed

lemma table_text:
  assumes "\<And>r c. r < N \<Longrightarrow> c < N \<Longrightarrow> length (decimal (int (spiral N 1 r c))) \<le> W" "0 < W"
  shows "table N W UNIV = spiral_text N W"
proof -
  define f where "f = (\<lambda>k. let r = k div (N * W + 1); m = k mod (N * W + 1); c = m div W in
     if m = N * W then CHR 0x0A else cell_text W (decimal (int (spiral N 1 r c))) ! (m mod W))"
  have cell: "f (r * (N * W + 1) + (c * W + j)) = cell_text W (decimal (int (spiral N 1 r c))) ! j" if "c < N" "j < W" for r c j
    using cell_index(1,2)[OF that, of r] cell_index(3-5)[OF that] by (simp add: f_def Let_def add.assoc)
  have nl: "f (r * (N * W + 1) + N * W) = CHR 0x0A" for r
  proof -
    have "(r * (N * W + 1) + N * W) mod (N * W + 1) = N * W" by (simp only: mod_mult_self3) simp
    then show ?thesis by (simp add: f_def Let_def)
  qed
  have word: "map (\<lambda>j. f (r * (N * W + 1) + (c * W + j))) [0 ..< W] = cell_text W (decimal (int (spiral N 1 r c)))"
    if "r < N" "c < N" for r c
    using cell[OF that(2)] assms(1)[OF that] by (intro nth_equalityI) (simp_all add: cell_text_def)
  have line: "map (\<lambda>m. f (r * (N * W + 1) + m)) [0 ..< N * W + 1] =
      concat (map (\<lambda>c. cell_text W (decimal (int (spiral N 1 r c)))) [0 ..< N]) @ [CHR 0x0A]" if r: "r < N" for r
  proof -
    have "map (\<lambda>m. f (r * (N * W + 1) + m)) [0 ..< N * W + 1] =
        map (\<lambda>m. f (r * (N * W + 1) + m)) [0 ..< N * W] @ [f (r * (N * W + 1) + N * W)]" by simp
    also have "map (\<lambda>m. f (r * (N * W + 1) + m)) [0 ..< N * W] =
        concat (map (\<lambda>c. map (\<lambda>j. f (r * (N * W + 1) + (c * W + j))) [0 ..< W]) [0 ..< N])"
      by (rule map_rows)
    also have "map (\<lambda>c. map (\<lambda>j. f (r * (N * W + 1) + (c * W + j))) [0 ..< W]) [0 ..< N] =
        map (\<lambda>c. cell_text W (decimal (int (spiral N 1 r c)))) [0 ..< N]"
      using word[OF r] by (intro map_cong) simp_all
    finally show ?thesis using nl by simp
  qed
  have "table N W UNIV = map f [0 ..< N * (N * W + 1)]" by (simp add: table_def f_def Let_def)
  also have "\<dots> = concat (map (\<lambda>r. map (\<lambda>m. f (r * (N * W + 1) + m)) [0 ..< N * W + 1]) [0 ..< N])" by (rule map_rows)
  also have "map (\<lambda>r. map (\<lambda>m. f (r * (N * W + 1) + m)) [0 ..< N * W + 1]) [0 ..< N] =
      map (\<lambda>r. concat (map (\<lambda>c. cell_text W (decimal (int (spiral N 1 r c)))) [0 ..< N]) @ [CHR 0x0A]) [0 ..< N]"
    using line by (intro map_cong) simp_all
  finally show ?thesis by (simp only: spiral_text_def)
qed

text \<open>
  C9: If the largest number fits into a cell and the size of the file into an int, the program ends with status 0, never writes
  outside of the mapping, and leaves the rows of the spiral, right-aligned in their cells, whatever the file held before.
\<close>

theorem spiral_main_writes:
  assumes "4 \<le> argc" "1 \<le> N" "1 \<le> W" "length (decimal (int (N * N))) \<le> W" "N * N * W + N < 2 ^ 31"
  shows "spiral_main argc True (int N) (int W) old = Some (0, spiral_text N W)"
proof -
  have len: "length (decimal (int (spiral N 1 r c))) \<le> W" if "r < N" "c < N" for r c
    using decimal_mono[of "spiral N 1 r c" "N * N"] spiral_bound[OF that, of 1] assms(4) by simp
  have W: "0 < W" using assms(3) by simp
  have "table N W {} = table N W (outer N 0)" 
  proof -
    have "outer N 0 = {}" by (auto simp: outer_def)
    then show ?thesis by simp
  qed
  moreover have "spiral_loop (table N W (outer N 0)) (int (0 * (N * W + 1 + W))) (int N * int W + 1) (int W)
     (int N - 2 * int 0) (int (ring_start N 0)) = Some (table N W UNIV)"
    by (rule spiral_loop_table[OF len W]) simp_all
  ultimately have "write_spiral (int N * int N * int W + int N) (int N) (int W) = Some (spiral_text N W)"
    using table_text[OF len W] by (simp add: write_spiral_def blank_file_table ring_start_def)
  moreover have "is_i32 (int N * int N * int W + int N)"
  proof -
    have e: "int N * int N * int W + int N = int (N * N * W + N)" by simp
    have "int (N * N * W + N) < int (2 ^ 31)" using assms(5) by (simp only: of_nat_less_iff)
    then have "int (N * N * W + N) < 2 ^ 31" by simp
    then show ?thesis unfolding is_i32_def e using of_nat_0_le_iff[of "N * N * W + N"] by linarith
  qed
  moreover have "0 < int N * int N * int W + int N" using assms(2,3) by (simp add: add_pos_pos)
  ultimately show ?thesis using assms(1) by (simp add: spiral_main_def)
qed

lemma spiral_main_writes_witness: "spiral_main 4 True 3 2 [] = Some (0, spiral_text 3 2)"
  using spiral_main_writes[of 4 3 2 "[]"] by (simp add: decimal_def dec_digits.simps)

text \<open>The spiral of width 3.\<close>

lemma spiral_text_3: "spiral_text 3 2 = '' 1 2 3'' @ [CHR 0x0A] @ '' 8 9 4'' @ [CHR 0x0A] @ '' 7 6 5'' @ [CHR 0x0A]"
  by code_simp

end
