(* ===== verification/HttpClient.thy ===== *)
theory HttpClient
  imports HttpServer DnsResolver
begin

section \<open>http-get and http-post: two HTTP clients\<close>

text \<open>
  \<^verbatim>\<open>inf23-0-http_http-get/main.c\<close> and \<^verbatim>\<open>inf23-1-http_http-post/main.c\<close>.  Both build a request with a chain of
  \<^verbatim>\<open>sprintf\<close> calls, send it and print the response without its head.  The socket is the pair of descriptors
  \<open>client\<close> of \<open>HttpServer\<close>, what is printed is a result.  \<^verbatim>\<open>gethostbyname\<close> and \<^verbatim>\<open>connect\<close> are
  parameters.  \<open>None\<close> is an access outside of an array or through the pointer \<^verbatim>\<open>NULL + 4\<close>, which the programs
  compute when the first bytes they receive do not contain the end of the head.
\<close>

subsection \<open>Building the request\<close>

text \<open>\<^verbatim>\<open>sprintf(request + strlen(request), ...)\<close>, for the text that the format expands to.\<close>

definition sprintf_end :: "char list \<Rightarrow> char list \<Rightarrow> char list option" where
  "sprintf_end request t =
     (if NUL \<in> set request then copy_to request (length (cstr request)) (t @ [NUL]) else None)"

fun sprintf_all :: "char list \<Rightarrow> char list list \<Rightarrow> char list option" where
  "sprintf_all request [] = Some request"
| "sprintf_all request (t # ts) = Option.bind (sprintf_end request t) (\<lambda>request. sprintf_all request ts)"

definition get_lines :: "char list \<Rightarrow> char list \<Rightarrow> char list list" where
  "get_lines server_name path = [''GET '' @ path @ '' HTTP/1.0'' @ crlf, ''Host: '' @ server_name @ crlf @ crlf]"

definition post_lines :: "char list \<Rightarrow> char list \<Rightarrow> int \<Rightarrow> char list list" where
  "post_lines server_name path file_size =
     [''POST '' @ path @ '' HTTP/1.0'' @ crlf, ''Host: '' @ server_name @ crlf,
      ''Content-Length: '' @ decimal (to_size file_size) @ crlf, crlf]"

text \<open>The array \<^verbatim>\<open>request\<close> has 10000 elements; \<open>junk\<close> is what it holds at first.\<close>

definition build_request :: "char list \<Rightarrow> char list list \<Rightarrow> char list option" where
  "build_request junk ls = map_option cstr (sprintf_all (junk[0 := NUL]) ls)"

subsection \<open>Printing the response\<close>

fun strstr :: "char list \<Rightarrow> char list \<Rightarrow> nat option" where
  "strstr [] word = (if word = [] then Some 0 else None)"
| "strstr (c # cs) word = (if begins word (c # cs) then Some 0 else map_option Suc (strstr cs word))"

text \<open>Where the text to print begins in the first piece, in the two programs.\<close>

definition get_body_at :: "char list \<Rightarrow> nat option" where
  "get_body_at line = map_option (\<lambda>p. p + 4) (strstr line (crlf @ crlf))"

definition post_body_at :: "char list \<Rightarrow> nat option" where
  "post_body_at line = (if begins ''HTTP'' line then map_option (\<lambda>p. p + 4) (strstr line (crlf @ crlf)) else Some 0)"

text \<open>The loop the programs share.  \<^verbatim>\<open>line\<close> is a C string: it ends at the first NUL of what was received.\<close>

function print_response ::
  "(char list \<Rightarrow> nat option) \<Rightarrow> char source \<Rightarrow> bool \<Rightarrow> char list \<Rightarrow> (char list \<times> char source) option" where
  "print_response body_at sock first shown =
     (case sys_read sock 9999 of (n, bs, sock') \<Rightarrow>
        if 0 < n then
          (case (if first then body_at (cstr (bs @ [NUL])) else Some 0) of
             None \<Rightarrow> None
           | Some p \<Rightarrow> print_response body_at sock' False (shown @ drop p (cstr (bs @ [NUL]))))
        else Some (shown, sock'))"
  by pat_completeness auto
termination
  by (relation "measure (\<lambda>(body_at, sock, first, shown). length (rest sock))")
    (auto dest!: sys_read_decreases[OF sym])

declare print_response.simps [simp del]

subsection \<open>http-get\<close>

text \<open>The request is sent by a single \<^verbatim>\<open>write\<close>.\<close>

definition http_get :: "char list \<Rightarrow> client \<Rightarrow> char list \<Rightarrow> char list \<Rightarrow> (char list \<times> client) option" where
  "http_get junk c server_name path =
     (case build_request junk (get_lines server_name path) of
        None \<Rightarrow> None
      | Some request \<Rightarrow>
          let out = snd (sys_write (client_out c) request) in
          map_option (\<lambda>(shown, sock). (shown, \<lparr>client_in = sock, client_out = out\<rparr>))
            (print_response get_body_at (client_in c) True []))"

subsection \<open>http-post\<close>

function write_all_post :: "char sink \<Rightarrow> char list \<Rightarrow> nat \<Rightarrow> nat \<times> char sink" where
  "write_all_post fd buffer wrote =
     (case sys_write fd (drop wrote buffer) of (n, fd') \<Rightarrow>
        if 0 < n then
          (if wrote + nat n = length buffer then (wrote + nat n, fd')
           else write_all_post fd' buffer (wrote + nat n))
        else (wrote, fd'))"
  by pat_completeness auto
termination
  by (relation "measure (\<lambda>(fd, t, written). length t - written)")
    (auto dest!: sys_write_bound[OF sym])

declare write_all_post.simps [simp del]

function send_file :: "char sink \<Rightarrow> char source \<Rightarrow> char sink" where
  "send_file fd src =
     (case sys_read src 1000 of (n, buffer, src') \<Rightarrow>
        if 0 < n then send_file (snd (write_all_post fd buffer 0)) src' else fd)"
  by pat_completeness auto
termination
  by (relation "measure (\<lambda>(fd, src). length (rest src))")
    (auto dest!: sys_read_decreases[OF sym])

declare send_file.simps [simp del]

text \<open>
  The file is \<open>None\<close> when it could not be opened; \<^verbatim>\<open>fstat\<close> then fails and the size that is sent is
  whatever the local variable held.
\<close>

definition http_post ::
  "char list \<Rightarrow> int \<Rightarrow> client \<Rightarrow> char list \<Rightarrow> char list \<Rightarrow> char source option \<Rightarrow> (char list \<times> client) option" where
  "http_post junk junk_size c server_name path file =
     (let file_size = (case file of None \<Rightarrow> junk_size | Some src \<Rightarrow> int (length (rest src))) in
      case build_request junk (post_lines server_name path file_size) of
        None \<Rightarrow> None
      | Some request \<Rightarrow>
          let out = snd (write_all_post (client_out c) request 0);
              out = (case file of None \<Rightarrow> out | Some src \<Rightarrow> send_file out src)
          in map_option (\<lambda>(shown, sock). (shown, \<lparr>client_in = sock, client_out = out\<rparr>))
               (print_response post_body_at (client_in c) True []))"

subsection \<open>main\<close>

text \<open>
  \<^verbatim>\<open>gethostbyname\<close> finds nothing, or the length of an address and the addresses.  \<open>None\<close> is the null pointer at
  the end of an empty list of addresses.
\<close>

definition hostname_to_ip :: "(nat \<times> char list list) option \<Rightarrow> (int \<times> char list) option" where
  "hostname_to_ip host_resolved =
     (case host_resolved of
        None \<Rightarrow> Some (- 1, [])
      | Some (h_length, addr_list) \<Rightarrow>
          if h_length = 0 then Some (- 1, [])
          else (case addr_list of [] \<Rightarrow> None | a # _ \<Rightarrow> Some (0, inet_ntoa a)))"

text \<open>
  \<^verbatim>\<open>main\<close> of http-get and of http-post.  The arguments after the name of the program are \<open>args\<close>; \<open>conn\<close> is the
  connected socket for an address.  When \<^verbatim>\<open>connect\<close> fails, every transfer on the descriptor \<^verbatim>\<open>-1\<close> fails and
  nothing is printed.
\<close>

definition get_main ::
  "char list \<Rightarrow> (char list \<Rightarrow> (nat \<times> char list list) option) \<Rightarrow> (char list \<Rightarrow> client option) \<Rightarrow> char list list
     \<Rightarrow> (int \<times> char list) option" where
  "get_main junk gethostbyname conn args =
     (case args of
        server_name # filepath # _ \<Rightarrow>
          (case hostname_to_ip (gethostbyname server_name) of
             None \<Rightarrow> None
           | Some (status, ip) \<Rightarrow>
               if status = - 1 then Some (1, [])
               else (case conn ip of
                       None \<Rightarrow> map_option (\<lambda>_. (0, [])) (build_request junk (get_lines server_name filepath))
                     | Some c \<Rightarrow> map_option (\<lambda>(shown, _). (0, shown)) (http_get junk c server_name filepath)))
      | _ \<Rightarrow> Some (1, []))"

definition post_main ::
  "char list \<Rightarrow> int \<Rightarrow> (char list \<Rightarrow> (nat \<times> char list list) option) \<Rightarrow> (char list \<Rightarrow> client option)
     \<Rightarrow> (char list \<Rightarrow> char source option) \<Rightarrow> char list list \<Rightarrow> (int \<times> char list) option" where
  "post_main junk junk_size gethostbyname conn fopen args =
     (case args of
        server_name # script_path # filepath # _ \<Rightarrow>
          (case hostname_to_ip (gethostbyname server_name) of
             None \<Rightarrow> None
           | Some (status, ip) \<Rightarrow>
               if status = - 1 then Some (1, [])
               else let file = fopen filepath in
                 (case conn ip of
                    None \<Rightarrow> map_option (\<lambda>_. (0, [])) (build_request junk (post_lines server_name script_path
                              (case file of None \<Rightarrow> junk_size | Some src \<Rightarrow> int (length (rest src)))))
                  | Some c \<Rightarrow> map_option (\<lambda>(shown, _). (0, shown))
                      (http_post junk junk_size c server_name script_path file)))
      | _ \<Rightarrow> Some (1, []))"

subsection \<open>The request is sent\<close>

lemma sprintf_all_appends:
  assumes "NUL \<notin> set w" "\<forall>t\<in>set ts. NUL \<notin> set t" "length (w @ concat ts) + 1 \<le> length (w @ NUL # v)"
  shows "\<exists>v'. sprintf_all (w @ NUL # v) ts = Some (w @ concat ts @ NUL # v')"
  using assms
proof (induction ts arbitrary: w v)
  case (Cons t ts)
  let ?v = "drop (length t) v"
  have room: "length t \<le> length v" using Cons.prems(3) by simp
  have "sprintf_end (w @ NUL # v) t = Some ((w @ t) @ NUL # ?v)"
    using Cons.prems(1) room by (simp add: sprintf_end_def copy_to_def overwrite_def)
  moreover obtain v' where "sprintf_all ((w @ t) @ NUL # ?v) ts = Some ((w @ t) @ concat ts @ NUL # v')"
    using Cons.IH[of "w @ t" ?v] Cons.prems room by auto
  ultimately show ?case by simp
qed simp

lemma build_request_builds:
  assumes "\<forall>t\<in>set ts. NUL \<notin> set t" "length (concat ts) < length junk"
  shows "build_request junk ts = Some (concat ts)"
proof -
  obtain c v where j: "junk = c # v" using assms(2) by (cases junk) auto
  then obtain v' where "sprintf_all ([] @ NUL # v) ts = Some ([] @ concat ts @ NUL # v')"
    using sprintf_all_appends[of "[]" ts v] assms by auto
  moreover have "NUL \<notin> set (concat ts)" using assms(1) by auto
  ultimately show ?thesis using j by (simp add: build_request_def)
qed

lemma write_all_post_writes:
  "progressing fd \<Longrightarrow> k \<le> length t \<Longrightarrow>
   \<exists>n fd'. write_all_post fd t k = (n, fd') \<and> progressing fd' \<and> sunk fd' = sunk fd @ drop k t"
proof (induction fd t k rule: write_all_post.induct)
  case (1 fd t k)
  obtain n fd1 where w: "sys_write fd (drop k t) = (n, fd1)" by fastforce
  note p = sys_write_progress[OF w 1(2)]
  have split: "take (nat n) (drop k t) @ drop (k + nat n) t = drop k t"
    by (metis append_take_drop_id drop_drop add.commute)
  show ?case
  proof (cases "0 < n \<and> k + nat n \<noteq> length t")
    case True
    have "nat n \<le> length t - k" using p by simp
    then have "k + nat n \<le> length t" using 1(3) by arith
    then obtain m fd' where "write_all_post fd1 t (k + nat n) = (m, fd')" "progressing fd'"
      "sunk fd' = sunk fd1 @ drop (k + nat n) t"
      using 1(1)[OF w[symmetric]] True p by auto
    then show ?thesis using w p True split by (subst write_all_post.simps) simp
  next
    case False
    then have "drop (k + nat n) t = []" using p by (cases "0 < n") auto
    then show ?thesis using w p False split by (subst write_all_post.simps) auto
  qed
qed

lemma send_file_sends:
  "progressing fd \<Longrightarrow> no_read_failure src \<Longrightarrow>
   progressing (send_file fd src) \<and> sunk (send_file fd src) = sunk fd @ rest src"
proof (induction fd src rule: send_file.induct)
  case (1 fd src)
  obtain n bs src' where rd: "sys_read src 1000 = (n, bs, src')" by (metis prod_cases3)
  have ok: "n \<noteq> - 1" "no_read_failure src'" using sys_read_no_failure[OF rd 1(3)] by auto
  show ?case
  proof (cases "0 < n")
    case True
    then have "rest src = bs @ rest src'" using source.rd_left[OF rd] by simp
    moreover obtain k d1 where "write_all_post fd bs 0 = (k, d1)" "progressing d1" "sunk d1 = sunk fd @ bs"
      using write_all_post_writes[OF 1(2), of 0 bs] by auto
    moreover note 1(1)[OF rd[symmetric] refl True]
    ultimately show ?thesis using rd True ok by (subst (1 2) send_file.simps) auto
  next
    case False
    then have "n = 0" using source.rd_range[OF rd] ok by auto
    then show ?thesis using source.rd_eof[of src 1000 bs src'] rd 1(2) by (subst (1 2) send_file.simps) simp
  qed
qed

lemma post_lines_no_NUL:
  assumes "NUL \<notin> set server" "NUL \<notin> set path"
  shows "\<forall>t\<in>set (get_lines server path) \<union> set (post_lines server path n). NUL \<notin> set t"
proof -
  have "NUL \<notin> set crlf" "NUL \<notin> set (''HTTP/1.0'')" by (simp_all add: crlf_def NUL_def)
  moreover have "NUL \<notin> set (dec_digits k)" for k
    using dec_digits_are_digits[of k] by (auto simp: NUL_def is_digit_def)
  then have "NUL \<notin> set (decimal k)" for k by (auto simp: decimal_def NUL_def)
  ultimately show ?thesis using assms by (auto simp: get_lines_def post_lines_def NUL_def)
qed

subsection \<open>The response is printed\<close>

lemma begins_short: "length s < length w \<Longrightarrow> \<not> begins w s"
  by (auto simp: begins_def dest: arg_cong[where f = length])

lemma begins_append: "length w \<le> length s \<Longrightarrow> begins w (s @ t) = begins w s"
  by (simp add: begins_def)

lemma begins_longer: "begins w s \<Longrightarrow> begins w (s @ t)"
  by (metis begins_append begins_short not_less)

lemma strstr_Some:
  "strstr s w = Some p \<longleftrightarrow> p \<le> length s \<and> begins w (drop p s) \<and> (\<forall>i<p. \<not> begins w (drop i s))"
proof (induction s arbitrary: p)
  case Nil
  then show ?case by (auto simp: begins_def)
next
  case (Cons c cs)
  show ?case
  proof (cases "begins w (c # cs)")
    case True
    then show ?thesis by (auto simp: gr0_conv_Suc)
  next
    case False
    then show ?thesis using Cons by (cases p) (auto simp: All_less_Suc2)
  qed
qed

text \<open>The end of \<open>head\<close> is the first empty line.\<close>

definition head_of_response :: "char list \<Rightarrow> bool" where
  "head_of_response head \<longleftrightarrow> (\<forall>i<length head. \<not> begins (crlf @ crlf) (drop i (head @ crlf @ crlf)))"

lemma strstr_head:
  assumes "head_of_response head"
  shows "strstr (head @ crlf @ crlf @ body) (crlf @ crlf) = Some (length head)"
proof -
  have "begins (crlf @ crlf) (drop i (head @ crlf @ crlf @ body)) = begins (crlf @ crlf) (drop i (head @ crlf @ crlf))"
    if "i < length head" for i
    using that begins_append[of "crlf @ crlf" "drop i (head @ crlf @ crlf)" body] by (simp add: crlf_def)
  then show ?thesis using assms by (auto simp: strstr_Some head_of_response_def begins_def)
qed

lemma print_rest:
  "no_read_failure sock \<Longrightarrow> NUL \<notin> set (rest sock) \<Longrightarrow>
   \<exists>sock'. print_response body_at sock False shown = Some (shown @ rest sock, sock')"
proof (induction "length (rest sock)" arbitrary: sock shown rule: less_induct)
  case less
  obtain n bs s' where rd: "sys_read sock 9999 = (n, bs, s')" by (metis prod_cases3)
  have ok: "n \<noteq> - 1" "no_read_failure s'" using sys_read_no_failure[OF rd less.prems(1)] by auto
  show ?case
  proof (cases "0 < n")
    case True
    then have "rest sock = bs @ rest s'" "length (rest s') < length (rest sock)"
      using source.rd_left[OF rd] sys_read_decreases[OF rd] by auto
    then show ?thesis
      using less.hyps[of s' "shown @ bs"] less.prems(2) ok rd True by (subst print_response.simps) auto
  next
    case False
    then have "n = 0" using source.rd_range[OF rd] ok by auto
    then show ?thesis
      using source.rd_eof[of sock 9999 bs s'] rd by (subst print_response.simps) simp
  qed
qed

lemma print_response_result:
  assumes sock: "no_read_failure sock" "NUL \<notin> set (rest sock)" and rd: "sys_read sock 9999 = (n, bs, s')" and n: "0 < n"
  shows "case body_at bs of
      None \<Rightarrow> print_response body_at sock True [] = None
    | Some p \<Rightarrow> p \<le> length bs \<longrightarrow> (\<exists>s2. print_response body_at sock True [] = Some (drop p (rest sock), s2))"
proof -
  have split: "rest sock = bs @ rest s'" using source.rd_left[OF rd] n by simp
  have c: "cstr (bs @ [NUL]) = bs" using sock(2) split by simp
  have "print_response body_at sock True [] = (case body_at bs of None \<Rightarrow> None
      | Some p \<Rightarrow> print_response body_at s' False (drop p bs))"
    using rd n c by (subst print_response.simps) (simp split: option.split)
  moreover have "\<exists>s2. print_response body_at s' False (drop p bs) = Some (drop p bs @ rest s', s2)" for p
    using print_rest[of s' body_at "drop p bs"] sys_read_no_failure[OF rd sock(1)] sock(2) split by simp
  ultimately show ?thesis using split by (auto split: option.split)
qed

subsection \<open>Properties\<close>

definition post_request :: "char list \<Rightarrow> char list \<Rightarrow> char list \<Rightarrow> char list" where
  "post_request server path contents =
     ''POST '' @ path @ '' HTTP/1.0'' @ crlf @ ''Host: '' @ server @ crlf
       @ ''Content-Length: '' @ decimal (int (length contents)) @ crlf @ crlf @ contents"

definition get_text :: "char list \<Rightarrow> char list \<Rightarrow> char list" where
  "get_text server path = ''GET '' @ path @ '' HTTP/1.0'' @ crlf @ ''Host: '' @ server @ crlf @ crlf"

lemma get_request_built:
  assumes "NUL \<notin> set server" "NUL \<notin> set path" "length server + length path + 40 \<le> length junk"
  shows "build_request junk (get_lines server path) = Some (get_text server path)"
proof -
  have "concat (get_lines server path) = get_text server path" by (simp add: get_lines_def get_text_def)
  then show ?thesis
    using build_request_builds[of "get_lines server path" junk] post_lines_no_NUL[OF assms(1,2)] assms(3)
    by (auto simp: get_text_def crlf_def)
qed

lemma strstr_None: "strstr s w = None \<longleftrightarrow> (\<forall>p\<le>length s. \<not> begins w (drop p s))"
proof (induction s)
  case Nil
  then show ?case by (auto simp: begins_def)
next
  case (Cons c cs)
  have "(\<forall>p\<le>length (c # cs). \<not> begins w (drop p (c # cs))) \<longleftrightarrow>
      \<not> begins w (c # cs) \<and> (\<forall>p\<le>length cs. \<not> begins w (drop p cs))"
    by (metis Suc_le_mono drop0 drop_Suc_Cons length_Cons not0_implies_Suc zero_le)
  then show ?case using Cons by simp
qed

text \<open>Where the text to print begins, by how much of a response the first piece has.\<close>

lemma post_body_at_piece:
  assumes "begins ''HTTP'' head" "head_of_response head" "piece @ remains = head @ crlf @ crlf @ body"
  shows "post_body_at piece =
    (if length piece < 4 then Some 0 else if length piece < length head + 4 then None else Some (length head + 4))"
proof -
  have p: "piece = take (length piece) (head @ crlf @ crlf @ body)" using assms(3) by (metis append_eq_conv_conj)
  consider "length piece < 4" | "4 \<le> length piece" "length piece < length head + 4" | "length head + 4 \<le> length piece"
    by linarith
  then show ?thesis
  proof cases
    case 1
    then show ?thesis using begins_short[of piece "''HTTP''"] by (simp add: post_body_at_def)
  next
    case 2
    then have "length piece - length (head @ crlf @ crlf) = 0" by (simp add: crlf_def)
    then have p2: "piece = take (length piece) (head @ crlf @ crlf)"
      using p take_append[of "length piece" "head @ crlf @ crlf" body] by (metis append.assoc append_Nil2 take_0)
    have "begins ''HTTP'' (piece @ remains)" using assms(1,3) begins_longer by metis
    then have "begins ''HTTP'' piece" using begins_append[of "''HTTP''" piece remains] 2 by simp
    moreover have "\<not> begins (crlf @ crlf) (drop i piece)" for i
    proof
      assume at: "begins (crlf @ crlf) (drop i piece)"
      then have "4 \<le> length piece - i" using begins_short[of "drop i piece" "crlf @ crlf"] by (force simp: crlf_def)
      then have i: "i < length head" "i \<le> length piece" using 2 by linarith+
      obtain t where t: "head @ crlf @ crlf = piece @ t" using p2 by (metis append_take_drop_id)
      have "drop i (piece @ t) = drop i piece @ t" using i(2) by simp
      then show False using assms(2) i(1) begins_longer[OF at, of t] unfolding head_of_response_def t by metis
    qed
    ultimately show ?thesis using 2 by (simp add: post_body_at_def strstr_None)
  next
    case 3
    have "piece = take (length piece) ((head @ crlf @ crlf) @ body)" using p by simp
    also have "\<dots> = head @ crlf @ crlf @ take (length piece - (length head + 4)) body"
      unfolding take_append using 3 by (simp add: crlf_def numeral_eq_Suc)
    finally have bs: "piece = head @ crlf @ crlf @ take (length piece - (length head + 4)) body" .
    have "4 \<le> length head" using assms(1) begins_short[of head "''HTTP''"] by force
    then show ?thesis
      using 3 strstr_head[OF assms(2)] begins_longer[OF assms(1)] by (subst bs) (simp add: post_body_at_def)
  qed
qed

text \<open>
  C27: http-post sends the request with the length and then the contents of the file, in full and in order, however the system
  splits the reads of the file and the writes.  What it prints of a response that has no NUL byte depends on the first read
  from the socket: when that contains the whole head with its empty line, exactly the body is printed, however the rest is split; when it
  contains less, but at least the four characters of \<^verbatim>\<open>HTTP\<close>, the program computes the address \<^verbatim>\<open>NULL + 4\<close> and prints from
  there, which is \<open>None\<close>; when it has fewer than four characters the head is printed too.
\<close>

theorem http_post_exchanges:
  assumes "NUL \<notin> set server" and "NUL \<notin> set path" and "length junk = 10000"
    and "length server + length path + 100 \<le> 10000" and "length (rest src) < 2 ^ 64"
    and "no_read_failure src" and "progressing (client_out c)"
    and "rest (client_in c) = head @ crlf @ crlf @ body" and "NUL \<notin> set (head @ body)" and "begins ''HTTP'' head"
    and "head_of_response head" and "no_read_failure (client_in c)"
    and first: "fst (sys_read (client_in c) 9999) = int n"
  shows "if n < 4 \<or> length head + 4 \<le> n
    then \<exists>c'. http_post junk junk_size c server path (Some src) = Some (if n < 4 then head @ crlf @ crlf @ body else body, c')
      \<and> sunk (client_out c') = sunk (client_out c) @ post_request server path (rest src)
    else http_post junk junk_size c server path (Some src) = None"
proof -
  let ?ls = "post_lines server path (int (length (rest src)))"
  have "nat (int (length (rest src))) < 10 ^ 20" using assms(5) by simp
  then have "length (decimal (int (length (rest src)))) \<le> 20"
    using length_dec_digits[of "length (rest src)" 20] by (simp add: decimal_def)
  moreover have "to_size (int (length (rest src))) = int (length (rest src))" using assms(5) by simp
  ultimately have ls: "concat ?ls @ rest src = post_request server path (rest src)" "length (concat ?ls) < length junk"
    using assms(3,4) by (simp_all add: post_lines_def post_request_def crlf_def)
  have built: "build_request junk ?ls = Some (concat ?ls)"
    using build_request_builds[OF _ ls(2)] post_lines_no_NUL[OF assms(1,2)] by blast
  obtain k out where w: "write_all_post (client_out c) (concat ?ls) 0 = (k, out)" "progressing out"
    "sunk out = sunk (client_out c) @ concat ?ls"
    using write_all_post_writes[OF assms(7), of 0 "concat ?ls"] by auto
  have sent: "sunk (send_file out src) = sunk (client_out c) @ post_request server path (rest src)"
    using send_file_sends[OF w(2) assms(6)] w(3) ls(1) by simp
  obtain bs s' where rd: "sys_read (client_in c) 9999 = (int n, bs, s')" using first by (metis prod_cases3 fst_conv)
  have "n \<noteq> 0" using source.rd_eof[of "client_in c" 9999 bs s'] rd assms(8) by (auto simp: crlf_def)
  then have n: "0 < int n" "rest (client_in c) = bs @ rest s'" "length bs = n"
    using source.rd_range[OF rd] source.rd_left[OF rd] by auto
  have "post_body_at bs = (if n < 4 then Some 0 else if n < length head + 4 then None else Some (length head + 4))"
    using post_body_at_piece[OF assms(10,11), of bs "rest s'" body] n(2,3) assms(8) by simp
  moreover have "drop (length head + 4) (rest (client_in c)) = body" using assms(8) by (simp add: crlf_def)
  moreover have "NUL \<notin> set (rest (client_in c))" using assms(8,9) by (auto simp: crlf_def NUL_def)
  moreover note pr = print_response_result[OF assms(12) _ rd n(1), of post_body_at]
  ultimately have shown: "n < 4 \<Longrightarrow> \<exists>s2. print_response post_body_at (client_in c) True [] = Some (head @ crlf @ crlf @ body, s2)"
    "length head + 4 \<le> n \<Longrightarrow> \<not> n < 4 \<Longrightarrow> \<exists>s2. print_response post_body_at (client_in c) True [] = Some (body, s2)"
    "\<not> n < 4 \<Longrightarrow> n < length head + 4 \<Longrightarrow> print_response post_body_at (client_in c) True [] = None"
    using n(3) by (simp_all add: assms(8))
  have post: "http_post junk junk_size c server path (Some src) =
      map_option (\<lambda>(shown, sock). (shown, \<lparr>client_in = sock, client_out = send_file out src\<rparr>))
        (print_response post_body_at (client_in c) True [])"
    using built w(1) by (simp add: http_post_def Let_def)
  consider "n < 4" | "\<not> n < 4" "length head + 4 \<le> n" | "\<not> n < 4" "n < length head + 4" by linarith
  then show ?thesis
  proof cases
    case 1
    then show ?thesis using shown(1) sent unfolding post by auto
  next
    case 2
    then show ?thesis using shown(2) sent unfolding post by auto
  next
    case 3
    then show ?thesis using shown(3) unfolding post by simp
  qed
qed

text \<open>
  http-get, which sends its request with one write, prints what follows the first empty line; when the
  first bytes that it reads contain none, it fails, whatever arrives later.
\<close>

lemma http_get_needs_head:
  assumes "NUL \<notin> set server" and "NUL \<notin> set path" and "length server + length path + 40 \<le> length junk"
    and "no_read_failure (client_in c)" and "NUL \<notin> set (rest (client_in c))"
    and "sys_read (client_in c) 9999 = (n, bs, s')" and "0 < n"
    and "sys_write (client_out c) (get_text server path) = (k, out)"
  shows "case strstr bs (crlf @ crlf) of
      None \<Rightarrow> http_get junk c server path = None
    | Some p \<Rightarrow> \<exists>sock. http_get junk c server path = Some (drop (p + 4) (rest (client_in c)), \<lparr>client_in = sock, client_out = out\<rparr>)"
proof -
  have "p + 4 \<le> length bs" if "strstr bs (crlf @ crlf) = Some p" for p
    using that begins_short[of "drop p bs" "crlf @ crlf"] unfolding strstr_Some by (force simp: crlf_def)
  then show ?thesis
    using print_response_result[OF assms(4,5,6,7), of get_body_at] get_request_built[OF assms(1-3)] assms(8)
    by (auto simp: http_get_def get_body_at_def Let_def split: option.splits)
qed

text \<open>
  The file server of \<open>HttpServer\<close> refuses every request of http-get: it serves version 1.1 of the protocol
  only, and the client asks for version 1.0.
\<close>

lemma server_refuses_get:
  assumes "CHR '' '' \<notin> set path" and "2 \<le> length path" and "NUL \<notin> set server" and "NUL \<notin> set path"
  shows "read_request_head (get_text server path) = Some (- 1, [])"
proof -
  let ?rest = "''Host: '' @ server @ crlf @ crlf"
  have "NUL \<notin> set (get_text server path)" using assms(3,4) by (auto simp: get_text_def crlf_def NUL_def)
  then have "cstr (get_text server path) = ''GET'' @ CHR '' '' # path @ CHR '' '' # ''HTTP/1.0'' @ crlf @ ?rest"
    by (subst cstr_no_NUL) (simp_all add: get_text_def)
  then have "strtok '' '' (cstr (get_text server path)) = (Some ''GET'', path @ CHR '' '' # ''HTTP/1.0'' @ crlf @ ?rest)"
    by (simp only:) (intro strtok_token, auto)
  moreover have "strtok '' '' (path @ CHR '' '' # ''HTTP/1.0'' @ crlf @ ?rest) = (Some path, ''HTTP/1.0'' @ crlf @ ?rest)"
    using assms(1,2) by (intro strtok_token) auto
  moreover have "strtok ('' '' @ crlf) (''HTTP/1.0'' @ CHR 0x0D # CHR 0x0A # ?rest)
      = (Some ''HTTP/1.0'', CHR 0x0A # ?rest)"
    by (intro strtok_token) (auto simp: crlf_def)
  moreover have "begins ''GET'' ''GET''" "\<not> begins ''HTTP/1.1'' ''HTTP/1.0''" by (simp_all add: begins_def)
  ultimately show ?thesis using assms(2) by (auto simp: read_request_head_def crlf_def)
qed

subsection \<open>Witnesses\<close>

definition sample_conn :: client where
  "sample_conn = \<lparr>client_in = \<lparr>rest = ''HTTP/1.0 200 OK'' @ crlf @ crlf @ ''hello'', rsched = [20]\<rparr>,
     client_out = \<lparr>sunk = [], wsched = [3]\<rparr>\<rparr>"

lemma sample_head: "head_of_response ''HTTP/1.0 200 OK''"
  by (simp add: head_of_response_def All_less_Suc begins_def crlf_def numeral_eq_Suc)

theorem http_post_exchanges_witness:
  "\<exists>c'. http_post (replicate 10000 NUL) 0 sample_conn ''host'' ''/f'' (Some \<lparr>rest = ''abc'', rsched = [2]\<rparr>) = Some (''hello'', c')
    \<and> sunk (client_out c') = post_request ''host'' ''/f'' ''abc''"
  using http_post_exchanges[of "''host''" "''/f''" "replicate 10000 NUL" "\<lparr>rest = ''abc'', rsched = [2]\<rparr>" sample_conn
      "''HTTP/1.0 200 OK''" "''hello''" 20 0] sample_head
  by (simp add: sample_conn_def NUL_def no_read_failure_def progressing_def begins_def crlf_def sys_read_def)

theorem http_get_needs_head_witness:
  "http_get (replicate 10000 NUL) (sample_conn\<lparr>client_in := \<lparr>rest = ''HTTP/1.0 200 OK'' @ crlf @ crlf @ ''hello'', rsched = [5]\<rparr>\<rparr>)
     ''host'' ''/f'' = None"
proof -
  let ?c = "sample_conn\<lparr>client_in := \<lparr>rest = ''HTTP/1.0 200 OK'' @ crlf @ crlf @ ''hello'', rsched = [5]\<rparr>\<rparr>"
  have "strstr ''HTTP/'' (crlf @ crlf) = None" by (simp add: begins_def crlf_def)
  moreover have "sys_read (client_in ?c) 9999 = (5, ''HTTP/'', \<lparr>rest = ''1.0 200 OK'' @ crlf @ crlf @ ''hello'', rsched = []\<rparr>)"
    by (simp add: sys_read_def crlf_def)
  moreover obtain k out where "sys_write (client_out ?c) (get_text ''host'' ''/f'') = (k, out)" by fastforce
  ultimately show ?thesis
    using http_get_needs_head[of "''host''" "''/f''" "replicate 10000 NUL" ?c 5 "''HTTP/''" _ k out]
    by (simp add: NUL_def no_read_failure_def crlf_def)
qed

end
