(* ===== verification/ParallelMap.thy ===== *)
theory ParallelMap
  imports Prelude
begin

section \<open>map-on-processes: a function applied to an array by a bounded number of threads\<close>

text \<open>
  \<^verbatim>\<open>inf20-1_posix_shm_sem_map-on-processes/main.c\<close>.  \<^verbatim>\<open>pmap_process\<close> starts one thread for each element; a
  semaphore that starts at the number of processors lets only that many run at a time.  The model is a step
  function for the calling thread and one for the threads it starts, with a step for every access to shared
  memory and every call that may block; \<open>None\<close> is a thread that waits, has ended, reads an argument that is not
  there or posts on a semaphore that was destroyed.  The function is a parameter.

  The property: in every interleaving at most \<open>n\<close> threads run at a time, no started thread is ever stuck, the
  program ends, and the array that is returned holds the function's value for every element.
\<close>

subsection \<open>The program\<close>

datatype main_pc = MFill nat | MAcquire nat | MSpawn nat | MDrain nat | MDestroy | MJoin nat | MReturn

datatype 'b wrapper_pc = WNone | WCall | WStore 'b | WPost | WDone

record ('a, 'b) pmap_state =
  pc :: main_pc
  free_processes :: nat
  destroyed :: bool
  arg_value :: "nat \<Rightarrow> 'a option"
  out :: "nat \<Rightarrow> 'b option"
  threads :: "nat \<Rightarrow> 'b wrapper_pc"

text \<open>\<open>n\<close> is the result of \<^verbatim>\<open>get_nprocs\<close>.\<close>

definition pmap_start :: "nat \<Rightarrow> ('a, 'b) pmap_state" where
  "pmap_start n = \<lparr>pc = MFill 0, free_processes = n, destroyed = False, arg_value = (\<lambda>_. None),
     out = (\<lambda>_. None), threads = (\<lambda>_. WNone)\<rparr>"

definition sem_wait :: "main_pc \<Rightarrow> ('a, 'b) pmap_state \<Rightarrow> ('a, 'b) pmap_state option" where
  "sem_wait next_pc s =
     (if 0 < free_processes s then Some (s\<lparr>free_processes := free_processes s - 1, pc := next_pc\<rparr>) else None)"

definition pmap_process_step :: "nat \<Rightarrow> 'a list \<Rightarrow> ('a, 'b) pmap_state \<Rightarrow> ('a, 'b) pmap_state option" where
  "pmap_process_step n inp s =
     (case pc s of
        MFill i \<Rightarrow> Some (if i < length inp then s\<lparr>arg_value := (arg_value s)(i := Some (inp ! i)), pc := MAcquire i\<rparr>
                        else s\<lparr>pc := MDrain 0\<rparr>)
      | MAcquire i \<Rightarrow> sem_wait (MSpawn i) s
      | MSpawn i \<Rightarrow> Some (s\<lparr>threads := (threads s)(i := WCall), pc := MFill (i + 1)\<rparr>)
      | MDrain i \<Rightarrow> if i < n then sem_wait (MDrain (i + 1)) s else Some (s\<lparr>pc := MDestroy\<rparr>)
      | MDestroy \<Rightarrow> Some (s\<lparr>destroyed := True, pc := MJoin 0\<rparr>)
      | MJoin i \<Rightarrow> if i < length inp
                  then (if threads s i = WDone then Some (s\<lparr>pc := MJoin (i + 1)\<rparr>) else None)
                  else Some (s\<lparr>pc := MReturn\<rparr>)
      | MReturn \<Rightarrow> None)"

definition thread_safe_func_wrapper_step :: "('a \<Rightarrow> 'b) \<Rightarrow> nat \<Rightarrow> ('a, 'b) pmap_state \<Rightarrow> ('a, 'b) pmap_state option" where
  "thread_safe_func_wrapper_step func i s =
     (case threads s i of
        WNone \<Rightarrow> None
      | WCall \<Rightarrow> map_option (\<lambda>v. s\<lparr>threads := (threads s)(i := WStore (func v))\<rparr>) (arg_value s i)
      | WStore v \<Rightarrow> Some (s\<lparr>out := (out s)(i := Some v), threads := (threads s)(i := WPost)\<rparr>)
      | WPost \<Rightarrow> if destroyed s then None
                else Some (s\<lparr>free_processes := free_processes s + 1, threads := (threads s)(i := WDone)\<rparr>)
      | WDone \<Rightarrow> None)"

inductive pmap_step :: "('a \<Rightarrow> 'b) \<Rightarrow> nat \<Rightarrow> 'a list \<Rightarrow> ('a, 'b) pmap_state \<Rightarrow> ('a, 'b) pmap_state \<Rightarrow> bool"
  for func n inp where
  caller: "pmap_process_step n inp s = Some s' \<Longrightarrow> pmap_step func n inp s s'"
| wrapper: "i < length inp \<Longrightarrow> thread_safe_func_wrapper_step func i s = Some s' \<Longrightarrow> pmap_step func n inp s s'"

inductive_cases pmap_stepE: "pmap_step func n inp s s'"

inductive pmap_reach :: "('a \<Rightarrow> 'b) \<Rightarrow> nat \<Rightarrow> 'a list \<Rightarrow> ('a, 'b) pmap_state \<Rightarrow> bool"
  for func n inp where
  start: "pmap_reach func n inp (pmap_start n)"
| step: "pmap_reach func n inp s \<Longrightarrow> pmap_step func n inp s s' \<Longrightarrow> pmap_reach func n inp s'"

subsection \<open>The invariant\<close>

text \<open>How many threads the caller has started, how many arguments it has filled in, how often it has waited.\<close>

fun spawned :: "nat \<Rightarrow> main_pc \<Rightarrow> nat" where
  "spawned len (MFill i) = i"
| "spawned len (MAcquire i) = i"
| "spawned len (MSpawn i) = i"
| "spawned len _ = len"

fun filled :: "nat \<Rightarrow> main_pc \<Rightarrow> nat" where
  "filled len (MFill i) = i"
| "filled len (MAcquire i) = i + 1"
| "filled len (MSpawn i) = i + 1"
| "filled len _ = len"

fun acquired :: "nat \<Rightarrow> nat \<Rightarrow> main_pc \<Rightarrow> nat" where
  "acquired n len (MFill i) = i"
| "acquired n len (MAcquire i) = i"
| "acquired n len (MSpawn i) = i + 1"
| "acquired n len (MDrain i) = len + i"
| "acquired n len _ = len + n"

fun pc_ok :: "nat \<Rightarrow> nat \<Rightarrow> main_pc \<Rightarrow> bool" where
  "pc_ok n len (MFill i) = (i \<le> len)"
| "pc_ok n len (MAcquire i) = (i < len)"
| "pc_ok n len (MSpawn i) = (i < len)"
| "pc_ok n len (MDrain i) = (i \<le> n)"
| "pc_ok n len (MJoin i) = (i \<le> len)"
| "pc_ok n len _ = True"

fun posted :: "'b wrapper_pc \<Rightarrow> nat" where
  "posted WDone = 1"
| "posted _ = 0"

fun thread_ok :: "'b \<Rightarrow> 'b option \<Rightarrow> 'b wrapper_pc \<Rightarrow> bool" where
  "thread_ok v r (WStore w) = (w = v)"
| "thread_ok v r WPost = (r = Some v)"
| "thread_ok v r WDone = (r = Some v)"
| "thread_ok v r _ = True"

definition pmap_inv :: "('a \<Rightarrow> 'b) \<Rightarrow> nat \<Rightarrow> 'a list \<Rightarrow> ('a, 'b) pmap_state \<Rightarrow> bool" where
  "pmap_inv func n inp s \<longleftrightarrow>
     pc_ok n (length inp) (pc s)
     \<and> (\<forall>t. threads s t = WNone \<longleftrightarrow> spawned (length inp) (pc s) \<le> t)
     \<and> (\<forall>t<filled (length inp) (pc s). arg_value s t = Some (inp ! t))
     \<and> (\<forall>t<length inp. thread_ok (func (inp ! t)) (out s t) (threads s t))
     \<and> free_processes s + acquired n (length inp) (pc s) = n + (\<Sum>t<length inp. posted (threads s t))
     \<and> (destroyed s \<longleftrightarrow> pc s = MReturn \<or> (\<exists>i. pc s = MJoin i))"

lemma pmap_inv_start: "pmap_inv func n inp (pmap_start n)"
  by (simp add: pmap_inv_def pmap_start_def)

lemma spawned_le: "pc_ok n len p \<Longrightarrow> spawned len p \<le> len \<and> spawned len p \<le> filled len p
    \<and> spawned len p \<le> acquired n len p"
  by (cases p) auto

subsection \<open>Every step keeps the invariant\<close>

lemma pmap_invD:
  assumes "pmap_inv func n inp s"
  shows "pc_ok n (length inp) (pc s)"
    and "threads s t = WNone \<longleftrightarrow> spawned (length inp) (pc s) \<le> t"
    and "t < filled (length inp) (pc s) \<Longrightarrow> arg_value s t = Some (inp ! t)"
    and "t < length inp \<Longrightarrow> thread_ok (func (inp ! t)) (out s t) (threads s t)"
    and "free_processes s + acquired n (length inp) (pc s) = n + (\<Sum>t<length inp. posted (threads s t))"
    and "destroyed s \<longleftrightarrow> pc s = MReturn \<or> (\<exists>i. pc s = MJoin i)"
  using assms unfolding pmap_inv_def by blast+

lemma sum_posted_move:
  fixes th :: "nat \<Rightarrow> 'b wrapper_pc"
  assumes "i < m"
  shows "(\<Sum>t<m. posted ((th(i := c)) t)) + posted (th i) = (\<Sum>t<m. posted (th t)) + posted c"
  using sum_move[OF assms, of "\<lambda>t. posted ((th(i := c)) t)" "\<lambda>t. posted (th t)"] by simp

lemma sem_wait_inv:
  assumes inv: "pmap_inv func n inp s" and w: "sem_wait p s = Some s'"
    and p: "pc_ok n (length inp) p" "spawned (length inp) p = spawned (length inp) (pc s)"
      "filled (length inp) p = filled (length inp) (pc s)" "acquired n (length inp) p = acquired n (length inp) (pc s) + 1"
      "\<not> destroyed s" "p \<noteq> MReturn" "\<forall>i. p \<noteq> MJoin i"
  shows "pmap_inv func n inp s'"
  using pmap_invD[OF inv] w p unfolding pmap_inv_def by (auto simp: sem_wait_def split: if_splits)

lemma caller_inv:
  assumes inv: "pmap_inv func n inp s" and st: "pmap_process_step n inp s = Some s'"
  shows "pmap_inv func n inp s'"
proof (cases "pc s")
  case (MFill i)
  then show ?thesis using pmap_invD[OF inv] st unfolding pmap_inv_def
    by (auto simp: pmap_process_step_def less_Suc_eq split: if_splits)
next
  case (MAcquire i)
  then show ?thesis using st pmap_invD(1,6)[OF inv]
    by (intro sem_wait_inv[OF inv]) (auto simp: pmap_process_step_def)
next
  case (MSpawn i)
  then have i: "i < length inp" "threads s i = WNone" "arg_value s i = Some (inp ! i)"
    using pmap_invD(1)[OF inv] pmap_invD(2,3)[OF inv, of i] by auto
  have s': "s' = s\<lparr>threads := (threads s)(i := WCall), pc := MFill (i + 1)\<rparr>"
    using st MSpawn by (simp add: pmap_process_step_def)
  have "(\<Sum>t<length inp. posted (threads s' t)) = (\<Sum>t<length inp. posted (threads s t))"
    using sum_posted_move[OF i(1), of "threads s" WCall] i(2) by (simp add: s')
  then show ?thesis using pmap_invD[OF inv] MSpawn i unfolding pmap_inv_def
    by (auto simp: s' less_Suc_eq not_less_eq_eq[symmetric] le_Suc_eq)
next
  case (MDrain i)
  show ?thesis
  proof (cases "i < n")
    case True
    then show ?thesis using st pmap_invD(1,6)[OF inv] MDrain
      by (intro sem_wait_inv[OF inv]) (auto simp: pmap_process_step_def)
  next
    case False
    then show ?thesis using pmap_invD[OF inv] st MDrain unfolding pmap_inv_def by (auto simp: pmap_process_step_def)
  qed
qed (use pmap_invD[OF inv] st in \<open>auto simp: pmap_inv_def pmap_process_step_def split: if_splits\<close>)

lemma wrapper_inv:
  assumes inv: "pmap_inv func n inp s" and st: "thread_safe_func_wrapper_step func i s = Some s'" and i: "i < length inp"
  shows "pmap_inv func n inp s'"
proof -
  have sp: "i < spawned (length inp) (pc s)" if "threads s i \<noteq> WNone" using pmap_invD(2)[OF inv, of i] that by simp
  then have arg: "arg_value s i = Some (inp ! i)" if "threads s i \<noteq> WNone"
    using that pmap_invD(3)[OF inv, of i] spawned_le[OF pmap_invD(1)[OF inv]] by force
  show ?thesis
  proof (cases "threads s i")
    case WCall
    then have "s' = s\<lparr>threads := (threads s)(i := WStore (func (inp ! i)))\<rparr>"
      using st arg by (simp add: thread_safe_func_wrapper_step_def)
    then show ?thesis using pmap_invD[OF inv] sp WCall sum_posted_move[OF i, of "threads s" "WStore (func (inp ! i))"]
      unfolding pmap_inv_def by simp
  next
    case (WStore v)
    then have "s' = s\<lparr>out := (out s)(i := Some v), threads := (threads s)(i := WPost)\<rparr>"
      using st by (simp add: thread_safe_func_wrapper_step_def)
    then show ?thesis using pmap_invD[OF inv] sp WStore pmap_invD(4)[OF inv i] sum_posted_move[OF i, of "threads s" WPost]
      unfolding pmap_inv_def by simp
  next
    case WPost
    then have "s' = s\<lparr>free_processes := free_processes s + 1, threads := (threads s)(i := WDone)\<rparr>"
      using st by (simp add: thread_safe_func_wrapper_step_def split: if_splits)
    then show ?thesis using pmap_invD[OF inv] sp WPost pmap_invD(4)[OF inv i] sum_posted_move[OF i, of "threads s" WDone]
      unfolding pmap_inv_def by simp
  qed (use st in \<open>simp_all add: thread_safe_func_wrapper_step_def\<close>)
qed

lemma pmap_reach_inv: "pmap_reach func n inp s \<Longrightarrow> pmap_inv func n inp s"
  by (induction rule: pmap_reach.induct) (auto intro: pmap_inv_start caller_inv wrapper_inv elim!: pmap_stepE)

subsection \<open>Bounded concurrency, progress and termination\<close>

fun is_running :: "'b wrapper_pc \<Rightarrow> bool" where
  "is_running WNone = False"
| "is_running WDone = False"
| "is_running _ = True"

lemma posted_le: "posted p \<le> 1"
  by (cases p) auto

lemma sum_posted_full:
  assumes "m \<le> (\<Sum>t<m. posted (th t))" "t < m"
  shows "th t = WDone"
proof (rule ccontr)
  assume "th t \<noteq> WDone"
  then have "posted (th t) = 0" by (cases "th t") auto
  then have "(\<Sum>u<m. posted (th u)) = (\<Sum>u\<in>{..<m} - {t}. posted (th u))"
    using assms(2) by (simp add: sum.remove)
  also have "\<dots> \<le> card ({..<m} - {t}) * 1" using posted_le by (metis of_nat_id sum_bounded_above)
  also have "\<dots> < m" using assms(2) by simp
  finally show False using assms(1) by simp
qed

lemma running_threads_bound:
  assumes inv: "pmap_inv func n inp s"
  shows "card {t. t < length inp \<and> is_running (threads s t)} \<le> n"
proof -
  let ?m = "length inp" and ?k = "spawned (length inp) (pc s)"
  let ?R = "{t. t < ?m \<and> is_running (threads s t)}"
  note k = spawned_le[OF pmap_invD(1)[OF inv]]
  have "t < ?k" if "is_running (threads s t)" for t using pmap_invD(2)[OF inv, of t] that by (cases "threads s t") auto
  then have sub: "?R \<subseteq> {..<?k}" by blast
  have "posted (threads s t) = (if t \<in> {..<?k} - ?R then 1 else 0)" if "t < ?m" for t
    using pmap_invD(2)[OF inv, of t] that by (cases "threads s t") auto
  then have "(\<Sum>t<?m. posted (threads s t)) = (\<Sum>t<?m. if t \<in> {..<?k} - ?R then 1 else 0)" by (intro sum.cong) auto
  also have "\<dots> = card ({..<?m} \<inter> ({..<?k} - ?R))" 
    by (subst sum.If_cases) (auto intro: arg_cong[where f = card])
  also have "{..<?m} \<inter> ({..<?k} - ?R) = {..<?k} - ?R" using k by auto
  finally have "(\<Sum>t<?m. posted (threads s t)) = ?k - card ?R" using sub by (simp add: card_Diff_subset finite_subset[OF sub])
  moreover have "card ?R \<le> ?k" using card_mono[OF _ sub] by simp
  ultimately show ?thesis using pmap_invD(5)[OF inv] k by linarith
qed

lemma running_thread_steps:
  assumes inv: "pmap_inv func n inp s" and i: "i < length inp" "is_running (threads s i)"
  shows "thread_safe_func_wrapper_step func i s \<noteq> None"
proof -
  have "i < spawned (length inp) (pc s)" using pmap_invD(2)[OF inv, of i] i(2) by (cases "threads s i") auto
  then have "arg_value s i = Some (inp ! i)"
    using pmap_invD(3)[OF inv, of i] spawned_le[OF pmap_invD(1)[OF inv]] by simp
  moreover have "\<not> destroyed s"
  proof
    assume "destroyed s"
    then have "length inp \<le> (\<Sum>t<length inp. posted (threads s t))" using pmap_invD(5,6)[OF inv] by auto
    then show False using sum_posted_full[OF _ i(1), of "threads s"] i(2) by simp
  qed
  ultimately show ?thesis using i(2) by (cases "threads s i") (auto simp: thread_safe_func_wrapper_step_def)
qed

lemma unposted_thread:
  assumes inv: "pmap_inv func n inp s" and less: "(\<Sum>t<length inp. posted (threads s t)) < spawned (length inp) (pc s)"
  obtains t where "t < length inp" "is_running (threads s t)"
proof -
  let ?k = "spawned (length inp) (pc s)"
  have k: "?k \<le> length inp" using spawned_le[OF pmap_invD(1)[OF inv]] by simp
  have "\<exists>t<?k. threads s t \<noteq> WDone"
  proof (rule ccontr)
    assume "\<not> ?thesis"
    then have "(\<Sum>t<?k. posted (threads s t)) = ?k" by simp
    moreover have "(\<Sum>t<?k. posted (threads s t)) \<le> (\<Sum>t<length inp. posted (threads s t))"
      using k by (intro sum_mono2) auto
    ultimately show False using less by simp
  qed
  then obtain t where "t < ?k" "threads s t \<noteq> WDone" by blast
  then have "is_running (threads s t)" using pmap_invD(2)[OF inv, of t] by (cases "threads s t") auto
  then show thesis using that[of t] \<open>t < ?k\<close> k by simp
qed

lemma pmap_not_stuck:
  assumes inv: "pmap_inv func n inp s" and n: "1 \<le> n" and pc: "pc s \<noteq> MReturn"
  shows "\<exists>s'. pmap_step func n inp s s'"
proof (cases "pmap_process_step n inp s")
  case None
  note eq = pmap_invD(5)[OF inv]
  have "(\<Sum>t<length inp. posted (threads s t)) < spawned (length inp) (pc s)"
  proof (cases "pc s")
    case (MJoin i)
    then have "i < length inp" "threads s i \<noteq> WDone" using None by (auto simp: pmap_process_step_def split: if_splits)
    then show ?thesis using sum_posted_full[of "length inp" "threads s" i] MJoin by force
  qed (use None pc n eq in \<open>auto simp: pmap_process_step_def sem_wait_def split: if_splits\<close>)
  then obtain t where t: "t < length inp" "is_running (threads s t)" using unposted_thread[OF inv] by blast
  then obtain s' where "thread_safe_func_wrapper_step func t s = Some s'" using running_thread_steps[OF inv t] by auto
  then show ?thesis using pmap_step.wrapper[OF t(1)] by blast
qed (auto intro: pmap_step.caller)

fun main_rank :: "nat \<Rightarrow> nat \<Rightarrow> main_pc \<Rightarrow> nat" where
  "main_rank n len (MFill i) = 3 * (len - i) + n + len + 4"
| "main_rank n len (MAcquire i) = 3 * (len - i) + n + len + 3"
| "main_rank n len (MSpawn i) = 3 * (len - i) + n + len + 2"
| "main_rank n len (MDrain i) = (n - i) + len + 3"
| "main_rank n len MDestroy = len + 2"
| "main_rank n len (MJoin i) = (len - i) + 1"
| "main_rank n len MReturn = 0"

fun wrapper_rank :: "'b wrapper_pc \<Rightarrow> nat" where
  "wrapper_rank WNone = 4"
| "wrapper_rank WCall = 3"
| "wrapper_rank (WStore _) = 2"
| "wrapper_rank WPost = 1"
| "wrapper_rank WDone = 0"

definition pmap_rank :: "nat \<Rightarrow> 'a list \<Rightarrow> ('a, 'b) pmap_state \<Rightarrow> nat" where
  "pmap_rank n inp s = main_rank n (length inp) (pc s) + (\<Sum>t<length inp. wrapper_rank (threads s t))"

lemma sum_rank_move:
  fixes i m :: nat
  assumes "i < m" "wrapper_rank c < wrapper_rank (th i)"
  shows "(\<Sum>t<m. wrapper_rank ((th(i := c)) t)) < (\<Sum>t<m. wrapper_rank (th t))"
  using sum_move[OF assms(1), of "\<lambda>t. wrapper_rank ((th(i := c)) t)" "\<lambda>t. wrapper_rank (th t)"] assms(2) by simp

lemma pmap_step_rank:
  assumes inv: "pmap_inv func n inp s" and st: "pmap_step func n inp s s'"
  shows "pmap_rank n inp s' < pmap_rank n inp s"
  using st
proof (cases rule: pmap_step.cases)
  case caller
  note ok = pmap_invD(1)[OF inv]
  show ?thesis
  proof (cases "pc s")
    case (MSpawn i)
    then have i: "i < length inp" "threads s i = WNone" using ok pmap_invD(2)[OF inv, of i] by auto
    have "s' = s\<lparr>threads := (threads s)(i := WCall), pc := MFill (i + 1)\<rparr>"
      using caller MSpawn by (simp add: pmap_process_step_def)
    then show ?thesis using sum_rank_move[OF i(1), of WCall "threads s"] i MSpawn by (simp add: pmap_rank_def)
  qed (use caller ok in \<open>auto simp: pmap_rank_def pmap_process_step_def sem_wait_def split: if_splits\<close>)
next
  case (wrapper i)
  then show ?thesis using sum_rank_move[OF wrapper(1), of _ "threads s"]
    by (auto simp: pmap_rank_def thread_safe_func_wrapper_step_def split: wrapper_pc.splits if_splits)
qed

subsection \<open>Properties\<close>

text \<open>
  C24: In every interleaving at most \<open>n\<close> of the started threads are between their start and their end, and each of
  them can always go on: its argument is there and the semaphore has not been destroyed.  With at least one
  processor the call returns: until then some step is possible, and every step decreases a rank.  When it
  returns, all threads have ended and the array holds the function's value for every element.
\<close>

theorem pmap_process_correct:
  assumes "pmap_reach func n inp s"
  shows "card {t. t < length inp \<and> is_running (threads s t)} \<le> n
    \<and> (\<forall>t<length inp. is_running (threads s t) \<longrightarrow> thread_safe_func_wrapper_step func t s \<noteq> None)
    \<and> (1 \<le> n \<and> pc s \<noteq> MReturn \<longrightarrow> (\<exists>s'. pmap_step func n inp s s'))
    \<and> (\<forall>s'. pmap_step func n inp s s' \<longrightarrow> pmap_rank n inp s' < pmap_rank n inp s)
    \<and> (pc s = MReturn \<longrightarrow> (\<forall>t<length inp. threads s t = WDone \<and> out s t = Some (func (inp ! t))))"
proof -
  have inv: "pmap_inv func n inp s" using pmap_reach_inv[OF assms] .
  have "threads s t = WDone \<and> out s t = Some (func (inp ! t))" if "pc s = MReturn" "t < length inp" for t
  proof -
    have "length inp \<le> (\<Sum>t<length inp. posted (threads s t))" using pmap_invD(5)[OF inv] that(1) by simp
    then have "threads s t = WDone" using sum_posted_full that(2) by blast
    then show ?thesis using pmap_invD(4)[OF inv that(2)] by simp
  qed
  then show ?thesis
    using running_threads_bound[OF inv] running_thread_steps[OF inv] pmap_not_stuck[OF inv] pmap_step_rank[OF inv] by blast
qed

theorem pmap_process_correct_witness:
  "\<exists>s'. pmap_step (\<lambda>x. x * x) 2 [1, 2, 3 :: int] (pmap_start 2) s'"
  using pmap_process_correct[OF pmap_reach.start[of "\<lambda>x. x * x" 2 "[1, 2, 3 :: int]"]] by (simp add: pmap_start_def)

end
