(* ===== verification/EpollRead.thy ===== *)
theory EpollRead
  imports PosixIO
begin

section \<open>epoll-read-fds-vector: counting the bytes of several descriptors\<close>

text \<open>
  \<^verbatim>\<open>inf17-0-highload_epoll-read-fds-vector/main.c\<close>.  \<^verbatim>\<open>read_data_and_count\<close> watches descriptors with one epoll
  instance and reads from those that are reported until all have ended.  What the calls of \<^verbatim>\<open>epoll_wait\<close> report
  is a list of rounds, each the list of the reported indices; a round is possible when it reports watched
  descriptors, each once, and no more than were asked for; an interrupted call is an empty round.  \<^verbatim>\<open>epoll_ctl\<close>
  refuses regular files, which the program does not notice; \<open>pollable\<close> says which descriptors it accepts.

  The property: the number returned is the number of bytes of all descriptors, in every order of the
  events, and it is returned after a bounded number of rounds; a single regular file keeps it waiting.
\<close>

subsection \<open>The program\<close>

record epoll_state =
  fds :: "nat \<Rightarrow> char source"
  nonblocking :: "nat set"
  watched :: "nat set"
  files_complete :: nat
  all_bytes :: int

definition set_non_blocking :: "nat \<Rightarrow> epoll_state \<Rightarrow> epoll_state" where
  "set_non_blocking fd s = s\<lparr>nonblocking := insert fd (nonblocking s)\<rparr>"

definition add_epoll :: "(nat \<Rightarrow> bool) \<Rightarrow> nat \<Rightarrow> epoll_state \<Rightarrow> epoll_state" where
  "add_epoll pollable fd s =
     (let s = set_non_blocking fd s in
      if pollable fd then s\<lparr>watched := insert fd (watched s)\<rparr> else s)"

text \<open>The body of the inner loop.  A descriptor that is closed is no longer watched.\<close>

definition handle_event :: "nat \<Rightarrow> epoll_state \<Rightarrow> epoll_state" where
  "handle_event fd s =
     (case sys_read (fds s fd) 4096 of (n_read, buffer, src) \<Rightarrow>
        let s = s\<lparr>fds := (fds s)(fd := src)\<rparr> in
        if n_read \<le> 0 then s\<lparr>watched := watched s - {fd}, files_complete := files_complete s + 1\<rparr>
        else s\<lparr>all_bytes := to_i32 (all_bytes s + n_read)\<rparr>)"

text \<open>\<open>None\<close>: the rounds are used up and the program still waits.\<close>

fun wait_loop :: "nat \<Rightarrow> nat list list \<Rightarrow> epoll_state \<Rightarrow> epoll_state option" where
  "wait_loop N rounds s =
     (if files_complete s < N
      then (case rounds of
              [] \<Rightarrow> None
            | events # rounds \<Rightarrow> wait_loop N rounds (fold handle_event events s))
      else Some s)"

declare wait_loop.simps [simp del]

definition epoll_start :: "(nat \<Rightarrow> bool) \<Rightarrow> nat \<Rightarrow> (nat \<Rightarrow> char source) \<Rightarrow> epoll_state" where
  "epoll_start pollable N inp =
     fold (add_epoll pollable) [0..<N] \<lparr>fds = inp, nonblocking = {}, watched = {}, files_complete = 0, all_bytes = 0\<rparr>"

definition read_data_and_count ::
  "(nat \<Rightarrow> bool) \<Rightarrow> nat list list \<Rightarrow> nat \<Rightarrow> (nat \<Rightarrow> char source) \<Rightarrow> int option" where
  "read_data_and_count pollable rounds N inp =
     map_option (\<lambda>s. to_size (all_bytes s)) (wait_loop N rounds (epoll_start pollable N inp))"

text \<open>The rounds that the system can produce.\<close>

fun possible_rounds :: "nat \<Rightarrow> nat list list \<Rightarrow> epoll_state \<Rightarrow> bool" where
  "possible_rounds N [] s = True"
| "possible_rounds N (events # rounds) s =
     (distinct events \<and> set events \<subseteq> watched s \<and> length events \<le> N - files_complete s
      \<and> possible_rounds N rounds (fold handle_event events s))"

subsection \<open>The invariant\<close>

definition bytes_left :: "nat \<Rightarrow> epoll_state \<Rightarrow> nat" where
  "bytes_left N s = (\<Sum>i<N. length (rest (fds s i)))"

text \<open>Of \<open>m\<close> accepted descriptors, those that are not watched any more are complete.\<close>

definition watch_inv :: "nat \<Rightarrow> epoll_state \<Rightarrow> bool" where
  "watch_inv m s \<longleftrightarrow> finite (watched s) \<and> card (watched s) + files_complete s = m"

text \<open>
  \<open>bytes\<close> bytes were there at the start and no read fails; a descriptor that is not watched any more has been
  read to its end.
\<close>

definition count_inv :: "nat \<Rightarrow> nat \<Rightarrow> epoll_state \<Rightarrow> bool" where
  "count_inv N bytes s \<longleftrightarrow>
     watched s \<subseteq> {..<N} \<and> (\<forall>i<N. no_read_failure (fds s i) \<and> (i \<notin> watched s \<longrightarrow> rest (fds s i) = []))
     \<and> 0 \<le> all_bytes s \<and> all_bytes s + int (bytes_left N s) = int bytes"

lemma bytes_left_update [simp]:
  "bytes_left N (s\<lparr>all_bytes := b\<rparr>) = bytes_left N s"
  "bytes_left N (s\<lparr>watched := w, files_complete := c\<rparr>) = bytes_left N s"
  by (simp_all add: bytes_left_def)

lemma handle_event_watch:
  assumes "watch_inv m s" and "fd \<in> watched s"
  shows "watch_inv m (handle_event fd s) \<and> watched s - {fd} \<subseteq> watched (handle_event fd s)"
proof -
  have "0 < card (watched s)" using assms card_gt_0_iff by (auto simp: watch_inv_def)
  then show ?thesis using assms by (auto simp: watch_inv_def handle_event_def Let_def split: prod.splits)
qed

lemma handle_event_count:
  assumes inv: "count_inv N bytes s" and fd: "fd \<in> watched s" and small: "bytes < 2 ^ 31" and fin: "finite (watched s)"
  shows "count_inv N bytes (handle_event fd s)
    \<and> bytes_left N (handle_event fd s) + card (watched (handle_event fd s)) < bytes_left N s + card (watched s)"
proof -
  obtain n buf src where rd: "sys_read (fds s fd) 4096 = (n, buf, src)" by (metis prod_cases3)
  have N: "fd < N" using inv fd by (auto simp: count_inv_def)
  then have ok: "n \<noteq> - 1" "no_read_failure src"
    using sys_read_no_failure[OF rd] inv by (auto simp: count_inv_def)
  then have n: "n = int (length buf)" "rest (fds s fd) = buf @ rest src"
    using source.rd_range[OF rd] source.rd_left[OF rd] by auto
  have left: "bytes_left N (s\<lparr>fds := (fds s)(fd := src)\<rparr>) + length buf = bytes_left N s"
    using sum_move[OF N, of "\<lambda>i. length (rest (((fds s)(fd := src)) i))" "\<lambda>i. length (rest (fds s i))"] n(2)
    by (simp add: bytes_left_def)
  show ?thesis
  proof (cases "n \<le> 0")
    case True
    then have "rest (fds s fd) = []" "buf = []" using source.rd_eof[of "fds s fd" 4096 buf src] rd n by auto
    moreover have "0 < card (watched s)" using fd fin card_gt_0_iff by auto
    ultimately show ?thesis using inv True rd ok left n fd fin
      by (auto simp: handle_event_def count_inv_def)
  next
    case False
    have "all_bytes s + n \<le> int bytes" "0 \<le> all_bytes s + n"
      using inv left n False by (auto simp: count_inv_def)
    then have "to_i32 (all_bytes s + n) = all_bytes s + n" using small by (simp add: is_i32_def)
    then have eq: "handle_event fd s = s\<lparr>fds := (fds s)(fd := src), all_bytes := all_bytes s + n\<rparr>"
      using False rd by (simp add: handle_event_def)
    have less: "bytes_left N (s\<lparr>fds := (fds s)(fd := src)\<rparr>) < bytes_left N s" using left False n(1) by linarith
    have "count_inv N bytes (handle_event fd s)" using inv False ok left n fd by (auto simp: count_inv_def eq)
    moreover have "bytes_left N (handle_event fd s) < bytes_left N s" unfolding eq bytes_left_update by (rule less)
    ultimately show ?thesis by (simp add: eq)
  qed
qed

lemma fold_events:
  assumes "watch_inv m s" "distinct events" "set events \<subseteq> watched s"
  shows "watch_inv m (fold handle_event events s)
    \<and> (count_inv N bytes s \<and> bytes < 2 ^ 31 \<longrightarrow> count_inv N bytes (fold handle_event events s)
        \<and> bytes_left N (fold handle_event events s) + card (watched (fold handle_event events s)) + length events
          \<le> bytes_left N s + card (watched s))"
  using assms
proof (induction events arbitrary: s)
  case (Cons fd events)
  have w: "watch_inv m (handle_event fd s)" "watched s - {fd} \<subseteq> watched (handle_event fd s)"
    using handle_event_watch[of m s fd] Cons.prems by auto
  then have "set events \<subseteq> watched (handle_event fd s)" "distinct events" using Cons.prems by auto
  note IH = Cons.IH[OF w(1) this(2,1)]
  show ?case using IH handle_event_count[of N bytes s fd] Cons.prems by (auto simp: watch_inv_def)
qed simp

lemma wait_loop_counts:
  assumes "possible_rounds N rounds s" "watch_inv m s"
  shows "(m < N \<longrightarrow> wait_loop N rounds s = None)
    \<and> (m = N \<and> count_inv N bytes s \<and> bytes < 2 ^ 31 \<longrightarrow>
        (case wait_loop N rounds s of
           None \<Rightarrow> length (filter (\<lambda>events. events \<noteq> []) rounds) < bytes_left N s + card (watched s)
         | Some s' \<Rightarrow> all_bytes s' = int bytes))"
  using assms
proof (induction rounds arbitrary: s)
  case Nil
  have "0 < card (watched s)" if "m = N" "files_complete s < N" using Nil that by (auto simp: watch_inv_def)
  moreover have "all_bytes s = int bytes" if "m = N" "\<not> files_complete s < N" "count_inv N bytes s"
    using Nil that by (auto simp: watch_inv_def count_inv_def bytes_left_def)
  ultimately show ?case using Nil by (auto simp: wait_loop.simps watch_inv_def)
next
  case (Cons events rounds)
  let ?s = "fold handle_event events s"
  show ?case
  proof (cases "files_complete s < N")
    case True
    have ev: "distinct events" "set events \<subseteq> watched s" "possible_rounds N rounds ?s" using Cons.prems by auto
    note f = fold_events[OF Cons.prems(2) ev(1,2), of N bytes]
    note IH = Cons.IH[OF ev(3)]
    have "wait_loop N (events # rounds) s = wait_loop N rounds ?s" using True by (simp add: wait_loop.simps[of N "events # rounds"])
    moreover have "events \<noteq> [] \<Longrightarrow> 1 \<le> length events" by (cases events) auto
    ultimately show ?thesis using IH f by (auto split: option.splits)
  next
    case False
    have "wait_loop N (events # rounds) s = Some s" using False by (simp add: wait_loop.simps)
    moreover have "\<not> m < N" using Cons.prems(2) False by (auto simp: watch_inv_def)
    moreover have "all_bytes s = int bytes" if "m = N" "count_inv N bytes s"
      using Cons.prems(2) that False by (auto simp: watch_inv_def count_inv_def bytes_left_def)
    ultimately show ?thesis by simp
  qed
qed

lemma epoll_start_fields:
  "watched (epoll_start pollable N inp) = {i. i < N \<and> pollable i} \<and> fds (epoll_start pollable N inp) = inp
   \<and> files_complete (epoll_start pollable N inp) = 0 \<and> all_bytes (epoll_start pollable N inp) = 0"
proof (induction N)
  case (Suc N)
  have "epoll_start pollable (Suc N) inp = add_epoll pollable N (epoll_start pollable N inp)"
    by (simp add: epoll_start_def)
  then show ?case using Suc by (auto simp: add_epoll_def set_non_blocking_def Let_def less_Suc_eq)
qed (simp add: epoll_start_def)

subsection \<open>Properties\<close>

text \<open>
  If epoll accepts all descriptors, no read fails and they hold less than 2 GB together, the function returns the number of
  their bytes, whatever the order and grouping of the events; it has returned after as many rounds with an event as
  there are bytes and descriptors.  If epoll refuses one of them, it waits for ever.
\<close>

lemma read_data_and_count_correct:
  assumes "possible_rounds N rounds (epoll_start pollable N inp)" and "\<forall>i<N. no_read_failure (inp i)"
    and "(\<Sum>i<N. length (rest (inp i))) < 2 ^ 31"
  shows "((\<forall>i<N. pollable i) \<longrightarrow>
      (case read_data_and_count pollable rounds N inp of
         None \<Rightarrow> length (filter (\<lambda>events. events \<noteq> []) rounds) < (\<Sum>i<N. length (rest (inp i))) + N
       | Some bytes \<Rightarrow> bytes = int (\<Sum>i<N. length (rest (inp i)))))
    \<and> ((\<exists>i<N. \<not> pollable i) \<longrightarrow> read_data_and_count pollable rounds N inp = None)"
proof -
  let ?s = "epoll_start pollable N inp" and ?b = "\<Sum>i<N. length (rest (inp i))"
  note s = epoll_start_fields[of pollable N inp]
  have w: "watch_inv (card {i. i < N \<and> pollable i}) ?s" using s by (simp add: watch_inv_def)
  note loop = wait_loop_counts[OF assms(1) w, of ?b]
  have "case read_data_and_count pollable rounds N inp of
         None \<Rightarrow> length (filter (\<lambda>events. events \<noteq> []) rounds) < ?b + N
       | Some bytes \<Rightarrow> bytes = int ?b" if all: "\<forall>i<N. pollable i"
  proof -
    have "{i. i < N \<and> pollable i} = {..<N}" using all by auto
    moreover have bl: "bytes_left N ?s = ?b" using s by (simp add: bytes_left_def)
    moreover have "count_inv N ?b ?s" using s all assms(2) bl by (auto simp: count_inv_def)
    ultimately have "case wait_loop N rounds ?s of
           None \<Rightarrow> length (filter (\<lambda>events. events \<noteq> []) rounds) < ?b + N
         | Some s' \<Rightarrow> all_bytes s' = int ?b" using loop assms(3) s by (cases "wait_loop N rounds ?s") simp_all
    moreover have "int ?b < 2 ^ 64" using assms(3) of_nat_less_iff[of ?b "2 ^ 31", where 'a = int] by simp
    then have "to_size (int ?b) = int ?b" by (intro to_size_id) (simp_all del: of_nat_sum)
    ultimately show ?thesis by (auto simp: read_data_and_count_def simp del: of_nat_sum split: option.splits)
  qed
  moreover have "read_data_and_count pollable rounds N inp = None" if "i < N" "\<not> pollable i" for i
  proof -
    have "{i. i < N \<and> pollable i} \<subset> {..<N}" using that by auto
    then have "card {i. i < N \<and> pollable i} < N" using psubset_card_mono[of "{..<N}"] by simp
    then show ?thesis using loop by (simp add: read_data_and_count_def)
  qed
  ultimately show ?thesis by blast
qed

definition sample_fds :: "nat \<Rightarrow> char source" where
  "sample_fds i = \<lparr>rest = (if i = 0 then ''ab'' else []), rsched = [1, 1]\<rparr>"

theorem read_data_and_count_correct_witness:
  "read_data_and_count (\<lambda>_. True) [[1], [0], [], [0], [0]] 2 sample_fds = Some 2
   \<and> possible_rounds 2 [[1], [0], [], [0], [0]] (epoll_start (\<lambda>_. True) 2 sample_fds)"
proof -
  let ?s = "epoll_start (\<lambda>_. True) 2 sample_fds"
  have s: "?s = \<lparr>fds = sample_fds, nonblocking = {0, 1}, watched = {0, 1}, files_complete = 0, all_bytes = 0\<rparr>"
    by (auto simp: epoll_start_def add_epoll_def set_non_blocking_def numeral_eq_Suc)
  have p: "possible_rounds 2 [[1], [0], [], [0], [0]] ?s"
    by (simp add: s handle_event_def sys_read_def sample_fds_def to_i32_def)
  have "(\<Sum>i<2. length (rest (sample_fds i))) = 2" by (simp add: sample_fds_def numeral_eq_Suc)
  then show ?thesis
    using read_data_and_count_correct[OF p] p by (auto simp: no_read_failure_def sample_fds_def split: option.splits)
qed

end
