(* ===== verification/ClassLoader.thy ===== *)
theory ClassLoader
  imports PrintList
begin

section \<open>cpp-class-loader: loading classes from shared libraries\<close>

text \<open>
  \<^verbatim>\<open>inf21-2_posix_dl_cpp-class-loader/main.cpp\<close>.  \<^verbatim>\<open>loadClass\<close> finds the library of a class by its qualified name and
  in it the constructor, whose symbol it computes.  The environment variable, \<^verbatim>\<open>dlopen\<close> (which gives a
  library or an error number), \<^verbatim>\<open>dlsym\<close> and the constructors are parameters.  \<open>None\<close> is a use of the null pointer.

  The property: the computed symbol is the mangled name of the constructor, from which the
  components of the name can be read back, the file is the one the name stands for, and each failure has its
  error; the error of a failed call stays when a later call succeeds.
\<close>

subsection \<open>The program\<close>

datatype ClassLoaderError = NoError | FileNotFound | LibraryLoadError | NoClassInLibrary

record 'p ClassImpl =
  constructor_ptr :: "'p option"

record ClassLoaderImpl =
  loader_error :: ClassLoaderError

definition new_AbstractClass :: "'p ClassImpl" where
  "new_AbstractClass = \<lparr>constructor_ptr = None\<rparr>"

definition new_ClassLoader :: ClassLoaderImpl where
  "new_ClassLoader = \<lparr>loader_error = NoError\<rparr>"

definition lastError :: "ClassLoaderImpl \<Rightarrow> ClassLoaderError" where
  "lastError loader = loader_error loader"

text \<open>The allocated block has arbitrary contents \<open>raw\<close>; running a constructor on it gives the object.\<close>

definition newInstanceWithSize :: "('p \<Rightarrow> 'b list \<Rightarrow> 'b list) \<Rightarrow> (nat \<Rightarrow> 'b list) \<Rightarrow> 'p ClassImpl \<Rightarrow> nat \<Rightarrow> 'b list option" where
  "newInstanceWithSize call raw c sizeofClass =
     map_option (\<lambda>constructor. call constructor (raw sizeofClass)) (constructor_ptr c)"

text \<open>
  The loop over the characters of the name, on what is left of it.  The inner loop stops at a colon, which the
  increment of the outer loop then passes.
\<close>

function mangle_loop :: "char list \<Rightarrow> char list \<Rightarrow> char list" where
  "mangle_loop [] name = name"
| "mangle_loop (c # cs) name =
     (if c \<noteq> CHR '':'' then
        let w = takeWhile (\<lambda>d. d \<noteq> CHR '':'') (c # cs) in
        mangle_loop (drop 1 (dropWhile (\<lambda>d. d \<noteq> CHR '':'') (c # cs))) (name @ decimal (int (length w)) @ w)
      else mangle_loop cs name)"
  by pat_completeness auto
termination
  by (relation "measure (\<lambda>(cs, name). length cs)")
    (auto simp: less_Suc_eq_le intro: le_trans[OF diff_le_self length_dropWhile_le])

definition getConstructorMangledName :: "char list \<Rightarrow> char list" where
  "getConstructorMangledName className = mangle_loop className ''_ZN'' @ ''C1Ev''"

text \<open>\<^verbatim>\<open>std::regex_replace(name, std::regex("::"), "/")\<close>.\<close>

fun replace_colons :: "char list \<Rightarrow> char list" where
  "replace_colons (c # d # cs) =
     (if c = CHR '':'' \<and> d = CHR '':'' then CHR ''/'' # replace_colons cs else c # replace_colons (d # cs))"
| "replace_colons cs = cs"

definition ENOENT :: int where
  "ENOENT = 2"

definition loadClass ::
  "char list option \<Rightarrow> (char list \<Rightarrow> int + 'lib) \<Rightarrow> ('lib \<Rightarrow> char list \<Rightarrow> 'p option) \<Rightarrow> ClassLoaderImpl \<Rightarrow> char list
     \<Rightarrow> ('p ClassImpl option \<times> ClassLoaderImpl) option" where
  "loadClass CLASSPATH dlopen dlsym loader fullyQualifiedName =
     (case CLASSPATH of
        None \<Rightarrow> None
      | Some classpath \<Rightarrow>
          let filepath = classpath @ ''/'' @ replace_colons fullyQualifiedName @ ''.so'';
              abstractClass = new_AbstractClass in
          (case dlopen filepath of
             Inl errno \<Rightarrow>
               Some (None, loader\<lparr>loader_error := (if errno = ENOENT then FileNotFound else LibraryLoadError)\<rparr>)
           | Inr lib \<Rightarrow>
               (case dlsym lib (getConstructorMangledName fullyQualifiedName) of
                  None \<Rightarrow> Some (None, loader\<lparr>loader_error := NoClassInLibrary\<rparr>)
                | Some constructor_sym \<Rightarrow> Some (Some (abstractClass\<lparr>constructor_ptr := Some constructor_sym\<rparr>), loader))))"

subsection \<open>Qualified names\<close>

text \<open>The name with the given components, the mangled name of its constructor, and reading it back.\<close>

fun join_with :: "char list \<Rightarrow> char list list \<Rightarrow> char list" where
  "join_with sep [] = []"
| "join_with sep [w] = w"
| "join_with sep (w # v # ws) = w @ sep @ join_with sep (v # ws)"

definition source_name :: "char list \<Rightarrow> char list" where
  "source_name w = decimal (int (length w)) @ w"

definition constructor_symbol :: "char list list \<Rightarrow> char list" where
  "constructor_symbol ws = ''_ZN'' @ concat (map source_name ws) @ ''C1Ev''"

lemma shorter_rest: "0 < k \<Longrightarrow> k \<le> length (dropWhile P s) \<Longrightarrow> length (dropWhile P s) - k < length s"
  using length_dropWhile_le[of P s] by linarith

function demangle_names :: "char list \<Rightarrow> char list list option" where
  "demangle_names s =
     (if s = ''C1Ev'' then Some []
      else let d = takeWhile is_digit s; r = dropWhile is_digit s in
        if d = [] \<or> dec_val d = 0 \<or> length r < dec_val d then None
        else map_option (Cons (take (dec_val d) r)) (demangle_names (drop (dec_val d) r)))"
  by pat_completeness auto
termination
  by (relation "measure length") (auto intro: shorter_rest)

declare demangle_names.simps [simp del]

definition demangle :: "char list \<Rightarrow> char list list option" where
  "demangle s = (if take 3 s = ''_ZN'' then demangle_names (drop 3 s) else None)"

definition is_identifier :: "char list \<Rightarrow> bool" where
  "is_identifier w \<longleftrightarrow> w \<noteq> [] \<and> CHR '':'' \<notin> set w \<and> \<not> is_digit (hd w)"

subsection \<open>The loop computes the mangled name\<close>

lemma mangle_component:
  assumes "is_identifier w" "ws = [] \<longrightarrow> t = []" "ws \<noteq> [] \<longrightarrow> t = ''::'' @ join_with ''::'' ws"
  shows "mangle_loop (w @ t) name = mangle_loop (join_with ''::'' ws) (name @ source_name w)"
proof -
  obtain c cs where w: "w = c # cs" "c \<noteq> CHR '':''" using assms(1) by (cases w) (auto simp: is_identifier_def)
  have colon: "\<forall>d\<in>set w. d \<noteq> CHR '':''" using assms(1) by (auto simp: is_identifier_def)
  have t: "t = [] \<or> hd t = CHR '':''" using assms(2,3) by auto
  have take: "takeWhile (\<lambda>d. d \<noteq> CHR '':'') (w @ t) = w" using colon t by (cases t) (auto simp: takeWhile_append2)
  have drop: "dropWhile (\<lambda>d. d \<noteq> CHR '':'') (w @ t) = t" using colon t by (cases t) (auto simp: dropWhile_append2)
  have step: "mangle_loop (w @ t) name = mangle_loop (drop 1 t) (name @ source_name w)"
    using w take drop by (simp add: source_name_def Let_def)
  show ?thesis
  proof (cases "ws = []")
    case False
    then have "drop 1 t = CHR '':'' # join_with ''::'' ws" using assms(3) by simp
    then show ?thesis using step by simp
  qed (use step assms(2) in simp)
qed

lemma mangle_loop_names:
  "\<forall>w\<in>set ws. is_identifier w \<Longrightarrow> mangle_loop (join_with ''::'' ws) name = name @ concat (map source_name ws)"
proof (induction ws arbitrary: name)
  case (Cons w ws)
  have "mangle_loop (join_with ''::'' (w # ws)) name = mangle_loop (join_with ''::'' ws) (name @ source_name w)"
  proof (cases ws)
    case Nil
    then show ?thesis using mangle_component[of w "[]" "[]" name] Cons.prems by simp
  next
    case (Cons v vs)
    then show ?thesis
      using mangle_component[of w ws "''::'' @ join_with ''::'' ws" name] Cons.prems by simp
  qed
  then show ?case using Cons by simp
qed simp

lemma demangle_component:
  assumes "is_identifier w"
  shows "demangle_names (source_name w @ s) = map_option (Cons w) (demangle_names s)"
proof -
  define d where "d = dec_digits (length w)"
  have d: "source_name w = d @ w" "\<forall>c\<in>set d. is_digit c" "d \<noteq> []" "dec_val d = length w"
    using dec_digits_are_digits dec_digits_nonempty dec_val_digits
    by (simp_all add: source_name_def decimal_def d_def)
  obtain c cs where w: "w = c # cs" "\<not> is_digit c" using assms by (cases w) (auto simp: is_identifier_def)
  have "takeWhile is_digit (d @ w @ s) = d" "dropWhile is_digit (d @ w @ s) = w @ s"
    using d(2) w by (simp_all add: takeWhile_append2 dropWhile_append2)
  moreover have "is_digit (hd (d @ w @ s))" using d(2,3) by (cases d) auto
  then have "d @ w @ s \<noteq> ''C1Ev''" by (auto simp: is_digit_def)
  ultimately show ?thesis using d w(1) by (subst demangle_names.simps) simp
qed

lemma demangle_symbol: "\<forall>w\<in>set ws. is_identifier w \<Longrightarrow> demangle (constructor_symbol ws) = Some ws"
proof -
  assume ok: "\<forall>w\<in>set ws. is_identifier w"
  have "demangle_names ''C1Ev'' = Some []" by (subst demangle_names.simps) simp
  with ok have "demangle_names (concat (map source_name ws) @ ''C1Ev'') = Some ws"
    by (induction ws) (simp_all add: demangle_component)
  then show ?thesis by (simp add: demangle_def constructor_symbol_def)
qed

lemma replace_colons_component:
  "CHR '':'' \<notin> set w \<Longrightarrow> replace_colons (w @ t) = w @ replace_colons t"
proof (induction w)
  case (Cons c w)
  then show ?case by (cases "w @ t") auto
qed simp

lemma replace_colons_names:
  "\<forall>w\<in>set ws. is_identifier w \<Longrightarrow> replace_colons (join_with ''::'' ws) = join_with ''/'' ws"
proof (induction ws)
  case (Cons w ws)
  then have w: "CHR '':'' \<notin> set w" by (simp add: is_identifier_def)
  show ?case
  proof (cases ws)
    case Nil
    then show ?thesis using replace_colons_component[OF w, of "[]"] by simp
  next
    case (Cons v vs)
    then show ?thesis
      using replace_colons_component[OF w, of "''::'' @ join_with ''::'' ws"] Cons.IH Cons.prems by simp
  qed
qed simp

subsection \<open>Properties\<close>

text \<open>
  C8: For the qualified name with the given components, \<^verbatim>\<open>loadClass\<close> opens the library under the path of the components and looks
  for the mangled name of the constructor, from which the components can be read back, so that different classes
  have different symbols.  Each failure is reported by its error and no class; on success the class has the
  constructor and the last error is that of an earlier call.
\<close>

theorem loadClass_finds_constructor:
  assumes "\<forall>w\<in>set ws. is_identifier w"
  shows "getConstructorMangledName (join_with ''::'' ws) = constructor_symbol ws
    \<and> demangle (constructor_symbol ws) = Some ws
    \<and> loadClass (Some classpath) dlopen dlsym loader (join_with ''::'' ws) =
      Some (case dlopen (classpath @ ''/'' @ join_with ''/'' ws @ ''.so'') of
         Inl errno \<Rightarrow> (None, \<lparr>loader_error = (if errno = ENOENT then FileNotFound else LibraryLoadError)\<rparr>)
       | Inr lib \<Rightarrow>
           (case dlsym lib (constructor_symbol ws) of
              None \<Rightarrow> (None, \<lparr>loader_error = NoClassInLibrary\<rparr>)
            | Some constructor \<Rightarrow> (Some \<lparr>constructor_ptr = Some constructor\<rparr>, loader)))"
proof -
  have sym: "getConstructorMangledName (join_with ''::'' ws) = constructor_symbol ws"
    using mangle_loop_names[OF assms, of "''_ZN''"] by (simp add: getConstructorMangledName_def constructor_symbol_def)
  moreover have "loader\<lparr>loader_error := e\<rparr> = \<lparr>loader_error = e\<rparr>" for e by (cases loader) simp
  ultimately show ?thesis
    using demangle_symbol[OF assms] replace_colons_names[OF assms]
    by (auto simp: loadClass_def Let_def new_AbstractClass_def split: sum.splits option.splits)
qed

theorem loadClass_finds_constructor_witness:
  "getConstructorMangledName ''A::Bc'' = ''_ZN1A2BcC1Ev'' \<and> demangle ''_ZN1A2BcC1Ev'' = Some [''A'', ''Bc'']"
proof -
  have "constructor_symbol [''A'', ''Bc''] = ''_ZN1A2BcC1Ev''" by code_simp
  moreover have "\<forall>w\<in>set [''A'', ''Bc'']. is_identifier w" by (simp add: is_identifier_def is_digit_def)
  ultimately show ?thesis using loadClass_finds_constructor[of "[''A'', ''Bc'']" "''lib''" "\<lambda>_. Inl 2 :: int + unit" "\<lambda>_ _. None :: unit option" new_ClassLoader]
    by simp
qed

end
