(* ===== verification/SingleFloat.thy ===== *)
theory SingleFloat
  imports Prelude Complex_Main
begin

section \<open>Single precision arithmetic\<close>

text \<open>
  The part of IEEE 754 single precision that the programs use: the result of an operation is the exact result
  rounded to a multiple of the unit in the last place, ties to even.  Numbers are rational; infinities do
  not occur in the range in which the programs compute.  What the proofs need of rounding is the locale
  \<open>single_rounding\<close>, which \<open>round_single\<close> interprets.
\<close>

definition round_half_even :: "rat \<Rightarrow> int" where
  "round_half_even y =
     (let f = \<lfloor>y\<rfloor>; r = y - of_int f in if r < 1 / 2 \<or> r = 1 / 2 \<and> even f then f else f + 1)"

text \<open>
  The unit in the last place: the largest of the units \<open>2 ^ -149\<close> to \<open>2 ^ 104\<close> of which 24 bits of
  significand are enough, and the smallest for subnormal numbers.
\<close>

primrec ulp_upto :: "nat \<Rightarrow> rat \<Rightarrow> rat" where
  "ulp_upto 0 x = 1 / 2 ^ 149"
| "ulp_upto (Suc n) x =
     (if 2 ^ 23 * (2 ^ Suc n / 2 ^ 149) \<le> \<bar>x\<bar> then 2 ^ Suc n / 2 ^ 149 else ulp_upto n x)"

definition ulp :: "rat \<Rightarrow> rat" where
  "ulp x = ulp_upto 253 x"

definition round_single :: "rat \<Rightarrow> rat" where
  "round_single x = ulp x * of_int (round_half_even (x / ulp x))"

subsection \<open>What rounding guarantees\<close>

lemma round_half_even_error: "\<bar>of_int (round_half_even y) - y\<bar> \<le> 1 / 2"
proof -
  have "of_int \<lfloor>y\<rfloor> \<le> y" "y < of_int \<lfloor>y\<rfloor> + 1" by linarith+
  then show ?thesis unfolding round_half_even_def Let_def abs_le_iff by (simp add: field_simps) linarith
qed

lemma round_half_even_bounds:
  assumes "of_int l \<le> y" "y \<le> of_int k"
  shows "l \<le> round_half_even y \<and> round_half_even y \<le> k"
proof -
  have "l \<le> \<lfloor>y\<rfloor>" using assms(1) by (simp add: le_floor_iff)
  moreover have "round_half_even y \<le> k"
  proof (cases "y = of_int k")
    case False
    then have "\<lfloor>y\<rfloor> < k" using assms(2) by (simp add: floor_less_iff)
    then show ?thesis by (simp add: round_half_even_def Let_def)
  qed (simp add: round_half_even_def)
  moreover have "\<lfloor>y\<rfloor> \<le> round_half_even y" by (simp add: round_half_even_def Let_def)
  ultimately show ?thesis by linarith
qed

lemma ulp_upto_form: "\<exists>k\<le>n. ulp_upto n x = 2 ^ k / 2 ^ 149 \<and> (0 < k \<longrightarrow> 2 ^ 23 * ulp_upto n x \<le> \<bar>x\<bar>)"
proof (induction n)
  case (Suc n)
  show ?case
  proof (cases "2 ^ 23 * (2 ^ Suc n / 2 ^ 149) \<le> \<bar>x\<bar>")
    case True
    then show ?thesis by (intro exI[of _ "Suc n"]) simp
  next
    case False
    then have "ulp_upto (Suc n) x = ulp_upto n x" by simp
    then show ?thesis using Suc by (metis le_SucI)
  qed
qed simp

lemma ulp_pos: "0 < ulp x"
proof -
  obtain k where "ulp x = 2 ^ k / 2 ^ 149" using ulp_upto_form[of 253 x] by (auto simp only: ulp_def)
  moreover have "(0 :: rat) < 2 ^ k / 2 ^ 149" by (intro divide_pos_pos zero_less_power) auto
  ultimately show ?thesis by (simp only:)
qed

lemma round_single_bounds:
  assumes "\<bar>x\<bar> < 2 ^ 24" "of_int l \<le> x" "x \<le> of_int k"
  shows "of_int l \<le> round_single x \<and> round_single x \<le> of_int k"
proof -
  obtain e where e: "ulp x = 2 ^ e / 2 ^ 149" "0 < e \<longrightarrow> 2 ^ 23 * ulp x \<le> \<bar>x\<bar>"
    using ulp_upto_form[of 253 x] by (auto simp: ulp_def)
  have "e \<le> 149"
  proof (rule ccontr)
    assume "\<not> e \<le> 149"
    then have "(2 :: rat) ^ 150 \<le> 2 ^ e" by (intro power_increasing) auto
    then have "2 \<le> ulp x" using e(1) by (simp add: field_simps)
    moreover have "2 ^ 23 * ulp x < 2 ^ 24" using e(2) assms(1) \<open>\<not> e \<le> 149\<close> by linarith
    ultimately show False by simp
  qed
  define m :: int where "m = 2 ^ (149 - e)"
  have m: "of_int m * ulp x = 1" using \<open>e \<le> 149\<close> by (simp add: m_def e(1) power_add[symmetric])
  then have inv: "x / ulp x = x * of_int m" using ulp_pos[of x] by (simp add: field_simps)
  have "0 < m" by (simp add: m_def)
  then have "of_int (l * m) \<le> x / ulp x" "x / ulp x \<le> of_int (k * m)" using assms by (simp_all add: inv)
  then have r: "l * m \<le> round_half_even (x / ulp x)" "round_half_even (x / ulp x) \<le> k * m"
    using round_half_even_bounds by blast+
  have "of_int (l * m) * ulp x \<le> round_single x" "round_single x \<le> of_int (k * m) * ulp x"
    using r ulp_pos[of x] unfolding round_single_def mult.commute[of "ulp x"]
    by (intro mult_right_mono, simp_all only: of_int_le_iff less_imp_le)+
  moreover have "of_int (j * m) * ulp x = of_int j" for j using m by (simp only: of_int_mult mult.assoc m mult_1_right)
  ultimately show ?thesis by (simp only:)
qed

lemma round_single_error:
  assumes "x = 0 \<or> 1 / 2 ^ 126 \<le> \<bar>x\<bar>"
  shows "\<bar>round_single x - x\<bar> \<le> \<bar>x\<bar> / 2 ^ 24"
proof (cases "x = 0")
  case False
  obtain e where e: "ulp x = 2 ^ e / 2 ^ 149" "0 < e \<longrightarrow> 2 ^ 23 * ulp x \<le> \<bar>x\<bar>"
    using ulp_upto_form[of 253 x] by (auto simp: ulp_def)
  have u: "2 ^ 23 * ulp x \<le> \<bar>x\<bar>" using e assms False by (cases "e = 0") simp_all
  have "round_single x - x = ulp x * (of_int (round_half_even (x / ulp x)) - x / ulp x)"
    using ulp_pos[of x] by (simp add: round_single_def field_simps)
  then have "\<bar>round_single x - x\<bar> = ulp x * \<bar>of_int (round_half_even (x / ulp x)) - x / ulp x\<bar>"
    using ulp_pos[of x] by (simp add: abs_mult)
  also have "\<dots> \<le> ulp x * (1 / 2)" using round_half_even_error ulp_pos[of x] by (intro mult_left_mono) auto
  finally show ?thesis using u by simp
qed (simp add: round_single_def round_half_even_def)

text \<open>The interface: integers bound the result as they bound the exact one, and the relative error is small.\<close>

locale single_rounding =
  fixes rnd :: "rat \<Rightarrow> rat"
  assumes rnd_bounds: "\<bar>x\<bar> < 2 ^ 24 \<Longrightarrow> of_int l \<le> x \<Longrightarrow> x \<le> of_int k \<Longrightarrow> of_int l \<le> rnd x \<and> rnd x \<le> of_int k"
    and rnd_error: "x = 0 \<or> 1 / 2 ^ 126 \<le> \<bar>x\<bar> \<Longrightarrow> \<bar>rnd x - x\<bar> \<le> \<bar>x\<bar> / 2 ^ 24"
begin

lemma rnd_int: "\<bar>k\<bar> < 2 ^ 24 \<Longrightarrow> rnd (of_int k) = of_int k"
proof -
  assume "\<bar>k\<bar> < 2 ^ 24"
  then have "\<bar>of_int k :: rat\<bar> < 2 ^ 24" by (metis of_int_abs of_int_less_iff of_int_numeral of_int_power)
  then show ?thesis using rnd_bounds[of "of_int k" k k] by simp
qed

text \<open>A byte divided by 255, and the product of such a quotient with the difference of two bytes.\<close>

lemma quotient_bounds:
  assumes "0 \<le> a" "a \<le> 255"
  shows "0 \<le> rnd (of_int a / 255) \<and> rnd (of_int a / 255) \<le> 1 \<and> \<bar>rnd (of_int a / 255) - of_int a / 255\<bar> \<le> (of_int a / 255) / 2 ^ 24"
proof -
  have q: "(of_int 0 :: rat) \<le> of_int a / 255" "(of_int a :: rat) / 255 \<le> of_int 1" using assms by simp_all
  then have "\<bar>(of_int a :: rat) / 255\<bar> < 2 ^ 24" by simp
  note b = rnd_bounds[OF this q]
  have "a = 0 \<or> 1 \<le> a" using assms(1) by linarith
  then have "of_int a / 255 = (0 :: rat) \<or> 1 / 2 ^ 126 \<le> \<bar>(of_int a :: rat) / 255\<bar>"
  proof
    assume "1 \<le> a"
    then have "(1 :: rat) / 255 \<le> of_int a / 255" by (simp add: field_simps)
    moreover have "(1 :: rat) / 2 ^ 126 \<le> 1 / 255" by simp
    ultimately show ?thesis using q(1) by simp
  qed simp
  from rnd_error[OF this] b show ?thesis using q(1) by simp
qed

lemma product_error:
  assumes a: "0 \<le> a" "a \<le> 255" and d: "\<bar>d\<bar> \<le> 255"
  shows "\<bar>rnd (of_int d * rnd (of_int a / 255)) - of_int d * (of_int a / 255)\<bar> < 1 / 510"
proof -
  let ?q = "of_int a / 255 :: rat" and ?t = "rnd (of_int a / 255)"
  note t = quotient_bounds[OF a]
  have q: "0 \<le> ?q" "?q \<le> 1" using a by simp_all
  have dr: "\<bar>of_int d :: rat\<bar> \<le> 255" using d by (metis of_int_abs of_int_le_iff of_int_numeral)
  have p: "\<bar>of_int d * ?t\<bar> \<le> 255"
    using mult_mono[OF dr, of ?t 1] t by (simp add: abs_mult)
  have "of_int d * ?t = 0 \<or> 1 / 2 ^ 126 \<le> \<bar>of_int d * ?t\<bar>"
  proof (cases "a = 0 \<or> d = 0")
    case False
    then have "(1 :: rat) / 255 \<le> ?q" "1 \<le> \<bar>of_int d :: rat\<bar>"
      using a(1) by (simp_all add: field_simps) linarith
    moreover have "?q - ?q / 2 ^ 24 \<le> ?t" using t by linarith
    moreover have "?q / 2 ^ 24 \<le> ?q / 2" using q by simp
    ultimately have "1 / 510 \<le> ?t" by linarith
    then have "1 * (1 / 510) \<le> \<bar>of_int d\<bar> * ?t" using \<open>1 \<le> \<bar>of_int d\<bar>\<close> by (intro mult_mono) auto
    moreover have "(1 :: rat) / 2 ^ 126 \<le> 1 / 510" by simp
    ultimately show ?thesis using t by (simp add: abs_mult)
  qed (use t q in auto)
  then have e1: "\<bar>rnd (of_int d * ?t) - of_int d * ?t\<bar> \<le> 255 / 2 ^ 24" using rnd_error p by fastforce
  have "?q / 2 ^ 24 \<le> 1 / 2 ^ 24" using q(2) by (rule divide_right_mono) simp
  then have "\<bar>?t - ?q\<bar> \<le> 1 / 2 ^ 24" using t by linarith
  then have "\<bar>of_int d\<bar> * \<bar>?t - ?q\<bar> \<le> 255 * (1 / 2 ^ 24)" using dr by (intro mult_mono) auto
  then have e2: "\<bar>of_int d * ?t - of_int d * ?q\<bar> \<le> 255 / 2 ^ 24" by (simp add: abs_mult[symmetric] right_diff_distrib)
  have "\<bar>rnd (of_int d * ?t) - of_int d * ?q\<bar> \<le> 255 / 2 ^ 24 + 255 / 2 ^ 24" using e1 e2 by linarith
  also have "\<dots> < 1 / 510" by simp
  finally show ?thesis .
qed

text \<open>
  The errors are too small to matter: the product, rounded to an integer, is the exact product rounded to the
  nearest integer.
\<close>

lemma product_exact:
  assumes a: "0 \<le> a" "a \<le> 255" and d: "\<bar>d\<bar> \<le> 255"
  shows "round_half_even (rnd (of_int d * rnd (of_int a / 255))) = (2 * d * a + 255) div 510"
proof -
  let ?y = "rnd (of_int d * rnd (of_int a / 255))"
  define z where "z = round_half_even ?y"
  have "\<bar>of_int z - of_int d * (of_int a / 255)\<bar> < (1 / 2 + 1 / 510 :: rat)"
    using product_error[OF assms] round_half_even_error[of ?y] unfolding z_def by linarith
  then have "\<bar>of_int (510 * z - 2 * d * a)\<bar> < (256 :: rat)" by (simp add: field_simps abs_if split: if_splits)
  then have "\<bar>510 * z - 2 * d * a\<bar> < 256" by (metis of_int_abs of_int_less_iff of_int_numeral)
  moreover have "2 * d * a = 2 * (d * a)" by simp
  ultimately have "510 * z - 254 \<le> 2 * d * a" "2 * d * a \<le> 510 * z + 254" by presburger+
  then have "(2 * d * a + 255) div 510 = z" by (intro int_div_pos_eq[where r = "2 * d * a + 255 - 510 * z"]) auto
  then show ?thesis by (simp add: z_def)
qed

lemma product_between:
  assumes a: "0 \<le> a" "a \<le> 255" and d: "\<bar>d\<bar> \<le> 255"
  shows "min 0 d \<le> round_half_even (rnd (of_int d * rnd (of_int a / 255)))
    \<and> round_half_even (rnd (of_int d * rnd (of_int a / 255))) \<le> max 0 d"
proof -
  let ?t = "rnd (of_int a / 255)"
  note t = quotient_bounds[OF a]
  have p: "of_int (min 0 d) \<le> of_int d * ?t" "of_int d * ?t \<le> of_int (max 0 d)"
    using t mult_left_le[of ?t "of_int d"] mult_left_le[of ?t "- of_int d"] mult_nonneg_nonneg[of "of_int d" ?t]
      mult_nonpos_nonneg[of "of_int d" ?t]
    by (auto simp: min_def max_def)
  have "- 255 \<le> min 0 d" "max 0 d \<le> 255" using d by auto
  then have "(- 255 :: rat) \<le> of_int (min 0 d)" "of_int (max 0 d) \<le> (255 :: rat)" by linarith+
  then have "\<bar>of_int d * ?t\<bar> \<le> 255" using p by linarith
  then have "\<bar>of_int d * ?t\<bar> < 2 ^ 24" by (rule le_less_trans) simp
  from rnd_bounds[OF this p] show ?thesis by (intro round_half_even_bounds) auto
qed

end

interpretation single: single_rounding round_single
  using round_single_bounds round_single_error by unfold_locales

end
