(* ===== verification/BlendImages.thy ===== *)
theory BlendImages
  imports PrintList SingleFloat
begin

section \<open>sse-blend-images: laying one image over another\<close>

text \<open>
  \<^verbatim>\<open>inf06-4_generic_sse-blend-images/main.c\<close>.  Two bitmap files of 32 bits per pixel are read, the second is laid
  over the first with its transparency, and everything else of the first is copied.  A file is its bytes and a
  position.  The vector instructions work on four 32-bit lanes; the differences of bytes in them
  cannot overflow, and a lane is an integer here.  Single precision arithmetic is that of \<open>SingleFloat\<close>.  \<open>None\<close> is a use of
  bytes that were not read, a block of negative size or a file that was not opened.

  The property: the output is the first image with every channel of every pixel replaced by the nearest integer to the
  exact mixture, and nothing else changed.
\<close>

subsection \<open>Files\<close>

record stream =
  contents :: "u8 list"
  position :: nat

definition fread :: "nat \<Rightarrow> stream \<Rightarrow> u8 list \<times> stream" where
  "fread n s = (let bs = take n (drop (position s) (contents s)) in (bs, s\<lparr>position := position s + length bs\<rparr>))"

text \<open>\<^verbatim>\<open>fseek\<close> from the current position; it refuses a position before the start.\<close>

definition skip_bytes :: "int \<Rightarrow> stream \<Rightarrow> stream" where
  "skip_bytes N s = (if int (position s) + N < 0 then s else s\<lparr>position := nat (int (position s) + N)\<rparr>)"

record blend_files =
  source1 :: stream
  source2 :: stream
  target :: "u8 list"

definition copy_bytes :: "int \<Rightarrow> blend_files \<Rightarrow> blend_files option" where
  "copy_bytes N fs =
     (if N < 0 then None
      else case fread (nat N) (source1 fs) of (buffer, s) \<Rightarrow>
        if length buffer = nat N then Some (fs\<lparr>source1 := s, target := target fs @ buffer\<rparr>) else None)"

text \<open>The program only reads values of four bytes, which fill the variable; the machine is little-endian.\<close>

definition read_value :: "nat \<Rightarrow> stream \<Rightarrow> (int \<times> stream) option" where
  "read_value bytes_count s =
     (case fread bytes_count s of (bs, s) \<Rightarrow>
        if length bs = 4 then Some (to_i32 (int (le_bytes bs)), s) else None)"

definition write_value :: "nat \<Rightarrow> int \<Rightarrow> u8 list \<Rightarrow> u8 list" where
  "write_value bytes_count v out = out @ map (\<lambda>i. of_int (v div 256 ^ i)) [0..<bytes_count]"

definition copy_value :: "nat \<Rightarrow> blend_files \<Rightarrow> (int \<times> blend_files) option" where
  "copy_value bytes_count fs =
     (case read_value bytes_count (source1 fs) of
        None \<Rightarrow> None
      | Some (v, s) \<Rightarrow> Some (v, fs\<lparr>source1 := s, target := write_value bytes_count v (target fs)\<rparr>))"

subsection \<open>Pixels\<close>

record Pixel =
  px_a :: u8
  px_b :: u8
  px_g :: u8
  px_r :: u8

definition pixel_of_bytes :: "u8 list \<Rightarrow> Pixel" where
  "pixel_of_bytes bs = \<lparr>px_a = bs ! 0, px_b = bs ! 1, px_g = bs ! 2, px_r = bs ! 3\<rparr>"

definition bytes_of_pixel :: "Pixel \<Rightarrow> u8 list" where
  "bytes_of_pixel p = [px_a p, px_b p, px_g p, px_r p]"

text \<open>One lane of the vector registers, from the two bytes to the sum that is stored.\<close>

definition combine_lane :: "rat \<Rightarrow> u8 \<Rightarrow> u8 \<Rightarrow> int" where
  "combine_lane transparency c1 c2 =
     (let xmm0 = uint c1;
          xmm1 = uint c2 - xmm0;
          xmm3 = round_single (of_int xmm1);
          xmm3 = round_single (xmm3 * transparency);
          xmm1 = round_half_even xmm3
      in xmm0 + xmm1)"

definition combine_pixels :: "Pixel \<Rightarrow> Pixel \<Rightarrow> Pixel" where
  "combine_pixels p1 p2 =
     (let transparency = round_single (round_single (of_int (uint (px_a p2))) / round_single (of_int 255)) in
      \<lparr>px_a = (if px_a p1 < px_a p2 then px_a p2 else px_a p1),
       px_b = of_int (combine_lane transparency (px_b p1) (px_b p2)),
       px_g = of_int (combine_lane transparency (px_g p1) (px_g p2)),
       px_r = of_int (combine_lane transparency (px_r p1) (px_r p2))\<rparr>)"

primrec copy_pixels :: "nat \<Rightarrow> blend_files \<Rightarrow> blend_files option" where
  "copy_pixels 0 fs = Some fs"
| "copy_pixels (Suc n) fs =
     (case fread 4 (source1 fs) of (b1, s1) \<Rightarrow>
      case fread 4 (source2 fs) of (b2, s2) \<Rightarrow>
        if length b1 = 4 \<and> length b2 = 4
        then copy_pixels n (fs\<lparr>source1 := s1, source2 := s2,
               target := target fs @ bytes_of_pixel (combine_pixels (pixel_of_bytes b1) (pixel_of_bytes b2))\<rparr>)
        else None)"

subsection \<open>Images\<close>

definition overlap_image :: "blend_files \<Rightarrow> blend_files option" where
  "overlap_image fs =
     do {
       fs \<leftarrow> copy_bytes 2 fs;
       (file_size, fs) \<leftarrow> copy_value 4 fs;
       fs \<leftarrow> copy_bytes (10 - 6) fs;
       (pixels_array_offset, fs) \<leftarrow> copy_value 4 fs;
       fs \<leftarrow> copy_bytes (18 - 14) fs;
       (width, fs) \<leftarrow> copy_value 4 fs;
       (height, fs) \<leftarrow> copy_value 4 fs;
       let pixels_count = to_i32 (width * height);
       fs \<leftarrow> copy_bytes (pixels_array_offset - 26) fs;
       let fs = fs\<lparr>source2 := skip_bytes pixels_array_offset (source2 fs)\<rparr>;
       fs \<leftarrow> copy_pixels (nat pixels_count) fs;
       copy_bytes (file_size - to_i32 (pixels_array_offset + pixels_count * 4)) fs
     }"

definition blend_main :: "u8 list option \<Rightarrow> u8 list option \<Rightarrow> bool \<Rightarrow> (int \<times> u8 list) option" where
  "blend_main image1 image2 opened =
     (case (image1, image2) of
        (Some f1, Some f2) \<Rightarrow>
          if opened
          then map_option (\<lambda>fs. (0, target fs))
                 (overlap_image \<lparr>source1 = \<lparr>contents = f1, position = 0\<rparr>, source2 = \<lparr>contents = f2, position = 0\<rparr>, target = []\<rparr>)
          else None
      | _ \<Rightarrow> None)"

subsection \<open>The exact mixture\<close>

text \<open>\<open>(2 * x + 255) div 510\<close> is the integer nearest to \<open>x / 255\<close>.\<close>

definition mix_channel :: "u8 \<Rightarrow> u8 \<Rightarrow> u8 \<Rightarrow> int" where
  "mix_channel alpha c1 c2 = uint c1 + (2 * (uint c2 - uint c1) * uint alpha + 255) div 510"

definition mix_pixels :: "Pixel \<Rightarrow> Pixel \<Rightarrow> Pixel" where
  "mix_pixels p q =
     \<lparr>px_a = max (px_a p) (px_a q),
      px_b = of_int (mix_channel (px_a q) (px_b p) (px_b q)),
      px_g = of_int (mix_channel (px_a q) (px_g p) (px_g q)),
      px_r = of_int (mix_channel (px_a q) (px_r p) (px_r q))\<rparr>"

lemma byte_range: "0 \<le> uint (c :: u8)" "uint (c :: u8) \<le> 255"
  using uint_lt2p[of c] by simp_all

lemma combine_lane_mix:
  "combine_lane (round_single (round_single (of_int (uint alpha)) / round_single (of_int 255))) c1 c2 = mix_channel alpha c1 c2
   \<and> min (uint c1) (uint c2) \<le> mix_channel alpha c1 c2 \<and> mix_channel alpha c1 c2 \<le> max (uint c1) (uint c2)"
proof -
  let ?d = "uint c2 - uint c1"
  have d: "\<bar>?d\<bar> \<le> 255" using byte_range[of c1] byte_range[of c2] by linarith
  have "round_single (of_int ?d) = of_int ?d" by (rule single.rnd_int, rule le_less_trans[OF d]) simp
  moreover have "round_single (of_int (uint alpha)) = of_int (uint alpha)"
    by (rule single.rnd_int, rule le_less_trans[of _ 255]) (use byte_range[of alpha] in simp_all)
  moreover have "round_single (of_int 255) = of_int 255" by (rule single.rnd_int) simp
  ultimately show ?thesis
    using single.product_exact[OF byte_range[of alpha] d] single.product_between[OF byte_range[of alpha] d]
    by (simp add: combine_lane_def mix_channel_def Let_def) linarith
qed

lemma mix_channel_nearest:
  "\<bar>of_int (mix_channel alpha c1 c2) - (of_int (uint c1) + (of_int (uint c2) - of_int (uint c1)) * of_int (uint alpha) / 255)\<bar>
     \<le> (1 / 2 :: rat)"
proof -
  define x where "x = (uint c2 - uint c1) * uint alpha"
  have "510 * ((2 * x + 255) div 510) + (2 * x + 255) mod 510 = 2 * x + 255" by (rule mult_div_mod_eq)
  moreover have "0 \<le> (2 * x + 255) mod 510" "(2 * x + 255) mod 510 < 510" by simp_all
  ultimately have "\<bar>510 * ((2 * x + 255) div 510) - 2 * x\<bar> \<le> 255" by linarith
  then have "\<bar>510 * of_int ((2 * x + 255) div 510) - 2 * of_int x\<bar> \<le> (255 :: rat)"
    by (metis (no_types, lifting) of_int_abs of_int_diff of_int_le_iff of_int_mult of_int_numeral)
  then have "\<bar>of_int ((2 * x + 255) div 510) - of_int x / 255\<bar> \<le> (1 / 2 :: rat)"
    by (simp add: abs_if field_simps split: if_splits)
  moreover have "mix_channel alpha c1 c2 = uint c1 + (2 * x + 255) div 510" by (simp only: mix_channel_def x_def mult.assoc)
  ultimately show ?thesis by (simp add: x_def)
qed

lemma combine_pixels_mix: "combine_pixels p q = mix_pixels p q"
proof -
  have "(if px_a p < px_a q then px_a q else px_a p) = max (px_a p) (px_a q)"
    by (cases "px_a p < px_a q") (auto simp: max_absorb1 max_absorb2 dest: leD)
  then show ?thesis using combine_lane_mix by (simp add: combine_pixels_def mix_pixels_def Let_def)
qed

subsection \<open>Copying\<close>

text \<open>The files after the first \<open>k\<close> bytes of the first one were copied, and the value stored at a position.\<close>

definition copied :: "u8 list \<Rightarrow> stream \<Rightarrow> nat \<Rightarrow> blend_files" where
  "copied f1 s2 k = \<lparr>source1 = \<lparr>contents = f1, position = k\<rparr>, source2 = s2, target = take k f1\<rparr>"

definition int_at :: "u8 list \<Rightarrow> nat \<Rightarrow> int" where
  "int_at f k = to_i32 (int (le_bytes (take 4 (drop k f))))"

lemma take_more: "take k f @ take n (drop k f) = take (k + n) f"
  by (simp add: take_add)

lemma copy_bytes_copied:
  assumes "k + n \<le> length f1"
  shows "copy_bytes (int n) (copied f1 s2 k) = Some (copied f1 s2 (k + n))"
  using assms by (simp add: copy_bytes_def copied_def fread_def Let_def take_more)

lemma byte_of_int: "y mod 256 = uint b \<Longrightarrow> (of_int y :: u8) = b"
  by (simp add: word_uint_eq_iff uint_word_of_int)

lemma div_shift:
  assumes "i < 4"
  shows "(x - 2 ^ 32 * c) div 256 ^ i mod 256 = x div 256 ^ i mod (256 :: int)"
proof -
  have "i = 0 \<or> i = 1 \<or> i = 2 \<or> i = 3" using assms by linarith
  then have "(2 :: int) ^ 32 = 256 ^ i * (256 * 256 ^ (3 - i))" by auto
  then have "x - 2 ^ 32 * c = x + 256 ^ i * (256 * (256 ^ (3 - i) * (- c)))" by (simp only:)
  then have "(x - 2 ^ 32 * c) div 256 ^ i = 256 * (256 ^ (3 - i) * (- c)) + x div 256 ^ i"
    by (simp only:) (rule div_mult_self2, simp)
  then show ?thesis by (simp only: mod_mult_self4)
qed

lemma le_bytes_div: "int (le_bytes (b # bs)) mod 256 = uint b" "int (le_bytes (b # bs)) div 256 = int (le_bytes bs)"
proof -
  have "unat b < 256" using unat_lt[of b] by simp
  then have "le_bytes (b # bs) mod 256 = unat b" "le_bytes (b # bs) div 256 = le_bytes bs" by simp_all
  then show "int (le_bytes (b # bs)) mod 256 = uint b" "int (le_bytes (b # bs)) div 256 = int (le_bytes bs)"
    by (metis of_nat_mod of_nat_numeral uint_nat, metis of_nat_div of_nat_numeral)
qed

text \<open>Writing a value that was read gives back its bytes.\<close>

lemma write_value_bytes:
  assumes "length bs = 4"
  shows "write_value 4 (to_i32 (int (le_bytes bs))) out = out @ bs"
proof -
  obtain b0 b1 b2 b3 where bs: "bs = [b0, b1, b2, b3]" using assms by (auto simp: numeral_eq_Suc length_Suc_conv)
  define x where "x = int (le_bytes bs)"
  note d = le_bytes_div[of b0 "[b1, b2, b3]"] le_bytes_div[of b1 "[b2, b3]"] le_bytes_div[of b2 "[b3]"] le_bytes_div[of b3 "[]"]
  have x: "x mod 256 = uint b0" "x div 256 mod 256 = uint b1" "x div 256 div 256 mod 256 = uint b2"
    "x div 256 div 256 div 256 mod 256 = uint b3"
    unfolding x_def bs d by (rule refl)+
  define c where "c = (x + 2 ^ 31) div 2 ^ 32"
  have c: "to_i32 x = x - 2 ^ 32 * c"
    using minus_mult_div_eq_mod[of "x + 2 ^ 31" "2 ^ 32"] unfolding to_i32_def c_def by linarith
  have p: "x div 256 ^ 0 = x" "x div 256 ^ 1 = x div 256" "x div 256 ^ 2 = x div 256 div 256"
    "x div 256 ^ 3 = x div 256 div 256 div 256"
    by (simp_all add: div_mult2_eq numeral_eq_Suc)
  have b: "(of_int (to_i32 x div 256 ^ i) :: u8) = b" if "i < 4" "x div 256 ^ i mod 256 = uint b" for i b
    using div_shift[OF that(1), of x c] that(2) by (intro byte_of_int) (simp only: c)
  have "[0..<4] = [0, 1, 2, 3 :: nat]" by (simp add: upt_rec)
  moreover have "(of_int (to_i32 x div 256 ^ 0) :: u8) = b0" "(of_int (to_i32 x div 256 ^ 1) :: u8) = b1"
    "(of_int (to_i32 x div 256 ^ 2) :: u8) = b2" "(of_int (to_i32 x div 256 ^ 3) :: u8) = b3"
    by (rule b, simp, simp only: p x)+
  ultimately have "map (\<lambda>i. of_int (to_i32 x div 256 ^ i) :: u8) [0..<4] = bs" by (simp only: bs list.map)
  then show ?thesis by (simp only: write_value_def x_def)
qed

lemma copy_value_copied:
  assumes "k + 4 \<le> length f1"
  shows "copy_value 4 (copied f1 s2 k) = Some (int_at f1 k, copied f1 s2 (k + 4))"
  using assms write_value_bytes[of "take 4 (drop k f1)" "take k f1"]
  by (simp add: copy_value_def read_value_def copied_def fread_def int_at_def Let_def take_more)

subsection \<open>The pixel array\<close>

definition mixed :: "u8 list \<Rightarrow> u8 list \<Rightarrow> nat \<Rightarrow> u8 list" where
  "mixed px1 px2 n = concat (map (\<lambda>i. bytes_of_pixel (mix_pixels (pixel_of_bytes (take 4 (drop (4 * i) px1)))
     (pixel_of_bytes (take 4 (drop (4 * i) px2))))) [0..<n])"

lemma mixed_Suc:
  "mixed px1 px2 (Suc n) = bytes_of_pixel (mix_pixels (pixel_of_bytes (take 4 px1)) (pixel_of_bytes (take 4 px2)))
     @ mixed (drop 4 px1) (drop 4 px2) n"
proof -
  have "[0..<Suc n] = 0 # map Suc [0..<n]" by (simp add: map_Suc_upt upt_conv_Cons)
  then show ?thesis by (simp add: mixed_def o_def add.commute)
qed

lemma length_mixed: "length (mixed px1 px2 n) = 4 * n"
  by (induction n arbitrary: px1 px2) (simp_all add: mixed_Suc bytes_of_pixel_def, simp add: mixed_def)

lemma copy_pixels_mixes:
  assumes "p1 + 4 * n \<le> length f1" "p2 + 4 * n \<le> length f2"
  shows "copy_pixels n \<lparr>source1 = \<lparr>contents = f1, position = p1\<rparr>, source2 = \<lparr>contents = f2, position = p2\<rparr>, target = out\<rparr>
    = Some \<lparr>source1 = \<lparr>contents = f1, position = p1 + 4 * n\<rparr>, source2 = \<lparr>contents = f2, position = p2 + 4 * n\<rparr>,
        target = out @ mixed (drop p1 f1) (drop p2 f2) n\<rparr>"
  using assms
proof (induction n arbitrary: p1 p2 out)
  case 0
  then show ?case by (simp add: mixed_def)
next
  case (Suc n)
  then show ?case
    using Suc.IH[of "p1 + 4" "p2 + 4"] by (simp add: fread_def Let_def mixed_Suc combine_pixels_mix add.commute)
qed

subsection \<open>Properties\<close>

text \<open>
  C7: For a first file whose fields agree with its length and a second file with as many pixels behind the same offset, the
  output is the first file in which every pixel is the mixture: in each colour channel the integer nearest to the
  exact weighted mean, which lies between the two channels, so that the rounding errors of single precision never show and no byte
  overflows.  Header and trailer are unchanged.
\<close>

theorem blend_main_mixes:
  assumes "int_at f1 2 = int (length f1)" and "int_at f1 10 = int off" and "26 \<le> off"
    and "int_at f1 18 * int_at f1 22 = int n" and "off + 4 * n \<le> length f1" and "off + 4 * n \<le> length f2"
    and "length f1 < 2 ^ 31"
  shows "blend_main (Some f1) (Some f2) True =
      Some (0, take off f1 @ mixed (drop off f1) (drop off f2) n @ drop (off + 4 * n) f1)
    \<and> (\<forall>alpha c1 c2. min (uint c1) (uint c2) \<le> mix_channel alpha c1 c2 \<and> mix_channel alpha c1 c2 \<le> max (uint c1) (uint c2)
        \<and> \<bar>of_int (mix_channel alpha c1 c2) - (of_int (uint c1) + (of_int (uint c2) - of_int (uint c1)) * of_int (uint alpha) / 255)\<bar>
           \<le> (1 / 2 :: rat))"
proof -
  let ?s2 = "\<lparr>contents = f2, position = 0\<rparr>"
  let ?fs = "\<lparr>source1 = \<lparr>contents = f1, position = off\<rparr>, source2 = \<lparr>contents = f2, position = off\<rparr>, target = take off f1\<rparr>"
  have nn: "int n < 2 ^ 31" "int off + int n * 4 < 2 ^ 31" using assms(5,7) by simp_all
  then have c: "to_i32 (int n) = int n" "to_i32 (int off + int n * 4) = int (off + 4 * n)" by (simp_all add: is_i32_def)
  have steps: "copy_bytes 2 (copied f1 ?s2 0) = Some (copied f1 ?s2 2)"
    "copy_value 4 (copied f1 ?s2 2) = Some (int (length f1), copied f1 ?s2 6)"
    "copy_bytes (10 - 6) (copied f1 ?s2 6) = Some (copied f1 ?s2 10)"
    "copy_value 4 (copied f1 ?s2 10) = Some (int off, copied f1 ?s2 14)"
    "copy_bytes (18 - 14) (copied f1 ?s2 14) = Some (copied f1 ?s2 18)"
    "copy_value 4 (copied f1 ?s2 18) = Some (int_at f1 18, copied f1 ?s2 22)"
    "copy_value 4 (copied f1 ?s2 22) = Some (int_at f1 22, copied f1 ?s2 26)"
    "copy_bytes (int off - 26) (copied f1 ?s2 26) = Some (copied f1 ?s2 off)"
    using copy_bytes_copied[of 0 2 f1 ?s2] copy_value_copied[of 2 f1 ?s2] copy_bytes_copied[of 6 4 f1 ?s2]
      copy_value_copied[of 10 f1 ?s2] copy_bytes_copied[of 14 4 f1 ?s2] copy_value_copied[of 18 f1 ?s2]
      copy_value_copied[of 22 f1 ?s2] copy_bytes_copied[of 26 "off - 26" f1 ?s2] assms(1-3,5)
    by (simp_all add: of_nat_diff numeral_2_eq_2)
  have skip: "(copied f1 ?s2 off)\<lparr>source2 := skip_bytes (int off) (source2 (copied f1 ?s2 off))\<rparr> = ?fs"
    by (simp add: copied_def skip_bytes_def)
  have tail: "copy_bytes (int (length f1) - int (off + 4 * n))
      \<lparr>source1 = \<lparr>contents = f1, position = off + 4 * n\<rparr>, source2 = s, target = out\<rparr>
    = Some \<lparr>source1 = \<lparr>contents = f1, position = length f1\<rparr>, source2 = s, target = out @ drop (off + 4 * n) f1\<rparr>" for s out
    using assms(5) by (simp add: copy_bytes_def fread_def Let_def)
  have "overlap_image (copied f1 ?s2 0) = Some \<lparr>source1 = \<lparr>contents = f1, position = length f1\<rparr>,
      source2 = \<lparr>contents = f2, position = off + 4 * n\<rparr>,
      target = (take off f1 @ mixed (drop off f1) (drop off f2) n) @ drop (off + 4 * n) f1\<rparr>"
    using assms(4)
    by (simp add: overlap_image_def Let_def steps[simplified] c skip nat_int copy_pixels_mixes[OF assms(5,6)] tail
        del: of_nat_add of_nat_mult)
  moreover have "copied f1 ?s2 0 = \<lparr>source1 = \<lparr>contents = f1, position = 0\<rparr>, source2 = ?s2, target = []\<rparr>"
    by (simp add: copied_def)
  ultimately have "blend_main (Some f1) (Some f2) True =
      Some (0, take off f1 @ mixed (drop off f1) (drop off f2) n @ drop (off + 4 * n) f1)"
    by (simp add: blend_main_def)
  then show ?thesis using combine_lane_mix mix_channel_nearest by blast
qed

definition sample_image :: "u8 list \<Rightarrow> u8 list" where
  "sample_image pixel = [66, 77, 30, 0, 0, 0, 0, 0, 0, 0, 26, 0, 0, 0, 0, 0, 0, 0, 1, 0, 0, 0, 1, 0, 0, 0] @ pixel"

theorem blend_main_mixes_witness:
  "blend_main (Some (sample_image [255, 10, 20, 30])) (Some (sample_image [128, 200, 0, 30])) True
     = Some (0, sample_image [255, 105, 10, 30])"
proof -
  let ?f1 = "sample_image [255, 10, 20, 30]" and ?f2 = "sample_image [128, 200, 0, 30]"
  have l: "length ?f1 = 30" "length ?f2 = 30" by (simp_all add: sample_image_def)
  have i: "int_at ?f1 2 = 30" "int_at ?f1 10 = 26" "int_at ?f1 18 = 1" "int_at ?f1 22 = 1"
    by (simp_all add: int_at_def sample_image_def to_i32_def)
  have m: "mixed (drop 26 ?f1) (drop 26 ?f2) 1 = [255, 105, 10, 30]"
    by (simp add: mixed_def sample_image_def pixel_of_bytes_def mix_pixels_def mix_channel_def bytes_of_pixel_def max_def)
  have "take 26 ?f1 @ [255, 105, 10, 30] @ drop 30 ?f1 = sample_image [255, 105, 10, 30]" by (simp add: sample_image_def)
  then show ?thesis using blend_main_mixes[of ?f1 26 1 ?f2] l i m by simp
qed

end
