(* ===== verification/FindExecutables.thy ===== *)
theory FindExecutables
  imports HttpServer
begin

section \<open>find-invalid-executables: files that are marked executable but cannot run\<close>

text \<open>
  \<^verbatim>\<open>inf09-2_posix_filesystem_find-invalid-executables/main.c\<close>.  The names of files are read line by line; those
  that are marked executable but are neither ELF files nor scripts with an executable interpreter are printed.
  The file system is the pair of what \<^verbatim>\<open>stat\<close> says of a path and what can be read from it.  A write
  behind the array \<^verbatim>\<open>interpreter_name\<close> is \<open>None\<close>.

  The property: the output is the list of the invalid files in the order of the input, for names and interpreters that
  fit their arrays, and a script with a longer interpreter line overruns the array.
\<close>

definition max_file_name :: nat where "max_file_name = 5000"
definition buffer_size :: nat where "buffer_size = 6000"

record file_mode =
  regular :: bool
  user_exec :: bool
  group_exec :: bool

record filesystem =
  file_stat :: "char list \<Rightarrow> file_mode option"
  readable :: "char list \<Rightarrow> char list option"

subsection \<open>The program\<close>

definition is_file_marked_executable :: "filesystem \<Rightarrow> char list \<Rightarrow> bool" where
  "is_file_marked_executable fs filename =
     (case file_stat fs filename of
        None \<Rightarrow> False
      | Some buff \<Rightarrow> regular buff \<and> (user_exec buff \<or> group_exec buff))"

definition magic_elf :: "char list" where
  "magic_elf = [CHR 0x7F, CHR ''E'', CHR ''L'', CHR ''F'']"

definition is_correct_elf_file :: "char list \<Rightarrow> bool" where
  "is_correct_elf_file contents = (let buffer = take 4 contents in length buffer = 4 \<and> buffer = magic_elf)"

text \<open>The loop that copies the name of the interpreter; \<open>name\<close> is what has been copied.\<close>

fun copy_interpreter :: "char list \<Rightarrow> char list \<Rightarrow> char list option" where
  "copy_interpreter [] name = (if length name < max_file_name then Some (name @ [NUL]) else None)"
| "copy_interpreter (c # cs) name =
     (if c \<noteq> CHR 0x0A \<and> c \<noteq> CHR '' ''
      then if length name < max_file_name then copy_interpreter cs (name @ [c]) else None
      else if length name < max_file_name then Some (name @ [NUL]) else None)"

definition is_correct_interpreted_file :: "filesystem \<Rightarrow> char list \<Rightarrow> bool option" where
  "is_correct_interpreted_file fs contents =
     (let buffer = take buffer_size contents in
      if length buffer < 3 then Some False
      else if buffer ! 0 \<noteq> CHR ''#'' \<or> buffer ! 1 \<noteq> CHR ''!'' then Some False
      else map_option (\<lambda>name. is_file_marked_executable fs (cstr name)) (copy_interpreter (drop 2 buffer) []))"

definition is_file_executable :: "filesystem \<Rightarrow> char list \<Rightarrow> bool option" where
  "is_file_executable fs filename =
     (case readable fs filename of
        None \<Rightarrow> Some False
      | Some contents \<Rightarrow>
          if is_correct_elf_file contents then Some True else is_correct_interpreted_file fs contents)"

definition is_file_truly_executable :: "filesystem \<Rightarrow> char list \<Rightarrow> bool option" where
  "is_file_truly_executable fs filename =
     (if is_file_marked_executable fs filename then is_file_executable fs filename else Some False)"

text \<open>\<^verbatim>\<open>fgets\<close>: at most \<open>n - 1\<close> characters, up to and with the first end of line; and what is left.\<close>

definition fgets :: "nat \<Rightarrow> char list \<Rightarrow> char list \<times> char list" where
  "fgets n s =
     (let k = min (n - 1) (length (takeWhile (\<lambda>c. c \<noteq> CHR 0x0A) s) + 1) in (take k s, drop k s))"

text \<open>The loop of \<^verbatim>\<open>main\<close>; it reads in front of the array when a line begins with a NUL.\<close>

function find_main :: "filesystem \<Rightarrow> char list \<Rightarrow> char list \<Rightarrow> char list option" where
  "find_main fs [] out = Some out"
| "find_main fs (c # cs) out =
     (case fgets max_file_name (c # cs) of (ln, s) \<Rightarrow>
        let filename = cstr ln in
        if filename = [] then None
        else let filename = (if last filename = CHR 0x0A then butlast filename else filename) in
          if is_file_marked_executable fs filename
          then (case is_file_executable fs filename of
                  None \<Rightarrow> None
                | Some True \<Rightarrow> find_main fs s out
                | Some False \<Rightarrow> find_main fs s (out @ filename @ [CHR 0x0A]))
          else find_main fs s out)"
  by pat_completeness auto
termination
  by (relation "measure (\<lambda>(fs, s, out). length s)") (auto simp: fgets_def Let_def max_file_name_def)

declare find_main.simps(2) [simp del]

subsection \<open>What an executable file is\<close>

definition interpreter :: "char list \<Rightarrow> char list" where
  "interpreter contents = takeWhile (\<lambda>c. c \<noteq> CHR 0x0A \<and> c \<noteq> CHR '' '') (drop 2 (take buffer_size contents))"

definition is_script :: "char list \<Rightarrow> bool" where
  "is_script contents \<longleftrightarrow> begins ''#!'' contents \<and> 3 \<le> length contents"

definition can_run :: "filesystem \<Rightarrow> char list \<Rightarrow> bool" where
  "can_run fs filename \<longleftrightarrow>
     (\<exists>contents. readable fs filename = Some contents \<and>
        (begins magic_elf contents \<or>
         is_script contents \<and> is_file_marked_executable fs (cstr (interpreter contents))))"

definition invalid :: "filesystem \<Rightarrow> char list \<Rightarrow> bool" where
  "invalid fs filename \<longleftrightarrow> is_file_marked_executable fs filename \<and> \<not> can_run fs filename"

lemma copy_interpreter_name:
  "copy_interpreter cs name =
     (let w = name @ takeWhile (\<lambda>c. c \<noteq> CHR 0x0A \<and> c \<noteq> CHR '' '') cs in
      if length w < max_file_name then Some (w @ [NUL]) else None)"
proof (induction cs name rule: copy_interpreter.induct)
  case (2 c cs name)
  then show ?case by (auto simp: Let_def)
qed (simp add: Let_def)

lemma cstr_snoc_NUL: "cstr (w @ [NUL]) = cstr w"
  by (induction w) auto

lemma is_correct_interpreted_file_result:
  "is_correct_interpreted_file fs contents =
     (if is_script contents
      then if length (interpreter contents) < max_file_name
           then Some (is_file_marked_executable fs (cstr (interpreter contents))) else None
      else Some False)"
proof (cases "length contents < 3")
  case False
  then obtain a b c cs where c: "contents = a # b # c # cs"
    by (metis (no_types, lifting) One_nat_def Suc_1 length_Cons less_Suc_eq_0_disj list.size(3) neq_Nil_conv numeral_3_eq_3 not_less_eq zero_less_Suc)
  have "\<not> length (take buffer_size contents) < 3" using False by (simp add: buffer_size_def)
  moreover have "take buffer_size contents ! 0 = a" "take buffer_size contents ! 1 = b"
    by (simp_all add: c buffer_size_def)
  ultimately show ?thesis
    by (auto simp: is_correct_interpreted_file_def Let_def is_script_def begins_def copy_interpreter_name interpreter_def
        cstr_snoc_NUL c)
qed (simp add: is_correct_interpreted_file_def is_script_def Let_def buffer_size_def)

lemma length_magic: "length magic_elf = 4"
  by (simp add: magic_elf_def)

lemma is_file_executable_result:
  "is_file_executable fs filename =
     (case readable fs filename of
        None \<Rightarrow> Some False
      | Some contents \<Rightarrow>
          if \<not> begins magic_elf contents \<and> is_script contents \<and> max_file_name \<le> length (interpreter contents) then None
          else Some (can_run fs filename))"
proof (cases "readable fs filename")
  case (Some contents)
  have "is_correct_elf_file contents = begins magic_elf contents"
    unfolding is_correct_elf_file_def begins_def Let_def by (metis length_magic)
  then show ?thesis using Some
    by (auto simp: is_file_executable_def is_correct_interpreted_file_result can_run_def)
qed (simp add: is_file_executable_def)

subsection \<open>The loop\<close>

lemma fgets_line:
  assumes "CHR 0x0A \<notin> set f" "length f < n - 1"
  shows "fgets n (f @ CHR 0x0A # s) = (f @ [CHR 0x0A], s)"
proof -
  have "takeWhile (\<lambda>c. c \<noteq> CHR 0x0A) (f @ CHR 0x0A # s) = f"
    using assms(1) by (subst takeWhile_append2) auto
  moreover have "min (n - 1) (length f + 1) = length f + 1" using assms(2) by simp
  ultimately show ?thesis by (simp add: fgets_def Let_def)
qed

definition name_ok :: "char list \<Rightarrow> bool" where
  "name_ok f \<longleftrightarrow> CHR 0x0A \<notin> set f \<and> NUL \<notin> set f \<and> length f < max_file_name - 1"

text \<open>A script with an interpreter line that does not fit the array.\<close>

definition overruns :: "filesystem \<Rightarrow> char list \<Rightarrow> bool" where
  "overruns fs f \<longleftrightarrow> is_file_marked_executable fs f \<and> is_file_executable fs f = None"

lemma find_main_line:
  assumes "name_ok f"
  shows "find_main fs (f @ CHR 0x0A # s) out =
    (if overruns fs f then None else find_main fs s (if invalid fs f then out @ f @ [CHR 0x0A] else out))"
proof -
  obtain c cs where c: "f @ CHR 0x0A # s = c # cs" by (cases f) auto
  have g: "fgets max_file_name (c # cs) = (f @ [CHR 0x0A], s)"
    using fgets_line[of f max_file_name s] assms c by (simp add: name_ok_def)
  have n: "cstr (f @ [CHR 0x0A]) = f @ [CHR 0x0A]"
    by (rule cstr_no_NUL) (use assms in \<open>simp add: name_ok_def NUL_def\<close>)
  have r: "is_file_executable fs f = None \<or> is_file_executable fs f = Some (can_run fs f)"
    using is_file_executable_result[of fs f] by (auto simp: can_run_def split: option.splits if_splits)
  show ?thesis
    unfolding c by (subst find_main.simps(2)) (use g n r in \<open>auto simp: overruns_def invalid_def split: bool.splits\<close>)
qed

lemma find_main_lines:
  assumes "\<forall>f\<in>set files. name_ok f"
  shows "find_main fs (concat (map (\<lambda>f. f @ [CHR 0x0A]) files)) out =
    (if \<exists>f\<in>set files. overruns fs f then None
     else Some (out @ concat (map (\<lambda>f. f @ [CHR 0x0A]) (filter (invalid fs) files))))"
  using assms
proof (induction files arbitrary: out)
  case (Cons f files)
  then show ?case
    using find_main_line[of f fs "concat (map (\<lambda>f. f @ [CHR 0x0A]) files)" out] by simp
qed simp

subsection \<open>Properties\<close>

text \<open>
  C36: For lines of less than 4999 characters the program prints, in order, exactly the files that are marked executable
  and can not run: those that cannot be read, or are neither an ELF file nor a script whose interpreter is marked executable.
  It overruns an array exactly when a file that is marked executable is a script whose interpreter line has
  at least 5000 characters.
\<close>

theorem find_main_prints_invalid:
  assumes "\<forall>f\<in>set files. name_ok f"
  shows "find_main fs (concat (map (\<lambda>f. f @ [CHR 0x0A]) files)) [] =
      (if \<exists>f\<in>set files. overruns fs f then None
       else Some (concat (map (\<lambda>f. f @ [CHR 0x0A]) (filter (invalid fs) files))))
    \<and> (\<forall>f. overruns fs f \<longleftrightarrow> is_file_marked_executable fs f \<and>
        (\<exists>contents. readable fs f = Some contents \<and> is_script contents \<and> 5000 \<le> length (interpreter contents)))"
proof -
  have "\<not> (begins magic_elf contents \<and> is_script contents)" for contents
  proof (cases contents)
    case (Cons c cs)
    then show ?thesis by (auto simp: begins_def magic_elf_def is_script_def)
  qed (simp add: is_script_def)
  then have "overruns fs f \<longleftrightarrow> is_file_marked_executable fs f \<and>
        (\<exists>contents. readable fs f = Some contents \<and> is_script contents \<and> 5000 \<le> length (interpreter contents))" for f
    using is_file_executable_result[of fs f] by (auto simp: overruns_def max_file_name_def split: option.splits if_splits)
  then show ?thesis using find_main_lines[OF assms, of fs "[]"] by auto
qed

definition sample_files :: filesystem where
  "sample_files =
     \<lparr>file_stat = (\<lambda>f. if f = ''/bin/x'' then None else Some \<lparr>regular = True, user_exec = True, group_exec = False\<rparr>),
      readable = (\<lambda>f. Some (if f = ''a'' then ''#!/bin/x'' @ [CHR 0x0A] else ''#!/bin/sh -e''))\<rparr>"

theorem find_main_prints_invalid_witness:
  "find_main sample_files (''a'' @ [CHR 0x0A] @ ''b'' @ [CHR 0x0A]) [] = Some (''a'' @ [CHR 0x0A])"
proof -
  have ok: "\<forall>f\<in>set [''a'', ''b'']. name_ok f" by (simp add: name_ok_def NUL_def max_file_name_def)
  have i: "interpreter (''#!/bin/x'' @ [CHR 0x0A]) = ''/bin/x''" "interpreter ''#!/bin/sh -e'' = ''/bin/sh''"
    by (simp_all add: interpreter_def buffer_size_def)
  have "\<not> overruns sample_files f" for f
    using is_file_executable_result[of sample_files f] i by (simp add: overruns_def sample_files_def max_file_name_def)
  moreover have "invalid sample_files ''a''" "\<not> invalid sample_files ''b''"
    using i by (simp_all add: invalid_def can_run_def sample_files_def is_file_marked_executable_def is_script_def begins_def
      magic_elf_def NUL_def)
  ultimately show ?thesis using find_main_prints_invalid[OF ok, of sample_files] by simp
qed

end
