(* ===== verification/GccOutput.thy ===== *)
theory GccOutput
  imports HttpServer
begin

section \<open>process-gcc-output: counting the lines with errors and warnings\<close>

text \<open>
  \<^verbatim>\<open>inf15-2_posix_pipe_process-gcc-output-2/main.c\<close>.  The compiler runs as a child process whose output the
  program reads line by line; it prints how many lines of the source have errors and how many have warnings.  What
  the compiler prints is a parameter.  A line is held with its terminating NUL; a pointer into it
  is the rest of it, and a read behind its end is \<open>None\<close>.

  The property: for the diagnostics of the compiler the numbers are those of the runs of equal line numbers,
  and of the different lines when the diagnostics are in the order of the lines.
\<close>

subsection \<open>The program\<close>

text \<open>\<^verbatim>\<open>strtol\<close> in base 10: the value and where the conversion ended.\<close>

definition strtol :: "char list \<Rightarrow> int \<times> char list" where
  "strtol s =
     (let t = dropWhile is_ws s;
          neg = (t \<noteq> [] \<and> hd t = CHR ''-'');
          u = (if t \<noteq> [] \<and> (hd t = CHR ''-'' \<or> hd t = CHR ''+'') then tl t else t);
          ds = takeWhile is_digit u
      in if ds = [] then (0, s)
         else (max (- (2 ^ 63)) (min (2 ^ 63 - 1) (if neg then - int (dec_val ds) else int (dec_val ds))),
               dropWhile is_digit u))"

definition advance :: "nat \<Rightarrow> char list \<Rightarrow> char list option" where
  "advance k s = (if k < length s then Some (drop k s) else None)"

record counters =
  error_lines :: int
  warning_lines :: int
  last_err_no :: int
  last_warn_no :: int

text \<open>The body of the loop; \<^verbatim>\<open>strncmp\<close> compares with a text that has no NUL.\<close>

definition handle_line :: "char list \<Rightarrow> char list \<Rightarrow> counters \<Rightarrow> counters option" where
  "handle_line program_name ln st =
     (if \<not> begins program_name ln then Some st
      else do {
        p \<leftarrow> advance (length program_name + 1) ln;
        let (str_no, line_ptr) = strtol p;
        let str_no = to_i32 str_no;
        if str_no = 0 then Some st
        else do {
          p \<leftarrow> advance 1 line_ptr;
          let (_, line_ptr) = strtol p;
          line_ptr \<leftarrow> advance 2 line_ptr;
          let st = (if begins ''error'' line_ptr
                    then st\<lparr>error_lines := error_lines st + (if str_no \<noteq> last_err_no st then 1 else 0), last_err_no := str_no\<rparr>
                    else st);
          Some (if begins ''warning'' line_ptr
                then st\<lparr>warning_lines := warning_lines st + (if str_no \<noteq> last_warn_no st then 1 else 0), last_warn_no := str_no\<rparr>
                else st)
        }
      })"

fun line_loop :: "char list \<Rightarrow> char list list \<Rightarrow> counters \<Rightarrow> counters option" where
  "line_loop program_name [] st = Some st"
| "line_loop program_name (ln # lns) st =
     Option.bind (handle_line program_name (ln @ [NUL]) st) (line_loop program_name lns)"

text \<open>
  \<open>args\<close> are the arguments behind the name of the program; \<open>forked\<close> is whether \<^verbatim>\<open>fork\<close> succeeds and \<open>gcc_output\<close> the lines
  that \<^verbatim>\<open>getline\<close> delivers.
\<close>

definition gcc_main :: "char list list \<Rightarrow> bool \<Rightarrow> (char list \<Rightarrow> char list list) \<Rightarrow> (int \<times> char list) option" where
  "gcc_main args forked gcc_output =
     (case args of
        [] \<Rightarrow> Some (1, [])
      | program_name # _ \<Rightarrow>
          if \<not> forked then Some (1, [])
          else map_option (\<lambda>st. (0, decimal (error_lines st) @ '' '' @ decimal (warning_lines st) @ [CHR 0x0A]))
                 (line_loop program_name (gcc_output program_name)
                    \<lparr>error_lines = 0, warning_lines = 0, last_err_no = - 1, last_warn_no = - 1\<rparr>))"

subsection \<open>The diagnostics of the compiler\<close>

text \<open>
  A diagnostic with its line and column, a line about a function, which has a text instead of a number, and any line that does not
  begin with the name of the file.
\<close>

datatype diagnostic =
    Diagnostic nat nat "char list"
  | InFunction "char list"
  | Other "char list"

fun show_diagnostic :: "char list \<Rightarrow> diagnostic \<Rightarrow> char list" where
  "show_diagnostic name (Diagnostic l c msg) =
     name @ '':'' @ dec_digits l @ '':'' @ dec_digits c @ '': '' @ msg @ [CHR 0x0A]"
| "show_diagnostic name (InFunction t) = name @ '': '' @ t @ [CHR 0x0A]"
| "show_diagnostic name (Other t) = t"

fun diagnostic_ok :: "char list \<Rightarrow> diagnostic \<Rightarrow> bool" where
  "diagnostic_ok name (Diagnostic l c msg) = (0 < l \<and> l < 2 ^ 31)"
| "diagnostic_ok name (InFunction t) =
     (t \<noteq> [] \<and> \<not> is_digit (hd t) \<and> \<not> is_ws (hd t) \<and> hd t \<noteq> CHR ''-'' \<and> hd t \<noteq> CHR ''+'')"
| "diagnostic_ok name (Other t) = (\<not> begins name (t @ [NUL]))"

text \<open>The line numbers of the diagnostics with a given kind, in order.\<close>

fun lines_with :: "char list \<Rightarrow> diagnostic list \<Rightarrow> nat list" where
  "lines_with kind [] = []"
| "lines_with kind (Diagnostic l c msg # ds) = (if begins kind msg then l # lines_with kind ds else lines_with kind ds)"
| "lines_with kind (_ # ds) = lines_with kind ds"

subsection \<open>Reading a diagnostic\<close>

lemma advance_app: "length w = k \<Longrightarrow> s \<noteq> [] \<Longrightarrow> advance k (w @ s) = Some s"
  by (simp add: advance_def)

lemma begins_app: "begins w (w @ s)"
  by (simp add: begins_def)

lemma begins_end: "c \<notin> set w \<Longrightarrow> begins w (s @ c # t) = begins w s"
proof (induction w arbitrary: s)
  case (Cons a w)
  then show ?case by (cases s) (auto simp: begins_def)
qed (simp add: begins_def)

lemma strtol_digits:
  assumes "d \<noteq> []" "\<forall>c\<in>set d. is_digit c" "\<not> is_digit c"
  shows "strtol (d @ c # s) = (min (2 ^ 63 - 1) (int (dec_val d)), c # s)"
proof -
  obtain x xs where d: "d = x # xs" "is_digit x" using assms(1,2) by (cases d) auto
  then have x: "\<not> is_ws x" "x \<noteq> CHR ''-''" "x \<noteq> CHR ''+''" using digit_not_ws by (auto simp: is_digit_def)
  have "takeWhile is_digit (d @ c # s) = d" "dropWhile is_digit (d @ c # s) = c # s"
    using assms(2,3) by (simp_all add: takeWhile_append2 dropWhile_append2)
  moreover have "dropWhile is_ws (d @ c # s) = d @ c # s" using d x by simp
  ultimately show ?thesis using d(1) x by (simp add: strtol_def Let_def)
qed

lemma strtol_text:
  assumes "t \<noteq> []" "\<not> is_digit (hd t)" "\<not> is_ws (hd t)" "hd t \<noteq> CHR ''-''" "hd t \<noteq> CHR ''+''"
  shows "fst (strtol ('' '' @ t @ s)) = 0"
proof -
  obtain c cs where "t = c # cs" using assms(1) by (cases t) auto
  then show ?thesis using assms(2-5) newline_char by (simp add: strtol_def Let_def)
qed

definition counted :: "nat \<Rightarrow> char list \<Rightarrow> counters \<Rightarrow> counters" where
  "counted l msg st =
     (if begins ''error'' msg
      then st\<lparr>error_lines := error_lines st + (if int l \<noteq> last_err_no st then 1 else 0), last_err_no := int l\<rparr>
      else if begins ''warning'' msg
      then st\<lparr>warning_lines := warning_lines st + (if int l \<noteq> last_warn_no st then 1 else 0), last_warn_no := int l\<rparr>
      else st)"

lemma handle_diagnostic:
  assumes "0 < l" "l < 2 ^ 31"
  shows "handle_line name (show_diagnostic name (Diagnostic l c msg) @ [NUL]) st = Some (counted l msg st)"
proof -
  let ?m = "msg @ [CHR 0x0A, NUL]"
  let ?ln = "name @ '':'' @ dec_digits l @ CHR '':'' # dec_digits c @ CHR '':'' # '' '' @ ?m"
  have ln: "show_diagnostic name (Diagnostic l c msg) @ [NUL] = ?ln" by simp
  have nd: "\<not> is_digit (CHR '':'')" by (simp add: is_digit_def)
  have "advance (length name + 1) ?ln = Some (dec_digits l @ CHR '':'' # dec_digits c @ CHR '':'' # '' '' @ ?m)"
    using advance_app[of "name @ '':''" "length name + 1"] by simp
  moreover have "strtol (dec_digits l @ CHR '':'' # dec_digits c @ CHR '':'' # '' '' @ ?m)
      = (int l, CHR '':'' # dec_digits c @ CHR '':'' # '' '' @ ?m)"
    using strtol_digits[OF dec_digits_nonempty dec_digits_are_digits nd] dec_val_digits[of l] assms(2) by (simp add: min_def)
  moreover have "to_i32 (int l) = int l" using assms(2) by (simp add: is_i32_def)
  moreover have "advance 1 (CHR '':'' # dec_digits c @ CHR '':'' # '' '' @ ?m) = Some (dec_digits c @ CHR '':'' # '' '' @ ?m)"
    by (simp add: advance_def)
  moreover have "snd (strtol (dec_digits c @ CHR '':'' # '' '' @ ?m)) = CHR '':'' # '' '' @ ?m"
    using strtol_digits[OF dec_digits_nonempty dec_digits_are_digits nd] by simp
  moreover have "advance 2 (CHR '':'' # '' '' @ ?m) = Some ?m" by (simp add: advance_def)
  moreover have "begins ''error'' ?m = begins ''error'' msg" "begins ''warning'' ?m = begins ''warning'' msg"
    by (simp_all add: begins_end)
  moreover have "\<not> (begins ''error'' msg \<and> begins ''warning'' msg)"
    by (cases msg) (auto simp: begins_def)
  ultimately show ?thesis
    unfolding ln handle_line_def using assms(1) begins_app[of name]
    by (auto simp: counted_def case_prod_unfold Let_def)
qed

lemma handle_other:
  assumes "diagnostic_ok name d" "\<nexists>l c msg. d = Diagnostic l c msg"
  shows "handle_line name (show_diagnostic name d @ [NUL]) st = Some st"
proof (cases d)
  case (InFunction t)
  have "advance (length name + 1) (name @ '': '' @ t @ [CHR 0x0A] @ [NUL]) = Some ('' '' @ t @ [CHR 0x0A] @ [NUL])"
    using advance_app[of "name @ '':''" "length name + 1"] by simp
  moreover have "fst (strtol ('' '' @ t @ [CHR 0x0A] @ [NUL])) = 0"
    using assms(1) InFunction by (intro strtol_text) auto
  ultimately show ?thesis
    using begins_app[of name] by (simp add: InFunction handle_line_def case_prod_unfold is_i32_def)
next
  case (Other t)
  then show ?thesis using assms(1) by (simp add: handle_line_def)
qed (use assms(2) in auto)

text \<open>How often the numbers of a list differ from the one before, beginning with \<open>p\<close>.\<close>

fun runs :: "int \<Rightarrow> nat list \<Rightarrow> nat" where
  "runs p [] = 0"
| "runs p (l # ls) = (if int l \<noteq> p then 1 else 0) + runs (int l) ls"

lemma line_loop_counts:
  assumes "\<forall>d\<in>set ds. diagnostic_ok name d"
  shows "\<exists>st'. line_loop name (map (show_diagnostic name) ds) st = Some st'
    \<and> error_lines st' = error_lines st + int (runs (last_err_no st) (lines_with ''error'' ds))
    \<and> warning_lines st' = warning_lines st + int (runs (last_warn_no st) (lines_with ''warning'' ds))"
  using assms
proof (induction ds arbitrary: st)
  case (Cons d ds)
  show ?case
  proof (cases d)
    case (Diagnostic l c msg)
    have h: "handle_line name (show_diagnostic name d @ [NUL]) st = Some (counted l msg st)"
      using handle_diagnostic Cons.prems Diagnostic by simp
    have one: "\<not> (begins ''error'' msg \<and> begins ''warning'' msg)"
      by (cases msg) (auto simp: begins_def)
    obtain st' where st': "line_loop name (map (show_diagnostic name) ds) (counted l msg st) = Some st'"
      "error_lines st' = error_lines (counted l msg st) + int (runs (last_err_no (counted l msg st)) (lines_with ''error'' ds))"
      "warning_lines st' = warning_lines (counted l msg st) + int (runs (last_warn_no (counted l msg st)) (lines_with ''warning'' ds))"
      using Cons.IH[of "counted l msg st"] Cons.prems by auto
    have "line_loop name (map (show_diagnostic name) (d # ds)) st = Some st'"
      using h st'(1) by (simp del: show_diagnostic.simps)
    then show ?thesis using st'(2,3) one Diagnostic by (auto simp: counted_def split: if_splits)
  next
    case (InFunction t)
    then show ?thesis using handle_other[of name d st] Cons by auto
  next
    case (Other t)
    then show ?thesis using handle_other[of name d st] Cons by auto
  qed
qed simp

lemma runs_remdups: "runs p (l # ls) + 1 = (if int l \<noteq> p then 1 else 0) + length (remdups_adj (l # ls))"
proof (induction ls arbitrary: p l)
  case (Cons m ls)
  show ?case using Cons[of "int l" m] by auto
qed simp

lemma runs_start: "\<forall>l\<in>set ls. p \<noteq> int l \<Longrightarrow> runs p ls = length (remdups_adj ls)"
proof (cases ls)
  case (Cons l t)
  assume "\<forall>l\<in>set ls. p \<noteq> int l"
  then have "runs p ls + 1 = 1 + length (remdups_adj ls)" unfolding Cons runs_remdups by simp
  then show ?thesis by simp
qed simp

lemma length_remdups_adj_sorted: "sorted ls \<Longrightarrow> length (remdups_adj ls) = card (set (ls :: nat list))"
proof (induction ls rule: remdups_adj.induct)
  case (3 x y xs)
  show ?case
  proof (cases "x = y")
    case False
    then have "x \<notin> set (y # xs)" using 3(3) by auto
    then show ?thesis using 3 False by simp
  qed (use 3 in auto)
qed simp_all

subsection \<open>Properties\<close>

text \<open>
  C37: For the diagnostics of a compilation the program prints the number of runs of equal lines among those with errors and among
  those with warnings.  When the diagnostics come in the order of the lines, these are the numbers of different lines
  with errors and with warnings.
\<close>

theorem gcc_main_counts_lines:
  assumes "\<forall>d\<in>set ds. diagnostic_ok name d" and "gcc_output name = map (show_diagnostic name) ds"
  shows "gcc_main (name # args) True gcc_output =
      Some (0, decimal (int (length (remdups_adj (lines_with ''error'' ds)))) @ '' ''
        @ decimal (int (length (remdups_adj (lines_with ''warning'' ds)))) @ [CHR 0x0A])
    \<and> (sorted (lines_with kind ds) \<longrightarrow> length (remdups_adj (lines_with kind ds)) = card (set (lines_with kind ds)))"
proof -
  have "\<forall>l\<in>set (lines_with kind ds). (- 1 :: int) \<noteq> int l" for kind by simp
  then have "runs (- 1) (lines_with kind ds) = length (remdups_adj (lines_with kind ds))" for kind
    by (rule runs_start)
  then show ?thesis
    using line_loop_counts[OF assms(1), of "\<lparr>error_lines = 0, warning_lines = 0, last_err_no = - 1, last_warn_no = - 1\<rparr>"]
      assms(2) length_remdups_adj_sorted by (auto simp: gcc_main_def)
qed

theorem gcc_main_counts_lines_witness:
  "gcc_main [''f.c''] True (\<lambda>_. [''f.c: In function x'' @ [CHR 0x0A], ''f.c:3:1: error: a'' @ [CHR 0x0A],
     ''f.c:3:9: error: b'' @ [CHR 0x0A], ''f.c:7:2: warning: c'' @ [CHR 0x0A]]) = Some (0, ''1 1'' @ [CHR 0x0A])"
proof -
  let ?ds = "[InFunction ''In function x'', Diagnostic 3 1 ''error: a'', Diagnostic 3 9 ''error: b'', Diagnostic 7 2 ''warning: c'']"
  have ok: "\<forall>d\<in>set ?ds. diagnostic_ok ''f.c'' d" by (simp add: is_digit_def is_ws_def)
  have "map (show_diagnostic ''f.c'') ?ds = [''f.c: In function x'' @ [CHR 0x0A], ''f.c:3:1: error: a'' @ [CHR 0x0A],
     ''f.c:3:9: error: b'' @ [CHR 0x0A], ''f.c:7:2: warning: c'' @ [CHR 0x0A]]" by code_simp
  moreover have "decimal 1 = ''1''" by code_simp
  moreover have "lines_with ''error'' ?ds = [3, 3]" "lines_with ''warning'' ?ds = [7]" by (simp_all add: begins_def)
  ultimately show ?thesis
    using gcc_main_counts_lines[OF ok, of "\<lambda>_. map (show_diagnostic ''f.c'') ?ds" "[]" "[]"]
    by (simp del: show_diagnostic.simps list.map lines_with.simps)
qed

end
