(* ===== verification/MutexAdd.thy ===== *)
theory MutexAdd
  imports Prelude
begin

section \<open>threads_mutex: many threads add to the cells of one array\<close>

text \<open>
  \<^verbatim>\<open>inf19-0_posix_threads_mutex/main.c\<close>.  Thread \<open>t\<close> adds \<^verbatim>\<open>N\<close> times .99 to the cell before its own, 1 to its own and
  1.01 to the one behind it, in a ring of \<open>K\<close> cells under one mutex.  Every addition is a load and a store, and the
  threads interleave between them.  The numbers are of any type with an addition, about which nothing is
  assumed: addition of \<^verbatim>\<open>double\<close> is not associative, so the result depends on the order.

  The property: no addition is lost.  In every interleaving the value of a cell is obtained by adding, in some order,
  each of the three numbers exactly \<open>N\<close> times; and the program ends.
\<close>

subsection \<open>The program\<close>

datatype 'd routine_pc = RNone | RTest | RLoad nat | RStore nat 'd | RUnlock | REnd

datatype main_pc = MCreate nat | MJoin nat | MPrint

record 'd add_state =
  mutex :: "nat option"
  cells :: "nat \<Rightarrow> 'd"
  rounds :: "nat \<Rightarrow> nat"
  rpc :: "nat \<Rightarrow> 'd routine_pc"
  mpc :: main_pc

definition cell :: "nat \<Rightarrow> nat \<Rightarrow> nat \<Rightarrow> nat" where
  "cell K t j = (if j = 0 then (t + K - 1) mod K else if j = 1 then t else (t + K + 1) mod K)"

text \<open>The three numbers of the source.\<close>

record 'd arithmetic =
  plus_d :: "'d \<Rightarrow> 'd \<Rightarrow> 'd"
  zero_d :: 'd
  addend :: "nat \<Rightarrow> 'd"

text \<open>One step of thread \<open>t\<close>; \<open>None\<close> when it waits for the mutex or has ended.\<close>

definition routine_step :: "'d arithmetic \<Rightarrow> nat \<Rightarrow> nat \<Rightarrow> nat \<Rightarrow> 'd add_state \<Rightarrow> 'd add_state option" where
  "routine_step A K N t s =
     (case rpc s t of
        RNone \<Rightarrow> None
      | RTest \<Rightarrow>
          if rounds s t < N
          then (if mutex s = None then Some (s\<lparr>mutex := Some t, rpc := (rpc s)(t := RLoad 0)\<rparr>) else None)
          else Some (s\<lparr>rpc := (rpc s)(t := REnd)\<rparr>)
      | RLoad j \<Rightarrow> Some (s\<lparr>rpc := (rpc s)(t := RStore j (plus_d A (cells s (cell K t j)) (addend A j)))\<rparr>)
      | RStore j v \<Rightarrow>
          Some (s\<lparr>cells := (cells s)(cell K t j := v), rpc := (rpc s)(t := (if j < 2 then RLoad (j + 1) else RUnlock))\<rparr>)
      | RUnlock \<Rightarrow> Some (s\<lparr>mutex := None, rounds := (rounds s)(t := rounds s t + 1), rpc := (rpc s)(t := RTest)\<rparr>)
      | REnd \<Rightarrow> None)"

definition main_step :: "nat \<Rightarrow> 'd add_state \<Rightarrow> 'd add_state option" where
  "main_step K s =
     (case mpc s of
        MCreate i \<Rightarrow> Some (if i < K then s\<lparr>rpc := (rpc s)(i := RTest), mpc := MCreate (i + 1)\<rparr> else s\<lparr>mpc := MJoin 0\<rparr>)
      | MJoin i \<Rightarrow> if i < K then (if rpc s i = REnd then Some (s\<lparr>mpc := MJoin (i + 1)\<rparr>) else None) else Some (s\<lparr>mpc := MPrint\<rparr>)
      | MPrint \<Rightarrow> None)"

definition add_start :: "'d arithmetic \<Rightarrow> 'd add_state" where
  "add_start A = \<lparr>mutex = None, cells = (\<lambda>_. zero_d A), rounds = (\<lambda>_. 0), rpc = (\<lambda>_. RNone), mpc = MCreate 0\<rparr>"

text \<open>What \<^verbatim>\<open>main\<close> prints.\<close>

definition printed_cells :: "nat \<Rightarrow> 'd add_state \<Rightarrow> 'd list" where
  "printed_cells K s = map (cells s) [0..<K]"

inductive add_step :: "'d arithmetic \<Rightarrow> nat \<Rightarrow> nat \<Rightarrow> 'd add_state \<Rightarrow> 'd add_state \<Rightarrow> bool" for A K N where
  main: "main_step K s = Some s' \<Longrightarrow> add_step A K N s s'"
| thread: "t < K \<Longrightarrow> routine_step A K N t s = Some s' \<Longrightarrow> add_step A K N s s'"

inductive_cases add_stepE: "add_step A K N s s'"

inductive add_reach :: "'d arithmetic \<Rightarrow> nat \<Rightarrow> nat \<Rightarrow> 'd add_state \<Rightarrow> bool" for A K N where
  start: "add_reach A K N (add_start A)"
| step: "add_reach A K N s \<Longrightarrow> add_step A K N s s' \<Longrightarrow> add_reach A K N s'"

subsection \<open>The invariant\<close>

fun critical :: "'d routine_pc \<Rightarrow> bool" where
  "critical (RLoad j) = True"
| "critical (RStore j v) = True"
| "critical RUnlock = True"
| "critical _ = False"

text \<open>Whether the addition \<open>j\<close> of the current round has been stored.\<close>

fun stored :: "'d routine_pc \<Rightarrow> nat \<Rightarrow> nat" where
  "stored (RLoad i) j = (if j < i then 1 else 0)"
| "stored (RStore i v) j = (if j < i then 1 else 0)"
| "stored RUnlock j = 1"
| "stored _ j = 0"

text \<open>What has been added to cell \<open>k\<close> so far.\<close>

definition added :: "'d arithmetic \<Rightarrow> nat \<Rightarrow> 'd add_state \<Rightarrow> nat \<Rightarrow> 'd multiset" where
  "added A K s k = (\<Sum>t<K. \<Sum>j<3. if cell K t j = k then replicate_mset (rounds s t + stored (rpc s t) j) (addend A j) else {#})"

definition sums_up :: "'d arithmetic \<Rightarrow> 'd multiset \<Rightarrow> 'd \<Rightarrow> bool" where
  "sums_up A M v \<longleftrightarrow> (\<exists>xs. mset xs = M \<and> v = foldl (plus_d A) (zero_d A) xs)"

definition mutex_inv :: "nat \<Rightarrow> nat \<Rightarrow> 'd add_state \<Rightarrow> bool" where
  "mutex_inv K N s \<longleftrightarrow>
     (\<forall>t. critical (rpc s t) \<longleftrightarrow> mutex s = Some t) \<and> (\<forall>t. mutex s = Some t \<longrightarrow> t < K)
     \<and> (\<forall>t j. (rpc s t = RLoad j \<or> (\<exists>v. rpc s t = RStore j v)) \<longrightarrow> j < 3)
     \<and> (\<forall>t. rounds s t \<le> N \<and> (critical (rpc s t) \<longrightarrow> rounds s t < N) \<and> (rpc s t = REnd \<longrightarrow> rounds s t = N))"

definition cells_inv :: "'d arithmetic \<Rightarrow> nat \<Rightarrow> 'd add_state \<Rightarrow> bool" where
  "cells_inv A K s \<longleftrightarrow>
     (\<forall>k<K. sums_up A (added A K s k) (cells s k))
     \<and> (\<forall>t j v. rpc s t = RStore j v \<longrightarrow> v = plus_d A (cells s (cell K t j)) (addend A j))"

definition main_inv :: "nat \<Rightarrow> 'd add_state \<Rightarrow> bool" where
  "main_inv K s \<longleftrightarrow>
     (case mpc s of
        MCreate i \<Rightarrow> i \<le> K \<and> (\<forall>t. rpc s t = RNone \<longleftrightarrow> i \<le> t)
      | MJoin i \<Rightarrow> i \<le> K \<and> (\<forall>t. rpc s t = RNone \<longleftrightarrow> K \<le> t) \<and> (\<forall>t<i. rpc s t = REnd)
      | MPrint \<Rightarrow> \<forall>t<K. rpc s t = REnd)"

lemma cell_less: "0 < K \<Longrightarrow> t < K \<Longrightarrow> cell K t j < K"
  by (simp add: cell_def)

subsection \<open>What a step adds\<close>

definition contribution :: "'d arithmetic \<Rightarrow> nat \<Rightarrow> nat \<Rightarrow> nat \<Rightarrow> nat \<Rightarrow> 'd routine_pc \<Rightarrow> 'd multiset" where
  "contribution A K k t r p = (\<Sum>j<3. if cell K t j = k then replicate_mset (r + stored p j) (addend A j) else {#})"

lemma added_contribution: "added A K s k = (\<Sum>t<K. contribution A K k t (rounds s t) (rpc s t))"
  by (simp add: added_def contribution_def)

lemma added_move:
  assumes "t < K" "\<forall>u. u \<noteq> t \<longrightarrow> rounds s' u = rounds s u \<and> rpc s' u = rpc s u"
    and "contribution A K k t (rounds s' t) (rpc s' t) = contribution A K k t (rounds s t) (rpc s t) + M"
  shows "added A K s' k = added A K s k + M"
proof -
  let ?g = "\<lambda>u. contribution A K k u (rounds s' u) (rpc s' u)" and ?f = "\<lambda>u. contribution A K k u (rounds s u) (rpc s u)"
  have "(\<Sum>u<K. ?g u) + ?f t = (\<Sum>u<K. ?f u) + ?g t"
    using assms(1,2) by (intro sum_move) auto
  then have "(\<Sum>u<K. ?g u) + ?f t = (\<Sum>u<K. ?f u) + M + ?f t" using assms(3) by (simp add: ac_simps)
  then show ?thesis by (simp add: added_contribution)
qed

lemma sum_3: "(\<Sum>j<3. f j) = f 0 + f 1 + f (2 :: nat)" for f :: "nat \<Rightarrow> 'a::comm_monoid_add"
  by (simp add: numeral_3_eq_3 numeral_2_eq_2)

lemma stored_store:
  assumes "j < 3"
  shows "contribution A K k t r (if j < 2 then RLoad (j + 1) else RUnlock)
    = contribution A K k t r (RStore j v) + (if cell K t j = k then {#addend A j#} else {#})"
proof -
  have "j = 0 \<or> j = 1 \<or> j = 2" using assms by linarith
  then show ?thesis by (auto simp: contribution_def sum_3)
qed

lemma contribution_same:
  "contribution A K k t r (RLoad 0) = contribution A K k t r RTest"
  "contribution A K k t r REnd = contribution A K k t r RTest"
  "contribution A K k t r RTest = contribution A K k t r RNone"
  "contribution A K k t r (RStore j v) = contribution A K k t r (RLoad j)"
  "contribution A K k t (Suc r) RTest = contribution A K k t r RUnlock"
  unfolding contribution_def by (intro sum.cong refl, simp)+

lemma sums_up_add: "sums_up A M v \<Longrightarrow> sums_up A (M + {#a#}) (plus_d A v a)"
  unfolding sums_up_def by (metis foldl_Cons foldl_Nil foldl_append mset.simps mset_append)

subsection \<open>Every step keeps the invariant\<close>

lemma routine_stepE:
  assumes "routine_step A K N t s = Some s'"
  obtains (lock) "rpc s t = RTest" "rounds s t < N" "mutex s = None" "s' = s\<lparr>mutex := Some t, rpc := (rpc s)(t := RLoad 0)\<rparr>"
  | (over) "rpc s t = RTest" "\<not> rounds s t < N" "s' = s\<lparr>rpc := (rpc s)(t := REnd)\<rparr>"
  | (load) j where "rpc s t = RLoad j"
      "s' = s\<lparr>rpc := (rpc s)(t := RStore j (plus_d A (cells s (cell K t j)) (addend A j)))\<rparr>"
  | (store) j v where "rpc s t = RStore j v"
      "s' = s\<lparr>cells := (cells s)(cell K t j := v), rpc := (rpc s)(t := (if j < 2 then RLoad (j + 1) else RUnlock))\<rparr>"
  | (unlock) "rpc s t = RUnlock" "s' = s\<lparr>mutex := None, rounds := (rounds s)(t := rounds s t + 1), rpc := (rpc s)(t := RTest)\<rparr>"
  using assms by (cases "rpc s t") (auto simp: routine_step_def split: if_splits)

lemma mutex_invD:
  assumes "mutex_inv K N s"
  shows "critical (rpc s t) \<longleftrightarrow> mutex s = Some t" and "mutex s = Some t \<Longrightarrow> t < K"
    and "rpc s t = RLoad j \<Longrightarrow> j < 3" and "rpc s t = RStore j v \<Longrightarrow> j < 3"
    and "rounds s t \<le> N" and "critical (rpc s t) \<Longrightarrow> rounds s t < N" and "rpc s t = REnd \<Longrightarrow> rounds s t = N"
  using assms unfolding mutex_inv_def by blast+

lemma mutex_invI:
  assumes "\<And>t. critical (rpc s t) \<longleftrightarrow> mutex s = Some t" and "\<And>t. mutex s = Some t \<Longrightarrow> t < K"
    and "\<And>t j. rpc s t = RLoad j \<Longrightarrow> j < 3" and "\<And>t j v. rpc s t = RStore j v \<Longrightarrow> j < 3"
    and "\<And>t. rounds s t \<le> N" and "\<And>t. critical (rpc s t) \<Longrightarrow> rounds s t < N" and "\<And>t. rpc s t = REnd \<Longrightarrow> rounds s t = N"
  shows "mutex_inv K N s"
  using assms unfolding mutex_inv_def by blast

lemma routine_mutex:
  assumes inv: "mutex_inv K N s" and st: "routine_step A K N t s = Some s'" and t: "t < K"
  shows "mutex_inv K N s'"
  using st
proof (cases rule: routine_stepE)
  case lock
  have "\<not> critical (rpc s u)" for u using mutex_invD(1)[OF inv, of u] lock by simp
  then show ?thesis using lock t mutex_invD(3-7)[OF inv]
    by (intro mutex_invI) (auto split: if_splits)
next
  case over
  then have "mutex s \<noteq> Some t" using mutex_invD(1)[OF inv, of t] by auto
  moreover have "rounds s t = N" using over mutex_invD(5)[OF inv, of t] by simp
  ultimately show ?thesis using over mutex_invD[OF inv] by (intro mutex_invI) (auto split: if_splits)
next
  case (load j)
  then have "mutex s = Some t" "j < 3" using mutex_invD(1,3)[OF inv, of t] by auto
  then show ?thesis using load mutex_invD[OF inv] by (intro mutex_invI) (auto split: if_splits)
next
  case (store j v)
  then have "mutex s = Some t" "j < 3" using mutex_invD(1,4)[OF inv, of t] by auto
  then show ?thesis using store mutex_invD[OF inv] by (intro mutex_invI) (auto split: if_splits)
next
  case unlock
  then have m: "mutex s = Some t" using mutex_invD(1)[OF inv, of t] by auto
  then have "\<not> critical (rpc s u)" if "u \<noteq> t" for u using mutex_invD(1)[OF inv, of u] that by auto
  moreover have "Suc (rounds s t) \<le> N" using mutex_invD(6)[OF inv, of t] unlock by simp
  ultimately show ?thesis using unlock mutex_invD(3-7)[OF inv] by (intro mutex_invI) (auto split: if_splits)
qed

lemma routine_main:
  assumes "main_inv K s" "routine_step A K N t s = Some s'"
  shows "main_inv K s'"
proof -
  have "rpc s t \<noteq> RNone \<and> rpc s t \<noteq> REnd \<and> rpc s' t \<noteq> RNone \<and> mpc s' = mpc s \<and> (\<forall>u. u \<noteq> t \<longrightarrow> rpc s' u = rpc s u)"
    using assms(2) by (cases rule: routine_stepE) auto
  then have "rpc s' u = RNone \<longleftrightarrow> rpc s u = RNone" "rpc s u = REnd \<Longrightarrow> rpc s' u = REnd" "mpc s' = mpc s" for u
    by (cases "u = t"; auto)+
  then show ?thesis using assms(1) by (auto simp: main_inv_def split: main_pc.splits)
qed

lemma added_mpc [simp]: "added A K (s\<lparr>mpc := m\<rparr>) k = added A K s k"
  by (simp add: added_contribution)

lemma main_step_inv:
  assumes "mutex_inv K N s" "cells_inv A K s" "main_inv K s" "main_step K s = Some s'"
  shows "mutex_inv K N s' \<and> cells_inv A K s' \<and> main_inv K s'"
proof (cases "mpc s")
  case (MCreate i)
  show ?thesis
  proof (cases "i < K")
    case True
    have none: "rpc s i = RNone" using assms(3) MCreate by (simp add: main_inv_def)
    have s': "s' = s\<lparr>rpc := (rpc s)(i := RTest), mpc := MCreate (i + 1)\<rparr>"
      using assms(4) MCreate True by (simp add: main_step_def)
    have "added A K s' k = added A K s k" for k
      using added_move[of i K s' s A k "{#}"] True none by (simp add: s' contribution_same)
    then have "cells_inv A K s'" using assms(2) by (auto simp: cells_inv_def s')
    moreover have "mutex s \<noteq> Some i" using mutex_invD(1)[OF assms(1), of i] none by auto
    then have "mutex_inv K N s'"
      using mutex_invD(1,3-7)[OF assms(1)] mutex_invD(2)[OF assms(1)]
      by (intro mutex_invI) (simp_all add: s' split: if_splits)
    moreover have "rpc s' u = RNone \<longleftrightarrow> i + 1 \<le> u" for u
      using assms(3) MCreate by (cases "u = i") (simp_all add: main_inv_def s', linarith)
    then have "main_inv K s'" using True by (simp add: main_inv_def s')
    ultimately show ?thesis by blast
  next
    case False
    then have "s' = s\<lparr>mpc := MJoin 0\<rparr>" using assms(4) MCreate by (simp add: main_step_def)
    then show ?thesis using assms(1-3) MCreate False by (auto simp: mutex_inv_def cells_inv_def main_inv_def)
  qed
next
  case (MJoin i)
  then obtain m where s': "s' = s\<lparr>mpc := m\<rparr>" using assms(4) by (auto simp: main_step_def split: if_splits)
  have "mutex_inv K N s'" using mutex_invD[OF assms(1)] by (intro mutex_invI) (simp_all add: s')
  moreover have "cells_inv A K s'" using assms(2) by (simp add: cells_inv_def s')
  moreover have "main_inv K s'"
    using assms(3,4) MJoin by (auto simp: main_step_def main_inv_def less_Suc_eq split: if_splits)
  ultimately show ?thesis by blast
qed (use assms(4) in \<open>simp add: main_step_def\<close>)

lemma routine_cells:
  assumes inv: "mutex_inv K N s" "cells_inv A K s" and st: "routine_step A K N t s = Some s'" and t: "t < K"
  shows "cells_inv A K s'"
proof (cases "rpc s t")
  case (RStore j v)
  let ?c = "cell K t j"
  have s': "s' = s\<lparr>cells := (cells s)(?c := v), rpc := (rpc s)(t := (if j < 2 then RLoad (j + 1) else RUnlock))\<rparr>"
    using st RStore by (simp add: routine_step_def)
  have j: "j < 3" using mutex_invD(4)[OF inv(1) RStore] .
  have "mutex s = Some t" using mutex_invD(1)[OF inv(1), of t] RStore by simp
  then have alone: "\<not> critical (rpc s u)" if "u \<noteq> t" for u using mutex_invD(1)[OF inv(1), of u] that by auto
  have "added A K s' k = added A K s k + (if ?c = k then {#addend A j#} else {#})" for k
    using stored_store[OF j, of A K k t "rounds s t" v] RStore by (intro added_move[OF t]) (auto simp: s')
  moreover have "v = plus_d A (cells s ?c) (addend A j)" using inv(2) RStore by (auto simp: cells_inv_def)
  ultimately have "sums_up A (added A K s' k) (cells s' k)" if "k < K" for k
    using inv(2) that sums_up_add[of A "added A K s ?c" "cells s ?c" "addend A j"] by (auto simp: cells_inv_def s')
  moreover have "rpc s' u \<noteq> RStore i w" for u i w using alone[of u] by (cases "u = t") (auto simp: s')
  ultimately show ?thesis by (simp add: cells_inv_def)
next
  case (RLoad j)
  then have s': "s' = s\<lparr>rpc := (rpc s)(t := RStore j (plus_d A (cells s (cell K t j)) (addend A j)))\<rparr>"
    using st by (simp add: routine_step_def)
  have "added A K s' k = added A K s k" for k
    using added_move[OF t, of s' s A k "{#}"] RLoad by (simp add: s' contribution_same)
  then show ?thesis using inv(2) by (auto simp: cells_inv_def s')
next
  case RTest
  have "added A K s' k = added A K s k" for k
    using added_move[OF t, of s' s A k "{#}"] st RTest
    by (auto simp: routine_step_def contribution_same(1,2) split: if_splits)
  then show ?thesis using inv(2) st RTest by (auto simp: cells_inv_def routine_step_def split: if_splits)
next
  case RUnlock
  have "added A K s' k = added A K s k" for k
    using added_move[OF t, of s' s A k "{#}"] st RUnlock
    by (auto simp: routine_step_def contribution_same(5))
  then show ?thesis using inv(2) st RUnlock by (auto simp: cells_inv_def routine_step_def split: if_splits)
qed (use st in \<open>simp_all add: routine_step_def\<close>)

lemma add_reach_inv:
  assumes "add_reach A K N s"
  shows "mutex_inv K N s \<and> cells_inv A K s \<and> main_inv K s"
  using assms
proof (induction rule: add_reach.induct)
  case start
  have "added A K (add_start A) k = {#}" for k by (simp add: added_def add_start_def cong: if_cong)
  then have "sums_up A (added A K (add_start A) k) (zero_d A)" for k by (simp add: sums_up_def)
  then show ?case by (simp add: mutex_inv_def cells_inv_def main_inv_def add_start_def)
next
  case (step s s')
  show ?case
  proof (rule add_stepE[OF step.hyps(2)])
    assume "main_step K s = Some s'"
    then show ?thesis using main_step_inv[of K N s A s'] step.IH by blast
  next
    fix t
    assume "t < K" "routine_step A K N t s = Some s'"
    then show ?thesis
      using routine_mutex[of K N s A t s'] routine_cells[of K N s A t s'] routine_main[of K s A N t s'] step.IH by blast
  qed
qed

subsection \<open>The program ends\<close>

text \<open>Somebody can always move: the owner of the mutex if there is one, else a thread that has not ended, else
  \<^verbatim>\<open>main\<close>.\<close>

lemma add_not_stuck:
  assumes "add_reach A K N s" and "mpc s \<noteq> MPrint"
  shows "\<exists>s'. add_step A K N s s'"
proof (cases "main_step K s")
  case (Some s')
  then show ?thesis using add_step.main by blast
next
  case None
  note inv = add_reach_inv[OF assms(1)]
  have "\<exists>i<K. rpc s i \<noteq> REnd \<and> rpc s i \<noteq> RNone"
    using None assms(2) inv by (auto simp: main_step_def main_inv_def split: main_pc.splits if_splits)
  then obtain i where i: "i < K" "rpc s i \<noteq> REnd" "rpc s i \<noteq> RNone" by blast
  show ?thesis
  proof (cases "mutex s")
    case None
    then have "\<not> critical (rpc s i)" using mutex_invD(1)[of K N s i] inv by simp
    then have "rpc s i = RTest" using i by (cases "rpc s i") auto
    then have "\<exists>s'. routine_step A K N i s = Some s'" using None by (simp add: routine_step_def)
    then show ?thesis using i(1) add_step.thread by blast
  next
    case (Some t)
    then have "critical (rpc s t)" "t < K" using mutex_invD(1,2)[of K N s t] inv by auto
    then have "\<exists>s'. routine_step A K N t s = Some s'" by (cases "rpc s t") (simp_all add: routine_step_def)
    then show ?thesis using \<open>t < K\<close> add_step.thread by blast
  qed
qed

fun pc_rank :: "nat \<Rightarrow> 'd routine_pc \<Rightarrow> nat" where
  "pc_rank n RNone = 8 * n + 2"
| "pc_rank n RTest = 8 * n + 1"
| "pc_rank n (RLoad j) = 8 * n - 2 * j"
| "pc_rank n (RStore j v) = 8 * n - 2 * j - 1"
| "pc_rank n RUnlock = 8 * n - 6"
| "pc_rank n REnd = 0"

fun main_rank :: "nat \<Rightarrow> main_pc \<Rightarrow> nat" where
  "main_rank K (MCreate i) = (K - i) + K + 2"
| "main_rank K (MJoin i) = (K - i) + 1"
| "main_rank K MPrint = 0"

definition add_rank :: "nat \<Rightarrow> nat \<Rightarrow> 'd add_state \<Rightarrow> nat" where
  "add_rank K N s = main_rank K (mpc s) + (\<Sum>t<K. pc_rank (N - rounds s t) (rpc s t))"

lemma rank_move:
  assumes "t < K" "\<forall>u. u \<noteq> t \<longrightarrow> rounds s' u = rounds s u \<and> rpc s' u = rpc s u"
    and "pc_rank (N - rounds s' t) (rpc s' t) < pc_rank (N - rounds s t) (rpc s t)"
  shows "(\<Sum>u<K. pc_rank (N - rounds s' u) (rpc s' u)) < (\<Sum>u<K. pc_rank (N - rounds s u) (rpc s u))"
proof (rule sum_strict_mono_ex1)
  show "\<forall>u\<in>{..<K}. pc_rank (N - rounds s' u) (rpc s' u) \<le> pc_rank (N - rounds s u) (rpc s u)"
    using assms(2,3) by (metis less_imp_le order_refl)
qed (use assms in auto)

lemma routine_rank:
  assumes inv: "mutex_inv K N s" and st: "routine_step A K N t s = Some s'" and t: "t < K"
  shows "add_rank K N s' < add_rank K N s"
proof -
  have "(\<forall>u. u \<noteq> t \<longrightarrow> rounds s' u = rounds s u \<and> rpc s' u = rpc s u) \<and> mpc s' = mpc s"
    using st by (cases rule: routine_stepE) auto
  moreover have "pc_rank (N - rounds s' t) (rpc s' t) < pc_rank (N - rounds s t) (rpc s t)"
    using st
  proof (cases rule: routine_stepE)
    case (load j)
    then have "j < 3" "rounds s t < N" using mutex_invD(3,6)[OF inv, of t] by auto
    then show ?thesis using load by simp
  next
    case (store j v)
    then have "j < 3" "rounds s t < N" using mutex_invD(4,6)[OF inv, of t] by auto
    then show ?thesis using store by auto
  next
    case unlock
    then have "rounds s t < N" using mutex_invD(6)[OF inv, of t] by simp
    then show ?thesis using unlock by simp
  qed auto
  ultimately show ?thesis using rank_move[OF t, of s' s N] by (simp add: add_rank_def)
qed

lemma main_step_rank:
  assumes inv: "main_inv K s" "mutex_inv K N s" and st: "main_step K s = Some s'"
  shows "add_rank K N s' < add_rank K N s"
proof (cases "mpc s")
  case (MCreate i)
  show ?thesis
  proof (cases "i < K")
    case True
    then have s': "s' = s\<lparr>rpc := (rpc s)(i := RTest), mpc := MCreate (i + 1)\<rparr>"
      using st MCreate by (simp add: main_step_def)
    have "rpc s i = RNone" using inv(1) MCreate by (simp add: main_inv_def)
    then show ?thesis using rank_move[OF True, of s' s N] MCreate True by (simp add: add_rank_def s')
  next
    case False
    then show ?thesis using st MCreate by (auto simp: main_step_def add_rank_def)
  qed
qed (use st in \<open>auto simp: main_step_def add_rank_def split: if_splits\<close>)

lemma add_step_rank:
  assumes "add_reach A K N s" "add_step A K N s s'"
  shows "add_rank K N s' < add_rank K N s"
  using assms(2) add_reach_inv[OF assms(1)] by (cases rule: add_stepE) (auto intro: main_step_rank routine_rank)

lemma add_ends: "add_reach A K N s \<Longrightarrow> \<exists>s'. add_reach A K N s' \<and> mpc s' = MPrint"
proof (induction "add_rank K N s" arbitrary: s rule: less_induct)
  case less
  show ?case
  proof (cases "mpc s = MPrint")
    case False
    then obtain s' where "add_step A K N s s'" using add_not_stuck less.prems by blast
    then show ?thesis using less add_step_rank add_reach.step by metis
  qed (use less.prems in blast)
qed

subsection \<open>What every cell receives\<close>

lemma ring_pred:
  fixes t :: nat
  assumes "t < K"
  shows "(t + K - 1) mod K = (if t = 0 then K - 1 else t - 1)"
proof (cases t)
  case (Suc u)
  then have "(t + K - 1) mod K = (u + K) mod K" by simp
  then show ?thesis using Suc assms by simp
qed (use assms in simp)

lemma ring_succ: "t < K \<Longrightarrow> (t + K + 1) mod K = (if Suc t = K then 0 else Suc t)"
  using mod_add_self2[of "Suc t" K] by (simp add: add.commute add.left_commute)

lemma cell_inverse: "t < K \<Longrightarrow> k < K \<Longrightarrow> j < 3 \<Longrightarrow> cell K t j = k \<longleftrightarrow> t = cell K k (2 - j)"
  unfolding cell_def using ring_pred[of t K] ring_succ[of t K] ring_pred[of k K] ring_succ[of k K]
  by (auto split: if_splits)

text \<open>All numbers that are added to a cell.\<close>

definition addends :: "'d arithmetic \<Rightarrow> nat \<Rightarrow> 'd multiset" where
  "addends A N = replicate_mset N (addend A 0) + replicate_mset N (addend A 1) + replicate_mset N (addend A 2)"

lemma added_all:
  assumes "\<forall>t<K. rpc s t = REnd \<and> rounds s t = N" and "k < K"
  shows "added A K s k = addends A N"
proof -
  let ?r = "\<lambda>j. replicate_mset N (addend A j)"
  have "added A K s k = (\<Sum>t<K. \<Sum>j<3. if t = cell K k (2 - j) then ?r j else {#})"
    unfolding added_def using assms cell_inverse[of _ K k] by (intro sum.cong refl) simp
  also have "\<dots> = (\<Sum>j<3. \<Sum>t<K. if t = cell K k (2 - j) then ?r j else {#})" by (rule sum.swap)
  also have "\<dots> = (\<Sum>j<3. ?r j)" using cell_less[of K k] assms(2) by (intro sum.cong refl) (simp add: sum.delta)
  finally show ?thesis by (simp add: sum_3 addends_def)
qed

lemma printed_sums:
  assumes "add_reach A K N s" "mpc s = MPrint" "k < K"
  shows "\<exists>xs. mset xs = addends A N \<and> printed_cells K s ! k = foldl (plus_d A) (zero_d A) xs"
proof -
  note inv = add_reach_inv[OF assms(1)]
  have "\<forall>t<K. rpc s t = REnd \<and> rounds s t = N" using inv assms(2) by (auto simp: main_inv_def mutex_inv_def)
  then have "added A K s k = addends A N" using added_all assms(3) by blast
  moreover have "sums_up A (added A K s k) (cells s k)" using inv assms(3) by (simp add: cells_inv_def)
  ultimately show ?thesis using assms(3) by (simp add: sums_up_def printed_cells_def)
qed

text \<open>With exact numbers, counted in hundredths, the order does not matter.\<close>

lemma foldl_sum_mset: "foldl (+) a xs = a + sum_mset (mset xs)" for a :: "'a::comm_monoid_add"
  by (induction xs arbitrary: a) (simp_all add: ac_simps)

lemma printed_exact:
  fixes A :: "int arithmetic"
  assumes "add_reach A K N s" "mpc s = MPrint" "k < K"
    and "plus_d A = (+)" "zero_d A = 0" "addend A 0 = 99" "addend A 1 = 100" "addend A 2 = 101"
  shows "printed_cells K s ! k = 300 * int N"
  using printed_sums[OF assms(1-3)] assms(4-) by (auto simp: foldl_sum_mset addends_def)

subsection \<open>The property\<close>

text \<open>
  C25: For all interleavings of the threads (\<open>N\<close> rounds, \<open>K\<close> cells): as long as \<^verbatim>\<open>main\<close> is not at its last loop somebody
  can move; every step reduces a rank, so the program ends; and the number that is then printed for a cell comes
  from zero by adding, in some order, each of the three numbers exactly \<open>N\<close> times.  No addition is lost.
\<close>

theorem mutex_add_correct:
  assumes "0 < K" and "add_reach A K N s"
  shows "(mpc s \<noteq> MPrint \<longrightarrow> (\<exists>s'. add_step A K N s s'))
    \<and> (\<forall>s'. add_step A K N s s' \<longrightarrow> add_rank K N s' < add_rank K N s)
    \<and> length (printed_cells K s) = K
    \<and> (mpc s = MPrint \<longrightarrow> (\<forall>k<K. \<exists>xs. mset xs = addends A N
          \<and> printed_cells K s ! k = foldl (plus_d A) (zero_d A) xs))"
  using add_not_stuck[OF assms(2)] add_step_rank[OF assms(2)] printed_sums[OF assms(2)] by (simp add: printed_cells_def)

lemma mutex_add_witness:
  fixes A :: "int arithmetic"
  defines "A \<equiv> \<lparr>plus_d = \<lambda>x y. 2 * x + y, zero_d = 0, addend = int\<rparr>"
  shows "\<exists>s. add_reach A 3 2 s \<and> mpc s = MPrint \<and> length (printed_cells 3 s) = 3
    \<and> (\<exists>xs. mset xs = {#0, 0, 1, 1, 2, 2#} \<and> printed_cells 3 s ! 2 = foldl (\<lambda>x y. 2 * x + y) 0 xs)"
proof -
  obtain s where s: "add_reach A 3 2 s" "mpc s = MPrint" using add_ends[OF add_reach.start] by blast
  have "addends A 2 = {#0, 0, 1, 1, 2, 2#}" by (simp add: addends_def A_def numeral_2_eq_2)
  then show ?thesis using mutex_add_correct[of 3 A 2 s] s by (auto simp: A_def)
qed

end
