(* ===== verification/MatrixProduct.thy ===== *)
theory MatrixProduct
  imports SingleFloat PrintList
begin

section \<open>sse-matrix-mul and pymatrixdot: products of matrices in floating point\<close>

text \<open>
  \<^verbatim>\<open>inf06-3-generic_sse-matrix-mul/main.c\<close> multiplies two matrices with the dot-product instruction of SSE, in single
  precision, and adds up in double precision; \<^verbatim>\<open>pymatrixdot/matrix.c\<close> is a Python module that does it in double precision on nested lists.
  Numbers are rational, every operation rounds its exact result.  The property of both: on matrices of integers that
  are not too large nothing is lost by rounding.  Sizes are such that the indices fit in an \<^verbatim>\<open>int\<close>.
\<close>

subsection \<open>Rounding to a binary format\<close>

text \<open>
  \<open>p + 1\<close> bits of significand, the smallest unit \<open>2 ^ -m\<close>, the largest unit \<open>2 ^ n\<close> times it.  For single
  precision it agrees with \<open>SingleFloat\<close>.
\<close>

primrec unit_upto :: "nat \<Rightarrow> nat \<Rightarrow> nat \<Rightarrow> rat \<Rightarrow> rat" where
  "unit_upto p m 0 x = 1 / 2 ^ m"
| "unit_upto p m (Suc n) x =
     (if 2 ^ p * (2 ^ Suc n / 2 ^ m) \<le> \<bar>x\<bar> then 2 ^ Suc n / 2 ^ m else unit_upto p m n x)"

definition round_binary :: "nat \<Rightarrow> nat \<Rightarrow> nat \<Rightarrow> rat \<Rightarrow> rat" where
  "round_binary p m n x = unit_upto p m n x * of_int (round_half_even (x / unit_upto p m n x))"

definition round_double :: "rat \<Rightarrow> rat" where
  "round_double = round_binary 52 1074 2045"

lemma unit_upto_single: "unit_upto 23 149 n x = ulp_upto n x"
  by (induction n) (simp_all only: unit_upto.simps ulp_upto.simps)

lemma round_single_binary: "round_single = round_binary 23 149 253"
  by (simp only: fun_eq_iff round_single_def round_binary_def ulp_def unit_upto_single) simp

lemma unit_upto_form: "\<exists>k\<le>n. unit_upto p m n x = 2 ^ k / 2 ^ m \<and> (0 < k \<longrightarrow> 2 ^ p * unit_upto p m n x \<le> \<bar>x\<bar>)"
proof (induction n)
  case (Suc n)
  show ?case
  proof (cases "2 ^ p * (2 ^ Suc n / 2 ^ m) \<le> \<bar>x\<bar>")
    case True
    then show ?thesis by (intro exI[of _ "Suc n"]) simp
  next
    case False
    then have "unit_upto p m (Suc n) x = unit_upto p m n x" by simp
    then show ?thesis using Suc by (metis le_SucI)
  qed
qed simp

lemma round_half_even_int: "round_half_even (of_int z) = z"
  by (simp add: round_half_even_def)

text \<open>The interface of the products: a range of integers that rounding leaves alone.\<close>

locale integer_exact =
  fixes rnd :: "rat \<Rightarrow> rat" and bound :: int
  assumes exact: "\<bar>k\<bar> < bound \<Longrightarrow> rnd (of_int k) = of_int k"
begin

lemma exact_add: "\<bar>j + k\<bar> < bound \<Longrightarrow> rnd (of_int j + of_int k) = of_int (j + k)"
  using exact[of "j + k"] by simp

lemma exact_mult: "\<bar>j * k\<bar> < bound \<Longrightarrow> rnd (of_int j * of_int k) = of_int (j * k)"
  using exact[of "j * k"] by simp

end

lemma round_binary_int:
  assumes "\<bar>k\<bar> < 2 ^ Suc p"
  shows "round_binary p m n (of_int k) = of_int k"
proof -
  let ?u = "unit_upto p m n (of_int k)"
  obtain e where e: "?u = 2 ^ e / 2 ^ m" "0 < e \<longrightarrow> 2 ^ p * ?u \<le> \<bar>of_int k\<bar>"
    using unit_upto_form by blast
  have k: "\<bar>of_int k\<bar> < (2 ^ Suc p :: rat)"
    using assms by (metis of_int_abs of_int_less_iff of_int_numeral of_int_power)
  have "e \<le> m"
  proof (rule ccontr)
    assume "\<not> e \<le> m"
    then have "(2 :: rat) ^ Suc m \<le> 2 ^ e" by (intro power_increasing) auto
    then have "(2 * 2 ^ m) / 2 ^ m \<le> (2 :: rat) ^ e / 2 ^ m" by (intro divide_right_mono) auto
    then have "2 \<le> ?u" using e(1) by simp
    then have "2 ^ Suc p \<le> 2 ^ p * ?u" by simp
    then show False using e(2) k \<open>\<not> e \<le> m\<close> by linarith
  qed
  then have inv: "?u * 2 ^ (m - e) = 1" by (simp add: e(1) power_add[symmetric])
  then have u: "?u \<noteq> 0" by auto
  have "of_int k / ?u = of_int (k * 2 ^ (m - e))"
    using inv u by (simp add: field_simps)
  then show ?thesis using u by (simp only: round_binary_def round_half_even_int) (simp add: inv)
qed

interpretation single_int: integer_exact round_single "2 ^ 24"
  using round_binary_int[of _ 23] by unfold_locales (simp add: round_single_binary)

interpretation double_int: integer_exact round_double "2 ^ 53"
  using round_binary_int[of _ 52] by unfold_locales (simp add: round_double_def)

subsection \<open>The product with SSE\<close>

text \<open>\<^verbatim>\<open>_mm_dp_ps\<close> on all four lanes: products, two sums and their sum, each rounded.  \<open>a\<close> and \<open>b\<close> hold four numbers.\<close>

definition fl_add :: "rat \<Rightarrow> rat \<Rightarrow> rat" where "fl_add x y = round_single (x + y)"
definition fl_mul :: "rat \<Rightarrow> rat \<Rightarrow> rat" where "fl_mul x y = round_single (x * y)"
definition db_add :: "rat \<Rightarrow> rat \<Rightarrow> rat" where "db_add x y = round_double (x + y)"
definition db_mul :: "rat \<Rightarrow> rat \<Rightarrow> rat" where "db_mul x y = round_double (x * y)"

definition mm_dp_ps :: "rat list \<Rightarrow> rat list \<Rightarrow> rat" where
  "mm_dp_ps a b =
     fl_add (fl_add (fl_mul (a ! 0) (b ! 0)) (fl_mul (a ! 1) (b ! 1)))
            (fl_add (fl_mul (a ! 2) (b ! 2)) (fl_mul (a ! 3) (b ! 3)))"

definition to_plain_idx :: "nat \<Rightarrow> nat \<Rightarrow> nat \<Rightarrow> nat" where
  "to_plain_idx i j N = i * N + j"

text \<open>\<open>pa\<close> and \<open>pb\<close> are the pointers into the arrays; reading outside of an array is \<open>None\<close>.\<close>

function dot_blocks :: "nat \<Rightarrow> rat list \<Rightarrow> nat \<Rightarrow> rat list \<Rightarrow> nat \<Rightarrow> nat \<Rightarrow> rat \<Rightarrow> rat option" where
  "dot_blocks N A pa B pb i result =
     (if i + 4 \<le> N then
        if pa + i + 4 \<le> length A \<and> pb + i + 4 \<le> length B then
          let res = mm_dp_ps (slice (pa + i) (pa + i + 4) A) (slice (pb + i) (pb + i + 4) B)
          in dot_blocks N A pa B pb (i + 4) (db_add result res)
        else None
      else Some result)"
  by pat_completeness auto
termination by (relation "measure (\<lambda>(N, A, pa, B, pb, i, result). N - i)") auto

function dot_rest :: "nat \<Rightarrow> rat list \<Rightarrow> nat \<Rightarrow> rat list \<Rightarrow> nat \<Rightarrow> nat \<Rightarrow> rat \<Rightarrow> rat option" where
  "dot_rest N A pa B pb i result =
     (if i < N then
        if pa + i < length A \<and> pb + i < length B
        then dot_rest N A pa B pb (i + 1) (db_add result (fl_mul (A ! (pa + i)) (B ! (pb + i))))
        else None
      else Some result)"
  by pat_completeness auto
termination by (relation "measure (\<lambda>(N, A, pa, B, pb, i, result). N - i)") auto

declare dot_blocks.simps [simp del] dot_rest.simps [simp del]

definition dot_product :: "nat \<Rightarrow> rat list \<Rightarrow> nat \<Rightarrow> rat list \<Rightarrow> nat \<Rightarrow> rat option" where
  "dot_product N A pa B pb =
     (case dot_blocks N A pa B pb 0 0 of
        None \<Rightarrow> None
      | Some result \<Rightarrow> dot_rest N A pa B pb (N div 4 * 4) result)"

text \<open>The inner and the outer loop; \<open>R\<close> is the array of the result.\<close>

function product_row :: "nat \<Rightarrow> nat \<Rightarrow> rat list \<Rightarrow> rat list \<Rightarrow> nat \<Rightarrow> nat \<Rightarrow> rat list \<Rightarrow> rat list option" where
  "product_row M N A B i j R =
     (if j < M then
        (case dot_product N A (to_plain_idx i 0 N) B (to_plain_idx j 0 N) of
           None \<Rightarrow> None
         | Some r \<Rightarrow> product_row M N A B i (j + 1) (R[to_plain_idx i j M := r]))
      else Some R)"
  by pat_completeness auto
termination by (relation "measure (\<lambda>(M, N, A, B, i, j, R). M - j)") auto

function product_rows :: "nat \<Rightarrow> nat \<Rightarrow> rat list \<Rightarrow> rat list \<Rightarrow> nat \<Rightarrow> rat list \<Rightarrow> rat list option" where
  "product_rows M N A B i R =
     (if i < M then
        (case product_row M N A B i 0 R of None \<Rightarrow> None | Some R \<Rightarrow> product_rows M N A B (i + 1) R)
      else Some R)"
  by pat_completeness auto
termination by (relation "measure (\<lambda>(M, N, A, B, i, R). M - i)") auto

declare product_row.simps [simp del] product_rows.simps [simp del]

text \<open>\<open>fresh\<close> is what \<^verbatim>\<open>malloc\<close> returns, with arbitrary contents.\<close>

definition matrix_product :: "(nat \<Rightarrow> rat list) \<Rightarrow> nat \<Rightarrow> nat \<Rightarrow> rat list \<Rightarrow> rat list \<Rightarrow> rat list option" where
  "matrix_product fresh M N A B = product_rows M N A B 0 (fresh (M * M))"

text \<open>\<^verbatim>\<open>scanf("%f")\<close> into the given places of an array; the input is the list of the numbers that it finds.\<close>

fun read_floats :: "nat list \<Rightarrow> rat list \<Rightarrow> rat list \<Rightarrow> rat list \<times> rat list" where
  "read_floats [] ts arr = (ts, arr)"
| "read_floats (k # ks) [] arr = read_floats ks [] arr"
| "read_floats (k # ks) (t # ts) arr = read_floats ks ts (arr[k := round_single t])"

text \<open>\<^verbatim>\<open>printf("%.5f ", x)\<close>.\<close>

definition fixed5 :: "rat \<Rightarrow> char list" where
  "fixed5 x =
     (let z = nat (round_half_even (\<bar>x\<bar> * 100000)) in
      (if x < 0 then ''-'' else []) @ decimal (int (z div 100000)) @ ''.''
      @ map digit_char [z div 10000 mod 10, z div 1000 mod 10, z div 100 mod 10, z div 10 mod 10, z mod 10] @ '' '')"

definition print_matrix :: "nat \<Rightarrow> rat list \<Rightarrow> char list" where
  "print_matrix M R =
     concat (map (\<lambda>i. concat (map (\<lambda>j. fixed5 (R ! to_plain_idx i j M)) [0..<M]) @ [CHR 0x0A]) [0..<M])"

definition matrix_main :: "(nat \<Rightarrow> rat list) \<Rightarrow> nat \<Rightarrow> nat \<Rightarrow> rat list \<Rightarrow> char list option" where
  "matrix_main fresh M N ts =
     (let (ts, A) = read_floats (concat (map (\<lambda>i. map (\<lambda>j. to_plain_idx i j N) [0..<N]) [0..<M])) ts (fresh (M * N));
          (ts, B) = read_floats (concat (map (\<lambda>j. map (\<lambda>i. to_plain_idx i j N) [0..<M]) [0..<N])) ts (fresh (M * N))
      in map_option (print_matrix M) (matrix_product fresh M N A B))"

subsection \<open>The product of nested lists\<close>

text \<open>A matrix of the Python program is a list of rows of \<^verbatim>\<open>float\<close>s; a missing item is 0.\<close>

definition getMatrixItem :: "rat list list \<Rightarrow> nat \<Rightarrow> nat \<Rightarrow> rat" where
  "getMatrixItem matrix x y = (if y < length matrix \<and> x < length (matrix ! y) then matrix ! y ! x else 0)"

fun dot_value :: "rat list list \<Rightarrow> rat list list \<Rightarrow> nat \<Rightarrow> nat \<Rightarrow> nat list \<Rightarrow> rat \<Rightarrow> rat" where
  "dot_value matrix1 matrix2 i j [] v = v"
| "dot_value matrix1 matrix2 i j (k # ks) v =
     dot_value matrix1 matrix2 i j ks (db_add v (db_mul (getMatrixItem matrix1 k i) (getMatrixItem matrix2 j k)))"

definition dot :: "nat \<Rightarrow> rat list list \<Rightarrow> rat list list \<Rightarrow> rat list list" where
  "dot n matrix1 matrix2 = map (\<lambda>i. map (\<lambda>j. dot_value matrix1 matrix2 i j [0..<n] 0) [0..<n]) [0..<n]"

subsection \<open>Dot products of integers\<close>

text \<open>Two rows of integers in the arrays, with a bound on the products.\<close>

definition int_row :: "rat list \<Rightarrow> nat \<Rightarrow> nat \<Rightarrow> (nat \<Rightarrow> int) \<Rightarrow> bool" where
  "int_row A p N a \<longleftrightarrow> p + N \<le> length A \<and> (\<forall>k<N. A ! (p + k) = of_int (a k))"

definition small_products :: "nat \<Rightarrow> int \<Rightarrow> (nat \<Rightarrow> int) \<Rightarrow> (nat \<Rightarrow> int) \<Rightarrow> bool" where
  "small_products N c a b \<longleftrightarrow> (\<forall>k<N. \<bar>a k * b k\<bar> \<le> c) \<and> int N * c < 2 ^ 24"

lemma sum_bound:
  assumes "\<forall>k<N. \<bar>f k\<bar> \<le> c" "n \<le> N" "0 \<le> c"
  shows "\<bar>\<Sum>k<n. f k\<bar> \<le> int N * c"
proof -
  have "\<bar>\<Sum>k<n. f k\<bar> \<le> (\<Sum>k<n. \<bar>f k\<bar>)" by (rule sum_abs)
  also have "\<dots> \<le> (\<Sum>k<n. c)" using assms(1,2) by (intro sum_mono) auto
  also have "\<dots> \<le> int N * c" using assms(2,3) by (simp add: mult_right_mono)
  finally show ?thesis .
qed

lemma small_productsD:
  assumes "small_products N c a b" "n \<le> N"
  shows "k < N \<Longrightarrow> \<bar>a k * b k\<bar> \<le> c" and "\<bar>\<Sum>k<n. a k * b k\<bar> < 2 ^ 24" and "k < N \<Longrightarrow> 0 \<le> c"
    and "k < N \<Longrightarrow> \<bar>a k * b k\<bar> < 2 ^ 24"
proof -
  show le: "k < N \<Longrightarrow> \<bar>a k * b k\<bar> \<le> c" using assms by (auto simp: small_products_def)
  then show nonneg: "k < N \<Longrightarrow> 0 \<le> c" using abs_ge_zero[of "a k * b k"] by linarith
  show "\<bar>a k * b k\<bar> < 2 ^ 24" if "k < N"
  proof -
    have "\<bar>a k * b k\<bar> \<le> int N * c" using le[OF that] nonneg[OF that] mult_right_mono[of 1 "int N" c] that by simp
    then show ?thesis using assms(1) by (simp add: small_products_def)
  qed
  show "\<bar>\<Sum>k<n. a k * b k\<bar> < 2 ^ 24"
  proof (cases "N = 0")
    case False
    then have "0 \<le> c" using assms(1) by (auto simp: small_products_def dest!: spec[of _ 0])
    then show ?thesis using sum_bound[of N "\<lambda>k. a k * b k" c n] assms by (auto simp: small_products_def)
  qed (use assms in simp)
qed

lemma wide: "\<bar>x :: int\<bar> < 2 ^ 24 \<Longrightarrow> \<bar>x\<bar> < 2 ^ 53"
  by simp

lemma mm_dp_ps_int:
  assumes "\<forall>k<4. A ! k = of_int (a k) \<and> B ! k = of_int (b k)" "\<forall>k<4. \<bar>a k * b k\<bar> \<le> c" "4 * c < 2 ^ 24"
  shows "mm_dp_ps A B = of_int (\<Sum>k<4. a k * b k)"
proof -
  have c: "\<bar>a k * b k\<bar> < 2 ^ 24" "\<bar>a k * b k\<bar> \<le> c" if "k < 4" for k
    using assms(2,3) that by (smt (verit))+
  have m: "fl_mul (A ! k) (B ! k) = of_int (a k * b k)" if "k < 4" for k
    using assms(1) c(1)[OF that] that single_int.exact_mult[of "a k" "b k"] by (simp add: fl_mul_def)
  have s: "fl_add (of_int x) (of_int y) = of_int (x + y)" if "\<bar>x\<bar> \<le> 2 * c" "\<bar>y\<bar> \<le> 2 * c" for x y
    using that assms(3) single_int.exact_add[of x y] by (simp add: fl_add_def)
  have "fl_add (fl_mul (A ! 0) (B ! 0)) (fl_mul (A ! 1) (B ! 1)) = of_int (a 0 * b 0 + a 1 * b 1)"
    using m[of 0] m[of 1] s[of "a 0 * b 0" "a 1 * b 1"] c(2)[of 0] c(2)[of 1] by simp
  moreover have "fl_add (fl_mul (A ! 2) (B ! 2)) (fl_mul (A ! 3) (B ! 3)) = of_int (a 2 * b 2 + a 3 * b 3)"
    using m[of 2] m[of 3] s[of "a 2 * b 2" "a 3 * b 3"] c(2)[of 2] c(2)[of 3] by simp
  moreover have "\<bar>a 0 * b 0 + a 1 * b 1\<bar> \<le> 2 * c" "\<bar>a 2 * b 2 + a 3 * b 3\<bar> \<le> 2 * c"
    using c(2)[of 0] c(2)[of 1] c(2)[of 2] c(2)[of 3] by linarith+
  ultimately have "mm_dp_ps A B = of_int ((a 0 * b 0 + a 1 * b 1) + (a 2 * b 2 + a 3 * b 3))"
    using s by (simp only: mm_dp_ps_def)
  moreover have "(\<Sum>k<4. a k * b k) = (a 0 * b 0 + a 1 * b 1) + (a 2 * b 2 + a 3 * b 3)"
    by (simp add: eval_nat_numeral)
  ultimately show ?thesis by simp
qed

lemma db_add_int: "\<bar>x + y\<bar> < 2 ^ 24 \<Longrightarrow> db_add (of_int x) (of_int y) = of_int (x + y)"
  using double_int.exact_add[of x y] wide[of "x + y"] by (simp add: db_add_def)

lemma sum_four: "(\<Sum>k<i + 4. f k) = (\<Sum>k<i. f k) + (\<Sum>k<4. f (i + k))" for f :: "nat \<Rightarrow> int"
  by (simp add: eval_nat_numeral add.assoc)

lemma dot_blocks_int:
  assumes "int_row A pa N a" "int_row B pb N b" "small_products N c a b"
  shows "i \<le> N \<Longrightarrow> dot_blocks N A pa B pb i (of_int (\<Sum>k<i. a k * b k))
    = Some (of_int (\<Sum>k<i + (N - i) div 4 * 4. a k * b k))"
proof (induction "N - i" arbitrary: i rule: less_induct)
  case less
  show ?case
  proof (cases "i + 4 \<le> N")
    case True
    have in_bounds: "pa + i + 4 \<le> length A" "pb + i + 4 \<le> length B"
      using assms(1,2) True by (auto simp: int_row_def)
    have el: "slice (pa + i) (pa + i + 4) A ! k = of_int (a (i + k))" "slice (pb + i) (pb + i + 4) B ! k = of_int (b (i + k))"
      if "k < 4" for k
    proof -
      have "A ! (pa + (i + k)) = of_int (a (i + k))" "B ! (pb + (i + k)) = of_int (b (i + k))"
        using assms(1,2) that True by (auto simp: int_row_def)
      then show "slice (pa + i) (pa + i + 4) A ! k = of_int (a (i + k))" "slice (pb + i) (pb + i + 4) B ! k = of_int (b (i + k))"
        using that in_bounds by (simp_all add: slice_def add.assoc)
    qed
    have "0 \<le> c" using small_productsD(3)[OF assms(3) order_refl, of i] True by simp
    then have "4 * c \<le> int N * c" using True by (intro mult_right_mono) auto
    then have "4 * c < 2 ^ 24" using assms(3) by (simp add: small_products_def)
    moreover have "\<forall>k<4. \<bar>a (i + k) * b (i + k)\<bar> \<le> c"
      using small_productsD(1)[OF assms(3) order_refl] True by simp
    ultimately have dp: "mm_dp_ps (slice (pa + i) (pa + i + 4) A) (slice (pb + i) (pb + i + 4) B)
        = of_int (\<Sum>k<4. a (i + k) * b (i + k))"
      using mm_dp_ps_int[of _ "\<lambda>k. a (i + k)" _ "\<lambda>k. b (i + k)" c] el by blast
    have sum: "db_add (of_int (\<Sum>k<i. a k * b k)) (of_int (\<Sum>k<4. a (i + k) * b (i + k)))
        = of_int (\<Sum>k<i + 4. a k * b k)"
      using small_productsD(2)[OF assms(3) True] by (subst db_add_int) (simp_all add: sum_four)
    have behind: "i + 4 + (N - (i + 4)) div 4 * 4 = i + (N - i) div 4 * 4"
      using True div_add_self2[of 4 "N - (i + 4)"] by simp
    show ?thesis
      using less.hyps[of "i + 4", unfolded behind] True in_bounds
      by (subst dot_blocks.simps) (simp add: dp sum Let_def del: of_int_sum of_int_mult)
  next
    case False
    then show ?thesis by (subst dot_blocks.simps) simp
  qed
qed

lemma dot_rest_int:
  assumes "int_row A pa N a" "int_row B pb N b" "small_products N c a b"
  shows "i \<le> N \<Longrightarrow> dot_rest N A pa B pb i (of_int (\<Sum>k<i. a k * b k)) = Some (of_int (\<Sum>k<N. a k * b k))"
proof (induction "N - i" arbitrary: i rule: less_induct)
  case less
  show ?case
  proof (cases "i < N")
    case True
    have "fl_mul (A ! (pa + i)) (B ! (pb + i)) = of_int (a i * b i)"
      using assms(1,2) True single_int.exact_mult[of "a i" "b i"] small_productsD(4)[OF assms(3) order_refl True] by (simp add: int_row_def fl_mul_def)
    moreover have "db_add (of_int (\<Sum>k<i. a k * b k)) (of_int (a i * b i)) = of_int (\<Sum>k<Suc i. a k * b k)"
      using small_productsD(2)[OF assms(3), of "Suc i"] True by (subst db_add_int) simp_all
    moreover have "pa + i < length A" "pb + i < length B" using assms(1,2) True by (auto simp: int_row_def)
    ultimately show ?thesis using less.hyps[of "Suc i"] True
      by (subst dot_rest.simps) (simp del: of_int_sum of_int_mult sum.lessThan_Suc)
  next
    case False
    then show ?thesis using less.prems by (subst dot_rest.simps) simp
  qed
qed

lemma dot_product_int:
  assumes "int_row A pa N a" "int_row B pb N b" "small_products N c a b"
  shows "dot_product N A pa B pb = Some (of_int (\<Sum>k<N. a k * b k))"
  using dot_blocks_int[OF assms, of 0] dot_rest_int[OF assms, of "N div 4 * 4"]
  by (simp add: dot_product_def div_times_less_eq_dividend)

subsection \<open>The whole product\<close>

text \<open>The arrays are filled row after row: a list of \<open>M\<close> rows of \<open>N\<close> items.\<close>

definition grid :: "(nat \<Rightarrow> nat \<Rightarrow> 'a) \<Rightarrow> nat \<Rightarrow> nat \<Rightarrow> 'a list" where
  "grid f M N = concat (map (\<lambda>i. map (f i) [0..<N]) [0..<M])"

lemma length_grid [simp]: "length (grid f M N) = M * N"
  by (induction M) (simp_all add: grid_def)

lemma plain_idx_less: "i < M \<Longrightarrow> j < N \<Longrightarrow> i * N + j < M * N" for i j :: nat
proof -
  assume "i < M" "j < N"
  then have "i * N + j < Suc i * N" by simp
  also have "\<dots> \<le> M * N" using \<open>i < M\<close> by (intro mult_le_mono1) simp
  finally show ?thesis .
qed

lemma plain_idx_inj: "j < N \<Longrightarrow> j' < N \<Longrightarrow> i * N + j = i' * N + j' \<longleftrightarrow> i = i' \<and> j = j'" for i j :: nat
  by (metis add.commute div_mult_self1_is_m div_mult_self3 div_less add_0 mod_less mod_mult_self3 mod_mult_self2
      less_nat_zero_code mult.commute add_right_cancel add_left_cancel div_mult_self4 gr_implies_not0)

lemma nth_grid: "i < M \<Longrightarrow> j < N \<Longrightarrow> grid f M N ! (i * N + j) = f i j"
proof (induction M)
  case (Suc M)
  have g: "grid f (Suc M) N = grid f M N @ map (f M) [0..<N]" by (simp add: grid_def)
  show ?case
  proof (cases "i < M")
    case True
    then show ?thesis using Suc plain_idx_less[of i M j N] by (simp add: g nth_append)
  next
    case False
    then have "i = M" using Suc.prems by simp
    then show ?thesis using Suc.prems by (simp add: g nth_append)
  qed
qed simp

lemma grid_place: "p < M * N \<Longrightarrow> \<exists>i<M. \<exists>j<N. p = i * N + j" for p :: nat
proof -
  assume p: "p < M * N"
  then have "0 < N" by (cases N) auto
  moreover have "p div N < M" using p by (simp add: less_mult_imp_div_less)
  ultimately show ?thesis by (metis div_mult_mod_eq mod_less_divisor)
qed

lemma distinct_grid:
  assumes "\<And>i j i' j'. i < M \<Longrightarrow> j < N \<Longrightarrow> i' < M \<Longrightarrow> j' < N \<Longrightarrow> f i j = f i' j' \<Longrightarrow> i = i' \<and> j = j'"
  shows "distinct (grid f M N)"
  unfolding distinct_conv_nth
proof (intro allI impI)
  fix p q
  assume "p < length (grid f M N)" "q < length (grid f M N)" "p \<noteq> q"
  then obtain i j i' j' where "i < M" "j < N" "p = i * N + j" "i' < M" "j' < N" "q = i' * N + j'"
    using grid_place[of p M N] grid_place[of q M N] by auto
  then show "grid f M N ! p \<noteq> grid f M N ! q" using assms[of i j i' j'] \<open>p \<noteq> q\<close> by (auto simp: nth_grid)
qed

lemma set_grid: "set (grid f M N) = {f i j | i j. i < M \<and> j < N}"
  by (fastforce simp: grid_def)

lemma read_floats_ok:
  assumes "distinct ks" "\<forall>k\<in>set ks. k < length arr" "length ks \<le> length ts"
  shows "\<exists>arr'. read_floats ks ts arr = (drop (length ks) ts, arr') \<and> length arr' = length arr
    \<and> (\<forall>p<length ks. arr' ! (ks ! p) = round_single (ts ! p)) \<and> (\<forall>q. q \<notin> set ks \<longrightarrow> arr' ! q = arr ! q)"
  using assms
proof (induction ks arbitrary: ts arr)
  case (Cons k ks)
  then obtain t ts' where ts: "ts = t # ts'" by (cases ts) auto
  obtain arr' where a: "read_floats ks ts' (arr[k := round_single t]) = (drop (length ks) ts', arr')"
    "length arr' = length arr" "\<forall>p<length ks. arr' ! (ks ! p) = round_single (ts' ! p)"
    "\<forall>q. q \<notin> set ks \<longrightarrow> arr' ! q = arr[k := round_single t] ! q"
    using Cons.IH[of "arr[k := round_single t]" ts'] Cons.prems ts by auto
  moreover have "arr' ! k = round_single t" using a(4) Cons.prems by simp
  ultimately show ?case using Cons.prems(1)
    by (intro exI[of _ arr']) (auto simp: ts nth_Cons' less_Suc_eq_0_disj)
qed simp

lemma read_grid:
  assumes "\<And>i j. i < M \<Longrightarrow> j < N \<Longrightarrow> f i j < length arr" "inj_on (\<lambda>(i, j). f i j) ({..<M} \<times> {..<N})"
    and "ts = grid v M N @ ts'"
  obtains arr' where "read_floats (grid f M N) ts arr = (ts', arr')" "length arr' = length arr"
    "\<And>i j. i < M \<Longrightarrow> j < N \<Longrightarrow> arr' ! f i j = round_single (v i j)"
proof -
  have "distinct (grid f M N)" using assms(2) by (intro distinct_grid) (auto simp: inj_on_def)
  moreover have "\<forall>k\<in>set (grid f M N). k < length arr" using assms(1) by (auto simp: set_grid)
  ultimately obtain arr' where a: "read_floats (grid f M N) ts arr = (drop (length (grid f M N)) ts, arr')"
    "length arr' = length arr" "\<forall>p<length (grid f M N). arr' ! (grid f M N ! p) = round_single (ts ! p)"
    using read_floats_ok[of "grid f M N" arr ts] assms(3) by auto
  have "arr' ! f i j = round_single (v i j)" if "i < M" "j < N" for i j
    using a(3)[rule_format, of "i * N + j"] plain_idx_less[OF that] that assms(3) by (simp add: nth_grid nth_append)
  then show ?thesis using that[of arr'] a(1,2) assms(3) by simp
qed

definition filled :: "nat \<Rightarrow> (nat \<Rightarrow> nat \<Rightarrow> int) \<Rightarrow> nat \<Rightarrow> nat \<Rightarrow> rat list \<Rightarrow> bool" where
  "filled M r i j R \<longleftrightarrow> length R = M * M
     \<and> (\<forall>i' j'. j' < M \<longrightarrow> i' < i \<or> i' = i \<and> j' < j \<longrightarrow> R ! (i' * M + j') = of_int (r i' j'))"

lemma product_row_filled:
  assumes "\<And>j. j < M \<Longrightarrow> dot_product N A (i * N) B (j * N) = Some (of_int (r i j))" "i < M"
  shows "j \<le> M \<Longrightarrow> filled M r i j R \<Longrightarrow> \<exists>R'. product_row M N A B i j R = Some R' \<and> filled M r (Suc i) 0 R'"
proof (induction "M - j" arbitrary: j R rule: less_induct)
  case less
  show ?case
  proof (cases "j < M")
    case True
    have "filled M r i (Suc j) (R[i * M + j := of_int (r i j)])"
      using less.prems(2) True assms(2) plain_idx_less[of i M j M]
      by (auto simp: filled_def nth_list_update plain_idx_inj less_Suc_eq)
    then show ?thesis using less.hyps[of "Suc j"] True assms(1)[OF True]
      by (subst product_row.simps) (simp add: to_plain_idx_def)
  next
    case False
    then show ?thesis using less.prems
      by (subst product_row.simps) (auto simp: filled_def less_Suc_eq)
  qed
qed

lemma product_rows_filled:
  assumes "\<And>i j. i < M \<Longrightarrow> j < M \<Longrightarrow> dot_product N A (i * N) B (j * N) = Some (of_int (r i j))"
  shows "i \<le> M \<Longrightarrow> filled M r i 0 R \<Longrightarrow> \<exists>R'. product_rows M N A B i R = Some R' \<and> filled M r M 0 R'"
proof (induction "M - i" arbitrary: i R rule: less_induct)
  case less
  show ?case
  proof (cases "i < M")
    case True
    obtain R' where "product_row M N A B i 0 R = Some R'" "filled M r (Suc i) 0 R'"
      using product_row_filled[of M N A i B r 0 R] assms True less.prems(2) by auto
    then show ?thesis using less.hyps[of "Suc i" R'] True by (subst product_rows.simps) simp
  next
    case False
    then show ?thesis using less.prems by (subst product_rows.simps) simp
  qed
qed

lemma fixed5_int: "fixed5 (of_int z) = decimal z @ ''.00000 ''"
proof -
  have "\<bar>of_int z\<bar> * 100000 = (of_int (\<bar>z\<bar> * 100000) :: rat)" by simp
  then have "nat (round_half_even (\<bar>of_int z\<bar> * 100000)) = nat \<bar>z\<bar> * 100000"
    by (simp only: round_half_even_int)
  moreover have "digit_char 0 = CHR ''0''" by (simp add: digit_char_def char_of_def bit_iff_odd)
  ultimately show ?thesis by (simp add: fixed5_def decimal_def Let_def)
qed

subsection \<open>Properties\<close>

text \<open>
  C14: For an \<open>M\<close> by \<open>N\<close> matrix \<open>a\<close> and an \<open>N\<close> by \<open>M\<close> matrix \<open>b\<close> of integers, given row after row, of which every product of a row
  and a column stays in the 24 bits of single precision, the program prints the product of the matrices, line by
  line, whatever the memory held.
\<close>

theorem matrix_main_multiplies:
  assumes "\<And>n. length (fresh n) = n"
    and "\<forall>i<M. \<forall>k<N. \<bar>a i k\<bar> \<le> x" and "\<forall>k<N. \<forall>j<M. \<bar>b k j\<bar> \<le> y" and "x < 2 ^ 24" and "y < 2 ^ 24"
    and "int N * (x * y) < 2 ^ 24"
  shows "matrix_main fresh M N (grid (\<lambda>i k. of_int (a i k)) M N @ grid (\<lambda>k j. of_int (b k j)) N M)
    = Some (concat (map (\<lambda>i. concat (map (\<lambda>j. decimal (\<Sum>k<N. a i k * b k j) @ ''.00000 '') [0..<M]) @ [CHR 0x0A]) [0..<M]))"
proof -
  let ?tb = "grid (\<lambda>k j. of_int (b k j)) N M"
  obtain A where A: "read_floats (grid (\<lambda>i k. to_plain_idx i k N) M N)
      (grid (\<lambda>i k. of_int (a i k)) M N @ ?tb) (fresh (M * N)) = (?tb, A)" "length A = M * N"
    "\<And>i k. i < M \<Longrightarrow> k < N \<Longrightarrow> A ! (i * N + k) = round_single (of_int (a i k))"
    by (rule read_grid[of M N "\<lambda>i k. to_plain_idx i k N" "fresh (M * N)" _ "\<lambda>i k. of_int (a i k)" ?tb])
      (auto simp: to_plain_idx_def assms(1) plain_idx_less plain_idx_inj inj_on_def)
  obtain B where B: "read_floats (grid (\<lambda>k j. to_plain_idx j k N) N M) ?tb (fresh (M * N)) = ([], B)" "length B = M * N"
    "\<And>k j. k < N \<Longrightarrow> j < M \<Longrightarrow> B ! (j * N + k) = round_single (of_int (b k j))"
    by (rule read_grid[of N M "\<lambda>k j. to_plain_idx j k N" "fresh (M * N)" _ "\<lambda>k j. of_int (b k j)" "[]"])
      (auto simp: to_plain_idx_def assms(1) plain_idx_less plain_idx_inj inj_on_def)
  have "\<bar>a i k\<bar> < 2 ^ 24" "\<bar>b k i\<bar> < 2 ^ 24" if "i < M" "k < N" for i k
    using assms(2-5) that le_less_trans by blast+
  then have ints: "A ! (i * N + k) = of_int (a i k)" "B ! (i * N + k) = of_int (b k i)" if "i < M" "k < N" for i k
    using A(3) B(3) single_int.exact that by simp_all
  have dots: "dot_product N A (i * N) B (j * N) = Some (of_int (\<Sum>k<N. a i k * b k j))" if "i < M" "j < M" for i j
  proof (rule dot_product_int)
    have row: "i * N + N \<le> M * N" "j * N + N \<le> M * N"
      using mult_le_mono1[of "Suc i" M N] mult_le_mono1[of "Suc j" M N] that by (simp_all add: add.commute)
    show "int_row A (i * N) N (a i)" "int_row B (j * N) N (\<lambda>k. b k j)"
      using row A(2) B(2) that ints by (simp_all add: int_row_def)
    have "\<bar>a i k\<bar> * \<bar>b k j\<bar> \<le> x * y" if "k < N" for k
    proof (rule mult_mono)
      show "\<bar>a i k\<bar> \<le> x" "\<bar>b k j\<bar> \<le> y" using assms(2,3) that \<open>i < M\<close> \<open>j < M\<close> by simp_all
      then show "0 \<le> x" using abs_ge_zero[of "a i k"] by linarith
    qed simp
    then show "small_products N (x * y) (a i) (\<lambda>k. b k j)"
      using assms(6) by (simp add: small_products_def abs_mult)
  qed
  have "filled M (\<lambda>i j. \<Sum>k<N. a i k * b k j) 0 0 (fresh (M * M))" by (simp add: filled_def assms(1))
  then obtain R where R: "matrix_product fresh M N A B = Some R" "filled M (\<lambda>i j. \<Sum>k<N. a i k * b k j) M 0 R"
    using product_rows_filled[OF dots, where i = 0] by (auto simp: matrix_product_def)
  then have "R ! (i * M + j) = of_int (\<Sum>k<N. a i k * b k j)" if "i < M" "j < M" for i j
    using that by (simp add: filled_def)
  then have "print_matrix M R
      = concat (map (\<lambda>i. concat (map (\<lambda>j. decimal (\<Sum>k<N. a i k * b k j) @ ''.00000 '') [0..<M]) @ [CHR 0x0A]) [0..<M])"
    unfolding print_matrix_def to_plain_idx_def
    by (intro arg_cong[of _ _ concat] map_cong refl arg_cong2[of _ _ _ _ append]) (simp add: fixed5_int del: of_int_sum of_int_mult)
  then show ?thesis
    using A(1) B(1) R(1) by (simp add: matrix_main_def grid_def[of "\<lambda>i k. to_plain_idx i k N"]
      grid_def[of "\<lambda>k j. to_plain_idx j k N"])
qed

theorem matrix_main_multiplies_witness:
  "matrix_main (\<lambda>n. replicate n 7) 2 1 (grid (\<lambda>i k. of_int (if i = 0 then 2 else - 3)) 2 1 @ grid (\<lambda>k j. of_int (if j = 0 then 5 else 11)) 1 2)
    = Some (decimal 10 @ ''.00000 '' @ decimal 22 @ ''.00000 '' @ CHR 0x0A # decimal (- 15) @ ''.00000 '' @ decimal (- 33) @ ''.00000 '' @ [CHR 0x0A])"
  using matrix_main_multiplies[of "\<lambda>n. replicate n 7" 2 1 "\<lambda>i k. if i = 0 then 2 else - 3" 3 "\<lambda>k j. if j = 0 then 5 else 11" 11]
  by (simp add: upt_rec numeral_2_eq_2)

text \<open>The Python module computes the product of square matrices exactly as long as it stays in the 53 bits of double precision.\<close>

lemma dot_value_int:
  assumes "\<forall>k<n. getMatrixItem m1 k i = of_int (a k) \<and> getMatrixItem m2 j k = of_int (b k)"
    and "\<forall>k<n. \<bar>a k * b k\<bar> \<le> c" "int n * c < 2 ^ 53"
  shows "l \<le> n \<Longrightarrow> dot_value m1 m2 i j [l..<n] (of_int (\<Sum>k<l. a k * b k)) = of_int (\<Sum>k<n. a k * b k)"
proof (induction "n - l" arbitrary: l rule: less_induct)
  case less
  show ?case
  proof (cases "l < n")
    case True
    have c: "\<bar>a l * b l\<bar> \<le> c" "0 \<le> c" using assms(2) True abs_ge_zero order_trans by blast+
    then have "c \<le> int n * c" using True mult_right_mono[of 1 "int n" c] by simp
    then have p: "db_mul (of_int (a l)) (of_int (b l)) = of_int (a l * b l)"
      using c assms(3) double_int.exact_mult[of "a l" "b l"] by (simp add: db_mul_def)
    have "\<bar>\<Sum>k<Suc l. a k * b k\<bar> < 2 ^ 53"
      using sum_bound[OF assms(2), of "Suc l"] True c(2) assms(3) by simp
    then have "db_add (of_int (\<Sum>k<l. a k * b k)) (of_int (a l * b l)) = of_int (\<Sum>k<Suc l. a k * b k)"
      using double_int.exact_add[of "\<Sum>k<l. a k * b k" "a l * b l"] by (simp add: db_add_def del: of_int_sum of_int_mult)
    then show ?thesis using less.hyps[of "Suc l"] True assms(1)
      by (simp add: upt_conv_Cons p del: of_int_sum of_int_mult sum.lessThan_Suc)
  qed (use less.prems in simp)
qed

lemma dot_multiplies:
  assumes "\<forall>i<n. \<forall>k<n. \<bar>a i k\<bar> \<le> x \<and> \<bar>b i k\<bar> \<le> y" "int n * (x * y) < 2 ^ 53" "0 \<le> x" "0 \<le> y"
  shows "dot n (map (\<lambda>i. map (\<lambda>k. of_int (a i k)) [0..<n]) [0..<n]) (map (\<lambda>i. map (\<lambda>k. of_int (b i k)) [0..<n]) [0..<n])
    = map (\<lambda>i. map (\<lambda>j. of_int (\<Sum>k<n. a i k * b k j)) [0..<n]) [0..<n]"
  unfolding dot_def
proof (intro map_cong refl)
  fix i j assume "i \<in> set [0..<n]" "j \<in> set [0..<n]"
  then show "dot_value (map (\<lambda>i. map (\<lambda>k. of_int (a i k)) [0..<n]) [0..<n]) (map (\<lambda>i. map (\<lambda>k. of_int (b i k)) [0..<n]) [0..<n])
      i j [0..<n] 0 = of_int (\<Sum>k<n. a i k * b k j)"
    using dot_value_int[of n _ i "a i" _ j "\<lambda>k. b k j" "x * y" 0] assms
    by (simp add: getMatrixItem_def abs_mult mult_mono del: of_int_sum of_int_mult)
qed

end
