(* ===== verification/ScanInput.thy ===== *)
theory ScanInput
  imports Prelude
begin

section \<open>Reading words with scanf\<close>

text \<open>
  The conversions of \<^verbatim>\<open>scanf\<close> that the programs use on words: skipping white space, reading a word, storing it in an array.
\<close>

text \<open>\<^verbatim>\<open>scanf("%s")\<close>: the next word and what remains of the input; \<open>None\<close> at its end.\<close>

definition scan_string :: "char list \<Rightarrow> (char list \<times> char list) option" where
  "scan_string inp =
     (case dropWhile is_ws inp of
        [] \<Rightarrow> None
      | t \<Rightarrow> Some (takeWhile (\<lambda>c. \<not> is_ws c) t, dropWhile (\<lambda>c. \<not> is_ws c) t))"

lemma scan_string_shorter: "scan_string inp = Some (w, r) \<Longrightarrow> length r < length inp"
proof -
  assume s: "scan_string inp = Some (w, r)"
  then obtain c t where t: "dropWhile is_ws inp = c # t" by (auto simp: scan_string_def split: list.splits)
  then have "\<not> is_ws c" by (metis dropWhile_eq_Cons_conv)
  then have "r = dropWhile (\<lambda>c. \<not> is_ws c) t" using s t by (simp add: scan_string_def)
  then have "length r \<le> length t" by (simp add: length_dropWhile_le)
  also have "length t < length inp" using length_dropWhile_le[of is_ws inp] t by simp
  finally show ?thesis .
qed

text \<open>White space in a format skips white space in the input.\<close>

definition skip_space :: "char list \<Rightarrow> char list" where
  "skip_space inp = dropWhile is_ws inp"

lemma length_skip_space: "length (skip_space inp) \<le> length inp"
  by (simp add: skip_space_def length_dropWhile_le)

text \<open>A word as \<^verbatim>\<open>%s\<close> reads it, and how it is read from the input.\<close>

definition is_word :: "char list \<Rightarrow> bool" where
  "is_word w \<longleftrightarrow> w \<noteq> [] \<and> (\<forall>c\<in>set w. \<not> is_ws c \<and> c \<noteq> NUL)"

lemma takeWhile_word: "\<forall>c\<in>set w. \<not> is_ws c \<Longrightarrow> takeWhile (\<lambda>c. \<not> is_ws c) (w @ r) = w @ takeWhile (\<lambda>c. \<not> is_ws c) r"
  by (induction w) auto

lemma scan_word_ws:
  assumes "is_word w" "is_ws c"
  shows "scan_string (w @ c # r) = Some (w, c # r)"
proof -
  obtain d v where w: "w = d # v" "\<not> is_ws d" using assms(1) by (cases w) (auto simp: is_word_def)
  then have "dropWhile is_ws (w @ c # r) = w @ c # r" by simp
  moreover have "takeWhile (\<lambda>c. \<not> is_ws c) (w @ c # r) = w" "dropWhile (\<lambda>c. \<not> is_ws c) (w @ c # r) = c # r"
    using assms by (auto simp: is_word_def takeWhile_append2 dropWhile_append2)
  ultimately show ?thesis using w(1) by (simp add: scan_string_def)
qed

lemma scan_word_end:
  assumes "is_word w"
  shows "scan_string w = Some (w, [])"
proof -
  obtain d v where w: "w = d # v" "\<not> is_ws d" using assms by (cases w) (auto simp: is_word_def)
  then have "dropWhile is_ws w = w" by simp
  moreover have "takeWhile (\<lambda>c. \<not> is_ws c) w = w" "dropWhile (\<lambda>c. \<not> is_ws c) w = []"
    using assms by (auto simp: is_word_def)
  ultimately show ?thesis using w(1) by (simp add: scan_string_def)
qed

lemma scan_string_ws: "is_ws c \<Longrightarrow> scan_string (c # r) = scan_string r"
  by (simp add: scan_string_def)

lemma scan_string_Nil: "scan_string [] = None"
  by (simp add: scan_string_def)

lemma skip_space_word: "is_word w \<Longrightarrow> is_ws c \<Longrightarrow> skip_space (c # w @ r) = w @ r"
  by (cases w) (auto simp: skip_space_def is_word_def)

text \<open>A string stored in an array with its NUL; \<open>None\<close> is a write beyond the end.\<close>

definition store_string :: "char list \<Rightarrow> char list \<Rightarrow> char list option" where
  "store_string buf s = (if length s + 1 \<le> length buf then Some (overwrite buf 0 (s @ [NUL])) else None)"

lemma store_word: "length s < length buf \<Longrightarrow> store_string buf s = Some (s @ NUL # drop (length s + 1) buf)"
  by (simp add: store_string_def overwrite_def)

subsection \<open>Numbers\<close>

text \<open>
  \<^verbatim>\<open>scanf("%d")\<close>: the number, or \<open>None\<close> when there is none, and what remains of the input; a sign without digits is
  consumed.  What C does with a number that \<^verbatim>\<open>int\<close> cannot hold is not modelled: \<open>all_ints\<close> below is undefined there.
\<close>

definition scan_int :: "char list \<Rightarrow> int option \<times> char list" where
  "scan_int inp =
     (let t = skip_space inp;
          signed = (t \<noteq> [] \<and> (hd t = CHR ''-'' \<or> hd t = CHR ''+''));
          u = (if signed then drop 1 t else t);
          d = takeWhile is_digit u
      in if d = [] then (None, u)
         else (Some (if signed \<and> hd t = CHR ''-'' then - int (dec_val d) else int (dec_val d)), dropWhile is_digit u))"

lemma scan_int_le: "scan_int inp = (x, r) \<Longrightarrow> length r \<le> length inp"
  using length_skip_space[of inp] length_dropWhile_le[of is_digit "skip_space inp"]
    length_dropWhile_le[of is_digit "drop 1 (skip_space inp)"]
  by (auto simp: scan_int_def Let_def split: if_splits)

lemma dropWhile_shorter: "takeWhile P xs \<noteq> [] \<Longrightarrow> length (dropWhile P xs) < length xs"
  by (cases xs) (auto simp: less_Suc_eq_le length_dropWhile_le split: if_splits)

lemma scan_int_shorter: "scan_int inp = (Some v, r) \<Longrightarrow> length r < length inp"
  using length_skip_space[of inp] dropWhile_shorter[of is_digit "skip_space inp"]
    dropWhile_shorter[of is_digit "drop 1 (skip_space inp)"]
  by (auto simp: scan_int_def Let_def split: if_splits)

text \<open>The numbers of an input that consists of numbers that \<^verbatim>\<open>int\<close> can hold.\<close>

function all_ints :: "char list \<Rightarrow> int list option" where
  "all_ints inp =
     (case scan_int inp of
        (Some v, r) \<Rightarrow> if is_i32 v then map_option (Cons v) (all_ints r) else None
      | (None, r) \<Rightarrow> if skip_space inp = [] then Some [] else None)"
  by pat_completeness auto
termination by (relation "measure length") (auto dest: scan_int_shorter[OF sym])

declare all_ints.simps [simp del]

lemma scan_int_Nil: "skip_space inp = [] \<Longrightarrow> scan_int inp = (None, [])"
  by (simp add: scan_int_def)

lemma all_ints_blank: "skip_space inp = [] \<Longrightarrow> all_ints inp = Some []"
  by (simp add: all_ints.simps[of inp] scan_int_Nil)

lemma all_ints_end:
  assumes "all_ints inp = Some vs" "scan_int inp = (None, r)"
  shows "vs = [] \<and> r = []"
proof -
  have "skip_space inp = []" "vs = []" using assms by (auto simp: all_ints.simps[of inp] split: if_splits)
  then show ?thesis using assms(2) scan_int_Nil by simp
qed

lemma all_ints_next:
  assumes "all_ints inp = Some vs" "scan_int inp = (Some v, r)"
  obtains vs' where "vs = v # vs'" "all_ints r = Some vs'" "is_i32 v"
  using assms by (auto simp: all_ints.simps[of inp] split: if_splits)

text \<open>A number that is written as its digits, with or without a sign, and followed by white space.\<close>

lemma scan_int_digits:
  assumes "d \<noteq> []" "\<forall>c\<in>set d. is_digit c" "is_ws w"
  shows "scan_int (d @ w # r) = (Some (int (dec_val d)), w # r)"
    and "scan_int (CHR ''-'' # d @ w # r) = (Some (- int (dec_val d)), w # r)"
proof -
  obtain c e where d: "d = c # e" using assms(1) by (cases d) auto
  have w: "\<not> is_digit w" using assms(3) digit_not_ws by blast
  have c: "\<not> is_ws c" "is_digit c" "c \<noteq> CHR ''-''" "c \<noteq> CHR ''+''"
    using assms(2) d digit_not_ws by (auto simp: is_digit_def)
  have parts: "takeWhile is_digit (d @ w # r) = d" "dropWhile is_digit (d @ w # r) = w # r"
    using assms(2) w by (simp_all add: takeWhile_append2 dropWhile_append2)
  show "scan_int (d @ w # r) = (Some (int (dec_val d)), w # r)"
    using parts c d by (simp add: scan_int_def skip_space_def Let_def)
  have "\<not> is_ws (CHR ''-'')" by (simp add: is_ws_def)
  then show "scan_int (CHR ''-'' # d @ w # r) = (Some (- int (dec_val d)), w # r)"
    using parts d by (simp add: scan_int_def skip_space_def Let_def)
qed

lemma skip_space_ws: "is_ws w \<Longrightarrow> skip_space (w # r) = skip_space r"
  by (simp add: skip_space_def)

lemma scan_int_ws: "is_ws w \<Longrightarrow> scan_int (w # r) = scan_int r"
  by (simp add: scan_int_def skip_space_ws)

lemma all_ints_ws: "is_ws w \<Longrightarrow> all_ints (w # r) = all_ints r"
  by (simp add: all_ints.simps[of "w # r"] all_ints.simps[of r] scan_int_ws skip_space_ws)

end
