(* ===== verification/ForkChains.thy ===== *)
theory ForkChains
  imports PrintList ScanInput
begin

section \<open>print-numbers and count-words: chains of processes\<close>

text \<open>
  \<^verbatim>\<open>inf11-1-posix_fork_proc-print-numbers/main.c\<close> and \<^verbatim>\<open>inf11-2_posix_fork_proc-count-words/main.c\<close>.  Every process
  forks at most once and waits for its child before it prints, so a process and its descendants are one recursive function with
  the output and the exit status as the result.  The child that never returns from the chain is the recursive call.  \<open>ok\<close> says
  which calls of \<^verbatim>\<open>fork\<close> succeed.
\<close>

subsection \<open>Printing the numbers\<close>

text \<open>The process that holds \<open>value\<close>; the fork of that process succeeds if \<open>ok value\<close>.\<close>

function number_process :: "(int \<Rightarrow> bool) \<Rightarrow> int \<Rightarrow> int \<Rightarrow> char list \<times> int" where
  "number_process ok init_value v =
     (if 1 \<le> v then
        if \<not> ok v then ([], 1)
        else (case number_process ok init_value (v - 1) of (out, status) \<Rightarrow>
          (out @ decimal v @ (if v = init_value then [CHR 0x0A] else '' ''), 0))
      else ([], 0))"
  by pat_completeness auto
termination by (relation "measure (\<lambda>(ok, init_value, v). nat v)") auto

declare number_process.simps [simp del]

text \<open>\<open>arg\<close> is the argument as \<^verbatim>\<open>strtol\<close> reads it.\<close>

definition print_numbers_main :: "(int \<Rightarrow> bool) \<Rightarrow> int option \<Rightarrow> char list \<times> int" where
  "print_numbers_main ok arg =
     (case arg of None \<Rightarrow> ([], 1) | Some n \<Rightarrow> number_process ok (to_i32 n) (to_i32 n))"

lemma number_process_below:
  assumes "\<forall>w. int l < w \<and> w < init \<longrightarrow> ok w" "l = 0 \<or> \<not> ok (int l)" "int l \<le> v" "v < init"
  shows "fst (number_process ok init v) = concat (map (\<lambda>k. decimal (int k) @ '' '') [l + 1..<Suc (nat v)])"
  using assms(3,4)
proof (induction "nat v - l" arbitrary: v)
  case 0
  then have "v = int l" by linarith
  then show ?case using assms(2) by (subst number_process.simps) auto
next
  case (Suc d)
  then have v: "int l < v" "1 \<le> v" by linarith+
  have "fst (number_process ok init (v - 1)) = concat (map (\<lambda>k. decimal (int k) @ '' '') [l + 1..<Suc (nat (v - 1))])"
    using Suc.hyps(1)[of "v - 1"] Suc.hyps(2) Suc.prems v by simp
  moreover have "Suc (nat (v - 1)) = nat v" "Suc l \<le> nat v" using v by simp_all
  ultimately show ?case using v Suc.prems assms(1)
    by (subst number_process.simps) (cases "number_process ok init (v - 1)", simp)
qed

text \<open>
  The numbers from 1 to the argument are printed in order on one line.  When a fork fails, the numbers of
  the processes that had forked before are still printed, and the exit status is 1 only when it is the first one.
\<close>

lemma print_numbers_in_order:
  assumes "int n < 2 ^ 31" and "l \<le> n" and "\<forall>v. int l < v \<and> v \<le> int n \<longrightarrow> ok v" and "l = 0 \<or> \<not> ok (int l)"
  shows "print_numbers_main ok (Some (int n)) =
    (if l < n then (concat (map (\<lambda>k. decimal (int k) @ '' '') [l + 1..<n]) @ decimal (int n) @ [CHR 0x0A], 0)
     else ([], if n = 0 then 0 else 1))"
proof -
  have n: "to_i32 (int n) = int n" using assms(1) by (simp add: is_i32_def)
  show ?thesis
  proof (cases "l < n")
    case True
    then have "Suc (nat (int n - 1)) = n" by simp
    then have "fst (number_process ok (int n) (int n - 1)) = concat (map (\<lambda>k. decimal (int k) @ '' '') [l + 1..<n])"
      using number_process_below[of l "int n" ok "int n - 1"] assms(3,4) True by (simp only:) simp
    then show ?thesis using True assms(3) n
      by (cases "number_process ok (int n) (int n - 1)",
        simp add: print_numbers_main_def number_process.simps[of ok "int n" "int n"])
  next
    case False
    then have "l = n" using assms(2) by simp
    then show ?thesis using assms(4) n
      by (auto simp: print_numbers_main_def number_process.simps[of ok "int n" "int n"])
  qed
qed

lemma print_numbers_in_order_witness:
  "print_numbers_main (\<lambda>v. v \<noteq> 2) (Some 4) = (decimal 3 @ '' '' @ decimal 4 @ [CHR 0x0A], 0)"
proof -
  have "[2 + 1..<4] = [3 :: nat]" by (simp add: upt_rec)
  then show ?thesis using print_numbers_in_order[of 4 2 "\<lambda>v. v \<noteq> 2"] by simp
qed

subsection \<open>Counting words\<close>

definition WEXITSTATUS :: "int \<Rightarrow> int" where
  "WEXITSTATUS status = status mod 256"

text \<open>
  The process number \<open>k\<close> of the chain, with the status it ends with; \<open>None\<close> when a word is written beyond the buffer.
  After a fork only the child reads on.
\<close>

function word_process :: "(nat \<Rightarrow> bool) \<Rightarrow> bool \<Rightarrow> nat \<Rightarrow> char list \<Rightarrow> (char list \<times> int) option" where
  "word_process ok in_child k inp =
     (case scan_string inp of
        None \<Rightarrow> Some (if in_child then [] else ''0'' @ [CHR 0x0A], 0)
      | Some (buffer, inp') \<Rightarrow>
          if 4096 < length buffer + 1 then None
          else if \<not> ok k then Some ([], 0)
          else (case word_process ok True (Suc k) inp' of
            None \<Rightarrow> None
          | Some (out, status) \<Rightarrow>
              let words_count = WEXITSTATUS status + 1 in
              if in_child then Some (out, words_count) else Some (out @ decimal words_count @ [CHR 0x0A], 0)))"
  by pat_completeness auto
termination by (relation "measure (\<lambda>(ok, in_child, k, inp). length inp)") (auto dest: scan_string_shorter)

declare word_process.simps [simp del]

definition count_words_main :: "(nat \<Rightarrow> bool) \<Rightarrow> char list \<Rightarrow> (char list \<times> int) option" where
  "count_words_main ok inp = word_process ok False 0 inp"

text \<open>The words of a text, counted where they begin, and the longest one.\<close>

fun word_starts :: "bool \<Rightarrow> char list \<Rightarrow> nat" where
  "word_starts after_ws [] = 0"
| "word_starts after_ws (c # cs) = (if after_ws \<and> \<not> is_ws c then 1 else 0) + word_starts (is_ws c) cs"

fun short_words :: "nat \<Rightarrow> char list \<Rightarrow> bool" where
  "short_words n [] = True"
| "short_words n (c # cs) = (if is_ws c then short_words 0 cs else n + 1 < 4096 \<and> short_words (n + 1) cs)"

lemma skip_ws: "word_starts True (dropWhile is_ws t) = word_starts True t" "short_words 0 (dropWhile is_ws t) = short_words 0 t"
  by (induction t) auto

lemma skip_word: "word_starts False t = word_starts True (dropWhile (\<lambda>c. \<not> is_ws c) t)"
  by (induction t) auto

lemma skip_short:
  "short_words n t \<Longrightarrow> n < 4096 \<Longrightarrow> short_words 0 (dropWhile (\<lambda>c. \<not> is_ws c) t) \<and> n + length (takeWhile (\<lambda>c. \<not> is_ws c) t) < 4096"
proof (induction t arbitrary: n)
  case (Cons c t)
  then show ?case using Cons.IH[of "Suc n"] by (cases "is_ws c") auto
qed simp

lemma scan_word:
  assumes "short_words 0 inp"
  shows "case scan_string inp of None \<Rightarrow> word_starts True inp = 0
    | Some (w, r) \<Rightarrow> word_starts True inp = Suc (word_starts True r) \<and> length w < 4096 \<and> short_words 0 r"
proof (cases "dropWhile is_ws inp")
  case Nil
  then show ?thesis using skip_ws(1)[of inp] by (simp add: scan_string_def del: dropWhile_eq_Nil_conv)
next
  case (Cons c t)
  then have c: "\<not> is_ws c" by (metis dropWhile_eq_Cons_conv)
  have "short_words 0 (c # t)" using skip_ws(2)[of inp] assms Cons by simp
  then show ?thesis
    using skip_ws(1)[of inp] Cons c skip_word[of t] skip_short[of 0 "c # t"] by (simp add: scan_string_def)
qed

text \<open>The status of a process that counts \<open>m\<close> words: one more than what fits in the exit status of its child.\<close>

definition counted :: "nat \<Rightarrow> int" where
  "counted m = (if m = 0 then 0 else int ((m - 1) mod 256 + 1))"

lemma counted_Suc: "WEXITSTATUS (counted m) + 1 = counted (Suc m)"
proof (cases m)
  case (Suc k)
  have "int (k mod 256 + 1) mod 256 = int ((k mod 256 + 1) mod 256)" by (simp only: zmod_int) simp
  also have "\<dots> = int (Suc k mod 256)" by (simp add: mod_Suc_eq)
  finally show ?thesis by (simp add: counted_def WEXITSTATUS_def Suc)
qed (simp add: counted_def WEXITSTATUS_def)

lemma word_process_child:
  assumes "short_words 0 inp" "m \<le> word_starts True inp" "\<forall>i<m. ok (k + i)" "m = word_starts True inp \<or> \<not> ok (k + m)"
  shows "word_process ok True k inp = Some ([], counted m)"
  using assms
proof (induction m arbitrary: k inp)
  case 0
  then show ?case using scan_word[OF 0(1)]
    by (subst word_process.simps) (auto simp: counted_def split: option.splits)
next
  case (Suc m)
  then obtain w r where s: "scan_string inp = Some (w, r)"
    using scan_word[OF Suc.prems(1)] by (cases "scan_string inp") auto
  then have w: "word_starts True inp = Suc (word_starts True r)" "length w < 4096" "short_words 0 r"
    using scan_word[OF Suc.prems(1)] by auto
  have "word_process ok True (Suc k) r = Some ([], counted m)"
    using Suc.IH[OF w(3), of "Suc k"] Suc.prems(2-4) w(1) by fastforce
  then show ?case using s w(2) Suc.prems(3) by (subst word_process.simps) (auto simp: counted_Suc)
qed

text \<open>
  C10: For a text with words of less than 4096 characters, of which the first \<open>m\<close> (or all) could be given to a new
  process, the program prints \<open>(m - 1) mod 256 + 1\<close>: the number of words, as long as there are at most 256 and no fork fails.  When the
  first fork fails nothing is printed.
\<close>

theorem count_words_counts:
  assumes "short_words 0 inp" and "m \<le> word_starts True inp" and "\<forall>i<m. ok i" and "m = word_starts True inp \<or> \<not> ok m"
  shows "count_words_main ok inp =
    Some (if m = 0 \<and> word_starts True inp \<noteq> 0 then [] else decimal (counted m) @ [CHR 0x0A], 0)
    \<and> (m \<le> 256 \<longrightarrow> counted m = int m) \<and> counted m \<le> 256"
proof -
  have "count_words_main ok inp =
    Some (if m = 0 \<and> word_starts True inp \<noteq> 0 then [] else decimal (counted m) @ [CHR 0x0A], 0)"
  proof (cases "scan_string inp")
    case None
    then have "m = 0" "word_starts True inp = 0" using scan_word[OF assms(1)] assms(2) by auto
    moreover have "decimal 0 = ''0''" by (simp add: decimal_def dec_digits.simps[of 0] digit_char_0)
    ultimately show ?thesis using None by (simp add: count_words_main_def word_process.simps counted_def)
  next
    case (Some p)
    then obtain w r where s: "scan_string inp = Some (w, r)" by (cases p) auto
    then have w: "word_starts True inp = Suc (word_starts True r)" "length w < 4096" "short_words 0 r"
      using scan_word[OF assms(1)] by auto
    show ?thesis
    proof (cases m)
      case 0
      then show ?thesis using s w assms(4) by (simp add: count_words_main_def word_process.simps)
    next
      case (Suc m')
      then have "word_process ok True 1 r = Some ([], counted m')"
        using word_process_child[OF w(3), of m' ok 1] assms(2-4) w(1) by auto
      then show ?thesis using s w(2) assms(3) Suc
        by (simp add: count_words_main_def word_process.simps[of ok False 0 inp] counted_Suc)
    qed
  qed
  then show ?thesis by (auto simp: counted_def)
qed

lemma count_words_counts_witness:
  "count_words_main (\<lambda>k. True) ''a bc  d'' = Some (decimal 3 @ [CHR 0x0A], 0)"
  using count_words_counts[of "''a bc  d''" 3 "\<lambda>k. True"] by (simp add: is_ws_def counted_def)

subsection \<open>A chain of threads and the limit of processes\<close>

text \<open>
  \<^verbatim>\<open>inf18-0_posix_threads_simple-create-join/main.c\<close>: a thread reads a number, starts the next thread, joins it and prints its
  own number.  Only one thread runs at a time, so the chain is a recursion as well.
\<close>

function number_reader :: "char list \<Rightarrow> char list" where
  "number_reader inp =
     (case scan_int inp of
        (None, _) \<Rightarrow> []
      | (Some v, r) \<Rightarrow> number_reader r @ decimal v @ [CHR 0x0A])"
  by pat_completeness auto
termination by (relation "measure length") (auto dest: scan_int_shorter[OF sym])

declare number_reader.simps [simp del]

text \<open>The numbers of the input are printed in the reverse order.\<close>

lemma number_reader_reverses:
  assumes "all_ints inp = Some vs"
  shows "number_reader inp = concat (map (\<lambda>v. decimal v @ [CHR 0x0A]) (rev vs))"
  using assms
proof (induction inp arbitrary: vs rule: number_reader.induct)
  case (1 inp)
  show ?case
  proof (cases "scan_int inp")
    case (Pair x r)
    show ?thesis
    proof (cases x)
      case None
      then show ?thesis using Pair all_ints_end[OF "1.prems"] by (simp add: number_reader.simps[of inp])
    next
      case (Some v)
      then obtain vs' where vs: "vs = v # vs'" "all_ints r = Some vs'"
        using all_ints_next[OF "1.prems"] Pair by blast
      then have "number_reader r = concat (map (\<lambda>v. decimal v @ [CHR 0x0A]) (rev vs'))"
        using "1.IH"[of "Some v" r v] Pair Some by simp
      then show ?thesis using Pair Some vs(1) by (simp add: number_reader.simps[of inp])
    qed
  qed
qed

text \<open>
  \<^verbatim>\<open>inf11-0_posix_fork_test-proc-limit/main.c\<close>: every process forks, its child goes on with the loop and the parent waits.
  \<open>n\<close> is the number of calls of \<^verbatim>\<open>fork\<close> that succeed; \<open>max_processes_count\<close> is the variable that is printed.
\<close>

fun proc_limit :: "nat \<Rightarrow> int \<Rightarrow> char list" where
  "proc_limit 0 max_processes_count = decimal max_processes_count"
| "proc_limit (Suc n) max_processes_count = proc_limit n max_processes_count"

text \<open>The variable is never incremented: whatever the limit is, 1 is printed.\<close>

lemma proc_limit_always_1: "proc_limit n 1 = ''1''"
proof (induction n)
  case 0
  show ?case by code_simp
qed simp

end
