(* ===== verification/SignalLoops.thy ===== *)
theory SignalLoops
  imports PrintList
begin

section \<open>Programs that wait for signals\<close>

text \<open>
  \<^verbatim>\<open>inf13-0-posix_signals_count-sigint\<close>, \<^verbatim>\<open>inf13-1-posix_signals_do-actions\<close> and \<^verbatim>\<open>inf14-0_posix_signals_signalfd-rtsig\<close> end in the
  same loop, \<^verbatim>\<open>while (!should_exit) pause();\<close>, and do their work in a signal handler.  The handler may run
  between any two steps of the loop.  What the programs share is proved in a locale; a signal that should end the
  program and is handled between the test and \<^verbatim>\<open>pause\<close> is not noticed before the next one.
  \<^verbatim>\<open>inf14-1-posix_signals_ping-pong-using-signals\<close> answers every signal with a signal.
\<close>

subsection \<open>The loop\<close>

datatype loop_pc = Test | Call | Paused | Left

datatype 'g loop_event = Own | Handled 'g

text \<open>
  A step of the program itself, which a paused program cannot make, and the run of the handler \<open>h\<close>; \<open>stop\<close> is the flag.
\<close>

fun loop_step :: "('g \<Rightarrow> 's \<Rightarrow> 's) \<Rightarrow> ('s \<Rightarrow> bool) \<Rightarrow> 'g loop_event \<Rightarrow> loop_pc \<times> 's \<Rightarrow> loop_pc \<times> 's" where
  "loop_step h stop Own (Test, s) = (if stop s then Left else Call, s)"
| "loop_step h stop Own (Call, s) = (Paused, s)"
| "loop_step h stop Own (Paused, s) = (Paused, s)"
| "loop_step h stop (Handled g) (Test, s) = (Test, h g s)"
| "loop_step h stop (Handled g) (Call, s) = (Call, h g s)"
| "loop_step h stop (Handled g) (Paused, s) = (Test, h g s)"
| "loop_step h stop e (Left, s) = (Left, s)"

definition run_loop :: "('g \<Rightarrow> 's \<Rightarrow> 's) \<Rightarrow> ('s \<Rightarrow> bool) \<Rightarrow> 'g loop_event list \<Rightarrow> loop_pc \<times> 's \<Rightarrow> loop_pc \<times> 's" where
  "run_loop h stop es st = fold (loop_step h stop) es st"

lemma run_loop_simps [simp]:
  "run_loop h stop [] st = st"
  "run_loop h stop (e # es) st = run_loop h stop es (loop_step h stop e st)"
  "run_loop h stop (es @ fs) st = run_loop h stop fs (run_loop h stop es st)"
  by (simp_all add: run_loop_def)

text \<open>The signals that are handled before the loop is left.\<close>

fun handled_signals :: "('g \<Rightarrow> 's \<Rightarrow> 's) \<Rightarrow> ('s \<Rightarrow> bool) \<Rightarrow> 'g loop_event list \<Rightarrow> loop_pc \<times> 's \<Rightarrow> 'g list" where
  "handled_signals h stop [] st = []"
| "handled_signals h stop (e # es) st =
     (case e of
        Own \<Rightarrow> handled_signals h stop es (loop_step h stop e st)
      | Handled g \<Rightarrow> if fst st = Left then [] else g # handled_signals h stop es (loop_step h stop e st))"

lemma left_stays: "run_loop h stop es (Left, s) = (Left, s)" "handled_signals h stop es (Left, s) = []"
  by (induction es) (auto split: loop_event.split)

lemma paused_stays: "run_loop h stop (replicate n Own) (Paused, s) = (Paused, s)"
  by (induction n) auto

lemma run_loop_state: "snd (run_loop h stop es st) = fold h (handled_signals h stop es st) (snd st)"
proof (induction es arbitrary: st)
  case (Cons e es)
  obtain pc s where st: "st = (pc, s)" by fastforce
  show ?case
    using Cons[of "loop_step h stop e st"] by (cases e; cases pc) (auto simp: st left_stays)
qed simp

lemma handled_signals_length: "length (handled_signals h stop es st) \<le> length es"
proof (induction es arbitrary: st)
  case (Cons e es)
  show ?case using Cons[of "loop_step h stop e st"] by (cases e) auto
qed simp

text \<open>What the loops rely on: \<open>final\<close> are the signals that set the flag, and nothing takes it back.\<close>

locale exit_loop =
  fixes h :: "'g \<Rightarrow> 's \<Rightarrow> 's" and stop :: "'s \<Rightarrow> bool" and final :: "'g \<Rightarrow> bool"
  assumes stop_h: "stop (h g s) \<longleftrightarrow> stop s \<or> final g"
begin

lemma stop_fold: "stop (fold h gs s) \<longleftrightarrow> stop s \<or> (\<exists>g\<in>set gs. final g)"
  by (induction gs arbitrary: s) (auto simp: stop_h)

lemma left_stop:
  assumes "fst (run_loop h stop es st) = Left" "fst st \<noteq> Left"
  shows "stop (snd (run_loop h stop es st))"
  using assms
proof (induction es arbitrary: st)
  case (Cons e es)
  obtain pc s where st: "st = (pc, s)" by fastforce
  show ?case
  proof (cases "fst (loop_step h stop e st) = Left")
    case True
    then show ?thesis using Cons.prems(2) by (cases e; cases pc) (auto simp: st left_stays split: if_splits)
  next
    case False
    then show ?thesis using Cons.IH[of "loop_step h stop e st"] Cons.prems(1) by simp
  qed
qed simp

text \<open>The loop is left only after a final signal.\<close>

lemma left_final:
  assumes "fst (run_loop h stop es (Test, s)) = Left" "\<not> stop s"
  shows "\<exists>g\<in>set (handled_signals h stop es (Test, s)). final g"
  using left_stop[OF assms(1)] assms(2) run_loop_state[of h stop es "(Test, s)"] stop_fold by simp

text \<open>A final signal ends the loop when the program is at its test or pauses.\<close>

lemma final_ends:
  assumes "run_loop h stop es (Test, s0) = (pc, s)" "pc = Test \<or> pc = Paused" "final g"
  shows "fst (run_loop h stop (es @ [Handled g, Own]) (Test, s0)) = Left"
  using assms by (auto simp: stop_h)

text \<open>It does not end it when it comes just before \<^verbatim>\<open>pause\<close>; then any further signal does.\<close>

lemma final_missed:
  assumes "run_loop h stop es (Test, s0) = (Call, s)" "final g"
  shows "run_loop h stop (es @ Handled g # Own # replicate n Own) (Test, s0) = (Paused, h g s)"
    and "fst (run_loop h stop (es @ Handled g # Own # replicate n Own @ [Handled g', Own]) (Test, s0)) = Left"
  using assms paused_stays[of h stop n "h g s"] by (auto simp: stop_h)

end

subsection \<open>Counting SIGINT\<close>

datatype count_signal = CountINT | CountTERM

record counter =
  sigint_count :: int
  should_exit :: bool

definition count_handle_signal :: "count_signal \<Rightarrow> counter \<Rightarrow> counter" where
  "count_handle_signal sig s =
     (if sig = CountTERM then s\<lparr>should_exit := True\<rparr>
      else if sig = CountINT then s\<lparr>sigint_count := to_i32 (sigint_count s + 1)\<rparr> else s)"

definition count_start :: counter where
  "count_start = \<lparr>sigint_count = 0, should_exit = False\<rparr>"

text \<open>What is printed at the end, for a run of the loop; \<open>None\<close> as long as it waits.\<close>

definition count_main :: "count_signal loop_event list \<Rightarrow> char list option" where
  "count_main es =
     (case run_loop count_handle_signal should_exit es (Test, count_start) of
        (pc, s) \<Rightarrow> if pc = Left then Some (decimal (sigint_count s) @ [CHR 0x0A]) else None)"

interpretation counting: exit_loop count_handle_signal should_exit "\<lambda>g. g = CountTERM"
  by unfold_locales (auto simp: count_handle_signal_def)

lemma fold_count:
  "sigint_count s = int n \<Longrightarrow> int (n + length gs) < 2 ^ 31 \<Longrightarrow>
   sigint_count (fold count_handle_signal gs s) = int (n + length (filter (\<lambda>g. g = CountINT) gs))"
proof (induction gs arbitrary: s n)
  case (Cons g gs)
  show ?case
  proof (cases g)
    case CountINT
    have "to_i32 (int n + 1) = int (Suc n)" using Cons.prems(2) by (simp add: is_i32_def)
    then show ?thesis using Cons.IH[of "count_handle_signal g s" "Suc n"] Cons.prems CountINT
      by (simp add: count_handle_signal_def)
  next
    case CountTERM
    then show ?thesis using Cons.IH[of "count_handle_signal g s" n] Cons.prems by (simp add: count_handle_signal_def)
  qed
qed simp

text \<open>
  C19: However the signals fall between the steps of the program: what it prints is the number of \<^verbatim>\<open>SIGINT\<close> handled before it
  left the loop, and it leaves the loop only after a \<^verbatim>\<open>SIGTERM\<close>.  A \<^verbatim>\<open>SIGTERM\<close> that is handled between the test and
  \<^verbatim>\<open>pause\<close> is lost: without a further signal the program waits for ever.
\<close>

theorem count_main_counts:
  assumes "int (length es) < 2 ^ 31"
  shows "(\<forall>out. count_main es = Some out \<longrightarrow>
      (let gs = handled_signals count_handle_signal should_exit es (Test, count_start) in
        out = decimal (int (length (filter (\<lambda>g. g = CountINT) gs))) @ [CHR 0x0A] \<and> CountTERM \<in> set gs))
    \<and> (\<forall>n. count_main (Own # Handled CountTERM # Own # replicate n Own) = None)
    \<and> (\<forall>n g. count_main (Own # Handled CountTERM # Own # replicate n Own @ [Handled g, Own]) \<noteq> None)"
proof -
  let ?gs = "handled_signals count_handle_signal should_exit es (Test, count_start)"
  have "length ?gs \<le> length es" by (rule handled_signals_length)
  then have "sigint_count (fold count_handle_signal ?gs count_start) = int (length (filter (\<lambda>g. g = CountINT) ?gs))"
    using fold_count[of count_start 0 ?gs] assms by (simp add: count_start_def le_less_trans)
  then have "out = decimal (int (length (filter (\<lambda>g. g = CountINT) ?gs))) @ [CHR 0x0A] \<and> CountTERM \<in> set ?gs"
    if "count_main es = Some out" for out
    using that counting.left_final[of es count_start] run_loop_state[of count_handle_signal should_exit es "(Test, count_start)"]
    by (auto simp: count_main_def count_start_def split: prod.splits if_splits)
  moreover have "count_main (Own # Handled CountTERM # Own # replicate n Own) = None" for n
    using counting.final_missed(1)[of "[Own]" count_start count_start CountTERM n]
    by (simp add: count_main_def count_start_def)
  moreover have "count_main (Own # Handled CountTERM # Own # replicate n Own @ [Handled g, Own]) \<noteq> None" for n g
    using counting.final_missed(2)[of "[Own]" count_start count_start CountTERM n g]
    by (auto simp: count_main_def count_start_def split: prod.splits)
  ultimately show ?thesis unfolding Let_def by blast
qed

theorem count_main_counts_witness:
  "count_main [Handled CountINT, Own, Handled CountINT, Own, Handled CountTERM, Own, Handled CountINT] = Some (decimal 2 @ [CHR 0x0A])"
proof -
  let ?es = "[Handled CountINT, Own, Handled CountINT, Own, Handled CountTERM, Own, Handled CountINT]"
  obtain out where "count_main ?es = Some out"
    by (simp add: count_main_def count_handle_signal_def count_start_def)
  then show ?thesis using count_main_counts[of ?es]
    by (simp add: count_handle_signal_def count_start_def Let_def)
qed

subsection \<open>Actions\<close>

datatype action_signal = ActUSR1 | ActUSR2 | ActStop

record actions =
  act_value :: int
  shown :: "char list"
  act_exit :: bool

definition act_handle_signal :: "action_signal \<Rightarrow> actions \<Rightarrow> actions" where
  "act_handle_signal sig s =
     (case sig of
        ActUSR1 \<Rightarrow> (let v = to_i32 (act_value s + 1) in s\<lparr>act_value := v, shown := shown s @ decimal v @ [CHR 0x0A]\<rparr>)
      | ActUSR2 \<Rightarrow> (let v = to_i32 (act_value s * - 1) in s\<lparr>act_value := v, shown := shown s @ decimal v @ [CHR 0x0A]\<rparr>)
      | ActStop \<Rightarrow> s\<lparr>act_exit := True\<rparr>)"

text \<open>
  \<^verbatim>\<open>scanf\<close> stores a number, finds none, or fails because a signal is handled while it waits; then the input is never read.
\<close>

datatype scanned = Number int | NoNumber | ScanInterrupted action_signal

definition act_start :: "scanned \<Rightarrow> actions" where
  "act_start r =
     (let s = \<lparr>act_value = 0, shown = [], act_exit = False\<rparr> in
      case r of Number v \<Rightarrow> s\<lparr>act_value := v\<rparr> | NoNumber \<Rightarrow> s | ScanInterrupted g \<Rightarrow> act_handle_signal g s)"

definition actions_main :: "scanned \<Rightarrow> action_signal loop_event list \<Rightarrow> loop_pc \<times> actions" where
  "actions_main r es = run_loop act_handle_signal act_exit es (Test, act_start r)"

interpretation acting: exit_loop act_handle_signal act_exit "\<lambda>g. g = ActStop"
  by unfold_locales (auto simp: act_handle_signal_def Let_def split: action_signal.splits)

text \<open>
  The value in closed form: every \<^verbatim>\<open>SIGUSR1\<close> counts with the sign that the later \<^verbatim>\<open>SIGUSR2\<close> give it.
\<close>

fun signed_sum :: "action_signal list \<Rightarrow> int \<Rightarrow> int" where
  "signed_sum [] v = v"
| "signed_sum (g # gs) v =
     (- 1) ^ length (filter (\<lambda>g. g = ActUSR2) gs) * (if g = ActUSR1 then 1 else 0)
     + signed_sum gs (if g = ActUSR2 then - v else v)"

lemma signed_sum_add: "signed_sum gs (v + d) = signed_sum gs v + (- 1) ^ length (filter (\<lambda>g. g = ActUSR2) gs) * d"
proof (induction gs arbitrary: v d)
  case (Cons g gs)
  show ?case
  proof (cases "g = ActUSR2")
    case True
    then show ?thesis using Cons.IH[of "- v" "- d"] by simp
  qed (simp add: Cons.IH)
qed simp

lemma fold_actions_value:
  assumes "\<bar>act_value s\<bar> + int (length gs) < 2 ^ 31"
  shows "act_value (fold act_handle_signal gs s) = signed_sum gs (act_value s)"
  using assms
proof (induction gs arbitrary: s)
  case (Cons g gs)
  let ?s = "act_handle_signal g s"
  have in_range: "is_i32 (act_value s + 1)" "is_i32 (- act_value s)"
    using Cons.prems unfolding is_i32_def by (simp_all, linarith+)
  have v: "act_value ?s = (if g = ActUSR1 then act_value s + 1 else if g = ActUSR2 then - act_value s else act_value s)"
    using in_range by (cases g) (auto simp: act_handle_signal_def Let_def)
  then have "\<bar>act_value ?s\<bar> + int (length gs) < 2 ^ 31" using Cons.prems by (auto split: if_splits)
  then show ?case using Cons.IH[of ?s] v signed_sum_add[of gs "act_value s" 1] by (cases g) simp_all
qed simp

lemma actions_main_value:
  assumes "actions_main (Number v) es = (pc, s)" "\<bar>v\<bar> + int (length es) < 2 ^ 31"
  shows "act_value s = signed_sum (handled_signals act_handle_signal act_exit es (Test, act_start (Number v))) v"
proof -
  let ?gs = "handled_signals act_handle_signal act_exit es (Test, act_start (Number v))"
  have "\<bar>v\<bar> + int (length ?gs) < 2 ^ 31"
    using assms(2) handled_signals_length[of act_handle_signal act_exit es "(Test, act_start (Number v))"] by linarith
  then show ?thesis
    using fold_actions_value[of "act_start (Number v)" ?gs] run_loop_state[of act_handle_signal act_exit es "(Test, act_start (Number v))"] assms(1)
    by (simp add: actions_main_def act_start_def)
qed

subsection \<open>Lines of files on request\<close>

text \<open>
  The signal \<^verbatim>\<open>SIGRTMIN + i\<close> asks for the next line of file \<open>i\<close>.  The index may lie outside of the array, the
  file may not be open, and at the end of a file \<^verbatim>\<open>getline\<close> leaves memory that is not initialised: then the program is
  \<open>crashed\<close>, and the rest of the state means nothing.
\<close>

record line_server =
  files_list :: "int \<Rightarrow> char list option"
  line_out :: "char list"
  line_exit :: bool
  crashed :: bool

definition SIGRTMIN :: int where "SIGRTMIN = 34"

definition getline :: "char list \<Rightarrow> char list" where
  "getline t = (let l = takeWhile (\<lambda>c. c \<noteq> CHR 0x0A) t in take (length l + 1) t)"

definition line_handle_signal :: "int \<Rightarrow> line_server \<Rightarrow> line_server" where
  "line_handle_signal sig s =
     (if sig = SIGRTMIN then s\<lparr>line_exit := True\<rparr>
      else let file_no = sig - SIGRTMIN in
        (case files_list s file_no of
           Some (c # t) \<Rightarrow>
             if 0 \<le> file_no
             then s\<lparr>files_list := (files_list s)(file_no := Some (drop (length (getline (c # t))) (c # t))),
                    line_out := line_out s @ getline (c # t)\<rparr>
             else s\<lparr>crashed := True\<rparr>
         | _ \<Rightarrow> s\<lparr>crashed := True\<rparr>))"

interpretation lines: exit_loop line_handle_signal line_exit "\<lambda>g. g = SIGRTMIN"
  by unfold_locales (auto simp: line_handle_signal_def Let_def split: option.split list.split)

text \<open>\<^verbatim>\<open>SIGINT\<close> has the same handler.\<close>

lemma sigint_crashes: "crashed (line_handle_signal 2 s)"
  by (auto simp: line_handle_signal_def SIGRTMIN_def Let_def split: option.split list.split)

lemma crashed_stays: "crashed s \<Longrightarrow> crashed (fold line_handle_signal gs s)"
proof (induction gs arbitrary: s)
  case (Cons g gs)
  then have "crashed (line_handle_signal g s)"
    by (auto simp: line_handle_signal_def Let_def split: option.split list.split)
  then show ?case using Cons.IH by simp
qed simp

text \<open>
  As long as nothing crashes, every signal prints the next line of its file: what was printed, file by file, and what is left
  make up the file.
\<close>

lemma lines_in_order:
  assumes "\<not> crashed (fold line_handle_signal gs s)"
  shows "\<exists>log. map fst log = map (\<lambda>g. g - SIGRTMIN) (filter (\<lambda>g. g \<noteq> SIGRTMIN) gs)
    \<and> line_out (fold line_handle_signal gs s) = line_out s @ concat (map snd log)
    \<and> (\<forall>i t. files_list s i = Some t \<longrightarrow> (\<exists>r. files_list (fold line_handle_signal gs s) i = Some r
        \<and> t = concat (map snd (filter (\<lambda>p. fst p = i) log)) @ r))"
  using assms
proof (induction gs arbitrary: s)
  case Nil
  then show ?case by (intro exI[of _ "[]"]) simp
next
  case (Cons g gs)
  let ?s = "line_handle_signal g s"
  obtain log where log: "map fst log = map (\<lambda>g. g - SIGRTMIN) (filter (\<lambda>g. g \<noteq> SIGRTMIN) gs)"
    "line_out (fold line_handle_signal gs ?s) = line_out ?s @ concat (map snd log)"
    "\<And>i t. files_list ?s i = Some t \<Longrightarrow> \<exists>r. files_list (fold line_handle_signal gs ?s) i = Some r
        \<and> t = concat (map snd (filter (\<lambda>p. fst p = i) log)) @ r"
    using Cons.IH[of ?s] Cons.prems by auto
  show ?case
  proof (cases "g = SIGRTMIN")
    case True
    then show ?thesis using log by (intro exI[of _ log]) (simp add: line_handle_signal_def[of SIGRTMIN s])
  next
    case False
    have "\<not> crashed ?s" using Cons.prems crashed_stays[of ?s gs] by auto
    then obtain c t where f: "files_list s (g - SIGRTMIN) = Some (c # t)" "0 \<le> g - SIGRTMIN"
      using False by (auto simp: line_handle_signal_def Let_def split: option.splits list.splits if_splits)
    let ?l = "getline (c # t)"
    have s: "?s = s\<lparr>files_list := (files_list s)(g - SIGRTMIN := Some (drop (length ?l) (c # t))), line_out := line_out s @ ?l\<rparr>"
      using f False by (simp add: line_handle_signal_def)
    have l: "?l @ drop (length ?l) (c # t) = c # t"
      by (simp add: getline_def Let_def min_def)
    have "\<exists>r. files_list (fold line_handle_signal (g # gs) s) i = Some r
        \<and> u = concat (map snd (filter (\<lambda>p. fst p = i) ((g - SIGRTMIN, ?l) # log))) @ r"
      if "files_list s i = Some u" for i u
      using log(3)[of i "if i = g - SIGRTMIN then drop (length ?l) (c # t) else u"] that f(1) l
      by (auto simp: s split: if_splits)
    then show ?thesis using log(1,2) False by (intro exI[of _ "(g - SIGRTMIN, ?l) # log"]) (simp add: s)
  qed
qed

subsection \<open>Ping-pong with signals\<close>

text \<open>
  Two processes that run the program; a signal with a value is on its way to \<open>to\<close>.  The process that receives 0 exits, any other value
  is sent back less one.  The values are at least 0.
\<close>

record ping_pong =
  in_flight :: "(nat \<times> int) option"
  exited :: "nat set"
  bounces :: nat

definition pong_handle_signal :: "nat \<Rightarrow> int \<Rightarrow> ping_pong \<Rightarrow> ping_pong" where
  "pong_handle_signal p v s =
     (if v = 0 then s\<lparr>in_flight := None, exited := insert p (exited s)\<rparr>
      else s\<lparr>in_flight := Some (1 - p, v - 1), bounces := bounces s + 1\<rparr>)"

function pong_run :: "ping_pong \<Rightarrow> ping_pong" where
  "pong_run s =
     (case in_flight s of
        None \<Rightarrow> s
      | Some (p, v) \<Rightarrow> if v < 0 then s else pong_run (pong_handle_signal p v s))"
  by pat_completeness auto
termination
  by (relation "measure (\<lambda>s. case in_flight s of None \<Rightarrow> 0 | Some (p, v) \<Rightarrow> Suc (nat v))")
    (auto simp: pong_handle_signal_def split: if_splits)

declare pong_run.simps [simp del]

text \<open>The signal goes to and fro as often as its value says; one of the two processes never ends.\<close>

lemma pong_ends:
  assumes "p \<le> 1" "in_flight s = Some (p, int n)" "exited s = {}"
  shows "pong_run s = \<lparr>in_flight = None, exited = {if even n then p else 1 - p}, bounces = bounces s + n\<rparr>"
  using assms
proof (induction n arbitrary: s p)
  case 0
  then show ?case
    by (subst pong_run.simps) (simp add: pong_handle_signal_def pong_run.simps[of "_\<lparr>in_flight := None, exited := _\<rparr>"])
next
  case (Suc n)
  let ?s = "pong_handle_signal p (int (Suc n)) s"
  have "pong_run ?s = \<lparr>in_flight = None, exited = {if even n then 1 - p else 1 - (1 - p)}, bounces = bounces ?s + n\<rparr>"
    using Suc.IH[of "1 - p" ?s] Suc.prems by (simp add: pong_handle_signal_def)
  moreover have "1 - (1 - p) = p" using Suc.prems(1) by simp
  ultimately show ?case using Suc.prems by (subst pong_run.simps) (simp add: pong_handle_signal_def)
qed

subsection \<open>The program that prints lines on request\<close>

text \<open>
  \<^verbatim>\<open>main\<close> of \<^verbatim>\<open>signalfd-rtsig\<close>: the files of the arguments are opened, the first one as number 1, and the loop waits for signals.
  \<open>None\<close> is more arguments than the array of files holds.
\<close>

definition lines_start :: "(char list \<Rightarrow> char list option) \<Rightarrow> char list list \<Rightarrow> line_server" where
  "lines_start fopen args =
     \<lparr>files_list = (\<lambda>i. if 1 \<le> i \<and> i \<le> int (length args) then fopen (args ! nat (i - 1)) else None),
      line_out = [], line_exit = False, crashed = False\<rparr>"

definition lines_main ::
  "(char list \<Rightarrow> char list option) \<Rightarrow> char list list \<Rightarrow> int loop_event list \<Rightarrow> (loop_pc \<times> line_server) option" where
  "lines_main fopen args es =
     (if length args < 100 then Some (run_loop line_handle_signal line_exit es (Test, lines_start fopen args)) else None)"

text \<open>
  As long as the program has not crashed, what it has printed is one line for every signal handled, in order, and for every file these
  lines and what is left make up its contents.
\<close>

lemma lines_main_prints:
  assumes "length args < 100" "lines_main fopen args es = Some (pc, s)" "\<not> crashed s"
  shows "\<exists>log. map fst log = map (\<lambda>g. g - SIGRTMIN) (filter (\<lambda>g. g \<noteq> SIGRTMIN)
        (handled_signals line_handle_signal line_exit es (Test, lines_start fopen args)))
    \<and> line_out s = concat (map snd log)
    \<and> (\<forall>i<length args. \<forall>t. fopen (args ! i) = Some t \<longrightarrow> (\<exists>r. t = concat (map snd (filter (\<lambda>p. fst p = int i + 1) log)) @ r))"
proof -
  let ?s = "lines_start fopen args"
  let ?gs = "handled_signals line_handle_signal line_exit es (Test, ?s)"
  have s: "s = fold line_handle_signal ?gs ?s"
    using assms(1,2) run_loop_state[of line_handle_signal line_exit es "(Test, ?s)"] by (auto simp: lines_main_def)
  then obtain log where log: "map fst log = map (\<lambda>g. g - SIGRTMIN) (filter (\<lambda>g. g \<noteq> SIGRTMIN) ?gs)"
    "line_out s = line_out ?s @ concat (map snd log)"
    "\<And>i t. files_list ?s i = Some t \<Longrightarrow> \<exists>r. files_list s i = Some r \<and> t = concat (map snd (filter (\<lambda>p. fst p = i) log)) @ r"
    using lines_in_order[of ?gs ?s] assms(3) by metis
  have "\<exists>r. t = concat (map snd (filter (\<lambda>p. fst p = int i + 1) log)) @ r"
    if "i < length args" "fopen (args ! i) = Some t" for i t
    using log(3)[of "int i + 1" t] that by (auto simp: lines_start_def)
  then show ?thesis using log(1,2) by (auto simp: lines_start_def)
qed


lemma lines_main_too_many: "100 \<le> length args \<Longrightarrow> lines_main fopen args es = None"
  by (simp add: lines_main_def)

end
