(* ===== verification/TimeoutRun.thy ===== *)
theory TimeoutRun
  imports Main
begin

section \<open>timeout: running a program for a limited time\<close>

text \<open>
  \<^verbatim>\<open>inf14-2_posix_signals_timeout/main.c\<close>.  The parent and the program that it started run at the same time; the step
  relation has a step for every system call of the parent, one for the end of the program at any moment, and one for the
  signal handler.  A \<^verbatim>\<open>SIGCHLD\<close> that comes before the handler is set is dropped, because by default the signal is ignored; one
  that is not blocked is handled before the parent goes on.  Time passes in \<^verbatim>\<open>sleep\<close>, which may end at any moment.
\<close>

datatype parent_pc = AtHandler | AtSleep | AtProhibit | AtKill | AtWait | AtPrint | Returned nat

datatype child_state = Running | Exited | Signaled | Reaped

record timeout_state =
  ppc :: parent_pc
  child :: child_state
  chld_pending :: bool
  out :: "char list"

text \<open>\<^verbatim>\<open>argc\<close> and whether \<^verbatim>\<open>fork\<close> succeeds.\<close>

definition timeout_start :: "nat \<Rightarrow> bool \<Rightarrow> timeout_state" where
  "timeout_start argc forked =
     (if argc < 3 \<or> \<not> forked then \<lparr>ppc = Returned 1, child = Reaped, chld_pending = False, out = []\<rparr>
      else \<lparr>ppc = AtHandler, child = Running, chld_pending = False, out = []\<rparr>)"

text \<open>The handler is called when the signal is pending, the handler set and the signals not blocked.\<close>

definition deliverable :: "timeout_state \<Rightarrow> bool" where
  "deliverable s \<longleftrightarrow> chld_pending s \<and> (ppc s = AtSleep \<or> ppc s = AtProhibit)"

text \<open>\<^verbatim>\<open>handle_signal\<close>; nothing happens when \<^verbatim>\<open>wait\<close> finds no ended child.\<close>

definition handle_signal :: "timeout_state \<Rightarrow> timeout_state" where
  "handle_signal s =
     (let s = s\<lparr>chld_pending := False\<rparr> in
      if child s = Exited then s\<lparr>child := Reaped, out := out s @ ''ok'' @ [CHR 0x0A], ppc := Returned 0\<rparr>
      else if child s = Signaled then s\<lparr>child := Reaped, out := out s @ ''signaled'' @ [CHR 0x0A], ppc := Returned 1\<rparr>
      else s)"

text \<open>One step of \<^verbatim>\<open>main\<close>; \<open>None\<close> when it waits or has returned.\<close>

definition parent_step :: "timeout_state \<Rightarrow> timeout_state option" where
  "parent_step s =
     (case ppc s of
        AtHandler \<Rightarrow> Some (s\<lparr>ppc := AtSleep\<rparr>)
      | AtSleep \<Rightarrow> Some (s\<lparr>ppc := AtProhibit\<rparr>)
      | AtProhibit \<Rightarrow> Some (s\<lparr>ppc := AtKill\<rparr>)
      | AtKill \<Rightarrow> Some (s\<lparr>ppc := AtWait\<rparr>)
      | AtWait \<Rightarrow> if child s = Running then None else Some (s\<lparr>child := Reaped, ppc := AtPrint\<rparr>)
      | AtPrint \<Rightarrow> Some (s\<lparr>out := out s @ ''timeout'' @ [CHR 0x0A], ppc := Returned 2\<rparr>)
      | Returned k \<Rightarrow> None)"

text \<open>The program ends by itself or by a signal, for example the \<^verbatim>\<open>SIGTERM\<close> it is sent.\<close>

definition child_ends :: "bool \<Rightarrow> timeout_state \<Rightarrow> timeout_state" where
  "child_ends by_signal s =
     s\<lparr>child := (if by_signal then Signaled else Exited), chld_pending := ppc s \<noteq> AtHandler\<rparr>"

inductive timeout_step :: "timeout_state \<Rightarrow> timeout_state \<Rightarrow> bool" where
  handler: "deliverable s \<Longrightarrow> timeout_step s (handle_signal s)"
| parent: "\<not> deliverable s \<Longrightarrow> parent_step s = Some s' \<Longrightarrow> timeout_step s s'"
| ends: "child s = Running \<Longrightarrow> timeout_step s (child_ends by_signal s)"

inductive_cases timeout_stepE: "timeout_step s s'"

subsection \<open>The invariant\<close>

definition timeout_inv :: "timeout_state \<Rightarrow> bool" where
  "timeout_inv s \<longleftrightarrow>
     (case ppc s of
        Returned k \<Rightarrow> child s = Reaped
          \<and> (k, out s) \<in> {(0, ''ok'' @ [CHR 0x0A]), (1, ''signaled'' @ [CHR 0x0A]), (2, ''timeout'' @ [CHR 0x0A])}
      | AtPrint \<Rightarrow> child s = Reaped \<and> out s = []
      | _ \<Rightarrow> child s \<noteq> Reaped \<and> out s = [])
     \<and> (chld_pending s \<longrightarrow> child s \<noteq> Running \<and> ppc s \<noteq> AtHandler)"

lemma timeout_step_inv:
  assumes "timeout_inv s" "timeout_step s s'"
  shows "timeout_inv s'"
  using assms(2)
proof (cases rule: timeout_step.cases)
  case handler
  then show ?thesis using assms(1)
    by (cases "child s") (auto simp: timeout_inv_def handle_signal_def deliverable_def Let_def)
next
  case parent
  then show ?thesis using assms(1)
    by (cases "ppc s") (auto simp: timeout_inv_def parent_step_def deliverable_def split: if_splits)
next
  case (ends by_signal)
  then show ?thesis using assms(1) by (cases "ppc s") (auto simp: timeout_inv_def child_ends_def)
qed

lemma timeout_reach_inv:
  "timeout_step\<^sup>*\<^sup>* s t \<Longrightarrow> timeout_inv s \<Longrightarrow> timeout_inv t"
  by (induction rule: rtranclp_induct) (auto intro: timeout_step_inv)

text \<open>Somebody can always move: only a program that does not end keeps the parent waiting.\<close>

lemma timeout_moves:
  assumes "\<forall>k. ppc s \<noteq> Returned k"
  shows "\<exists>s'. timeout_step s s'"
proof (cases "deliverable s \<or> child s = Running")
  case True
  then show ?thesis using timeout_step.handler timeout_step.ends by blast
next
  case False
  then have "\<exists>s'. parent_step s = Some s'" using assms by (auto simp: parent_step_def split: parent_pc.splits)
  then show ?thesis using False timeout_step.parent by blast
qed

fun pc_left :: "parent_pc \<Rightarrow> nat" where
  "pc_left AtHandler = 6" | "pc_left AtSleep = 5" | "pc_left AtProhibit = 4" | "pc_left AtKill = 3"
| "pc_left AtWait = 2" | "pc_left AtPrint = 1" | "pc_left (Returned k) = 0"

definition timeout_rank :: "timeout_state \<Rightarrow> nat" where
  "timeout_rank s = pc_left (ppc s) + (if child s = Running then 2 else 0) + (if chld_pending s then 1 else 0)"

lemma timeout_step_rank:
  assumes "timeout_step s s'" "timeout_inv s"
  shows "timeout_rank s' < timeout_rank s"
  using assms(1)
proof (cases rule: timeout_step.cases)
  case handler
  then show ?thesis using assms(2)
    by (cases "child s") (auto simp: timeout_rank_def handle_signal_def deliverable_def timeout_inv_def Let_def)
next
  case parent
  then show ?thesis
    by (cases "ppc s") (auto simp: timeout_rank_def parent_step_def split: if_splits)
next
  case (ends by_signal)
  then show ?thesis using assms(2) by (auto simp: timeout_rank_def child_ends_def timeout_inv_def)
qed

text \<open>When the end of the program was missed, the parent sleeps to the end and reports a timeout.\<close>

definition missed :: "timeout_state \<Rightarrow> bool" where
  "missed s \<longleftrightarrow> child s \<noteq> Running \<and> \<not> chld_pending s \<and> (\<forall>k. ppc s = Returned k \<longrightarrow> k = 2)"

lemma missed_step: "missed s \<Longrightarrow> timeout_step s s' \<Longrightarrow> missed s'"
  by (erule timeout_stepE)
    (auto simp: missed_def deliverable_def parent_step_def split: parent_pc.splits if_splits)

lemma missed_reach: "timeout_step\<^sup>*\<^sup>* s t \<Longrightarrow> missed s \<Longrightarrow> missed t"
  by (induction rule: rtranclp_induct) (auto intro: missed_step)

text \<open>When the program exits while the parent sleeps, the parent reports it.\<close>

lemma caught_step:
  assumes "deliverable s" "child s = Exited" "timeout_step s s'"
  shows "ppc s' = Returned 0 \<and> out s' = out s @ ''ok'' @ [CHR 0x0A]"
  using assms(3,1,2) by (cases rule: timeout_step.cases) (auto simp: handle_signal_def Let_def)

text \<open>
  C20: For every interleaving of the parent, the program and the signal: somebody can move until the parent returns, every step
  brings the end nearer, and when it has returned the program has been waited for and exactly one of the three
  messages was printed, with its exit status.  A program that exits while the parent sleeps is reported as ok; one that ends
  before the handler is set is reported as a timeout, whatever happens then.
\<close>

theorem timeout_reports:
  assumes "timeout_step\<^sup>*\<^sup>* (timeout_start argc True) s" and "3 \<le> argc"
  shows "((\<forall>k. ppc s \<noteq> Returned k) \<longrightarrow> (\<exists>s'. timeout_step s s'))
    \<and> (\<forall>s'. timeout_step s s' \<longrightarrow> timeout_rank s' < timeout_rank s)
    \<and> (\<forall>k. ppc s = Returned k \<longrightarrow> child s = Reaped
        \<and> (k, out s) \<in> {(0, ''ok'' @ [CHR 0x0A]), (1, ''signaled'' @ [CHR 0x0A]), (2, ''timeout'' @ [CHR 0x0A])})
    \<and> (ppc s = AtSleep \<and> child s = Running \<longrightarrow>
        (\<forall>t. timeout_step (child_ends False s) t \<longrightarrow> (ppc t, out t) = (Returned 0, ''ok'' @ [CHR 0x0A])))
    \<and> (ppc s = AtHandler \<and> child s \<noteq> Running \<longrightarrow>
        (\<forall>t k. timeout_step\<^sup>*\<^sup>* s t \<and> ppc t = Returned k \<longrightarrow> k = 2))"
proof -
  have inv: "timeout_inv s"
    using timeout_reach_inv[OF assms(1)] assms(2) by (simp add: timeout_inv_def timeout_start_def)
  have "(ppc t, out t) = (Returned 0, ''ok'' @ [CHR 0x0A])"
    if "ppc s = AtSleep" "child s = Running" "timeout_step (child_ends False s) t" for t
    using caught_step[OF _ _ that(3)] that(1) inv by (simp add: deliverable_def child_ends_def timeout_inv_def)
  moreover have "k = 2" if "ppc s = AtHandler" "child s \<noteq> Running" "timeout_step\<^sup>*\<^sup>* s t" "ppc t = Returned k" for t k
    using missed_reach[OF that(3)] that inv by (auto simp: missed_def timeout_inv_def)
  ultimately show ?thesis
    using timeout_moves[of s] timeout_step_rank[OF _ inv] inv by (auto simp: timeout_inv_def)
qed

lemma timeout_reports_witness:
  "timeout_step\<^sup>*\<^sup>* (timeout_start 3 True) (child_ends False (timeout_start 3 True))
    \<and> \<not> (\<exists>t. timeout_step\<^sup>*\<^sup>* (child_ends False (timeout_start 3 True)) t \<and> ppc t = Returned 0)"
proof -
  have r: "timeout_step\<^sup>*\<^sup>* (timeout_start 3 True) (child_ends False (timeout_start 3 True))"
    by (rule r_into_rtranclp, rule timeout_step.ends) (simp add: timeout_start_def)
  have "\<forall>t k. timeout_step\<^sup>*\<^sup>* (child_ends False (timeout_start 3 True)) t \<and> ppc t = Returned k \<longrightarrow> k = 2"
    using timeout_reports[OF r] by (simp add: timeout_start_def child_ends_def)
  then show ?thesis using r by fastforce
qed

end
