(* ===== verification/ExecCgi.thy ===== *)
theory ExecCgi
  imports PrintList ScanInput
begin

section \<open>exec-cgi: running a script for a request\<close>

text \<open>
  \<^verbatim>\<open>inf12-2-posix_exec_exec-cgi/main.c\<close>.  The request is read word by word with \<^verbatim>\<open>scanf\<close>, and the file that it names is run
  with four variables in its environment.  The arrays of \<^verbatim>\<open>main\<close> are not initialised: their contents are arguments.  What
  the program needs of the system, whether a file can be opened and run and what a running program prints for its environment, are
  parameters.  A write beyond an array is \<open>None\<close>.
\<close>

definition max_name :: nat where "max_name = 10000"

subsection \<open>The program\<close>

record arrays =
  REQUEST_METHOD :: "char list"
  SCRIPT_NAME :: "char list"
  QUERY_STRING :: "char list"
  HTTP_HOST :: "char list"
  full_path :: "char list"
  header_name :: "char list"
  header_value :: "char list"

record cgi_system =
  can_open :: "char list \<Rightarrow> bool"
  can_execute :: "char list \<Rightarrow> bool"
  fork_ok :: bool
  execve :: "char list \<Rightarrow> char list list \<Rightarrow> char list"

definition make_response :: "int \<Rightarrow> char list" where
  "make_response response_code =
     ''HTTP/1.1 '' @ decimal response_code @ '' '' @ (if response_code \<noteq> 200 then ''ERROR'' @ [CHR 0x0A] else ''OK'') @ [CHR 0x0A]"

text \<open>The text of a format: as long as it agrees with the input, the input is consumed.\<close>

fun match_literal :: "char list \<Rightarrow> char list \<Rightarrow> bool \<times> char list" where
  "match_literal [] inp = (True, inp)"
| "match_literal (c # cs) [] = (False, [])"
| "match_literal (c # cs) (d # inp) = (if c = d then match_literal cs inp else (False, d # inp))"

definition scan_protocol :: "char list \<Rightarrow> char list" where
  "scan_protocol inp = (case match_literal ''HTTP/1.1'' inp of (ok, inp) \<Rightarrow> if ok then skip_space inp else inp)"

text \<open>\<^verbatim>\<open>scanf("%s ")\<close> into an array, which keeps its contents at the end of the input.\<close>

definition scan_into :: "char list \<Rightarrow> char list \<Rightarrow> (bool \<times> char list \<times> char list) option" where
  "scan_into buf inp =
     (case scan_string inp of
        None \<Rightarrow> Some (False, buf, [])
      | Some (w, inp) \<Rightarrow> map_option (\<lambda>buf. (True, buf, skip_space inp)) (store_string buf w))"

lemma scan_into_shorter: "scan_into buf inp = Some (b, buf', inp') \<Longrightarrow> b \<Longrightarrow> length inp' < length inp"
  using length_skip_space scan_string_shorter
  by (fastforce simp: scan_into_def split: option.splits dest: le_less_trans)

lemma scan_into_le: "scan_into buf inp = Some (b, buf', inp') \<Longrightarrow> length inp' \<le> length inp"
  using scan_into_shorter[of buf inp b buf' inp'] by (cases b) (auto simp: scan_into_def split: option.splits)

function read_headers :: "arrays \<Rightarrow> char list \<Rightarrow> arrays option" where
  "read_headers a inp =
     (case scan_into (header_name a) inp of
        Some (True, name, inp1) \<Rightarrow>
          (case scan_into (header_value a) inp1 of
             Some (_, v, inp2) \<Rightarrow>
               let a = a\<lparr>header_name := name, header_value := v\<rparr> in
               if cstr name = ''Host:'' then
                 (case store_string (HTTP_HOST a) (cstr v) of
                    None \<Rightarrow> None
                  | Some h \<Rightarrow> read_headers (a\<lparr>HTTP_HOST := h\<rparr>) inp2)
               else read_headers a inp2
           | None \<Rightarrow> None)
      | Some (False, _, _) \<Rightarrow> Some a
      | None \<Rightarrow> None)"
  by pat_completeness auto
termination
  by (relation "measure (\<lambda>(a, inp). length inp)") (auto intro: le_less_trans[OF scan_into_le scan_into_shorter])

declare read_headers.simps [simp del]

text \<open>The script is the path up to a question mark; \<^verbatim>\<open>sscanf\<close> stores nothing when there is no such character.\<close>

definition set_script :: "arrays \<Rightarrow> arrays option" where
  "set_script a =
     (let w = takeWhile (\<lambda>c. c \<noteq> CHR ''?'') (cstr (full_path a)) in
      if w = [] then Some (a\<lparr>SCRIPT_NAME := (SCRIPT_NAME a)[0 := CHR ''.'']\<rparr>)
      else map_option (\<lambda>s. a\<lparr>SCRIPT_NAME := s\<rparr>) (store_string (SCRIPT_NAME a) (CHR ''.'' # w)))"

text \<open>The query is read behind as many characters of the path as the name of the script has.\<close>

definition set_query :: "arrays \<Rightarrow> arrays option" where
  "set_query a =
     (case scan_string (cstr (drop (length (cstr (SCRIPT_NAME a))) (full_path a))) of
        None \<Rightarrow> Some (a\<lparr>QUERY_STRING := (QUERY_STRING a)[0 := NUL]\<rparr>)
      | Some (w, _) \<Rightarrow> map_option (\<lambda>s. a\<lparr>QUERY_STRING := s\<rparr>) (store_string (QUERY_STRING a) w))"

text \<open>One variable, written into a new array with \<^verbatim>\<open>strcpy\<close> and \<^verbatim>\<open>strcat\<close>.\<close>

definition variable :: "char list \<Rightarrow> char list \<Rightarrow> char list option" where
  "variable name v = (if length (name @ v) + 1 \<le> max_name then Some (name @ v) else None)"

definition environment :: "arrays \<Rightarrow> char list list option" where
  "environment a =
     (case (variable ''HTTP_HOST='' (cstr (HTTP_HOST a)), variable ''QUERY_STRING='' (cstr (QUERY_STRING a)),
            variable ''REQUEST_METHOD='' (cstr (REQUEST_METHOD a)), variable ''SCRIPT_NAME='' (drop 1 (cstr (SCRIPT_NAME a)))) of
        (Some e0, Some e1, Some e2, Some e3) \<Rightarrow> Some [e0, e1, e2, e3]
      | _ \<Rightarrow> None)"

definition respond :: "cgi_system \<Rightarrow> arrays \<Rightarrow> char list option" where
  "respond sys a =
     (let script = cstr (SCRIPT_NAME a) in
      if \<not> can_open sys script then Some (make_response 404)
      else if \<not> can_execute sys script then Some (make_response 403)
      else if \<not> fork_ok sys then Some []
      else map_option (\<lambda>env. make_response 200 @ execve sys script env) (environment a))"

text \<open>What is printed for the standard input \<open>inp\<close>.\<close>

definition cgi_main :: "cgi_system \<Rightarrow> arrays \<Rightarrow> char list \<Rightarrow> char list option" where
  "cgi_main sys a inp =
     (case scan_into (REQUEST_METHOD a) inp of
        None \<Rightarrow> None
      | Some (_, m, inp) \<Rightarrow>
          (case scan_into (full_path a) inp of
             None \<Rightarrow> None
           | Some (_, p, inp) \<Rightarrow>
               (case set_script (a\<lparr>REQUEST_METHOD := m, full_path := p\<rparr>) of
                  None \<Rightarrow> None
                | Some a \<Rightarrow>
                    (case set_query a of
                       None \<Rightarrow> None
                     | Some a \<Rightarrow>
                         (case read_headers a (scan_protocol inp) of None \<Rightarrow> None | Some a \<Rightarrow> respond sys a)))))"

subsection \<open>Requests\<close>

definition ws_free :: "char list \<Rightarrow> bool" where
  "ws_free s \<longleftrightarrow> (\<forall>c\<in>set s. \<not> is_ws c \<and> c \<noteq> NUL)"

text \<open>The text of a request with a query and headers of one word each.\<close>

definition request_head :: "char list \<Rightarrow> char list \<Rightarrow> char list" where
  "request_head m p = m @ '' '' @ p @ '' HTTP/1.1'' @ [CHR 0x0A]"

definition header_lines :: "(char list \<times> char list) list \<Rightarrow> char list" where
  "header_lines hs = concat (map (\<lambda>(n, v). n @ '' '' @ v @ [CHR 0x0A]) hs)"

fun last_host :: "(char list \<times> char list) list \<Rightarrow> char list \<Rightarrow> char list" where
  "last_host [] h = h"
| "last_host ((n, v) # hs) h = last_host hs (if n = ''Host:'' then v else h)"

text \<open>The sizes of the arrays.\<close>

definition sized :: "arrays \<Rightarrow> bool" where
  "sized a \<longleftrightarrow> length (REQUEST_METHOD a) = 10 \<and> length (SCRIPT_NAME a) = max_name \<and> length (QUERY_STRING a) = max_name
     \<and> length (HTTP_HOST a) = max_name \<and> length (full_path a) = max_name \<and> length (header_name a) = max_name
     \<and> length (header_value a) = max_name"

lemma length_store: "store_string buf s = Some b \<Longrightarrow> length b = length buf"
  by (auto simp: store_string_def split: if_splits)

lemma store_cstr: "store_string buf s = Some b \<Longrightarrow> NUL \<notin> set s \<Longrightarrow> cstr b = s"
  by (auto simp: store_string_def overwrite_def split: if_splits)

lemma scan_into_word:
  assumes "is_word w" "is_ws c" "length w < length buf"
  obtains b where "scan_into buf (w @ c # r) = Some (True, b, skip_space (c # r))" "length b = length buf" "cstr b = w"
    "b = w @ NUL # drop (length w + 1) buf"
proof -
  have s: "store_string buf w = Some (w @ NUL # drop (length w + 1) buf)" using store_word assms(3) by blast
  moreover have "NUL \<notin> set w" using assms(1) by (auto simp: is_word_def)
  ultimately show ?thesis
    using that scan_word_ws[OF assms(1,2)] length_store[OF s] store_cstr[OF s] by (simp add: scan_into_def)
qed

lemma skip_header:
  assumes "\<forall>(n, v)\<in>set hs. is_word n"
  shows "skip_space (CHR 0x0A # header_lines hs) = header_lines hs"
proof (cases hs)
  case Nil
  then show ?thesis by (simp add: header_lines_def skip_space_def newline_char)
next
  case (Cons h hs')
  obtain n v where "h = (n, v)" by fastforce
  then show ?thesis using Cons assms skip_space_word[of n "CHR 0x0A"] by (simp add: header_lines_def newline_char)
qed

lemma read_headers_lines:
  assumes "\<forall>(n, v)\<in>set hs. is_word n \<and> is_word v \<and> length n < max_name \<and> length v < max_name"
    and "length (HTTP_HOST a) = max_name" "length (header_name a) = max_name" "length (header_value a) = max_name"
  shows "\<exists>a'. read_headers a (header_lines hs) = Some a' \<and> cstr (HTTP_HOST a') = last_host hs (cstr (HTTP_HOST a))
    \<and> REQUEST_METHOD a' = REQUEST_METHOD a \<and> SCRIPT_NAME a' = SCRIPT_NAME a \<and> QUERY_STRING a' = QUERY_STRING a"
  using assms
proof (induction hs arbitrary: a)
  case Nil
  then show ?case
    by (subst read_headers.simps) (simp add: header_lines_def scan_into_def scan_string_Nil)
next
  case (Cons h hs)
  obtain n v where h: "h = (n, v)" by fastforce
  have w: "is_word n" "is_word v" "length n < max_name" "length v < max_name" using Cons.prems(1) h by auto
  have line: "header_lines (h # hs) = n @ CHR '' '' # v @ CHR 0x0A # header_lines hs" by (simp add: header_lines_def h)
  have small: "length n < length (header_name a)" "length v < length (header_value a)" using w(3,4) Cons.prems(3,4) by simp_all
  obtain nb where nb: "scan_into (header_name a) (n @ CHR '' '' # v @ CHR 0x0A # header_lines hs)
      = Some (True, nb, skip_space (CHR '' '' # v @ CHR 0x0A # header_lines hs))" "length nb = length (header_name a)" "cstr nb = n"
    by (rule scan_into_word[OF w(1) newline_char(3) small(1)])
  have sk: "skip_space (CHR '' '' # v @ CHR 0x0A # header_lines hs) = v @ CHR 0x0A # header_lines hs"
    by (rule skip_space_word[OF w(2) newline_char(3)])
  obtain vb where vb: "scan_into (header_value a) (v @ CHR 0x0A # header_lines hs)
      = Some (True, vb, skip_space (CHR 0x0A # header_lines hs))" "length vb = length (header_value a)" "cstr vb = v"
    by (rule scan_into_word[OF w(2) newline_char(1) small(2)])
  have sk2: "skip_space (CHR 0x0A # header_lines hs) = header_lines hs" using skip_header[of hs] Cons.prems(1) by auto
  let ?a = "a\<lparr>header_name := nb, header_value := vb\<rparr>"
  show ?case
  proof (cases "n = ''Host:''")
    case True
    obtain hb where hb: "store_string (HTTP_HOST a) v = Some hb" using store_word w(4) Cons.prems(2) by metis
    have "NUL \<notin> set v" using w(2) by (auto simp: is_word_def)
    then have "length hb = max_name" "cstr hb = v" using length_store[OF hb] store_cstr[OF hb] Cons.prems(2) by simp_all
    then show ?thesis
      using Cons.IH[of "?a\<lparr>HTTP_HOST := hb\<rparr>"] Cons.prems nb vb sk sk2 hb True
      unfolding line by (subst read_headers.simps) (simp add: h)
  next
    case False
    then show ?thesis using Cons.IH[of ?a] Cons.prems nb vb sk sk2 False
      unfolding line by (subst read_headers.simps) (simp add: h)
  qed
qed

lemma set_script_path:
  assumes "cstr (full_path a) = p @ q" "ws_free p" "p \<noteq> []" "CHR ''?'' \<notin> set p" "q = [] \<or> hd q = CHR ''?''"
    and "length (SCRIPT_NAME a) = max_name" "length p + 2 \<le> max_name"
  obtains s where "set_script a = Some (a\<lparr>SCRIPT_NAME := s\<rparr>)" "cstr s = CHR ''.'' # p"
proof -
  have "takeWhile (\<lambda>c. c \<noteq> CHR ''?'') (p @ q) = p"
    using assms(4,5) by (cases q) (auto simp: takeWhile_append)
  moreover obtain s where s: "store_string (SCRIPT_NAME a) (CHR ''.'' # p) = Some s"
    using assms(6,7) by (auto simp: store_string_def)
  moreover have "NUL \<notin> set (CHR ''.'' # p)" using assms(2) by (auto simp: ws_free_def NUL_def)
  ultimately show ?thesis using that[of s] store_cstr[OF s] assms(1,3) by (simp add: set_script_def)
qed

lemma set_query_path:
  assumes "full_path a = (p @ CHR ''?'' # q) @ NUL # r" "cstr (SCRIPT_NAME a) = CHR ''.'' # p" "is_word p" "is_word q"
    and "length (QUERY_STRING a) = max_name" "length q < max_name"
  obtains s where "set_query a = Some (a\<lparr>QUERY_STRING := s\<rparr>)" "cstr s = q"
proof -
  have nul: "NUL \<notin> set q" using assms(4) by (auto simp: is_word_def)
  have "cstr (drop (length (cstr (SCRIPT_NAME a))) (full_path a)) = q"
    using nul unfolding assms(1,2) by simp
  moreover obtain s where s: "store_string (QUERY_STRING a) q = Some s"
    using store_word assms(5,6) by metis
  ultimately show ?thesis using that[of s] store_cstr[OF s nul] scan_word_end[OF assms(4)] by (simp add: set_query_def)
qed

lemma scan_protocol_head: "scan_protocol (''HTTP/1.1'' @ r) = skip_space r"
  by (simp add: scan_protocol_def)

lemma last_host_word:
  "\<forall>(n, v)\<in>set hs. P v \<Longrightarrow> P h \<or> (\<exists>v. (''Host:'', v) \<in> set hs) \<Longrightarrow> P (last_host hs h)"
proof (induction hs h rule: last_host.induct)
  case (2 n v hs h)
  then have "P (if n = ''Host:'' then v else h) \<or> (\<exists>v. (''Host:'', v) \<in> set hs)" by auto
  then show ?case using 2 by simp
qed simp

lemma last_host_default: "\<exists>v. (''Host:'', v) \<in> set hs \<Longrightarrow> last_host hs h = last_host hs h'"
proof (induction hs arbitrary: h h')
  case (Cons x hs)
  obtain n v where x: "x = (n, v)" by fastforce
  show ?case
  proof (cases "n = ''Host:''")
    case False
    then have "\<exists>v. (''Host:'', v) \<in> set hs" using Cons.prems x by auto
    then show ?thesis using Cons.IH[of h h'] x False by simp
  qed (simp add: x)
qed simp

lemma variable_fits: "length name + length v < max_name \<Longrightarrow> variable name v = Some (name @ v)"
  by (simp add: variable_def)

text \<open>
  C11: For a request with a method of at most 9 characters, a path, a query and headers of one word each, with a host that fits, the
  script is run exactly when it can be opened and executed, with the query, the method, the path and the last \<^verbatim>\<open>Host:\<close> in its
  environment, whatever the arrays held before; else the response is 403 or 404.
\<close>

theorem cgi_main_runs:
  assumes "sized a" and "is_word m" and "length m < 10" and "is_word p" and "CHR ''?'' \<notin> set p" and "is_word q"
    and "length p + length q + 15 \<le> max_name"
    and "\<forall>(n, v)\<in>set hs. is_word n \<and> is_word v \<and> length n < max_name \<and> length v + 11 \<le> max_name"
    and "\<exists>v. (''Host:'', v) \<in> set hs"
  shows "cgi_main sys a (request_head m (p @ ''?'' @ q) @ header_lines hs) =
    Some (if \<not> can_open sys (CHR ''.'' # p) then make_response 404
          else if \<not> can_execute sys (CHR ''.'' # p) then make_response 403
          else if \<not> fork_ok sys then []
          else make_response 200 @ execve sys (CHR ''.'' # p)
            [''HTTP_HOST='' @ last_host hs [], ''QUERY_STRING='' @ q, ''REQUEST_METHOD='' @ m, ''SCRIPT_NAME='' @ p])"
proof -
  let ?pq = "p @ CHR ''?'' # q"
  have pq: "is_word ?pq" using assms(4,6) by (auto simp: is_word_def is_ws_def NUL_def)
  have nul: "NUL \<notin> set ?pq" using pq by (auto simp: is_word_def)
  define rest2 where "rest2 = ''HTTP/1.1'' @ CHR 0x0A # header_lines hs"
  have inp: "request_head m (p @ ''?'' @ q) @ header_lines hs = m @ CHR '' '' # ?pq @ CHR '' '' # rest2"
    by (simp add: request_head_def rest2_def)
  have small: "length m < length (REQUEST_METHOD a)" "length ?pq < length (full_path a)"
    using assms(1,3,7) by (simp_all add: sized_def)
  obtain mb where mb: "scan_into (REQUEST_METHOD a) (m @ CHR '' '' # ?pq @ CHR '' '' # rest2)
      = Some (True, mb, skip_space (CHR '' '' # ?pq @ CHR '' '' # rest2))" "cstr mb = m"
    by (rule scan_into_word[OF assms(2) newline_char(3) small(1)])
  obtain pb where pb: "scan_into (full_path a) (?pq @ CHR '' '' # rest2)
      = Some (True, pb, skip_space (CHR '' '' # rest2))" "cstr pb = ?pq" "pb = ?pq @ NUL # drop (length ?pq + 1) (full_path a)"
    by (rule scan_into_word[OF pq newline_char(3) small(2)])
  have sk: "skip_space (CHR '' '' # ?pq @ CHR '' '' # rest2) = ?pq @ CHR '' '' # rest2" "skip_space (CHR '' '' # rest2) = rest2"
    using skip_space_word[OF pq newline_char(3)] skip_space_word[of "''HTTP/1.1''" "CHR '' ''"]
    by (simp_all add: rest2_def newline_char is_word_def is_ws_def NUL_def)
  let ?a1 = "a\<lparr>REQUEST_METHOD := mb, full_path := pb\<rparr>"
  obtain s where s: "set_script ?a1 = Some (?a1\<lparr>SCRIPT_NAME := s\<rparr>)" "cstr s = CHR ''.'' # p"
    by (rule set_script_path[of ?a1 p "CHR ''?'' # q"])
      (use assms(1,4,5,7) pb(2) in \<open>simp_all add: sized_def is_word_def ws_free_def\<close>)
  let ?a2 = "?a1\<lparr>SCRIPT_NAME := s\<rparr>"
  obtain qs where qs: "set_query ?a2 = Some (?a2\<lparr>QUERY_STRING := qs\<rparr>)" "cstr qs = q"
    by (rule set_query_path[of ?a2 p q "drop (length ?pq + 1) (full_path a)"])
      (use assms(1,4,6,7) pb(3) s(2) in \<open>simp_all add: sized_def\<close>)
  let ?a3 = "?a2\<lparr>QUERY_STRING := qs\<rparr>"
  have "\<forall>(n, v)\<in>set hs. is_word n \<and> is_word v \<and> length n < max_name \<and> length v < max_name" using assms(8) by auto
  then obtain a4 where a4: "read_headers ?a3 (header_lines hs) = Some a4"
    "cstr (HTTP_HOST a4) = last_host hs (cstr (HTTP_HOST ?a3))" "REQUEST_METHOD a4 = mb" "SCRIPT_NAME a4 = s" "QUERY_STRING a4 = qs"
    using read_headers_lines[of hs ?a3] assms(1) by (auto simp: sized_def)
  have host: "cstr (HTTP_HOST a4) = last_host hs []" using a4(2) last_host_default[OF assms(9)] by metis
  have "length (last_host hs []) + 11 \<le> max_name"
    using last_host_word[of hs "\<lambda>v. length v + 11 \<le> max_name" "[]"] assms(8,9) by auto
  then have env: "environment a4 = Some [''HTTP_HOST='' @ last_host hs [], ''QUERY_STRING='' @ q, ''REQUEST_METHOD='' @ m, ''SCRIPT_NAME='' @ p]"
    using assms(3,7) mb(2) s(2) qs(2)
    by (simp add: environment_def host a4(3-5) variable_fits max_name_def)
  have "scan_protocol rest2 = header_lines hs"
    using scan_protocol_head[of "CHR 0x0A # header_lines hs"] skip_header[of hs] assms(8) by (auto simp: rest2_def)
  then have "cgi_main sys a (m @ CHR '' '' # ?pq @ CHR '' '' # rest2) = respond sys a4"
    using mb(1) pb(1) sk s(1) qs(1) a4(1) by (simp add: cgi_main_def)
  then show ?thesis unfolding inp using env s(2) a4(4) by (simp add: respond_def)
qed

definition demo_arrays :: arrays where
  "demo_arrays = \<lparr>REQUEST_METHOD = replicate 10 NUL, SCRIPT_NAME = replicate max_name NUL, QUERY_STRING = replicate max_name NUL,
     HTTP_HOST = replicate max_name NUL, full_path = replicate max_name NUL, header_name = replicate max_name NUL,
     header_value = replicate max_name NUL\<rparr>"

definition demo_system :: cgi_system where
  "demo_system = \<lparr>can_open = (\<lambda>p. p = ''./run.py''), can_execute = (\<lambda>p. True), fork_ok = True, execve = (\<lambda>p env. env ! 1)\<rparr>"

theorem cgi_main_runs_witness:
  "cgi_main demo_system demo_arrays (request_head ''GET'' ''/run.py?a=b'' @ header_lines [(''Host:'', ''www'')])
    = Some (''HTTP/1.1 '' @ decimal 200 @ '' OK'' @ [CHR 0x0A] @ ''QUERY_STRING=a=b'')"
  using cgi_main_runs[of demo_arrays "''GET''" "''/run.py''" "''a=b''" "[(''Host:'', ''www'')]" demo_system]
  by (simp add: demo_arrays_def demo_system_def sized_def is_word_def is_ws_def NUL_def make_response_def)
    (simp add: max_name_def)

text \<open>
  Without a question mark the query is read behind the NUL of the path: it is what the array happened to hold there.
\<close>

lemma query_behind_path:
  assumes "full_path a = p @ NUL # w @ NUL # r" "NUL \<notin> set p" "cstr (SCRIPT_NAME a) = CHR ''.'' # p" "is_word w"
    and "length w < length (QUERY_STRING a)"
  shows "\<exists>s. set_query a = Some (a\<lparr>QUERY_STRING := s\<rparr>) \<and> cstr s = w"
proof -
  have nul: "NUL \<notin> set w" using assms(4) by (auto simp: is_word_def)
  have "drop (length p + 1) (full_path a) = w @ NUL # r" unfolding assms(1) by simp
  then have "cstr (drop (length (cstr (SCRIPT_NAME a))) (full_path a)) = w" using nul by (simp add: assms(3))
  moreover obtain s where s: "store_string (QUERY_STRING a) w = Some s" using store_word assms(5) by metis
  ultimately show ?thesis using store_cstr[OF s nul] scan_word_end[OF assms(4)] by (auto simp: set_query_def)
qed

text \<open>A header with two words before it hides the \<^verbatim>\<open>Host:\<close>, because names and values are read as pairs of words.\<close>

lemma host_misaligned:
  "map_option (\<lambda>a. cstr (HTTP_HOST a)) (read_headers \<lparr>REQUEST_METHOD = [], SCRIPT_NAME = [], QUERY_STRING = [],
     HTTP_HOST = replicate 20 NUL, full_path = [], header_name = replicate 20 NUL, header_value = replicate 20 NUL\<rparr>
     (''Accept: a b'' @ [CHR 0x0A] @ ''Host: www'' @ [CHR 0x0A])) = Some []"
  by code_simp

text \<open>A method of ten or more characters is written beyond its array.\<close>

lemma long_method:
  assumes "sized a" "is_word m" "10 \<le> length m"
  shows "cgi_main sys a (m @ CHR '' '' # r) = None"
  using assms scan_word_ws[OF assms(2) newline_char(3)]
  by (simp add: cgi_main_def scan_into_def store_string_def sized_def)

end
