(* ===== verification/Pipes.thy ===== *)
theory Pipes
  imports PrintList
begin

section \<open>Programs connected by pipes\<close>

text \<open>
  \<^verbatim>\<open>inf15-0-posix_pipe_launch\<close> counts what a program prints, \<^verbatim>\<open>inf15-1-posix_pipe_connect-2-processes\<close> connects two programs,
  \<^verbatim>\<open>inf15-4-posix_pipe_connect-n-processes-one-pipe\<close> a list of them.  A pipe holds at most \<open>cap\<close> bytes: a
  writer waits while it is full, a reader while it is empty and somebody may still write.  The programs that are started are
  not part of the source; a program is the function from what it reads to what it prints, and reads all of its input.

  In the first two programs writer and reader run at the same time, and everything arrives for every interleaving and every
  capacity.  In the third the programs run one after the other, so an output that does not fit in the pipe stops it for ever.
  There the descriptor tables of the parent and of the children are part of the model: which end of which pipe a program
  reads and writes, and whether it ever sees the end of its input, follows from the calls of \<^verbatim>\<open>pipe\<close>, \<^verbatim>\<open>fork\<close>, \<^verbatim>\<open>dup2\<close> and \<^verbatim>\<open>close\<close>.
\<close>

subsection \<open>A writer, a pipe and a reader\<close>

record 'r pipe_run =
  unsent :: "char list"
  buffered :: "char list"
  writer_done :: bool
  reader :: 'r
  reader_done :: bool

text \<open>
  One call of \<^verbatim>\<open>write\<close> or \<^verbatim>\<open>read\<close> that transfers at most \<open>k\<close> bytes; \<open>None\<close> when it waits or the process has ended.  A writer that
  has written everything ends, which closes its end; the reader then sees the end of the data.  \<open>feed\<close> is what the reader does
  with the bytes.
\<close>

definition writer_step :: "nat \<Rightarrow> nat \<Rightarrow> 'r pipe_run \<Rightarrow> 'r pipe_run option" where
  "writer_step cap k s =
     (if writer_done s then None
      else if unsent s = [] then Some (s\<lparr>writer_done := True\<rparr>)
      else let n = min (max 1 k) (min (length (unsent s)) (cap - length (buffered s))) in
        if n = 0 then None
        else Some (s\<lparr>unsent := drop n (unsent s), buffered := buffered s @ take n (unsent s)\<rparr>))"

definition reader_step :: "('r \<Rightarrow> char list \<Rightarrow> 'r) \<Rightarrow> nat \<Rightarrow> nat \<Rightarrow> 'r pipe_run \<Rightarrow> 'r pipe_run option" where
  "reader_step feed bufsz k s =
     (if reader_done s then None
      else if buffered s \<noteq> [] then
        let n = min (max 1 k) (min bufsz (length (buffered s)))
        in Some (s\<lparr>buffered := drop n (buffered s), reader := feed (reader s) (take n (buffered s))\<rparr>)
      else if writer_done s then Some (s\<lparr>reader_done := True\<rparr>)
      else None)"

definition pipe_start :: "char list \<Rightarrow> 'r \<Rightarrow> 'r pipe_run" where
  "pipe_start out r = \<lparr>unsent = out, buffered = [], writer_done = False, reader = r, reader_done = False\<rparr>"

inductive pipe_step :: "('r \<Rightarrow> char list \<Rightarrow> 'r) \<Rightarrow> nat \<Rightarrow> nat \<Rightarrow> 'r pipe_run \<Rightarrow> 'r pipe_run \<Rightarrow> bool" for feed cap bufsz where
  writer: "writer_step cap k s = Some s' \<Longrightarrow> pipe_step feed cap bufsz s s'"
| reader: "reader_step feed bufsz k s = Some s' \<Longrightarrow> pipe_step feed cap bufsz s s'"

inductive_cases pipe_stepE: "pipe_step feed cap bufsz s s'"

lemma writer_stepE:
  assumes "writer_step cap k s = Some s'"
  obtains (ends) "\<not> writer_done s" "unsent s = []" "s' = s\<lparr>writer_done := True\<rparr>"
  | (sends) n where "\<not> writer_done s" "0 < n" "n \<le> length (unsent s)" "length (buffered s) + n \<le> cap"
      "s' = s\<lparr>unsent := drop n (unsent s), buffered := buffered s @ take n (unsent s)\<rparr>"
proof (cases "writer_done s \<or> unsent s = []")
  case True
  then show ?thesis using assms ends by (auto simp: writer_step_def split: if_splits)
next
  case False
  let ?n = "min (max 1 k) (min (length (unsent s)) (cap - length (buffered s)))"
  have "?n \<noteq> 0" "s' = s\<lparr>unsent := drop ?n (unsent s), buffered := buffered s @ take ?n (unsent s)\<rparr>"
    using assms False by (auto simp: writer_step_def Let_def split: if_splits)
  then show ?thesis using sends[of ?n] False by linarith
qed

lemma reader_stepE:
  assumes "reader_step feed bufsz k s = Some s'" "0 < bufsz"
  obtains (ends) "\<not> reader_done s" "buffered s = []" "writer_done s" "s' = s\<lparr>reader_done := True\<rparr>"
  | (takes) n where "\<not> reader_done s" "0 < n" "n \<le> length (buffered s)"
      "s' = s\<lparr>buffered := drop n (buffered s), reader := feed (reader s) (take n (buffered s))\<rparr>"
proof (cases "reader_done s \<or> buffered s = []")
  case True
  then show ?thesis using assms(1) ends by (auto simp: reader_step_def split: if_splits)
next
  case False
  let ?n = "min (max 1 k) (min bufsz (length (buffered s)))"
  have "0 < ?n" using False assms(2) by simp
  moreover have "s' = s\<lparr>buffered := drop ?n (buffered s), reader := feed (reader s) (take ?n (buffered s))\<rparr>"
    using assms(1) False by (simp add: reader_step_def Let_def)
  ultimately show ?thesis using takes[of ?n] False by simp
qed

text \<open>What a reader must be like: it does not matter how the data is split.\<close>

locale pipe_reader =
  fixes feed :: "'r \<Rightarrow> char list \<Rightarrow> 'r"
  assumes feed_append: "feed (feed r xs) ys = feed r (xs @ ys)"
begin

definition pipe_inv :: "char list \<Rightarrow> 'r \<Rightarrow> 'r pipe_run \<Rightarrow> bool" where
  "pipe_inv out r s \<longleftrightarrow> (\<exists>got. out = got @ buffered s @ unsent s \<and> (reader s = feed r got \<or> got = [] \<and> reader s = r))
     \<and> (writer_done s \<longrightarrow> unsent s = []) \<and> (reader_done s \<longrightarrow> writer_done s \<and> buffered s = [])"

lemma pipe_step_inv:
  assumes "pipe_step feed cap bufsz s s'" "pipe_inv out r s" "0 < bufsz"
  shows "pipe_inv out r s'"
proof (rule pipe_stepE[OF assms(1)])
  fix k
  assume "writer_step cap k s = Some s'"
  then show ?thesis
  proof (cases rule: writer_stepE)
    case (sends n)
    then show ?thesis using assms(2) by (auto simp: pipe_inv_def)
  qed (use assms(2) in \<open>auto simp: pipe_inv_def\<close>)
next
  fix k
  assume st: "reader_step feed bufsz k s = Some s'"
  obtain got where got: "out = got @ buffered s @ unsent s" "reader s = feed r got \<or> got = [] \<and> reader s = r"
    using assms(2) by (auto simp: pipe_inv_def)
  show ?thesis
    using st assms(3)
  proof (cases rule: reader_stepE)
    case (takes n)
    have "out = (got @ take n (buffered s)) @ buffered s' @ unsent s'" using got(1) takes(4) by simp
    moreover have "reader s' = feed r (got @ take n (buffered s))" using got(2) takes(4) by (auto simp: feed_append)
    moreover have "writer_done s' \<longrightarrow> unsent s' = []" "\<not> reader_done s'" using assms(2) takes(1,4) by (auto simp: pipe_inv_def)
    ultimately show ?thesis unfolding pipe_inv_def by blast
  qed (use assms(2) in \<open>auto simp: pipe_inv_def\<close>)
qed

lemma pipe_reach_inv:
  "(pipe_step feed cap bufsz)\<^sup>*\<^sup>* (pipe_start out r) s \<Longrightarrow> 0 < bufsz \<Longrightarrow> pipe_inv out r s"
proof (induction rule: rtranclp_induct)
  case base
  then show ?case by (simp add: pipe_inv_def pipe_start_def)
next
  case (step s t)
  then show ?case using pipe_step_inv by blast
qed

text \<open>At the end the reader has got everything.\<close>

lemma delivered:
  assumes "(pipe_step feed cap bufsz)\<^sup>*\<^sup>* (pipe_start out r) s" "0 < bufsz" "reader_done s"
  shows "reader s = feed r out \<or> out = [] \<and> reader s = r"
  using pipe_reach_inv[OF assms(1,2)] assms(3) by (auto simp: pipe_inv_def)

end

text \<open>Nobody is stuck as long as the pipe holds a byte, and every step brings the end nearer.\<close>

lemma pipe_moves:
  assumes "\<not> reader_done s" "0 < cap" "writer_done s \<longrightarrow> unsent s = []"
  shows "\<exists>s'. pipe_step feed cap bufsz s s'"
proof (cases "buffered s = [] \<and> \<not> writer_done s")
  case True
  then have "\<exists>s'. writer_step cap 1 s = Some s'"
    using assms(2) by (cases "unsent s") (auto simp: writer_step_def Let_def)
  then show ?thesis using pipe_step.writer by blast
next
  case False
  then have "\<exists>s'. reader_step feed bufsz 1 s = Some s'" using assms(1) by (auto simp: reader_step_def Let_def)
  then show ?thesis using pipe_step.reader by blast
qed

definition pipe_rank :: "'r pipe_run \<Rightarrow> nat" where
  "pipe_rank s = 2 * length (unsent s) + length (buffered s) + (if writer_done s then 0 else 1) + (if reader_done s then 0 else 1)"

lemma pipe_step_rank:
  assumes "pipe_step feed cap bufsz s s'" "0 < bufsz"
  shows "pipe_rank s' < pipe_rank s"
proof (rule pipe_stepE[OF assms(1)])
  fix k
  assume "writer_step cap k s = Some s'"
  then show ?thesis by (cases rule: writer_stepE) (auto simp: pipe_rank_def)
next
  fix k
  assume "reader_step feed bufsz k s = Some s'"
  then show ?thesis using assms(2) by (cases rule: reader_stepE) (auto simp: pipe_rank_def)
qed

subsection \<open>Counting the output of a program\<close>

text \<open>
  The parent reads at most 100 bytes at a time and adds up; the child runs the program on the contents of a file, or prints
  nothing when \<^verbatim>\<open>execlp\<close> fails.
\<close>

definition count_bytes :: "int \<Rightarrow> char list \<Rightarrow> int" where
  "count_bytes bytes_in_pipe bs = to_i32 (bytes_in_pipe + int (length bs))"

definition launch_start :: "(char list \<Rightarrow> char list) option \<Rightarrow> char list \<Rightarrow> int pipe_run" where
  "launch_start program file = pipe_start (case program of None \<Rightarrow> [] | Some p \<Rightarrow> p file) 0"

definition launch_output :: "int pipe_run \<Rightarrow> char list option" where
  "launch_output s = (if reader_done s then Some (decimal (reader s) @ [CHR 0x0A]) else None)"

lemma to_i32_add: "to_i32 (to_i32 a + b) = to_i32 (a + b)"
proof -
  have "(to_i32 a + b + 2 ^ 31) mod 2 ^ 32 = ((a + 2 ^ 31) mod 2 ^ 32 + b) mod 2 ^ 32"
    by (simp only: to_i32_def) simp
  also have "\<dots> = (a + b + 2 ^ 31) mod 2 ^ 32" by (simp only: mod_add_left_eq) (simp add: ac_simps)
  finally show ?thesis by (simp add: to_i32_def)
qed

interpretation counting_reader: pipe_reader count_bytes
  by unfold_locales (simp add: count_bytes_def to_i32_add add.assoc)

subsection \<open>Two programs\<close>

text \<open>The second program prints for what it has read when it has reached the end of its input.\<close>

definition connect_output :: "(char list \<Rightarrow> char list) \<Rightarrow> char list pipe_run \<Rightarrow> char list option" where
  "connect_output program2 s = (if reader_done s \<and> writer_done s then Some (program2 (reader s)) else None)"

interpretation collecting_reader: pipe_reader "(@)"
  by unfold_locales simp

lemma two_programs_compose:
  assumes "(pipe_step (@) cap bufsz)\<^sup>*\<^sup>* (pipe_start (program1 inp) []) s" "0 < bufsz" "0 < cap"
  shows "(connect_output program2 s = None \<longrightarrow> (\<exists>s'. pipe_step (@) cap bufsz s s'))
    \<and> (\<forall>out. connect_output program2 s = Some out \<longrightarrow> out = program2 (program1 inp))"
  using collecting_reader.delivered[OF assms(1,2)] collecting_reader.pipe_reach_inv[OF assms(1,2)]
    pipe_moves[of s cap "(@)" bufsz] assms(3)
  by (auto simp: connect_output_def collecting_reader.pipe_inv_def)

text \<open>
  For every program, every capacity of the pipe and every interleaving of the program and the parent that counts its output:
  nobody is stuck before the count is printed, every step brings that nearer, and what is printed is the number of bytes of
  the output, as an \<^verbatim>\<open>int\<close>.
\<close>

lemma launch_counts:
  assumes "(pipe_step count_bytes cap 100)\<^sup>*\<^sup>* (launch_start program file) s" and "0 < cap"
  shows "(launch_output s = None \<longrightarrow> (\<exists>s'. pipe_step count_bytes cap 100 s s'))
    \<and> (\<forall>s'. pipe_step count_bytes cap 100 s s' \<longrightarrow> pipe_rank s' < pipe_rank s)
    \<and> (\<forall>shown. launch_output s = Some shown \<longrightarrow>
        shown = decimal (to_i32 (int (length (case program of None \<Rightarrow> [] | Some p \<Rightarrow> p file)))) @ [CHR 0x0A])"
proof -
  let ?out = "case program of None \<Rightarrow> [] | Some p \<Rightarrow> p file"
  have r: "(pipe_step count_bytes cap 100)\<^sup>*\<^sup>* (pipe_start ?out 0) s" using assms(1) by (simp add: launch_start_def)
  have "reader s = to_i32 (int (length ?out))" if "reader_done s"
    using counting_reader.delivered[OF r _ that] by (auto simp: count_bytes_def is_i32_def)
  moreover have "writer_done s \<longrightarrow> unsent s = []"
    using counting_reader.pipe_reach_inv[OF r] by (simp add: counting_reader.pipe_inv_def)
  ultimately show ?thesis
    using pipe_moves[of s cap count_bytes 100] assms(2) pipe_step_rank[of count_bytes cap 100 s] by (simp add: launch_output_def)
qed

lemma launch_counts_witness:
  "\<exists>s. (pipe_step count_bytes 2 100)\<^sup>*\<^sup>* (launch_start (Some rev) ''ab'') s \<and> launch_output s = Some (decimal 2 @ [CHR 0x0A])"
proof -
  let ?S = "pipe_step count_bytes 2 100"
  let ?a = "\<lparr>unsent = [], buffered = ''ba'', writer_done = False, reader = 0 :: int, reader_done = False\<rparr>"
  have "?S (launch_start (Some rev) ''ab'') ?a"
    by (rule pipe_step.writer[where k = 2]) (simp add: writer_step_def launch_start_def pipe_start_def)
  moreover have "?S ?a (?a\<lparr>writer_done := True\<rparr>)"
    by (rule pipe_step.writer[where k = 2]) (simp add: writer_step_def)
  moreover have "?S (?a\<lparr>writer_done := True\<rparr>) (?a\<lparr>writer_done := True, buffered := [], reader := 2\<rparr>)"
    by (rule pipe_step.reader[where k = 2]) (simp add: reader_step_def count_bytes_def is_i32_def)
  moreover have "?S (?a\<lparr>writer_done := True, buffered := [], reader := 2\<rparr>)
      (?a\<lparr>writer_done := True, buffered := [], reader := 2, reader_done := True\<rparr>)"
    by (rule pipe_step.reader[where k = 2]) (simp add: reader_step_def)
  ultimately have r: "?S\<^sup>*\<^sup>* (launch_start (Some rev) ''ab'') (?a\<lparr>writer_done := True, buffered := [], reader := 2, reader_done := True\<rparr>)"
    by (meson rtranclp.rtrancl_into_rtrancl rtranclp.rtrancl_refl)
  then show ?thesis using launch_counts[OF r] 
    by (intro exI[of _ "?a\<lparr>writer_done := True, buffered := [], reader := 2, reader_done := True\<rparr>"])
      (simp add: launch_output_def is_i32_def)
qed

subsection \<open>Descriptor tables\<close>

text \<open>
  What a descriptor refers to: a file the program was started with, or an end of the pipe of some number.  A table lists the
  descriptors from 0; a new one is the lowest that is free, below the limit of the process.
\<close>

datatype ofile = StdIn | StdOut | StdErr | RdEnd nat | WrEnd nat

type_synonym table = "ofile option list"

definition refers :: "table \<Rightarrow> nat \<Rightarrow> ofile option" where
  "refers tb fd = (if fd < length tb then tb ! fd else None)"

definition sys_close :: "nat \<Rightarrow> table \<Rightarrow> table" where
  "sys_close fd tb = (if fd < length tb then tb[fd := None] else tb)"

definition sys_dup2 :: "nat \<Rightarrow> nat \<Rightarrow> table \<Rightarrow> table" where
  "sys_dup2 old new tb = (if refers tb old = None \<or> length tb \<le> new then tb else tb[new := refers tb old])"

fun lowest_free :: "table \<Rightarrow> nat" where
  "lowest_free [] = 0"
| "lowest_free (None # tb) = 0"
| "lowest_free (Some f # tb) = Suc (lowest_free tb)"

definition add_file :: "ofile \<Rightarrow> table \<Rightarrow> table \<times> nat" where
  "add_file f tb = (let fd = lowest_free tb in
     (if fd < length tb then tb[fd := Some f] else tb @ [Some f], fd))"

text \<open>
  The system: what the terminal still has to offer, what was shown on it, what each pipe holds, and the table of the parent.
\<close>

record system =
  typed :: "char list"
  shown :: "char list"
  held :: "char list list"
  parent :: table

text \<open>\<^verbatim>\<open>pipe\<close>; without two free descriptors it fails and leaves the array alone.  The result is not tested.\<close>

definition sys_pipe :: "nat \<Rightarrow> nat \<times> nat \<Rightarrow> system \<Rightarrow> system \<times> (nat \<times> nat)" where
  "sys_pipe limit right_pipe s =
     (case add_file (RdEnd (length (held s))) (parent s) of (tb, p0) \<Rightarrow>
      case add_file (WrEnd (length (held s))) tb of (tb, p1) \<Rightarrow>
        if p0 < limit \<and> p1 < limit then (s\<lparr>held := held s @ [[]], parent := tb\<rparr>, (p0, p1))
        else (s, right_pipe))"

text \<open>
  A program reads descriptor 0 to its end.  From a pipe that is all it holds, but only if nobody, the program itself included,
  can write to it any more; else the program waits for ever (\<open>None\<close>), for the parent is waiting too.  \<open>tb\<close> is the table
  of the child.
\<close>

definition read_input :: "table \<Rightarrow> system \<Rightarrow> (char list \<times> system) option" where
  "read_input tb s =
     (case refers tb 0 of
        Some StdIn \<Rightarrow> Some (typed s, s\<lparr>typed := []\<rparr>)
      | Some (RdEnd j) \<Rightarrow>
          (if Some (WrEnd j) \<in> set tb \<union> set (parent s) then None
           else Some (held s ! j, s\<lparr>held := (held s)[j := []]\<rparr>))
      | _ \<Rightarrow> Some ([], s))"

text \<open>
  \<open>run_writer\<close> is a writer as far as it gets while nobody reads.
\<close>

function run_writer :: "nat \<Rightarrow> 'r pipe_run \<Rightarrow> 'r pipe_run" where
  "run_writer cap s = (case writer_step cap (length (unsent s)) s of None \<Rightarrow> s | Some s' \<Rightarrow> run_writer cap s')"
  by pat_completeness auto
termination
proof (relation "measure (\<lambda>(cap, s). pipe_rank s)")
  fix cap and s s' :: "'r pipe_run"
  assume "writer_step cap (length (unsent s)) s = Some s'"
  then show "((cap, s'), (cap, s)) \<in> measure (\<lambda>(cap, s). pipe_rank s)"
    by (cases rule: writer_stepE) (auto simp: pipe_rank_def)
qed simp

declare run_writer.simps [simp del]

text \<open>
  The program writes to descriptor 1: to the terminal, or to a pipe, where it is ended by \<^verbatim>\<open>SIGPIPE\<close> when nobody can read and
  waits for ever (\<open>None\<close>) when the pipe gets full.
\<close>

definition write_output :: "nat \<Rightarrow> table \<Rightarrow> char list \<Rightarrow> system \<Rightarrow> system option" where
  "write_output cap tb out s =
     (case refers tb 1 of
        Some StdOut \<Rightarrow> Some (s\<lparr>shown := shown s @ out\<rparr>)
      | Some (WrEnd j) \<Rightarrow>
          (if out = [] \<or> Some (RdEnd j) \<notin> set tb \<union> set (parent s) then Some s
           else let w = run_writer cap ((pipe_start out ())\<lparr>buffered := held s ! j\<rparr>) in
             if writer_done w then Some (s\<lparr>held := (held s)[j := buffered w]\<rparr>) else None)
      | _ \<Rightarrow> Some s)"

text \<open>A program that cannot be executed exits and neither reads nor prints.\<close>

definition run_program :: "nat \<Rightarrow> (char list \<Rightarrow> char list) option \<Rightarrow> table \<Rightarrow> system \<Rightarrow> system option" where
  "run_program cap program tb s =
     (case program of
        None \<Rightarrow> Some s
      | Some f \<Rightarrow> Option.bind (read_input tb s) (\<lambda>(inp, s). write_output cap tb (f inp) s))"

subsection \<open>Programs one after the other\<close>

text \<open>
  \<^verbatim>\<open>launch_program\<close>: the child gets a copy of the table, and while it runs the parent only waits for it.  The result says
  whether \<^verbatim>\<open>fork\<close> succeeded; \<open>None\<close> is to wait for ever.
\<close>

definition child_table :: "nat \<Rightarrow> nat \<times> nat \<Rightarrow> table \<Rightarrow> table" where
  "child_table in_fd right_pipe tb =
     (let out_fd = snd right_pipe;
          tb = sys_close (fst right_pipe) tb;
          tb = sys_dup2 in_fd 0 tb
      in sys_dup2 out_fd 1 tb)"

definition launch_program ::
  "nat \<Rightarrow> (char list \<Rightarrow> char list) option \<Rightarrow> bool \<Rightarrow> nat \<Rightarrow> nat \<times> nat \<Rightarrow> system \<Rightarrow> (bool \<times> system) option" where
  "launch_program cap program forked in_fd right_pipe s =
     (let out_fd = snd right_pipe in
      if \<not> forked then Some (False, s)
      else
        let tb = child_table in_fd right_pipe (parent s);
            s = s\<lparr>parent := sys_close in_fd (parent s)\<rparr>
        in Option.bind (run_program cap program tb s) (\<lambda>s.
             Some (True, s\<lparr>parent := sys_close out_fd (parent s)\<rparr>)))"

text \<open>
  The loop of \<^verbatim>\<open>main\<close> over the remaining arguments, with what \<^verbatim>\<open>fork\<close> returns for each of them.  \<open>Ended\<close> is what was shown when
  the program ends.
\<close>

datatype pipeline_end = Ended "char list" | WaitsForever

fun one_pipe_loop ::
  "nat \<Rightarrow> nat \<Rightarrow> ((char list \<Rightarrow> char list) option \<times> bool) list \<Rightarrow> nat \<Rightarrow> nat \<times> nat \<Rightarrow> system \<Rightarrow> pipeline_end" where
  "one_pipe_loop cap limit [] read_fd right_pipe s = Ended (shown s)"
| "one_pipe_loop cap limit ((program, forked) # ps) read_fd right_pipe s =
     (let (right_pipe, s) =
        (if ps = [] then ((fst right_pipe, 1), s\<lparr>parent := sys_close (snd right_pipe) (parent s)\<rparr>)
         else (right_pipe, s)) in
      case launch_program cap program forked read_fd right_pipe s of
        None \<Rightarrow> WaitsForever
      | Some (False, s) \<Rightarrow> Ended (shown s)
      | Some (True, s) \<Rightarrow>
          (let read_fd = fst right_pipe; (s, right_pipe) = sys_pipe limit right_pipe s
           in one_pipe_loop cap limit ps read_fd right_pipe s))"

text \<open>The array \<^verbatim>\<open>right_pipe\<close> starts uninitialised: \<open>junk\<close>.\<close>

definition one_pipe ::
  "nat \<Rightarrow> nat \<Rightarrow> nat \<times> nat \<Rightarrow> ((char list \<Rightarrow> char list) option \<times> bool) list \<Rightarrow> char list \<Rightarrow> pipeline_end" where
  "one_pipe cap limit junk ps inp =
     (let s = \<lparr>typed = inp, shown = (if ps = [] then ''Too few arguments'' @ [CHR 0x0A] else []), held = [],
               parent = [Some StdIn, Some StdOut, Some StdErr]\<rparr>;
          (s, right_pipe) = sys_pipe limit junk s
      in one_pipe_loop cap limit ps 0 right_pipe s)"

text \<open>A program that runs alone ends exactly when the pipe can hold its output.\<close>

lemma run_writer_alone:
  "writer_done (run_writer cap (pipe_start out r)) \<longleftrightarrow> length out \<le> cap"
  "length out \<le> cap \<Longrightarrow> buffered (run_writer cap (pipe_start out r)) = out"
proof -
  let ?n = "min (length out) cap"
  let ?s1 = "\<lparr>unsent = drop ?n out, buffered = take ?n out, writer_done = False, reader = r, reader_done = False\<rparr>"
  have first: "run_writer cap (pipe_start out r) = run_writer cap ?s1"
  proof (cases "out = [] \<or> cap = 0")
    case False
    then have "writer_step cap (length out) (pipe_start out r) = Some ?s1"
      by (auto simp: writer_step_def pipe_start_def Let_def max_def min_def Suc_le_eq)
    then show ?thesis by (subst run_writer.simps) (simp add: pipe_start_def)
  qed (auto simp: pipe_start_def)
  have "run_writer cap ?s1 = (if length out \<le> cap then ?s1\<lparr>writer_done := True\<rparr> else ?s1)"
  proof (cases "length out \<le> cap")
    case True
    then have "writer_step cap (length (unsent ?s1)) ?s1 = Some (?s1\<lparr>writer_done := True\<rparr>)" by (simp add: writer_step_def)
    moreover have "writer_step cap k (?s1\<lparr>writer_done := True\<rparr>) = None" for k by (simp add: writer_step_def)
    ultimately show ?thesis using True by (simp add: run_writer.simps)
  next
    case False
    then have "writer_step cap (length (unsent ?s1)) ?s1 = None" by (simp add: writer_step_def Let_def)
    then show ?thesis using False by (simp add: run_writer.simps)
  qed
  then show "writer_done (run_writer cap (pipe_start out r)) \<longleftrightarrow> length out \<le> cap"
    "length out \<le> cap \<Longrightarrow> buffered (run_writer cap (pipe_start out r)) = out"
    unfolding first by (simp_all add: min_def)
qed

lemma run_writer_empty: "(pipe_start out ())\<lparr>buffered := []\<rparr> = pipe_start out ()"
  by (simp add: pipe_start_def)

text \<open>
  Before each program the table of the parent has one of two shapes: what the program is to read is descriptor 0 or 3, the
  read end of the new, empty pipe is the other of the two, and its write end is descriptor 4.
\<close>

definition before_launch :: "nat \<Rightarrow> char list \<Rightarrow> ofile \<Rightarrow> nat \<times> nat \<Rightarrow> system \<Rightarrow> bool" where
  "before_launch read_fd inp src right_pipe s \<longleftrightarrow>
     (\<exists>m. length (held s) = Suc m \<and> held s ! m = [] \<and> shown s = []
        \<and> (src = StdIn \<and> typed s = inp \<or> (\<exists>j. src = RdEnd j \<and> j < m \<and> held s ! j = inp))
        \<and> (read_fd = 0 \<and> right_pipe = (3, 4) \<and> parent s = [Some src, Some StdOut, Some StdErr, Some (RdEnd m), Some (WrEnd m)]
           \<or> read_fd = 3 \<and> right_pipe = (0, 4) \<and> parent s = [Some (RdEnd m), Some StdOut, Some StdErr, Some src, Some (WrEnd m)]))"

lemmas table_ops = refers_def sys_close_def sys_dup2_def child_table_def add_file_def sys_pipe_def

definition output_of :: "(char list \<Rightarrow> char list) option \<Rightarrow> char list \<Rightarrow> char list" where
  "output_of program inp = (case program of None \<Rightarrow> [] | Some f \<Rightarrow> f inp)"

text \<open>What a program reads and where its output goes, in the table of a child.\<close>

lemma read_input_src:
  assumes "refers tb 0 = Some src" "src = StdIn \<and> typed s = inp \<or> (\<exists>j. src = RdEnd j \<and> held s ! j = inp)"
    and "\<And>j. src = RdEnd j \<Longrightarrow> Some (WrEnd j) \<notin> set tb \<union> set (parent s)"
  obtains s1 where "read_input tb s = Some (inp, s1)" "parent s1 = parent s" "shown s1 = shown s"
    "length (held s1) = length (held s)" "\<And>i. src \<noteq> RdEnd i \<Longrightarrow> held s1 ! i = held s ! i"
proof (cases src)
  case StdIn
  with assms that show ?thesis by (auto simp: read_input_def)
next
  case (RdEnd j)
  with assms(1,2) assms(3)[OF RdEnd] that[of "s\<lparr>held := (held s)[j := []]\<rparr>"] show ?thesis by (auto simp: read_input_def nth_list_update)
qed (use assms(2) in auto)

lemma write_output_pipe:
  assumes "refers tb 1 = Some (WrEnd m)" "Some (RdEnd m) \<in> set tb \<union> set (parent s)" "length (held s) = Suc m" "held s ! m = []"
  shows "write_output cap tb out s =
    (if length out \<le> cap then Some (s\<lparr>held := (held s)[m := out]\<rparr>) else None)"
proof (cases "out = []")
  case True
  then have "(held s)[m := out] = held s" using assms(4) by (metis list_update_id)
  then show ?thesis using True assms(1) by (simp add: write_output_def)
next
  case False
  then show ?thesis
    using assms run_writer_alone[where cap = cap and out = out and r = "()"]
    by (auto simp: write_output_def run_writer_empty Let_def)
qed

lemma run_program_middle:
  assumes "refers tb 0 = Some src" "src = StdIn \<and> typed s = inp \<or> (\<exists>j. src = RdEnd j \<and> j < m \<and> held s ! j = inp)"
    and "\<And>j. src = RdEnd j \<Longrightarrow> Some (WrEnd j) \<notin> set tb \<union> set (parent s)"
    and "refers tb 1 = Some (WrEnd m)" "Some (RdEnd m) \<in> set tb \<union> set (parent s)" "length (held s) = Suc m" "held s ! m = []"
  shows "if length (output_of program inp) \<le> cap
    then \<exists>s1. run_program cap program tb s = Some s1 \<and> parent s1 = parent s \<and> shown s1 = shown s
      \<and> length (held s1) = Suc m \<and> held s1 ! m = output_of program inp
    else run_program cap program tb s = None"
proof (cases program)
  case None
  with assms(6,7) show ?thesis by (simp add: run_program_def output_of_def)
next
  case (Some f)
  obtain s1 where s1: "read_input tb s = Some (inp, s1)" "parent s1 = parent s" "shown s1 = shown s"
    "length (held s1) = length (held s)" "\<And>i. src \<noteq> RdEnd i \<Longrightarrow> held s1 ! i = held s ! i"
    using read_input_src[OF assms(1) _ assms(3)] assms(2) by blast
  have "held s1 ! m = []" using s1(5)[of m] assms(2,7) by auto
  then have "write_output cap tb (f inp) s1 =
      (if length (f inp) \<le> cap then Some (s1\<lparr>held := (held s1)[m := f inp]\<rparr>) else None)"
    using s1 assms by (intro write_output_pipe) auto
  then show ?thesis using Some s1 assms(6) by (auto simp: run_program_def output_of_def)
qed

text \<open>A program that is not the last one: its output is what the next one will read.\<close>

lemma launch_middle:
  assumes "before_launch read_fd inp src right_pipe s" "5 \<le> limit"
  shows "if length (output_of program inp) \<le> cap
    then \<exists>s1. launch_program cap program True read_fd right_pipe s = Some (True, s1)
      \<and> (case sys_pipe limit right_pipe s1 of (s2, right_pipe2) \<Rightarrow>
          \<exists>src2. before_launch (fst right_pipe) (output_of program inp) src2 right_pipe2 s2)
    else launch_program cap program True read_fd right_pipe s = None"
proof -
  obtain m where m: "length (held s) = Suc m" "held s ! m = []" "shown s = []"
    and src: "src = StdIn \<and> typed s = inp \<or> (\<exists>j. src = RdEnd j \<and> j < m \<and> held s ! j = inp)"
    and shape: "read_fd = 0 \<and> right_pipe = (3, 4) \<and> parent s = [Some src, Some StdOut, Some StdErr, Some (RdEnd m), Some (WrEnd m)]
           \<or> read_fd = 3 \<and> right_pipe = (0, 4) \<and> parent s = [Some (RdEnd m), Some StdOut, Some StdErr, Some src, Some (WrEnd m)]"
    using assms(1) by (auto simp: before_launch_def)
  define tb where "tb = child_table read_fd right_pipe (parent s)"
  define s0 where "s0 = s\<lparr>parent := sys_close read_fd (parent s)\<rparr>"
  have tb: "refers tb 0 = Some src" "refers tb 1 = Some (WrEnd m)"
    "\<And>j. src = RdEnd j \<Longrightarrow> Some (WrEnd j) \<notin> set tb \<union> set (parent s0)"
    "Some (RdEnd m) \<in> set tb \<union> set (parent s0)"
    using shape src by (auto simp: tb_def s0_def table_ops Let_def)
  have "if length (output_of program inp) \<le> cap
    then \<exists>s1. run_program cap program tb s0 = Some s1 \<and> parent s1 = parent s0 \<and> shown s1 = shown s0
      \<and> length (held s1) = Suc m \<and> held s1 ! m = output_of program inp
    else run_program cap program tb s0 = None"
    by (rule run_program_middle[OF tb(1) _ tb(3,2,4)]) (use m src in \<open>simp_all add: s0_def\<close>)
  moreover have "launch_program cap program True read_fd right_pipe s =
      Option.bind (run_program cap program tb s0) (\<lambda>s. Some (True, s\<lparr>parent := sys_close (snd right_pipe) (parent s)\<rparr>))"
    by (simp add: launch_program_def tb_def s0_def Let_def)
  moreover have "case sys_pipe limit right_pipe (s1\<lparr>parent := sys_close (snd right_pipe) (parent s1)\<rparr>) of (s2, right_pipe2) \<Rightarrow>
      before_launch (fst right_pipe) (output_of program inp) (RdEnd m) right_pipe2 s2"
    if "parent s1 = parent s0" "shown s1 = shown s0" "length (held s1) = Suc m" "held s1 ! m = output_of program inp" for s1
  proof -
    have "read_fd = 0 \<and> right_pipe = (3, 4) \<and> parent s1 = [None, Some StdOut, Some StdErr, Some (RdEnd m), Some (WrEnd m)]
      \<or> read_fd = 3 \<and> right_pipe = (0, 4) \<and> parent s1 = [Some (RdEnd m), Some StdOut, Some StdErr, None, Some (WrEnd m)]"
      unfolding that(1) using shape by (elim disjE conjE) (simp_all add: s0_def table_ops)
    moreover have "shown s1 = []" using that(2) m(3) by (simp add: s0_def)
    moreover have "0 < limit" "3 < limit" "4 < limit" using assms(2) by simp_all
    ultimately show ?thesis
      using that(3,4) by (elim disjE conjE) (simp_all add: table_ops Let_def before_launch_def nth_append)
  qed
  ultimately show ?thesis by (simp split: if_splits) (fastforce split: prod.splits)
qed

text \<open>The last program: its output is shown.\<close>

lemma launch_last:
  assumes "before_launch read_fd inp src right_pipe s"
  shows "\<exists>s1. launch_program cap program True read_fd (fst right_pipe, 1)
      (s\<lparr>parent := sys_close (snd right_pipe) (parent s)\<rparr>) = Some (True, s1) \<and> shown s1 = output_of program inp"
proof -
  obtain m where m: "length (held s) = Suc m" "held s ! m = []" "shown s = []"
    and src: "src = StdIn \<and> typed s = inp \<or> (\<exists>j. src = RdEnd j \<and> j < m \<and> held s ! j = inp)"
    and shape: "read_fd = 0 \<and> right_pipe = (3, 4) \<and> parent s = [Some src, Some StdOut, Some StdErr, Some (RdEnd m), Some (WrEnd m)]
           \<or> read_fd = 3 \<and> right_pipe = (0, 4) \<and> parent s = [Some (RdEnd m), Some StdOut, Some StdErr, Some src, Some (WrEnd m)]"
    using assms(1) by (auto simp: before_launch_def)
  define closed where "closed = sys_close (snd right_pipe) (parent s)"
  define tb where "tb = child_table read_fd (fst right_pipe, 1) closed"
  define s0 where "s0 = s\<lparr>parent := sys_close read_fd closed\<rparr>"
  have tb: "refers tb 0 = Some src" "refers tb 1 = Some StdOut"
    "\<And>j. src = RdEnd j \<Longrightarrow> Some (WrEnd j) \<notin> set tb \<union> set (parent s0)"
  proof -
    have "tb = [Some src, Some StdOut, Some StdErr, None, None]
        \<and> parent s0 = [None, Some StdOut, Some StdErr, Some (RdEnd m), None]
      \<or> tb = [Some src, Some StdOut, Some StdErr, Some src, None]
        \<and> parent s0 = [Some (RdEnd m), Some StdOut, Some StdErr, None, None]"
      using shape by (elim disjE conjE) (simp_all add: tb_def s0_def closed_def table_ops Let_def)
    then show "refers tb 0 = Some src" "refers tb 1 = Some StdOut"
      "\<And>j. src = RdEnd j \<Longrightarrow> Some (WrEnd j) \<notin> set tb \<union> set (parent s0)"
      using src by (auto simp: refers_def)
  qed
  have s0: "src = StdIn \<and> typed s0 = inp \<or> (\<exists>j. src = RdEnd j \<and> held s0 ! j = inp)" "shown s0 = []"
    using src m by (auto simp: s0_def)
  have "\<exists>s1. run_program cap program tb s0 = Some s1 \<and> shown s1 = output_of program inp"
  proof (cases program)
    case None
    with s0 show ?thesis by (simp add: run_program_def output_of_def)
  next
    case (Some f)
    obtain s1 where "read_input tb s0 = Some (inp, s1)" "shown s1 = shown s0"
      by (rule read_input_src[OF tb(1) s0(1) tb(3)]) blast+
    with Some s0(2) tb(2) show ?thesis by (simp add: run_program_def output_of_def write_output_def)
  qed
  then show ?thesis by (auto simp: launch_program_def Let_def tb_def s0_def closed_def)
qed

text \<open>The outputs of the programs, each for the output of the one before.\<close>

fun stages :: "(char list \<Rightarrow> char list) option list \<Rightarrow> char list \<Rightarrow> char list list" where
  "stages [] inp = []"
| "stages (p # ps) inp = output_of p inp # stages ps (output_of p inp)"

lemma stages_Cons: "stages (p # q # ps) inp = output_of p inp # stages (q # ps) (output_of p inp)"
  by simp

lemma one_pipe_loop_composes:
  assumes "ps \<noteq> []" "before_launch read_fd inp src right_pipe s" "5 \<le> limit"
  shows "one_pipe_loop cap limit (map (\<lambda>p. (p, True)) ps) read_fd right_pipe s =
    (if \<forall>out\<in>set (butlast (stages ps inp)). length out \<le> cap then Ended (last (stages ps inp)) else WaitsForever)"
  using assms(1,2)
proof (induction ps arbitrary: inp src read_fd right_pipe s)
  case (Cons p ps)
  show ?case
  proof (cases ps)
    case Nil
    obtain s1 where "launch_program cap p True read_fd (fst right_pipe, 1)
      (s\<lparr>parent := sys_close (snd right_pipe) (parent s)\<rparr>) = Some (True, s1)" "shown s1 = output_of p inp"
      using launch_last[OF Cons.prems(2)] by blast
    moreover have "shown (fst (sys_pipe limit rp s1)) = shown s1" for rp by (simp add: sys_pipe_def split: prod.split)
    ultimately show ?thesis using Nil by (auto simp: split_def)
  next
    case (Cons q qs)
    note l = launch_middle[OF Cons.prems(2) assms(3), of p cap]
    show ?thesis
    proof (cases "length (output_of p inp) \<le> cap")
      case True
      then obtain s1 where s1: "launch_program cap p True read_fd right_pipe s = Some (True, s1)"
        and s2: "case sys_pipe limit right_pipe s1 of (s2, rp2) \<Rightarrow>
          \<exists>src2. before_launch (fst right_pipe) (output_of p inp) src2 rp2 s2"
        using l by (simp only: if_True) (elim exE conjE, rule that)
      obtain s2 rp2 where rp: "sys_pipe limit right_pipe s1 = (s2, rp2)" by (rule prod.exhaust)
      with s1 s2 obtain src2 where r: "launch_program cap p True read_fd right_pipe s = Some (True, s1)"
        "sys_pipe limit right_pipe s1 = (s2, rp2)" "before_launch (fst right_pipe) (output_of p inp) src2 rp2 s2"
        by auto
      have "one_pipe_loop cap limit (map (\<lambda>p. (p, True)) (p # ps)) read_fd right_pipe s =
          one_pipe_loop cap limit (map (\<lambda>p. (p, True)) ps) (fst right_pipe) rp2 s2"
        using r Cons by (simp add: Let_def)
      with Cons.IH[OF _ r(3)] True show ?thesis unfolding Cons stages_Cons by simp
    next
      case False
      with l show ?thesis unfolding Cons stages_Cons by simp
    qed
  qed
qed simp

text \<open>
  C12: Let every \<^verbatim>\<open>fork\<close> succeed and the process be allowed five descriptors.  If every output but that of the last program fits
  in a pipe, then every program reads exactly what the one before has printed and sees its end, and what is shown at the end is the
  output of the last program and nothing else; a program that cannot be executed counts as printing nothing.  If an output
  does not fit, the program waits for ever.
\<close>

theorem one_pipe_composes:
  assumes "ps \<noteq> []" and "5 \<le> limit"
  shows "one_pipe cap limit junk (map (\<lambda>p. (p, True)) ps) inp =
    (if \<forall>out\<in>set (butlast (stages ps inp)). length out \<le> cap then Ended (last (stages ps inp)) else WaitsForever)"
proof -
  let ?s = "\<lparr>typed = inp, shown = [], held = [], parent = [Some StdIn, Some StdOut, Some StdErr]\<rparr>"
  have "\<exists>s rp. sys_pipe limit junk ?s = (s, rp) \<and> before_launch 0 inp StdIn rp s"
    using assms(2) by (simp add: table_ops before_launch_def)
  then show ?thesis using one_pipe_loop_composes[OF assms(1) _ assms(2), of 0 inp] assms(1) by (auto simp: one_pipe_def)
qed

theorem one_pipe_composes_witness:
  "one_pipe 4 5 (7, 7) [(Some rev, True), (Some (\<lambda>x. x @ x), True), (Some rev, True)] ''ab'' = Ended ''abab''
    \<and> one_pipe 1 5 (7, 7) [(Some rev, True), (Some (\<lambda>x. x @ x), True)] ''ab'' = WaitsForever"
  using one_pipe_composes[of "[Some rev, Some (\<lambda>x. x @ x), Some rev]" 5 4 "(7, 7)" "''ab''"]
    one_pipe_composes[of "[Some rev, Some (\<lambda>x. x @ x)]" 5 1 "(7, 7)" "''ab''"]
  by (simp add: output_of_def)

lemma one_pipe_no_arguments: "one_pipe cap limit junk [] inp = Ended (''Too few arguments'' @ [CHR 0x0A])"
  by (simp add: one_pipe_def sys_pipe_def Let_def split: prod.split)

lemma one_pipe_fork_fails: "one_pipe cap limit junk ((p, False) # ps) inp = Ended []"
  by (auto simp: one_pipe_def sys_pipe_def launch_program_def Let_def split: prod.split)

end
