(* ===== verification/WriteFifo.thy ===== *)
theory WriteFifo
  imports PrintList "HOL-Library.Sublist"
begin

section \<open>write-fifo: numbers into a named pipe\<close>

text \<open>
  \<^verbatim>\<open>inf13-2-posix_signals_write-fifo/main.c\<close>.  The numbers from 0 to \<open>N\<close> are written as text into a descriptor that may take less than
  offered and may fail.  Why it fails matters: the program does not ignore \<^verbatim>\<open>SIGPIPE\<close>, so a write into the
  pipe that nobody reads any more (\<open>reader_gone\<close>) ends the process by that signal before \<^verbatim>\<open>write\<close> returns;
  only after another failure does \<^verbatim>\<open>write\<close> return -1, and the number that was being written is printed.
  The array for the text of a number has ten characters; a longer text is \<open>None\<close>.
\<close>

subsection \<open>The program\<close>

text \<open>
  The inner loop: the whole text was written, a call failed, or the process was ended by \<^verbatim>\<open>SIGPIPE\<close>.  The
  first failing call is the last one, so one flag says why calls fail.
\<close>

datatype wrote_how = Complete | Failed | Signalled

function write_number :: "bool \<Rightarrow> char sink \<Rightarrow> char list \<Rightarrow> nat \<Rightarrow> wrote_how \<times> char sink" where
  "write_number reader_gone fd number wrote =
     (if wrote < length number then
        (case sys_write fd (drop wrote number) of (curr_wrote, fd) \<Rightarrow>
           if curr_wrote = - 1 then (if reader_gone then Signalled else Failed, fd)
           else write_number reader_gone fd number (wrote + nat curr_wrote))
      else (Complete, fd))"
  by pat_completeness auto
termination
proof (relation "measures [\<lambda>(g, fd, number, wrote). length number - wrote, \<lambda>(g, fd, number, wrote). length (wsched fd)]")
  fix reader_gone :: bool and fd fd' :: "char sink" and number wrote n
  assume "wrote < length number" "(n, fd') = sys_write fd (drop wrote number)" "n \<noteq> - 1"
  then show "((reader_gone, fd', number, wrote + nat n), (reader_gone, fd, number, wrote))
      \<in> measures [\<lambda>(g, fd, number, wrote). length number - wrote, \<lambda>(g, fd, number, wrote). length (wsched fd)]"
    using sink.wr_stalls[of fd "drop wrote number" n fd'] sink.wr_range[of fd "drop wrote number" n fd'] by (auto simp: eq_commute[of "(n, fd')"])
qed simp

declare write_number.simps [simp del]

text \<open>\<open>Some (fd, j)\<close>: what was written, and the number that is printed, if the process gets there.\<close>

function write_numbers :: "bool \<Rightarrow> char sink \<Rightarrow> int \<Rightarrow> int \<Rightarrow> (char sink \<times> int option) option" where
  "write_numbers reader_gone fd N i =
     (if i \<le> N then
        let number = decimal i @ '' '' in
        if 10 < length number + 1 then None
        else (case write_number reader_gone fd number 0 of (res, fd) \<Rightarrow>
          (case res of
             Complete \<Rightarrow> write_numbers reader_gone fd N (i + 1)
           | Failed \<Rightarrow> Some (fd, Some i)
           | Signalled \<Rightarrow> Some (fd, None)))
      else Some (fd, Some (to_i32 (N + 1))))"
  by pat_completeness auto
termination by (relation "measure (\<lambda>(g, fd, N, i). nat (N + 1 - i))") auto

declare write_numbers.simps [simp del]

text \<open>
  How the process ends, with the exit status and what is printed, and with what is in the pipe: \<open>argc\<close>, whether \<^verbatim>\<open>mkfifo\<close> succeeds, what \<^verbatim>\<open>open\<close> returns, and the
  number that \<^verbatim>\<open>strtol\<close> finds in the second argument.
\<close>

datatype fifo_end =
  Exited int "char list" "char list"
| KilledBySigpipe "char list"

definition fifo_main :: "nat \<Rightarrow> bool \<Rightarrow> bool \<Rightarrow> char sink option \<Rightarrow> int \<Rightarrow> fifo_end option" where
  "fifo_main argc made reader_gone fifo arg =
     (if argc < 3 \<or> \<not> made then Some (Exited 1 [] [])
      else case fifo of
        None \<Rightarrow> Some (Exited 1 [] [])
      | Some fd \<Rightarrow> map_option
          (\<lambda>(fd, r). case r of
             Some n \<Rightarrow> Exited 0 (decimal n @ [CHR 0x0A]) (sunk fd)
           | None \<Rightarrow> KilledBySigpipe (sunk fd))
          (write_numbers reader_gone fd (to_i32 arg) 0))"

subsection \<open>What is written\<close>

lemma write_number_writes:
  assumes "wrote \<le> length number"
  shows "case write_number gone fd number wrote of (res, fd') \<Rightarrow>
    \<exists>n. wrote \<le> n \<and> n \<le> length number \<and> sunk fd' = sunk fd @ take (n - wrote) (drop wrote number)
      \<and> (res = (if n = length number then Complete else if gone then Signalled else Failed)) \<and> (no_failure fd \<longrightarrow> res = Complete \<and> no_failure fd')"
  using assms
proof (induction gone fd number wrote rule: write_number.induct)
  case (1 gone fd number wrote)
  obtain k fd1 where w: "sys_write fd (drop wrote number) = (k, fd1)" by fastforce
  show ?case
  proof (cases "wrote < length number \<and> k \<noteq> - 1")
    case True
    have k: "0 \<le> k" "nat k \<le> length number - wrote" "sunk fd1 = sunk fd @ take (nat k) (drop wrote number)"
      using sink.wr_range[OF w] sink.wr_out[OF w] True by auto
    obtain res fd' where r: "write_number gone fd1 number (wrote + nat k) = (res, fd')" by fastforce
    have "wrote + nat k \<le> length number" using k(2) True by arith
    then have "case write_number gone fd1 number (wrote + nat k) of (res, fd') \<Rightarrow>
      \<exists>n. wrote + nat k \<le> n \<and> n \<le> length number
        \<and> sunk fd' = sunk fd1 @ take (n - (wrote + nat k)) (drop (wrote + nat k) number)
        \<and> (res = (if n = length number then Complete else if gone then Signalled else Failed)) \<and> (no_failure fd1 \<longrightarrow> res = Complete \<and> no_failure fd')"
      using "1.IH"[of k fd1] True w by simp
    then obtain n where n: "wrote + nat k \<le> n" "n \<le> length number"
      "sunk fd' = sunk fd1 @ take (n - (wrote + nat k)) (drop (wrote + nat k) number)" "res = (if n = length number then Complete else if gone then Signalled else Failed)"
      "no_failure fd1 \<longrightarrow> res = Complete \<and> no_failure fd'"
      unfolding r prod.case by blast
    have "take (n - wrote) (drop wrote number)
        = take (nat k) (drop wrote number) @ take (n - (wrote + nat k)) (drop (wrote + nat k) number)"
      using n(1) take_add[of "nat k" "n - (wrote + nat k)" "drop wrote number"] by (simp add: add.commute)
    moreover have "no_failure fd \<longrightarrow> no_failure fd1" using sys_write_no_failure[OF w] by blast
    moreover have "write_number gone fd number wrote = (res, fd')"
      using True w r by (simp add: write_number.simps[of gone fd number wrote])
    ultimately show ?thesis using n k(3) by (auto intro!: exI[of _ n])
  next
    case False
    show ?thesis
    proof (cases "wrote < length number")
      case True
      then have "k = - 1" using False by simp
      moreover have "write_number gone fd number wrote = (if gone then Signalled else Failed, fd1)"
        using True w \<open>k = - 1\<close> by (simp add: write_number.simps[of gone fd number wrote])
      ultimately show ?thesis using True sink.wr_fail[of fd "drop wrote number" fd1] w sys_write_no_failure[OF w]
        by (auto intro!: exI[of _ wrote])
    next
      case False
      then have "wrote = length number" using "1.prems" by simp
      then show ?thesis by (auto simp: write_number.simps[of gone fd number] intro!: exI[of _ "length number"])
    qed
  qed
qed

definition number_text :: "int \<Rightarrow> char list" where
  "number_text i = decimal i @ '' ''"

definition numbers_text :: "nat \<Rightarrow> char list" where
  "numbers_text n = concat (map (\<lambda>i. number_text (int i)) [0..<n])"

lemma short_number:
  assumes "i < 100000000"
  shows "length (number_text (int i)) + 1 \<le> 10"
proof -
  have "length (dec_digits i) \<le> 8" using assms length_dec_digits[of i 8] by simp
  then show ?thesis by (simp add: number_text_def decimal_def)
qed

lemma numbers_text_0 [simp]: "numbers_text 0 = []" by (simp add: numbers_text_def)

lemma numbers_text_Suc [simp]: "numbers_text (Suc i) = numbers_text i @ number_text (int i)"
  by (simp add: numbers_text_def)

text \<open>The numbers below \<open>k\<close> were written, and of \<open>k\<close> itself less than its text.\<close>

definition wrote_below :: "nat \<Rightarrow> nat \<Rightarrow> char list \<Rightarrow> bool" where
  "wrote_below N k s \<longleftrightarrow> k \<le> Suc N
     \<and> (\<exists>p. s = numbers_text k @ p \<and> (if k = Suc N then p = [] else strict_prefix p (number_text (int k))))"

lemma write_numbers_writes:
  assumes "N < 100000000" "i \<le> Suc N" "sunk fd = numbers_text i"
  shows "\<exists>fd' k. write_numbers gone fd (int N) (int i) = Some (fd', if k = Suc N \<or> \<not> gone then Some (int k) else None) \<and> wrote_below N k (sunk fd')
    \<and> (no_failure fd \<longrightarrow> k = Suc N)"
  using assms(2,3)
proof (induction "Suc N - i" arbitrary: i fd)
  case 0
  then have "i = Suc N" by simp
  moreover have "to_i32 (int N + 1) = int (Suc N)" using assms(1) by (simp add: is_i32_def)
  ultimately have "write_numbers gone fd (int N) (int i) = Some (fd, Some (int (Suc N)))"
    by (simp add: write_numbers.simps[of gone fd])
  then show ?case using \<open>i = Suc N\<close> 0 by (intro exI[of _ fd] exI[of _ "Suc N"]) (simp add: wrote_below_def)
next
  case (Suc m)
  then have i: "i \<le> N" by simp
  obtain res fd1 where w: "write_number gone fd (number_text (int i)) 0 = (res, fd1)" by fastforce
  then obtain n where n: "n \<le> length (number_text (int i))" "sunk fd1 = numbers_text i @ take n (number_text (int i))"
    "res = (if n = length (number_text (int i)) then Complete else if gone then Signalled else Failed)"
    "no_failure fd \<longrightarrow> res = Complete \<and> no_failure fd1"
    using write_number_writes[where gone = gone and fd = fd and wrote = 0 and number = "number_text (int i)"] Suc.prems by auto
  have step: "write_numbers gone fd (int N) (int i) = (case res of
      Complete \<Rightarrow> write_numbers gone fd1 (int N) (int (Suc i))
    | Failed \<Rightarrow> Some (fd1, Some (int i)) | Signalled \<Rightarrow> Some (fd1, None))"
    using i w short_number[of i] assms(1)
    by (subst write_numbers.simps) (cases res; simp add: Let_def number_text_def[symmetric] add.commute[of 1])
  show ?case
  proof (cases "res = Complete")
    case True
    then have "\<exists>fd' k. write_numbers gone fd1 (int N) (int (Suc i)) = Some (fd', if k = Suc N \<or> \<not> gone then Some (int k) else None) \<and> wrote_below N k (sunk fd')
      \<and> (no_failure fd1 \<longrightarrow> k = Suc N)"
      using Suc.hyps(2) i n(2,3) True by (intro Suc.hyps(1)) (simp_all split: if_splits)
    moreover have "write_numbers gone fd (int N) (int i) = write_numbers gone fd1 (int N) (int (Suc i))"
      using step True by simp
    ultimately show ?thesis using n(4) by (simp only:) blast
  next
    case False
    then have "strict_prefix (take n (number_text (int i))) (number_text (int i))"
      using n(1,3) by (auto simp: strict_prefix_def take_is_prefix)
    then have "wrote_below N i (sunk fd1)" using n(2) i by (auto simp: wrote_below_def)
    moreover have "res = (if gone then Signalled else Failed)" using n(3) False by (auto split: if_splits)
    ultimately show ?thesis using step n(4) i by (auto intro!: exI[of _ i])
  qed
qed

text \<open>
  C13: For a number \<open>N\<close> below 100000000, whatever the descriptor of the named pipe takes at each call and wherever a call fails,
  there is a \<open>k\<close> such that the texts of the numbers below \<open>k\<close>, each with one space, were written in full and in order, followed
  by nothing when \<open>k\<close> is \<open>N + 1\<close> and otherwise by a proper beginning of the text of \<open>k\<close>.  When no call fails \<open>k\<close> is \<open>N + 1\<close>, so
  short writes are completed.  The program exits with 0 and prints \<open>k\<close>, the number of complete numbers in the pipe, unless a call
  failed because the reader is gone: then the process is killed by \<^verbatim>\<open>SIGPIPE\<close> and prints nothing.
\<close>

theorem fifo_counts_numbers:
  assumes "3 \<le> argc" "sunk fd = []" "N < 100000000"
  shows "\<exists>k s. wrote_below N k s \<and> (no_failure fd \<longrightarrow> k = Suc N)
    \<and> fifo_main argc True gone (Some fd) (int N)
      = Some (if k = Suc N \<or> \<not> gone then Exited 0 (decimal (int k) @ [CHR 0x0A]) s else KilledBySigpipe s)"
proof -
  have "to_i32 (int N) = int N" using assms(3) by (simp add: is_i32_def)
  moreover obtain fd' k where
    "write_numbers gone fd (int N) 0 = Some (fd', if k = Suc N \<or> \<not> gone then Some (int k) else None)"
    "wrote_below N k (sunk fd')" "no_failure fd \<longrightarrow> k = Suc N"
    using write_numbers_writes[of N 0 fd gone] assms by auto
  ultimately show ?thesis using assms(1) by (intro exI[of _ k] exI[of _ "sunk fd'"]) (auto simp: fifo_main_def)
qed

text \<open>A pipe that takes three characters, then one, then is left by its reader: the text of 1 is cut before its space.\<close>

lemma fifo_counts_numbers_witness:
  "fifo_main 3 True True (Some \<lparr>sunk = [], wsched = [3, 1, - 1]\<rparr>) 5 = Some (KilledBySigpipe ''0 1'')
    \<and> (\<exists>k. k \<noteq> 6 \<and> wrote_below 5 k ''0 1'')"
proof -
  have run: "fifo_main 3 True True (Some \<lparr>sunk = [], wsched = [3, 1, - 1]\<rparr>) 5 = Some (KilledBySigpipe ''0 1'')" by code_simp
  obtain k s where k: "fifo_main 3 True True (Some \<lparr>sunk = [], wsched = [3, 1, - 1]\<rparr>) (int 5)
      = Some (if k = Suc 5 \<or> \<not> True then Exited 0 (decimal (int k) @ [CHR 0x0A]) s else KilledBySigpipe s)" "wrote_below 5 k s"
    using fifo_counts_numbers[of 3 "\<lparr>sunk = [], wsched = [3, 1, - 1]\<rparr>" 5 True] by auto
  then have "s = ''0 1''" "k \<noteq> 6" using run by (auto split: if_splits)
  then show ?thesis using run k(2) by blast
qed

text \<open>Another failure, such as an input/output error, is reported.\<close>

lemma fifo_reports_failure:
  "fifo_main 3 True False (Some \<lparr>sunk = [], wsched = [3, 1, - 1]\<rparr>) 5 = Some (Exited 0 (decimal 1 @ [CHR 0x0A]) ''0 1'')"
  by code_simp

lemma fifo_main_errors:
  "argc < 3 \<Longrightarrow> fifo_main argc made gone fifo arg = Some (Exited 1 [] [])"
  "fifo_main argc False gone fifo arg = Some (Exited 1 [] [])"
  "fifo_main argc made gone None arg = Some (Exited 1 [] [])"
  by (simp_all add: fifo_main_def)

text \<open>From 100000000 on the text of the number with its space and the NUL is eleven characters: the array \<open>number\<close> is overrun.\<close>

lemma fifo_number_overruns: "write_numbers gone fd 100000000 100000000 = None"
proof -
  have "length (decimal 100000000) = 9"
    by (simp add: decimal_def dec_digits.simps)
  then show ?thesis by (subst write_numbers.simps) simp
qed

end
