(* ===== verification/FindSubstrings.thy ===== *)
theory FindSubstrings
  imports PrintList
begin

section \<open>find-substrings-in-file: the positions of a string in a mapped file\<close>

text \<open>
  \<^verbatim>\<open>inf10-0_posix_mmap_find-substrings-in-file/main.c\<close>.  The file is mapped and every position is compared with the string
  character by character.  A mapped file is the list of its characters; the loop only reads inside it.
\<close>

subsection \<open>The program\<close>

text \<open>The inner loop: how many characters of \<open>str\<close> agree with the file from position \<open>i\<close> on.\<close>

function agree :: "char list \<Rightarrow> char list \<Rightarrow> nat \<Rightarrow> nat \<Rightarrow> nat" where
  "agree str cts i j = (if j < length str \<and> str ! j = cts ! (i + j) then agree str cts i (Suc j) else j)"
  by pat_completeness auto
termination by (relation "measure (\<lambda>(str, cts, i, j). length str - j)") auto

declare agree.simps [simp del]

text \<open>The outer loop, up to the difference \<open>n\<close> of the sizes, which may be negative.\<close>

function find_from :: "char list \<Rightarrow> char list \<Rightarrow> int \<Rightarrow> nat \<Rightarrow> char list" where
  "find_from str cts n i =
     (if int i < n
      then (if agree str cts i 0 = length str then decimal (int i) @ '' '' else []) @ find_from str cts n (Suc i)
      else [])"
  by pat_completeness auto
termination by (relation "measure (\<lambda>(str, cts, n, i). nat (n - int i))") auto

declare find_from.simps [simp del]

text \<open>
  The output.  \<^verbatim>\<open>None\<close> is a file that cannot be opened: \<^verbatim>\<open>lseek\<close> returns -1 and the mapping fails, which is not checked.
\<close>

definition find_main :: "char list option \<Rightarrow> char list \<Rightarrow> char list" where
  "find_main file str =
     (let f_size = (case file of None \<Rightarrow> - 1 | Some f \<Rightarrow> int (length f));
          str_len = to_i32 (int (length str))
      in find_from str (case file of None \<Rightarrow> [] | Some f \<Rightarrow> f) (to_i32 (to_i32 f_size - str_len)) 0)"

subsection \<open>Occurrences\<close>

definition occurs_at :: "char list \<Rightarrow> char list \<Rightarrow> nat \<Rightarrow> bool" where
  "occurs_at str cts i \<longleftrightarrow> i + length str \<le> length cts \<and> take (length str) (drop i cts) = str"

lemma agree_iff:
  assumes "j \<le> length str" "i + length str \<le> length cts" "take j (drop i cts) = take j str"
  shows "agree str cts i j = length str \<longleftrightarrow> occurs_at str cts i"
  using assms(1,3)
proof (induction "length str - j" arbitrary: j)
  case 0
  then show ?case using assms(2) by (simp add: agree.simps[of str cts i j] occurs_at_def)
next
  case (Suc m)
  then have j: "j < length str" by simp
  have at: "drop i cts ! j = cts ! (i + j)" using j assms(2) by simp
  show ?case
  proof (cases "str ! j = cts ! (i + j)")
    case True
    then have "take (Suc j) (drop i cts) = take (Suc j) str"
      using j at Suc.prems assms(2) by (simp add: take_Suc_conv_app_nth)
    then show ?thesis using Suc.hyps(1)[of "Suc j"] Suc.hyps(2) j True by (simp add: agree.simps[of str cts i j])
  next
    case False
    then have "take (length str) (drop i cts) ! j \<noteq> str ! j" using j at by simp
    then have "\<not> occurs_at str cts i" by (auto simp: occurs_at_def)
    then show ?thesis using False j by (simp add: agree.simps[of str cts i j])
  qed
qed

text \<open>The comparison stays inside the string, so the positions that are read lie inside the file.\<close>

lemma agree_le: "j \<le> length str \<Longrightarrow> agree str cts i j \<le> length str"
  by (induction str cts i j rule: agree.induct) (subst agree.simps, simp)

definition positions_text :: "nat list \<Rightarrow> char list" where
  "positions_text is = concat (map (\<lambda>i. decimal (int i) @ '' '') is)"

lemma find_from_occurrences:
  assumes "n + length str \<le> length cts"
  shows "find_from str cts (int n) i = positions_text (filter (occurs_at str cts) [i..<n])"
proof (induction "n - i" arbitrary: i)
  case 0
  then show ?case by (simp add: find_from.simps[of str cts "int n" i] positions_text_def)
next
  case (Suc m)
  then have i: "i < n" by simp
  then have "agree str cts i 0 = length str \<longleftrightarrow> occurs_at str cts i"
    using assms agree_iff[of 0 str i cts] by simp
  moreover have "find_from str cts (int n) (Suc i) = positions_text (filter (occurs_at str cts) [Suc i..<n])"
    using Suc by simp
  ultimately show ?case using i
    by (simp add: find_from.simps[of str cts "int n" i] positions_text_def upt_conv_Cons)
qed

text \<open>
  For a file and a string of fewer than 2147483648 characters the program prints, in increasing order, exactly the positions at
  which the string occurs in the file, overlapping occurrences included, except an occurrence that ends with the last
  character of the file: the loop ends one position too early.
\<close>

lemma find_main_positions:
  assumes "length cts < 2 ^ 31" "length str < 2 ^ 31"
  shows "find_main (Some cts) str
    = positions_text (filter (\<lambda>i. occurs_at str cts i \<and> i + length str \<noteq> length cts) [0..<Suc (length cts)])"
proof -
  let ?n = "int (length cts) - int (length str)"
  have main: "find_main (Some cts) str = find_from str cts ?n 0"
    using assms by (simp add: find_main_def Let_def is_i32_def)
  show ?thesis
  proof (cases "length str \<le> length cts")
    case True
    let ?m = "length cts - length str"
    have "find_from str cts (int ?m) 0 = positions_text (filter (occurs_at str cts) [0..<?m])"
      using find_from_occurrences[of ?m str cts 0] True by simp
    moreover have "filter (\<lambda>i. occurs_at str cts i \<and> i + length str \<noteq> length cts) [0..<Suc (length cts)]
        = filter (occurs_at str cts) [0..<?m]"
    proof -
      have "[0..<Suc (length cts)] = [0..<?m] @ [?m..<Suc (length cts)]"
        using upt_add_eq_append[of 0 ?m "Suc (length cts) - ?m"] by simp
      moreover have "filter (\<lambda>i. occurs_at str cts i \<and> i + length str \<noteq> length cts) [?m..<Suc (length cts)] = []"
        by (auto simp: filter_empty_conv occurs_at_def)
      moreover have "filter (\<lambda>i. occurs_at str cts i \<and> i + length str \<noteq> length cts) [0..<?m] = filter (occurs_at str cts) [0..<?m]"
        by (rule filter_cong) auto
      ultimately show ?thesis by (simp only: filter_append append_Nil2)
    qed
    ultimately show ?thesis using main True by (simp add: of_nat_diff)
  next
    case False
    then have "filter (\<lambda>i. occurs_at str cts i \<and> i + length str \<noteq> length cts) [0..<Suc (length cts)] = []"
      by (auto simp: filter_empty_conv occurs_at_def)
    then show ?thesis using main False by (simp add: find_from.simps positions_text_def)
  qed
qed

text \<open>The string \<^verbatim>\<open>aba\<close> occurs at 0, 2 and 5; the last occurrence ends the file.\<close>

lemma find_main_positions_witness: "find_main (Some ''ababaaba'') ''aba'' = ''0 2 ''"
proof -
  have "find_main (Some ''ababaaba'') ''aba'' = positions_text [0, Suc (Suc 0)]"
    by (subst find_main_positions) (simp_all add: occurs_at_def upt_rec)
  also have "\<dots> = ''0 2 ''" by code_simp
  finally show ?thesis .
qed

lemma find_main_unreadable: "length str < 2 ^ 31 \<Longrightarrow> find_main None str = []"
  by (simp add: find_main_def Let_def is_i32_def find_from.simps)

end
