(* ===== verification/ParallelSum.thy ===== *)
theory ParallelSum
  imports PrintList ScanInput
begin

section \<open>parallel-sum: threads that read and add numbers\<close>

text \<open>
  \<^verbatim>\<open>inf18-1_posix_threads_parallel-sum/main.c\<close>.  Every thread reads numbers from the common input with \<^verbatim>\<open>scanf\<close>, which locks the
  stream, and adds them to a cell of its own; \<^verbatim>\<open>main\<close> joins the threads and adds the cells.  The cells are declared as
  \<^verbatim>\<open>pthread_t\<close>, 64 bits of which the threads use the low 32 through an \<^verbatim>\<open>int\<close> pointer, while \<^verbatim>\<open>main\<close> reads all 64.
\<close>

subsection \<open>The program\<close>

datatype adder_pc = ANone | AScan | AAdd int | AEnd

datatype summer_pc = SCreate nat | SJoin nat | SPrint

record sum_state =
  input_left :: "char list"
  part_sums :: "nat \<Rightarrow> 64 word"
  apc :: "nat \<Rightarrow> adder_pc"
  spc :: summer_pc
  the_sum :: "32 word"

text \<open>An addition to the \<^verbatim>\<open>int\<close> at the address of a cell: the low half changes, the high half stays.\<close>

definition add_low :: "64 word \<Rightarrow> int \<Rightarrow> 64 word" where
  "add_low c v = push_bit 32 (drop_bit 32 c) + ucast (ucast c + word_of_int v :: 32 word)"

text \<open>\<^verbatim>\<open>sum_numbers\<close> of thread \<open>t\<close>: a call of \<^verbatim>\<open>scanf\<close>, or an addition to the cell, which no other thread uses.\<close>

definition sum_numbers_step :: "nat \<Rightarrow> sum_state \<Rightarrow> sum_state option" where
  "sum_numbers_step t s =
     (case apc s t of
        ANone \<Rightarrow> None
      | AScan \<Rightarrow>
          (case scan_int (input_left s) of
             (Some v, r) \<Rightarrow> Some (s\<lparr>input_left := r, apc := (apc s)(t := AAdd v)\<rparr>)
           | (None, r) \<Rightarrow> Some (s\<lparr>input_left := r, apc := (apc s)(t := AEnd)\<rparr>))
      | AAdd v \<Rightarrow> Some (s\<lparr>part_sums := (part_sums s)(t := add_low (part_sums s t) v), apc := (apc s)(t := AScan)\<rparr>)
      | AEnd \<Rightarrow> None)"

text \<open>\<^verbatim>\<open>main\<close>: creating a thread, or joining one and adding its cell; the sum is converted to 64 bits and back.\<close>

definition summer_step :: "nat \<Rightarrow> sum_state \<Rightarrow> sum_state option" where
  "summer_step K s =
     (case spc s of
        SCreate i \<Rightarrow> Some (if i < K then s\<lparr>apc := (apc s)(i := AScan), spc := SCreate (i + 1)\<rparr> else s\<lparr>spc := SJoin 0\<rparr>)
      | SJoin i \<Rightarrow>
          if i < K
          then (if apc s i = AEnd
                then Some (s\<lparr>the_sum := ucast (scast (the_sum s) + part_sums s i :: 64 word), spc := SJoin (i + 1)\<rparr>)
                else None)
          else Some (s\<lparr>spc := SPrint\<rparr>)
      | SPrint \<Rightarrow> None)"

definition sum_start :: "char list \<Rightarrow> sum_state" where
  "sum_start inp = \<lparr>input_left = inp, part_sums = (\<lambda>_. 0), apc = (\<lambda>_. ANone), spc = SCreate 0, the_sum = 0\<rparr>"

definition printed_sum :: "sum_state \<Rightarrow> char list" where
  "printed_sum s = decimal (sint (the_sum s)) @ [CHR 0x0A]"

inductive sum_step :: "nat \<Rightarrow> sum_state \<Rightarrow> sum_state \<Rightarrow> bool" for K where
  summer: "summer_step K s = Some s' \<Longrightarrow> sum_step K s s'"
| adder: "t < K \<Longrightarrow> sum_numbers_step t s = Some s' \<Longrightarrow> sum_step K s s'"

inductive_cases sum_stepE: "sum_step K s s'"

inductive sum_reach :: "nat \<Rightarrow> char list \<Rightarrow> sum_state \<Rightarrow> bool" for K inp where
  start: "sum_reach K inp (sum_start inp)"
| step: "sum_reach K inp s \<Longrightarrow> sum_step K s s' \<Longrightarrow> sum_reach K inp s'"

subsection \<open>What remains to be added\<close>

lemma ucast_plus: "(ucast (a + b) :: 32 word) = ucast a + ucast b" for a b :: "64 word"
  by (simp add: word_uint_eq_iff uint_word_ariths unsigned_ucast_eq take_bit_eq_mod mod_mod_cancel mod_add_eq)

lemma ucast_scast: "(ucast (scast x :: 64 word) :: 32 word) = x" for x :: "32 word"
  by (rule bit_word_eqI) (auto simp: bit_simps)

lemma sint_of_int: "sint (word_of_int x :: 32 word) = to_i32 x"
  by (simp add: to_i32_def signed_of_int signed_take_bit_eq_take_bit_shift take_bit_eq_mod)

lemma ucast_ucast: "(ucast (ucast x :: 64 word) :: 32 word) = x" for x :: "32 word"
  by (rule bit_word_eqI) (auto simp: bit_simps)

lemma ucast_add_low: "(ucast (add_low c v) :: 32 word) = ucast c + word_of_int v"
proof -
  have "(ucast (push_bit 32 (drop_bit 32 c)) :: 32 word) = 0"
    by (rule bit_word_eqI) (simp add: bit_simps)
  then show ?thesis by (simp add: add_low_def ucast_plus ucast_ucast)
qed

fun joined :: "nat \<Rightarrow> summer_pc \<Rightarrow> nat" where
  "joined K (SCreate i) = 0"
| "joined K (SJoin i) = i"
| "joined K SPrint = K"

fun pending :: "adder_pc \<Rightarrow> 32 word" where
  "pending (AAdd v) = word_of_int v"
| "pending _ = 0"

text \<open>The cell and the number in hand of a thread, as long as the thread is not joined.\<close>

definition share :: "nat \<Rightarrow> sum_state \<Rightarrow> nat \<Rightarrow> 32 word" where
  "share K s t = (if t < joined K (spc s) then 0 else ucast (part_sums s t)) + pending (apc s t)"

definition accounted :: "nat \<Rightarrow> sum_state \<Rightarrow> 32 word" where
  "accounted K s = the_sum s + (\<Sum>t<K. share K s t)"

definition sum_inv :: "nat \<Rightarrow> int list \<Rightarrow> sum_state \<Rightarrow> bool" where
  "sum_inv K vs s \<longleftrightarrow>
     (\<exists>us. all_ints (input_left s) = Some us \<and> accounted K s + word_of_int (sum_list us) = word_of_int (sum_list vs)
        \<and> ((\<exists>t. apc s t = AEnd) \<longrightarrow> us = []))"

definition threads_inv :: "nat \<Rightarrow> sum_state \<Rightarrow> bool" where
  "threads_inv K s \<longleftrightarrow>
     (case spc s of
        SCreate i \<Rightarrow> i \<le> K \<and> (\<forall>t. apc s t = ANone \<longleftrightarrow> i \<le> t)
      | SJoin i \<Rightarrow> i \<le> K \<and> (\<forall>t. apc s t = ANone \<longleftrightarrow> K \<le> t) \<and> (\<forall>t<i. apc s t = AEnd)
      | SPrint \<Rightarrow> \<forall>t<K. apc s t = AEnd)"

lemma accounted_move:
  assumes "t < K" "the_sum s' = the_sum s" "\<forall>u. u \<noteq> t \<longrightarrow> share K s' u = share K s u" "share K s' t = share K s t + d"
  shows "accounted K s' = accounted K s + d"
  using sum_move[OF assms(1,3)] assms(2,4) by (simp add: accounted_def algebra_simps)

subsection \<open>Every step keeps the invariants\<close>

lemma sum_numbers_stepE:
  assumes "sum_numbers_step t s = Some s'"
  obtains (read) v r where "apc s t = AScan" "scan_int (input_left s) = (Some v, r)"
      "s' = s\<lparr>input_left := r, apc := (apc s)(t := AAdd v)\<rparr>"
  | (over) r where "apc s t = AScan" "scan_int (input_left s) = (None, r)"
      "s' = s\<lparr>input_left := r, apc := (apc s)(t := AEnd)\<rparr>"
  | (add) v where "apc s t = AAdd v"
      "s' = s\<lparr>part_sums := (part_sums s)(t := add_low (part_sums s t) v), apc := (apc s)(t := AScan)\<rparr>"
  using assms by (cases "apc s t") (auto simp: sum_numbers_step_def split: prod.splits option.splits)

lemma sum_invI:
  assumes "all_ints (input_left s) = Some us" "accounted K s + word_of_int (sum_list us) = word_of_int (sum_list vs)"
    and "\<And>t. apc s t = AEnd \<Longrightarrow> us = []"
  shows "sum_inv K vs s"
  using assms unfolding sum_inv_def by blast

lemma not_joined: "threads_inv K s \<Longrightarrow> t < K \<Longrightarrow> apc s t \<noteq> AEnd \<Longrightarrow> \<not> t < joined K (spc s)"
  by (auto simp: threads_inv_def split: summer_pc.splits)

lemma adder_sum_inv:
  assumes t: "t < K" and inv: "threads_inv K s" "sum_inv K vs s" and st: "sum_numbers_step t s = Some s'"
  shows "sum_inv K vs s'"
proof -
  obtain us where us: "all_ints (input_left s) = Some us" "accounted K s + word_of_int (sum_list us) = word_of_int (sum_list vs)"
    "\<And>t. apc s t = AEnd \<Longrightarrow> us = []" using inv(2) unfolding sum_inv_def by blast
  show ?thesis using st
  proof (cases rule: sum_numbers_stepE)
    case (read v r)
    obtain us' where us': "us = v # us'" "all_ints r = Some us'" using all_ints_next[OF us(1) read(2)] by blast
    have "accounted K s' = accounted K s + word_of_int v"
      using t read by (intro accounted_move) (auto simp: share_def)
    moreover have "all_ints (input_left s') = Some us'" using us'(2) read(3) by simp
    moreover have "\<not> (\<exists>u. apc s' u = AEnd)" using us(3) us'(1) read(3) by auto
    ultimately show ?thesis using us(2) us'(1) by (intro sum_invI) (simp_all add: algebra_simps)
  next
    case (over r)
    have e: "us = []" "r = []" using all_ints_end[OF us(1) over(2)] by auto
    have "accounted K s' = accounted K s + 0"
      using t over by (intro accounted_move) (auto simp: share_def)
    moreover have "all_ints (input_left s') = Some []" using e(2) over(3) by (simp add: all_ints_blank skip_space_def)
    ultimately show ?thesis using us(2) e(1) by (intro sum_invI) simp_all
  next
    case (add v)
    have "\<not> t < joined K (spc s)" using not_joined[OF inv(1) t] add(1) by simp
    then have "accounted K s' = accounted K s + 0"
      using t add by (intro accounted_move) (auto simp: share_def ucast_add_low)
    then show ?thesis using us add by (intro sum_invI[of _ us]) (auto split: if_splits)
  qed
qed

lemma adder_threads_inv:
  assumes "threads_inv K s" "sum_numbers_step t s = Some s'"
  shows "threads_inv K s'"
proof -
  have "apc s t \<noteq> ANone \<and> apc s t \<noteq> AEnd \<and> apc s' t \<noteq> ANone \<and> spc s' = spc s \<and> (\<forall>u. u \<noteq> t \<longrightarrow> apc s' u = apc s u)"
    using assms(2) by (cases rule: sum_numbers_stepE) auto
  then have "apc s' u = ANone \<longleftrightarrow> apc s u = ANone" "apc s u = AEnd \<Longrightarrow> apc s' u = AEnd" "spc s' = spc s" for u
    by (cases "u = t"; auto)+
  then show ?thesis using assms(1) by (auto simp: threads_inv_def split: summer_pc.splits)
qed

lemma summer_inv:
  assumes inv: "threads_inv K s" "sum_inv K vs s" and st: "summer_step K s = Some s'"
  shows "threads_inv K s' \<and> sum_inv K vs s'"
proof -
  obtain us where us: "all_ints (input_left s) = Some us" "accounted K s + word_of_int (sum_list us) = word_of_int (sum_list vs)"
    "\<And>t. apc s t = AEnd \<Longrightarrow> us = []" using inv(2) unfolding sum_inv_def by blast
  show ?thesis
  proof (cases "spc s")
    case (SCreate i)
    show ?thesis
    proof (cases "i < K")
      case True
      have s': "s' = s\<lparr>apc := (apc s)(i := AScan), spc := SCreate (i + 1)\<rparr>" using st SCreate True by (simp add: summer_step_def)
      have none: "apc s u = ANone \<longleftrightarrow> i \<le> u" for u using inv(1) SCreate by (simp add: threads_inv_def)
      have "apc s' u = ANone \<longleftrightarrow> i + 1 \<le> u" for u using none[of u] by (cases "u = i") (auto simp: s')
      then have "threads_inv K s'" using True s' by (simp add: threads_inv_def)
      moreover have "accounted K s' = accounted K s + 0"
        using True none[of i] SCreate by (intro accounted_move[of i]) (auto simp: s' share_def)
      then have "sum_inv K vs s'" using us by (intro sum_invI[of _ us]) (auto simp: s' split: if_splits)
      ultimately show ?thesis by blast
    next
      case False
      then have s': "s' = s\<lparr>spc := SJoin 0\<rparr>" using st SCreate by (simp add: summer_step_def)
      then have "accounted K s' = accounted K s" using SCreate by (simp add: accounted_def share_def)
      then have "sum_inv K vs s'" using us by (intro sum_invI[of _ us]) (auto simp: s')
      then show ?thesis using inv(1) SCreate False by (simp add: threads_inv_def s')
    qed
  next
    case (SJoin i)
    show ?thesis
    proof (cases "i < K")
      case True
      have ended: "apc s i = AEnd" using st SJoin True by (simp add: summer_step_def split: if_splits)
      then have s': "s' = s\<lparr>the_sum := ucast (scast (the_sum s) + part_sums s i :: 64 word), spc := SJoin (i + 1)\<rparr>"
        using st SJoin True by (simp add: summer_step_def)
      have "(\<Sum>t<K. share K s' t) + share K s i = (\<Sum>t<K. share K s t) + share K s' i"
        using True SJoin by (intro sum_move) (auto simp: s' share_def)
      then have "accounted K s' = accounted K s"
        using SJoin ended by (simp add: accounted_def s' share_def ucast_plus ucast_scast algebra_simps)
      then have "sum_inv K vs s'" using us by (intro sum_invI[of _ us]) (auto simp: s')
      then show ?thesis using inv(1) SJoin True ended by (auto simp: threads_inv_def s' less_Suc_eq)
    next
      case False
      then have s': "s' = s\<lparr>spc := SPrint\<rparr>" "i = K" using st SJoin inv(1) by (simp_all add: summer_step_def threads_inv_def)
      then have "accounted K s' = accounted K s" using SJoin by (simp add: accounted_def share_def)
      then have "sum_inv K vs s'" using us by (intro sum_invI[of _ us]) (auto simp: s'(1))
      then show ?thesis using inv(1) SJoin s' by (simp add: threads_inv_def)
    qed
  qed (use st in \<open>simp add: summer_step_def\<close>)
qed

lemma sum_reach_inv:
  assumes "all_ints inp = Some vs" "sum_reach K inp s"
  shows "threads_inv K s \<and> sum_inv K vs s"
  using assms(2)
proof (induction rule: sum_reach.induct)
  case start
  then show ?case using assms(1) by (simp add: threads_inv_def sum_inv_def sum_start_def accounted_def share_def)
next
  case (step s s')
  show ?case
  proof (rule sum_stepE[OF step.hyps(2)])
    assume "summer_step K s = Some s'"
    then show ?thesis using summer_inv step.IH by blast
  next
    fix t assume "t < K" "sum_numbers_step t s = Some s'"
    then show ?thesis using adder_threads_inv adder_sum_inv step.IH by blast
  qed
qed

text \<open>When \<^verbatim>\<open>main\<close> prints, everything has been read and added.\<close>

lemma final_sum:
  assumes "all_ints inp = Some vs" "0 < K" "sum_reach K inp s" "spc s = SPrint"
  shows "the_sum s = word_of_int (sum_list vs)"
proof -
  have inv: "threads_inv K s" "sum_inv K vs s" using sum_reach_inv[OF assms(1,3)] by auto
  then have ended: "\<forall>t<K. apc s t = AEnd" using assms(4) by (simp add: threads_inv_def)
  then have "accounted K s = the_sum s" using assms(4) by (simp add: accounted_def share_def)
  moreover have "apc s 0 = AEnd" using ended assms(2) by blast
  ultimately show ?thesis using inv(2) unfolding sum_inv_def by auto
qed

subsection \<open>Progress\<close>

fun adder_rank :: "adder_pc \<Rightarrow> nat" where
  "adder_rank AEnd = 0"
| "adder_rank (AAdd v) = 2"
| "adder_rank _ = 1"

fun summer_rank :: "nat \<Rightarrow> summer_pc \<Rightarrow> nat" where
  "summer_rank K (SCreate i) = (K - i) + K + 3"
| "summer_rank K (SJoin i) = (K - i) + 1"
| "summer_rank K SPrint = 0"

definition sum_rank :: "nat \<Rightarrow> sum_state \<Rightarrow> nat" where
  "sum_rank K s = 3 * length (input_left s) + (\<Sum>t<K. adder_rank (apc s t)) + summer_rank K (spc s)"

lemma adder_rank_drops:
  assumes "t < K" "sum_numbers_step t s = Some s'"
  shows "sum_rank K s' < sum_rank K s"
proof -
  have "spc s' = spc s \<and> (\<forall>u. u \<noteq> t \<longrightarrow> apc s' u = apc s u)
      \<and> 3 * length (input_left s') + adder_rank (apc s' t) < 3 * length (input_left s) + adder_rank (apc s t)"
    using assms(2)
  proof (cases rule: sum_numbers_stepE)
    case (read v r)
    then show ?thesis using scan_int_shorter[OF read(2)] by simp
  next
    case (over r)
    then show ?thesis using scan_int_le[OF over(2)] by simp
  qed simp
  then show ?thesis
    using sum_move[OF assms(1), of "\<lambda>u. adder_rank (apc s' u)" "\<lambda>u. adder_rank (apc s u)"] by (simp add: sum_rank_def)
qed

lemma summer_rank_drops:
  assumes "threads_inv K s" "summer_step K s = Some s'"
  shows "sum_rank K s' < sum_rank K s"
proof (cases "spc s")
  case (SCreate i)
  then have "apc s i = ANone" using assms(1) by (simp add: threads_inv_def)
  then have "(\<Sum>t<K. adder_rank (((apc s)(i := AScan)) t)) = (\<Sum>t<K. adder_rank (apc s t))"
    by (intro sum.cong) auto
  then show ?thesis using assms(2) SCreate by (auto simp: summer_step_def sum_rank_def split: if_splits)
qed (use assms(2) in \<open>auto simp: summer_step_def sum_rank_def split: if_splits\<close>)

lemma sum_not_stuck:
  assumes "threads_inv K s" "spc s \<noteq> SPrint"
  shows "\<exists>s'. sum_step K s s'"
proof (cases "\<exists>s'. summer_step K s = Some s'")
  case True
  then show ?thesis using sum_step.summer by blast
next
  case False
  then obtain i where i: "spc s = SJoin i" "i < K" "apc s i \<noteq> AEnd"
    using assms(2) by (cases "spc s") (auto simp: summer_step_def split: if_splits)
  then have "apc s i \<noteq> ANone" using assms(1) by (simp add: threads_inv_def)
  then have "\<exists>s'. sum_numbers_step i s = Some s'"
    using i(3) by (cases "apc s i") (auto simp: sum_numbers_step_def split: prod.splits option.splits)
  then show ?thesis using sum_step.adder i(2) by blast
qed

lemma sum_step_rank:
  assumes "threads_inv K s" "sum_step K s s'"
  shows "sum_rank K s' < sum_rank K s"
  by (rule sum_stepE[OF assms(2)]) (use summer_rank_drops[OF assms(1)] adder_rank_drops in blast)+

lemma sum_ends:
  assumes "all_ints inp = Some vs" "sum_reach K inp s"
  shows "\<exists>s'. sum_reach K inp s' \<and> spc s' = SPrint"
  using assms(2)
proof (induction "sum_rank K s" arbitrary: s rule: less_induct)
  case less
  have inv: "threads_inv K s" using sum_reach_inv[OF assms(1) less.prems] by blast
  show ?case
  proof (cases "spc s = SPrint")
    case False
    then obtain s' where "sum_step K s s'" using sum_not_stuck[OF inv] by blast
    then show ?thesis using less.hyps[OF sum_step_rank[OF inv]] sum_reach.step[OF less.prems] by blast
  qed (use less.prems in blast)
qed

text \<open>Numbers that are written one after the other, each followed by a space.\<close>

lemma all_ints_printed: "list_all is_i32 vs \<Longrightarrow> all_ints (printed vs) = Some vs"
proof (induction vs)
  case Nil
  then show ?case by (simp add: printed_def all_ints_blank skip_space_def)
next
  case (Cons v vs)
  have "scan_int (decimal v @ CHR '' '' # printed vs) = (Some v, CHR '' '' # printed vs)"
    using scan_int_digits[OF dec_digits_nonempty dec_digits_are_digits newline_char(3)] dec_val_digits
    by (simp add: decimal_def)
  then show ?case using Cons
    by (subst all_ints.simps) (simp add: printed_def all_ints_ws newline_char(3))
qed

text \<open>
  C26: For an input of integers that \<^verbatim>\<open>int\<close> can hold, at least one thread and every interleaving of the threads: until \<^verbatim>\<open>main\<close> is at
  its output somebody can move, every step reduces a rank, so the program ends, and what is printed is the sum
  of all numbers of the input, reduced to 32 bits.  No number is lost or added twice, although \<^verbatim>\<open>main\<close> reads cells of
  64 bits of which the threads write 32.
\<close>

theorem parallel_sum_adds:
  assumes "all_ints inp = Some vs" "0 < K" "sum_reach K inp s"
  shows "(spc s \<noteq> SPrint \<longrightarrow> (\<exists>s'. sum_step K s s'))
    \<and> (\<forall>s'. sum_step K s s' \<longrightarrow> sum_rank K s' < sum_rank K s)
    \<and> (spc s = SPrint \<longrightarrow> printed_sum s = decimal (to_i32 (sum_list vs)) @ [CHR 0x0A])"
  using sum_reach_inv[OF assms(1,3)] sum_not_stuck[of K s] sum_step_rank[of K s] final_sum[OF assms]
  by (auto simp: printed_sum_def sint_of_int)

lemma parallel_sum_witness:
  "\<exists>s. sum_reach 3 (printed [2147483647, 5, - 7, 10]) s \<and> spc s = SPrint \<and> printed_sum s = decimal (- 2147483641) @ [CHR 0x0A]"
proof -
  have ints: "all_ints (printed [2147483647, 5, - 7, 10]) = Some [2147483647, 5, - 7, 10]"
    by (rule all_ints_printed) (simp add: is_i32_def)
  obtain s where s: "sum_reach 3 (printed [2147483647, 5, - 7, 10]) s" "spc s = SPrint"
    using sum_ends[OF ints sum_reach.start] by blast
  then show ?thesis using parallel_sum_adds[OF ints _ s(1)] by (auto simp: to_i32_def)
qed

end
