(* ===== verification/ShmPrograms.thy ===== *)
theory ShmPrograms
  imports PrintList ScanInput
begin

section \<open>Programs around shared memory\<close>

text \<open>
  \<^verbatim>\<open>inf21-1_posix_shm_sem_ping-pong-using-shm/main.c\<close>, a server that calls functions of a loaded library for another process, and
  \<^verbatim>\<open>inf20-0_posix_shm_sem_print-array-from-shm/main.c\<close>, which prints an array out of shared memory.

  The dynamic loader is a parameter (\<open>loader\<close>); of it only the documented treatment of an invalid mode is used
  (\<open>modes_checked\<close>).  The process that uses the server is not part of the program; it is an environment that may do anything
  to the name, the value and the result while it is its turn, and whose turn it is between its taking a response and its
  posting the next request, as the two semaphores suggest.  A \<^verbatim>\<open>double\<close> is of any type.
\<close>

subsection \<open>The server and its environment\<close>

text \<open>
  \<^verbatim>\<open>dlopen\<close> gives a handle or \<^verbatim>\<open>NULL\<close>; \<^verbatim>\<open>dlsym\<close> finds a function in what a handle stands for, and with \<^verbatim>\<open>NULL\<close>, which is
  \<^verbatim>\<open>RTLD_DEFAULT\<close>, in the global scope of the process.  A mode must contain \<^verbatim>\<open>RTLD_LAZY\<close> (1) or \<^verbatim>\<open>RTLD_NOW\<close> (2); without them
  \<^verbatim>\<open>dlopen\<close> fails.
\<close>

record 'd loader =
  dlopen :: "char list \<Rightarrow> nat \<Rightarrow> nat option"
  dlsym :: "nat option \<Rightarrow> char list \<Rightarrow> ('d \<Rightarrow> 'd) option"

definition modes_checked :: "'d loader \<Rightarrow> bool" where
  "modes_checked ld \<longleftrightarrow> (\<forall>filename mode. mode mod 4 = 0 \<longrightarrow> dlopen ld filename mode = None)"

datatype 'd server_pc = VWait | VCheck | VFind | VCall "'d \<Rightarrow> 'd" | VPost | VEnd | VFault

text \<open>
  \<^verbatim>\<open>shared_data_t\<close>, the handle \<^verbatim>\<open>lib\<close> and the place of the server.  The last three fields record what the environment has done:
  whether it is its turn, the requests it has posted and the results it has found when it took the responses.
\<close>

record 'd shared_data =
  request_ready :: nat
  response_ready :: nat
  func_name :: "char list"
  shm_value :: 'd
  shm_result :: 'd
  lib :: "nat option"
  vpc :: "'d server_pc"
  turn :: bool
  posted :: "(char list \<times> 'd) list"
  answers :: "'d list"

text \<open>
  The loop of the server, memory access by memory access.  A function that is not found is called through a null pointer:
  \<open>VFault\<close>.
\<close>

definition shm_server_step :: "'d loader \<Rightarrow> 'd shared_data \<Rightarrow> 'd shared_data option" where
  "shm_server_step ld s =
     (case vpc s of
        VWait \<Rightarrow> if 0 < request_ready s then Some (s\<lparr>request_ready := request_ready s - 1, vpc := VCheck\<rparr>) else None
      | VCheck \<Rightarrow> Some (s\<lparr>vpc := (if cstr (func_name s) = [] then VEnd else VFind)\<rparr>)
      | VFind \<Rightarrow>
          (case dlsym ld (lib s) (cstr (func_name s)) of
             None \<Rightarrow> Some (s\<lparr>vpc := VFault\<rparr>)
           | Some f \<Rightarrow> Some (s\<lparr>vpc := VCall f\<rparr>))
      | VCall f \<Rightarrow> Some (s\<lparr>shm_result := f (shm_value s), vpc := VPost\<rparr>)
      | VPost \<Rightarrow> Some (s\<lparr>response_ready := response_ready s + 1, vpc := VWait\<rparr>)
      | VEnd \<Rightarrow> None
      | VFault \<Rightarrow> None)"

text \<open>
  The server when it has loaded the library and prepared the memory, whose name array held \<open>junk\<close>; only the first character
  of it is set.  \<open>None\<close> is the exit for a missing argument.
\<close>

definition shm_start :: "'d loader \<Rightarrow> char list list \<Rightarrow> char list \<Rightarrow> 'd \<Rightarrow> 'd shared_data option" where
  "shm_start ld args junk zero =
     (case args of
        [] \<Rightarrow> None
      | filename # _ \<Rightarrow> Some \<lparr>request_ready = 0, response_ready = 0, func_name = overwrite junk 0 [NUL], shm_value = zero,
          shm_result = zero, lib = dlopen ld filename 0, vpc = VWait, turn = True, posted = [], answers = []\<rparr>)"

text \<open>The environment: a name it stores is terminated within the array.\<close>

inductive shm_step :: "'d loader \<Rightarrow> 'd shared_data \<Rightarrow> 'd shared_data \<Rightarrow> bool" for ld where
  server: "shm_server_step ld s = Some s' \<Longrightarrow> shm_step ld s s'"
| writes: "turn s \<Longrightarrow> length name = 20 \<Longrightarrow> NUL \<in> set name \<Longrightarrow>
    shm_step ld s (s\<lparr>func_name := name, shm_value := v, shm_result := r\<rparr>)"
| posts: "turn s \<Longrightarrow>
    shm_step ld s (s\<lparr>request_ready := request_ready s + 1, turn := False,
      posted := posted s @ [(cstr (func_name s), shm_value s)]\<rparr>)"
| takes: "0 < response_ready s \<Longrightarrow>
    shm_step ld s (s\<lparr>response_ready := response_ready s - 1, turn := True, answers := answers s @ [shm_result s]\<rparr>)"

inductive shm_reach :: "'d loader \<Rightarrow> 'd shared_data \<Rightarrow> 'd shared_data \<Rightarrow> bool" for ld s0 where
  start: "shm_reach ld s0 s0"
| step: "shm_reach ld s0 s \<Longrightarrow> shm_step ld s s' \<Longrightarrow> shm_reach ld s0 s'"

subsection \<open>The protocol\<close>

text \<open>The answer to a request: the value of the function that the global scope has under that name.\<close>

definition shm_answer :: "'d loader \<Rightarrow> char list \<times> 'd \<Rightarrow> 'd" where
  "shm_answer ld r = the (dlsym ld None (fst r)) (snd r)"

text \<open>Where the server can be, by whose turn it is; \<open>r\<close> is the last request.\<close>

definition shm_serving :: "'d loader \<Rightarrow> char list \<times> 'd \<Rightarrow> 'd shared_data \<Rightarrow> bool" where
  "shm_serving ld r s \<longleftrightarrow> cstr (func_name s) = fst r \<and> shm_value s = snd r \<and>
     (case vpc s of
        VWait \<Rightarrow> request_ready s = 1 \<and> response_ready s = 0
          \<or> request_ready s = 0 \<and> response_ready s = 1 \<and> shm_result s = shm_answer ld r \<and> fst r \<noteq> [] \<and> dlsym ld None (fst r) \<noteq> None
      | VCheck \<Rightarrow> request_ready s = 0 \<and> response_ready s = 0
      | VFind \<Rightarrow> request_ready s = 0 \<and> response_ready s = 0 \<and> fst r \<noteq> []
      | VCall f \<Rightarrow> request_ready s = 0 \<and> response_ready s = 0 \<and> fst r \<noteq> [] \<and> dlsym ld None (fst r) = Some f
      | VPost \<Rightarrow> request_ready s = 0 \<and> response_ready s = 0 \<and> shm_result s = shm_answer ld r \<and> fst r \<noteq> []
          \<and> dlsym ld None (fst r) \<noteq> None
      | VEnd \<Rightarrow> request_ready s = 0 \<and> response_ready s = 0 \<and> fst r = []
      | VFault \<Rightarrow> request_ready s = 0 \<and> response_ready s = 0 \<and> fst r \<noteq> [] \<and> dlsym ld None (fst r) = None)"

definition shm_inv :: "'d loader \<Rightarrow> 'd shared_data \<Rightarrow> bool" where
  "shm_inv ld s \<longleftrightarrow> lib s = None \<and>
     (if turn s then vpc s = VWait \<and> request_ready s = 0 \<and> response_ready s = 0 \<and> answers s = map (shm_answer ld) (posted s)
      else posted s \<noteq> [] \<and> answers s = map (shm_answer ld) (butlast (posted s)) \<and> shm_serving ld (last (posted s)) s)"

lemma shm_server_inv:
  assumes "shm_inv ld s" "shm_server_step ld s = Some s'"
  shows "shm_inv ld s'"
proof (cases "turn s")
  case True
  then show ?thesis using assms by (simp add: shm_inv_def shm_server_step_def)
next
  case False
  then show ?thesis
    using assms
    by (cases "vpc s")
      (auto simp: shm_inv_def shm_serving_def shm_server_step_def shm_answer_def split: if_splits option.splits)
qed

lemma shm_step_inv:
  assumes "shm_inv ld s" "shm_step ld s s'"
  shows "shm_inv ld s'"
  using assms(2)
proof (cases rule: shm_step.cases)
  case server
  then show ?thesis using shm_server_inv assms(1) by blast
next
  case (writes name v r)
  then show ?thesis using assms(1) by (simp add: shm_inv_def)
next
  case posts
  then show ?thesis using assms(1) by (simp add: shm_inv_def shm_serving_def)
next
  case takes
  note resp = takes(2) and s' = takes(1)
  have inv: "lib s = None" "posted s \<noteq> []" "answers s = map (shm_answer ld) (butlast (posted s))"
    "shm_serving ld (last (posted s)) s"
    using assms(1) resp by (auto simp: shm_inv_def split: if_splits)
  then have "vpc s = VWait \<and> request_ready s = 0 \<and> response_ready s = 1 \<and> shm_result s = shm_answer ld (last (posted s))"
    using resp by (cases "vpc s") (auto simp: shm_serving_def)
  moreover have "map (shm_answer ld) (posted s) = map (shm_answer ld) (butlast (posted s)) @ [shm_answer ld (last (posted s))]"
    using inv(2) by (metis append_butlast_last_id list.simps(8,9) map_append)
  ultimately show ?thesis using inv(1,3) by (simp add: shm_inv_def s')
qed

lemma shm_reach_inv:
  assumes "shm_reach ld s0 s" "modes_checked ld" "shm_start ld args junk zero = Some s0"
  shows "shm_inv ld s"
  using assms(1)
proof (induction rule: shm_reach.induct)
  case start
  then show ?case
    using assms(2,3) by (auto simp: shm_inv_def shm_start_def modes_checked_def split: list.splits)
next
  case (step s s')
  then show ?case using shm_step_inv by blast
qed

text \<open>How far the server is from the response to a request.\<close>

definition shm_rank :: "'d shared_data \<Rightarrow> nat" where
  "shm_rank s = 6 * request_ready s
     + (case vpc s of VWait \<Rightarrow> 0 | VCheck \<Rightarrow> 5 | VFind \<Rightarrow> 4 | VCall f \<Rightarrow> 3 | VPost \<Rightarrow> 2 | VEnd \<Rightarrow> 0 | VFault \<Rightarrow> 0)"

lemma shm_server_rank: "shm_server_step ld s = Some s' \<Longrightarrow> shm_rank s' < shm_rank s"
  by (cases "vpc s") (auto simp: shm_server_step_def shm_rank_def split: if_splits option.splits)

text \<open>
  C23: Let the loader refuse the mode 0, as it is documented to do.  Then for every file name, every environment that keeps to its
  turns, and every interleaving, with whatever names and values it asks for: the answers it has taken are, in order, those of the
  requests it has posted, all of them but the last one while that is being served, each computed by the function of that name
  in the global scope of the process, whatever the library contains.  While a request is served and its response is not posted,
  the server can move, and each of its steps reduces a rank, until the response is posted; or the server has ended, and
  the name of the request was empty; or it has called a null pointer, and the global scope has no function of that name.
\<close>

theorem shm_server_answers:
  assumes "shm_reach ld s0 s" "modes_checked ld" "shm_start ld args junk zero = Some s0"
  shows "answers s = map (shm_answer ld) (if turn s then posted s else butlast (posted s))
    \<and> (\<not> turn s \<longrightarrow> posted s \<noteq> [])
    \<and> (\<not> turn s \<longrightarrow> response_ready s = 0 \<longrightarrow> shm_server_step ld s = None \<longrightarrow> vpc s = VEnd \<or> vpc s = VFault)
    \<and> (\<forall>s'. shm_server_step ld s = Some s' \<longrightarrow> shm_rank s' < shm_rank s)
    \<and> (0 < response_ready s \<longrightarrow> \<not> turn s \<and> shm_result s = shm_answer ld (last (posted s)))
    \<and> (vpc s = VEnd \<longrightarrow> fst (last (posted s)) = [])
    \<and> (vpc s = VFault \<longrightarrow> fst (last (posted s)) \<noteq> [] \<and> dlsym ld None (fst (last (posted s))) = None)"
proof -
  have inv: "shm_inv ld s" using shm_reach_inv[OF assms] .
  show ?thesis
  proof (cases "turn s")
    case True
    with inv show ?thesis using shm_server_rank[of ld s] by (simp add: shm_inv_def)
  next
    case False
    with inv have i: "posted s \<noteq> []" "answers s = map (shm_answer ld) (butlast (posted s))" "shm_serving ld (last (posted s)) s"
      by (auto simp: shm_inv_def)
    have "response_ready s = 0 \<longrightarrow> shm_server_step ld s = None \<longrightarrow> vpc s = VEnd \<or> vpc s = VFault"
      "0 < response_ready s \<longrightarrow> shm_result s = shm_answer ld (last (posted s))"
      "vpc s = VEnd \<longrightarrow> fst (last (posted s)) = []"
      "vpc s = VFault \<longrightarrow> fst (last (posted s)) \<noteq> [] \<and> dlsym ld None (fst (last (posted s))) = None"
      using i(3) by (cases "vpc s"; auto simp: shm_serving_def shm_server_step_def split: option.splits)+
    with False i(1,2) show ?thesis using shm_server_rank[of ld s] by auto
  qed
qed

text \<open>A library with a function \<open>twice\<close>, in a process that has a function \<open>neg\<close>: the environment asks for both.\<close>

definition small_loader :: "int loader" where
  "small_loader = \<lparr>dlopen = (\<lambda>filename mode. if mode mod 4 = 0 then None else Some 7),
     dlsym = (\<lambda>handle name. if handle = None \<and> name = ''neg'' then Some (\<lambda>x. - x)
                else if handle = Some 7 \<and> name = ''twice'' then Some (\<lambda>x. 2 * x) else None)\<rparr>"

theorem shm_server_witness:
  "\<exists>s :: int shared_data. answers s = [- 5] \<and> posted s = [(''neg'', 5), (''twice'', 5)] \<and> vpc s = VFault
    \<and> answers s = map (shm_answer small_loader) (butlast (posted s))"
proof -
  let ?d = small_loader
  let ?st = "\<lambda>rq rp n v r pc t po an. \<lparr>request_ready = rq, response_ready = rp, func_name = n, shm_value = v, shm_result = r,
      lib = None, vpc = pc, turn = t, posted = po, answers = an\<rparr>"
  let ?n0 = "overwrite (replicate 20 CHR ''x'') 0 [NUL]" and ?n1 = "''neg'' @ replicate 17 NUL" and ?n2 = "''twice'' @ replicate 15 NUL"
  let ?q1 = "[(''neg'', 5)]" and ?q2 = "[(''neg'', 5), (''twice'', 5)]"
  have c: "cstr ?n1 = ''neg''" "cstr ?n2 = ''twice''" by code_simp+
  have d: "dlsym ?d None ''neg'' = Some uminus" "dlsym ?d None ''twice'' = None"
    by (simp_all add: small_loader_def fun_eq_iff)
  let ?s0 = "?st 0 0 ?n0 0 0 VWait True [] []"
  have start: "shm_start ?d [''lib.so''] (replicate 20 CHR ''x'') 0 = Some ?s0" by (simp add: shm_start_def small_loader_def)
  let ?S = "shm_step ?d"
  have s1: "?S (?s0) (?st 0 0 ?n1 5 0 VWait True [] [])"
    using shm_step.writes[of "?s0" "?n1" ?d 0 5] by simp
  have s2: "?S (?st 0 0 ?n1 5 0 VWait True [] []) (?st 1 0 ?n1 5 0 VWait False ?q1 [])"
    using shm_step.posts[of "?st 0 0 ?n1 5 0 VWait True [] []" ?d] by (simp only: shared_data.simps c) simp
  have s3: "?S (?st 1 0 ?n1 5 0 VWait False ?q1 []) (?st 0 0 ?n1 5 0 VCheck False ?q1 [])"
    by (rule shm_step.server) (simp add: shm_server_step_def c d del: append.simps)
  have s4: "?S (?st 0 0 ?n1 5 0 VCheck False ?q1 []) (?st 0 0 ?n1 5 0 VFind False ?q1 [])"
    by (rule shm_step.server) (simp add: shm_server_step_def c d del: append.simps)
  have s5: "?S (?st 0 0 ?n1 5 0 VFind False ?q1 []) (?st 0 0 ?n1 5 0 (VCall uminus) False ?q1 [])"
    by (rule shm_step.server) (simp add: shm_server_step_def c d del: append.simps)
  have s6: "?S (?st 0 0 ?n1 5 0 (VCall uminus) False ?q1 []) (?st 0 0 ?n1 5 (- 5) VPost False ?q1 [])"
    by (rule shm_step.server) (simp add: shm_server_step_def c d del: append.simps)
  have s7: "?S (?st 0 0 ?n1 5 (- 5) VPost False ?q1 []) (?st 0 1 ?n1 5 (- 5) VWait False ?q1 [])"
    by (rule shm_step.server) (simp add: shm_server_step_def c d del: append.simps)
  have s8: "?S (?st 0 1 ?n1 5 (- 5) VWait False ?q1 []) (?st 0 0 ?n1 5 (- 5) VWait True ?q1 [- 5])"
    using shm_step.takes[of "?st 0 1 ?n1 5 (- 5) VWait False ?q1 []" ?d] by simp
  have s9: "?S (?st 0 0 ?n1 5 (- 5) VWait True ?q1 [- 5]) (?st 0 0 ?n2 5 0 VWait True ?q1 [- 5])"
    using shm_step.writes[of "?st 0 0 ?n1 5 (- 5) VWait True ?q1 [- 5]" "?n2" ?d 0 5] by simp
  have s10: "?S (?st 0 0 ?n2 5 0 VWait True ?q1 [- 5]) (?st 1 0 ?n2 5 0 VWait False ?q2 [- 5])"
    using shm_step.posts[of "?st 0 0 ?n2 5 0 VWait True ?q1 [- 5]" ?d] by (simp only: shared_data.simps c) simp
  have s11: "?S (?st 1 0 ?n2 5 0 VWait False ?q2 [- 5]) (?st 0 0 ?n2 5 0 VCheck False ?q2 [- 5])"
    by (rule shm_step.server) (simp add: shm_server_step_def c d del: append.simps)
  have s12: "?S (?st 0 0 ?n2 5 0 VCheck False ?q2 [- 5]) (?st 0 0 ?n2 5 0 VFind False ?q2 [- 5])"
    by (rule shm_step.server) (simp add: shm_server_step_def c d del: append.simps)
  have s13: "?S (?st 0 0 ?n2 5 0 VFind False ?q2 [- 5]) (?st 0 0 ?n2 5 0 VFault False ?q2 [- 5])"
    by (rule shm_step.server) (simp add: shm_server_step_def c d del: append.simps)
  have "shm_reach ?d ?s0 (?st 0 0 ?n2 5 0 VFault False ?q2 [- 5])"
    by (rule shm_reach.start[THEN shm_reach.step[OF _ s1], THEN shm_reach.step[OF _ s2],
        THEN shm_reach.step[OF _ s3], THEN shm_reach.step[OF _ s4], THEN shm_reach.step[OF _ s5],
        THEN shm_reach.step[OF _ s6], THEN shm_reach.step[OF _ s7], THEN shm_reach.step[OF _ s8],
        THEN shm_reach.step[OF _ s9], THEN shm_reach.step[OF _ s10], THEN shm_reach.step[OF _ s11],
        THEN shm_reach.step[OF _ s12], THEN shm_reach.step[OF _ s13]])
  moreover have "modes_checked ?d" by (simp add: modes_checked_def small_loader_def)
  ultimately have "answers (?st 0 0 ?n2 5 0 VFault False ?q2 [- 5]) = map (shm_answer ?d) (butlast ?q2)"
    using shm_server_answers[OF _ _ start] by fastforce
  then show ?thesis by - (rule exI[of _ "?st 0 0 ?n2 (5 :: int) 0 VFault False ?q2 [- 5]"], simp)
qed

text \<open>A name that only the library has: the server calls a null pointer.\<close>

lemma shm_server_faults:
  assumes "vpc s = VFind" "lib s = None" "dlsym ld None (cstr (func_name s)) = None"
  shows "\<exists>s'. shm_server_step ld s = Some s' \<and> vpc s' = VFault"
  using assms by (simp add: shm_server_step_def)

subsection \<open>print-array-from-shm\<close>

text \<open>A \<^verbatim>\<open>char\<close> as \<^verbatim>\<open>printf\<close> gets it: its value as a signed byte.\<close>

definition char_value :: "8 word \<Rightarrow> int" where
  "char_value b = sint b"

text \<open>The loop: the pointer is a \<^verbatim>\<open>char\<close> pointer that moves by the size of an \<^verbatim>\<open>int\<close>.  \<open>None\<close> is an access behind the mapped memory.\<close>

fun print_array :: "8 word list \<Rightarrow> nat \<Rightarrow> nat \<Rightarrow> char list option" where
  "print_array shm ptr 0 = Some []"
| "print_array shm ptr (Suc n) =
     (if ptr < length shm
      then map_option (\<lambda>out. decimal (char_value (shm ! ptr)) @ [CHR 0x0A] @ out) (print_array shm (ptr + 4) n)
      else None)"

text \<open>
  The program: two words and a number from the input, then the array, of which the memory object with the second name
  has the bytes.  \<open>None\<close> is an input that does not have the three, or a name that does not fit.
\<close>

definition print_shm_main :: "(char list \<Rightarrow> 8 word list) \<Rightarrow> char list \<Rightarrow> char list option" where
  "print_shm_main shm_open inp =
     (case scan_string inp of
        None \<Rightarrow> None
      | Some (sem_name, r1) \<Rightarrow>
          (case scan_string r1 of
             None \<Rightarrow> None
           | Some (mem_block, r2) \<Rightarrow>
               (case scan_int r2 of
                  (None, _) \<Rightarrow> None
                | (Some n, _) \<Rightarrow>
                    if length sem_name < 1000 \<and> length mem_block < 1000
                    then print_array (shm_open (cstr mem_block)) 0 (nat n) else None)))"

text \<open>The bytes of an array of \<^verbatim>\<open>int\<close>, lowest byte first.\<close>

definition int_bytes :: "int \<Rightarrow> 8 word list" where
  "int_bytes v = map (\<lambda>k. word_of_int (v div 256 ^ k)) [0, 1, 2, 3]"

text \<open>
  What is printed is the lowest byte of each number, as a signed number; it is the number itself only between -128 and
  127.
\<close>

lemma char_value_word: "char_value (word_of_int v) = (v + 128) mod 256 - 128"
  by (simp add: char_value_def signed_of_int signed_take_bit_eq_take_bit_shift take_bit_eq_mod)

lemma print_array_low_bytes:
  "print_array (b @ concat (map int_bytes vs)) (length b) (length vs)
    = Some (concat (map (\<lambda>v. decimal ((v + 128) mod 256 - 128) @ [CHR 0x0A]) vs))"
proof (induction vs arbitrary: b)
  case (Cons v vs)
  obtain c where c: "int_bytes v = word_of_int v # c" "length b + 4 = length (b @ int_bytes v)" by (simp add: int_bytes_def)
  have "print_array (b @ int_bytes v @ concat (map int_bytes vs)) (length b + 4) (length vs)
      = Some (concat (map (\<lambda>v. decimal ((v + 128) mod 256 - 128) @ [CHR 0x0A]) vs))"
    unfolding c(2) using Cons[of "b @ int_bytes v"] by simp
  then show ?case by (simp add: c(1) nth_append char_value_word)
qed simp

text \<open>With the three inputs in place the program prints these low bytes.\<close>

lemma print_shm_main_prints:
  assumes "is_word s" "is_word m" "length s < 1000" "length m < 1000" "length vs < 2 ^ 31"
    and "shm_open m = concat (map int_bytes vs)"
  shows "print_shm_main shm_open (s @ CHR '' '' # m @ CHR '' '' # decimal (int (length vs)) @ [CHR 0x0A])
    = Some (concat (map (\<lambda>v. decimal ((v + 128) mod 256 - 128) @ [CHR 0x0A]) vs))"
proof -
  have "cstr m = m" using assms(2) by (auto simp: is_word_def)
  moreover have "scan_int (dec_digits (length vs) @ [CHR 0x0A]) = (Some (int (length vs)), [CHR 0x0A])"
    using scan_int_digits[OF dec_digits_nonempty dec_digits_are_digits newline_char(1)] dec_val_digits by simp
  moreover have "print_array (shm_open m) 0 (length vs)
      = Some (concat (map (\<lambda>v. decimal ((v + 128) mod 256 - 128) @ [CHR 0x0A]) vs))"
    using print_array_low_bytes[of "[]" vs] assms(6) by simp
  ultimately show ?thesis
    using assms(3,4) scan_word_ws[OF assms(1) newline_char(3)] scan_word_ws[OF assms(2) newline_char(3)]
    by (simp add: print_shm_main_def scan_string_ws scan_int_ws newline_char(3) decimal_def)
qed

end
