(* ===== verification/TcpClient.thy ===== *)
theory TcpClient
  imports ShmPrograms
begin

section \<open>tcp-client: numbers to a server and back\<close>

text \<open>
  \<^verbatim>\<open>inf16-0_posix_sockets_tcp-client/main.c\<close>.  Every number of the input is sent as four bytes and four bytes are read back.  A
  call that transfers less than four bytes counts as a success: the model keeps the counts of the calls, and the variable that is read
  into keeps the bytes that were not overwritten.
\<close>

subsection \<open>The program\<close>

text \<open>The loop; \<open>receive_value\<close> is the variable as four bytes.  The result is the output and what was sent.\<close>

function exchange_loop :: "char list \<Rightarrow> u8 list \<Rightarrow> u8 sink \<Rightarrow> u8 source \<Rightarrow> char list \<times> u8 sink" where
  "exchange_loop inp receive_value out src =
     (case scan_int inp of
        (None, _) \<Rightarrow> ([], out)
      | (Some v, inp') \<Rightarrow>
          (case sys_write out (int_bytes v) of (n, out) \<Rightarrow>
             if n \<le> 0 then ([], out)
             else (case sys_read src 4 of (k, bs, src) \<Rightarrow>
               if k \<le> 0 then ([], out)
               else let receive_value = overwrite receive_value 0 bs in
                 (case exchange_loop inp' receive_value out src of (text, out) \<Rightarrow>
                    (decimal (to_i32 (int (le_bytes receive_value))) @ [CHR 0x0A] @ text, out)))))"
  by pat_completeness auto
termination by (relation "measure (\<lambda>(inp, rv, out, src). length inp)") (auto dest: scan_int_shorter[OF sym])

declare exchange_loop.simps [simp del]

text \<open>The exit status and the output; \<open>None\<close> for a connection that cannot be made.\<close>

definition tcp_main :: "nat \<Rightarrow> (u8 sink \<times> u8 source) option \<Rightarrow> char list \<Rightarrow> int \<times> char list" where
  "tcp_main argc conn inp =
     (if argc < 3 then (1, [])
      else case conn of
        None \<Rightarrow> (1, [])
      | Some (out, src) \<Rightarrow> (0, fst (exchange_loop inp (replicate 4 0) out src)))"

subsection \<open>Four bytes make a number\<close>

lemma unat_word_mod: "int (unat (word_of_int x :: u8)) = x mod 256"
  by (simp add: uint_word_of_int)

lemma horner: "256 * (256 * (256 * d + c) + b) + a = a + 256 * (b + 256 * (c + 256 * (d + 256 * 0)))" for a b c d :: int
  by simp

lemma le_bytes_int: "int (le_bytes (int_bytes v)) = v mod 2 ^ 32"
proof -
  have "v mod 2 ^ 32 = v mod (256 * (256 * (256 * 256)))" by simp
  also have "\<dots> = 256 * (v div 256 mod (256 * (256 * 256))) + v mod 256" by (rule zmod_zmult2_eq) simp
  also have "v div 256 mod (256 * (256 * 256)) = 256 * (v div 256 div 256 mod (256 * 256)) + v div 256 mod 256"
    by (rule zmod_zmult2_eq) simp
  also have "v div 256 div 256 mod (256 * 256) = 256 * (v div 256 div 256 div 256 mod 256) + v div 256 div 256 mod 256"
    by (rule zmod_zmult2_eq) simp
  finally have "v mod 2 ^ 32 = 256 * (256 * (256 * (v div 256 div 256 div 256 mod 256) + v div 256 div 256 mod 256)
      + v div 256 mod 256) + v mod 256" .
  moreover have "v div 65536 = v div 256 div 256" "v div 16777216 = v div 256 div 256 div 256"
    using zdiv_zmult2_eq[of 256 v 256] zdiv_zmult2_eq[of 256 v 65536] zdiv_zmult2_eq[of 256 "v div 256" 256] by simp_all
  moreover have "int_bytes v = [word_of_int v, word_of_int (v div 256), word_of_int (v div 65536), word_of_int (v div 16777216)]"
    by (simp add: int_bytes_def)
  then have "int (le_bytes (int_bytes v)) = v mod 256 + 256 * (v div 256 mod 256
      + 256 * (v div 65536 mod 256 + 256 * (v div 16777216 mod 256 + 256 * 0)))"
    by (simp only: le_bytes.simps of_nat_add of_nat_mult of_nat_numeral int_ops(1) unat_word_mod)
  ultimately show ?thesis by (simp only: horner)
qed

lemma int_bytes_back: "to_i32 (int (le_bytes (int_bytes v))) = to_i32 v"
  by (simp add: le_bytes_int to_i32_def mod_add_left_eq)

lemma length_int_bytes [simp]: "length (int_bytes v) = 4"
  by (simp add: int_bytes_def)

subsection \<open>Whole transfers\<close>

text \<open>No call fails and no call transfers less than four bytes.\<close>

definition whole_calls :: "int list \<Rightarrow> bool" where
  "whole_calls ks \<longleftrightarrow> list_all (\<lambda>k. 4 \<le> k) ks"

lemma min_whole: "4 \<le> a \<Longrightarrow> min (nat a) 4 = 4"
  by simp

lemma whole_write:
  assumes "whole_calls (wsched out)" "length b = 4"
  obtains out' where "sys_write out b = (4, out')" "sunk out' = sunk out @ b" "whole_calls (wsched out')"
  using assms by (cases "wsched out") (auto simp: sys_write_def whole_calls_def Let_def min_whole)

lemma whole_read:
  assumes "whole_calls (rsched src)" "rest src = b @ r" "length b = 4"
  obtains src' where "sys_read src 4 = (4, b, src')" "rest src' = r" "whole_calls (rsched src')"
  using assms by (cases "rsched src") (auto simp: sys_read_def whole_calls_def Let_def min_whole)

text \<open>
  Against a server that answers every number, when no call transfers a part of a number, the numbers of the input are sent in
  order and the answers are printed, one on a line.
\<close>

lemma exchange_loop_whole:
  assumes "all_ints inp = Some vs" "length rv = 4" "whole_calls (wsched out)" "whole_calls (rsched src)"
    and "rest src = concat (map (\<lambda>v. int_bytes (reply v)) vs)" "\<forall>v\<in>set vs. is_i32 (reply v)"
  shows "\<exists>out'. exchange_loop inp rv out src = (concat (map (\<lambda>v. decimal (reply v) @ [CHR 0x0A]) vs), out')
    \<and> sunk out' = sunk out @ concat (map int_bytes vs)"
  using assms
proof (induction vs arbitrary: inp rv out src)
  case Nil
  then obtain r where "scan_int inp = (None, r)"
    by (cases "scan_int inp"; cases "fst (scan_int inp)") (auto elim: all_ints_next)
  then show ?case by (simp add: exchange_loop.simps[of inp])
next
  case (Cons v vs)
  obtain r where s: "scan_int inp = (Some v, r)" "all_ints r = Some vs"
  proof (cases "scan_int inp")
    case (Pair x r)
    then show ?thesis using that Cons.prems(1) all_ints_end[OF Cons.prems(1)]
      by (cases x) (auto elim: all_ints_next[OF Cons.prems(1)])
  qed
  obtain out1 where w: "sys_write out (int_bytes v) = (4, out1)" "sunk out1 = sunk out @ int_bytes v" "whole_calls (wsched out1)"
    using whole_write[OF Cons.prems(3), of "int_bytes v"] by auto
  obtain src1 where k: "sys_read src 4 = (4, int_bytes (reply v), src1)"
    "rest src1 = concat (map (\<lambda>v. int_bytes (reply v)) vs)" "whole_calls (rsched src1)"
    using whole_read[OF Cons.prems(4), of "int_bytes (reply v)"] Cons.prems(5) by auto
  have rv: "overwrite rv 0 (int_bytes (reply v)) = int_bytes (reply v)" using Cons.prems(2) by (simp add: overwrite_def)
  obtain out2 where "exchange_loop r (int_bytes (reply v)) out1 src1 = (concat (map (\<lambda>v. decimal (reply v) @ [CHR 0x0A]) vs), out2)"
    "sunk out2 = sunk out1 @ concat (map int_bytes vs)"
    using Cons.IH[OF s(2) length_int_bytes w(3) k(3) k(2)] Cons.prems(6) by auto
  then show ?case using s(1) w k(1) rv Cons.prems(6)
    by (auto simp: exchange_loop.simps[of inp] int_bytes_back)
qed

lemma tcp_main_prints:
  assumes "3 \<le> argc" "all_ints inp = Some vs" "whole_calls (wsched out)" "whole_calls (rsched src)"
    and "rest src = concat (map (\<lambda>v. int_bytes (reply v)) vs)" "\<forall>v\<in>set vs. is_i32 (reply v)"
  shows "tcp_main argc (Some (out, src)) inp = (0, concat (map (\<lambda>v. decimal (reply v) @ [CHR 0x0A]) vs))"
  using exchange_loop_whole[OF assms(2) _ assms(3-6), of "replicate 4 0"] assms(1) by (auto simp: tcp_main_def)

text \<open>A read that delivers two bytes is taken for an answer: 5 is printed for 65541.\<close>

lemma short_read_is_printed:
  "tcp_main 3 (Some (\<lparr>sunk = [], wsched = []\<rparr>, \<lparr>rest = int_bytes 65541, rsched = [2]\<rparr>)) ''1'' = (0, ''5'' @ [CHR 0x0A])"
  by code_simp

end
