(* ===== verification/FileLists.thy ===== *)
theory FileLists
  imports FindExecutables ScanInput
begin

section \<open>Programs that read a list of file names\<close>

text \<open>
  \<^verbatim>\<open>inf09-1-posix_filesystem_file-list-summ-size/main.c\<close> adds the sizes of the files whose names it reads, and
  \<^verbatim>\<open>inf09-3-posix_filesystem_manage-symlinks/main.c\<close> prints where symbolic links lead and makes links to regular files.
  What \<^verbatim>\<open>lstat\<close> says is a parameter of the first program; the second one changes the file system, which is a map from
  names to what they are, and \<^verbatim>\<open>realpath\<close> is its parameter.
\<close>

subsection \<open>The sum of the sizes\<close>

definition max_filename :: nat where "max_filename = 6000"

record file_info =
  is_regular :: bool
  file_size :: nat

text \<open>
  The loop.  A line that begins with a NUL makes the program read in front of the array: \<open>None\<close>.  Sizes are numbers; a sum of
  \<open>2 ^ 63\<close> bytes is not reached.
\<close>

function sum_sizes :: "(char list \<Rightarrow> file_info option) \<Rightarrow> char list \<Rightarrow> nat \<Rightarrow> nat option" where
  "sum_sizes lstat [] sum_files_size = Some sum_files_size"
| "sum_sizes lstat (c # cs) sum_files_size =
     (case fgets max_filename (c # cs) of (ln, s) \<Rightarrow>
        let filename = cstr ln in
        if filename = [] then None
        else let filename = (if last filename = CHR 0x0A then butlast filename else filename) in
          (case lstat filename of
             None \<Rightarrow> sum_sizes lstat s sum_files_size
           | Some buff \<Rightarrow> sum_sizes lstat s (if is_regular buff then sum_files_size + file_size buff else sum_files_size)))"
  by pat_completeness auto
termination
  by (relation "measure (\<lambda>(lstat, s, k). length s)") (auto simp: fgets_def Let_def max_filename_def)

declare sum_sizes.simps(2) [simp del]

definition sum_main :: "(char list \<Rightarrow> file_info option) \<Rightarrow> char list \<Rightarrow> char list option" where
  "sum_main lstat inp = map_option (\<lambda>k. decimal (int k)) (sum_sizes lstat inp 0)"

definition line_ok :: "char list \<Rightarrow> bool" where
  "line_ok f \<longleftrightarrow> CHR 0x0A \<notin> set f \<and> NUL \<notin> set f \<and> length f < max_filename - 1"

definition counted_size :: "(char list \<Rightarrow> file_info option) \<Rightarrow> char list \<Rightarrow> nat" where
  "counted_size lstat f = (case lstat f of None \<Rightarrow> 0 | Some b \<Rightarrow> if is_regular b then file_size b else 0)"

lemma sum_sizes_line:
  assumes "line_ok f"
  shows "sum_sizes lstat (f @ CHR 0x0A # s) k = sum_sizes lstat s (k + counted_size lstat f)"
proof -
  obtain c cs where c: "f @ CHR 0x0A # s = c # cs" by (cases f) auto
  have g: "fgets max_filename (c # cs) = (f @ [CHR 0x0A], s)"
    using fgets_line[of f max_filename s] assms c by (simp add: line_ok_def)
  have n: "cstr (f @ [CHR 0x0A]) = f @ [CHR 0x0A]"
    by (rule cstr_no_NUL) (use assms in \<open>simp add: line_ok_def NUL_def\<close>)
  show ?thesis
    unfolding c by (subst sum_sizes.simps(2)) (use g n in \<open>simp add: counted_size_def split: option.splits\<close>)
qed

lemma sum_sizes_lines:
  assumes "\<forall>f\<in>set files. line_ok f"
  shows "sum_sizes lstat (concat (map (\<lambda>f. f @ [CHR 0x0A]) files)) k = Some (k + (\<Sum>f\<leftarrow>files. counted_size lstat f))"
  using assms by (induction files arbitrary: k) (simp_all add: sum_sizes_line add.assoc)

text \<open>For lines that fit the array the sum of the sizes of the regular files is printed; names that do not exist count for nothing.\<close>

lemma sum_main_adds_sizes:
  assumes "\<forall>f\<in>set files. line_ok f"
  shows "sum_main lstat (concat (map (\<lambda>f. f @ [CHR 0x0A]) files)) = Some (decimal (int (\<Sum>f\<leftarrow>files. counted_size lstat f)))"
  using sum_sizes_lines[OF assms, of lstat 0] by (simp add: sum_main_def)

text \<open>The end of the input need not be an end of line.\<close>

lemma sum_sizes_last:
  assumes "line_ok f" "f \<noteq> []"
  shows "sum_sizes lstat f k = Some (k + counted_size lstat f)"
proof -
  obtain c cs where c: "f = c # cs" using assms(2) by (cases f) auto
  have "takeWhile (\<lambda>d. d \<noteq> CHR 0x0A) f = f" using assms(1) by (auto simp: line_ok_def)
  then have g: "fgets max_filename (c # cs) = (f, [])" using assms(1) c by (simp add: fgets_def Let_def line_ok_def)
  have "last f \<in> set f" using assms(2) by simp
  then have n: "cstr f = f" "last f \<noteq> CHR 0x0A" using assms(1) unfolding line_ok_def by (simp, metis)
  show ?thesis
    using g n assms(2) unfolding c by (subst sum_sizes.simps(2)) (simp add: counted_size_def split: option.splits)
qed

subsection \<open>Symbolic links\<close>

datatype node = Regular | Link "char list" | Other

type_synonym names = "char list \<Rightarrow> node option"

definition max_name_len :: nat where "max_name_len = 1000"

text \<open>\<^verbatim>\<open>symlink\<close> fails when the new name exists; the result is not looked at.\<close>

definition symlink :: "char list \<Rightarrow> char list \<Rightarrow> names \<Rightarrow> names" where
  "symlink target new fs = (if fs new = None then fs(new \<mapsto> Link target) else fs)"

text \<open>
  The loop: what is printed and the file system.  \<open>None\<close> is a word or a path that does not fit its array, or the output of the
  array when \<^verbatim>\<open>realpath\<close> fails, which leaves it undefined.
\<close>

function manage_links :: "(names \<Rightarrow> char list \<Rightarrow> char list option) \<Rightarrow> char list \<Rightarrow> names \<Rightarrow> (char list \<times> names) option" where
  "manage_links realpath inp fs =
     (case scan_string inp of
        None \<Rightarrow> Some ([], fs)
      | Some (w, inp') \<Rightarrow>
          if length w + 1 \<le> max_name_len then
            let filename = cstr w in
            (case fs filename of
               None \<Rightarrow> manage_links realpath inp' fs
             | Some (Link _) \<Rightarrow>
                 (case realpath fs filename of
                    None \<Rightarrow> None
                  | Some p \<Rightarrow>
                      if length p + 1 \<le> max_name_len
                      then map_option (\<lambda>(out, fs). (p @ [CHR 0x0A] @ out, fs)) (manage_links realpath inp' fs)
                      else None)
             | Some Regular \<Rightarrow>
                 let name_with_prefix = ''link_to_'' @ filename in
                 if length name_with_prefix + 1 \<le> max_name_len
                 then manage_links realpath inp' (symlink filename name_with_prefix fs)
                 else None
             | Some Other \<Rightarrow> manage_links realpath inp' fs)
          else None)"
  by pat_completeness auto
termination
  by (relation "measure (\<lambda>(r, inp, fs). length inp)") (auto dest: scan_string_shorter)

declare manage_links.simps [simp del]

text \<open>The words of the input.\<close>

function input_words :: "char list \<Rightarrow> char list list" where
  "input_words inp = (case scan_string inp of None \<Rightarrow> [] | Some (w, r) \<Rightarrow> cstr w # input_words r)"
  by pat_completeness auto
termination by (relation "measure length") (auto dest: scan_string_shorter)

declare input_words.simps [simp del]

text \<open>
  When the program ends without an overrun, nothing that existed has changed, every regular file that was named has a name with
  the prefix, and everything that is new is a link to a file that was named.
\<close>

lemma symlink_keeps: "fs n = Some x \<Longrightarrow> symlink t new fs n = Some x"
  by (auto simp: symlink_def)

lemma manage_links_effect:
  assumes "manage_links realpath inp fs = Some (out, fs')"
  shows "(\<forall>n x. fs n = Some x \<longrightarrow> fs' n = Some x)
    \<and> (\<forall>w\<in>set (input_words inp). fs w = Some Regular \<longrightarrow> fs' (''link_to_'' @ w) \<noteq> None)
    \<and> (\<forall>n. fs n = None \<and> fs' n \<noteq> None \<longrightarrow> (\<exists>w\<in>set (input_words inp). n = ''link_to_'' @ w \<and> fs' n = Some (Link w)))"
    (is "?kept fs inp fs' \<and> ?named fs inp fs' \<and> ?new fs inp fs'")
  using assms
proof (induction realpath inp fs arbitrary: out fs' rule: manage_links.induct)
  case (1 realpath inp fs)
  show ?case
  proof (cases "scan_string inp")
    case None
    then have "fs' = fs" using "1.prems" by (simp add: manage_links.simps[of realpath inp])
    then show ?thesis using None by (auto simp: input_words.simps[of inp])
  next
    case (Some p)
    then obtain w r where s: "scan_string inp = Some (w, r)" by (cases p) auto
    have words: "input_words inp = cstr w # input_words r" using s by (simp add: input_words.simps[of inp])
    have fits: "length w + 1 \<le> max_name_len"
      using "1.prems" s by (simp add: manage_links.simps[of realpath inp] split: if_splits)
    show ?thesis
    proof (cases "fs (cstr w) = Some Regular")
      case True
      let ?fs = "symlink (cstr w) (''link_to_'' @ cstr w) fs"
      have run: "length (''link_to_'' @ cstr w) + 1 \<le> max_name_len" "manage_links realpath r ?fs = Some (out, fs')"
        using "1.prems" s fits True
        by (simp_all add: manage_links.simps[of realpath inp] Let_def del: length_append split: if_splits)
      have IH: "?kept ?fs r fs'" "?named ?fs r fs'" "?new ?fs r fs'"
        using "1.IH"(2)[OF s refl fits refl True refl] run by auto
      have k: "?kept fs inp fs'" using IH(1) symlink_keeps by metis
      moreover have "?fs (''link_to_'' @ cstr w) \<noteq> None" by (simp add: symlink_def)
      then have l: "fs' (''link_to_'' @ cstr w) \<noteq> None" using IH(1) by fastforce
      have "?named fs inp fs'"
      proof (intro ballI impI)
        fix v assume "v \<in> set (input_words inp)" "fs v = Some Regular"
        then show "fs' (''link_to_'' @ v) \<noteq> None" using IH(2) l symlink_keeps words by (cases "v = cstr w") auto
      qed
      moreover have "?new fs inp fs'"
      proof (intro allI impI)
        fix n assume n: "fs n = None \<and> fs' n \<noteq> None"
        show "\<exists>v\<in>set (input_words inp). n = ''link_to_'' @ v \<and> fs' n = Some (Link v)"
        proof (cases "?fs n = None")
          case True
          then show ?thesis using IH(3) n words by auto
        next
          case False
          then have "n = ''link_to_'' @ cstr w" "?fs n = Some (Link (cstr w))"
            using n by (auto simp: symlink_def split: if_splits)
          then show ?thesis using IH(1) words by auto
        qed
      qed
      ultimately show ?thesis by blast
    next
      case False
      have "\<exists>out1. manage_links realpath r fs = Some (out1, fs')"
        using "1.prems" s fits False
        by (subst (asm) manage_links.simps) (auto simp: Let_def split: option.splits node.splits if_splits)
      then obtain out1 where run: "manage_links realpath r fs = Some (out1, fs')" by blast
      have IH: "?kept fs r fs'" "?named fs r fs'" "?new fs r fs'"
      proof -
        have "fs (cstr w) = None \<or> fs (cstr w) = Some Other \<or> (\<exists>t p. fs (cstr w) = Some (Link t)
            \<and> realpath fs (cstr w) = Some p \<and> length p + 1 \<le> max_name_len)"
          using "1.prems" s fits False
          by (subst (asm) manage_links.simps) (auto simp: Let_def split: option.splits node.splits if_splits)
        then have "?kept fs r fs' \<and> ?named fs r fs' \<and> ?new fs r fs'"
        proof (elim disjE exE conjE)
          assume "fs (cstr w) = None"
          then show ?thesis using "1.IH"(1)[OF s refl fits refl] run by blast
        next
          assume "fs (cstr w) = Some Other"
          then show ?thesis using "1.IH"(4)[OF s refl fits refl] run by blast
        next
          fix t p assume "fs (cstr w) = Some (Link t)" "realpath fs (cstr w) = Some p" "length p + 1 \<le> max_name_len"
          then show ?thesis using "1.IH"(3)[OF s refl fits refl] run by blast
        qed
        then show "?kept fs r fs'" "?named fs r fs'" "?new fs r fs'" by blast+
      qed
      then show ?thesis using words False by auto
    qed
  qed
qed

text \<open>A link that leads nowhere: the array is printed although \<^verbatim>\<open>realpath\<close> has failed.\<close>

lemma dangling_link_undefined:
  assumes "fs ''a'' = Some (Link t)" "realpath fs ''a'' = None"
  shows "manage_links realpath ''a'' fs = None"
proof -
  have "is_word ''a''" by (simp add: is_word_def is_ws_def NUL_def)
  then show ?thesis using assms by (simp add: manage_links.simps scan_word_end max_name_len_def NUL_def)
qed

end
