(* ===== verification/ExecGcc.thy ===== *)
theory ExecGcc
  imports PosixIO
begin

section \<open>exec-gcc: compiling and running an expression\<close>

text \<open>
  \<^verbatim>\<open>inf12-1_posix_exec_exec-gcc/main.c\<close>.  An expression from the input becomes a C program, which a child process compiles with
  \<^verbatim>\<open>gcc\<close> and which the parent then becomes.  The compiler is a parameter: the wait status with which it ends for a
  source text.
\<close>

definition buffer_size :: nat where "buffer_size = 1000000"

text \<open>\<^verbatim>\<open>WEXITSTATUS\<close>: the second byte of the wait status.\<close>

definition WEXITSTATUS :: "int \<Rightarrow> int" where
  "WEXITSTATUS status = status div 256 mod 256"

text \<open>How the process goes on: it has ended, or it has become another program.\<close>

datatype 'a ending = Ended int | Became 'a

definition wait_child :: "int \<Rightarrow> int option" where
  "wait_child child_status = (if WEXITSTATUS child_status \<noteq> 0 then Some (WEXITSTATUS child_status) else None)"

text \<open>\<open>None\<close>: the NUL is written behind the buffer.\<close>

definition read_buffer :: "char source \<Rightarrow> (int + char list) option" where
  "read_buffer inp =
     (case sys_read inp buffer_size of (read_bytes, bs, inp) \<Rightarrow>
        if read_bytes = - 1 then Some (Inl 1)
        else if length bs < buffer_size then Some (Inr (bs @ [NUL])) else None)"

definition program_text :: "char list \<Rightarrow> char list" where
  "program_text buffer =
     ''#include <stdio.h>'' @ [CHR 0x0A] @ ''int main(){printf('' @ [CHR 0x22] @ ''%d'' @ [CHR 0x5C] @ ''n'' @ [CHR 0x22]
       @ '',('' @ cstr buffer @ ''));}''"

text \<open>
  \<open>forked\<close>: whether \<^verbatim>\<open>fork\<close> succeeds; \<open>gcc\<close>: the wait status of the compiler on the file, or \<open>None\<close> when it cannot be started, and
  then the child returns 1; \<open>old\<close>: the source of the executable that is there before, if any.  A compiler that ends without error has made
  the executable from the file; \<open>Became\<close> is the source of the program that the process becomes.
\<close>

definition exec_gcc_main ::
  "bool \<Rightarrow> (char list \<Rightarrow> int option) \<Rightarrow> char list option \<Rightarrow> char source \<Rightarrow> char list ending option" where
  "exec_gcc_main forked gcc old inp =
     map_option (\<lambda>b. case b of
         Inl status \<Rightarrow> Ended status
       | Inr buffer \<Rightarrow>
           if \<not> forked then Ended 1
           else let file = program_text buffer;
                    child_status = (case gcc file of None \<Rightarrow> 256 | Some s \<Rightarrow> s) in
             (case wait_child child_status of
                Some e \<Rightarrow> Ended e
              | None \<Rightarrow> (case (if child_status = 0 then Some file else old) of
                   None \<Rightarrow> Ended 1
                 | Some source \<Rightarrow> Became source)))
       (read_buffer inp)"

lemma read_buffer_short:
  assumes "rsched inp = []" "length (rest inp) < buffer_size"
  shows "read_buffer inp = Some (Inr (rest inp @ [NUL]))"
  using assms by (simp add: read_buffer_def sys_read_def min_def)

text \<open>
  An expression that one read delivers and that the compiler accepts: the process becomes the program that prints the expression.
\<close>

lemma exec_gcc_runs:
  assumes "rsched inp = []" "length (rest inp) < buffer_size" "NUL \<notin> set (rest inp)"
    and "gcc (program_text (rest inp)) = Some 0"
  shows "exec_gcc_main True gcc old inp = Some (Became (program_text (rest inp)))"
proof -
  have "program_text (rest inp @ [NUL]) = program_text (rest inp)" using assms(3) by (simp add: program_text_def)
  then show ?thesis using read_buffer_short[OF assms(1,2)] assms(4)
    by (simp add: exec_gcc_main_def wait_child_def WEXITSTATUS_def)
qed

text \<open>An expression that the compiler refuses: its exit status is that of the program.\<close>

lemma exec_gcc_fails:
  assumes "rsched inp = []" "length (rest inp) < buffer_size" "NUL \<notin> set (rest inp)"
    and "gcc (program_text (rest inp)) = Some (256 * e)" "0 < e" "e < 256"
  shows "exec_gcc_main True gcc old inp = Some (Ended e)"
proof -
  have "program_text (rest inp @ [NUL]) = program_text (rest inp)" using assms(3) by (simp add: program_text_def)
  then show ?thesis using read_buffer_short[OF assms(1,2)] assms(4-)
    by (simp add: exec_gcc_main_def wait_child_def WEXITSTATUS_def)
qed

text \<open>A compiler that is killed by a signal counts as a success, and the executable of an earlier run is started.\<close>

lemma exec_gcc_runs_old:
  assumes "rsched inp = []" "length (rest inp) < buffer_size" "NUL \<notin> set (rest inp)"
    and "gcc (program_text (rest inp)) = Some sig" "0 < sig" "sig < 128"
  shows "exec_gcc_main True gcc (Some old) inp = Some (Became old)"
proof -
  have "program_text (rest inp @ [NUL]) = program_text (rest inp)" using assms(3) by (simp add: program_text_def)
  then show ?thesis using read_buffer_short[OF assms(1,2)] assms(4-)
    by (simp add: exec_gcc_main_def wait_child_def WEXITSTATUS_def)
qed

text \<open>An input of exactly the size of the buffer overruns it.\<close>

lemma read_buffer_overruns:
  assumes "rsched inp = []" "buffer_size \<le> length (rest inp)"
  shows "read_buffer inp = None"
  using assms by (simp add: read_buffer_def sys_read_def min_def)

end
