(* ===== verification/TcpServers.thy ===== *)
theory TcpServers
  imports HttpServerExec EpollServer HttpClient
begin

section \<open>The servers from their arguments to their end\<close>

text \<open>
  \<^verbatim>\<open>main\<close> of \<^verbatim>\<open>inf16-1_posix_sockets_http-server-1\<close>, \<^verbatim>\<open>inf16-2_posix_sockets_http-server-2\<close> and
  \<^verbatim>\<open>inf17-1_highload_epoll-read-write-socket\<close>, with the functions that make the address and the socket.  An address is
  four bytes in network order and the port as it is stored, most significant byte first.  Whether \<^verbatim>\<open>bind\<close> and \<^verbatim>\<open>listen\<close> succeed
  for an address is a parameter, and so is what arrives at it.
\<close>

subsection \<open>Addresses\<close>

record sockaddr_in =
  sin_addr :: "char list"
  sin_port :: nat

text \<open>
  \<^verbatim>\<open>inet_addr\<close> for four decimal numbers below 256 without leading zeros, which is all that the servers pass to it; \<open>None\<close> for
  another text.
\<close>

fun split_dots :: "char list \<Rightarrow> char list list" where
  "split_dots [] = [[]]"
| "split_dots (c # cs) =
     (if c = CHR ''.'' then [] # split_dots cs
      else case split_dots cs of [] \<Rightarrow> [[c]] | w # ws \<Rightarrow> (c # w) # ws)"

definition octet :: "char list \<Rightarrow> char option" where
  "octet d = (if d \<noteq> [] \<and> list_all is_digit d \<and> (length d = 1 \<or> hd d \<noteq> CHR ''0'') \<and> dec_val d < 256
              then Some (char_of (dec_val d)) else None)"

definition inet_addr :: "char list \<Rightarrow> char list option" where
  "inet_addr s =
     (case split_dots s of
        [a, b, c, d] \<Rightarrow>
          (case (octet a, octet b, octet c, octet d) of
             (Some a, Some b, Some c, Some d) \<Rightarrow> Some [a, b, c, d]
           | _ \<Rightarrow> None)
      | _ \<Rightarrow> None)"

text \<open>\<^verbatim>\<open>htons\<close> takes the low 16 bits of the port; it swaps two bytes as \<^verbatim>\<open>ntohs\<close> does.\<close>

definition tcp_socket_addr :: "char list \<Rightarrow> int \<Rightarrow> sockaddr_in option" where
  "tcp_socket_addr ipv4_addr_str port =
     map_option (\<lambda>a. \<lparr>sin_addr = a, sin_port = ntohs (nat (port mod 65536))\<rparr>) (inet_addr ipv4_addr_str)"

text \<open>The exit status when the socket cannot be bound or listened at; otherwise the socket, which is known by its address.\<close>

record network =
  binds :: "sockaddr_in \<Rightarrow> bool"
  listens :: "sockaddr_in \<Rightarrow> bool"
  resolver :: "char list \<Rightarrow> (nat \<times> char list list) option"

definition build_server :: "network \<Rightarrow> sockaddr_in \<Rightarrow> int + sockaddr_in" where
  "build_server net socket_addr =
     (if \<not> binds net socket_addr then Inl 1
      else if \<not> listens net socket_addr then Inl 1
      else Inr socket_addr)"

text \<open>The other two programs have their own copies of these functions.\<close>

definition tcp_socket_addr_exec :: "char list \<Rightarrow> int \<Rightarrow> sockaddr_in option" where
  "tcp_socket_addr_exec = tcp_socket_addr"

definition build_server_exec :: "network \<Rightarrow> sockaddr_in \<Rightarrow> int + sockaddr_in" where
  "build_server_exec = build_server"

definition hostname_to_ip_exec :: "(nat \<times> char list list) option \<Rightarrow> (int \<times> char list) option" where
  "hostname_to_ip_exec = hostname_to_ip"

definition tcp_socket_addr_epoll :: "char list \<Rightarrow> int \<Rightarrow> sockaddr_in option" where
  "tcp_socket_addr_epoll = tcp_socket_addr"

definition build_server_epoll :: "network \<Rightarrow> sockaddr_in \<Rightarrow> int + sockaddr_in" where
  "build_server_epoll = build_server"

definition hostname_to_ip_epoll :: "(nat \<times> char list list) option \<Rightarrow> (int \<times> char list) option" where
  "hostname_to_ip_epoll = hostname_to_ip"

lemmas copies = tcp_socket_addr_exec_def build_server_exec_def hostname_to_ip_exec_def
  tcp_socket_addr_epoll_def build_server_epoll_def hostname_to_ip_epoll_def

subsection \<open>The programs\<close>


definition exec_server_main ::
  "network \<Rightarrow> HttpServer.file_system \<Rightarrow> char list \<Rightarrow> (sockaddr_in \<Rightarrow> HttpServerExec.server_turn list)
     \<Rightarrow> (int \<times> char list) option \<Rightarrow> (int option \<times> processes \<times> (client \<times> int \<times> client) list) option" where
  "exec_server_main net fs buf arrivals args =
     (case args of
        None \<Rightarrow> Some (Some 1, snd HttpServerExec.server_start, [])
      | Some (port, base_path) \<Rightarrow>
          (case HttpServerExec.normalize_base_path base_path of
             None \<Rightarrow> None
           | Some base_path \<Rightarrow>
               (case hostname_to_ip_exec (resolver net ''localhost'') of
                  None \<Rightarrow> None
                | Some (found, ip_str) \<Rightarrow>
                    if found = - 1 then Some (Some 1, snd HttpServerExec.server_start, [])
                    else (case tcp_socket_addr_exec ip_str (to_i32 port) of
                       None \<Rightarrow> None
                     | Some addr \<Rightarrow>
                         (case build_server_exec net addr of
                            Inl status \<Rightarrow> Some (Some status, snd HttpServerExec.server_start, [])
                          | Inr server_fd \<Rightarrow>
                              map_option (\<lambda>((stopped, ps), rs). (if stopped then Some 0 else None, ps, rs))
                                (HttpServerExec.run_file_server fs base_path buf HttpServerExec.server_start
                                  (arrivals server_fd)))))))"

definition epoll_server_main ::
  "network \<Rightarrow> (sockaddr_in \<Rightarrow> EpollServer.waited list) \<Rightarrow> int option \<Rightarrow> (int option \<times> server) option" where
  "epoll_server_main net arrivals args =
     (case args of
        None \<Rightarrow> Some (Some 1, EpollServer.server_start)
      | Some port \<Rightarrow>
          (case hostname_to_ip_epoll (resolver net ''localhost'') of
             None \<Rightarrow> None
           | Some (found, ip_str) \<Rightarrow>
               if found = - 1 then Some (Some 1, EpollServer.server_start)
               else (case tcp_socket_addr_epoll ip_str (to_i32 port) of
                  None \<Rightarrow> None
                | Some addr \<Rightarrow>
                    (case build_server_epoll net addr of
                       Inl status \<Rightarrow> Some (Some status, EpollServer.server_start)
                     | Inr server_fd \<Rightarrow>
                         Some (case EpollServer.run_server (arrivals server_fd) EpollServer.server_start of
                           (ended, s) \<Rightarrow> (if ended then Some 0 else None, s))))))"

subsection \<open>An address and its text\<close>

lemma split_dots_plain: "CHR ''.'' \<notin> set w \<Longrightarrow> split_dots w = [w]"
  by (induction w) auto

lemma split_dots_dot: "CHR ''.'' \<notin> set w \<Longrightarrow> split_dots (w @ CHR ''.'' # s) = w # split_dots s"
  by (induction w) auto

lemma char_small: "(of_char c :: nat) < 256"
proof -
  have "(of_char c :: nat) = of_char c mod 256" by (metis char_of_char of_char_of)
  then show ?thesis by (metis mod_less_divisor zero_less_numeral)
qed

lemma dec_digits_no_dot: "CHR ''.'' \<notin> set (dec_digits n)"
  using dec_digits_are_digits[of n] by (auto simp: is_digit_def)

lemma hd_dec_digits: "0 < n \<Longrightarrow> hd (dec_digits n) \<noteq> CHR ''0''"
proof (induction n rule: less_induct)
  case (less n)
  show ?case
  proof (cases "n < 10")
    case True
    have "digit_val (digit_char n) = n" using True by simp
    moreover have "digit_val CHR ''0'' = 0" by (simp add: digit_val_def)
    ultimately have "digit_char n \<noteq> CHR ''0''" using less.prems by fastforce
    then show ?thesis using True by (simp add: dec_digits.simps[of n])
  next
    case False
    then have "hd (dec_digits n) = hd (dec_digits (n div 10))"
      using dec_digits_nonempty[of "n div 10"] by (simp add: dec_digits.simps[of n])
    then show ?thesis using less.IH[of "n div 10"] False by simp
  qed
qed

lemma dec_digits_no_zero: "length (dec_digits n) = 1 \<or> hd (dec_digits n) \<noteq> CHR ''0''"
  using hd_dec_digits[of n] by (cases "n = 0") (simp_all add: dec_digits.simps[of 0])

lemma octet_digits: "octet (dec_digits (of_char c)) = Some c"
  using dec_digits_nonempty dec_digits_are_digits dec_digits_no_zero dec_val_digits char_small
  by (simp add: octet_def list_all_iff)

lemma inet_addr_ntoa: "length a = 4 \<Longrightarrow> inet_addr (inet_ntoa a) = Some a"
proof -
  assume "length a = 4"
  then obtain b c d e where a: "a = [b, c, d, e]" by (auto simp: numeral_eq_Suc length_Suc_conv)
  have "split_dots (inet_ntoa a) = [dec_digits (of_char b), dec_digits (of_char c), dec_digits (of_char d), dec_digits (of_char e)]"
    by (simp add: a inet_ntoa_def split_dots_dot split_dots_plain dec_digits_no_dot)
  then show ?thesis by (simp add: inet_addr_def octet_digits a)
qed

subsection \<open>From the arguments to the socket\<close>

text \<open>The socket listens at the address of the host, and the bytes of the port are swapped.\<close>

lemma local_address:
  assumes "resolver net ''localhost'' = Some (4, a # as)" "length a = 4" "0 \<le> port" "port < 65536"
  shows "hostname_to_ip (resolver net ''localhost'') = Some (0, inet_ntoa a)"
    and "tcp_socket_addr (inet_ntoa a) (to_i32 port) = Some \<lparr>sin_addr = a, sin_port = ntohs (nat port)\<rparr>"
  using assms by (simp_all add: hostname_to_ip_def tcp_socket_addr_def inet_addr_ntoa is_i32_def)


text \<open>A server that cannot be set up ends with status 1 and serves nobody.\<close>

lemma exec_server_main_errors:
  assumes "HttpServer.normalize_base_path base = Some path" "length a = 4" "0 \<le> port" "port < 65536"
  shows "exec_server_main net fs buf arrivals None = Some (Some 1, snd HttpServerExec.server_start, [])"
    and "resolver net ''localhost'' = None \<Longrightarrow>
      exec_server_main net fs buf arrivals (Some (port, base)) = Some (Some 1, snd HttpServerExec.server_start, [])"
    and "resolver net ''localhost'' = Some (4, []) \<Longrightarrow>
      exec_server_main net fs buf arrivals (Some (port, base)) = None"
    and "resolver net ''localhost'' = Some (4, a # as) \<Longrightarrow> \<not> binds net \<lparr>sin_addr = a, sin_port = ntohs (nat port)\<rparr> \<Longrightarrow>
      exec_server_main net fs buf arrivals (Some (port, base)) = Some (Some 1, snd HttpServerExec.server_start, [])"
  using assms local_address[OF _ assms(2-4), of net as]
  by (simp_all add: exec_server_main_def copies HttpServerExec.normalize_base_path_def hostname_to_ip_def build_server_def)

subsection \<open>Properties\<close>




text \<open>
  C40: The event-driven server from its argument to its end.  It listens at the first address of \<^verbatim>\<open>localhost\<close>.  Whatever
  \<^verbatim>\<open>epoll_pwait\<close> then reports: it exits, with 0, exactly when a signal interrupts the waiting, not when one is handled between events.  The
  counter is at most 1000, at least the number of open clients, and equal to it unless an \<^verbatim>\<open>accept\<close> failed.  When the
  sockets take everything that is written, every open client has got back, in upper case, what was read from it, and nothing of it is
  pending.
\<close>

theorem epoll_server_main_echoes:
  assumes "resolver net ''localhost'' = Some (4, a # as)" "length a = 4" "0 \<le> port" "port < 65536"
    and "binds net \<lparr>sin_addr = a, sin_port = ntohs (nat port)\<rparr>" "listens net \<lparr>sin_addr = a, sin_port = ntohs (nat port)\<rparr>"
    and "arrivals \<lparr>sin_addr = a, sin_port = ntohs (nat port)\<rparr> = ws"
    and "EpollServer.possible_run (EpollServer.handled ws) EpollServer.server_start"
  shows "\<exists>status s. epoll_server_main net arrivals (Some port) = Some (status, s)
    \<and> status = (if \<exists>sg. EpollServer.Interrupted sg \<in> set ws then Some 0 else None)
    \<and> finite (dom (clients s)) \<and> int (card (dom (clients s))) \<le> current_connection_count s \<and> current_connection_count s \<le> 1000
    \<and> (EpollServer.AcceptFailed \<notin> set (EpollServer.handled ws) \<longrightarrow> current_connection_count s = int (card (dom (clients s))))
    \<and> ((\<forall>fd i out. Incoming fd i out \<in> set (EpollServer.handled ws) \<longrightarrow> wsched out = []) \<longrightarrow>
        (\<forall>fd conn. clients s fd = Some conn \<longrightarrow> buffer_len conn = 0
          \<and> (\<exists>i out data. Incoming fd i out \<in> set (EpollServer.handled ws) \<and> rest i = data @ rest (sock_in conn)
              \<and> sunk (sock_out conn) = sunk out @ map to_upper data)))"
proof -
  obtain ended s where run: "EpollServer.run_server ws EpollServer.server_start = (ended, s)" by fastforce
  have "epoll_server_main net arrivals (Some port) = Some (if ended then Some 0 else None, s)"
    using local_address[OF assms(1-4)] assms(5-7) run by (simp add: epoll_server_main_def copies build_server_def)
  then show ?thesis using EpollServer.run_server_echoes[OF assms(8) run] by simp
qed



definition demo_net :: network where
  "demo_net = \<lparr>binds = \<lambda>_. True, listens = \<lambda>_. True,
     resolver = \<lambda>_. Some (4, [[char_of (127 :: nat), NUL, NUL, char_of (1 :: nat)]])\<rparr>"




lemma epoll_server_main_witness:
  "\<exists>s conn. epoll_server_main demo_net (\<lambda>_. demo_waits) (Some 8080) = Some (Some 0, s) \<and> clients s 5 = Some conn
    \<and> current_connection_count s = 1 \<and> sunk (sock_out conn) = ''A''"
proof -
  obtain conn where run: "EpollServer.run_server demo_waits EpollServer.server_start
      = (True, \<lparr>clients = (\<lambda>_. None)(5 := Some conn), current_connection_count = 1, must_stop_server = True\<rparr>)"
    "rest (sock_in conn) = ''b''"
    using demo_run by blast
  have net: "resolver demo_net ''localhost'' = Some (4, [[char_of (127 :: nat), NUL, NUL, char_of (1 :: nat)]])"
    "\<And>x. binds demo_net x" "\<And>x. listens demo_net x" by (simp_all add: demo_net_def)
  have nums: "length [char_of (127 :: nat), NUL, NUL, char_of (1 :: nat)] = 4" "0 \<le> (8080 :: int)" "(8080 :: int) < 65536" by simp_all
  have main: "epoll_server_main demo_net (\<lambda>_. demo_waits) (Some 8080)
      = Some (Some 0, \<lparr>clients = (\<lambda>_. None)(5 := Some conn), current_connection_count = 1, must_stop_server = True\<rparr>)"
    using local_address[OF net(1), of 8080] net run by (simp add: epoll_server_main_def copies build_server_def)
  have waits: "EpollServer.handled demo_waits = [Incoming 5 \<lparr>rest = ''ab'', rsched = [1]\<rparr> demo_out, Ready 5 True False, EpollServer.Signalled EpollServer.SIGINT]"
    by (simp add: demo_waits_def)
  have out: "\<forall>fd i out. Incoming fd i out \<in> set (EpollServer.handled demo_waits) \<longrightarrow> wsched out = []"
    by (simp add: waits demo_out_def)
  obtain status s where e: "epoll_server_main demo_net (\<lambda>_. demo_waits) (Some 8080) = Some (status, s)"
    "(\<forall>fd i out. Incoming fd i out \<in> set (EpollServer.handled demo_waits) \<longrightarrow> wsched out = []) \<longrightarrow>
      (\<forall>fd conn. clients s fd = Some conn \<longrightarrow> buffer_len conn = 0
        \<and> (\<exists>i out data. Incoming fd i out \<in> set (EpollServer.handled demo_waits) \<and> rest i = data @ rest (sock_in conn)
            \<and> sunk (sock_out conn) = sunk out @ map to_upper data))"
    using epoll_server_main_echoes[OF net(1) nums net(2,3) refl demo_possible] by (elim exE conjE) (rule that)
  have "clients s 5 = Some conn" using e(1) main by auto
  then obtain i out data where d: "Incoming 5 i out \<in> set (EpollServer.handled demo_waits)" "rest i = data @ ''b''"
    "sunk (sock_out conn) = sunk out @ map to_upper data"
    using e(2) out run(2) by fastforce
  then have "''ab'' = data @ ''b''" "sunk out = []" by (simp_all add: waits demo_out_def)
  moreover have "data = ''a''" using calculation(1) by (cases data rule: rev_cases) auto
  ultimately have "sunk (sock_out conn) = ''A''" using d(3) by (simp add: to_upper_def char_of_def bit_iff_odd)
  then show ?thesis using main by auto
qed





end
