(* ===== verification/DnsMain.thy ===== *)
theory DnsMain
  imports TcpServers ScanInput
begin

section \<open>The resolver from its input to its output\<close>

text \<open>
  \<^verbatim>\<open>main\<close> and \<^verbatim>\<open>get_socket_addr\<close> of \<^verbatim>\<open>inf22-2_posix_sockets_udp-dns-resolver/main.c\<close>: the words of the input are resolved one after
  the other by a server at a fixed address.  The network is a function from the address and the bytes that are sent to the bytes that come
  back.  \<open>junk k\<close> are the contents of the local arrays \<^verbatim>\<open>word\<close> and \<^verbatim>\<open>buffer\<close> at the \<open>k\<close>-th call of \<^verbatim>\<open>resolve_domain\<close>; the arrays of \<^verbatim>\<open>main\<close>
  keep what the calls have left in them.

  Each call of \<^verbatim>\<open>resolve_domain\<close> makes a socket and never closes it.  \<open>free\<close> is the number of descriptors that the
  process may still open.  When none is left \<^verbatim>\<open>socket\<close> returns -1, which is not tested; \<^verbatim>\<open>sendto\<close> and
  \<^verbatim>\<open>recvfrom\<close> then fail and leave the buffer as it is, as if an empty reply had arrived.
\<close>

definition get_socket_addr :: "char list \<Rightarrow> sockaddr_in option" where
  "get_socket_addr ip = map_option (\<lambda>a. \<lparr>sin_addr = a, sin_port = ntohs 53\<rparr>) (inet_addr ip)"

definition DNS_IP :: "char list" where
  "DNS_IP = ''8.8.8.8''"

text \<open>\<open>None\<close>: a name that does not fit its array, or an undefined access in \<^verbatim>\<open>resolve_domain\<close>.\<close>

definition resolve_by ::
  "nat \<Rightarrow> (char list \<Rightarrow> char list) \<Rightarrow> char list \<Rightarrow> char list \<Rightarrow> char list \<Rightarrow> char list \<Rightarrow> char list option" where
  "resolve_by free server word buf ip domain = resolve_domain (if free = 0 then (\<lambda>_. []) else server) word buf ip domain"

function dns_loop ::
  "nat \<Rightarrow> (char list \<Rightarrow> char list) \<Rightarrow> (nat \<Rightarrow> char list \<times> char list) \<Rightarrow> nat \<Rightarrow> char list \<Rightarrow> char list \<Rightarrow> char list \<Rightarrow> char list option" where
  "dns_loop free server junk k domain_name ip inp =
     (case scan_string inp of
        None \<Rightarrow> Some []
      | Some (w, r) \<Rightarrow>
          (case store_string domain_name w of
             None \<Rightarrow> None
           | Some domain_name \<Rightarrow>
               (case resolve_by free server (fst (junk k)) (snd (junk k)) ip (cstr domain_name) of
                  None \<Rightarrow> None
                | Some ip \<Rightarrow> map_option (\<lambda>out. cstr ip @ [CHR 0x0A] @ out)
                    (dns_loop (free - 1) server junk (k + 1) domain_name ip r))))"
  by pat_completeness auto
termination
  by (relation "measure (\<lambda>(free, server, junk, k, domain_name, ip, inp). length inp)") (auto dest: scan_string_shorter)

declare dns_loop.simps [simp del]

definition dns_main ::
  "nat \<Rightarrow> (sockaddr_in \<Rightarrow> char list \<Rightarrow> char list) \<Rightarrow> (nat \<Rightarrow> char list \<times> char list) \<Rightarrow> char list \<Rightarrow> char list \<Rightarrow> char list \<Rightarrow> char list option" where
  "dns_main free net junk domain_name ip inp =
     Option.bind (get_socket_addr DNS_IP) (\<lambda>dns_addr. dns_loop free (net dns_addr) junk 0 domain_name ip inp)"

subsection \<open>Names the server answers\<close>

text \<open>A name made of labels that is a word of the input and fits its array.\<close>

definition plain_name :: "char list list \<Rightarrow> bool" where
  "plain_name ls \<longleftrightarrow> (\<forall>l\<in>set ls. CHR ''.'' \<notin> set l \<and> NUL \<notin> set l \<and> length l < 256)
     \<and> is_word (join_labels ls) \<and> length (join_labels ls) < 1000"

text \<open>
  The server answers the request for the labels \<open>ls\<close> with a well-formed reply of the records \<open>rs\<close>, at most ten of them, with
  compressed names and of at most 996 bytes in all.
\<close>

definition answered :: "(char list \<Rightarrow> char list) \<Rightarrow> char list list \<Rightarrow> resource list \<Rightarrow> bool" where
  "answered server ls rs \<longleftrightarrow> (\<forall>r\<in>set rs. rr_ok r) \<and> length rs \<le> 10
     \<and> (\<exists>h flags. server (request_bytes (qname ls)) = reply_bytes h (qname ls) flags rs \<and> questions_count h = ntohs 1
         \<and> answers_count h = ntohs (length rs) \<and> length flags = 4 \<and> length (reply_bytes h (qname ls) flags rs) \<le> 996)"

lemma length_copy_to: "copy_to buf p bs = Some buf' \<Longrightarrow> length buf' = length buf"
  by (auto simp: copy_to_def split: if_splits)

lemma ip_to_str_length: "ip_to_str s a = Some s' \<Longrightarrow> length s' = length s"
  by (auto simp: ip_to_str_def Let_def bind_eq_Some_conv dest!: length_copy_to)

lemma resolve_domain_length: "resolve_domain server word buf ip domain = Some ip' \<Longrightarrow> length ip' = length ip"
  by (auto simp: resolve_domain_def Let_def bind_eq_Some_conv dest!: ip_to_str_length split: prod.splits)

lemma answered_resolves:
  assumes "plain_name ls" "length (qname ls) < 239" "answered server ls rs" "length word = 256" "length buf = 1000" "16 \<le> length ip"
  shows "\<exists>ip'. resolve_domain server word buf ip (join_labels ls) = Some ip'
    \<and> cstr ip' = inet_ntoa (first_address rs) \<and> length ip' = length ip"
proof -
  obtain h flags where r: "server (request_bytes (qname ls)) = reply_bytes h (qname ls) flags rs" "questions_count h = ntohs 1"
    "answers_count h = ntohs (length rs)" "length flags = 4" "length (reply_bytes h (qname ls) flags rs) \<le> 996"
    using assms(3) unfolding answered_def by blast
  have a: "\<forall>l\<in>set ls. CHR ''.'' \<notin> set l \<and> NUL \<notin> set l \<and> length l < 256" "\<forall>r\<in>set rs. rr_ok r" "length rs \<le> 10"
    using assms(1,3) unfolding plain_name_def answered_def by blast+
  have "\<exists>ip'. resolve_domain server word buf ip (join_labels ls) = Some ip' \<and> cstr ip' = inet_ntoa (first_address rs)"
    by (rule resolve_domain_finds_address[where server = server, OF a(1) assms(2,4-6) r(1-4) a(2,3) r(5)])
  then show ?thesis using resolve_domain_length by blast
qed

text \<open>Without a reply the program reads its own request as one: it has no answers.\<close>

lemma no_reply_is_echo: "resolve_domain (\<lambda>_. []) word buf ip domain = resolve_domain (\<lambda>request. request) word buf ip domain"
proof -
  have "overwrite b 0 (take (length b) (take n b)) = b" for n and b :: "char list"
  proof (cases "n \<le> length b")
    case True
    then show ?thesis by (simp add: overwrite_def min_def)
  qed (simp add: overwrite_def)
  moreover have "overwrite b 0 (take n []) = b" for n and b :: "char list" by (simp add: overwrite_def)
  ultimately show ?thesis by (simp add: resolve_domain_def)
qed

lemma echo_is_empty_reply:
  assumes "plain_name ls" "length (qname ls) < 239"
  shows "answered (\<lambda>request. request) ls []"
proof -
  have "request_bytes (qname ls) = reply_bytes (build_dns_request 1) (qname ls) (bytes16 (ntohs 1) @ bytes16 (ntohs 1)) []"
    by (simp add: request_bytes_def reply_bytes_def)
  moreover have "length (request_bytes (qname ls)) \<le> 996"
    using assms(2) by (simp add: request_bytes_def header_bytes_def)
  ultimately show ?thesis
    unfolding answered_def
    by (intro conjI exI[of _ "build_dns_request 1"] exI[of _ "bytes16 (ntohs 1) @ bytes16 (ntohs 1)"])
      (simp_all add: build_dns_request_def ntohs_def)
qed

lemma resolve_by_result:
  assumes "plain_name ls" "length (qname ls) < 239" "0 < free \<longrightarrow> answered server ls rs"
    and "length word = 256" "length buf = 1000" "16 \<le> length ip"
  shows "\<exists>ip'. resolve_by free server word buf ip (join_labels ls) = Some ip'
    \<and> cstr ip' = (if 0 < free then inet_ntoa (first_address rs) else ''0.0.0.0'') \<and> length ip' = length ip"
proof (cases "0 < free")
  case True
  then show ?thesis using answered_resolves[OF assms(1,2) _ assms(4-6)] assms(3) by (simp add: resolve_by_def)
next
  case False
  have "inet_ntoa (first_address []) = ''0.0.0.0''" by code_simp
  then show ?thesis
    using False answered_resolves[OF assms(1,2) echo_is_empty_reply[OF assms(1,2)] assms(4-6)]
    by (simp add: resolve_by_def no_reply_is_echo)
qed

definition names_text :: "(char list list \<times> resource list) list \<Rightarrow> char list" where
  "names_text qs = concat (map (\<lambda>(ls, rs). join_labels ls @ [CHR 0x0A]) qs)"

definition addresses_text :: "(char list list \<times> resource list) list \<Rightarrow> char list" where
  "addresses_text qs = concat (map (\<lambda>(ls, rs). inet_ntoa (first_address rs) @ [CHR 0x0A]) qs)"

definition zeros_text :: "nat \<Rightarrow> char list" where
  "zeros_text n = concat (replicate n (''0.0.0.0'' @ [CHR 0x0A]))"

lemma dns_loop_ws: "is_ws c \<Longrightarrow> dns_loop free server junk k d ip (c # r) = dns_loop free server junk k d ip r"
  by (simp add: dns_loop.simps[of free server junk k d ip "c # r"] dns_loop.simps[of free server junk k d ip r] scan_string_ws)

lemma dns_loop_resolves:
  assumes "list_all (\<lambda>(ls, rs). plain_name ls \<and> length (qname ls) < 239) qs"
    and "list_all (\<lambda>(ls, rs). answered server ls rs) (take free qs)"
    and "\<And>k. length (fst (junk k)) = 256" "\<And>k. length (snd (junk k)) = 1000"
    and "length domain_name = 1000" "16 \<le> length ip"
  shows "dns_loop free server junk k domain_name ip (names_text qs)
    = Some (addresses_text (take free qs) @ zeros_text (length qs - free))"
  using assms(1,2,5,6)
proof (induction qs arbitrary: free k domain_name ip)
  case Nil
  then show ?case by (simp add: dns_loop.simps names_text_def addresses_text_def zeros_text_def scan_string_Nil)
next
  case (Cons q qs)
  obtain ls rs where q: "q = (ls, rs)" by (cases q)
  have r: "plain_name ls" "length (qname ls) < 239" "is_word (join_labels ls)" "length (join_labels ls) < 1000"
    "0 < free \<longrightarrow> answered server ls rs"
    using Cons.prems(1,2) q by (cases free; simp add: plain_name_def)+
  have inp: "names_text (q # qs) = join_labels ls @ CHR 0x0A # names_text qs" by (simp add: names_text_def q)
  have scan: "scan_string (names_text (q # qs)) = Some (join_labels ls, CHR 0x0A # names_text qs)"
    unfolding inp by (rule scan_word_ws[OF r(3) newline_char(1)])
  obtain d where d: "store_string domain_name (join_labels ls) = Some d" "cstr d = join_labels ls" "length d = 1000"
    using store_word[of "join_labels ls" domain_name] r(3,4) Cons.prems(3) by (auto simp: is_word_def)
  obtain ip' where ip': "resolve_by free server (fst (junk k)) (snd (junk k)) ip (join_labels ls) = Some ip'"
    "cstr ip' = (if 0 < free then inet_ntoa (first_address rs) else ''0.0.0.0'')" "length ip' = length ip"
    using resolve_by_result[OF r(1,2,5) assms(3,4) Cons.prems(4)] by blast
  have "list_all (\<lambda>(ls, rs). answered server ls rs) (take (free - 1) qs)"
    using Cons.prems(2) by (cases free) auto
  then have "dns_loop (free - 1) server junk (k + 1) d ip' (names_text qs)
      = Some (addresses_text (take (free - 1) qs) @ zeros_text (length qs - (free - 1)))"
    using Cons.prems(1,4) d(3) ip'(3) by (intro Cons.IH) auto
  then show ?case using scan d ip'
    by (subst dns_loop.simps) (cases free; simp add: dns_loop_ws newline_char(1) addresses_text_def zeros_text_def q)
qed

lemma dns_address: "get_socket_addr DNS_IP = Some \<lparr>sin_addr = replicate 4 CHR 0x08, sin_port = ntohs 53\<rparr>"
  by code_simp

text \<open>
  C31: The whole program, for input names whose encoding has fewer than 239 bytes: longer ones, which are legal, make the 8-bit counter
  of the request wrap around (\<open>request_size_wraps\<close>).  When the server at 8.8.8.8, port 53, answers the request for each of the first
  \<open>free\<close> names with a well-formed reply of at most ten records with compressed names and of at most 996 bytes, the program prints,
  one line for each of these names in order, the dotted form of the address in the first A record, whatever other records come before it,
  and 0.0.0.0 when there is none; this does not depend on what the local arrays hold, in particular not on the names and replies
  before.  Here \<open>free\<close> is the number of descriptors that the process may open: the sockets are not closed, and for every name
  after these 0.0.0.0 is printed, whatever the server would answer.
\<close>

theorem dns_main_resolves:
  assumes "list_all (\<lambda>(ls, rs). plain_name ls \<and> length (qname ls) < 239) qs"
    and "list_all (\<lambda>(ls, rs). answered (net \<lparr>sin_addr = replicate 4 CHR 0x08, sin_port = ntohs 53\<rparr>) ls rs) (take free qs)"
    and "\<And>k. length (fst (junk k)) = 256" "\<And>k. length (snd (junk k)) = 1000" "length domain_name = 1000" "length ip = 1000"
  shows "dns_main free net junk domain_name ip (names_text qs)
    = Some (addresses_text (take free qs) @ zeros_text (length qs - free))"
  using dns_loop_resolves[OF assms(1-5)] assms(6) by (simp add: dns_main_def dns_address)

text \<open>A server that knows one address, asked twice and, when no descriptor is left, once more.\<close>

definition demo_record :: resource where
  "demo_record = \<lparr>rr_name = ''nn'', rr_type = 1, rr_mid = ''cctttt'', rr_data = [CHR 0x08, CHR 0x08, CHR 0x04, CHR 0x04]\<rparr>"

lemma dns_main_resolves_witness:
  "dns_main 2 (\<lambda>_ _. reply_bytes ((build_dns_request 1)\<lparr>answers_count := ntohs 1\<rparr>) (qname [''ru'']) ''qqqq'' [demo_record])
     (\<lambda>_. (replicate 256 NUL, replicate 1000 NUL)) (replicate 1000 NUL) (replicate 1000 NUL)
     (''ru'' @ [CHR 0x0A] @ ''ru'' @ [CHR 0x0A] @ ''ru'' @ [CHR 0x0A])
   = Some (''8.8.4.4'' @ [CHR 0x0A] @ ''8.8.4.4'' @ [CHR 0x0A] @ ''0.0.0.0'' @ [CHR 0x0A])"
proof -
  let ?net = "\<lambda>_ _. reply_bytes ((build_dns_request 1)\<lparr>answers_count := ntohs 1\<rparr>) (qname [''ru'']) ''qqqq'' [demo_record]"
  let ?q = "([''ru''], [demo_record])"
  have a: "inet_ntoa [CHR 0x08, CHR 0x08, CHR 0x04, CHR 0x04] = ''8.8.4.4''" by code_simp
  have b: "length (qname [''ru'']) = 3" by code_simp
  have "answered (?net x) [''ru''] [demo_record]" for x :: sockaddr_in
    unfolding answered_def
    by (intro conjI exI[of _ "(build_dns_request 1)\<lparr>answers_count := ntohs 1\<rparr>"] exI[of _ "''qqqq''"])
      (simp_all add: b demo_record_def rr_ok_def reply_bytes_def rr_bytes_def build_dns_request_def
        header_bytes_def bytes16_def)
  moreover have "plain_name [''ru'']" by (simp add: plain_name_def is_word_def is_ws_def NUL_def)
  ultimately show ?thesis
    using dns_main_resolves[of "[?q, ?q, ?q]" ?net 2 "\<lambda>_. (replicate 256 NUL, replicate 1000 NUL)"
        "replicate 1000 NUL" "replicate 1000 NUL"] a b
    by (simp add: names_text_def addresses_text_def zeros_text_def demo_record_def numeral_2_eq_2)
qed

end
