(* ===== verification/LibraryPrograms.thy ===== *)
theory LibraryPrograms
  imports HttpClient
begin

section \<open>Programs around a cryptographic or a network library\<close>

text \<open>
  \<^verbatim>\<open>inf25-0-openssl_dgst-sha512/main.c\<close>, \<^verbatim>\<open>inf25-1_openssl_decrypt-aes-256-cbc/main.c\<close> and \<^verbatim>\<open>inf23-2_http_curl-client/main.c\<close>.  The
  functions of OpenSSL and curl are parameters.  What the theorems need of them is a hypothesis: that hashing two pieces one after the
  other is hashing their concatenation, and that decryption inverts encryption.
\<close>

subsection \<open>dgst-sha512\<close>

record 'c sha512 =
  SHA512_Init :: 'c
  SHA512_Update :: "'c \<Rightarrow> u8 list \<Rightarrow> 'c"
  SHA512_Final :: "'c \<Rightarrow> u8 list"

definition SHA512_DIGEST_LENGTH :: nat where "SHA512_DIGEST_LENGTH = 64"

text \<open>The loop over the standard input; a failure of \<^verbatim>\<open>read\<close> ends it like the end of the input.\<close>

function sha512_loop :: "'c sha512 \<Rightarrow> u8 source \<Rightarrow> 'c \<Rightarrow> 'c" where
  "sha512_loop H src c =
     (case sys_read src SHA512_DIGEST_LENGTH of (n, bs, src) \<Rightarrow>
        if 0 < n then sha512_loop H src (SHA512_Update H c bs) else c)"
  by pat_completeness auto
termination
  by (relation "measure (\<lambda>(H, src, c). length (rest src))") (auto dest: sys_read_decreases[OF sym])

declare sha512_loop.simps [simp del]

text \<open>\<^verbatim>\<open>%02x\<close> of a byte.\<close>

definition hex_char :: "nat \<Rightarrow> char" where
  "hex_char d = ''0123456789abcdef'' ! d"

definition hex_byte :: "u8 \<Rightarrow> char list" where
  "hex_byte b = [hex_char (unat b div 16), hex_char (unat b mod 16)]"

definition sha512_main :: "'c sha512 \<Rightarrow> u8 source \<Rightarrow> char list" where
  "sha512_main H src =
     ''0x'' @ concat (map hex_byte (take SHA512_DIGEST_LENGTH (SHA512_Final H (sha512_loop H src (SHA512_Init H)))))"

lemma no_read_more:
  assumes "sys_read src n = (k, bs, src')" "no_read_failure src" "k \<le> 0" "0 < n"
  shows "rest src = []"
proof -
  have "k = 0" using sys_read_no_failure[OF assms(1,2)] source.rd_range[OF assms(1)] assms(3) by auto
  then show ?thesis using source.rd_eof[of src n bs src'] assms(1,4) by simp
qed

lemma sha512_loop_hashes:
  assumes "\<And>c. SHA512_Update H c [] = c" "\<And>c a b. SHA512_Update H (SHA512_Update H c a) b = SHA512_Update H c (a @ b)"
    and "no_read_failure src"
  shows "sha512_loop H src c = SHA512_Update H c (rest src)"
  using assms(3)
proof (induction "length (rest src)" arbitrary: src c rule: less_induct)
  case less
  obtain n bs src' where r: "sys_read src SHA512_DIGEST_LENGTH = (n, bs, src')" by (metis prod_cases3)
  show ?case
  proof (cases "0 < n")
    case True
    have "rest src = bs @ rest src'" using source.rd_left[OF r] True by simp
    moreover have "sha512_loop H src' (SHA512_Update H c bs) = SHA512_Update H (SHA512_Update H c bs) (rest src')"
      using less.hyps sys_read_decreases[OF r True] sys_read_no_failure[OF r less.prems] by blast
    ultimately show ?thesis using r True by (simp add: sha512_loop.simps[of H src] assms(2))
  next
    case False
    then have "rest src = []" using no_read_more[OF r less.prems] by (simp add: SHA512_DIGEST_LENGTH_def)
    then show ?thesis using r False by (simp add: sha512_loop.simps[of H src] assms(1))
  qed
qed

text \<open>
  However the input is split by the calls of \<^verbatim>\<open>read\<close>, the digest of the whole input is printed.
\<close>

lemma sha512_main_prints:
  assumes "\<And>c. SHA512_Update H c [] = c" "\<And>c a b. SHA512_Update H (SHA512_Update H c a) b = SHA512_Update H c (a @ b)"
    and "no_read_failure src"
  shows "sha512_main H src
    = ''0x'' @ concat (map hex_byte (take 64 (SHA512_Final H (SHA512_Update H (SHA512_Init H) (rest src)))))"
  using sha512_loop_hashes[OF assms, of "SHA512_Init H"] by (simp add: sha512_main_def SHA512_DIGEST_LENGTH_def)

subsection \<open>decrypt-aes-256-cbc\<close>

text \<open>
  \<open>EVP_BytesToKey\<close> makes the key and the initial vector from the salt and the password; \<open>EVP_DecryptUpdate\<close> and
  \<open>EVP_DecryptFinal_ex\<close> give the two parts of the plain text, the second one nothing when the padding is wrong.
\<close>

record evp =
  EVP_BytesToKey :: "u8 list \<Rightarrow> u8 list \<Rightarrow> u8 list \<times> u8 list"
  EVP_DecryptUpdate :: "u8 list \<times> u8 list \<Rightarrow> u8 list \<Rightarrow> u8 list"
  EVP_DecryptFinal_ex :: "u8 list \<times> u8 list \<Rightarrow> u8 list \<Rightarrow> u8 list"

definition aes_decrypt :: "evp \<Rightarrow> u8 list \<times> u8 list \<Rightarrow> u8 list \<Rightarrow> u8 list" where
  "aes_decrypt E key_iv ciphertext = EVP_DecryptUpdate E key_iv ciphertext @ EVP_DecryptFinal_ex E key_iv ciphertext"

definition input_size :: nat where "input_size = 1024 * 1024"

text \<open>The loop that fills the buffer; \<open>buf\<close> is what has been read.\<close>

function fill_buffer :: "nat \<Rightarrow> u8 source \<Rightarrow> u8 list \<Rightarrow> u8 list" where
  "fill_buffer cap src buf =
     (case sys_read src (cap - length buf) of (n, bs, src) \<Rightarrow>
        if 0 < n then fill_buffer cap src (buf @ bs) else buf)"
  by pat_completeness auto
termination
  by (relation "measure (\<lambda>(cap, src, buf). length (rest src))") (auto dest: sys_read_decreases[OF sym])

declare fill_buffer.simps [simp del]

text \<open>
  The exit status and the output.  An input of less than 16 bytes makes the salt undefined and the size negative: \<open>None\<close>.
\<close>

definition decrypt_main :: "evp \<Rightarrow> u8 list option \<Rightarrow> u8 source \<Rightarrow> (int \<times> u8 list) option" where
  "decrypt_main E password src =
     (case password of
        None \<Rightarrow> Some (1, map (\<lambda>c. of_char c) (''Too few args'' @ [CHR 0x0A]))
      | Some password \<Rightarrow>
          let buffer = fill_buffer input_size src [] in
          if length buffer < 16 then None
          else let salt = slice 8 16 buffer;
                   key_iv = EVP_BytesToKey E salt password
               in Some (0, aes_decrypt E key_iv (drop 16 buffer)))"

lemma fill_buffer_reads:
  assumes "no_read_failure src" "length buf + length (rest src) \<le> cap"
  shows "fill_buffer cap src buf = buf @ rest src"
  using assms
proof (induction "length (rest src)" arbitrary: src buf rule: less_induct)
  case less
  obtain n bs src' where r: "sys_read src (cap - length buf) = (n, bs, src')" by (metis prod_cases3)
  show ?case
  proof (cases "0 < n")
    case True
    have l: "rest src = bs @ rest src'" using source.rd_left[OF r] True by simp
    have "fill_buffer cap src' (buf @ bs) = (buf @ bs) @ rest src'"
    proof (rule less.hyps)
      show "length (rest src') < length (rest src)" using sys_read_decreases[OF r True] by blast
      show "no_read_failure src'" using sys_read_no_failure[OF r less.prems(1)] by blast
      show "length (buf @ bs) + length (rest src') \<le> cap" using less.prems(2) l by simp
    qed
    then show ?thesis using r True l by (simp add: fill_buffer.simps[of cap src])
  next
    case False
    have "rest src = []"
    proof (cases "cap = length buf")
      case True
      then show ?thesis using less.prems(2) by simp
    next
      case neq: False
      then show ?thesis using no_read_more[OF r less.prems(1)] False less.prems(2) by simp
    qed
    then show ?thesis using r False by (simp add: fill_buffer.simps[of cap src])
  qed
qed

subsection \<open>curl-client\<close>

definition data_size :: nat where "data_size = 100 * 1024 * 1024"

text \<open>
  \<open>callback_function\<close>: a piece of the answer is appended to what has come; the array of \<open>cap\<close> characters is zero behind it.  \<open>None\<close> is a
  write behind the array.
\<close>

definition callback_function :: "nat \<Rightarrow> char list \<Rightarrow> char list \<Rightarrow> char list option" where
  "callback_function cap buffer ptr = (if length buffer + length ptr \<le> cap then Some (buffer @ ptr) else None)"

fun curl_easy_perform :: "nat \<Rightarrow> char list list \<Rightarrow> char list \<Rightarrow> char list option" where
  "curl_easy_perform cap [] buffer = Some buffer"
| "curl_easy_perform cap (ptr # ptrs) buffer = Option.bind (callback_function cap buffer ptr) (curl_easy_perform cap ptrs)"

text \<open>
  The output, for the pieces in which the answer comes.  \<open>None\<close> also stands for a missing mark, where the program uses a null pointer, and for
  an array without a NUL.
\<close>

definition print_title :: "nat \<Rightarrow> char list list \<Rightarrow> char list option" where
  "print_title cap pieces =
     (case curl_easy_perform cap pieces [] of
        None \<Rightarrow> None
      | Some body \<Rightarrow>
          if length (cstr body) = cap then None
          else (case (strstr (cstr body) ''<title>'', strstr (cstr body) ''</title>'') of
              (Some title, Some title_end) \<Rightarrow>
                Some (cstr (drop (title + 7) ((cstr body)[title_end := NUL])) @ [CHR 0x0A])
            | _ \<Rightarrow> None))"

text \<open>\<open>None\<close> for the handle is a curl that cannot be initialised: nothing is printed.\<close>

definition curl_main :: "char list list option \<Rightarrow> char list option" where
  "curl_main curl = (case curl of None \<Rightarrow> Some [] | Some pieces \<Rightarrow> print_title data_size pieces)"

lemma curl_pieces:
  "length buffer + length (concat ps) \<le> cap \<Longrightarrow> curl_easy_perform cap ps buffer = Some (buffer @ concat ps)"
  by (induction ps arbitrary: buffer) (simp_all add: callback_function_def)

lemma cstr_cut:
  assumes "NUL \<notin> set s" "a \<le> b" "b < length s"
  shows "cstr (drop a (s[b := NUL])) = take (b - a) (drop a s)"
proof -
  have "drop a (s[b := NUL]) = take (b - a) (drop a s) @ NUL # drop (Suc b) s"
    using assms(2,3) by (simp add: upd_conv_take_nth_drop drop_take)
  moreover have "NUL \<notin> set (take (b - a) (drop a s))" using assms(1) by (meson in_set_dropD in_set_takeD)
  ultimately show ?thesis by simp
qed

text \<open>
  However the answer comes in pieces, the text between the first two marks of a page is printed.
\<close>

lemma curl_main_prints_title:
  assumes "concat pieces = body" "length body < cap" "NUL \<notin> set body"
    and "strstr body ''<title>'' = Some a" "strstr body ''</title>'' = Some b" "a + 7 \<le> b" "b < length body"
  shows "print_title cap pieces = Some (take (b - (a + 7)) (drop (a + 7) body) @ [CHR 0x0A])"
  using curl_pieces[of "[]" pieces cap] assms cstr_cut[OF assms(3,6,7)] by (simp add: print_title_def)

text \<open>A page without a title: a null pointer is written through.\<close>

lemma curl_main_no_title:
  assumes "concat pieces = body" "strstr (cstr body) ''</title>'' = None" "length body \<le> cap"
  shows "print_title cap pieces = None"
  using curl_pieces[of "[]" pieces cap] assms by (simp add: print_title_def split: option.splits)

subsection \<open>Decryption inverts encryption\<close>

text \<open>
  Decryption of a file that was encrypted with a password.  The file is eight bytes of a mark, eight bytes of salt and the cipher text under the key and the
  initial vector that the salt and the password give.  When decryption inverts encryption, the program prints, with the same password, exactly the
  plain text, for every way in which \<^verbatim>\<open>read\<close> splits the file, as long as the file fits its buffer of 1048576 bytes.
\<close>

lemma decrypt_main_roundtrip:
  assumes "\<And>key_iv p. aes_decrypt E key_iv (encrypt key_iv p) = p"
    and "rest src = mark @ salt @ encrypt (EVP_BytesToKey E salt password) p" "length mark = 8" "length salt = 8"
    and "no_read_failure src" "length (rest src) \<le> input_size"
  shows "decrypt_main E (Some password) src = Some (0, p)"
proof -
  have "fill_buffer input_size src [] = rest src" using fill_buffer_reads[of src "[]" input_size] assms(5,6) by simp
  moreover have "slice 8 16 (rest src) = salt" "drop 16 (rest src) = encrypt (EVP_BytesToKey E salt password) p"
    using assms(2-4) by (simp_all add: slice_def)
  moreover have "\<not> length (rest src) < 16" using assms(2-4) by simp
  ultimately show ?thesis using assms(1) by (simp add: decrypt_main_def Let_def)
qed

text \<open>A cipher that reverses the text and appends the key, read in three pieces.\<close>

definition demo_evp :: evp where
  "demo_evp = \<lparr>EVP_BytesToKey = \<lambda>salt pw. (salt @ pw, []),
     EVP_DecryptUpdate = \<lambda>ki ct. rev (take (length ct - length (fst ki)) ct), EVP_DecryptFinal_ex = \<lambda>_ _. []\<rparr>"

lemma decrypt_main_roundtrip_witness:
  "decrypt_main demo_evp (Some [42]) \<lparr>rest = replicate 8 0 @ [1, 2, 3, 4, 5, 6, 7, 8] @ [30, 20, 10] @ [1, 2, 3, 4, 5, 6, 7, 8] @ [42],
     rsched = [3, 14]\<rparr> = Some (0, [10, 20, 30])"
  by (rule decrypt_main_roundtrip[where encrypt = "\<lambda>ki p. rev p @ fst ki" and mark = "replicate 8 0" and salt = "[1, 2, 3, 4, 5, 6, 7, 8]"])
    (simp_all add: demo_evp_def aes_decrypt_def no_read_failure_def input_size_def)

end
