(* ===== verification/TcpClients.thy ===== *)
theory TcpClients
  imports TcpServers
begin

section \<open>The HTTP clients from their arguments to their output\<close>

text \<open>
  The programs \<^verbatim>\<open>inf23-0-http_http-get\<close> and \<^verbatim>\<open>inf23-1-http_http-post\<close> with the functions that make the address and the
  connection, over the model of addresses in \<open>TcpServers\<close>.  \<open>connects\<close> is the connected socket for an address.
\<close>

definition hostname_to_ip_get :: "(nat \<times> char list list) option \<Rightarrow> (int \<times> char list) option" where
  "hostname_to_ip_get = hostname_to_ip"

definition tcp_socket_addr_get :: "char list \<Rightarrow> int \<Rightarrow> sockaddr_in option" where
  "tcp_socket_addr_get = tcp_socket_addr"

definition tcp_socket_addr_post :: "char list \<Rightarrow> int \<Rightarrow> sockaddr_in option" where
  "tcp_socket_addr_post = tcp_socket_addr"

text \<open>\<^verbatim>\<open>None\<close> is the descriptor -1, on which every transfer fails; the programs do not test for it.\<close>

definition tcp_connect :: "(sockaddr_in \<Rightarrow> client option) \<Rightarrow> sockaddr_in option \<Rightarrow> client option" where
  "tcp_connect connects addr = Option.bind addr connects"

definition tcp_connect_post :: "(sockaddr_in \<Rightarrow> client option) \<Rightarrow> sockaddr_in option \<Rightarrow> client option" where
  "tcp_connect_post = tcp_connect"

definition get_program ::
  "char list \<Rightarrow> network \<Rightarrow> (sockaddr_in \<Rightarrow> client option) \<Rightarrow> char list list \<Rightarrow> (int \<times> char list) option" where
  "get_program junk net connects args =
     get_main junk (resolver net) (\<lambda>ip. tcp_connect connects (tcp_socket_addr_get ip 80)) args"

definition post_program ::
  "char list \<Rightarrow> int \<Rightarrow> network \<Rightarrow> (sockaddr_in \<Rightarrow> client option) \<Rightarrow> (char list \<Rightarrow> char source option) \<Rightarrow> char list list
     \<Rightarrow> (int \<times> char list) option" where
  "post_program junk junk_size net connects files args =
     post_main junk junk_size (resolver net) (\<lambda>ip. tcp_connect_post connects (tcp_socket_addr_post ip 80)) files args"

lemma host_address:
  assumes "resolver net server = Some (4, a # as)" "length a = 4"
  shows "hostname_to_ip (resolver net server) = Some (0, inet_ntoa a)"
    and "tcp_socket_addr (inet_ntoa a) 80 = Some \<lparr>sin_addr = a, sin_port = ntohs 80\<rparr>"
  using assms by (simp_all add: hostname_to_ip_def tcp_socket_addr_def inet_addr_ntoa)

text \<open>
  http-get asks the first address of the host at port 80 and prints what follows the first empty line, when it arrives
  with the first bytes that are read.
\<close>

lemma get_program_prints:
  assumes "resolver net server = Some (4, a # as)" "length a = 4" "connects \<lparr>sin_addr = a, sin_port = ntohs 80\<rparr> = Some c"
    and "NUL \<notin> set server" "NUL \<notin> set path" "length server + length path + 40 \<le> length junk"
    and "no_read_failure (client_in c)" "NUL \<notin> set (rest (client_in c))"
    and "sys_read (client_in c) 9999 = (n, bs, s')" "0 < n" "strstr bs (crlf @ crlf) = Some p"
  shows "get_program junk net connects [server, path] = Some (0, drop (p + 4) (rest (client_in c)))"
proof -
  obtain k out where "sys_write (client_out c) (get_text server path) = (k, out)" by fastforce
  then obtain sock where "http_get junk c server path = Some (drop (p + 4) (rest (client_in c)), \<lparr>client_in = sock, client_out = out\<rparr>)"
    using http_get_needs_head[OF assms(4-10)] assms(11) by auto
  then show ?thesis using host_address[OF assms(1,2)] assms(3)
    by (simp add: get_program_def get_main_def tcp_connect_def tcp_socket_addr_get_def)
qed

text \<open>
  What http-post prints and exits with, in terms of the exchange on the connection to the first address of the host at port 80.
\<close>

lemma post_program_prints:
  assumes "resolver net server = Some (4, a # as)" "length a = 4" "connects \<lparr>sin_addr = a, sin_port = ntohs 80\<rparr> = Some c"
  shows "post_program junk junk_size net connects files [server, path, f]
    = map_option (\<lambda>(shown, _). (0, shown)) (http_post junk junk_size c server path (files f))"
  using host_address[OF assms(1,2)] assms(3)
  by (simp add: post_program_def post_main_def tcp_connect_post_def tcp_connect_def tcp_socket_addr_post_def)

lemma program_errors:
  "resolver net server = None \<Longrightarrow> get_program junk net connects [server, path] = Some (1, [])"
  "get_program junk net connects [server] = Some (1, [])"
  "resolver net server = None \<Longrightarrow> post_program junk junk_size net connects files [server, path, f] = Some (1, [])"
  "post_program junk junk_size net connects files [server, path] = Some (1, [])"
  by (simp_all add: get_program_def get_main_def post_program_def post_main_def hostname_to_ip_def)

end
