(* ===== verification/Spec2Isabelle.thy ===== *)
theory Spec2Isabelle
  imports WordPrograms Utf8Count BitsetCalc ReadFilterWrite ExternalSort MergeSort PrintList PrintListWinapi
    SwapAllocator LockFreeList DnsResolver HttpServer HttpServerExec SimpleFS MergeFS EpollServer
    PrimeFactors NormalizePath ExprParser ArmCodegen PrimesCondvar PrimesGenerator Smokers LockFreePush
    PingPong IcmpPing SpiralFile HttpClient ParallelMap EpollRead ClassLoader BlendImages FindExecutables
    GccOutput MutexAdd MatrixProduct ForkChains SignalLoops TimeoutRun ExecCgi Pipes WriteFifo
    FindSubstrings ParallelSum ShmPrograms TcpClient FileLists ExecGcc TcpServers DnsMain LibraryPrograms TcpClients
begin

text \<open>
  A model of the C programs of the repository, a collection of some ninety small programs of an operating
  systems course, each in a directory of its own under \<^verbatim>\<open>src/\<close>.  The programs do not call each other; what
  they share is the C vocabulary and the way they use the operating system, and that is what the theories share.

  The library:
  \<^item> \<open>Prelude\<close>: fixed-width integers, NUL-terminated strings, decimal digits, lists accessed by index
    (\<open>overwrite\<close>, \<open>slice\<close>), copying into buffers.
  \<^item> \<open>PosixIO\<close>: descriptors.  \<^verbatim>\<open>read\<close> and \<^verbatim>\<open>write\<close> may transfer less than asked or fail; a descriptor carries a
    schedule that decides it, and the theorems quantify over the schedules.  What a caller may rely on is stated by the
    locales \<open>posix_read\<close> and \<open>posix_write\<close>, interpreted by the model's descriptors.

  The components, each with the program it models:
  \<^item> \<open>WordPrograms\<close>: \<^verbatim>\<open>satsum\<close>, \<^verbatim>\<open>generic-ieee754-classify\<close> and \<^verbatim>\<open>min-bytes-for-hex\<close>, on words.  The theorems give
    the mathematical meaning of their results.
  \<^item> \<open>Utf8Count\<close>: \<^verbatim>\<open>utf8-count-symbols\<close>.  Its loop counts exactly the well-formed sequences, as long as its \<^verbatim>\<open>int\<close> counters can.
  \<^item> \<open>BitsetCalc\<close>: \<^verbatim>\<open>bitset-calc\<close>.  The calculator on 64-bit words refines one on sets of characters.
  \<^item> \<open>ReadFilterWrite\<close>: \<^verbatim>\<open>inf08-0\<close>.  The loops \<^verbatim>\<open>read_bytes\<close> and \<^verbatim>\<open>write_bytes\<close> against the contracts of \<open>PosixIO\<close>,
    and \<^verbatim>\<open>main\<close>, which splits a file for every behaviour of the system calls.
  \<^item> \<open>ExternalSort\<close>: \<^verbatim>\<open>inf08-2\<close>.  Merge sort over files; \<^verbatim>\<open>qsort\<close> is a parameter whose contract is the locale
    \<open>c_qsort\<close>.  The file ends sorted when its size and the differences of its numbers fit into an \<^verbatim>\<open>int\<close>; else the
    comparison function wraps around and the program is undefined.
  \<^item> \<open>MergeSort\<close>: the C routines of \<^verbatim>\<open>inf05-2\<close>, in place on an array.
  \<^item> \<open>PrintList\<close>: \<^verbatim>\<open>inf08-1\<close> and \<^verbatim>\<open>inf10-1\<close>.  Walking a linked list in a file, read or mapped, and printing decimal
    numbers into a buffer.
  \<^item> \<open>PrintListWinapi\<close>: \<^verbatim>\<open>inf08-3\<close>.  The same program on the Windows API, with the failures it does not notice.
  \<^item> \<open>SwapAllocator\<close>: \<^verbatim>\<open>inf10-3\<close>.  \<^verbatim>\<open>my_malloc\<close> and \<^verbatim>\<open>my_free\<close> over the cells of a mapped file.  The contract of an allocator
    is the locale \<open>block_allocator\<close>; the cells are related to a set of blocks in use, the invariant holds in all
    heaps that requests below a bound can reach, and one request beyond it breaks it.
  \<^item> \<open>LockFreeList\<close>: \<^verbatim>\<open>inf19-2/main.c\<close>.  A step relation for the interleavings of the atomic actions of all
    threads; the list refines a log to which the threads append.
  \<^item> \<open>DnsResolver\<close> and \<open>DnsMain\<close>: \<^verbatim>\<open>inf22-2\<close>.  Encoding a question, sending it to a server that is a parameter, reading the
    reply; the sockets that are not closed use up the descriptors.
  \<^item> \<open>HttpServer\<close> and \<open>HttpServerExec\<close>: \<^verbatim>\<open>inf16-1\<close> and \<^verbatim>\<open>inf16-2\<close>.  From the bytes of a request to those of the response, the
    accept loop with signals before, while and after it waits, the files that the first server does not close, the child processes of the second server.
  \<^item> \<open>HttpClient\<close>: \<^verbatim>\<open>inf23-0\<close> and \<^verbatim>\<open>inf23-1\<close>.  Two clients, from the arguments to the printed body, for every size of the first
    read; the first server refuses the requests of one of them.
  \<^item> \<open>SimpleFS\<close> and \<open>MergeFS\<close>: \<^verbatim>\<open>inf24-0\<close> and \<^verbatim>\<open>inf24-1\<close>.  The operations of two FUSE file systems.
  \<^item> \<open>EpollServer\<close>: \<^verbatim>\<open>inf17-1\<close>.  The event loop of an echo server.
  \<^item> \<open>PrimeFactors\<close>: \<^verbatim>\<open>pyprimes/primes.c\<close>.  Factorisation by trial division, printed as text.
  \<^item> \<open>NormalizePath\<close>: \<^verbatim>\<open>inf09-0\<close>.  The in-place normalisation of a path string, its couplers and its buffers; the
    result names the same place as the path.
  \<^item> \<open>ExprParser\<close> and \<open>ArmCodegen\<close>: \<^verbatim>\<open>asm-arm_codegen_compileexpr-1\<close>.  The sorting station that turns an infix expression
    into postfix form, the generator of ARM code, and the subset of the ARM machine on which the emitted words
    run; the machine code leaves the value of the postfix expression.
  \<^item> \<open>PrimesCondvar\<close> and \<open>PrimesGenerator\<close>: \<^verbatim>\<open>inf19-1\<close>.  Two programs in which a thread hands primes to another through
    a mutex and a condition variable, as step functions with all their interleavings and spurious wake-ups.
  \<^item> \<open>Smokers\<close>: \<^verbatim>\<open>inf20-2\<close>.  Two programs with four processes, shared semaphores and the signals that end them; one
    of them may hang.
  \<^item> \<open>LockFreePush\<close>: \<^verbatim>\<open>inf19-2/file.c\<close>.  Pushing to the front of a list, against the log of \<open>LockFreeList\<close>.
  \<^item> \<open>PingPong\<close>: \<^verbatim>\<open>inf18-2\<close>.  Two threads that pass a number through a pair of sockets.
  \<^item> \<open>IcmpPing\<close>: \<^verbatim>\<open>inf22-1\<close>.  The internet checksum on words, the echo request and the loop that counts answers.
  \<^item> \<open>SpiralFile\<close>: \<^verbatim>\<open>inf10-2\<close>.  The rings of a number spiral, written line by line into a mapped file; the file
    then holds the rows of a spiral defined by recursion.
  \<^item> \<open>ParallelMap\<close>: \<^verbatim>\<open>inf20-1\<close>.  A function applied to an array by a bounded number of threads, with a semaphore, as
    a step relation with all interleavings.
  \<^item> \<open>EpollRead\<close>: \<^verbatim>\<open>inf17-0\<close>.  Counting the bytes of several descriptors with epoll, for every order of the events.
  \<^item> \<open>ClassLoader\<close>: \<^verbatim>\<open>inf21-2\<close>.  Mangled names of constructors, with a function that reads them back, and the errors of
    loading a class.
  \<^item> \<open>SingleFloat\<close> and \<open>BlendImages\<close>: \<^verbatim>\<open>inf06-4\<close>.  Rounding in single precision with the locale \<open>single_rounding\<close>, and
    blending two bitmap files; the result is the exact mixture rounded to the nearest integer.
  \<^item> \<open>FindExecutables\<close>: \<^verbatim>\<open>inf09-2\<close>.  Printing the files that are marked executable and cannot run, over a file system
    that is a parameter.
  \<^item> \<open>GccOutput\<close>: \<^verbatim>\<open>inf15-2\<close>.  Counting the lines with errors and warnings in the output of a compiler.
  \<^item> \<open>MutexAdd\<close>: \<^verbatim>\<open>inf19-0\<close>.  Threads that add to the cells of an array under one mutex; no interleaving loses an addition.
  \<^item> \<open>MatrixProduct\<close>: \<^verbatim>\<open>inf06-3\<close> and \<^verbatim>\<open>pymatrixdot\<close>.  Products of matrices with the rounding of single and double precision; the
    locale \<open>integer_exact\<close> says which integers rounding leaves alone.
  \<^item> \<open>ForkChains\<close>: \<^verbatim>\<open>inf11-0\<close>, \<^verbatim>\<open>inf11-1\<close>, \<^verbatim>\<open>inf11-2\<close> and \<^verbatim>\<open>inf18-0\<close>.  Chains of processes that wait for each other: printing numbers, counting words
    in exit statuses.
  \<^item> \<open>SignalLoops\<close>: \<^verbatim>\<open>inf13-0\<close>, \<^verbatim>\<open>inf13-1\<close>, \<^verbatim>\<open>inf14-0\<close> and \<^verbatim>\<open>inf14-1\<close>.  Programs that pause for signals; their loop is the locale
    \<open>exit_loop\<close>, interpreted on three handlers.
  \<^item> \<open>TimeoutRun\<close>: \<^verbatim>\<open>inf14-2\<close>.  A parent that ends a program after some time, with the races between the end of the program, the handler
    and the sleep.
  \<^item> \<open>ScanInput\<close> and \<open>ExecCgi\<close>: \<^verbatim>\<open>inf12-2\<close>.  Reading words with \<^verbatim>\<open>scanf\<close>, and a program that runs a script for a request; the result
    does not depend on the uninitialised arrays.
  \<^item> \<open>Pipes\<close>: \<^verbatim>\<open>inf15-0\<close>, \<^verbatim>\<open>inf15-1\<close> and \<^verbatim>\<open>inf15-4\<close>.  Programs connected by pipes of bounded capacity; readers are the locale
    \<open>pipe_reader\<close>.  The third program is modelled with the descriptor tables of the parent and its children.
  \<^item> \<open>WriteFifo\<close>: \<^verbatim>\<open>inf13-2\<close>.  Numbers written into a named pipe; the printed number counts the complete ones, unless
    \<^verbatim>\<open>SIGPIPE\<close> ends the program.
  \<^item> \<open>FindSubstrings\<close>: \<^verbatim>\<open>inf10-0\<close>.  The positions of a string in a mapped file, all but the one at the end of the file.
  \<^item> \<open>ParallelSum\<close>: \<^verbatim>\<open>inf18-1\<close>.  Threads that read numbers from a common input and add them, with the reading of numbers from
    \<open>ScanInput\<close>; no interleaving loses a number.
  \<^item> \<open>ShmPrograms\<close>: \<^verbatim>\<open>inf21-1\<close> and \<^verbatim>\<open>inf20-0\<close>.  A server that calls functions for other processes through shared memory and two
    semaphores, with a library that it fails to open, and printing an array out of shared memory.
  \<^item> \<open>TcpClient\<close>: \<^verbatim>\<open>inf16-0\<close>.  Numbers sent to a server and read back, with the calls that transfer a part.
  \<^item> \<open>FileLists\<close>: \<^verbatim>\<open>inf09-1\<close> and \<^verbatim>\<open>inf09-3\<close>.  Adding the sizes of files, printing and making symbolic links.
  \<^item> \<open>ExecGcc\<close>: \<^verbatim>\<open>inf12-1\<close>.  An expression that is compiled by a child process and run; the compiler is a parameter.
  \<^item> \<open>TcpServers\<close>: \<^verbatim>\<open>main\<close> of \<^verbatim>\<open>inf16-1\<close>, \<^verbatim>\<open>inf16-2\<close> and \<^verbatim>\<open>inf17-1\<close>.  The address, the socket and the three servers from their
    arguments to their end.
  \<^item> \<open>LibraryPrograms\<close>: \<^verbatim>\<open>inf25-0\<close>, \<^verbatim>\<open>inf25-1\<close> and \<^verbatim>\<open>inf23-2\<close>.  Hashing, decryption and a client over OpenSSL and curl, which
    are parameters with their laws as hypotheses.
  \<^item> \<open>TcpClients\<close>: \<^verbatim>\<open>main\<close> of \<^verbatim>\<open>inf23-0\<close> and \<^verbatim>\<open>inf23-1\<close> over the same model of addresses.

  Conventions.  A function of the source keeps its name.  A program's memory is an explicit argument: a buffer is a
  list, a pointer into it an index, a struct a record.  An access that C leaves undefined is \<open>None\<close> or a fault of
  the theory; local arrays that the source does not initialise are arguments with arbitrary contents, so that a theorem
  does not depend on them.  Loops that end are total functions, most by a decreasing measure; loops that may run for
  ever are partial functions with \<open>None\<close> for not ending, and the theorems say when they end.  No fuel is
  used.  Integers are unbounded where the source's bounds cannot be reached, with the argument given beside the
  definition, and words, \<open>to_i32\<close> or \<open>to_size\<close> where wrap-around matters.

  The kinds of theorems: functional correctness of the program or of its main routines on all inputs in
  the stated bounds; invariants over all reachable states of the allocator, the thread interleavings, the
  event loop and the child processes; termination; round trips (decimal output, file system images, allocation and
  release); and, where the code does not do what it should, a theorem that shows exactly what it does instead.

  Not modelled: printing of log messages, failures of \<^verbatim>\<open>malloc\<close> and of \<^verbatim>\<open>pthread_create\<close>; the programs that only call
  Python; programs of a few system calls without logic of their own; assembler routines and the C programs
  that only call them; the part of \<^verbatim>\<open>inf15-3\<close> behind the early return of its \<^verbatim>\<open>main\<close>, which no run reaches.  The manifest
  lists every program with its state.
\<close>

end
